(* ===== verification/Prelude.thy ===== *)
theory Prelude
  imports Complex_Main "HOL-Library.Multiset"
begin

text \<open>
  Shared base of the development: the collections of rewrite rules that the component
  proofs use, the result type of operations that may abort, the C conversions from
  floating point to integer, and generic facts on lists that several components need.

  C++ signed integers of the agents (counters, identifiers, enumeration values) are
  modelled by \<^typ>\<open>int\<close>; overflowing them is undefined behaviour in the source
  and never relied upon there.
\<close>

section \<open>Collections\<close>

named_theorems tag_ops \<open>operations of the RFID tag agent\<close>
named_theorems reader_ops \<open>operations of the RFID reader agent\<close>
named_theorems sched_ops \<open>operations of the event scheduler\<close>
named_theorems queue_ops \<open>operations of the packet queues\<close>

section \<open>Results of operations that may abort\<close>

text \<open>
  \<open>abort()\<close>, \<open>exit(1)\<close> and a failed \<open>assert\<close> end the simulator: an operation that can
  reach one returns \<open>Inl\<close> with the reason, and \<open>Inr\<close> with the new state otherwise.
\<close>

type_synonym ('e, 'a) result = "'e + 'a"

definition bind_res :: "('e, 'a) result \<Rightarrow> ('a \<Rightarrow> ('e, 'b) result) \<Rightarrow> ('e, 'b) result" where
  "bind_res m f = (case m of Inl e \<Rightarrow> Inl e | Inr a \<Rightarrow> f a)"

lemma bind_res_simps [simp]:
  "bind_res (Inl e) f = Inl e"
  "bind_res (Inr a) f = f a"
  by (simp_all add: bind_res_def)

lemma bind_res_Inr: "bind_res m f = Inr b \<longleftrightarrow> (\<exists>a. m = Inr a \<and> f a = Inr b)"
  by (cases m) auto

lemma bind_res_Inl: "bind_res m f = Inl e \<longleftrightarrow> m = Inl e \<or> (\<exists>a. m = Inr a \<and> f a = Inl e)"
  by (cases m) auto

section \<open>C conversions to integer\<close>

text \<open>\<open>round\<close> of math.h rounds half away from zero, and conversion to \<open>int\<close> truncates.\<close>

definition c_round :: "real \<Rightarrow> int" where
  "c_round x = (if 0 \<le> x then \<lfloor>x + 1/2\<rfloor> else - \<lfloor>1/2 - x\<rfloor>)"

definition c_trunc :: "real \<Rightarrow> int" where
  "c_trunc x = (if 0 \<le> x then \<lfloor>x\<rfloor> else \<lceil>x\<rceil>)"

lemma c_round_of_int [simp]: "c_round (of_int n) = n"
proof -
  have "\<lfloor>of_int n + 1/2 :: real\<rfloor> = n" by (simp add: floor_eq_iff)
  moreover have "\<lfloor>1/2 - of_int n :: real\<rfloor> = - n" by (simp add: floor_eq_iff)
  ultimately show ?thesis by (simp add: c_round_def)
qed

lemma c_round_nonneg: "0 \<le> x \<Longrightarrow> 0 \<le> c_round x"
  by (simp add: c_round_def)

lemma c_round_mono: "0 \<le> x \<Longrightarrow> x \<le> y \<Longrightarrow> c_round x \<le> c_round y"
  by (simp add: c_round_def floor_mono)

lemma c_round_le_of_int: "0 \<le> x \<Longrightarrow> x \<le> of_int n \<Longrightarrow> c_round x \<le> n"
  using c_round_mono [of x "of_int n"] by simp

lemma of_int_le_c_round: "0 \<le> n \<Longrightarrow> of_int n \<le> x \<Longrightarrow> n \<le> c_round x"
  using c_round_mono [of "of_int n" x] by simp

lemma c_trunc_of_int [simp]: "c_trunc (of_int n) = n"
  by (simp add: c_trunc_def)

lemma c_trunc_nonneg: "0 \<le> x \<Longrightarrow> 0 \<le> c_trunc x"
  by (simp add: c_trunc_def)

lemma c_trunc_mono: "0 \<le> x \<Longrightarrow> x \<le> y \<Longrightarrow> c_trunc x \<le> c_trunc y"
  by (simp add: c_trunc_def floor_mono)

lemma c_trunc_le_of_int: "0 \<le> x \<Longrightarrow> x \<le> of_int n \<Longrightarrow> c_trunc x \<le> n"
  using c_trunc_mono [of x "of_int n"] by simp

lemma c_trunc_small: "\<bar>x\<bar> < 1 \<Longrightarrow> c_trunc x = 0"
  by (auto simp: c_trunc_def floor_eq_iff ceiling_eq_iff)

end
