(* ===== verification/MachineFloat.thy ===== *)
theory MachineFloat
  imports Prelude
begin

text \<open>
  IEEE binary floating point, as far as the agents use it: the finite values are real
  numbers, and every arithmetic operation of the source is the exact operation followed
  by rounding to the nearest representable value, ties to even. \<open>to_double\<close> and
  \<open>to_float\<close> are the roundings of the C++ types \<open>double\<close> (53 bits) and \<open>float\<close>
  (24 bits), gradual underflow included. Infinities and NaNs do not occur in the ranges
  the agents work in and are not represented.
\<close>

definition ilog2 :: "real \<Rightarrow> int" where
  "ilog2 x = \<lfloor>log 2 \<bar>x\<bar>\<rfloor>"

definition rne :: "real \<Rightarrow> int" where
  "rne x = (let f = \<lfloor>x\<rfloor>; d = x - of_int f
            in if d < 1/2 then f else if 1/2 < d then f + 1
               else if even f then f else f + 1)"

definition fl_round :: "nat \<Rightarrow> int \<Rightarrow> real \<Rightarrow> real" where
  "fl_round p emin x =
     (if x = 0 then 0
      else let q = 2 powi (max (ilog2 x) emin - (int p - 1))
           in of_int (rne (x / q)) * q)"

definition to_double :: "real \<Rightarrow> real" where
  "to_double = fl_round 53 (-1022)"

definition to_float :: "real \<Rightarrow> real" where
  "to_float = fl_round 24 (-126)"

definition dadd :: "real \<Rightarrow> real \<Rightarrow> real" where "dadd x y = to_double (x + y)"
definition dsub :: "real \<Rightarrow> real \<Rightarrow> real" where "dsub x y = to_double (x - y)"
definition dmul :: "real \<Rightarrow> real \<Rightarrow> real" where "dmul x y = to_double (x * y)"

section \<open>Rounding to an integer, ties to even\<close>

lemma rne_of_int [simp]: "rne (of_int k) = k"
  by (simp add: rne_def)

lemma rne_error: "\<bar>of_int (rne x) - x\<bar> \<le> 1/2"
proof -
  have "0 \<le> x - of_int \<lfloor>x\<rfloor>" "x - of_int \<lfloor>x\<rfloor> < 1"
    using floor_correct [of x] by linarith+
  then show ?thesis by (auto simp: rne_def Let_def)
qed

lemma rne_cases: "rne x = \<lfloor>x\<rfloor> \<or> rne x = \<lfloor>x\<rfloor> + 1"
  by (simp add: rne_def Let_def)

lemma rne_mono:
  assumes "x \<le> y"
  shows "rne x \<le> rne y"
proof (cases "\<lfloor>x\<rfloor> = \<lfloor>y\<rfloor>")
  case True
  with assms show ?thesis by (auto simp: rne_def Let_def)
next
  case False
  then have "\<lfloor>x\<rfloor> + 1 \<le> \<lfloor>y\<rfloor>" using floor_mono [OF assms] by simp
  then show ?thesis using rne_cases [of x] rne_cases [of y] by auto
qed

lemma rne_minus: "rne (- x) = - rne x"
proof (cases "x = of_int \<lfloor>x\<rfloor>")
  case True
  then obtain k where "x = of_int k" by blast
  then have "rne (- x) = rne (of_int (- k))" by simp
  with \<open>x = of_int k\<close> show ?thesis by (simp only: rne_of_int)
next
  case False
  then have "\<lfloor>- x\<rfloor> = - \<lfloor>x\<rfloor> - 1"
    using floor_correct [of x] by (simp add: floor_eq_iff) linarith
  then show ?thesis by (auto simp: rne_def Let_def)
qed

section \<open>Binary exponent\<close>

lemma ilog2_bounds:
  assumes "x \<noteq> 0"
  shows "2 powi (ilog2 x) \<le> \<bar>x\<bar>" and "\<bar>x\<bar> < 2 powi (ilog2 x + 1)"
proof -
  have p: "2 powr (log 2 \<bar>x\<bar>) = \<bar>x\<bar>" using assms by simp
  have "2 powr (of_int (ilog2 x)) \<le> 2 powr (log 2 \<bar>x\<bar>)"
    by (rule powr_mono) (auto simp: ilog2_def)
  with p show "2 powi (ilog2 x) \<le> \<bar>x\<bar>" by (simp add: powr_real_of_int')
  have "2 powr (log 2 \<bar>x\<bar>) < 2 powr (of_int (ilog2 x + 1))"
    by (rule powr_less_mono) (simp_all add: ilog2_def)
  with p show "\<bar>x\<bar> < 2 powi (ilog2 x + 1)"
    by (metis powr_real_of_int' zero_le_numeral zero_neq_numeral)
qed

lemma powi2_mono: "i \<le> j \<Longrightarrow> (2::real) powi i \<le> 2 powi j"
  by (rule power_int_increasing) auto

lemma powi2_less_iff: "(2::real) powi i < 2 powi j \<longleftrightarrow> i < j"
  by (meson linorder_not_le one_less_numeral_iff power_int_strict_increasing powi2_mono semiring_norm(76))

lemma powi2_pos [simp]: "(0::real) < 2 powi i"
  by simp

lemma ilog2_unique:
  assumes "2 powi e \<le> \<bar>x\<bar>" and "\<bar>x\<bar> < 2 powi (e + 1)"
  shows "ilog2 x = e"
proof -
  have "x \<noteq> 0" using assms(1) by (metis abs_zero not_le powi2_pos)
  note b = ilog2_bounds [OF this]
  have "(2::real) powi e < 2 powi (ilog2 x + 1)" "(2::real) powi (ilog2 x) < 2 powi (e + 1)"
    using assms b by linarith+
  then show ?thesis by (simp add: powi2_less_iff)
qed

lemma ilog2_mono: "0 < x \<Longrightarrow> x \<le> y \<Longrightarrow> ilog2 x \<le> ilog2 y"
  by (simp add: ilog2_def floor_mono)

section \<open>Rounding to a format\<close>

abbreviation ulp_of :: "nat \<Rightarrow> int \<Rightarrow> real \<Rightarrow> real" where
  "ulp_of p emin x \<equiv> 2 powi (max (ilog2 x) emin - (int p - 1))"

lemma fl_round_0 [simp]: "fl_round p emin 0 = 0"
  by (simp add: fl_round_def)

lemma fl_round_ulp: "x \<noteq> 0 \<Longrightarrow> fl_round p emin x = of_int (rne (x / ulp_of p emin x)) * ulp_of p emin x"
  by (simp add: fl_round_def Let_def)

lemma fl_round_minus: "fl_round p emin (- x) = - fl_round p emin x"
proof (cases "x = 0")
  case False
  have "ilog2 (- x) = ilog2 x" by (simp add: ilog2_def)
  with False show ?thesis by (simp add: fl_round_ulp rne_minus)
qed simp

text \<open>Every value \<open>m * 2 ^ k\<close> with at most \<open>p\<close> significant bits is a fixed point.\<close>

lemma fl_round_exact_less:
  assumes "x = of_int m * 2 powi k" and "\<bar>m\<bar> < 2 ^ p" and "emin - (int p - 1) \<le> k"
  shows "fl_round p emin x = x"
proof (cases "x = 0")
  case False
  let ?e = "max (ilog2 x) emin - (int p - 1)"
  have "\<bar>x\<bar> = of_int \<bar>m\<bar> * 2 powi k" using assms(1) by (simp add: abs_mult)
  also have "\<dots> < 2 ^ p * 2 powi k"
  proof -
    have "(of_int \<bar>m\<bar> :: real) < of_int (2 ^ p)" using assms(2) of_int_less_iff by blast
    then show ?thesis by simp
  qed
  also have "\<dots> = 2 powi (int p + k)" by (simp add: power_int_add)
  finally have "2 powi (ilog2 x) < (2::real) powi (int p + k)"
    using ilog2_bounds(1) [OF False] by linarith
  then have "?e \<le> k" using assms(3) by (simp add: powi2_less_iff)
  then obtain d where d: "k = ?e + int d" using zle_iff_zadd by auto
  have "(2::real) powi k = 2 powi ?e * 2 ^ d"
    by (metis d power_int_add power_int_of_nat zero_neq_numeral)
  then have "of_int m * 2 powi k = of_int (m * 2 ^ d) * (2::real) powi ?e" by simp
  with assms(1) have x: "x = of_int (m * 2 ^ d) * 2 powi ?e" by (rule trans)
  then have "x / 2 powi ?e = of_int (m * 2 ^ d)" by (simp add: divide_eq_eq)
  then have "rne (x / 2 powi ?e) = m * 2 ^ d" by (simp only: rne_of_int)
  with x show ?thesis using False by (simp add: fl_round_ulp)
qed simp

lemma fl_round_exact:
  assumes x: "x = of_int m * 2 powi k" and m: "\<bar>m\<bar> \<le> 2 ^ p"
    and k: "emin - (int p - 1) \<le> k" and p: "0 < p"
  shows "fl_round p emin x = x"
proof (cases "\<bar>m\<bar> < 2 ^ p")
  case True
  with x k show ?thesis by (blast intro: fl_round_exact_less)
next
  case False
  with m have "\<bar>m\<bar> = 2 ^ p" by simp
  then have "m = sgn m * 2 ^ p" by (metis sgn_mult_abs)
  then have "(of_int m :: real) = of_int (sgn m) * 2 ^ p"
    by (metis of_int_mult of_int_numeral of_int_power)
  then have "x = of_int (sgn m) * 2 powi (k + int p)"
    using x by (simp add: power_int_add)
  moreover have "\<bar>sgn m\<bar> < 2 ^ p" using p by (simp add: abs_sgn_eq)
  moreover have "emin - (int p - 1) \<le> k + int p" using k by simp
  ultimately show ?thesis by (rule fl_round_exact_less)
qed

lemma fl_round_of_int:
  assumes "\<bar>n\<bar> \<le> 2 ^ p" and "0 < p" and "emin \<le> 0"
  shows "fl_round p emin (of_int n) = of_int n"
  using assms by (intro fl_round_exact [where m = n and k = 0]) auto

text \<open>The rounded value is within half a unit in the last place.\<close>

lemma fl_round_error: "x \<noteq> 0 \<Longrightarrow> \<bar>fl_round p emin x - x\<bar> \<le> ulp_of p emin x / 2"
proof -
  assume "x \<noteq> 0"
  let ?u = "ulp_of p emin x"
  have "fl_round p emin x - x = (of_int (rne (x / ?u)) - x / ?u) * ?u"
    using \<open>x \<noteq> 0\<close> by (simp add: fl_round_ulp algebra_simps)
  then have "\<bar>fl_round p emin x - x\<bar> = \<bar>of_int (rne (x / ?u)) - x / ?u\<bar> * ?u"
    by (simp add: abs_mult)
  also have "\<dots> \<le> 1/2 * ?u" using rne_error by (intro mult_right_mono) auto
  finally show ?thesis by simp
qed

lemma fl_round_relerror:
  assumes "2 powi emin \<le> \<bar>x\<bar>"
  shows "\<bar>fl_round p emin x - x\<bar> \<le> 2 powi (- int p) * \<bar>x\<bar>"
proof -
  have nz: "x \<noteq> 0" using assms by (metis abs_zero not_le powi2_pos)
  have "(2::real) powi emin < 2 powi (ilog2 x + 1)"
    using assms ilog2_bounds(2) [OF nz] by linarith
  then have "max (ilog2 x) emin = ilog2 x" by (simp add: powi2_less_iff)
  moreover have "(2::real) powi (ilog2 x - (int p - 1)) = 2 * (2 powi (- int p) * 2 powi (ilog2 x))"
    by (simp add: power_int_diff power_int_minus power_int_add field_simps)
  ultimately have "\<bar>fl_round p emin x - x\<bar> \<le> 2 powi (- int p) * 2 powi (ilog2 x)"
    using fl_round_error [OF nz, of p emin] by simp
  also have "\<dots> \<le> 2 powi (- int p) * \<bar>x\<bar>"
    by (intro mult_left_mono ilog2_bounds(1) [OF nz]) simp
  finally show ?thesis .
qed

lemma fl_round_representable:
  assumes "0 < p"
  obtains m k where "fl_round p emin x = of_int m * 2 powi k" "\<bar>m\<bar> \<le> 2 ^ p" "emin - (int p - 1) \<le> k"
proof (cases "x = 0")
  case True
  then show ?thesis using that [of 0 "emin - (int p - 1)"] by simp
next
  case False
  let ?u = "ulp_of p emin x"
  have "\<bar>x\<bar> < 2 powi (max (ilog2 x) emin + 1)"
    using ilog2_bounds(2) [OF False] powi2_mono [of "ilog2 x + 1" "max (ilog2 x) emin + 1"] by simp
  also have "\<dots> = 2 ^ p * ?u"
  proof -
    have "max (ilog2 x) emin + 1 = int p + (max (ilog2 x) emin - (int p - 1))" by simp
    then have "(2::real) powi (max (ilog2 x) emin + 1) = 2 powi (int p) * ?u"
      by (metis power_int_add zero_neq_numeral)
    then show ?thesis by simp
  qed
  finally have xu: "\<bar>x\<bar> / ?u \<le> of_int (2 ^ p)" by (simp add: divide_le_eq)
  then have "x / ?u \<le> of_int (2 ^ p)" "of_int (- (2 ^ p)) \<le> x / ?u"
    by (simp_all add: divide_le_eq le_divide_eq abs_le_iff)
  then have "rne (x / ?u) \<le> 2 ^ p" "- (2 ^ p) \<le> rne (x / ?u)"
    using rne_mono [of "x / ?u" "of_int (2 ^ p)"] rne_mono [of "of_int (- (2 ^ p))" "x / ?u"]
    by (simp_all only: rne_of_int)
  then have "\<bar>rne (x / ?u)\<bar> \<le> 2 ^ p" by simp
  then show ?thesis using that [OF fl_round_ulp [OF False]] by simp
qed

lemma fl_round_idem: "0 < p \<Longrightarrow> fl_round p emin (fl_round p emin x) = fl_round p emin x"
  by (rule fl_round_representable [of p emin x]) (auto intro: fl_round_exact)

lemma fl_round_nonneg: "0 \<le> x \<Longrightarrow> 0 \<le> fl_round p emin x"
proof (cases "x = 0")
  case False
  assume "0 \<le> x"
  then have "of_int 0 \<le> x / ulp_of p emin x" by simp
  then have "0 \<le> rne (x / ulp_of p emin x)" using rne_mono rne_of_int by metis
  with False show ?thesis by (simp add: fl_round_ulp)
qed simp

text \<open>Rounding is monotone; in particular a representable bound of the exact result bounds
  the rounded result too.\<close>

lemma fl_round_mono_nonneg:
  assumes "0 \<le> x" and "x \<le> y" and p: "0 < p"
  shows "fl_round p emin x \<le> fl_round p emin y"
proof (cases "x = 0 \<or> max (ilog2 x) emin = max (ilog2 y) emin")
  case True
  show ?thesis
  proof (cases "x = 0")
    case False
    with True have eq: "ulp_of p emin x = ulp_of p emin y" by simp
    have "x / ulp_of p emin x \<le> y / ulp_of p emin x"
      using assms(2) by (simp add: divide_right_mono)
    then have "rne (x / ulp_of p emin x) \<le> rne (y / ulp_of p emin x)" by (rule rne_mono)
    moreover have "y \<noteq> 0" using False assms by simp
    ultimately show ?thesis using False eq by (simp add: fl_round_ulp)
  qed (use assms fl_round_nonneg in auto)
next
  case False
  then have "0 < x" using assms by simp
  then have le: "ilog2 x \<le> ilog2 y" using assms by (intro ilog2_mono) auto
  let ?E = "max (ilog2 x) emin"
  have lt: "?E + 1 \<le> ilog2 y" using False le by auto
  have nz: "x \<noteq> 0" "y \<noteq> 0" using \<open>0 < x\<close> assms by auto
  have P: "(2::real) powi (?E + 1) = of_int (2 ^ p) * ulp_of p emin x"
  proof -
    have "?E + 1 = int p + (?E - (int p - 1))" by simp
    then have "(2::real) powi (?E + 1) = 2 powi (int p) * ulp_of p emin x"
      by (metis power_int_add zero_neq_numeral)
    then show ?thesis by simp
  qed
  have "x \<le> 2 powi (?E + 1)"
    using ilog2_bounds(2) [OF nz(1)] \<open>0 < x\<close> powi2_mono [of "ilog2 x + 1" "?E + 1"] by simp
  then have "x / ulp_of p emin x \<le> of_int (2 ^ p)" unfolding P by (simp add: divide_le_eq)
  then have "rne (x / ulp_of p emin x) \<le> 2 ^ p" using rne_mono rne_of_int by metis
  then have "of_int (rne (x / ulp_of p emin x)) * ulp_of p emin x \<le> of_int (2 ^ p) * ulp_of p emin x"
    by (intro mult_right_mono) (simp_all only: of_int_le_iff, simp)
  then have A: "fl_round p emin x \<le> 2 powi (ilog2 y)"
    using powi2_mono [OF lt] P fl_round_ulp [OF nz(1), of p emin] by linarith
  have M: "max (ilog2 y) emin = ilog2 y" using lt by simp
  have Y: "(2::real) powi (ilog2 y) = of_int (2 ^ (p - 1)) * ulp_of p emin y"
  proof -
    have "ilog2 y = int (p - 1) + (ilog2 y - (int p - 1))" using p by simp
    then have "(2::real) powi (ilog2 y) = 2 powi (int (p - 1)) * 2 powi (ilog2 y - (int p - 1))"
      by (metis power_int_add zero_neq_numeral)
    then show ?thesis by (simp add: M)
  qed
  have "2 powi (ilog2 y) \<le> y" using ilog2_bounds(1) [OF nz(2)] assms by simp
  then have "of_int (2 ^ (p - 1)) \<le> y / ulp_of p emin y" unfolding Y by (simp add: le_divide_eq)
  then have "2 ^ (p - 1) \<le> rne (y / ulp_of p emin y)" using rne_mono rne_of_int by metis
  then have "of_int (2 ^ (p - 1)) * ulp_of p emin y \<le> of_int (rne (y / ulp_of p emin y)) * ulp_of p emin y"
    by (intro mult_right_mono) (simp_all only: of_int_le_iff, simp)
  then have "2 powi (ilog2 y) \<le> fl_round p emin y" using nz Y by (simp add: fl_round_ulp)
  with A show ?thesis by linarith
qed

lemma fl_round_le_representable:
  "0 \<le> x \<Longrightarrow> x \<le> r \<Longrightarrow> 0 < p \<Longrightarrow> fl_round p emin r = r \<Longrightarrow> fl_round p emin x \<le> r"
  using fl_round_mono_nonneg by metis

section \<open>The two formats of the source\<close>

lemma to_double_0 [simp]: "to_double 0 = 0"
  and to_float_0 [simp]: "to_float 0 = 0"
  by (simp_all add: to_double_def to_float_def)

lemma to_double_minus: "to_double (- x) = - to_double x"
  and to_float_minus: "to_float (- x) = - to_float x"
  by (simp_all add: to_double_def to_float_def fl_round_minus)

lemma to_double_nonneg: "0 \<le> x \<Longrightarrow> 0 \<le> to_double x"
  and to_float_nonneg: "0 \<le> x \<Longrightarrow> 0 \<le> to_float x"
  by (simp_all add: to_double_def to_float_def fl_round_nonneg)

lemma to_double_of_int: "\<bar>n\<bar> \<le> 2 ^ 53 \<Longrightarrow> to_double (of_int n) = of_int n"
  unfolding to_double_def by (rule fl_round_of_int) auto

lemma to_float_of_int: "\<bar>n\<bar> \<le> 2 ^ 24 \<Longrightarrow> to_float (of_int n) = of_int n"
  unfolding to_float_def by (rule fl_round_of_int) auto

lemma to_double_exact:
  "x = of_int m * 2 powi k \<Longrightarrow> \<bar>m\<bar> \<le> 2 ^ 53 \<Longrightarrow> - 1074 \<le> k \<Longrightarrow> to_double x = x"
  unfolding to_double_def by (rule fl_round_exact) auto

lemma to_float_exact:
  "x = of_int m * 2 powi k \<Longrightarrow> \<bar>m\<bar> \<le> 2 ^ 24 \<Longrightarrow> - 149 \<le> k \<Longrightarrow> to_float x = x"
  unfolding to_float_def by (rule fl_round_exact) auto

lemma to_float_idem [simp]: "to_float (to_float x) = to_float x"
  by (simp add: to_float_def fl_round_idem)

lemma to_double_idem [simp]: "to_double (to_double x) = to_double x"
  by (simp add: to_double_def fl_round_idem)

text \<open>Every \<open>float\<close> value is a \<open>double\<close> value: widening loses nothing.\<close>

lemma to_double_to_float [simp]: "to_double (to_float x) = to_float x"
proof -
  obtain m k where "to_float x = of_int m * 2 powi k" "\<bar>m\<bar> \<le> 2 ^ 24" "-126 - (int 24 - 1) \<le> k"
    unfolding to_float_def by (rule fl_round_representable [of 24 "-126" x]) auto
  then show ?thesis by (intro to_double_exact [of _ m k]) auto
qed

lemma to_double_mono: "0 \<le> x \<Longrightarrow> x \<le> y \<Longrightarrow> to_double x \<le> to_double y"
  and to_float_mono: "0 \<le> x \<Longrightarrow> x \<le> y \<Longrightarrow> to_float x \<le> to_float y"
  by (simp_all add: to_double_def to_float_def fl_round_mono_nonneg)

lemma to_double_relerror: "2 powi (-1022) \<le> \<bar>x\<bar> \<Longrightarrow> \<bar>to_double x - x\<bar> \<le> 2 powi (-53) * \<bar>x\<bar>"
  using fl_round_relerror [of "-1022" x 53] by (simp add: to_double_def)

lemma to_double_mono_all:
  assumes "x \<le> y"
  shows "to_double x \<le> to_double y"
proof -
  consider "0 \<le> x" | "x < 0" "0 \<le> y" | "y < 0" by linarith
  then show ?thesis
  proof cases
    case 1
    then show ?thesis using to_double_mono assms by blast
  next
    case 2
    then have "to_double x \<le> 0" using to_double_nonneg [of "- x"] by (simp add: to_double_minus)
    with 2 show ?thesis using to_double_nonneg [of y] by linarith
  next
    case 3
    then show ?thesis using to_double_mono [of "- y" "- x"] assms by (simp add: to_double_minus)
  qed
qed

end
