(* ===== verification/Packet.thy ===== *)
theory Packet
  imports Prelude
begin

text \<open>
  Packets (common/packet.h, common/ip.h, apps/rfidPacket.h): the header fields that the
  modelled components read or write, the free list behind \<open>Packet::alloc\<close> and
  \<open>Packet::free\<close>, and the part of \<open>Agent\<close> (common/agent.cc) that fills in a new packet.

  A packet's header bits are a record; the packet object itself is identified by its
  address, a natural number, where object identity matters (the free list here, the
  packet queues in their own theories).
\<close>

section \<open>Headers\<close>

record hdr_rfidPacket =
  hdr_id :: int
  hdr_tagEPC :: int
  hdr_tipo :: int
  hdr_singularization :: int
  hdr_service :: int
  hdr_ack :: int
  hdr_rng16 :: real
  hdr_qValue :: int
  hdr_command :: int
  hdr_slotCounter :: int
  hdr_colCounter :: int
  hdr_sucCounter :: int
  hdr_idlCounter :: int
  hdr_slotNumber :: int
  hdr_reply :: int
  hdr_session :: int
  hdr_trace :: int
  hdr_mechanism :: int

definition zero_rfid :: hdr_rfidPacket where
  "zero_rfid = \<lparr>hdr_id = 0, hdr_tagEPC = 0, hdr_tipo = 0, hdr_singularization = 0,
     hdr_service = 0, hdr_ack = 0, hdr_rng16 = 0, hdr_qValue = 0, hdr_command = 0,
     hdr_slotCounter = 0, hdr_colCounter = 0, hdr_sucCounter = 0, hdr_idlCounter = 0,
     hdr_slotNumber = 0, hdr_reply = 0, hdr_session = 0, hdr_trace = 0, hdr_mechanism = 0\<rparr>"

record hdr_ip =
  ip_saddr :: int
  ip_sport :: int
  ip_daddr :: int
  ip_dport :: int
  ip_ttl :: int
  ip_fid :: int
  ip_prio :: int

record hdr_cmn =
  ch_ptype :: int
  ch_size :: int
  ch_error :: int
  ch_iface :: int
  ch_direction :: int
  ch_next_hop :: int
  ch_last_hop :: int
  ch_addr_type :: int
  ch_txtime :: real

record packet =
  cmn :: hdr_cmn
  ip :: hdr_ip
  rfid :: hdr_rfidPacket

text \<open>\<open>IP_BROADCAST\<close> is \<open>0xffffffff\<close>; stored in a signed 32-bit field it is -1.\<close>

abbreviation (input) IP_BROADCAST :: int where "IP_BROADCAST \<equiv> -1"
abbreviation (input) PT_RFIDPACKET :: int where "PT_RFIDPACKET \<equiv> 73"
abbreviation (input) DIR_DOWN :: int where "DIR_DOWN \<equiv> -1"
abbreviation (input) DIR_NONE :: int where "DIR_NONE \<equiv> 0"
abbreviation (input) DIR_UP :: int where "DIR_UP \<equiv> 1"
abbreviation (input) UNKN_IFACE :: int where "UNKN_IFACE \<equiv> -1"

section \<open>The packet free list\<close>

definition packet_init :: packet where
  "packet_init = \<lparr>
     cmn = \<lparr>ch_ptype = 0, ch_size = 0, ch_error = 0, ch_iface = 0, ch_direction = 0,
            ch_next_hop = 0, ch_last_hop = 0, ch_addr_type = 0, ch_txtime = 0\<rparr>,
     ip = \<lparr>ip_saddr = 0, ip_sport = 0, ip_daddr = 0, ip_dport = 0, ip_ttl = 0,
           ip_fid = 0, ip_prio = 0\<rparr>,
     rfid = zero_rfid\<rparr>"

definition packet_alloc_bits :: packet where
  "packet_alloc_bits = packet_init\<lparr>cmn := (cmn packet_init)\<lparr>ch_next_hop := -2,
     ch_last_hop := -2, ch_direction := DIR_DOWN\<rparr>\<rparr>"

record pool =
  p_free :: "nat list"
  p_fflag :: "nat \<Rightarrow> bool"
  p_refcount :: "nat \<Rightarrow> int"
  p_uid :: "nat \<Rightarrow> int"
  p_data :: "nat \<Rightarrow> bool"
  p_bits :: "nat \<Rightarrow> packet"
  p_next :: nat

datatype pool_error = AllocFflag | AllocData | FreeUidPending

definition pool_init :: pool where
  "pool_init = \<lparr>p_free = [], p_fflag = (\<lambda>_. False), p_refcount = (\<lambda>_. 0), p_uid = (\<lambda>_. 0),
     p_data = (\<lambda>_. False), p_bits = (\<lambda>_. packet_init), p_next = 0\<rparr>"

text \<open>\<open>Packet::alloc\<close>: the head of the free list, else a new object.\<close>

definition pool_alloc :: "pool \<Rightarrow> (pool_error, nat \<times> pool) result" where
  "pool_alloc s =
     (case p_free s of
        a # rest \<Rightarrow>
          if p_fflag s a then Inl AllocFflag
          else if p_data s a then Inl AllocData
          else Inr (a, s\<lparr>p_free := rest, p_uid := (p_uid s)(a := 0),
                 p_bits := (p_bits s)(a := packet_alloc_bits),
                 p_fflag := (p_fflag s)(a := True)\<rparr>)
      | [] \<Rightarrow> let a = p_next s in
          Inr (a, s\<lparr>p_next := Suc a, p_refcount := (p_refcount s)(a := 0),
                 p_uid := (p_uid s)(a := 0), p_data := (p_data s)(a := False),
                 p_bits := (p_bits s)(a := packet_alloc_bits),
                 p_fflag := (p_fflag s)(a := True)\<rparr>))"

text \<open>\<open>Packet::free\<close>: only a packet whose free flag is set is released or dereferenced.\<close>

definition pool_free :: "nat \<Rightarrow> pool \<Rightarrow> (pool_error, pool) result" where
  "pool_free a s =
     (if p_fflag s a then
        if p_refcount s a = 0 then
          if p_uid s a > 0 then Inl FreeUidPending
          else Inr (s\<lparr>p_data := (p_data s)(a := False), p_bits := (p_bits s)(a := packet_init),
                 p_free := a # p_free s, p_fflag := (p_fflag s)(a := False)\<rparr>)
        else Inr (s\<lparr>p_refcount := (p_refcount s)(a := p_refcount s a - 1)\<rparr>)
      else Inr s)"

definition pool_refcopy :: "nat \<Rightarrow> pool \<Rightarrow> pool" where
  "pool_refcopy a s = s\<lparr>p_refcount := (p_refcount s)(a := p_refcount s a + 1)\<rparr>"

text \<open>\<open>Packet::copy\<close>: a fresh packet with the same header bits and its own copy of the data.\<close>

definition pool_copy :: "nat \<Rightarrow> pool \<Rightarrow> (pool_error, nat \<times> pool) result" where
  "pool_copy a s = bind_res (pool_alloc s) (\<lambda>(b, s').
     Inr (b, s'\<lparr>p_bits := (p_bits s')(b := p_bits s a), p_data := (p_data s')(b := p_data s a)\<rparr>))"

text \<open>The free list holds exactly the objects whose free flag is down, once each.\<close>

definition pool_ok :: "pool \<Rightarrow> bool" where
  "pool_ok s \<longleftrightarrow> distinct (p_free s) \<and>
     (\<forall>a. a \<in> set (p_free s) \<longleftrightarrow> a < p_next s \<and> \<not> p_fflag s a) \<and>
     (\<forall>a. p_fflag s a \<longrightarrow> a < p_next s) \<and>
     (\<forall>a \<in> set (p_free s). \<not> p_data s a)"

lemma pool_ok_init: "pool_ok pool_init"
  by (simp add: pool_ok_def pool_init_def)

lemma pool_alloc_not_live: "pool_ok s \<Longrightarrow> pool_alloc s = Inr (a, s') \<Longrightarrow>
    \<not> p_fflag s a \<and> p_fflag s' a \<and> p_bits s' a = packet_alloc_bits"
  by (auto simp: pool_alloc_def pool_ok_def Let_def split: list.splits if_splits)

lemma pool_alloc_returns: "pool_ok s \<Longrightarrow> \<exists>a s'. pool_alloc s = Inr (a, s')"
  by (auto simp: pool_alloc_def pool_ok_def Let_def split: list.splits)

lemma pool_alloc_ok: "pool_ok s \<Longrightarrow> pool_alloc s = Inr (a, s') \<Longrightarrow> pool_ok s'"
  by (auto simp: pool_alloc_def pool_ok_def Let_def less_Suc_eq split: list.splits if_splits)

lemma pool_free_ok: "pool_ok s \<Longrightarrow> pool_free a s = Inr s' \<Longrightarrow> pool_ok s'"
  by (auto simp: pool_free_def pool_ok_def split: if_splits)

lemma pool_refcopy_ok: "pool_ok s \<Longrightarrow> pool_ok (pool_refcopy a s)"
  by (simp add: pool_refcopy_def pool_ok_def)

lemma pool_free_twice:
  "p_refcount s a = 0 \<Longrightarrow> pool_free a s = Inr s' \<Longrightarrow> pool_free a s' = Inr s'"
  by (auto simp: pool_free_def split: if_splits)

section \<open>Agents\<close>

text \<open>
  What an agent does to its surroundings is recorded, in order, in the field \<open>acts\<close>:
  allocating a packet (\<open>Agent::allocpkt\<close>), handing one to the node (\<open>Agent::send\<close>),
  scheduling its arrival at the target after a delay, freeing the received packet,
  rescheduling one of the reader's two timers, and the reader's collision log.
\<close>

datatype act =
    AllocPkt
  | Send packet
  | SchedTarget packet real
  | FreePkt
  | ReschedRs real
  | ReschedCol real
  | OpenLog
  | LogCollision int

record agent =
  here_addr :: int
  here_port :: int
  dst_addr :: int
  dst_port :: int
  agent_size :: int
  agent_fid :: int
  agent_prio :: int
  agent_defttl :: int
  acts :: "act list"

definition emit :: "act \<Rightarrow> 'a agent_scheme \<Rightarrow> 'a agent_scheme" where
  "emit x a = a\<lparr>acts := acts a @ [x]\<rparr>"

text \<open>\<open>Agent::initpkt\<close> on a packet from \<open>Packet::alloc\<close>; the type is the one the agent's
  constructor was given.\<close>

definition initpkt :: "int \<Rightarrow> 'a agent_scheme \<Rightarrow> packet \<Rightarrow> packet" where
  "initpkt ty a p = p\<lparr>
     cmn := (cmn p)\<lparr>ch_ptype := ty, ch_size := agent_size a, ch_iface := UNKN_IFACE,
                    ch_direction := DIR_NONE, ch_error := 0\<rparr>,
     ip := (ip p)\<lparr>ip_saddr := here_addr a, ip_sport := here_port a, ip_daddr := dst_addr a,
                  ip_dport := dst_port a, ip_fid := agent_fid a, ip_prio := agent_prio a,
                  ip_ttl := agent_defttl a\<rparr>\<rparr>"

definition allocpkt :: "int \<Rightarrow> 'a agent_scheme \<Rightarrow> packet" where
  "allocpkt ty a = initpkt ty a packet_alloc_bits"

lemma emit_acts [simp]: "acts (emit x a) = acts a @ [x]"
  by (simp add: emit_def)

lemma emit_frame [simp]:
  "here_addr (emit x a) = here_addr a" "here_port (emit x a) = here_port a"
  "dst_addr (emit x a) = dst_addr a" "dst_port (emit x a) = dst_port a"
  "agent_size (emit x a) = agent_size a" "agent.more (emit x a) = agent.more a"
  "agent_fid (emit x a) = agent_fid a" "agent_prio (emit x a) = agent_prio a"
  "agent_defttl (emit x a) = agent_defttl a"
  by (simp_all add: emit_def)

lemma allocpkt_simps [simp]:
  "rfid (allocpkt ty a) = zero_rfid"
  "ch_ptype (cmn (allocpkt ty a)) = ty"
  "ch_size (cmn (allocpkt ty a)) = agent_size a"
  "ip (allocpkt ty a) = \<lparr>ip_saddr = here_addr a, ip_sport = here_port a, ip_daddr = dst_addr a,
     ip_dport = dst_port a, ip_ttl = agent_defttl a, ip_fid = agent_fid a, ip_prio = agent_prio a\<rparr>"
  by (simp_all add: allocpkt_def initpkt_def packet_alloc_bits_def packet_init_def)

text \<open>What one operation did to the surroundings, and the packets it handed on.\<close>

definition outputs :: "'a agent_scheme \<Rightarrow> 'a agent_scheme \<Rightarrow> act list" where
  "outputs a a' = drop (length (acts a)) (acts a')"

fun sent_of :: "act \<Rightarrow> packet list" where
  "sent_of (Send p) = [p]"
| "sent_of (SchedTarget p d) = [p]"
| "sent_of _ = []"

definition sent :: "act list \<Rightarrow> packet list" where
  "sent xs = concat (map sent_of xs)"

lemma sent_simps [simp]: "sent [] = []" "sent (x # xs) = sent_of x @ sent xs"
  "sent (xs @ ys) = sent xs @ sent ys"
  by (simp_all add: sent_def)

lemma outputs_append: "acts a' = acts a @ xs \<Longrightarrow> outputs a a' = xs"
  by (simp add: outputs_def)

text \<open>
  C40: releasing a packet twice is harmless. If a packet is not shared (reference count 0),
  then after \<open>Packet::free\<close> a second \<open>Packet::free\<close> of the same packet changes nothing: the
  free list still holds it once, so the next two allocations return different packets. This
  is what makes the tag agent's double release of a packet of unknown kind safe.
\<close>

theorem packet_double_free_safe:
  assumes "pool_ok s" and "p_refcount s a = 0"
    and "pool_free a s = Inr s1" and "pool_free a s1 = Inr s2"
    and "pool_alloc s2 = Inr (b, s3)" and "pool_alloc s3 = Inr (c, s4)"
  shows "s2 = s1 \<and> pool_ok s2 \<and> b \<noteq> c"
proof -
  have "s2 = s1" using pool_free_twice [OF assms(2,3)] assms(4) by simp
  moreover have ok: "pool_ok s2"
    using assms(1,3,4) pool_free_ok by blast
  moreover have "p_fflag s3 b" using pool_alloc_not_live [OF ok assms(5)] by blast
  moreover have "\<not> p_fflag s3 c"
    using pool_alloc_not_live [OF pool_alloc_ok [OF ok assms(5)] assms(6)] by blast
  ultimately show ?thesis by auto
qed

text \<open>One packet allocated, released twice, and two allocations after it.\<close>

definition demo_pool :: "nat \<Rightarrow> pool" where
  "demo_pool n = (case pool_alloc pool_init of Inr (a, s) \<Rightarrow>
     (if n = 0 then s else case pool_free 0 s of Inr s1 \<Rightarrow>
        (if n = 1 then s1 else case pool_alloc s1 of Inr (b, s3) \<Rightarrow>
           (if n = 2 then s3 else case pool_alloc s3 of Inr (c, s4) \<Rightarrow> s4))))"

theorem packet_double_free_safe_witness:
  "demo_pool 1 = demo_pool 1 \<and> pool_ok (demo_pool 1) \<and> (0::nat) \<noteq> 1"
proof (rule packet_double_free_safe [of "demo_pool 0" 0 "demo_pool 1" "demo_pool 1" 0 "demo_pool 2" 1 "demo_pool 3"])
  show "pool_ok (demo_pool 0)"
    using pool_alloc_ok [OF pool_ok_init, of 0] by (simp add: demo_pool_def pool_alloc_def pool_init_def)
qed (simp_all add: demo_pool_def pool_alloc_def pool_init_def pool_free_def)

end
