(* ===== verification/RfidTag.thy ===== *)
theory RfidTag
  imports MachineFloat Packet
begin

text \<open>
  The RFID tag agent (apps/rfidTag.h, apps/rfidTag.cc). Its state is the record \<open>tag\<close>, an
  agent extended with the members of \<open>RfidTagAgent\<close>; \<open>tag_recv\<close> is the whole of
  \<open>RfidTagAgent::recv\<close>, split at the service branches of the source. A reception draws at
  most one random number: it is the argument \<open>u\<close>, the value of \<open>RNG::uniform_double()\<close>,
  from which \<open>Random::uniform(a, b)\<close> computes \<open>a + (b - a) * u\<close>. Debug output is not
  modelled.
\<close>

section \<open>Constants of the protocol\<close>

abbreviation (input) FLOW_RT :: int where "FLOW_RT \<equiv> 0"
abbreviation (input) FLOW_TR :: int where "FLOW_TR \<equiv> 1"
abbreviation (input) FLOW_RT_ACK :: int where "FLOW_RT_ACK \<equiv> 2"

abbreviation (input) SERVICE_NOSERVICE :: int where "SERVICE_NOSERVICE \<equiv> 0"
abbreviation (input) SERVICE_TRACKING :: int where "SERVICE_TRACKING \<equiv> 1"
abbreviation (input) SERVICE_STANDARD :: int where "SERVICE_STANDARD \<equiv> 2"
abbreviation (input) SERVICE_EBTSA :: int where "SERVICE_EBTSA \<equiv> 3"
abbreviation (input) SERVICE_EDFSA :: int where "SERVICE_EDFSA \<equiv> 4"

abbreviation (input) SING_NOSINGULARIZATION :: int where "SING_NOSINGULARIZATION \<equiv> 0"
abbreviation (input) SING_RANDOMTIME :: int where "SING_RANDOMTIME \<equiv> 1"

abbreviation (input) T_READY :: int where "T_READY \<equiv> 0"
abbreviation (input) T_ARBITRATE :: int where "T_ARBITRATE \<equiv> 1"
abbreviation (input) T_REPLY :: int where "T_REPLY \<equiv> 2"
abbreviation (input) T_ACKNOWLEDGED :: int where "T_ACKNOWLEDGED \<equiv> 3"

abbreviation (input) RC_QUERY :: int where "RC_QUERY \<equiv> 0"
abbreviation (input) RC_QUERYADJUST :: int where "RC_QUERYADJUST \<equiv> 1"
abbreviation (input) RC_QUERYREPLY :: int where "RC_QUERYREPLY \<equiv> 2"
abbreviation (input) TC_REPLY :: int where "TC_REPLY \<equiv> 5"
abbreviation (input) RC_EST :: int where "RC_EST \<equiv> 6"
abbreviation (input) TR_EST_REPLY :: int where "TR_EST_REPLY \<equiv> 7"
abbreviation (input) RC_EST_FINISH :: int where "RC_EST_FINISH \<equiv> 8"
abbreviation (input) RC_SING :: int where "RC_SING \<equiv> 9"

section \<open>The agent\<close>

record tag = agent +
  t_id :: int
  t_tagEPC :: int
  t_service :: int
  t_kill :: int
  t_time :: int
  t_slot :: int
  t_rng16 :: real
  t_memory :: int
  t_memory2 :: int
  t_state :: int
  t_debug :: int
  t_seed :: real
  t_trace :: int

text \<open>\<open>RfidTagAgent::RfidTagAgent\<close>: the members the constructor sets; the bound ones are
  arguments, as their values come from the simulation script.\<close>

definition new_tag :: "agent \<Rightarrow> int \<Rightarrow> int \<Rightarrow> int \<Rightarrow> int \<Rightarrow> int \<Rightarrow> int \<Rightarrow> int \<Rightarrow> real \<Rightarrow> int \<Rightarrow> tag" where
  "new_tag a idv epc svc kill tm mem dbg seed tr =
     agent.extend a \<lparr>t_id = idv, t_tagEPC = epc, t_service = svc, t_kill = kill, t_time = tm,
       t_slot = 0, t_rng16 = 0, t_memory = mem, t_memory2 = -1, t_state = 0, t_debug = dbg,
       t_seed = seed, t_trace = tr\<rparr>"

text \<open>\<open>Random::uniform(a, b)\<close> on the draw \<open>u\<close>.\<close>

definition rng_uniform :: "real \<Rightarrow> real \<Rightarrow> real \<Rightarrow> real" where
  "rng_uniform a b u = dadd a (dmul (dsub b a) u)"

definition updateSlot :: "real \<Rightarrow> tag \<Rightarrow> tag" where
  "updateSlot u t =
     (let r = to_float (rng_uniform 0 (dsub (to_double (2 powi (t_memory t))) 1) u);
          t = t\<lparr>t_rng16 := r\<rparr>
      in if t_state t \<noteq> T_ACKNOWLEDGED then t\<lparr>t_slot := c_trunc r\<rparr> else t)"

definition updateSlot2 :: "real \<Rightarrow> tag \<Rightarrow> tag" where
  "updateSlot2 u t =
     (let r = to_float (rng_uniform 1 (of_int (t_memory t)) u);
          t = t\<lparr>t_rng16 := r\<rparr>
      in if t_state t \<noteq> T_ACKNOWLEDGED then t\<lparr>t_slot := c_round r\<rparr> else t)"

definition reply_packet :: "packet \<Rightarrow> int \<Rightarrow> tag \<Rightarrow> packet" where
  "reply_packet pkt command t =
     (let p = allocpkt PT_RFIDPACKET t; hdr = rfid pkt; hdrip = ip pkt
      in p\<lparr>rfid := (rfid p)\<lparr>hdr_tagEPC := t_tagEPC t, hdr_id := hdr_id hdr, hdr_tipo := FLOW_TR,
              hdr_service := hdr_service hdr, hdr_singularization := hdr_singularization hdr,
              hdr_command := command, hdr_rng16 := t_rng16 t, hdr_qValue := t_memory t,
              hdr_trace := t_trace t\<rparr>,
           ip := (ip p)\<lparr>ip_daddr := ip_saddr hdrip, ip_dport := ip_sport hdrip,
              ip_saddr := here_addr t, ip_sport := here_port t\<rparr>\<rparr>)"

definition sendPacket :: "packet \<Rightarrow> int \<Rightarrow> tag \<Rightarrow> tag" where
  "sendPacket pkt command t = emit (Send (reply_packet pkt command t)) (emit AllocPkt t)"

text \<open>The reply of the tracking service.\<close>

definition track_packet :: "packet \<Rightarrow> tag \<Rightarrow> packet" where
  "track_packet pkt t =
     (let p = allocpkt PT_RFIDPACKET t; hdr = rfid pkt; hdrip = ip pkt
      in p\<lparr>rfid := (rfid p)\<lparr>hdr_tagEPC := t_tagEPC t, hdr_id := hdr_id hdr, hdr_tipo := FLOW_TR,
              hdr_service := hdr_service hdr, hdr_ack := 1\<rparr>,
           ip := (ip p)\<lparr>ip_daddr := ip_saddr hdrip, ip_dport := ip_sport hdrip\<rparr>\<rparr>)"

definition recv_tracking :: "real \<Rightarrow> packet \<Rightarrow> tag \<Rightarrow> tag" where
  "recv_tracking u pkt t0 =
     (let hdr = rfid pkt; t = emit AllocPkt t0; pktret = track_packet pkt t0
      in if hdr_singularization hdr = SING_NOSINGULARIZATION then
           if hdr_id hdr \<noteq> t_id t then emit (Send pktret) t else t
         else
           if hdr_id hdr \<noteq> t_id t
           then emit (SchedTarget pktret (rng_uniform 0 (of_int (t_time t)) u)) t
           else t)"

text \<open>The Q algorithm of EPCglobal Class-1 Generation-2.\<close>

definition arbitrate :: "packet \<Rightarrow> int \<Rightarrow> tag \<Rightarrow> tag" where
  "arbitrate pkt command t =
     (if t_slot t = 0 then sendPacket pkt command (t\<lparr>t_state := T_REPLY\<rparr>)
      else t\<lparr>t_state := T_ARBITRATE\<rparr>)"

definition recv_standard :: "real \<Rightarrow> packet \<Rightarrow> tag \<Rightarrow> tag" where
  "recv_standard u pkt t0 =
     (let hdr = rfid pkt; cmd = hdr_command hdr; t = t0\<lparr>t_memory := hdr_qValue hdr\<rparr>
      in if cmd = RC_QUERY \<and> t_state t \<noteq> T_ACKNOWLEDGED then
           arbitrate pkt RC_QUERY (updateSlot u (t\<lparr>t_id := hdr_id hdr\<rparr>))
         else if cmd = RC_QUERY \<and> t_state t = T_ACKNOWLEDGED then
           if hdr_mechanism hdr = 0 \<or> t_id t \<noteq> hdr_id hdr then
             arbitrate pkt RC_QUERY
               (updateSlot u (t\<lparr>t_id := hdr_id hdr, t_state := T_READY\<rparr>))
           else t
         else if cmd = RC_QUERYADJUST \<and> t_state t \<noteq> T_ACKNOWLEDGED then
           arbitrate pkt RC_QUERYADJUST (updateSlot u (t\<lparr>t_id := hdr_id hdr\<rparr>))
         else if cmd = RC_QUERYREPLY \<and> hdr_tagEPC hdr = t_tagEPC t then
           sendPacket pkt TC_REPLY
             (t\<lparr>t_id := hdr_id hdr, t_state := T_ACKNOWLEDGED, t_slot := t_slot t - 1\<rparr>)
         else if cmd = RC_QUERYREPLY \<and> hdr_tagEPC hdr = IP_BROADCAST \<and> t_slot t > 0 then
           (let t = t\<lparr>t_id := hdr_id hdr\<rparr>
            in if t_state t \<noteq> T_ACKNOWLEDGED
               then arbitrate pkt RC_QUERYREPLY (t\<lparr>t_slot := t_slot t - 1\<rparr>)
               else t)
         else t)"

text \<open>The estimation phase (EBTSA).\<close>

definition recv_ebtsa :: "real \<Rightarrow> packet \<Rightarrow> tag \<Rightarrow> tag" where
  "recv_ebtsa u pkt t0 =
     (let hdr = rfid pkt; cmd = hdr_command hdr; t = t0\<lparr>t_memory := hdr_qValue hdr\<rparr>;
          t = (if cmd = RC_EST
               then arbitrate pkt TR_EST_REPLY (updateSlot u (t\<lparr>t_state := T_ARBITRATE\<rparr>))
               else t)
      in if cmd = RC_EST_FINISH then t\<lparr>t_state := T_READY\<rparr> else t)"

text \<open>Dynamic framed slotted ALOHA with and without local collision resolution.\<close>

definition reply_in_slot :: "packet \<Rightarrow> tag \<Rightarrow> tag" where
  "reply_in_slot pkt t =
     (if hdr_slotNumber (rfid pkt) = t_slot t
      then sendPacket pkt TC_REPLY (t\<lparr>t_state := T_REPLY\<rparr>)
      else t)"

definition recv_edfsa :: "real \<Rightarrow> packet \<Rightarrow> tag \<Rightarrow> tag" where
  "recv_edfsa u pkt t =
     (let hdr = rfid pkt; cmd = hdr_command hdr; rep = hdr_reply hdr; q = hdr_qValue hdr
      in if cmd = RC_QUERY \<and> t_state t \<noteq> T_ACKNOWLEDGED then
           if rep = 0 then
             reply_in_slot pkt (updateSlot2 u (t\<lparr>t_memory := q, t_state := T_ARBITRATE\<rparr>))
           else if rep > 0 then
             if rep = t_slot t then
               reply_in_slot pkt (updateSlot2 u
                 (t\<lparr>t_memory := q, t_memory2 := rep, t_state := T_ARBITRATE\<rparr>))
             else if rep = t_memory2 t then
               reply_in_slot pkt (updateSlot2 u (t\<lparr>t_memory := q, t_state := T_ARBITRATE\<rparr>))
             else t
           else t
         else if cmd = RC_SING \<and> t_state t \<noteq> T_ACKNOWLEDGED then
           if rep = 0 then reply_in_slot pkt t
           else if rep > 0 then
             if rep = t_memory2 t then reply_in_slot pkt t else t
           else t
         else if cmd = RC_QUERYREPLY \<and> t_state t \<noteq> T_ACKNOWLEDGED then
           t\<lparr>t_state := T_ACKNOWLEDGED\<rparr>
         else t)"

definition tag_recv :: "real \<Rightarrow> packet \<Rightarrow> tag \<Rightarrow> tag" where
  "tag_recv u pkt t =
     (let hdr = rfid pkt;
          t = (if hdr_tipo hdr = FLOW_RT then
                 if hdr_service hdr = SERVICE_TRACKING then recv_tracking u pkt t
                 else if hdr_service hdr = SERVICE_STANDARD then recv_standard u pkt t
                 else if hdr_service hdr = SERVICE_EBTSA then recv_ebtsa u pkt t
                 else if hdr_service hdr = SERVICE_EDFSA then recv_edfsa u pkt t
                 else t
               else if hdr_tipo hdr = FLOW_RT_ACK then t\<lparr>t_id := hdr_id hdr\<rparr>
               else emit FreePkt t)
      in emit FreePkt t)"

lemmas [tag_ops] =
  recv_tracking_def recv_standard_def recv_ebtsa_def recv_edfsa_def arbitrate_def
  reply_in_slot_def sendPacket_def updateSlot_def updateSlot2_def

section \<open>Frame and output lemmas\<close>

lemma emit_tag [simp]:
  "t_id (emit x t) = t_id t" "t_tagEPC (emit x t) = t_tagEPC t" "t_service (emit x t) = t_service t"
  "t_kill (emit x t) = t_kill t" "t_time (emit x t) = t_time t" "t_slot (emit x t) = t_slot t"
  "t_rng16 (emit x t) = t_rng16 t" "t_memory (emit x t) = t_memory t"
  "t_memory2 (emit x t) = t_memory2 t" "t_state (emit x t) = t_state t"
  "t_trace (emit x t) = t_trace t" "t_debug (emit x t) = t_debug t" "t_seed (emit x t) = t_seed t"
  by (simp_all add: emit_def)

lemma updateSlot_frame [simp]:
  "t_id (updateSlot u t) = t_id t" "t_tagEPC (updateSlot u t) = t_tagEPC t"
  "t_memory (updateSlot u t) = t_memory t" "t_memory2 (updateSlot u t) = t_memory2 t"
  "t_state (updateSlot u t) = t_state t" "acts (updateSlot u t) = acts t"
  "here_addr (updateSlot u t) = here_addr t" "here_port (updateSlot u t) = here_port t"
  by (simp_all add: updateSlot_def Let_def)

lemma updateSlot2_frame [simp]:
  "t_id (updateSlot2 u t) = t_id t" "t_tagEPC (updateSlot2 u t) = t_tagEPC t"
  "t_memory (updateSlot2 u t) = t_memory t" "t_memory2 (updateSlot2 u t) = t_memory2 t"
  "t_state (updateSlot2 u t) = t_state t" "acts (updateSlot2 u t) = acts t"
  "here_addr (updateSlot2 u t) = here_addr t" "here_port (updateSlot2 u t) = here_port t"
  by (simp_all add: updateSlot2_def Let_def)

lemma sendPacket_frame [simp]:
  "t_id (sendPacket p c t) = t_id t" "t_tagEPC (sendPacket p c t) = t_tagEPC t"
  "t_memory (sendPacket p c t) = t_memory t" "t_memory2 (sendPacket p c t) = t_memory2 t"
  "t_state (sendPacket p c t) = t_state t" "t_slot (sendPacket p c t) = t_slot t"
  "here_addr (sendPacket p c t) = here_addr t" "here_port (sendPacket p c t) = here_port t"
  "acts (sendPacket p c t) = acts t @ [AllocPkt, Send (reply_packet p c t)]"
  by (simp_all add: sendPacket_def)

lemma arbitrate_frame [simp]:
  "t_id (arbitrate p c t) = t_id t" "t_tagEPC (arbitrate p c t) = t_tagEPC t"
  "t_memory (arbitrate p c t) = t_memory t" "t_memory2 (arbitrate p c t) = t_memory2 t"
  "t_slot (arbitrate p c t) = t_slot t"
  "t_state (arbitrate p c t) = (if t_slot t = 0 then T_REPLY else T_ARBITRATE)"
  by (simp_all add: arbitrate_def)

lemma reply_in_slot_frame [simp]:
  "t_id (reply_in_slot p t) = t_id t" "t_tagEPC (reply_in_slot p t) = t_tagEPC t"
  "t_memory (reply_in_slot p t) = t_memory t" "t_memory2 (reply_in_slot p t) = t_memory2 t"
  "t_slot (reply_in_slot p t) = t_slot t"
  "t_state (reply_in_slot p t) = (if hdr_slotNumber (rfid p) = t_slot t then T_REPLY else t_state t)"
  by (simp_all add: reply_in_slot_def)

text \<open>A reply goes back to the reader that asked and names the tag.\<close>

definition reply_to :: "packet \<Rightarrow> tag \<Rightarrow> packet \<Rightarrow> bool" where
  "reply_to pkt t p \<longleftrightarrow>
     ip_daddr (ip p) = ip_saddr (ip pkt) \<and> ip_dport (ip p) = ip_sport (ip pkt) \<and>
     ip_saddr (ip p) = here_addr t \<and>
     hdr_tagEPC (rfid p) = t_tagEPC t \<and> hdr_id (rfid p) = hdr_id (rfid pkt) \<and>
     hdr_tipo (rfid p) = FLOW_TR \<and> hdr_service (rfid p) = hdr_service (rfid pkt)"

lemma reply_to_reply_packet:
  "t_tagEPC t' = t_tagEPC t \<Longrightarrow> here_addr t' = here_addr t \<Longrightarrow> reply_to pkt t (reply_packet pkt c t')"
  by (simp add: reply_to_def reply_packet_def Let_def)

lemma reply_to_track_packet: "reply_to pkt t (track_packet pkt t)"
  by (simp add: reply_to_def track_packet_def Let_def)

text \<open>Everything a reception can put out: at most one reply, then the release of the packet.\<close>

definition reply_acts :: "packet \<Rightarrow> tag \<Rightarrow> act list \<Rightarrow> bool" where
  "reply_acts pkt t xs \<longleftrightarrow> xs = [] \<or> (\<exists>p. xs = [AllocPkt, Send p] \<and> reply_to pkt t p)"

definition replies :: "packet \<Rightarrow> tag \<Rightarrow> tag \<Rightarrow> bool" where
  "replies pkt t t' \<longleftrightarrow> reply_acts pkt t (outputs t t') \<and> acts t' = acts t @ outputs t t'"

lemma replies_none: "acts t' = acts t \<Longrightarrow> replies pkt t t'"
  by (simp add: replies_def reply_acts_def outputs_def)

lemma replies_sendPacket:
  "acts t' = acts t \<Longrightarrow> t_tagEPC t' = t_tagEPC t \<Longrightarrow> here_addr t' = here_addr t \<Longrightarrow>
   replies pkt t (sendPacket pkt c t')"
  by (simp add: replies_def reply_acts_def outputs_def reply_to_reply_packet)

lemma replies_arbitrate:
  "acts t' = acts t \<Longrightarrow> t_tagEPC t' = t_tagEPC t \<Longrightarrow> here_addr t' = here_addr t \<Longrightarrow>
   replies pkt t (arbitrate pkt c t')"
  by (simp add: arbitrate_def replies_sendPacket replies_none)

lemma replies_reply_in_slot:
  "acts t' = acts t \<Longrightarrow> t_tagEPC t' = t_tagEPC t \<Longrightarrow> here_addr t' = here_addr t \<Longrightarrow>
   replies pkt t (reply_in_slot pkt t')"
  by (simp add: reply_in_slot_def replies_sendPacket replies_none)

lemma replies_standard: "replies pkt t (recv_standard u pkt t)"
  by (simp add: recv_standard_def Let_def replies_arbitrate replies_sendPacket replies_none)

lemma replies_edfsa: "replies pkt t (recv_edfsa u pkt t)"
  by (simp add: recv_edfsa_def Let_def replies_reply_in_slot replies_none)

lemma replies_ebtsa: "replies pkt t (recv_ebtsa u pkt t)"
proof -
  have "replies pkt t (t'\<lparr>t_state := T_READY\<rparr>)" if "replies pkt t t'" for t'
    using that by (simp add: replies_def outputs_def)
  then show ?thesis
    by (simp add: recv_ebtsa_def Let_def replies_arbitrate replies_none)
qed

lemma outputs_emit_FreePkt: "replies pkt t t' \<Longrightarrow> outputs t (emit FreePkt t') = outputs t t' @ [FreePkt]"
  by (auto simp: replies_def intro: outputs_append)

lemma outputs_tracking:
  "outputs t (emit FreePkt (recv_tracking u pkt t)) =
     (if hdr_id (rfid pkt) = t_id t then [AllocPkt, FreePkt]
      else if hdr_singularization (rfid pkt) = SING_NOSINGULARIZATION
        then [AllocPkt, Send (track_packet pkt t), FreePkt]
        else [AllocPkt, SchedTarget (track_packet pkt t) (rng_uniform 0 (of_int (t_time t)) u), FreePkt])"
  by (simp add: recv_tracking_def Let_def outputs_def)

section \<open>What a reception sends\<close>

text \<open>
  In answer to any packet the tag hands at most one packet to the network, now or after
  a delay, and that packet is addressed to the node and port the query came from, carries
  the tag's own EPC and network address, the identifier of the querying reader and the
  queried service, and is marked as going from tag to reader.
\<close>

theorem tag_reply_addressed:
  "sent (outputs t (tag_recv u pkt t)) = [] \<or>
   (\<exists>p. sent (outputs t (tag_recv u pkt t)) = [p] \<and> reply_to pkt t p)"
proof -
  have "sent (outputs t (emit FreePkt t')) = [] \<or>
        (\<exists>p. sent (outputs t (emit FreePkt t')) = [p] \<and> reply_to pkt t p)"
    if "replies pkt t t'" for t'
    using outputs_emit_FreePkt [OF that] that by (auto simp: replies_def reply_acts_def)
  moreover have "outputs t (emit FreePkt (emit FreePkt t)) = [FreePkt, FreePkt]"
    by (simp add: outputs_def)
  ultimately show ?thesis
    by (auto simp: tag_recv_def Let_def outputs_tracking replies_standard replies_ebtsa
        replies_edfsa replies_none reply_to_track_packet)
qed

text \<open>
  C22: the tag's packet accounting. Every packet the tag allocates in a reception is handed
  on, with one exception: a tracking query of the reader whose identifier the tag already
  holds allocates a reply that is neither sent, scheduled nor freed.
\<close>

theorem tag_packet_accounting:
  "length (filter (\<lambda>x. x = AllocPkt) (outputs t (tag_recv u pkt t))) =
   length (sent (outputs t (tag_recv u pkt t))) +
   (if hdr_tipo (rfid pkt) = FLOW_RT \<and> hdr_service (rfid pkt) = SERVICE_TRACKING \<and>
       hdr_id (rfid pkt) = t_id t then 1 else 0)"
proof -
  have "length (filter (\<lambda>x. x = AllocPkt) (outputs t (emit FreePkt t'))) =
        length (sent (outputs t (emit FreePkt t')))"
    if "replies pkt t t'" for t'
    using outputs_emit_FreePkt [OF that] that by (auto simp: replies_def reply_acts_def)
  moreover have "outputs t (emit FreePkt (emit FreePkt t)) = [FreePkt, FreePkt]"
    by (simp add: outputs_def)
  ultimately show ?thesis
    by (auto simp: tag_recv_def Let_def outputs_tracking replies_standard replies_ebtsa
        replies_edfsa replies_none)
qed

section \<open>States of the tag\<close>

definition tag_ok :: "tag \<Rightarrow> bool" where
  "tag_ok t \<longleftrightarrow> t_state t \<in> {T_READY, T_ARBITRATE, T_REPLY, T_ACKNOWLEDGED}"

lemma tag_ok_arbitrate [simp]: "tag_ok (arbitrate p c t)"
  by (simp add: tag_ok_def)

lemma tag_ok_reply_in_slot: "tag_ok t \<Longrightarrow> tag_ok (reply_in_slot p t)"
  by (simp add: tag_ok_def)

lemma tagEPC_recv:
  "t_tagEPC (recv_tracking u pkt t) = t_tagEPC t" "t_tagEPC (recv_standard u pkt t) = t_tagEPC t"
  "t_tagEPC (recv_ebtsa u pkt t) = t_tagEPC t" "t_tagEPC (recv_edfsa u pkt t) = t_tagEPC t"
  by (simp_all add: recv_tracking_def recv_standard_def recv_ebtsa_def recv_edfsa_def Let_def)

lemma tag_ok_update [simp]:
  "tag_ok (t\<lparr>t_state := T_READY\<rparr>)" "tag_ok (t\<lparr>t_state := T_ACKNOWLEDGED\<rparr>)"
  "tag_ok (t\<lparr>t_memory := v\<rparr>) = tag_ok t" "tag_ok (t\<lparr>t_id := v\<rparr>) = tag_ok t"
  "tag_ok (t\<lparr>t_slot := v\<rparr>) = tag_ok t" "tag_ok (emit x t) = tag_ok t"
  "tag_ok (sendPacket p c t) = tag_ok t" "tag_ok (updateSlot2 u t) = tag_ok t"
  "tag_ok (t\<lparr>t_state := T_ARBITRATE\<rparr>)"
  by (simp_all add: tag_ok_def)

lemma tag_ok_recv:
  assumes "tag_ok t"
  shows "tag_ok (recv_tracking u pkt t)" "tag_ok (recv_standard u pkt t)"
    "tag_ok (recv_ebtsa u pkt t)" "tag_ok (recv_edfsa u pkt t)"
  using assms
  by (simp_all add: recv_tracking_def recv_standard_def recv_ebtsa_def recv_edfsa_def Let_def
      tag_ok_reply_in_slot)

lemma tag_recv_state:
  "t_tagEPC (tag_recv u pkt t) = t_tagEPC t" "tag_ok t \<Longrightarrow> tag_ok (tag_recv u pkt t)"
  by (simp_all add: tag_recv_def Let_def tagEPC_recv tag_ok_recv)

text \<open>Packets from the reader, by kind.\<close>

definition std_from_reader :: "packet \<Rightarrow> bool" where
  "std_from_reader p \<longleftrightarrow> hdr_tipo (rfid p) = FLOW_RT \<and> hdr_service (rfid p) = SERVICE_STANDARD"

definition bcast_queryreply :: "packet \<Rightarrow> bool" where
  "bcast_queryreply p \<longleftrightarrow> std_from_reader p \<and> hdr_command (rfid p) = RC_QUERYREPLY \<and>
     hdr_tagEPC (rfid p) = IP_BROADCAST"

lemma tag_recv_std: "std_from_reader p \<Longrightarrow> tag_recv u p t = emit FreePkt (recv_standard u p t)"
  by (simp add: tag_recv_def std_from_reader_def)

lemma recv_bcast_queryreply:
  assumes "bcast_queryreply p" and "t_tagEPC t \<noteq> IP_BROADCAST" and "t_state t \<noteq> T_ACKNOWLEDGED"
  shows "t_slot (tag_recv u p t) = (if 0 < t_slot t then t_slot t - 1 else t_slot t)"
    and "length (sent (acts (tag_recv u p t))) = length (sent (acts t)) + (if t_slot t = 1 then 1 else 0)"
    and "t_state (tag_recv u p t) \<noteq> T_ACKNOWLEDGED"
    and "t_tagEPC (tag_recv u p t) = t_tagEPC t"
  using assms by (auto simp: bcast_queryreply_def tag_recv_std recv_standard_def Let_def arbitrate_def)

text \<open>
  C21: slot countdown of the Q algorithm. A tag that drew slot \<open>k\<close> answers the \<open>k\<close>-th
  broadcast QueryReply it hears, and no other: after hearing any sequence of them its slot
  counter has gone down once for each, stopping at zero, and it has sent one reply exactly
  if the counter reached zero on the way.
\<close>

theorem tag_slot_countdown:
  assumes "list_all bcast_queryreply pkts" and "t_tagEPC t \<noteq> IP_BROADCAST"
    and "t_state t \<noteq> T_ACKNOWLEDGED" and "0 \<le> t_slot t"
  shows "t_slot (fold (tag_recv u) pkts t) = max 0 (t_slot t - int (length pkts)) \<and>
         length (sent (acts (fold (tag_recv u) pkts t))) =
           length (sent (acts t)) + (if 0 < t_slot t \<and> t_slot t \<le> int (length pkts) then 1 else 0)"
  using assms
proof (induction pkts arbitrary: t)
  case (Cons p ps)
  note r = recv_bcast_queryreply [of p t u]
  have ih: "t_slot (fold (tag_recv u) ps (tag_recv u p t)) =
              max 0 (t_slot (tag_recv u p t) - int (length ps)) \<and>
            length (sent (acts (fold (tag_recv u) ps (tag_recv u p t)))) =
              length (sent (acts (tag_recv u p t))) +
              (if 0 < t_slot (tag_recv u p t) \<and> t_slot (tag_recv u p t) \<le> int (length ps) then 1 else 0)"
    using Cons.prems r by (intro Cons.IH) auto
  show ?case
    using Cons.prems r ih by (simp split: if_splits)
qed simp

text \<open>
  An identified tag is quiet. With the QoS mechanism on, a tag that was acknowledged by
  a reader sends nothing in answer to any standard-service command of that reader except a
  QueryReply that names its own EPC, and it stays acknowledged.
\<close>

theorem tag_acknowledged_quiet:
  assumes "std_from_reader p" and "hdr_mechanism (rfid p) \<noteq> 0" and "hdr_id (rfid p) = t_id t"
    and "t_state t = T_ACKNOWLEDGED" and "hdr_command (rfid p) = RC_QUERYREPLY \<longrightarrow> hdr_tagEPC (rfid p) \<noteq> t_tagEPC t"
  shows "sent (outputs t (tag_recv u p t)) = [] \<and> t_state (tag_recv u p t) = T_ACKNOWLEDGED \<and>
         t_id (tag_recv u p t) = t_id t \<and> t_slot (tag_recv u p t) = t_slot t"
proof -
  have "recv_standard u p t = t\<lparr>t_memory := hdr_qValue (rfid p)\<rparr> \<or>
        recv_standard u p t = t\<lparr>t_memory := hdr_qValue (rfid p), t_id := t_id t\<rparr>"
    using assms by (auto simp: recv_standard_def Let_def)
  then show ?thesis
    using assms(1,4) by (auto simp: tag_recv_std outputs_def)
qed

section \<open>The slot draw\<close>

text \<open>For a frame exponent in the range of the protocol the bounds of the draw are exact, and only
  the product with the random number is rounded.\<close>

lemma slot_range_exact:
  assumes "0 \<le> Q" and "Q \<le> 24"
  shows "dsub (to_double (2 powi Q)) 1 = of_int (2 ^ nat Q - 1)"
proof -
  have b: "(2::int) ^ nat Q \<le> 2 ^ 24" using assms by (intro power_increasing) auto
  have "(2::real) powi Q = of_int (2 ^ nat Q)" using assms by (simp add: power_int_def)
  then have "to_double (2 powi Q) = of_int (2 ^ nat Q)"
    using b by (simp only: to_double_of_int) (subst to_double_of_int, auto)
  then have "dsub (to_double (2 powi Q)) 1 = to_double (of_int (2 ^ nat Q - 1))"
    by (simp add: dsub_def)
  also have "\<dots> = of_int (2 ^ nat Q - 1)"
    using b by (intro to_double_of_int) auto
  finally show ?thesis .
qed

lemma rng_uniform_0: "to_double b = b \<Longrightarrow> rng_uniform 0 b u = to_double (b * u)"
  by (simp add: rng_uniform_def dadd_def dsub_def dmul_def)

lemma updateSlot_draw:
  assumes "0 \<le> t_memory t" and "t_memory t \<le> 24" and "t_state t \<noteq> T_ACKNOWLEDGED"
  shows "t_slot (updateSlot u t) = c_trunc (to_float (to_double (of_int (2 ^ nat (t_memory t) - 1) * u)))"
proof -
  have b: "(2::int) ^ nat (t_memory t) \<le> 2 ^ 24" using assms by (intro power_increasing) auto
  then have "to_double (of_int (2 ^ nat (t_memory t) - 1)) = of_int (2 ^ nat (t_memory t) - 1)"
    by (intro to_double_of_int) auto
  then have "rng_uniform 0 (dsub (to_double (2 powi (t_memory t))) 1) u =
             to_double (of_int (2 ^ nat (t_memory t) - 1) * u)"
    unfolding slot_range_exact [OF assms(1,2)] by (rule rng_uniform_0)
  with assms(3) show ?thesis by (simp add: updateSlot_def Let_def)
qed

lemma trunc_draw_le:
  assumes "0 \<le> x" and "x \<le> r" and "r = of_int m * 2 powi k" and "\<bar>m\<bar> \<le> 2 ^ 24" and "- 149 \<le> k"
  shows "0 \<le> to_float (to_double x)" and "to_float (to_double x) \<le> r"
proof -
  have d: "0 \<le> to_double x" using assms(1) by (rule to_double_nonneg)
  then show "0 \<le> to_float (to_double x)" by (rule to_float_nonneg)
  have "to_float r = r" "to_double r = r"
    using to_float_exact [OF assms(3,4,5)] to_double_to_float [of r] by simp_all
  then show "to_float (to_double x) \<le> r"
    using to_double_mono [OF assms(1,2)] to_float_mono [OF d] by metis
qed

text \<open>
  Bounds of the slot draw of the Q algorithm. For every frame exponent \<open>Q\<close> up to 24 and
  every random number in the unit interval the slot lies between 0 and \<open>2 ^ Q - 1\<close>, whatever
  the two roundings do.
\<close>

theorem tag_slot_bounds:
  assumes "0 \<le> u" and "u \<le> 1" and "0 \<le> t_memory t" and "t_memory t \<le> 24"
    and "t_state t \<noteq> T_ACKNOWLEDGED"
  shows "0 \<le> t_slot (updateSlot u t) \<and> t_slot (updateSlot u t) \<le> 2 ^ nat (t_memory t) - 1"
proof -
  let ?n = "2 ^ nat (t_memory t) - 1 :: int"
  have b: "(2::int) ^ nat (t_memory t) \<le> 2 ^ 24" using assms by (intro power_increasing) auto
  have n0: "0 \<le> ?n" by simp
  then have "of_int ?n * u \<le> of_int ?n" "0 \<le> of_int ?n * u"
    using assms(1,2) by (simp_all add: mult_left_le del: of_int_diff)
  then have "0 \<le> to_float (to_double (of_int ?n * u))" "to_float (to_double (of_int ?n * u)) \<le> of_int ?n"
    using b trunc_draw_le [of "of_int ?n * u" "of_int ?n" ?n 0] by auto
  then have "0 \<le> c_trunc (to_float (to_double (of_int ?n * u)))"
    "c_trunc (to_float (to_double (of_int ?n * u))) \<le> ?n"
    by (simp_all only: c_trunc_nonneg c_trunc_le_of_int)
  then show ?thesis using updateSlot_draw assms(3,4,5) by simp
qed

text \<open>
  The last slot of the frame is not drawn. The header file says the draw ranges over 0 to
  \<open>2 ^ Q - 1\<close>, but a random number of at most \<open>1 - 2 ^ -23\<close> (all but about one in eight
  million) gives a slot of at most \<open>2 ^ Q - 2\<close>; for \<open>Q = 1\<close> every tag draws slot 0.
\<close>

theorem tag_last_slot_not_drawn:
  assumes "0 \<le> u" and "u \<le> 1 - 1 / 2 ^ 23" and "1 \<le> t_memory t" and "t_memory t \<le> 24"
    and "t_state t \<noteq> T_ACKNOWLEDGED"
  shows "t_slot (updateSlot u t) \<le> 2 ^ nat (t_memory t) - 2"
proof -
  define q where "q = nat (t_memory t)"
  have q: "1 \<le> q" "q \<le> 24" using assms(3,4) by (auto simp: q_def)
  let ?n = "2 ^ q - 1 :: int" and ?m = "(2 ^ q - 1) * 2 ^ (24 - q) - 1 :: int"
  define r :: real where "r = of_int ?m * 2 powi (int q - 24)"
  have pw: "(2::real) ^ (24 - q) * 2 powi (int q - 24) = 1"
  proof -
    have "(2::real) ^ (24 - q) = 2 powi (24 - int q)" using q by (simp add: power_int_def)
    then show ?thesis by (simp add: power_int_add [symmetric])
  qed
  then have "r = of_int ?n - 2 powi (int q - 24)"
    by (simp add: r_def left_diff_distrib mult.assoc)
  then have r: "r = 2 ^ q - 1 - 2 ^ q / 2 ^ 24" by (simp add: power_int_diff)
  have "(2::int) \<le> 2 ^ q" using q(1) power_increasing [of 1 q "2::int"] by simp
  then have n1: "(2::real) \<le> 2 ^ q" by (metis of_int_le_iff of_int_numeral of_int_power)
  have "of_int ?n * u \<le> (2 ^ q - 1) * (1 - 1 / 2 ^ 23)"
    using mult_left_mono [OF assms(2), of "2 ^ q - 1"] n1 by simp
  also have "\<dots> \<le> r" using n1 by (simp add: r field_simps)
  finally have xr: "of_int ?n * u \<le> r" .
  have x0: "0 \<le> of_int ?n * u" using assms(1) n1 by simp
  have "?m \<le> 2 ^ 24"
  proof -
    have "(2 ^ q - 1) * 2 ^ (24 - q) \<le> 2 ^ q * (2::int) ^ (24 - q)" by (intro mult_right_mono) auto
    also have "\<dots> = 2 ^ 24" using q by (simp add: power_add [symmetric])
    finally show ?thesis by simp
  qed
  moreover have "0 \<le> ?m"
  proof -
    have "(1::int) * 1 \<le> (2 ^ q - 1) * 2 ^ (24 - q)" using \<open>(2::int) \<le> 2 ^ q\<close> by (intro mult_mono) auto
    then show ?thesis by simp
  qed
  ultimately have "to_float (to_double (of_int ?n * u)) \<le> r" "0 \<le> to_float (to_double (of_int ?n * u))"
    using trunc_draw_le [OF x0 xr r_def] q by auto
  moreover have "r < of_int ?n" by (simp add: r)
  ultimately have "c_trunc (to_float (to_double (of_int ?n * u))) < ?n"
    by (simp add: c_trunc_def floor_less_iff)
  then show ?thesis using updateSlot_draw [of t u] assms(3,4,5) by (simp add: q_def)
qed

section \<open>Examples\<close>

definition demo_agent :: agent where
  "demo_agent = \<lparr>here_addr = 5, here_port = 0, dst_addr = 0, dst_port = 0, agent_size = 64,
     agent_fid = 0, agent_prio = 0, agent_defttl = 32, acts = []\<rparr>"

definition demo_tag :: tag where
  "demo_tag = new_tag demo_agent 0 500 2 0 1 3 0 0 0"

definition demo_queryreply :: packet where
  "demo_queryreply = packet_init\<lparr>rfid := zero_rfid\<lparr>hdr_id := 9, hdr_tipo := FLOW_RT,
     hdr_service := SERVICE_STANDARD, hdr_command := RC_QUERYREPLY, hdr_tagEPC := IP_BROADCAST,
     hdr_mechanism := 1\<rparr>\<rparr>"

lemmas demo_tag_defs = demo_tag_def new_tag_def demo_agent_def demo_queryreply_def packet_init_def
  zero_rfid_def agent.defs tag.defs bcast_queryreply_def std_from_reader_def

theorem tag_slot_countdown_witness:
  "t_slot (fold (tag_recv 0) [demo_queryreply, demo_queryreply, demo_queryreply] (demo_tag\<lparr>t_slot := 2\<rparr>)) = 0 \<and>
   length (sent (acts (fold (tag_recv 0) [demo_queryreply, demo_queryreply, demo_queryreply]
     (demo_tag\<lparr>t_slot := 2\<rparr>)))) = 1"
  using tag_slot_countdown [of "[demo_queryreply, demo_queryreply, demo_queryreply]" "demo_tag\<lparr>t_slot := 2\<rparr>" 0]
  by (simp add: demo_tag_defs)

theorem tag_acknowledged_quiet_witness:
  "sent (outputs (demo_tag\<lparr>t_id := 9, t_state := T_ACKNOWLEDGED\<rparr>)
     (tag_recv 0 demo_queryreply (demo_tag\<lparr>t_id := 9, t_state := T_ACKNOWLEDGED\<rparr>))) = []"
  using tag_acknowledged_quiet [of demo_queryreply "demo_tag\<lparr>t_id := 9, t_state := T_ACKNOWLEDGED\<rparr>" 0]
  by (simp add: demo_tag_defs)

theorem tag_slot_bounds_witness:
  "0 \<le> t_slot (updateSlot 1 demo_tag) \<and> t_slot (updateSlot 1 demo_tag) \<le> 7"
  using tag_slot_bounds [of 1 demo_tag] by (simp add: demo_tag_defs)

theorem tag_last_slot_not_drawn_witness: "t_slot (updateSlot (9 / 10) demo_tag) \<le> 6"
  using tag_last_slot_not_drawn [of "9 / 10" demo_tag] by (simp add: demo_tag_defs)

end
