(* ===== verification/RfidReader.thy ===== *)
theory RfidReader
  imports RfidTag
begin

text \<open>
  The RFID reader agent (apps/rfidReader.h, apps/rfidReader.cc): the Q algorithm, the
  estimation phase, dynamic framed slotted ALOHA with its backlog estimators, and the
  resolution of collided slots. The state is the record \<open>reader\<close>; every member function of
  \<open>RfidReaderAgent\<close> that changes state is one definition, and the packets sent and timers
  rescheduled are recorded in order in \<open>acts\<close>. The members \<open>c_\<close>, \<open>Qfp_\<close>, \<open>t2_\<close> and
  \<open>frameMultiplier_\<close> are \<open>double\<close>, \<open>rng16_\<close> and \<open>finalQ_\<close> are \<open>float\<close>.
\<close>

record reader = agent +
  r_id :: int
  r_tagEPC :: int
  r_singularization :: int
  r_service :: int
  r_state :: int
  r_qValue :: int
  r_command :: int
  r_Qfp :: real
  r_memory :: int
  r_rng16 :: real
  r_counter :: int
  r_c :: real
  r_debug :: int
  r_t2 :: real
  r_slotCounter :: int
  r_collisions :: int
  r_idle :: int
  r_success :: int
  r_bigQ :: int
  r_total :: int
  r_uniqCounter :: int
  r_session :: int
  r_trace :: int
  r_tagIP :: int
  r_mechanism :: int
  r_finalQ :: real
  r_operation :: int
  r_estCounter :: int
  r_estConstant :: int
  r_slotEstCounter :: int
  r_rebuttal :: int
  r_temp :: int
  r_tempSuc :: int
  r_suc :: int
  r_estMethod :: int
  r_iL :: int
  r_subQValue :: int
  r_subSlotNumber :: int
  r_slotNumber :: int
  r_backlog :: int
  r_initialFrameSize :: int
  r_frameMultiplier :: real

section \<open>Sending\<close>

text \<open>\<open>send\<close> of a packet just made by \<open>allocpkt\<close>.\<close>

definition alloc_send :: "packet \<Rightarrow> reader \<Rightarrow> reader" where
  "alloc_send p r = emit (Send p) (emit AllocPkt r)"

definition resend_packet :: "reader \<Rightarrow> packet" where
  "resend_packet r =
     (let p = allocpkt PT_RFIDPACKET r
      in p\<lparr>rfid := (rfid p)\<lparr>hdr_id := r_id r, hdr_tipo := FLOW_RT,
             hdr_singularization := r_singularization r, hdr_service := r_service r\<rparr>,
           ip := (ip p)\<lparr>ip_daddr := IP_BROADCAST, ip_dport := ip_sport (ip p),
             ip_saddr := here_addr r, ip_sport := here_port r\<rparr>\<rparr>)"

definition resend :: "reader \<Rightarrow> reader" where
  "resend r = alloc_send (resend_packet r) r"

definition query_packet :: "int \<Rightarrow> int \<Rightarrow> int \<Rightarrow> reader \<Rightarrow> packet" where
  "query_packet command slotNumber rep r =
     (let p = allocpkt PT_RFIDPACKET r
      in p\<lparr>rfid := (rfid p)\<lparr>hdr_id := r_id r, hdr_tipo := FLOW_RT,
             hdr_singularization := r_singularization r, hdr_service := r_service r,
             hdr_command := command,
             hdr_qValue := (if rep = 0 then r_qValue r else r_subQValue r),
             hdr_tagEPC := IP_BROADCAST, hdr_slotCounter := r_slotCounter r,
             hdr_colCounter := r_collisions r, hdr_idlCounter := r_idle r,
             hdr_sucCounter := r_success r, hdr_session := r_session r,
             hdr_trace := r_trace r, hdr_reply := rep, hdr_slotNumber := slotNumber,
             hdr_mechanism := r_mechanism r\<rparr>,
           ip := (ip p)\<lparr>ip_daddr := IP_BROADCAST, ip_saddr := here_addr r,
             ip_sport := here_port r\<rparr>\<rparr>)"

definition query :: "int \<Rightarrow> int \<Rightarrow> int \<Rightarrow> reader \<Rightarrow> reader" where
  "query command slotNumber rep r = alloc_send (query_packet command slotNumber rep r) r"

definition send_query :: "reader \<Rightarrow> reader" where
  "send_query r = query RC_QUERY 0 0 r"

definition finish_packet :: "int \<Rightarrow> reader \<Rightarrow> packet" where
  "finish_packet dest r =
     (let p = allocpkt PT_RFIDPACKET r
      in p\<lparr>rfid := (rfid p)\<lparr>hdr_id := r_id r, hdr_tipo := FLOW_RT,
             hdr_singularization := r_singularization r, hdr_service := r_service r,
             hdr_command := RC_EST_FINISH, hdr_qValue := c_round (r_finalQ r),
             hdr_tagEPC := dest, hdr_slotCounter := r_slotEstCounter r,
             hdr_colCounter := r_collisions r, hdr_idlCounter := r_idle r,
             hdr_sucCounter := r_success r, hdr_session := r_session r,
             hdr_trace := r_trace r, hdr_mechanism := r_mechanism r\<rparr>,
           ip := (ip p)\<lparr>ip_daddr := dest, ip_saddr := here_addr r, ip_sport := here_port r\<rparr>\<rparr>)"

definition finish :: "int \<Rightarrow> reader \<Rightarrow> reader" where
  "finish dest r = alloc_send (finish_packet dest r) r"

definition finish_start :: "int \<Rightarrow> int \<Rightarrow> reader \<Rightarrow> reader" where
  "finish_start dest method r =
     (if method = 4 then finish dest r
      else if method = 3 then
        (let r = r\<lparr>r_service := 4, r_estMethod := r_backlog r, r_operation := 4,
                   r_slotCounter := r_slotEstCounter r,
                   r_qValue := c_round (dmul (to_double (2 powi (r_qValue r))) (r_frameMultiplier r))\<rparr>
         in emit (ReschedRs (r_t2 r)) (query RC_QUERY (r_uniqCounter r) 0 r))
      else r)"

definition estimate_packet :: "reader \<Rightarrow> packet" where
  "estimate_packet r =
     (let p = allocpkt PT_RFIDPACKET r
      in p\<lparr>rfid := (rfid p)\<lparr>hdr_id := r_id r, hdr_tipo := FLOW_RT,
             hdr_singularization := r_singularization r, hdr_service := r_service r,
             hdr_command := RC_EST, hdr_qValue := r_qValue r,
             hdr_tagEPC := IP_BROADCAST, hdr_slotCounter := r_slotCounter r,
             hdr_colCounter := r_collisions r, hdr_idlCounter := r_idle r,
             hdr_sucCounter := r_success r, hdr_session := r_session r,
             hdr_trace := r_trace r, hdr_mechanism := r_mechanism r\<rparr>,
           ip := (ip p)\<lparr>ip_daddr := IP_BROADCAST, ip_saddr := here_addr r,
             ip_sport := here_port r\<rparr>\<rparr>)"

definition send_query_estimate :: "reader \<Rightarrow> reader" where
  "send_query_estimate r = alloc_send (estimate_packet r) r"

definition adjust_packet :: "reader \<Rightarrow> packet" where
  "adjust_packet r =
     (let p = allocpkt PT_RFIDPACKET r
      in p\<lparr>rfid := (rfid p)\<lparr>hdr_id := r_id r, hdr_tipo := FLOW_RT,
             hdr_singularization := r_singularization r, hdr_service := r_service r,
             hdr_command := RC_QUERYADJUST, hdr_qValue := r_qValue r,
             hdr_tagEPC := IP_BROADCAST, hdr_slotCounter := r_slotCounter r,
             hdr_colCounter := r_collisions r, hdr_idlCounter := r_idle r,
             hdr_sucCounter := r_success r, hdr_session := r_session r,
             hdr_trace := r_trace r, hdr_mechanism := r_mechanism r\<rparr>,
           ip := (ip p)\<lparr>ip_daddr := IP_BROADCAST, ip_dport := ip_sport (ip p),
             ip_saddr := here_addr r, ip_sport := here_port r\<rparr>\<rparr>)"

definition send_query_ajust :: "reader \<Rightarrow> reader" where
  "send_query_ajust r = alloc_send (adjust_packet r) r"

definition queryreply_packet :: "reader \<Rightarrow> packet" where
  "queryreply_packet r =
     (let p = allocpkt PT_RFIDPACKET r
      in p\<lparr>rfid := (rfid p)\<lparr>hdr_id := r_id r, hdr_tipo := FLOW_RT,
             hdr_singularization := r_singularization r, hdr_service := r_service r,
             hdr_command := RC_QUERYREPLY, hdr_qValue := r_qValue r,
             hdr_tagEPC := r_tagEPC r, hdr_rng16 := r_rng16 r,
             hdr_slotCounter := r_slotCounter r,
             hdr_colCounter := r_collisions r, hdr_idlCounter := r_idle r,
             hdr_sucCounter := r_success r, hdr_session := r_session r,
             hdr_trace := r_trace r, hdr_mechanism := r_mechanism r\<rparr>,
           ip := (ip p)\<lparr>ip_daddr := r_tagIP r, ip_saddr := here_addr r\<rparr>\<rparr>)"

definition send_query_reply :: "reader \<Rightarrow> reader" where
  "send_query_reply r = alloc_send (queryreply_packet r) r"

definition update_slot_packet :: "reader \<Rightarrow> packet" where
  "update_slot_packet r =
     (let p = allocpkt PT_RFIDPACKET r
      in p\<lparr>rfid := (rfid p)\<lparr>hdr_id := r_id r, hdr_tipo := FLOW_RT,
             hdr_singularization := r_singularization r, hdr_service := r_service r,
             hdr_command := RC_QUERYREPLY, hdr_qValue := r_qValue r,
             hdr_tagEPC := IP_BROADCAST, hdr_slotCounter := r_slotCounter r,
             hdr_colCounter := r_collisions r, hdr_idlCounter := r_idle r,
             hdr_sucCounter := r_success r, hdr_session := r_session r,
             hdr_trace := r_trace r, hdr_mechanism := r_mechanism r\<rparr>,
           ip := (ip p)\<lparr>ip_daddr := IP_BROADCAST, ip_saddr := here_addr r\<rparr>\<rparr>)"

definition send_query_reply_update_slot :: "reader \<Rightarrow> reader" where
  "send_query_reply_update_slot r = alloc_send (update_slot_packet r) r"

section \<open>The Q algorithm\<close>

text \<open>\<open>start_sing\<close> is three guarded blocks in sequence; the first two update the counter
  that the guards of the later ones read, and the first may return. The result's flag says
  that the function returned early.\<close>

definition raise_bigQ :: "reader \<Rightarrow> reader" where
  "raise_bigQ r = r\<lparr>r_bigQ := (if r_qValue r \<ge> r_bigQ r then r_qValue r else r_bigQ r)\<rparr>"

definition lower_Q :: "reader \<Rightarrow> reader" where
  "lower_Q r0 =
     (let r = r0\<lparr>r_Qfp := max 0 (dsub (r_Qfp r0) (r_c r0))\<rparr>
      in if r_Qfp r > 15 then r\<lparr>r_Qfp := 15\<rparr> else r)"

definition raise_Q :: "reader \<Rightarrow> reader" where
  "raise_Q r0 =
     (let r = r0\<lparr>r_Qfp := min 15 (dadd (r_Qfp r0) (r_c r0))\<rparr>
      in if r_Qfp r < 0 then r\<lparr>r_Qfp := 0\<rparr> else r)"

definition start_sing_idle :: "reader \<Rightarrow> bool \<times> reader" where
  "start_sing_idle r =
     (let r = lower_Q (r\<lparr>r_idle := r_idle r + 1\<rparr>)
      in if r_qValue r \<noteq> -1 then
           (let r = raise_bigQ (r\<lparr>r_qValue := c_round (r_Qfp r)\<rparr>)
            in if r_qValue r = -1 then (True, r)
               else if r_qValue r > 0
                 then (False, emit (ReschedRs (r_t2 r)) (send_query_ajust r))
               else if r_qValue r = 0
                 then (let r = r\<lparr>r_qValue := r_qValue r - 1\<rparr>
                       in (False, emit (ReschedRs (r_t2 r)) (send_query_ajust r)))
               else (False, r))
         else (True, r))"

definition start_sing_success :: "reader \<Rightarrow> reader" where
  "start_sing_success r =
     (let r = r\<lparr>r_uniqCounter := r_uniqCounter r + 1, r_success := r_success r + 1,
                r_total := r_total r + r_collisions r, r_counter := 0\<rparr>
      in emit (ReschedRs (r_t2 r)) (send_query_reply_update_slot (send_query_reply r)))"

definition start_sing_collision :: "reader \<Rightarrow> reader" where
  "start_sing_collision r =
     (let r = raise_Q (r\<lparr>r_collisions := r_collisions r + 1\<rparr>);
          r = raise_bigQ (r\<lparr>r_qValue := c_round (r_Qfp r)\<rparr>);
          r = send_query_ajust (r\<lparr>r_counter := 0\<rparr>)
      in if r_qValue r = 15 then r else emit (ReschedRs (r_t2 r)) r)"

definition start_sing :: "reader \<Rightarrow> reader" where
  "start_sing r =
     (let r = r\<lparr>r_slotCounter := r_slotCounter r + 1\<rparr>;
          (returned, r) = (if r_counter r = 0 then start_sing_idle r else (False, r))
      in if returned then r
         else (let r = (if r_counter r = 1 then start_sing_success r else r)
               in if r_counter r > 1 then start_sing_collision r else r))"

section \<open>The estimation phase\<close>

definition reset_est :: "reader \<Rightarrow> reader" where
  "reset_est r = r\<lparr>r_estCounter := 1, r_collisions := 0, r_idle := 0, r_success := 0, r_counter := 0\<rparr>"

definition update_Q :: "int \<Rightarrow> reader \<Rightarrow> reader" where
  "update_Q soma r =
     (let r = (if soma = 0 then r\<lparr>r_Qfp := dsub (r_Qfp r) (r_c r)\<rparr>
               else if soma = 1 then
                 (let r = r\<lparr>r_Qfp := dadd (r_Qfp r) (r_c r)\<rparr>
                  in if r_Qfp r > 15 then r\<lparr>r_Qfp := 4\<rparr> else r)
               else r)
      in r\<lparr>r_qValue := c_round (r_Qfp r)\<rparr>)"

definition check_rebuttal :: "reader \<Rightarrow> reader" where
  "check_rebuttal r =
     (if r_finalQ r = r_Qfp r then
        (let r = reset_est r in finish_start IP_BROADCAST (r_estMethod r) r)
      else
        (let r = r\<lparr>r_Qfp := r_finalQ r\<rparr>;
             r = r\<lparr>r_qValue := c_round (r_Qfp r)\<rparr>;
             r = (update_Q 2 (reset_est r))\<lparr>r_rebuttal := 0\<rparr>
         in emit (ReschedRs (r_t2 r)) (send_query_estimate r)))"

definition est_count_slot :: "reader \<Rightarrow> reader" where
  "est_count_slot r0 =
     (let r = r0\<lparr>r_slotEstCounter := r_slotEstCounter r0 + 1\<rparr>;
          r = (if r_counter r = 0 then r\<lparr>r_idle := r_idle r + 1\<rparr> else r);
          r = (if r_counter r = 1 then send_query_reply (r\<lparr>r_success := r_success r + 1\<rparr>) else r);
          r = (if r_counter r > 1 then r\<lparr>r_collisions := r_collisions r + 1\<rparr> else r)
      in r\<lparr>r_estCounter := r_estCounter r + 1\<rparr>)"

definition restart_est :: "int \<Rightarrow> reader \<Rightarrow> reader" where
  "restart_est soma r =
     (let r = update_Q soma (reset_est r)
      in emit (ReschedRs (r_t2 r)) (send_query_estimate r))"

definition start_est :: "reader \<Rightarrow> reader" where
  "start_est r0 =
     (let r = est_count_slot r0
      in if r_estCounter r = r_estConstant r + 1 then
           if r_idle r = r_estConstant r then
             if r_rebuttal r = 0 then restart_est 0 r
             else check_rebuttal (update_Q 0 r)
           else if r_collisions r = r_estConstant r then
             if r_rebuttal r = 0 then restart_est 1 r
             else check_rebuttal (update_Q 1 r)
           else if r_collisions r < r_estConstant r \<and> r_idle r < r_estConstant r then
             if r_rebuttal r = 0
             then restart_est 2 (r\<lparr>r_finalQ := to_float (r_Qfp r), r_rebuttal := r_rebuttal r + 1\<rparr>)
             else check_rebuttal r
           else r
         else emit (ReschedRs (r_t2 r)) (send_query_estimate r))"

section \<open>Frame sizes\<close>

text \<open>
  The Eom-Lee backlog estimator is a fixed-point iteration. Its body is written over the two
  roundings of the source, \<open>fl\<close> for results kept in a \<open>float\<close> and \<open>db\<close> for results of type
  \<open>double\<close> (the exponential of \<open>math.h\<close> and what it is combined with); the program runs it with
  \<open>to_float\<close> and \<open>to_double\<close>. The loop need not end, so it returns an option.
\<close>

definition eom_step :: "(real \<Rightarrow> real) \<Rightarrow> (real \<Rightarrow> real) \<Rightarrow> int \<Rightarrow> int \<Rightarrow> int \<Rightarrow> real \<Rightarrow> real" where
  "eom_step fl db L col suc y1 =
     (let bprox = fl (fl (of_int L) / fl (fl (y1 * fl (of_int col)) + fl (of_int suc)));
          e = db (exp (fl ((-1) / bprox)));
          num = db (1 - e);
          den = db (bprox * db (1 - db (fl (1 + fl (1 / bprox)) * e)))
      in fl (db (num / den)))"

partial_function (option) eom_loop ::
  "(real \<Rightarrow> real) \<Rightarrow> (real \<Rightarrow> real) \<Rightarrow> real \<Rightarrow> int \<Rightarrow> int \<Rightarrow> int \<Rightarrow> real \<Rightarrow> real option" where
  "eom_loop fl db error L col suc y1 =
     (let yprox = eom_step fl db L col suc y1; backlog = fl (yprox * fl (of_int col))
      in if \<bar>fl (yprox - y1)\<bar> > error then eom_loop fl db error L col suc yprox else Some backlog)"

definition eomlee :: "real \<Rightarrow> int \<Rightarrow> int \<Rightarrow> int \<Rightarrow> reader \<Rightarrow> int option" where
  "eomlee error col suc rep r =
     map_option c_round
       (eom_loop to_float to_double error (if rep = 0 then r_qValue r else r_subQValue r) col suc 2)"

text \<open>\<open>calculate_next_Q\<close>: \<open>None\<close> is an estimator that does not return.\<close>

definition next_frame :: "int \<Rightarrow> int \<Rightarrow> reader \<Rightarrow> reader" where
  "next_frame rep n r =
     (if rep = 0 then
        (let r = r\<lparr>r_qValue := n\<rparr>
         in emit (ReschedRs (r_t2 r)) (query RC_QUERY (r_uniqCounter r) rep r))
      else
        (let r = r\<lparr>r_subQValue := n\<rparr>
         in emit (ReschedCol (r_t2 r)) (query RC_QUERY (r_subSlotNumber r) rep r)))"

definition calculate_next_Q :: "int \<Rightarrow> int \<Rightarrow> int \<Rightarrow> int \<Rightarrow> reader \<Rightarrow> reader option" where
  "calculate_next_Q col suc method rep r =
     (if col > 0 then
        if method = 0 then Some (next_frame rep (2 * col) r)
        else if method = 1 then Some (next_frame rep (c_round (dmul (to_double 2.39) (of_int col))) r)
        else if method = 2 then
          (case eomlee (to_float 0.0001) col suc rep r of
             None \<Rightarrow> None | Some n \<Rightarrow> Some (next_frame rep n r))
        else if method = 3 then Some (next_frame rep (c_trunc (dmul (to_double 2.45) (of_int col))) r)
        else if method = 4 then Some (next_frame rep (c_trunc (dmul (to_double 2.62) (of_int col))) r)
        else Some r
      else if rep \<noteq> 0 then
        (let r = r\<lparr>r_uniqCounter := r_slotNumber r + 1, r_counter := 0\<rparr>
         in Some (emit (ReschedRs (r_t2 r)) (query RC_SING (r_uniqCounter r) 0 r)))
      else Some r)"

section \<open>Dynamic framed slotted ALOHA\<close>

definition start_edfsa :: "reader \<Rightarrow> reader option" where
  "start_edfsa r0 =
     (let r = r0\<lparr>r_slotCounter := r_slotCounter r0 + 1, r_uniqCounter := r_uniqCounter r0 + 1\<rparr>;
          r = (if r_counter r = 0 then r\<lparr>r_idle := r_idle r + 1\<rparr> else r);
          r = (if r_counter r = 1
               then send_query_reply (r\<lparr>r_success := r_success r + 1, r_suc := r_suc r + 1\<rparr>) else r);
          r = (if r_counter r > 1 then r\<lparr>r_collisions := r_collisions r + 1\<rparr> else r)
      in if r_uniqCounter r \<le> r_qValue r then
           (let r = r\<lparr>r_counter := 0\<rparr>
            in Some (emit (ReschedRs (r_t2 r)) (query RC_SING (r_uniqCounter r) 0 r)))
         else
           (let r = r\<lparr>r_temp := r_collisions r, r_tempSuc := r_suc r\<rparr>;
                r = r\<lparr>r_collisions := 0, r_suc := 0, r_idle := 0, r_counter := 0, r_uniqCounter := 1\<rparr>
            in calculate_next_Q (r_temp r) (r_tempSuc r) (r_estMethod r) 0 r))"

definition start_estimationDFSA :: "reader \<Rightarrow> reader" where
  "start_estimationDFSA r0 =
     (let r = r0\<lparr>r_slotCounter := r_slotCounter r0 + 1, r_uniqCounter := r_uniqCounter r0 + 1\<rparr>;
          r = (if r_counter r = 0 then r\<lparr>r_idle := r_idle r + 1\<rparr> else r);
          r = (if r_counter r = 1
               then send_query_reply (r\<lparr>r_success := r_success r + 1, r_suc := r_suc r + 1\<rparr>) else r);
          r = (if r_counter r > 1 then
                 (let r = emit (LogCollision (r_counter r)) r;
                      r = r\<lparr>r_collisions := r_collisions r + 1\<rparr>;
                      r = r\<lparr>r_slotNumber := r_uniqCounter r - 1\<rparr>;
                      r = r\<lparr>r_uniqCounter := r_qValue r + 1, r_subQValue := r_initialFrameSize r,
                            r_subSlotNumber := 1, r_counter := 0, r_collisions := 0, r_suc := 0\<rparr>
                  in emit (ReschedCol (r_t2 r)) (query RC_QUERY (r_subSlotNumber r) (r_slotNumber r) r))
               else r)
      in if r_uniqCounter r \<le> r_qValue r then
           (let r = r\<lparr>r_counter := 0\<rparr>
            in emit (ReschedRs (r_t2 r)) (query RC_SING (r_uniqCounter r) 0 r))
         else r)"

definition resolve_collisions :: "reader \<Rightarrow> reader option" where
  "resolve_collisions r0 =
     (let r = r0\<lparr>r_slotCounter := r_slotCounter r0 + 1, r_subSlotNumber := r_subSlotNumber r0 + 1\<rparr>;
          r = (if r_counter r = 0 then r\<lparr>r_idle := r_idle r + 1\<rparr> else r);
          r = (if r_counter r = 1
               then send_query_reply (r\<lparr>r_success := r_success r + 1, r_suc := r_suc r + 1\<rparr>) else r);
          r = (if r_counter r > 1 then r\<lparr>r_collisions := r_collisions r + 1\<rparr> else r)
      in if r_subSlotNumber r \<le> r_subQValue r then
           (let r = r\<lparr>r_counter := 0\<rparr>
            in Some (emit (ReschedCol (r_t2 r)) (query RC_SING (r_subSlotNumber r) (r_slotNumber r) r)))
         else
           (let r = r\<lparr>r_temp := r_collisions r, r_tempSuc := r_suc r\<rparr>;
                r = r\<lparr>r_collisions := 0, r_suc := 0, r_idle := 0, r_counter := 0, r_subSlotNumber := 1\<rparr>
            in calculate_next_Q (r_temp r) (r_tempSuc r) (r_estMethod r) (r_slotNumber r) r))"

section \<open>Timers, commands and reception\<close>

text \<open>\<open>RetransmitTimer::expire\<close> and \<open>CollisionsTimer::expire\<close>.\<close>

definition rs_expire :: "reader \<Rightarrow> reader option" where
  "rs_expire r =
     (if r_operation r = 0 then Some (start_sing r)
      else if r_operation r = 1 \<or> r_operation r = 3 then Some (start_est r)
      else if r_operation r = 2 then start_edfsa r
      else if r_operation r = 4 then Some (start_estimationDFSA r)
      else Some r)"

definition col_expire :: "reader \<Rightarrow> reader option" where
  "col_expire r = resolve_collisions r"

text \<open>\<open>RfidReaderAgent::command\<close>: \<open>None\<close> is a command left to the base class.\<close>

definition reader_command :: "string list \<Rightarrow> reader \<Rightarrow> reader option" where
  "reader_command argv r =
     (if length argv = 2 then
        (let c = argv ! 1 in
         if c = ''query-tags'' then Some (resend r)
         else if c = ''standard-query-tags'' then
           (let r = r\<lparr>r_operation := 0, r_bigQ := r_qValue r, r_collisions := 0, r_idle := 0,
                r_success := 0, r_session := r_session r + 1, r_slotCounter := 0, r_total := 0,
                r_uniqCounter := 0\<rparr>
            in Some (emit (ReschedRs (r_t2 r)) (send_query r)))
         else if c = ''standard-with-estimation'' then
           (let r = r\<lparr>r_operation := 1, r_estCounter := 1, r_bigQ := r_qValue r, r_collisions := 0,
                r_idle := 0, r_success := 0, r_session := r_session r + 1, r_slotCounter := 0,
                r_total := 0, r_uniqCounter := 0, r_slotEstCounter := 0, r_rebuttal := 0\<rparr>
            in Some (emit (ReschedRs (r_t2 r)) (send_query_estimate r)))
         else if c = ''edfsa-query'' then
           (let r = r\<lparr>r_operation := 2, r_estCounter := 1, r_bigQ := r_qValue r, r_collisions := 0,
                r_idle := 0, r_success := 0, r_suc := 0, r_session := r_session r + 1,
                r_slotCounter := 0, r_total := 0, r_uniqCounter := 1, r_slotEstCounter := 0,
                r_rebuttal := 0\<rparr>
            in Some (emit (ReschedRs (r_t2 r)) (query RC_QUERY (r_uniqCounter r) 0 r)))
         else if c = ''estimation-dfsa-query'' then
           (let r = r\<lparr>r_operation := 3, r_estCounter := 1, r_bigQ := r_qValue r, r_collisions := 0,
                r_idle := 0, r_success := 0, r_suc := 0, r_session := r_session r + 1,
                r_slotCounter := 0, r_total := 0, r_uniqCounter := 1, r_slotEstCounter := 0,
                r_rebuttal := 0\<rparr>
            in Some (emit (ReschedRs (r_t2 r)) (send_query_estimate (emit OpenLog r))))
         else None)
      else None)"

definition ack_packet :: "packet \<Rightarrow> reader \<Rightarrow> packet" where
  "ack_packet pkt r =
     (let p = allocpkt PT_RFIDPACKET r; hdr = rfid pkt; hdrip = ip pkt
      in p\<lparr>rfid := (rfid p)\<lparr>hdr_tagEPC := hdr_tagEPC hdr, hdr_id := hdr_id hdr,
              hdr_tipo := FLOW_RT_ACK, hdr_service := r_service r,
              hdr_singularization := r_singularization r\<rparr>,
           ip := (ip p)\<lparr>ip_daddr := ip_saddr hdrip, ip_dport := ip_sport hdrip\<rparr>\<rparr>)"

definition note_tag :: "packet \<Rightarrow> reader \<Rightarrow> reader" where
  "note_tag pkt r = r\<lparr>r_tagEPC := hdr_tagEPC (rfid pkt), r_tagIP := ip_saddr (ip pkt),
     r_rng16 := hdr_rng16 (rfid pkt)\<rparr>"

definition reader_recv :: "packet \<Rightarrow> reader \<Rightarrow> reader" where
  "reader_recv pkt r =
     (let hdr = rfid pkt;
          mine = (hdr_tipo hdr = FLOW_TR \<and> hdr_id hdr = r_id r);
          r = (if mine \<and> hdr_service hdr = SERVICE_TRACKING then
                 if hdr_ack hdr = 1 then alloc_send (ack_packet pkt r) r else r
               else if mine \<and> hdr_service hdr = SERVICE_STANDARD then
                 (let r = (if hdr_command hdr \<noteq> TC_REPLY
                           then r\<lparr>r_counter := r_counter r + 1\<rparr> else r);
                      r = note_tag pkt r
                  in if hdr_command hdr = TC_REPLY then r\<lparr>r_counter := 0\<rparr> else r)
               else if mine \<and> hdr_service hdr = SERVICE_EBTSA then
                 note_tag pkt (if hdr_command hdr = TR_EST_REPLY
                               then r\<lparr>r_counter := r_counter r + 1\<rparr> else r)
               else if mine \<and> hdr_service hdr = SERVICE_EDFSA then
                 note_tag pkt (if hdr_command hdr = TC_REPLY
                               then r\<lparr>r_counter := r_counter r + 1\<rparr> else r)
               else r)
      in emit FreePkt r)"

section \<open>Frame and output lemmas\<close>

lemma emit_reader [simp]:
  "r_id (emit x r) = r_id r" "r_tagEPC (emit x r) = r_tagEPC r"
  "r_singularization (emit x r) = r_singularization r" "r_service (emit x r) = r_service r"
  "r_state (emit x r) = r_state r" "r_qValue (emit x r) = r_qValue r"
  "r_command (emit x r) = r_command r" "r_Qfp (emit x r) = r_Qfp r"
  "r_memory (emit x r) = r_memory r" "r_rng16 (emit x r) = r_rng16 r"
  "r_counter (emit x r) = r_counter r" "r_c (emit x r) = r_c r" "r_debug (emit x r) = r_debug r"
  "r_t2 (emit x r) = r_t2 r" "r_slotCounter (emit x r) = r_slotCounter r"
  "r_collisions (emit x r) = r_collisions r" "r_idle (emit x r) = r_idle r"
  "r_success (emit x r) = r_success r" "r_bigQ (emit x r) = r_bigQ r"
  "r_total (emit x r) = r_total r" "r_uniqCounter (emit x r) = r_uniqCounter r"
  "r_session (emit x r) = r_session r" "r_trace (emit x r) = r_trace r"
  "r_tagIP (emit x r) = r_tagIP r" "r_mechanism (emit x r) = r_mechanism r"
  "r_finalQ (emit x r) = r_finalQ r" "r_operation (emit x r) = r_operation r"
  "r_estCounter (emit x r) = r_estCounter r" "r_estConstant (emit x r) = r_estConstant r"
  "r_slotEstCounter (emit x r) = r_slotEstCounter r" "r_rebuttal (emit x r) = r_rebuttal r"
  "r_temp (emit x r) = r_temp r" "r_tempSuc (emit x r) = r_tempSuc r" "r_suc (emit x r) = r_suc r"
  "r_estMethod (emit x r) = r_estMethod r" "r_iL (emit x r) = r_iL r"
  "r_subQValue (emit x r) = r_subQValue r" "r_subSlotNumber (emit x r) = r_subSlotNumber r"
  "r_slotNumber (emit x r) = r_slotNumber r" "r_backlog (emit x r) = r_backlog r"
  "r_initialFrameSize (emit x r) = r_initialFrameSize r"
  "r_frameMultiplier (emit x r) = r_frameMultiplier r"
  by (simp_all add: emit_def)

lemma alloc_send_reader [simp]:
  "r_id (alloc_send p r) = r_id r" "r_tagEPC (alloc_send p r) = r_tagEPC r"
  "r_singularization (alloc_send p r) = r_singularization r"
  "r_service (alloc_send p r) = r_service r" "r_state (alloc_send p r) = r_state r"
  "r_qValue (alloc_send p r) = r_qValue r" "r_command (alloc_send p r) = r_command r"
  "r_Qfp (alloc_send p r) = r_Qfp r" "r_memory (alloc_send p r) = r_memory r"
  "r_rng16 (alloc_send p r) = r_rng16 r" "r_counter (alloc_send p r) = r_counter r"
  "r_c (alloc_send p r) = r_c r" "r_debug (alloc_send p r) = r_debug r"
  "r_t2 (alloc_send p r) = r_t2 r" "r_slotCounter (alloc_send p r) = r_slotCounter r"
  "r_collisions (alloc_send p r) = r_collisions r" "r_idle (alloc_send p r) = r_idle r"
  "r_success (alloc_send p r) = r_success r" "r_bigQ (alloc_send p r) = r_bigQ r"
  "r_total (alloc_send p r) = r_total r" "r_uniqCounter (alloc_send p r) = r_uniqCounter r"
  "r_session (alloc_send p r) = r_session r" "r_trace (alloc_send p r) = r_trace r"
  "r_tagIP (alloc_send p r) = r_tagIP r" "r_mechanism (alloc_send p r) = r_mechanism r"
  "r_finalQ (alloc_send p r) = r_finalQ r" "r_operation (alloc_send p r) = r_operation r"
  "r_estCounter (alloc_send p r) = r_estCounter r"
  "r_estConstant (alloc_send p r) = r_estConstant r"
  "r_slotEstCounter (alloc_send p r) = r_slotEstCounter r"
  "r_rebuttal (alloc_send p r) = r_rebuttal r" "r_temp (alloc_send p r) = r_temp r"
  "r_tempSuc (alloc_send p r) = r_tempSuc r" "r_suc (alloc_send p r) = r_suc r"
  "r_estMethod (alloc_send p r) = r_estMethod r" "r_iL (alloc_send p r) = r_iL r"
  "r_subQValue (alloc_send p r) = r_subQValue r"
  "r_subSlotNumber (alloc_send p r) = r_subSlotNumber r"
  "r_slotNumber (alloc_send p r) = r_slotNumber r" "r_backlog (alloc_send p r) = r_backlog r"
  "r_initialFrameSize (alloc_send p r) = r_initialFrameSize r"
  "r_frameMultiplier (alloc_send p r) = r_frameMultiplier r"
  by (simp_all add: alloc_send_def)

lemma raise_bigQ_reader [simp]:
  "r_id (raise_bigQ r) = r_id r" "r_tagEPC (raise_bigQ r) = r_tagEPC r"
  "r_singularization (raise_bigQ r) = r_singularization r" "r_service (raise_bigQ r) = r_service r"
  "r_state (raise_bigQ r) = r_state r" "r_qValue (raise_bigQ r) = r_qValue r"
  "r_command (raise_bigQ r) = r_command r" "r_Qfp (raise_bigQ r) = r_Qfp r"
  "r_memory (raise_bigQ r) = r_memory r" "r_rng16 (raise_bigQ r) = r_rng16 r"
  "r_counter (raise_bigQ r) = r_counter r" "r_c (raise_bigQ r) = r_c r"
  "r_debug (raise_bigQ r) = r_debug r" "r_t2 (raise_bigQ r) = r_t2 r"
  "r_slotCounter (raise_bigQ r) = r_slotCounter r" "r_collisions (raise_bigQ r) = r_collisions r"
  "r_idle (raise_bigQ r) = r_idle r" "r_success (raise_bigQ r) = r_success r"
  "r_total (raise_bigQ r) = r_total r" "r_uniqCounter (raise_bigQ r) = r_uniqCounter r"
  "r_session (raise_bigQ r) = r_session r" "r_trace (raise_bigQ r) = r_trace r"
  "r_tagIP (raise_bigQ r) = r_tagIP r" "r_mechanism (raise_bigQ r) = r_mechanism r"
  "r_finalQ (raise_bigQ r) = r_finalQ r" "r_operation (raise_bigQ r) = r_operation r"
  "r_estCounter (raise_bigQ r) = r_estCounter r" "r_estConstant (raise_bigQ r) = r_estConstant r"
  "r_slotEstCounter (raise_bigQ r) = r_slotEstCounter r" "r_rebuttal (raise_bigQ r) = r_rebuttal r"
  "r_temp (raise_bigQ r) = r_temp r" "r_tempSuc (raise_bigQ r) = r_tempSuc r"
  "r_suc (raise_bigQ r) = r_suc r" "r_estMethod (raise_bigQ r) = r_estMethod r"
  "r_iL (raise_bigQ r) = r_iL r" "r_subQValue (raise_bigQ r) = r_subQValue r"
  "r_subSlotNumber (raise_bigQ r) = r_subSlotNumber r"
  "r_slotNumber (raise_bigQ r) = r_slotNumber r" "r_backlog (raise_bigQ r) = r_backlog r"
  "r_initialFrameSize (raise_bigQ r) = r_initialFrameSize r"
  "r_frameMultiplier (raise_bigQ r) = r_frameMultiplier r"
  "acts (raise_bigQ r) = acts r"
  by (simp_all add: raise_bigQ_def)

lemma alloc_send_agent [simp]:
  "acts (alloc_send p r) = acts r @ [AllocPkt, Send p]"
  "here_addr (alloc_send p r) = here_addr r" "here_port (alloc_send p r) = here_port r"
  by (simp_all add: alloc_send_def)

lemmas send_ops = resend_def query_def send_query_def finish_def send_query_estimate_def
  send_query_ajust_def send_query_reply_def send_query_reply_update_slot_def

end
