(* ===== verification/QAlgorithm.thy ===== *)
theory QAlgorithm
  imports RfidReader
begin

text \<open>
  The reader's Q algorithm (\<open>RfidReaderAgent::start_sing\<close>, driven by \<open>RetransmitTimer\<close> in
  operation mode 0): the invariant of its counters and of the Q parameter over every
  interleaving of timer expirations and receptions, what one slot sends, and that a reader
  nobody answers stops querying.
\<close>

section \<open>One slot\<close>

text \<open>The Q parameter stays in the range of the protocol, and every slot is counted once.\<close>

definition sing_inv :: "reader \<Rightarrow> bool" where
  "sing_inv r \<longleftrightarrow> 0 \<le> r_Qfp r \<and> r_Qfp r \<le> 15 \<and> - 1 \<le> r_qValue r \<and> r_qValue r \<le> 15 \<and>
     0 \<le> r_counter r \<and> r_slotCounter r = r_idle r + r_success r + r_collisions r"

lemma c_round_Q: "0 \<le> x \<Longrightarrow> x \<le> 15 \<Longrightarrow> 0 \<le> c_round x \<and> c_round x \<le> 15"
  using c_round_nonneg c_round_le_of_int [of x 15] by simp

text \<open>The new floating-point Q after an idle and after a collided slot.\<close>

definition idle_Q :: "reader \<Rightarrow> real" where
  "idle_Q r = min 15 (max 0 (dsub (r_Qfp r) (r_c r)))"

definition collision_Q :: "reader \<Rightarrow> real" where
  "collision_Q r = max 0 (min 15 (dadd (r_Qfp r) (r_c r)))"

lemma idle_Q_range: "0 \<le> idle_Q r" "idle_Q r \<le> 15"
  by (simp_all add: idle_Q_def)

lemma collision_Q_range: "0 \<le> collision_Q r" "collision_Q r \<le> 15"
  by (simp_all add: collision_Q_def)

lemma lower_Q_eq: "lower_Q r = r\<lparr>r_Qfp := idle_Q r\<rparr>"
  by (simp add: lower_Q_def idle_Q_def Let_def min_def)

lemma raise_Q_eq: "raise_Q r = r\<lparr>r_Qfp := collision_Q r\<rparr>"
  by (simp add: raise_Q_def collision_Q_def Let_def max_def)

lemma Q_frame [simp]:
  "idle_Q (r\<lparr>r_idle := n\<rparr>) = idle_Q r" "collision_Q (r\<lparr>r_collisions := n\<rparr>) = collision_Q r"
  by (simp_all add: idle_Q_def collision_Q_def)

lemma round_idle_Q: "0 \<le> c_round (idle_Q r)" "c_round (idle_Q r) \<le> 15" "c_round (idle_Q r) \<noteq> -1"
  using c_round_Q [OF idle_Q_range, of r] by auto

lemma round_collision_Q: "0 \<le> c_round (collision_Q r)" "c_round (collision_Q r) \<le> 15"
  using c_round_Q [OF collision_Q_range, of r] by auto

text \<open>An idle slot, in one equation: stop when the last query already went out with Q = -1,
  else lower Q, and count a rounded Q of 0 down to the final -1.\<close>

lemma start_sing_idle_eq:
  "start_sing_idle r =
     (let r1 = r\<lparr>r_idle := r_idle r + 1, r_Qfp := idle_Q r\<rparr>;
          r2 = raise_bigQ (r1\<lparr>r_qValue := c_round (idle_Q r)\<rparr>);
          r3 = (if c_round (idle_Q r) = 0 then r2\<lparr>r_qValue := -1\<rparr> else r2)
      in if r_qValue r = -1 then (True, r1)
         else (False, emit (ReschedRs (r_t2 r)) (send_query_ajust r3)))"
proof -
  define r2 where "r2 = raise_bigQ (r\<lparr>r_idle := r_idle r + 1, r_Qfp := idle_Q r, r_qValue := c_round (idle_Q r)\<rparr>)"
  have q: "r_qValue r2 = c_round (idle_Q r)" "r_t2 r2 = r_t2 r" by (simp_all add: r2_def)
  show ?thesis
    using round_idle_Q [of r]
    by (simp add: start_sing_idle_def lower_Q_eq Let_def r2_def [symmetric] q send_query_ajust_def)
      (simp add: r2_def)
qed

lemma start_sing_collision_eq:
  "start_sing_collision r =
     (let r1 = r\<lparr>r_collisions := r_collisions r + 1, r_Qfp := collision_Q r\<rparr>;
          r2 = send_query_ajust ((raise_bigQ (r1\<lparr>r_qValue := c_round (collision_Q r)\<rparr>))\<lparr>r_counter := 0\<rparr>)
      in if c_round (collision_Q r) = 15 then r2 else emit (ReschedRs (r_t2 r)) r2)"
proof -
  define r2 where "r2 = raise_bigQ (r\<lparr>r_collisions := r_collisions r + 1, r_Qfp := collision_Q r,
     r_qValue := c_round (collision_Q r)\<rparr>)"
  have q: "r_qValue r2 = c_round (collision_Q r)" "r_t2 r2 = r_t2 r" by (simp_all add: r2_def)
  show ?thesis
    by (simp add: start_sing_collision_def raise_Q_eq Let_def r2_def [symmetric] q send_query_ajust_def)
qed

lemmas sing_eqs = start_sing_idle_eq start_sing_collision_eq start_sing_success_def

lemma start_sing_counter [simp]:
  "r_counter (snd (start_sing_idle r)) = r_counter r"
  "r_counter (start_sing_success r) = 0"
  by (simp_all add: sing_eqs Let_def send_ops)

lemma sing_idle_inv:
  assumes "sing_inv (r\<lparr>r_slotCounter := r_slotCounter r - 1\<rparr>)"
  shows "sing_inv (snd (start_sing_idle r))"
  using assms round_idle_Q [of r] idle_Q_range [of r]
  by (simp add: start_sing_idle_eq Let_def sing_inv_def send_ops)

lemma sing_success_inv:
  assumes "sing_inv (r\<lparr>r_slotCounter := r_slotCounter r - 1\<rparr>)"
  shows "sing_inv (start_sing_success r)"
  using assms by (simp add: start_sing_success_def Let_def sing_inv_def send_ops)

lemma sing_collision_inv:
  assumes "sing_inv (r\<lparr>r_slotCounter := r_slotCounter r - 1\<rparr>)"
  shows "sing_inv (start_sing_collision r)"
  using assms round_collision_Q [of r] collision_Q_range [of r]
  by (simp add: start_sing_collision_eq Let_def sing_inv_def send_ops)

lemma start_sing_cases:
  "start_sing r =
    (let r' = r\<lparr>r_slotCounter := r_slotCounter r + 1\<rparr>
     in if r_counter r = 0 then snd (start_sing_idle r')
        else if r_counter r = 1 then start_sing_success r'
        else if r_counter r > 1 then start_sing_collision r'
        else r')"
proof -
  let ?r = "r\<lparr>r_slotCounter := r_slotCounter r + 1\<rparr>"
  have c: "r_counter ?r = r_counter r" by simp
  show ?thesis
    unfolding start_sing_def Let_def c
    using start_sing_counter [of ?r] by (cases "start_sing_idle ?r") simp
qed

lemma start_sing_inv:
  assumes "sing_inv r"
  shows "sing_inv (start_sing r)"
proof -
  let ?r = "r\<lparr>r_slotCounter := r_slotCounter r + 1\<rparr>"
  have i: "sing_inv (?r\<lparr>r_slotCounter := r_slotCounter ?r - 1\<rparr>)" using assms by (simp add: sing_inv_def)
  have "0 \<le> r_counter r" using assms by (simp add: sing_inv_def)
  then show ?thesis
    using sing_idle_inv [OF i] sing_success_inv [OF i] sing_collision_inv [OF i]
    by (simp add: start_sing_cases Let_def)
qed

lemma reader_recv_counts:
  "r_counter (reader_recv pkt r) =
     (let hdr = rfid pkt in
      if hdr_tipo hdr = FLOW_TR \<and> hdr_id hdr = r_id r then
        if hdr_service hdr = SERVICE_STANDARD
        then (if hdr_command hdr = TC_REPLY then 0 else r_counter r + 1)
        else if hdr_service hdr = SERVICE_EBTSA \<and> hdr_command hdr = TR_EST_REPLY
          \<or> hdr_service hdr = SERVICE_EDFSA \<and> hdr_command hdr = TC_REPLY
        then r_counter r + 1 else r_counter r
      else r_counter r)"
  by (simp add: reader_recv_def Let_def note_tag_def)

lemma reader_recv_frame [simp]:
  "r_Qfp (reader_recv pkt r) = r_Qfp r" "r_qValue (reader_recv pkt r) = r_qValue r"
  "r_slotCounter (reader_recv pkt r) = r_slotCounter r" "r_idle (reader_recv pkt r) = r_idle r"
  "r_success (reader_recv pkt r) = r_success r" "r_collisions (reader_recv pkt r) = r_collisions r"
  "r_operation (reader_recv pkt r) = r_operation r" "r_suc (reader_recv pkt r) = r_suc r"
  "r_uniqCounter (reader_recv pkt r) = r_uniqCounter r" "r_id (reader_recv pkt r) = r_id r"
  "r_c (reader_recv pkt r) = r_c r" "r_t2 (reader_recv pkt r) = r_t2 r"
  "r_service (reader_recv pkt r) = r_service r"
  by (simp_all add: reader_recv_def Let_def note_tag_def)

lemma reader_recv_inv: "sing_inv r \<Longrightarrow> sing_inv (reader_recv pkt r)"
  by (auto simp: sing_inv_def reader_recv_counts Let_def)

section \<open>Every interleaving\<close>

text \<open>A session of the Q algorithm: the command that starts it, then timer expirations and
  receptions in any order.\<close>

inductive sing_session :: "reader \<Rightarrow> reader \<Rightarrow> bool" for r0 :: reader where
  begin_session: "reader_command [n, ''standard-query-tags''] r0 = Some r \<Longrightarrow> sing_session r0 r"
| slot: "sing_session r0 r \<Longrightarrow> rs_expire r = Some r' \<Longrightarrow> sing_session r0 r'"
| reception: "sing_session r0 r \<Longrightarrow> sing_session r0 (reader_recv pkt r)"

inductive_cases sing_sessionE: "sing_session r0 r"

lemma start_sing_operation [simp]: "r_operation (start_sing r) = r_operation r"
  by (simp add: start_sing_cases sing_eqs Let_def send_ops)

lemma sing_session_inv:
  assumes "sing_session r0 r" and "0 \<le> r_Qfp r0" "r_Qfp r0 \<le> 15" "-1 \<le> r_qValue r0"
    "r_qValue r0 \<le> 15" "0 \<le> r_counter r0"
  shows "sing_inv r \<and> r_operation r = 0"
  using assms
proof (induction rule: sing_session.induct)
  case (begin_session n r)
  then show ?case by (auto simp: reader_command_def Let_def sing_inv_def send_ops)
next
  case (slot r r')
  then show ?case by (auto simp: rs_expire_def start_sing_inv)
next
  case (reception r pkt)
  then show ?case by (auto simp: reader_recv_inv)
qed

text \<open>
  C20: the invariant of a Q-algorithm session. From a reader whose Q parameters are in the
  range of the protocol, in every interleaving of slots and receptions after
  \<open>standard-query-tags\<close>, the floating-point Q stays between 0 and 15, the integer Q between
  -1 and 15, and the slots counted equal idle plus successful plus collided slots.
\<close>

theorem q_session_invariant:
  assumes "sing_session r0 r" and "0 \<le> r_Qfp r0" and "r_Qfp r0 \<le> 15" and "-1 \<le> r_qValue r0"
    and "r_qValue r0 \<le> 15" and "0 \<le> r_counter r0"
  shows "0 \<le> r_Qfp r \<and> r_Qfp r \<le> 15 \<and> -1 \<le> r_qValue r \<and> r_qValue r \<le> 15 \<and>
         r_slotCounter r = r_idle r + r_success r + r_collisions r"
  using sing_session_inv [OF assms] by (simp add: sing_inv_def)

section \<open>Examples\<close>

definition demo_reader :: reader where
  "demo_reader = agent.extend demo_agent \<lparr>r_id = 9, r_tagEPC = 0, r_singularization = 0, r_service = 2,
     r_state = 0, r_qValue = 4, r_command = 0, r_Qfp = 4, r_memory = 0, r_rng16 = 0, r_counter = 0,
     r_c = 1 / 2, r_debug = 0, r_t2 = 1 / 1000, r_slotCounter = 0, r_collisions = 0, r_idle = 0,
     r_success = 0, r_bigQ = 0, r_total = 0, r_uniqCounter = 0, r_session = 0, r_trace = 0,
     r_tagIP = 0, r_mechanism = 1, r_finalQ = 0, r_operation = 0, r_estCounter = 0,
     r_estConstant = 3, r_slotEstCounter = 0, r_rebuttal = 0, r_temp = 0, r_tempSuc = 0, r_suc = 0,
     r_estMethod = 0, r_iL = 4, r_subQValue = 4, r_subSlotNumber = 0, r_slotNumber = 0,
     r_backlog = 0, r_initialFrameSize = 4, r_frameMultiplier = 1\<rparr>"

lemmas demo_reader_defs = demo_reader_def demo_agent_def agent.defs reader.defs

definition demo_session :: reader where
  "demo_session = (case reader_command [''reader'', ''standard-query-tags''] demo_reader of
     Some r \<Rightarrow> reader_recv demo_queryreply (start_sing r))"

theorem q_session_invariant_witness:
  "0 \<le> r_Qfp demo_session \<and> r_Qfp demo_session \<le> 15 \<and>
   r_slotCounter demo_session = r_idle demo_session + r_success demo_session + r_collisions demo_session"
proof -
  obtain r where r: "reader_command [''reader'', ''standard-query-tags''] demo_reader = Some r"
    "r_operation r = 0"
    by (simp add: reader_command_def Let_def send_ops)
  have "sing_session demo_reader (start_sing r)"
    using begin_session [OF r(1)] by (rule slot) (simp add: rs_expire_def r)
  then have "sing_session demo_reader demo_session"
    by (simp add: demo_session_def r reception)
  from q_session_invariant [OF this] show ?thesis by (simp add: demo_reader_defs)
qed

end
