(* ===== verification/Frames.thy ===== *)
theory Frames
  imports QAlgorithm
begin

text \<open>
  Frames of slotted ALOHA: what a frame keeps while its slots are evaluated, over a list of
  addresses and slots; the range of the tags' draws; and the reader's slot bookkeeping and
  frame sizes (\<open>start_edfsa\<close>, \<open>resolve_collisions\<close>, \<open>calculate_next_Q\<close>) as equations.
\<close>

section \<open>Frames\<close>

text \<open>
  What a frame of slotted ALOHA keeps, over the unread tags that take part in it, each an
  address and a slot. Before slot \<open>k\<close> of \<open>n\<close> is evaluated the reader has heard \<open>cnt\<close> answers,
  the last from \<open>lip\<close>, and has counted \<open>col\<close> collided slots.
\<close>

definition slot_count :: "(int \<times> int) list \<Rightarrow> int \<Rightarrow> int" where
  "slot_count xs k = int (length (filter (\<lambda>x. snd x = k) xs))"

definition collided :: "(int \<times> int) list \<Rightarrow> int \<Rightarrow> int set" where
  "collided xs k = {j. 1 \<le> j \<and> j < k \<and> slot_count xs j > 1}"

definition frame_ok :: "int \<Rightarrow> int \<Rightarrow> int \<Rightarrow> int \<Rightarrow> int \<Rightarrow> (int \<times> int) list \<Rightarrow> bool" where
  "frame_ok k n cnt lip col xs \<longleftrightarrow>
     distinct (map fst xs) \<and> (\<forall>x \<in> set xs. 1 \<le> snd x \<and> snd x \<le> n) \<and> 1 \<le> k \<and> k \<le> n \<and>
     cnt = slot_count xs k \<and> (cnt = 1 \<longrightarrow> (lip, k) \<in> set xs) \<and>
     (\<forall>j. j < k \<longrightarrow> slot_count xs j \<noteq> 1) \<and> col = int (card (collided xs k))"

definition take_out :: "int \<Rightarrow> int \<Rightarrow> (int \<times> int) list \<Rightarrow> (int \<times> int) list" where
  "take_out cnt lip xs = (if cnt = 1 then filter (\<lambda>x. fst x \<noteq> lip) xs else xs)"

lemma slot_count_nonneg [simp]: "0 \<le> slot_count xs k"
  by (simp add: slot_count_def)

lemma slot_count_0: "slot_count xs k = 0 \<longleftrightarrow> (\<forall>x \<in> set xs. snd x \<noteq> k)"
  by (auto simp: slot_count_def filter_empty_conv)

lemma slot_count_take_out:
  assumes "distinct (map fst xs)" and "cnt = slot_count xs k" and "cnt = 1 \<longrightarrow> (lip, k) \<in> set xs"
  shows "slot_count (take_out cnt lip xs) j = (if j = k \<and> cnt = 1 then 0 else slot_count xs j)"
proof (cases "cnt = 1")
  case True
  with assms have m: "(lip, k) \<in> set xs" and c: "slot_count xs k = 1" by auto
  have only: "x = (lip, k)" if "x \<in> set xs" "fst x = lip" for x
    using that m assms(1) by (metis eq_key_imp_eq_value prod.collapse)
  have "snd x \<noteq> k" if "x \<in> set (take_out cnt lip xs)" for x
  proof
    assume "snd x = k"
    with that True have "x \<in> set (filter (\<lambda>x. snd x = k) xs)" "x \<noteq> (lip, k)"
      by (simp_all add: take_out_def) (metis fst_conv)
    moreover have "(lip, k) \<in> set (filter (\<lambda>x. snd x = k) xs)" using m by simp
    moreover obtain y where "filter (\<lambda>x. snd x = k) xs = [y]"
      using c by (auto simp: slot_count_def length_Suc_conv)
    ultimately show False by simp
  qed
  moreover have "filter (\<lambda>x. snd x = j) (take_out cnt lip xs) = filter (\<lambda>x. snd x = j) xs" if "j \<noteq> k"
    using that only True by (auto simp: take_out_def intro!: filter_cong)
  ultimately show ?thesis using True slot_count_0 by (auto simp: slot_count_def)
qed (simp add: take_out_def)

lemma filter_out_length:
  "distinct (map fst xs) \<Longrightarrow> (a, k) \<in> set xs \<Longrightarrow> length xs = Suc (length (filter (\<lambda>x. fst x \<noteq> a) xs))"
proof (induction xs)
  case (Cons x xs)
  show ?case
  proof (cases "fst x = a")
    case True
    then have "filter (\<lambda>x. fst x \<noteq> a) xs = xs" using Cons.prems(1) by (auto simp: filter_id_conv image_iff)
    with True show ?thesis by simp
  qed (use Cons in auto)
qed simp

lemma frame_after:
  assumes "frame_ok k n cnt lip col xs"
  defines "ys \<equiv> take_out cnt lip xs"
  shows "distinct (map fst ys)" "\<forall>x \<in> set ys. 1 \<le> snd x \<and> snd x \<le> n"
    "\<forall>j. j < k + 1 \<longrightarrow> slot_count ys j \<noteq> 1"
    "int (card (collided ys (k + 1))) = col + (if cnt > 1 then 1 else 0)"
    "length xs = length ys + (if cnt = 1 then 1 else 0)"
proof -
  have f: "distinct (map fst xs)" "cnt = slot_count xs k" "cnt = 1 \<longrightarrow> (lip, k) \<in> set xs"
    "\<forall>x \<in> set xs. 1 \<le> snd x \<and> snd x \<le> n" "\<forall>j. j < k \<longrightarrow> slot_count xs j \<noteq> 1"
    "col = int (card (collided xs k))" "1 \<le> k"
    using assms by (auto simp: frame_ok_def)
  have sc: "slot_count ys j = (if j = k \<and> cnt = 1 then 0 else slot_count xs j)" for j
    unfolding ys_def by (rule slot_count_take_out [OF f(1-3)])
  show "distinct (map fst ys)" using f(1) by (auto simp: ys_def take_out_def distinct_map_filter)
  show "\<forall>x \<in> set ys. 1 \<le> snd x \<and> snd x \<le> n" using f(4) by (auto simp: ys_def take_out_def)
  show "\<forall>j. j < k + 1 \<longrightarrow> slot_count ys j \<noteq> 1"
    using f(2,5) by (simp add: sc) (metis less_le)
  have "collided ys (k + 1) = collided xs k \<union> (if cnt > 1 then {k} else {})"
    using f(2,7) by (auto simp: collided_def sc le_less)
  moreover have "finite (collided xs k)"
    by (rule finite_subset [of _ "{1..k}"]) (auto simp: collided_def)
  moreover have "k \<notin> collided xs k" by (simp add: collided_def)
  ultimately show "int (card (collided ys (k + 1))) = col + (if cnt > 1 then 1 else 0)"
    using f(6) by auto
  show "length xs = length ys + (if cnt = 1 then 1 else 0)"
    using filter_out_length [OF f(1), of lip k] f(3) by (simp add: ys_def take_out_def)
qed

lemma frame_next:
  assumes "frame_ok k n cnt lip col xs" and "k < n"
    and "cnt' = slot_count ys (k + 1)" and "cnt' = 1 \<longrightarrow> (lip', k + 1) \<in> set ys"
    and "ys = take_out cnt lip xs" and "col' = col + (if cnt > 1 then 1 else 0)"
  shows "frame_ok (k + 1) n cnt' lip' col' ys"
  using frame_after [OF assms(1)] assms(1-4) unfolding frame_ok_def assms(5,6) by auto

lemma frame_end:
  assumes "frame_ok n n cnt lip col xs" and "col + (if cnt > 1 then 1 else 0) = 0"
  shows "take_out cnt lip xs = []"
proof (rule ccontr)
  let ?ys = "take_out cnt lip xs"
  note a = frame_after [OF assms(1)]
  assume "?ys \<noteq> []"
  then obtain x where x: "x \<in> set ?ys" by (meson last_in_set)
  with a(2) have r: "1 \<le> snd x" "snd x < n + 1" by auto
  have "slot_count ?ys (snd x) \<noteq> 0" using x slot_count_0 by blast
  moreover have "slot_count ?ys (snd x) \<noteq> 1" using a(3) r by auto
  ultimately have "snd x \<in> collided ?ys (n + 1)"
    using r slot_count_nonneg [of ?ys "snd x"] unfolding collided_def mem_Collect_eq by linarith
  moreover have "finite (collided ?ys (n + 1))"
    by (rule finite_subset [of _ "{1..n + 1}"]) (auto simp: collided_def)
  ultimately have "card (collided ?ys (n + 1)) \<noteq> 0" by auto
  with a(4) assms(2) show False by simp
qed

lemma frame_first:
  assumes "distinct (map fst xs)" and "\<forall>x \<in> set xs. 1 \<le> snd x \<and> snd x \<le> n" and "1 \<le> n"
    and "cnt = slot_count xs 1" and "cnt = 1 \<longrightarrow> (lip, 1) \<in> set xs"
  shows "frame_ok 1 n cnt lip 0 xs"
proof -
  have "collided xs 1 = {}" by (auto simp: collided_def)
  moreover have "slot_count xs j = 0" if "j < 1" for j using assms(2) that by (force simp: slot_count_0)
  ultimately show ?thesis using assms by (simp add: frame_ok_def)
qed

lemma collided_bound:
  assumes "frame_ok k n cnt lip col xs"
  shows "col + (if cnt > 1 then 1 else 0) \<le> int (length (take_out cnt lip xs))"
proof -
  let ?ys = "take_out cnt lip xs"
  have "collided ?ys (k + 1) \<subseteq> snd ` set ?ys"
  proof
    fix j assume "j \<in> collided ?ys (k + 1)"
    then have "slot_count ?ys j \<noteq> 0" by (simp add: collided_def)
    then show "j \<in> snd ` set ?ys" by (auto simp: slot_count_0)
  qed
  then have "card (collided ?ys (k + 1)) \<le> length ?ys"
    by (meson List.finite_set card_image_le card_length card_mono finite_imageI le_trans)
  with frame_after(4) [OF assms] show ?thesis by simp
qed

section \<open>Draws in range\<close>

text \<open>The slot \<open>updateSlot2\<close> draws from a frame of \<open>n\<close> slots.\<close>

definition slot_draw :: "int \<Rightarrow> real \<Rightarrow> int" where
  "slot_draw n u = c_round (to_float (rng_uniform 1 (of_int n) u))"

lemma rounding_keeps_range:
  assumes "1 \<le> x" and "x \<le> of_int n" and "n \<le> 2 ^ 24"
  shows "1 \<le> to_double x" "to_double x \<le> of_int n" "1 \<le> to_float x" "to_float x \<le> of_int n"
proof -
  have n: "1 \<le> n" using assms(1,2) by linarith
  have e: "to_double 1 = 1" "to_double (of_int n) = of_int n" "to_float 1 = 1" "to_float (of_int n) = of_int n"
    using to_double_of_int [of 1] to_double_of_int [of n] to_float_of_int [of 1] to_float_of_int [of n] n assms(3)
    by simp_all
  show "1 \<le> to_double x" "to_double x \<le> of_int n" "1 \<le> to_float x" "to_float x \<le> of_int n"
    using to_double_mono [of 1 x] to_double_mono [of x "of_int n"] to_float_mono [of 1 x]
      to_float_mono [of x "of_int n"] assms e by simp_all
qed

lemma slot_draw_range:
  assumes "1 \<le> n" and "n \<le> 2 ^ 24" and "0 \<le> u" and "u \<le> 1"
  shows "1 \<le> slot_draw n u \<and> slot_draw n u \<le> n"
proof -
  have d: "dsub (of_int n) 1 = of_int (n - 1)"
    using to_double_of_int [of "n - 1"] assms(1,2) by (simp add: dsub_def)
  have m: "0 \<le> of_int (n - 1) * u" "of_int (n - 1) * u \<le> of_int (n - 1)"
    using assms by (simp_all add: mult_left_le)
  have "to_double (of_int (n - 1)) = of_int (n - 1)" using assms(1,2) by (intro to_double_of_int) auto
  then have "0 \<le> dmul (of_int (n - 1)) u" "dmul (of_int (n - 1)) u \<le> of_int (n - 1)"
    using to_double_nonneg [OF m(1)] to_double_mono [OF m] by (simp_all add: dmul_def)
  then have x: "1 \<le> 1 + dmul (of_int (n - 1)) u" "1 + dmul (of_int (n - 1)) u \<le> of_int n" by simp_all
  note y = rounding_keeps_range [OF x assms(2)]
  note z = rounding_keeps_range [OF y(1,2) assms(2)]
  have "slot_draw n u = c_round (to_float (to_double (1 + dmul (of_int (n - 1)) u)))"
    by (simp add: slot_draw_def rng_uniform_def dadd_def d)
  with z(3,4) show ?thesis
    using of_int_le_c_round [of 1] c_round_le_of_int [of _ n] by simp
qed

section \<open>One slot of the reader\<close>

text \<open>The bookkeeping common to the framed modes: the slot is counted as idle, successful or
  collided, and a single answer is acknowledged.\<close>

definition count_slot :: "reader \<Rightarrow> reader" where
  "count_slot r = r\<lparr>
     r_idle := r_idle r + (if r_counter r = 0 then 1 else 0),
     r_success := r_success r + (if r_counter r = 1 then 1 else 0),
     r_suc := r_suc r + (if r_counter r = 1 then 1 else 0),
     r_collisions := r_collisions r + (if r_counter r > 1 then 1 else 0)\<rparr>"

definition ack_single :: "reader \<Rightarrow> reader" where
  "ack_single r = (if r_counter r = 1 then send_query_reply r else r)"

lemma send_query_reply_upd:
  "send_query_reply r = r\<lparr>acts := acts r @ [AllocPkt, Send (queryreply_packet r)]\<rparr>"
  by (simp add: send_query_reply_def alloc_send_def emit_def)

lemma query_upd:
  "query c k rep r = r\<lparr>acts := acts r @ [AllocPkt, Send (query_packet c k rep r)]\<rparr>"
  by (simp add: query_def alloc_send_def emit_def)

lemma emit_upd: "emit x r = r\<lparr>acts := acts r @ [x]\<rparr>"
  by (simp add: emit_def)

lemma start_edfsa_eq:
  "start_edfsa r =
    (let r1 = ack_single (count_slot (r\<lparr>r_slotCounter := r_slotCounter r + 1, r_uniqCounter := r_uniqCounter r + 1\<rparr>))
     in if r_uniqCounter r + 1 \<le> r_qValue r
        then Some (emit (ReschedRs (r_t2 r)) (query RC_SING (r_uniqCounter r + 1) 0 (r1\<lparr>r_counter := 0\<rparr>)))
        else calculate_next_Q (r_collisions r1) (r_suc r1) (r_estMethod r) 0
          (r1\<lparr>r_temp := r_collisions r1, r_tempSuc := r_suc r1, r_collisions := 0, r_suc := 0, r_idle := 0,
              r_counter := 0, r_uniqCounter := 1\<rparr>))"
  by (cases "r_counter r = 0"; cases "r_counter r = 1"; cases "r_counter r > 1")
    (simp_all add: start_edfsa_def count_slot_def ack_single_def send_query_reply_upd Let_def)

lemma resolve_collisions_eq:
  "resolve_collisions r =
    (let r1 = ack_single (count_slot (r\<lparr>r_slotCounter := r_slotCounter r + 1, r_subSlotNumber := r_subSlotNumber r + 1\<rparr>))
     in if r_subSlotNumber r + 1 \<le> r_subQValue r
        then Some (emit (ReschedCol (r_t2 r))
          (query RC_SING (r_subSlotNumber r + 1) (r_slotNumber r) (r1\<lparr>r_counter := 0\<rparr>)))
        else calculate_next_Q (r_collisions r1) (r_suc r1) (r_estMethod r) (r_slotNumber r)
          (r1\<lparr>r_temp := r_collisions r1, r_tempSuc := r_suc r1, r_collisions := 0, r_suc := 0, r_idle := 0,
              r_counter := 0, r_subSlotNumber := 1\<rparr>))"
  by (cases "r_counter r = 0"; cases "r_counter r = 1"; cases "r_counter r > 1")
    (simp_all add: resolve_collisions_def count_slot_def ack_single_def send_query_reply_upd Let_def)

text \<open>The size of the next frame, for the estimators that always return.\<close>

definition next_size :: "int \<Rightarrow> int \<Rightarrow> int" where
  "next_size method col =
     (if method = 0 then 2 * col
      else if method = 1 then c_round (dmul (to_double 2.39) (of_int col))
      else if method = 3 then c_trunc (dmul (to_double 2.45) (of_int col))
      else c_trunc (dmul (to_double 2.62) (of_int col)))"

definition closed_form :: "int \<Rightarrow> bool" where
  "closed_form method \<longleftrightarrow> method = 0 \<or> method = 1 \<or> method = 3 \<or> method = 4"

lemma calculate_next_Q_eq:
  "closed_form method \<Longrightarrow> calculate_next_Q col suc method rep r =
     (if col > 0 then Some (next_frame rep (next_size method col) r)
      else if rep \<noteq> 0 then
        (let r = r\<lparr>r_uniqCounter := r_slotNumber r + 1, r_counter := 0\<rparr>
         in Some (emit (ReschedRs (r_t2 r)) (query RC_SING (r_uniqCounter r) 0 r)))
      else Some r)"
  by (auto simp: closed_form_def calculate_next_Q_def next_size_def)

text \<open>The five estimators of \<open>calculate_next_Q\<close>; the third is the Eom-Lee iteration.\<close>

definition known_method :: "int \<Rightarrow> bool" where
  "known_method method \<longleftrightarrow> 0 \<le> method \<and> method \<le> 4"

definition estimate :: "int \<Rightarrow> int \<Rightarrow> int \<Rightarrow> int \<Rightarrow> reader \<Rightarrow> int option" where
  "estimate method col suc rep r =
     (if method = 2 then eomlee (to_float 0.0001) col suc rep r else Some (next_size method col))"

lemma closed_form_known: "closed_form method \<longleftrightarrow> known_method method \<and> method \<noteq> 2"
  by (auto simp: closed_form_def known_method_def)

lemma calculate_next_Q_known:
  assumes "known_method method"
  shows "calculate_next_Q col suc method rep r =
     (if col > 0 then map_option (\<lambda>n. next_frame rep n r) (estimate method col suc rep r)
      else if rep \<noteq> 0 then
        (let r = r\<lparr>r_uniqCounter := r_slotNumber r + 1, r_counter := 0\<rparr>
         in Some (emit (ReschedRs (r_t2 r)) (query RC_SING (r_uniqCounter r) 0 r)))
      else Some r)"
proof (cases "method = 2")
  case True
  then show ?thesis by (simp add: calculate_next_Q_def estimate_def split: option.split)
next
  case False
  then show ?thesis using assms closed_form_known calculate_next_Q_eq by (simp add: estimate_def)
qed

lemma estimate_none: "estimate method col suc rep r = None \<Longrightarrow> method = 2 \<and> eomlee (to_float 0.0001) col suc rep r = None"
  by (simp add: estimate_def split: if_splits)

lemma estimate_closed: "estimate method col suc rep r = Some n \<Longrightarrow> method \<noteq> 2 \<Longrightarrow> n = next_size method col"
  by (simp add: estimate_def)

lemma estimate_range:
  assumes "2 \<le> x" and "x \<le> 3" and "0 < col" and "col \<le> 2 ^ 50"
  shows "2 * of_int col \<le> dmul (to_double x) (of_int col)" "dmul (to_double x) (of_int col) \<le> 3 * of_int col"
proof -
  have d: "to_double 2 = 2" "to_double 3 = 3" using to_double_of_int [of 2] to_double_of_int [of 3] by simp_all
  have x: "2 \<le> to_double x" "to_double x \<le> 3"
    using to_double_mono [of 2 x] to_double_mono [of x 3] assms(1,2) d by simp_all
  have c: "(0::real) < of_int col" using assms(3) by simp
  have m: "of_int (2 * col) \<le> to_double x * of_int col" "to_double x * of_int col \<le> of_int (3 * col)"
    using mult_right_mono [OF x(1), of "of_int col"] mult_right_mono [OF x(2), of "of_int col"] c by simp_all
  have "to_double (of_int (2 * col)) = of_int (2 * col)" "to_double (of_int (3 * col)) = of_int (3 * col)"
    using assms(3,4) by (auto intro!: to_double_of_int simp del: of_int_mult)
  then show "2 * of_int col \<le> dmul (to_double x) (of_int col)" "dmul (to_double x) (of_int col) \<le> 3 * of_int col"
    using to_double_mono [OF _ m(1)] to_double_mono [OF _ m(2)] m c by (simp_all add: dmul_def)
qed

lemma next_size_range:
  assumes "0 < col" and "col \<le> 2 ^ 50"
  shows "2 \<le> next_size method col \<and> next_size method col \<le> 3 * col"
proof -
  have r: "2 \<le> c_round y \<and> c_round y \<le> 3 * col \<and> 2 \<le> c_trunc y \<and> c_trunc y \<le> 3 * col"
    if y: "2 * of_int col \<le> y" "y \<le> 3 * of_int col" for y
  proof -
    have b: "of_int 2 \<le> y" "y \<le> of_int (3 * col)" "0 \<le> y" using y assms(1) by simp_all
    show ?thesis
      using of_int_le_c_round [OF _ b(1)] c_round_le_of_int [OF b(3,2)] c_trunc_mono [OF _ b(1)]
        c_trunc_le_of_int [OF b(3,2)] c_trunc_of_int [of 2] by simp
  qed
  have n: "2 \<le> (2.39::real)" "(2.39::real) \<le> 3" "2 \<le> (2.45::real)" "(2.45::real) \<le> 3"
    "2 \<le> (2.62::real)" "(2.62::real) \<le> 3" by simp_all
  show ?thesis
    using r [OF estimate_range [OF n(1,2) assms]] r [OF estimate_range [OF n(3,4) assms]]
      r [OF estimate_range [OF n(5,6) assms]] assms(1) by (simp add: next_size_def)
qed

lemma ack_single_upd:
  "ack_single r = r\<lparr>acts := acts r @ (if r_counter r = 1 then [AllocPkt, Send (queryreply_packet r)] else [])\<rparr>"
  by (simp add: ack_single_def send_query_reply_upd)

lemmas reader_upds = ack_single_upd query_upd emit_upd

end
