(* ===== verification/Inventory.thy ===== *)
theory Inventory
  imports Frames
begin

text \<open>
  A reader and the tags in its range: one inventory cell. The medium is reliable, a broadcast
  reaches every tag, a unicast packet reaches the tag with that address, and the answers to a
  packet reach the reader before its next timer expires; everything the agents do is
  \<open>rs_expire\<close>, \<open>col_expire\<close>, \<open>reader_recv\<close> and \<open>tag_recv\<close>. The tags' random numbers are a function of the
  tag's address, new for every slot: no timer expiration sends two packets that both make
  tags draw.
\<close>

section \<open>The cell\<close>

record cell =
  c_reader :: reader
  c_tags :: "tag list"
  c_rs :: bool
  c_col :: bool

definition tag_hear :: "(int \<Rightarrow> real) \<Rightarrow> packet \<Rightarrow> tag \<Rightarrow> tag" where
  "tag_hear us p t =
     (if ip_daddr (ip p) = IP_BROADCAST \<or> ip_daddr (ip p) = here_addr t
      then tag_recv (us (here_addr t)) p t else t)"

definition tag_answer :: "(int \<Rightarrow> real) \<Rightarrow> packet \<Rightarrow> tag \<Rightarrow> packet list" where
  "tag_answer us p t = sent (outputs t (tag_hear us p t))"

definition answers :: "(int \<Rightarrow> real) \<Rightarrow> packet \<Rightarrow> tag list \<Rightarrow> packet list" where
  "answers us p ts = concat (map (tag_answer us p) ts)"

definition reader_hear :: "packet \<Rightarrow> reader \<Rightarrow> reader" where
  "reader_hear p r = (if ip_daddr (ip p) = here_addr r then reader_recv p r else r)"

definition exchange :: "(int \<Rightarrow> real) \<Rightarrow> packet \<Rightarrow> reader \<times> tag list \<Rightarrow> reader \<times> tag list" where
  "exchange us p = (\<lambda>(r, ts). (fold reader_hear (answers us p ts) r, map (tag_hear us p) ts))"

text \<open>The reader has run, from \<open>r\<close> to \<open>r'\<close>: its packets go out in order and its timers are set.\<close>

fun sets_rs :: "act \<Rightarrow> bool" where
  "sets_rs (ReschedRs d) = True"
| "sets_rs _ = False"

fun sets_col :: "act \<Rightarrow> bool" where
  "sets_col (ReschedCol d) = True"
| "sets_col _ = False"

definition cell_after :: "(int \<Rightarrow> real) \<Rightarrow> reader \<Rightarrow> reader \<Rightarrow> bool \<Rightarrow> bool \<Rightarrow> tag list \<Rightarrow> cell" where
  "cell_after us r r' rs col ts =
     (let xs = outputs r r'; (r2, ts2) = fold (exchange us) (sent xs) (r', ts)
      in \<lparr>c_reader = r2, c_tags = ts2, c_rs = rs \<or> list_ex sets_rs xs, c_col = col \<or> list_ex sets_col xs\<rparr>)"

definition cell_command :: "(int \<Rightarrow> real) \<Rightarrow> string list \<Rightarrow> cell \<Rightarrow> cell option" where
  "cell_command us argv c =
     map_option (\<lambda>r'. cell_after us (c_reader c) r' (c_rs c) (c_col c) (c_tags c))
       (reader_command argv (c_reader c))"

text \<open>A timer expires: it is no longer pending, and its handler may set it again.\<close>

definition rs_slot :: "(int \<Rightarrow> real) \<Rightarrow> cell \<Rightarrow> cell option" where
  "rs_slot us c =
     (if c_rs c then map_option (\<lambda>r'. cell_after us (c_reader c) r' False (c_col c) (c_tags c))
        (rs_expire (c_reader c)) else None)"

definition col_slot :: "(int \<Rightarrow> real) \<Rightarrow> cell \<Rightarrow> cell option" where
  "col_slot us c =
     (if c_col c then map_option (\<lambda>r'. cell_after us (c_reader c) r' (c_rs c) False (c_tags c))
        (col_expire (c_reader c)) else None)"

text \<open>A run of the cell: draws in the unit interval, timers in any order.\<close>

definition unit_draws :: "(int \<Rightarrow> real) \<Rightarrow> bool" where
  "unit_draws us \<longleftrightarrow> (\<forall>a. 0 \<le> us a \<and> us a \<le> 1)"

inductive cell_run :: "string list \<Rightarrow> cell \<Rightarrow> cell \<Rightarrow> bool" for argv :: "string list" and c0 :: cell where
  start: "unit_draws us \<Longrightarrow> cell_command us argv c0 = Some c \<Longrightarrow> cell_run argv c0 c"
| rs: "cell_run argv c0 c \<Longrightarrow> unit_draws us \<Longrightarrow> rs_slot us c = Some c' \<Longrightarrow> cell_run argv c0 c'"
| col: "cell_run argv c0 c \<Longrightarrow> unit_draws us \<Longrightarrow> col_slot us c = Some c' \<Longrightarrow> cell_run argv c0 c'"

text \<open>The tags not yet acknowledged.\<close>

definition unread :: "tag list \<Rightarrow> tag list" where
  "unread ts = filter (\<lambda>t. t_state t \<noteq> T_ACKNOWLEDGED) ts"

section \<open>What the tags of a framed inventory keep\<close>

text \<open>
  The abstract tag of framed slotted ALOHA: its address, the slot it drew, the collided slot
  it is resolving (\<open>memory2_\<close>) and whether it was acknowledged; and what a query and an
  acknowledgement do to it.
\<close>

record core =
  k_addr :: int
  k_slot :: int
  k_mem :: int
  k_done :: bool

definition tag_core :: "tag \<Rightarrow> core" where
  "tag_core t = \<lparr>k_addr = here_addr t, k_slot = t_slot t, k_mem = t_memory2 t,
     k_done = (t_state t = T_ACKNOWLEDGED)\<rparr>"

definition core_query :: "(int \<Rightarrow> real) \<Rightarrow> int \<Rightarrow> int \<Rightarrow> core \<Rightarrow> core" where
  "core_query us n rep c =
     (if k_done c then c
      else if rep = 0 then c\<lparr>k_slot := slot_draw n (us (k_addr c))\<rparr>
      else if k_slot c = rep \<or> k_mem c = rep
        then c\<lparr>k_slot := slot_draw n (us (k_addr c)), k_mem := rep\<rparr>
      else c)"

definition core_ack :: "int \<Rightarrow> core \<Rightarrow> core" where
  "core_ack a c = (if k_addr c = a then c\<lparr>k_done := True\<rparr> else c)"

definition in_frame :: "int \<Rightarrow> core \<Rightarrow> bool" where
  "in_frame rep c \<longleftrightarrow> \<not> k_done c \<and> (rep = 0 \<or> k_mem c = rep)"

definition view :: "int \<Rightarrow> core list \<Rightarrow> (int \<times> int) list" where
  "view rep cs = map (\<lambda>c. (k_addr c, k_slot c)) (filter (in_frame rep) cs)"

lemma core_simps [simp]:
  "k_addr (tag_core t) = here_addr t" "k_slot (tag_core t) = t_slot t"
  "k_mem (tag_core t) = t_memory2 t" "k_done (tag_core t) = (t_state t = T_ACKNOWLEDGED)"
  "k_addr (core_query us n rep c) = k_addr c" "k_done (core_query us n rep c) = k_done c"
  "k_addr (core_ack a c) = k_addr c"
  by (simp_all add: tag_core_def core_query_def core_ack_def)

lemma tag_core_emit [simp]: "tag_core (emit x t) = tag_core t"
  by (simp add: tag_core_def)

text \<open>A packet of the reader's framed inventory.\<close>

lemma query_packet_simps [simp]:
  "hdr_tipo (rfid (query_packet c k rep r)) = FLOW_RT"
  "hdr_service (rfid (query_packet c k rep r)) = r_service r"
  "hdr_command (rfid (query_packet c k rep r)) = c"
  "hdr_reply (rfid (query_packet c k rep r)) = rep"
  "hdr_slotNumber (rfid (query_packet c k rep r)) = k"
  "hdr_id (rfid (query_packet c k rep r)) = r_id r"
  "hdr_qValue (rfid (query_packet c k rep r)) = (if rep = 0 then r_qValue r else r_subQValue r)"
  "ip_daddr (ip (query_packet c k rep r)) = IP_BROADCAST"
  "ip_saddr (ip (query_packet c k rep r)) = here_addr r"
  by (simp_all add: query_packet_def Let_def)

lemma queryreply_packet_simps [simp]:
  "hdr_tipo (rfid (queryreply_packet r)) = FLOW_RT"
  "hdr_service (rfid (queryreply_packet r)) = r_service r"
  "hdr_command (rfid (queryreply_packet r)) = RC_QUERYREPLY"
  "hdr_tagEPC (rfid (queryreply_packet r)) = r_tagEPC r"
  "hdr_id (rfid (queryreply_packet r)) = r_id r"
  "ip_daddr (ip (queryreply_packet r)) = r_tagIP r"
  "ip_saddr (ip (queryreply_packet r)) = here_addr r"
  by (simp_all add: queryreply_packet_def Let_def)

text \<open>A reply the reader counts.\<close>

definition counted_reply :: "int \<Rightarrow> int \<Rightarrow> int \<Rightarrow> int \<Rightarrow> packet \<Rightarrow> bool" where
  "counted_reply addr i from epc q \<longleftrightarrow> ip_daddr (ip q) = addr \<and> ip_saddr (ip q) = from \<and>
     hdr_tagEPC (rfid q) = epc \<and>
     hdr_tipo (rfid q) = FLOW_TR \<and> hdr_id (rfid q) = i \<and>
     (hdr_service (rfid q) = SERVICE_STANDARD \<and> hdr_command (rfid q) \<noteq> TC_REPLY \<or>
      hdr_service (rfid q) = SERVICE_EBTSA \<and> hdr_command (rfid q) = TR_EST_REPLY \<or>
      hdr_service (rfid q) = SERVICE_EDFSA \<and> hdr_command (rfid q) = TC_REPLY)"

text \<open>A tag that answers exactly when \<open>b\<close>, with a reply that counts.\<close>

definition answers_iff :: "bool \<Rightarrow> (int \<Rightarrow> real) \<Rightarrow> packet \<Rightarrow> tag \<Rightarrow> bool" where
  "answers_iff b us p t \<longleftrightarrow>
     (if b then \<exists>q. tag_answer us p t = [q] \<and>
        counted_reply (ip_saddr (ip p)) (hdr_id (rfid p)) (here_addr t) (t_tagEPC t) q
      else tag_answer us p t = [])"

lemma outputs_FreePkt [simp]: "acts t' = acts t \<Longrightarrow> outputs t (emit FreePkt t') = [FreePkt]"
  by (simp add: outputs_def)

lemma outputs_sendPacket [simp]:
  "acts t' = acts t \<Longrightarrow>
   outputs t (emit FreePkt (sendPacket p c t')) = [AllocPkt, Send (reply_packet p c t'), FreePkt]"
  by (simp add: outputs_def)

lemma reply_packet_simps [simp]:
  "ip_daddr (ip (reply_packet p c t)) = ip_saddr (ip p)"
  "ip_saddr (ip (reply_packet p c t)) = here_addr t"
  "hdr_tipo (rfid (reply_packet p c t)) = FLOW_TR"
  "hdr_id (rfid (reply_packet p c t)) = hdr_id (rfid p)"
  "hdr_service (rfid (reply_packet p c t)) = hdr_service (rfid p)"
  "hdr_command (rfid (reply_packet p c t)) = c"
  "hdr_tagEPC (rfid (reply_packet p c t)) = t_tagEPC t"
  by (simp_all add: reply_packet_def Let_def)

lemma tag_core_reply_in_slot [simp]:
  "t_state t \<noteq> T_ACKNOWLEDGED \<Longrightarrow> tag_core (reply_in_slot p t) = tag_core t"
  by (simp add: tag_core_def reply_in_slot_def)

lemma answer_reply_in_slot:
  assumes "acts t' = acts t" "here_addr t' = here_addr t" "t_tagEPC t' = t_tagEPC t"
    "hdr_service (rfid p) = SERVICE_EDFSA" "tag_hear us p t = emit FreePkt (reply_in_slot p t')"
  shows "answers_iff (t_slot t' = hdr_slotNumber (rfid p)) us p t"
  using assms by (auto simp: answers_iff_def tag_answer_def reply_in_slot_def counted_reply_def)

lemma tag_core_updateSlot2:
  "t_state t \<noteq> T_ACKNOWLEDGED \<Longrightarrow>
   tag_core (updateSlot2 u t) = (tag_core t)\<lparr>k_slot := slot_draw (t_memory t) u\<rparr>"
  by (simp add: tag_core_def updateSlot2_def slot_draw_def Let_def)

lemma tag_hear_edfsa:
  "hdr_tipo (rfid p) = FLOW_RT \<Longrightarrow> hdr_service (rfid p) = SERVICE_EDFSA \<Longrightarrow> ip_daddr (ip p) = IP_BROADCAST \<Longrightarrow>
   tag_hear us p t = emit FreePkt (recv_edfsa (us (here_addr t)) p t)"
  by (simp add: tag_hear_def tag_recv_def)

lemma answers_none: "acts t' = acts t \<Longrightarrow> tag_hear us p t = emit FreePkt t' \<Longrightarrow> answers_iff False us p t"
  by (simp add: answers_iff_def tag_answer_def)

lemma hear_sing:
  fixes k :: int
  assumes "r_service r = SERVICE_EDFSA" and "0 \<le> rep"
  defines "p \<equiv> query_packet RC_SING k rep r"
  shows "tag_core (tag_hear us p t) = tag_core t"
    and "answers_iff (in_frame rep (tag_core t) \<and> t_slot t = k) us p t"
proof -
  have h: "tag_hear us p t = emit FreePkt
      (if in_frame rep (tag_core t) then reply_in_slot p t else t)"
    using assms by (subst tag_hear_edfsa) (auto simp: recv_edfsa_def Let_def in_frame_def)
  then show "tag_core (tag_hear us p t) = tag_core t" by (simp add: in_frame_def)
  show "answers_iff (in_frame rep (tag_core t) \<and> t_slot t = k) us p t"
    using h answer_reply_in_slot [of t t p us] answers_none [of t t us p] assms
    by (cases "in_frame rep (tag_core t)") simp_all
qed

lemma hear_query:
  fixes k :: int
  assumes "r_service r = SERVICE_EDFSA" and "0 \<le> rep"
  defines "p \<equiv> query_packet RC_QUERY k rep r"
    and "n \<equiv> if rep = 0 then r_qValue r else r_subQValue r"
  shows "tag_core (tag_hear us p t) = core_query us n rep (tag_core t)"
    and "answers_iff (in_frame rep (core_query us n rep (tag_core t)) \<and>
           k_slot (core_query us n rep (tag_core t)) = k) us p t"
proof -
  let ?u = "us (here_addr t)"
  let ?joins = "t_state t \<noteq> T_ACKNOWLEDGED \<and> (rep = 0 \<or> t_slot t = rep \<or> t_memory2 t = rep)"
  define t1 where "t1 = (if rep = 0 \<or> t_slot t \<noteq> rep then t\<lparr>t_memory := n, t_state := T_ARBITRATE\<rparr>
                         else t\<lparr>t_memory := n, t_memory2 := rep, t_state := T_ARBITRATE\<rparr>)"
  have h: "tag_hear us p t = emit FreePkt (if ?joins then reply_in_slot p (updateSlot2 ?u t1) else t)"
    using assms by (subst tag_hear_edfsa) (auto simp: recv_edfsa_def Let_def t1_def)
  have t1: "t_state t1 \<noteq> T_ACKNOWLEDGED" "t_memory t1 = n" "acts t1 = acts t" "here_addr t1 = here_addr t"
    "t_tagEPC t1 = t_tagEPC t"
    by (simp_all add: t1_def)
  have c: "tag_core (updateSlot2 ?u t1) = core_query us n rep (tag_core t)" if ?joins
    using that t1(1,2,4)
    by (simp add: tag_core_updateSlot2) (auto simp: t1_def core_query_def tag_core_def)
  have nc: "core_query us n rep (tag_core t) = tag_core t" if "\<not> ?joins"
    using that by (auto simp: core_query_def)
  show "tag_core (tag_hear us p t) = core_query us n rep (tag_core t)"
    using h c nc t1 by auto
  show "answers_iff (in_frame rep (core_query us n rep (tag_core t)) \<and>
           k_slot (core_query us n rep (tag_core t)) = k) us p t"
  proof (cases ?joins)
    case True
    have "in_frame rep (core_query us n rep (tag_core t))"
      using True by (auto simp: in_frame_def core_query_def)
    moreover have "k_slot (core_query us n rep (tag_core t)) = t_slot (updateSlot2 ?u t1)"
      using c [OF True] by (metis core_simps(2))
    ultimately show ?thesis
      using h True t1 answer_reply_in_slot [of "updateSlot2 ?u t1" t p us] assms by simp
  next
    case False
    then have "\<not> in_frame rep (tag_core t)" using assms(2) by (auto simp: in_frame_def)
    then show ?thesis using h False nc answers_none [of t t us p] by auto
  qed
qed

lemma hear_ack:
  assumes "r_service r = SERVICE_EDFSA" and "here_addr t \<noteq> IP_BROADCAST" and "r_tagIP r \<noteq> IP_BROADCAST"
  shows "tag_core (tag_hear us (queryreply_packet r) t) = core_ack (r_tagIP r) (tag_core t)"
    and "tag_answer us (queryreply_packet r) t = []"
proof -
  have h: "tag_hear us (queryreply_packet r) t =
     (if r_tagIP r = here_addr t
      then emit FreePkt (if t_state t = T_ACKNOWLEDGED then t else t\<lparr>t_state := T_ACKNOWLEDGED\<rparr>) else t)"
    using assms by (auto simp: tag_hear_def tag_recv_def recv_edfsa_def Let_def)
  then show "tag_core (tag_hear us (queryreply_packet r) t) = core_ack (r_tagIP r) (tag_core t)"
    by (auto simp: tag_core_def core_ack_def)
  show "tag_answer us (queryreply_packet r) t = []"
    unfolding tag_answer_def h by (simp add: outputs_def)
qed

section \<open>What the reader hears\<close>

text \<open>Hearing replies changes the reply counter, the last reply's data and the actions only.\<close>

definition heard :: "reader \<Rightarrow> reader \<Rightarrow> bool" where
  "heard r r' \<longleftrightarrow> (\<exists>c e i g xs. r' = r\<lparr>r_counter := c, r_tagEPC := e, r_tagIP := i, r_rng16 := g, acts := xs\<rparr>)"

lemma heard_refl: "heard r r"
proof -
  have "r = r\<lparr>r_counter := r_counter r, r_tagEPC := r_tagEPC r, r_tagIP := r_tagIP r,
     r_rng16 := r_rng16 r, acts := acts r\<rparr>" by simp
  then show ?thesis unfolding heard_def by blast
qed

lemma heard_trans: "heard r r1 \<Longrightarrow> heard r1 r2 \<Longrightarrow> heard r r2"
  unfolding heard_def by (elim exE, simp) blast

lemma heard_frame:
  assumes "heard r r'"
  shows "r_id r' = r_id r" "r_service r' = r_service r" "r_qValue r' = r_qValue r" "r_t2 r' = r_t2 r"
    "r_slotCounter r' = r_slotCounter r" "r_collisions r' = r_collisions r" "r_idle r' = r_idle r"
    "r_success r' = r_success r" "r_uniqCounter r' = r_uniqCounter r" "r_operation r' = r_operation r"
    "r_suc r' = r_suc r" "r_estMethod r' = r_estMethod r" "r_subQValue r' = r_subQValue r"
    "r_subSlotNumber r' = r_subSlotNumber r" "r_slotNumber r' = r_slotNumber r"
    "r_backlog r' = r_backlog r" "r_initialFrameSize r' = r_initialFrameSize r"
    "here_addr r' = here_addr r" "r_mechanism r' = r_mechanism r" "r_Qfp r' = r_Qfp r" "r_c r' = r_c r"
  using assms unfolding heard_def by (elim exE, simp)+

lemma reader_hear_counted:
  assumes "counted_reply (here_addr r) (r_id r) a epc q"
  shows "r_counter (reader_hear q r) = r_counter r + 1" "r_tagIP (reader_hear q r) = a"
    "r_tagEPC (reader_hear q r) = epc" "heard r (reader_hear q r)"
proof -
  have e: "reader_hear q r = r\<lparr>r_counter := r_counter r + 1, r_tagEPC := epc, r_tagIP := a,
     r_rng16 := hdr_rng16 (rfid q), acts := acts r @ [FreePkt]\<rparr>"
  proof -
    have f: "ip_daddr (ip q) = here_addr r" "ip_saddr (ip q) = a" "hdr_tagEPC (rfid q) = epc" "hdr_tipo (rfid q) = FLOW_TR"
      "hdr_id (rfid q) = r_id r" using assms by (simp_all add: counted_reply_def)
    from assms consider
        "hdr_service (rfid q) = SERVICE_STANDARD" "hdr_command (rfid q) \<noteq> TC_REPLY"
      | "hdr_service (rfid q) = SERVICE_EBTSA" "hdr_command (rfid q) = TR_EST_REPLY"
      | "hdr_service (rfid q) = SERVICE_EDFSA" "hdr_command (rfid q) = TC_REPLY"
      unfolding counted_reply_def by blast
    then show ?thesis
      by cases (simp_all add: f reader_hear_def reader_recv_def note_tag_def emit_def Let_def)
  qed
  then show "heard r (reader_hear q r)" unfolding heard_def by blast
  from e show "r_counter (reader_hear q r) = r_counter r + 1" "r_tagIP (reader_hear q r) = a"
    "r_tagEPC (reader_hear q r) = epc" by simp_all
qed

text \<open>All answers to one packet: the counter goes up by the tags that answer, and the reader
  keeps the address of one of them.\<close>

lemma hear_answers:
  assumes "\<forall>t \<in> set ts. answers_iff (P t) us p t"
    and "ip_saddr (ip p) = here_addr r" and "hdr_id (rfid p) = r_id r"
  shows "heard r (fold reader_hear (answers us p ts) r) \<and>
    r_counter (fold reader_hear (answers us p ts) r) = r_counter r + int (length (filter P ts)) \<and>
    (filter P ts \<noteq> [] \<longrightarrow>
      (\<exists>t \<in> set (filter P ts). r_tagIP (fold reader_hear (answers us p ts) r) = here_addr t \<and>
        r_tagEPC (fold reader_hear (answers us p ts) r) = t_tagEPC t))"
  using assms
proof (induction ts arbitrary: r)
  case Nil
  then show ?case by (simp add: answers_def heard_refl)
next
  case (Cons t ts)
  show ?case
  proof (cases "P t")
    case True
    then obtain q where q: "tag_answer us p t = [q]" "counted_reply (here_addr r) (r_id r) (here_addr t) (t_tagEPC t) q"
      using Cons.prems by (auto simp: answers_iff_def)
    note h = reader_hear_counted [OF q(2)]
    let ?r = "reader_hear q r"
    have e: "fold reader_hear (answers us p (t # ts)) r = fold reader_hear (answers us p ts) ?r"
      using q(1) by (simp add: answers_def)
    have ih: "heard ?r (fold reader_hear (answers us p ts) ?r) \<and>
      r_counter (fold reader_hear (answers us p ts) ?r) = r_counter ?r + int (length (filter P ts)) \<and>
      (filter P ts \<noteq> [] \<longrightarrow>
       (\<exists>t \<in> set (filter P ts). r_tagIP (fold reader_hear (answers us p ts) ?r) = here_addr t \<and>
         r_tagEPC (fold reader_hear (answers us p ts) ?r) = t_tagEPC t))"
      using Cons.prems heard_frame [OF h(4)] by (intro Cons.IH) auto
    show ?thesis
    proof (cases "filter P ts = []")
      case True
      have "answers us p ts = []"
        using True Cons.prems(1) by (auto simp: answers_def answers_iff_def filter_empty_conv)
      with e h \<open>P t\<close> True show ?thesis by simp
    next
      case False
      with ih e h \<open>P t\<close> show ?thesis by (auto intro: heard_trans)
    qed
  next
    case False
    then have "tag_answer us p t = []" using Cons.prems(1) by (simp add: answers_iff_def)
    then have "answers us p (t # ts) = answers us p ts" by (simp add: answers_def)
    moreover have "heard r (fold reader_hear (answers us p ts) r) \<and>
      r_counter (fold reader_hear (answers us p ts) r) = r_counter r + int (length (filter P ts)) \<and>
      (filter P ts \<noteq> [] \<longrightarrow>
       (\<exists>t \<in> set (filter P ts). r_tagIP (fold reader_hear (answers us p ts) r) = here_addr t \<and>
        r_tagEPC (fold reader_hear (answers us p ts) r) = t_tagEPC t))"
      using Cons.prems by (intro Cons.IH) auto
    ultimately show ?thesis using False by simp
  qed
qed

text \<open>The three exchanges of a framed inventory, over the abstract tags.\<close>

definition cores :: "tag list \<Rightarrow> core list" where
  "cores ts = map tag_core ts"

lemma slot_count_view:
  "slot_count (view rep cs) k = int (length (filter (\<lambda>c. in_frame rep c \<and> k_slot c = k) cs))"
  by (simp add: slot_count_def view_def filter_map comp_def conj_commute)

lemma exchange_counts:
  assumes "\<And>t. t \<in> set ts \<Longrightarrow> tag_core (tag_hear us p t) = F (tag_core t)"
    and "\<And>t. t \<in> set ts \<Longrightarrow> answers_iff (in_frame rep (F (tag_core t)) \<and> k_slot (F (tag_core t)) = k) us p t"
    and "\<And>c. k_addr (F c) = k_addr c"
    and "ip_saddr (ip p) = here_addr r" and "hdr_id (rfid p) = r_id r" and "r_counter r = 0"
    and "exchange us p (r, ts) = (r', ts')"
  shows "cores ts' = map F (cores ts)" "heard r r'"
    "r_counter r' = slot_count (view rep (cores ts')) k"
    "r_counter r' = 1 \<longrightarrow> (r_tagIP r', k) \<in> set (view rep (cores ts'))"
    "r_counter r' = 1 \<longrightarrow> (\<exists>t \<in> set ts. r_tagIP r' = here_addr t \<and> r_tagEPC r' = t_tagEPC t)"
proof -
  let ?P = "\<lambda>t. in_frame rep (F (tag_core t)) \<and> k_slot (F (tag_core t)) = k"
  have r': "r' = fold reader_hear (answers us p ts) r" and ts': "ts' = map (tag_hear us p) ts"
    using assms(7) by (auto simp: exchange_def)
  note h = hear_answers [of ts ?P us p r, folded r']
  show c: "cores ts' = map F (cores ts)" by (simp add: ts' cores_def assms(1))
  show "heard r r'" using h assms(2,4,5) by blast
  have n: "r_counter r' = int (length (filter ?P ts))" using h assms(2,4-6) by simp
  then show "r_counter r' = slot_count (view rep (cores ts')) k"
    unfolding c by (simp add: slot_count_view cores_def filter_map comp_def)
  have one: "\<exists>t \<in> set ts. ?P t \<and> r_tagIP r' = here_addr t \<and> r_tagEPC r' = t_tagEPC t" if "r_counter r' = 1"
  proof -
    from that n have "filter ?P ts \<noteq> []" by auto
    with h assms(2,4,5) show ?thesis by auto
  qed
  then show "r_counter r' = 1 \<longrightarrow> (\<exists>t \<in> set ts. r_tagIP r' = here_addr t \<and> r_tagEPC r' = t_tagEPC t)" by blast
  show "r_counter r' = 1 \<longrightarrow> (r_tagIP r', k) \<in> set (view rep (cores ts'))"
  proof
    assume "r_counter r' = 1"
    with one obtain t where t: "t \<in> set ts" "?P t" "r_tagIP r' = here_addr t" by blast
    then have "F (tag_core t) \<in> set (cores ts')" unfolding c by (simp add: cores_def)
    with t assms(3) [of "tag_core t"] show "(r_tagIP r', k) \<in> set (view rep (cores ts'))"
      by (force simp: view_def)
  qed
qed

lemma exchange_sing:
  assumes "r_service r0 = SERVICE_EDFSA" and "0 \<le> rep" and "here_addr r = here_addr r0" and "r_id r = r_id r0"
    and "r_counter r = 0" and "exchange us (query_packet RC_SING k rep r0) (r, ts) = (r', ts')"
  shows "cores ts' = cores ts" "heard r r'" "r_counter r' = slot_count (view rep (cores ts)) k"
    "r_counter r' = 1 \<longrightarrow> (r_tagIP r', k) \<in> set (view rep (cores ts))"
proof -
  note x = exchange_counts [of ts us "query_packet RC_SING k rep r0" "\<lambda>c. c" rep k r r' ts']
  have h: "tag_core (tag_hear us (query_packet RC_SING k rep r0) t) = tag_core t"
    "answers_iff (in_frame rep (tag_core t) \<and> k_slot (tag_core t) = k) us (query_packet RC_SING k rep r0) t" for t
    using hear_sing [where us = us and k = k and t = t, OF assms(1,2)] by simp_all
  show "cores ts' = cores ts" "heard r r'" "r_counter r' = slot_count (view rep (cores ts)) k"
    "r_counter r' = 1 \<longrightarrow> (r_tagIP r', k) \<in> set (view rep (cores ts))"
    using x [OF h] assms by simp_all
qed

lemma exchange_query:
  assumes "r_service r0 = SERVICE_EDFSA" and "0 \<le> rep" and "here_addr r = here_addr r0" and "r_id r = r_id r0"
    and "r_counter r = 0" and "exchange us (query_packet RC_QUERY k rep r0) (r, ts) = (r', ts')"
    and "n = (if rep = 0 then r_qValue r0 else r_subQValue r0)"
  shows "cores ts' = map (core_query us n rep) (cores ts)" "heard r r'"
    "r_counter r' = slot_count (view rep (cores ts')) k"
    "r_counter r' = 1 \<longrightarrow> (r_tagIP r', k) \<in> set (view rep (cores ts'))"
  using exchange_counts [of ts us "query_packet RC_QUERY k rep r0" "core_query us n rep" rep k r r' ts']
    hear_query [where us = us and k = k, OF assms(1,2), folded assms(7)] assms(3-6) by simp_all

lemma exchange_ack:
  assumes "r_service r0 = SERVICE_EDFSA" and "\<forall>c \<in> set (cores ts). k_addr c \<noteq> IP_BROADCAST"
    and "r_tagIP r0 \<noteq> IP_BROADCAST"
  shows "exchange us (queryreply_packet r0) (r, ts) = (r, map (tag_hear us (queryreply_packet r0)) ts)"
    and "cores (map (tag_hear us (queryreply_packet r0)) ts) = map (core_ack (r_tagIP r0)) (cores ts)"
proof -
  have h: "tag_core (tag_hear us (queryreply_packet r0) t) = core_ack (r_tagIP r0) (tag_core t)"
    "tag_answer us (queryreply_packet r0) t = []" if "t \<in> set ts" for t
    using hear_ack [OF assms(1) _ assms(3), of t us] assms(2) that by (auto simp: cores_def)
  then have "answers us (queryreply_packet r0) ts = []" by (auto simp: answers_def)
  then show "exchange us (queryreply_packet r0) (r, ts) = (r, map (tag_hear us (queryreply_packet r0)) ts)"
    by (simp add: exchange_def)
  show "cores (map (tag_hear us (queryreply_packet r0)) ts) = map (core_ack (r_tagIP r0)) (cores ts)"
    using h by (simp add: cores_def)
qed

lemma view_ack:
  "view rep (map (core_ack a) cs) = filter (\<lambda>x. fst x \<noteq> a) (view rep cs)"
  by (induction cs) (auto simp: view_def core_ack_def in_frame_def)

lemma view_addrs: "fst ` set (view rep cs) \<subseteq> k_addr ` set cs"
  by (auto simp: view_def)

lemma distinct_view: "distinct (map k_addr cs) \<Longrightarrow> distinct (map fst (view rep cs))"
  by (simp add: view_def comp_def distinct_map_filter)

end
