(* ===== verification/CellSlots.thy ===== *)
theory CellSlots
  imports Inventory
begin

text \<open>
  Slots of an inventory cell in the framed modes: the acknowledgement of a single answer
  followed by the next slot, the next frame or nothing, each with what it does to the tags
  and to the frame. The inventories of operation modes 2 and 4 are put together from these.
\<close>

section \<open>Slots of a cell\<close>

text \<open>The acknowledgement, when there is one, reaches the tag it is meant for.\<close>

lemma ack_phase:
  assumes "r_service ra = SERVICE_EDFSA" and "\<forall>c \<in> set (cores ts). k_addr c \<noteq> IP_BROADCAST"
    and "cnt = 1 \<longrightarrow> r_tagIP ra \<noteq> IP_BROADCAST"
  obtains ts1 where "fold (exchange us) (if cnt = 1 then [queryreply_packet ra] else []) (r, ts) = (r, ts1)"
    "cores ts1 = (if cnt = 1 then map (core_ack (r_tagIP ra)) (cores ts) else cores ts)"
proof (cases "cnt = 1")
  case True
  with assms exchange_ack(1) [of ra ts us r] exchange_ack(2) [of ra ts us] that show ?thesis by simp
qed (simp add: that)

lemma view_ack_phase:
  "view rep (if cnt = 1 then map (core_ack a) cs else cs) = take_out cnt a (view rep cs)"
  by (simp add: take_out_def view_ack)

text \<open>Tags have addresses of their own. The bound on their number keeps every frame size in the
  range where slot numbers are exact as \<open>float\<close>.\<close>

definition tags_ok :: "core list \<Rightarrow> bool" where
  "tags_ok cs \<longleftrightarrow> distinct (map k_addr cs) \<and> (\<forall>c \<in> set cs. k_addr c \<noteq> IP_BROADCAST) \<and> length cs \<le> 10 ^ 6"

definition acked :: "int \<Rightarrow> int \<Rightarrow> core list \<Rightarrow> core list" where
  "acked cnt a cs = (if cnt = 1 then map (core_ack a) cs else cs)"

lemma view_acked: "view rep (acked cnt a cs) = take_out cnt a (view rep cs)"
  by (simp add: acked_def view_ack_phase)

lemma tags_ok_simps [simp]:
  "tags_ok (acked cnt a cs) = tags_ok cs" "tags_ok (map (core_query us n rep) cs) = tags_ok cs"
  by (simp_all add: tags_ok_def acked_def comp_def)

lemma length_view: "length (view rep cs) \<le> length cs"
  by (simp add: view_def)

lemma length_view_0: "length (view 0 (cores ts)) = length (unread ts)"
  by (simp add: view_def cores_def in_frame_def unread_def filter_map comp_def)

definition ack_acts :: "int \<Rightarrow> reader \<Rightarrow> act list" where
  "ack_acts cnt ra = (if cnt = 1 then [AllocPkt, Send (queryreply_packet ra)] else [])"

lemma ack_slot:
  assumes "frame_ok k n cnt a col (view rep (cores ts))" and "tags_ok (cores ts)"
    and "r_service ra = SERVICE_EDFSA" and "r_tagIP ra = a"
  obtains ts1 where "fold (exchange us) (sent (ack_acts cnt ra)) (r', ts) = (r', ts1)"
    "cores ts1 = acked cnt a (cores ts)"
proof -
  have "cnt = 1 \<longrightarrow> r_tagIP ra \<noteq> IP_BROADCAST"
  proof
    assume "cnt = 1"
    then have "(a, k) \<in> set (view rep (cores ts))" using assms(1) by (simp add: frame_ok_def)
    then have "a \<in> k_addr ` set (cores ts)" using view_addrs [of rep "cores ts"] by force
    then show "r_tagIP ra \<noteq> IP_BROADCAST" using assms(2,4) by (auto simp: tags_ok_def)
  qed
  then obtain ts1 where "fold (exchange us) (if cnt = 1 then [queryreply_packet ra] else []) (r', ts) = (r', ts1)"
    "cores ts1 = (if cnt = 1 then map (core_ack (r_tagIP ra)) (cores ts) else cores ts)"
    using ack_phase [of ra ts cnt us r'] assms(2,3) unfolding tags_ok_def by blast
  then show ?thesis
    using assms(4) that [of ts1] by (cases "cnt = 1") (simp_all add: ack_acts_def acked_def)
qed

text \<open>A slot that is evaluated and ends without another query.\<close>

lemma cell_stop:
  assumes "acts r' = acts r @ ack_acts cnt ra"
    and "fold (exchange us) (sent (ack_acts cnt ra)) (r', ts) = (r', ts1)"
  shows "cell_after us r r' rs cl ts = \<lparr>c_reader = r', c_tags = ts1, c_rs = rs, c_col = cl\<rparr>"
  using assms by (cases "cnt = 1") (simp_all add: cell_after_def outputs_def Let_def ack_acts_def)

text \<open>A slot that ends with the next packet \<open>p\<close> and a timer.\<close>

lemma cell_after_query:
  assumes "acts r' = acts r @ xs @ [AllocPkt, Send p, x]"
    and "fold (exchange us) (sent xs) (r', ts) = (r', ts1)"
    and "exchange us p (r', ts1) = (r2, ts2)" and "list_all (\<lambda>y. \<not> sets_rs y \<and> \<not> sets_col y) xs"
    and "sent_of x = []"
  shows "cell_after us r r' rs cl ts =
    \<lparr>c_reader = r2, c_tags = ts2, c_rs = rs \<or> sets_rs x, c_col = cl \<or> sets_col x\<rparr>"
  using assms by (auto simp: cell_after_def outputs_def Let_def list_all_iff list_ex_iff)

lemma ack_acts_quiet: "list_all (\<lambda>y. \<not> sets_rs y \<and> \<not> sets_col y) (ack_acts cnt ra)"
  by (simp add: ack_acts_def)

text \<open>The next slot is announced by \<open>RC_SING\<close>, to the tags of the same frame or of another.\<close>

lemma cell_sing_any:
  assumes "frame_ok k n cnt a col (view rep0 (cores ts))" and "tags_ok (cores ts)" and "0 \<le> rep"
    and "r_service ra = SERVICE_EDFSA" and "r_tagIP ra = a"
    and "acts r' = acts r @ ack_acts cnt ra @ [AllocPkt, Send (query_packet RC_SING k' rep rb), x]"
    and "sent_of x = []" and "r_service rb = SERVICE_EDFSA" and "here_addr r' = here_addr rb" and "r_id r' = r_id rb"
    and "r_counter r' = 0"
  obtains r2 ts2 where "cell_after us r r' rs cl ts =
      \<lparr>c_reader = r2, c_tags = ts2, c_rs = rs \<or> sets_rs x, c_col = cl \<or> sets_col x\<rparr>"
    "heard r' r2" "cores ts2 = acked cnt a (cores ts)" "r_counter r2 = slot_count (view rep (cores ts2)) k'"
    "r_counter r2 = 1 \<longrightarrow> (r_tagIP r2, k') \<in> set (view rep (cores ts2))"
proof -
  let ?xs = "ack_acts cnt ra"
  obtain ts1 where ts1: "fold (exchange us) (sent ?xs) (r', ts) = (r', ts1)" "cores ts1 = acked cnt a (cores ts)"
    by (rule ack_slot [OF assms(1,2,4,5)])
  obtain r2 ts2 where x: "exchange us (query_packet RC_SING k' rep rb) (r', ts1) = (r2, ts2)" by fastforce
  note y = exchange_sing [OF assms(8,3,9-11) x]
  show ?thesis
  proof (rule that [of r2 ts2])
    show "cell_after us r r' rs cl ts =
      \<lparr>c_reader = r2, c_tags = ts2, c_rs = rs \<or> sets_rs x, c_col = cl \<or> sets_col x\<rparr>"
      by (rule cell_after_query [OF assms(6) ts1(1) x ack_acts_quiet assms(7)])
  qed (use y ts1(2) in simp_all)
qed

lemma cell_sing:
  assumes "frame_ok k n cnt a col (view rep (cores ts))" and "tags_ok (cores ts)" and "k < n" and "0 \<le> rep"
    and "r_service ra = SERVICE_EDFSA" and "r_tagIP ra = a"
    and "acts r' = acts r @ ack_acts cnt ra @ [AllocPkt, Send (query_packet RC_SING (k + 1) rep rb), x]"
    and "sent_of x = []" and "r_service rb = SERVICE_EDFSA" and "here_addr r' = here_addr rb" and "r_id r' = r_id rb"
    and "r_counter r' = 0"
  obtains r2 ts2 where "cell_after us r r' rs cl ts =
      \<lparr>c_reader = r2, c_tags = ts2, c_rs = rs \<or> sets_rs x, c_col = cl \<or> sets_col x\<rparr>"
    "heard r' r2" "cores ts2 = acked cnt a (cores ts)"
    "frame_ok (k + 1) n (r_counter r2) (r_tagIP r2) (col + (if cnt > 1 then 1 else 0)) (view rep (cores ts2))"
proof (rule cell_sing_any [OF assms(1,2,4-12), of us rs cl])
  fix r2 ts2
  assume x: "cell_after us r r' rs cl ts =
      \<lparr>c_reader = r2, c_tags = ts2, c_rs = rs \<or> sets_rs x, c_col = cl \<or> sets_col x\<rparr>"
    "heard r' r2" "cores ts2 = acked cnt a (cores ts)" "r_counter r2 = slot_count (view rep (cores ts2)) (k + 1)"
    "r_counter r2 = 1 \<longrightarrow> (r_tagIP r2, k + 1) \<in> set (view rep (cores ts2))"
  have "frame_ok (k + 1) n (r_counter r2) (r_tagIP r2) (col + (if cnt > 1 then 1 else 0)) (view rep (cores ts2))"
    using x by (intro frame_next [OF assms(1,3)]) (auto simp: view_acked)
  from that [OF x(1-3) this] show thesis .
qed

text \<open>A query opens a frame for the tags it addresses.\<close>

lemma view_query_range:
  assumes "unit_draws us" and "1 \<le> n" and "n \<le> 2 ^ 24"
  shows "\<forall>x \<in> set (view rep (map (core_query us n rep) cs)). 1 \<le> snd x \<and> snd x \<le> n"
proof -
  have "1 \<le> k_slot (core_query us n rep c) \<and> k_slot (core_query us n rep c) \<le> n"
    if "in_frame rep (core_query us n rep c)" for c
    using that slot_draw_range [OF assms(2,3)] assms(1)
    by (auto simp: in_frame_def core_query_def unit_draws_def split: if_splits)
  then show ?thesis by (auto simp: view_def)
qed

lemma query_opens_frame:
  assumes "r_service rb = SERVICE_EDFSA" and "0 \<le> rep" and "here_addr r = here_addr rb" and "r_id r = r_id rb"
    and "r_counter r = 0" and "exchange us (query_packet RC_QUERY 1 rep rb) (r, ts) = (r', ts')"
    and "n = (if rep = 0 then r_qValue rb else r_subQValue rb)"
    and "unit_draws us" and "1 \<le> n" and "n \<le> 2 ^ 24" and "tags_ok (cores ts)"
  shows "heard r r'" "cores ts' = map (core_query us n rep) (cores ts)"
    "frame_ok 1 n (r_counter r') (r_tagIP r') 0 (view rep (cores ts'))"
proof -
  note x = exchange_query [OF assms(1-7)]
  show "heard r r'" "cores ts' = map (core_query us n rep) (cores ts)" using x by simp_all
  have "tags_ok (cores ts')" using x(1) assms(11) by simp
  then show "frame_ok 1 n (r_counter r') (r_tagIP r') 0 (view rep (cores ts'))"
    using x view_query_range [OF assms(8-10), of rep "cores ts"] assms(9)
    by (intro frame_first) (auto simp: tags_ok_def intro!: distinct_view)
qed

lemma cell_query:
  assumes "frame_ok k n cnt a col (view rep0 (cores ts))" and "tags_ok (cores ts)" and "0 \<le> rep"
    and "r_service ra = SERVICE_EDFSA" and "r_tagIP ra = a"
    and "acts r' = acts r @ ack_acts cnt ra @ [AllocPkt, Send (query_packet RC_QUERY 1 rep rb), x]"
    and "sent_of x = []" and "r_service rb = SERVICE_EDFSA" and "here_addr r' = here_addr rb" and "r_id r' = r_id rb"
    and "r_counter r' = 0" and "n' = (if rep = 0 then r_qValue rb else r_subQValue rb)"
    and "unit_draws us" and "1 \<le> n'" and "n' \<le> 2 ^ 24"
  obtains r2 ts2 where "cell_after us r r' rs cl ts =
      \<lparr>c_reader = r2, c_tags = ts2, c_rs = rs \<or> sets_rs x, c_col = cl \<or> sets_col x\<rparr>"
    "heard r' r2" "cores ts2 = map (core_query us n' rep) (acked cnt a (cores ts))"
    "frame_ok 1 n' (r_counter r2) (r_tagIP r2) 0 (view rep (cores ts2))"
proof -
  let ?xs = "ack_acts cnt ra"
  obtain ts1 where ts1: "fold (exchange us) (sent ?xs) (r', ts) = (r', ts1)" "cores ts1 = acked cnt a (cores ts)"
    by (rule ack_slot [OF assms(1,2,4,5)])
  obtain r2 ts2 where x: "exchange us (query_packet RC_QUERY 1 rep rb) (r', ts1) = (r2, ts2)" by fastforce
  have "tags_ok (cores ts1)" using ts1(2) assms(2) by simp
  note y = query_opens_frame [OF assms(8,3,9-11) x assms(12-15) this]
  show ?thesis
  proof (rule that [of r2 ts2])
    show "cell_after us r r' rs cl ts =
      \<lparr>c_reader = r2, c_tags = ts2, c_rs = rs \<or> sets_rs x, c_col = cl \<or> sets_col x\<rparr>"
      by (rule cell_after_query [OF assms(6) ts1(1) x ack_acts_quiet assms(7)])
  qed (use y ts1(2) in simp_all)
qed

text \<open>The frame that follows one with collisions is never empty and never too large.\<close>

lemma next_frame_size:
  assumes "frame_ok k n cnt a col (view rep cs)" and "tags_ok cs" and "c = col + (if cnt > 1 then 1 else 0)" and "0 < c"
  shows "1 \<le> next_size e c" "next_size e c \<le> 2 ^ 24"
proof -
  have "c \<le> int (length (view rep cs))"
    using collided_bound [OF assms(1)] frame_after(5) [OF assms(1)] assms(3) by simp
  then have b: "c \<le> 10 ^ 6" using length_view [of rep cs] assms(2) by (simp add: tags_ok_def)
  then show "1 \<le> next_size e c" "next_size e c \<le> 2 ^ 24"
    using next_size_range [of c e] assms(4) by auto
qed

end
