(* ===== verification/Dfsa.thy ===== *)
theory Dfsa
  imports CellSlots
begin

text \<open>
  Dynamic framed slotted ALOHA (operation mode 2: \<open>RfidReaderAgent::start_edfsa\<close> with
  \<open>calculate_next_Q\<close>, and the tag's \<open>recv_edfsa\<close>) in a cell of one reader and its tags. Whatever
  the tags draw, the inventory stops only when every tag has been acknowledged, and the
  reader's count of successful slots is the number of tags it read.
\<close>

section \<open>The invariant\<close>

definition dfsa_inv :: "int \<Rightarrow> cell \<Rightarrow> bool" where
  "dfsa_inv m c \<longleftrightarrow>
     (let r = c_reader c; cs = cores (c_tags c) in
      r_operation r = 2 \<and> r_service r = SERVICE_EDFSA \<and> known_method (r_estMethod r) \<and> \<not> c_col c \<and>
      tags_ok cs \<and> r_qValue r \<le> 2 ^ 24 \<and> r_success r + int (length (view 0 cs)) = m \<and>
      (if c_rs c
       then frame_ok (r_uniqCounter r) (r_qValue r) (r_counter r) (r_tagIP r) (r_collisions r) (view 0 cs)
       else view 0 cs = []))"

lemma length_view_query_0: "length (view 0 (map (core_query us n 0) cs)) = length (view 0 cs)"
  by (induction cs) (auto simp: view_def core_query_def in_frame_def)

lemma frame_total:
  "frame_ok k n cnt a col xs \<Longrightarrow> s + int (length xs) = m \<Longrightarrow>
   s + (if cnt = 1 then 1 else 0) + int (length (take_out cnt a xs)) = m"
  using frame_after(5) by fastforce

section \<open>One slot\<close>

lemma dfsa_slot_sing:
  assumes "dfsa_inv m c" and "c_rs c" and "r = c_reader c" and "r_uniqCounter r < r_qValue r"
    and "start_edfsa r = Some r'" and "c' = cell_after us r r' False (c_col c) (c_tags c)"
  shows "dfsa_inv m c'" "c_rs c'" "r_uniqCounter (c_reader c') = r_uniqCounter r + 1"
    "r_qValue (c_reader c') = r_qValue r" "cores (c_tags c') = acked (r_counter r) (r_tagIP r) (cores (c_tags c))"
    "r_estMethod (c_reader c') = r_estMethod r"
proof -
  define ra where "ra = count_slot (r\<lparr>r_slotCounter := r_slotCounter r + 1, r_uniqCounter := r_uniqCounter r + 1\<rparr>)"
  define rb where "rb = (ack_single ra)\<lparr>r_counter := 0\<rparr>"
  have i: "known_method (r_estMethod r)" "\<not> c_col c" "r_operation r = 2" "r_service r = SERVICE_EDFSA"
    "tags_ok (cores (c_tags c))" "r_success r + int (length (view 0 (cores (c_tags c)))) = m" "r_qValue r \<le> 2 ^ 24"
    and f: "frame_ok (r_uniqCounter r) (r_qValue r) (r_counter r) (r_tagIP r) (r_collisions r) (view 0 (cores (c_tags c)))"
    using assms(1-3) by (simp_all add: dfsa_inv_def Let_def)
  have e: "r' = emit (ReschedRs (r_t2 r)) (query RC_SING (r_uniqCounter r + 1) 0 rb)"
    using assms(4,5) by (simp add: start_edfsa_eq ra_def rb_def)
  have p: "acts r' = acts r @ ack_acts (r_counter r) ra @
      [AllocPkt, Send (query_packet RC_SING (r_uniqCounter r + 1) 0 rb), ReschedRs (r_t2 r)]"
    "r_service ra = SERVICE_EDFSA" "r_tagIP ra = r_tagIP r" "r_service rb = SERVICE_EDFSA"
    "here_addr r' = here_addr rb" "r_id r' = r_id rb" "r_counter r' = 0"
    using i(4) by (simp_all add: e reader_upds rb_def ra_def count_slot_def ack_acts_def)
  obtain r2 ts2 where x: "cell_after us r r' False (c_col c) (c_tags c) =
      \<lparr>c_reader = r2, c_tags = ts2, c_rs = True, c_col = c_col c\<rparr>"
    "heard r' r2" "cores ts2 = acked (r_counter r) (r_tagIP r) (cores (c_tags c))"
    "frame_ok (r_uniqCounter r + 1) (r_qValue r) (r_counter r2) (r_tagIP r2)
       (r_collisions r + (if r_counter r > 1 then 1 else 0)) (view 0 (cores ts2))"
    using cell_sing [OF f i(5) assms(4) _ p(2,3,1) _ p(4-7), of us False "c_col c" thesis] by simp
  have g: "r_operation r2 = 2" "r_service r2 = SERVICE_EDFSA" "r_estMethod r2 = r_estMethod r" "r_qValue r2 = r_qValue r"
    "r_success r2 = r_success r + (if r_counter r = 1 then 1 else 0)" "r_uniqCounter r2 = r_uniqCounter r + 1"
    "r_collisions r2 = r_collisions r + (if r_counter r > 1 then 1 else 0)"
    unfolding heard_frame [OF x(2)] using i by (simp_all add: e reader_upds rb_def ra_def count_slot_def)
  show "dfsa_inv m c'" "c_rs c'" "r_uniqCounter (c_reader c') = r_uniqCounter r + 1"
    "r_qValue (c_reader c') = r_qValue r" "cores (c_tags c') = acked (r_counter r) (r_tagIP r) (cores (c_tags c))"
    "r_estMethod (c_reader c') = r_estMethod r"
    using i x(3,4) frame_total [OF f i(6)] unfolding assms(6) x(1) by (simp_all add: dfsa_inv_def Let_def g view_acked)
qed

lemma dfsa_slot_end:
  assumes "dfsa_inv m c" and "c_rs c" and "r = c_reader c" and "r_uniqCounter r = r_qValue r"
    and "start_edfsa r = Some r'" and "unit_draws us" and "c' = cell_after us r r' False (c_col c) (c_tags c)"
    and usable: "r_estMethod r = 2 \<Longrightarrow> 0 < r_collisions r + (if r_counter r > 1 then 1 else 0) \<Longrightarrow>
      1 \<le> r_qValue r' \<and> r_qValue r' \<le> 2 ^ 24"
  shows "dfsa_inv m c' \<and> r_estMethod (c_reader c') = r_estMethod r
    \<and> (c_rs c' \<longrightarrow> 0 < r_collisions r + (if r_counter r > 1 then 1 else 0))"
proof -
  define ra where "ra = count_slot (r\<lparr>r_slotCounter := r_slotCounter r + 1, r_uniqCounter := r_uniqCounter r + 1\<rparr>)"
  define col where "col = r_collisions ra"
  define rb where "rb = (ack_single ra)\<lparr>r_temp := col, r_tempSuc := r_suc ra, r_collisions := 0,
      r_suc := 0, r_idle := 0, r_counter := 0, r_uniqCounter := 1\<rparr>"
  have i: "known_method (r_estMethod r)" "\<not> c_col c" "r_operation r = 2" "r_service r = SERVICE_EDFSA"
    "tags_ok (cores (c_tags c))" "r_success r + int (length (view 0 (cores (c_tags c)))) = m" "r_qValue r \<le> 2 ^ 24"
    and f: "frame_ok (r_uniqCounter r) (r_qValue r) (r_counter r) (r_tagIP r) (r_collisions r) (view 0 (cores (c_tags c)))"
    using assms(1-3) by (simp_all add: dfsa_inv_def Let_def)
  have col: "col = r_collisions r + (if r_counter r > 1 then 1 else 0)" "0 \<le> col"
    using f by (simp_all add: col_def ra_def count_slot_def frame_ok_def)
  have p: "r_service ra = SERVICE_EDFSA" "r_tagIP ra = r_tagIP r" using i(4) by (simp_all add: ra_def count_slot_def)
  have e: "start_edfsa r = calculate_next_Q col (r_suc ra) (r_estMethod r) 0 rb"
    using assms(4) by (simp add: start_edfsa_eq ra_def rb_def col_def reader_upds count_slot_def)
  show ?thesis
  proof (cases "0 < col")
    case True
    obtain n' where est: "estimate (r_estMethod r) col (r_suc ra) 0 rb = Some n'" "r' = next_frame 0 n' rb"
      using assms(5) e True calculate_next_Q_known [OF i(1)] by auto
    define rc where "rc = rb\<lparr>r_qValue := n'\<rparr>"
    have e': "r' = emit (ReschedRs (r_t2 r)) (query RC_QUERY 1 0 rc)"
      by (simp add: est(2) next_frame_def rc_def rb_def ra_def Let_def reader_upds count_slot_def)
    then have q': "r_qValue r' = n'" by (simp add: reader_upds rc_def)
    have n': "1 \<le> n'" "n' \<le> 2 ^ 24"
    proof -
      have "1 \<le> n' \<and> n' \<le> 2 ^ 24"
      proof (cases "r_estMethod r = 2")
        case m: True
        then show ?thesis using usable True unfolding q' col(1) by blast
      next
        case False
        then show ?thesis
          using estimate_closed [OF est(1)] next_frame_size [OF f i(5) col(1) True, of "r_estMethod r"] by blast
      qed
      then show "1 \<le> n'" "n' \<le> 2 ^ 24" by blast+
    qed
    have q: "acts r' = acts r @ ack_acts (r_counter r) ra @ [AllocPkt, Send (query_packet RC_QUERY 1 0 rc), ReschedRs (r_t2 r)]"
      "r_service rc = SERVICE_EDFSA" "here_addr r' = here_addr rc" "r_id r' = r_id rc" "r_counter r' = 0" "n' = r_qValue rc"
      using i(4) by (simp_all add: e' reader_upds rc_def rb_def ra_def count_slot_def ack_acts_def)
    obtain r2 ts2 where x: "cell_after us r r' False (c_col c) (c_tags c) =
        \<lparr>c_reader = r2, c_tags = ts2, c_rs = True, c_col = c_col c\<rparr>"
      "heard r' r2" "cores ts2 = map (core_query us n' 0) (acked (r_counter r) (r_tagIP r) (cores (c_tags c)))"
      "frame_ok 1 n' (r_counter r2) (r_tagIP r2) 0 (view 0 (cores ts2))"
      using cell_query [OF f i(5) _ p q(1) _ q(2-5) _ assms(6) n', of False "c_col c" thesis] q(6) by simp
    have g: "r_operation r2 = 2" "r_service r2 = SERVICE_EDFSA" "r_estMethod r2 = r_estMethod r" "r_qValue r2 = n'"
      "r_success r2 = r_success r + (if r_counter r = 1 then 1 else 0)" "r_uniqCounter r2 = 1" "r_collisions r2 = 0"
      unfolding heard_frame [OF x(2)] using i by (simp_all add: e' reader_upds rc_def rb_def ra_def count_slot_def)
    show ?thesis
      using i n' x(3,4) frame_total [OF f i(6)] True unfolding assms(7) x(1)
      by (simp add: dfsa_inv_def Let_def g view_acked length_view_query_0 col(1))
  next
    case False
    then have e': "r' = rb" and z: "r_collisions r + (if r_counter r > 1 then 1 else 0) = 0"
      using assms(5) e col by (simp_all add: calculate_next_Q_known [OF i(1)])
    obtain ts1 where ts1: "fold (exchange us) (sent (ack_acts (r_counter r) ra)) (r', c_tags c) = (r', ts1)"
      "cores ts1 = acked (r_counter r) (r_tagIP r) (cores (c_tags c))"
      by (rule ack_slot [OF f i(5) p])
    have x: "cell_after us r r' False (c_col c) (c_tags c) = \<lparr>c_reader = r', c_tags = ts1, c_rs = False, c_col = c_col c\<rparr>"
      by (rule cell_stop [OF _ ts1(1)]) (simp add: e' rb_def reader_upds ra_def count_slot_def ack_acts_def)
    have g: "r_operation r' = 2" "r_service r' = SERVICE_EDFSA" "r_estMethod r' = r_estMethod r" "r_qValue r' = r_qValue r"
      "r_success r' = r_success r + (if r_counter r = 1 then 1 else 0)"
      using i by (simp_all add: e' reader_upds rb_def ra_def count_slot_def)
    show ?thesis
      using i ts1(2) frame_total [OF f i(6)] frame_end [OF f [unfolded assms(4)] z] unfolding assms(7) x
      by (simp add: dfsa_inv_def Let_def g view_acked)
  qed
qed

text \<open>The handler of the slot timer returns, unless the Eom-Lee iteration does not end.\<close>

lemma dfsa_expires:
  assumes "dfsa_inv m c" and "c_rs c"
  shows "rs_expire (c_reader c) = start_edfsa (c_reader c)"
    "rs_slot us c = map_option (\<lambda>r'. cell_after us (c_reader c) r' False (c_col c) (c_tags c)) (start_edfsa (c_reader c))"
proof -
  have "r_operation (c_reader c) = 2" using assms(1) by (simp add: dfsa_inv_def Let_def)
  then show "rs_expire (c_reader c) = start_edfsa (c_reader c)"
    "rs_slot us c = map_option (\<lambda>r'. cell_after us (c_reader c) r' False (c_col c) (c_tags c)) (start_edfsa (c_reader c))"
    using assms(2) by (simp_all add: rs_slot_def rs_expire_def split: option.split)
qed


lemma dfsa_slot:
  assumes "dfsa_inv m c" and "unit_draws us" and "rs_slot us c = Some c'"
    and usable: "r_estMethod (c_reader c) = 2 \<Longrightarrow> rs_expire (c_reader c) = Some r' \<Longrightarrow> 1 \<le> r_qValue r' \<and> r_qValue r' \<le> 2 ^ 24"
    and r': "start_edfsa (c_reader c) = Some r'"
  shows "dfsa_inv m c' \<and> r_estMethod (c_reader c') = r_estMethod (c_reader c)"
proof -
  have pend: "c_rs c" using assms(3) by (auto simp: rs_slot_def split: if_splits)
  then have k: "r_uniqCounter (c_reader c) \<le> r_qValue (c_reader c)"
    using assms(1) by (auto simp: dfsa_inv_def Let_def frame_ok_def)
  have c': "c' = cell_after us (c_reader c) r' False (c_col c) (c_tags c)"
    using dfsa_expires(2) [OF assms(1) pend] assms(3) r' by simp
  show ?thesis
    using dfsa_slot_sing(1,6) [OF assms(1) pend refl _ r' c'] dfsa_slot_end [OF assms(1) pend refl _ r' assms(2) c']
      usable dfsa_expires(1) [OF assms(1) pend] r' k
    by (cases "r_uniqCounter (c_reader c) = r_qValue (c_reader c)") auto
qed

section \<open>The inventory\<close>

definition edfsa_ready :: "cell \<Rightarrow> bool" where
  "edfsa_ready c \<longleftrightarrow>
     r_service (c_reader c) = SERVICE_EDFSA \<and> known_method (r_estMethod (c_reader c)) \<and> r_counter (c_reader c) = 0 \<and>
     1 \<le> r_qValue (c_reader c) \<and> r_qValue (c_reader c) \<le> 2 ^ 24 \<and> \<not> c_rs c \<and> \<not> c_col c \<and> tags_ok (cores (c_tags c))"

text \<open>The same with an estimator that always returns.\<close>

definition dfsa_ready :: "cell \<Rightarrow> bool" where
  "dfsa_ready c \<longleftrightarrow>
     r_service (c_reader c) = SERVICE_EDFSA \<and> closed_form (r_estMethod (c_reader c)) \<and> r_counter (c_reader c) = 0 \<and>
     1 \<le> r_qValue (c_reader c) \<and> r_qValue (c_reader c) \<le> 2 ^ 24 \<and> \<not> c_rs c \<and> \<not> c_col c \<and> tags_ok (cores (c_tags c))"

lemma dfsa_ready_iff: "dfsa_ready c \<longleftrightarrow> edfsa_ready c \<and> r_estMethod (c_reader c) \<noteq> 2"
  by (auto simp: dfsa_ready_def edfsa_ready_def closed_form_known)

text \<open>
  The runs of an inventory: the draws are arbitrary, and the frame sizes that the Eom-Lee
  iteration leaves in \<open>qValue_\<close> are usable ones. The other estimators give usable sizes in
  every run.
\<close>

definition usable_size :: "int \<Rightarrow> bool" where
  "usable_size n \<longleftrightarrow> 1 \<le> n \<and> n \<le> 2 ^ 24"

inductive dfsa_run :: "string \<Rightarrow> cell \<Rightarrow> cell \<Rightarrow> bool" for n :: string and c0 :: cell where
  begin_frame: "unit_draws us \<Longrightarrow> cell_command us [n, ''edfsa-query''] c0 = Some c \<Longrightarrow> dfsa_run n c0 c"
| next_slot: "dfsa_run n c0 c \<Longrightarrow> unit_draws us \<Longrightarrow> rs_slot us c = Some c' \<Longrightarrow>
    (\<And>r'. r_estMethod (c_reader c) = 2 \<Longrightarrow> rs_expire (c_reader c) = Some r' \<Longrightarrow> usable_size (r_qValue r')) \<Longrightarrow>
    dfsa_run n c0 c'"

lemma dfsa_start:
  assumes "edfsa_ready c0" and "unit_draws us" and "cell_command us [n, ''edfsa-query''] c0 = Some c"
  shows "dfsa_inv (int (length (unread (c_tags c0)))) c" "c_rs c"
    "r_uniqCounter (c_reader c) = 1" "r_qValue (c_reader c) = r_qValue (c_reader c0)"
    "cores (c_tags c) = map (core_query us (r_qValue (c_reader c0)) 0) (cores (c_tags c0))"
    "r_estMethod (c_reader c) = r_estMethod (c_reader c0)"
proof -
  let ?r = "c_reader c0"
  define rb where "rb = ?r\<lparr>r_operation := 2, r_estCounter := 1, r_bigQ := r_qValue ?r, r_collisions := 0,
                r_idle := 0, r_success := 0, r_suc := 0, r_session := r_session ?r + 1,
                r_slotCounter := 0, r_total := 0, r_uniqCounter := 1, r_slotEstCounter := 0,
                r_rebuttal := 0\<rparr>"
  define r' where "r' = emit (ReschedRs (r_t2 rb)) (query RC_QUERY 1 0 rb)"
  have c: "c = cell_after us ?r r' False False (c_tags c0)"
    using assms(1,3) by (auto simp: cell_command_def reader_command_def edfsa_ready_def rb_def r'_def Let_def)
  have s: "r_service ?r = SERVICE_EDFSA" "known_method (r_estMethod ?r)" "r_counter ?r = 0" "tags_ok (cores (c_tags c0))"
    "1 \<le> r_qValue ?r" "r_qValue ?r \<le> 2 ^ 24" using assms(1) by (simp_all add: edfsa_ready_def)
  obtain r2 ts2 where x: "exchange us (query_packet RC_QUERY 1 0 rb) (r', c_tags c0) = (r2, ts2)" by fastforce
  have a: "acts r' = acts ?r @ [] @ [AllocPkt, Send (query_packet RC_QUERY 1 0 rb), ReschedRs (r_t2 rb)]"
    by (simp add: r'_def rb_def reader_upds)
  have "cell_after us ?r r' False False (c_tags c0) = \<lparr>c_reader = r2, c_tags = ts2, c_rs = True, c_col = False\<rparr>"
    using cell_after_query [OF a _ x, of "c_tags c0" False False] by simp
  note c = c [unfolded this]
  have b: "r_service rb = SERVICE_EDFSA" "here_addr r' = here_addr rb" "r_id r' = r_id rb" "r_counter r' = 0"
    "r_qValue ?r = (if (0::int) = 0 then r_qValue rb else r_subQValue rb)"
    using s by (simp_all add: r'_def rb_def reader_upds)
  note y = query_opens_frame [OF b(1) _ b(2-4) x b(5) assms(2) s(5,6,4), simplified]
  have g: "r_operation r2 = 2" "r_service r2 = SERVICE_EDFSA" "r_estMethod r2 = r_estMethod ?r"
    "r_qValue r2 = r_qValue ?r" "r_success r2 = 0" "r_uniqCounter r2 = 1" "r_collisions r2 = 0"
    unfolding heard_frame [OF y(1)] using s by (simp_all add: r'_def rb_def reader_upds)
  show "dfsa_inv (int (length (unread (c_tags c0)))) c"
    using s y(2,3) by (simp add: c dfsa_inv_def Let_def g length_view_query_0 length_view_0)
  show "c_rs c" "r_uniqCounter (c_reader c) = 1" "r_qValue (c_reader c) = r_qValue (c_reader c0)"
    "cores (c_tags c) = map (core_query us (r_qValue (c_reader c0)) 0) (cores (c_tags c0))"
    "r_estMethod (c_reader c) = r_estMethod (c_reader c0)"
    using y(2) by (simp_all add: c g)
qed

lemma dfsa_no_col_timer: "dfsa_inv m c \<Longrightarrow> col_slot us c = None"
  by (simp add: dfsa_inv_def Let_def col_slot_def)

lemma dfsa_run_inv:
  "dfsa_run n c0 c \<Longrightarrow> edfsa_ready c0 \<Longrightarrow>
     dfsa_inv (int (length (unread (c_tags c0)))) c \<and> r_estMethod (c_reader c) = r_estMethod (c_reader c0)"
proof (induction rule: dfsa_run.induct)
  case (begin_frame us c)
  then show ?case using dfsa_start(1,6) by blast
next
  case (next_slot c us c')
  have i: "dfsa_inv (int (length (unread (c_tags c0)))) c" "r_estMethod (c_reader c) = r_estMethod (c_reader c0)"
    using next_slot by blast+
  have "c_rs c" using next_slot.hyps(3) by (auto simp: rs_slot_def split: if_splits)
  then obtain r' where "start_edfsa (c_reader c) = Some r'"
    using dfsa_expires(2) [OF i(1)] next_slot.hyps(3) by auto
  then show ?case
    using dfsa_slot [OF i(1) next_slot.hyps(2,3)] next_slot.hyps(4) i(2) by (auto simp: usable_size_def)
qed

text \<open>With the other estimators every run is one of these.\<close>

lemma dfsa_run_closed:
  "cell_run [n, ''edfsa-query''] c0 c \<Longrightarrow> edfsa_ready c0 \<Longrightarrow> r_estMethod (c_reader c0) \<noteq> 2 \<Longrightarrow> dfsa_run n c0 c"
proof (induction rule: cell_run.induct)
  case (start us c)
  then show ?case by (blast intro: begin_frame)
next
  case (rs c us c')
  then have "dfsa_run n c0 c" by blast
  then show ?case using dfsa_run_inv [OF _ rs.prems(1)] rs.prems(2) rs.hyps(2,3) by (auto intro: next_slot)
next
  case (col c us c')
  then have "dfsa_run n c0 c" by blast
  then show ?case using dfsa_run_inv [OF _ col.prems(1)] dfsa_no_col_timer col.hyps(3) by fastforce
qed


section \<open>A frame without clashes\<close>

primrec rs_slots :: "(nat \<Rightarrow> int \<Rightarrow> real) \<Rightarrow> nat \<Rightarrow> cell \<Rightarrow> cell option" where
  "rs_slots us 0 c = Some c"
| "rs_slots us (Suc n) c = Option.bind (rs_slot (us n) c) (rs_slots us n)"

lemma slot_count_distinct: "distinct (map snd xs) \<Longrightarrow> slot_count xs k \<le> 1"
proof (induction xs)
  case (Cons x xs)
  have "slot_count xs k = 0" if "snd x = k" using Cons.prems that by (auto simp: slot_count_0 image_iff)
  moreover have "slot_count (x # xs) k = slot_count xs k + (if snd x = k then 1 else 0)"
    by (simp add: slot_count_def)
  ultimately show ?case using Cons by auto
qed (simp add: slot_count_def)

lemma no_clash:
  assumes "frame_ok k n cnt a col xs" and "distinct (map snd xs)"
  shows "col = 0" "\<not> cnt > 1" "distinct (map snd (take_out cnt a xs))"
proof -
  have "collided xs k = {}" using slot_count_distinct [OF assms(2)] by (auto simp: collided_def not_less)
  then show "col = 0" using assms(1) by (simp add: frame_ok_def)
  show "\<not> cnt > 1" using assms slot_count_distinct [OF assms(2), of k] by (simp add: frame_ok_def)
  show "distinct (map snd (take_out cnt a xs))" using assms(2) by (simp add: take_out_def distinct_map_filter)
qed

lemma start_edfsa_some:
  assumes "r_uniqCounter r < r_qValue r \<or> r_collisions r + (if r_counter r > 1 then 1 else 0) = 0"
  shows "\<exists>r'. start_edfsa r = Some r'"
  using assms by (auto simp: start_edfsa_eq Let_def calculate_next_Q_def reader_upds count_slot_def)

lemma dfsa_finish:
  assumes "dfsa_inv m c" and "c_rs c" and "distinct (map snd (view 0 (cores (c_tags c))))" and "\<forall>i. unit_draws (us i)"
    and "r_qValue (c_reader c) = r_uniqCounter (c_reader c) + int d"
  shows "\<exists>c'. rs_slots us (Suc d) c = Some c' \<and> \<not> c_rs c' \<and> dfsa_inv m c'"
  using assms
proof (induction d arbitrary: c)
  case (0 c)
  then have f: "frame_ok (r_uniqCounter (c_reader c)) (r_qValue (c_reader c)) (r_counter (c_reader c))
      (r_tagIP (c_reader c)) (r_collisions (c_reader c)) (view 0 (cores (c_tags c)))"
    by (simp add: dfsa_inv_def Let_def)
  have z: "r_collisions (c_reader c) + (if r_counter (c_reader c) > 1 then 1 else 0) = 0"
    using no_clash [OF f 0(3)] by simp
  obtain r' where r': "start_edfsa (c_reader c) = Some r'"
    "rs_slot (us 0) c = Some (cell_after (us 0) (c_reader c) r' False (c_col c) (c_tags c))"
    using start_edfsa_some [OF disjI2 [OF z]] dfsa_expires(2) [OF 0(1,2), of "us 0"] by auto
  show ?case
    using dfsa_slot_end [OF 0(1,2) refl _ r'(1) _ refl, of "us 0"] z 0(4,5) r'(2) by simp
next
  case (Suc d c)
  then have f: "frame_ok (r_uniqCounter (c_reader c)) (r_qValue (c_reader c)) (r_counter (c_reader c))
      (r_tagIP (c_reader c)) (r_collisions (c_reader c)) (view 0 (cores (c_tags c)))"
    by (simp add: dfsa_inv_def Let_def)
  have k: "r_uniqCounter (c_reader c) < r_qValue (c_reader c)" using Suc.prems(5) by simp
  obtain r' where r': "start_edfsa (c_reader c) = Some r'"
    "rs_slot (us (Suc d)) c = Some (cell_after (us (Suc d)) (c_reader c) r' False (c_col c) (c_tags c))"
    using start_edfsa_some [OF disjI1 [OF k]] dfsa_expires(2) [OF Suc.prems(1,2), of "us (Suc d)"] by auto
  define c1 where "c1 = cell_after (us (Suc d)) (c_reader c) r' False (c_col c) (c_tags c)"
  note s = dfsa_slot_sing [OF Suc.prems(1,2) refl k r'(1) c1_def]
  have "distinct (map snd (view 0 (cores (c_tags c1))))"
    using no_clash(3) [OF f Suc.prems(3)] by (simp add: s(5) view_acked)
  then have "\<exists>c'. rs_slots us (Suc d) c1 = Some c' \<and> \<not> c_rs c' \<and> dfsa_inv m c'"
    using s Suc.prems(4,5) by (intro Suc.IH) auto
  then show ?case using r'(2) by (simp add: c1_def)
qed

lemma dfsa_done: "dfsa_inv m c \<Longrightarrow> \<not> c_rs c \<Longrightarrow> \<forall>t \<in> set (c_tags c). t_state t = T_ACKNOWLEDGED"
  using length_view_0 [of "c_tags c"] by (auto simp: dfsa_inv_def Let_def unread_def filter_empty_conv)


lemma view_slots: "map snd (view 0 (cores ts)) = map t_slot (unread ts)"
  by (simp add: view_def cores_def in_frame_def unread_def filter_map comp_def)

text \<open>
  C7: a frame in which the unread tags drew different slots is the last one. At any point of
  a framed slotted ALOHA inventory where the timer is pending and the unread tags hold
  pairwise different slots, the remaining slots of the current frame, whatever the tags
  would draw next, acknowledge every tag and leave the reader with no timer set.
\<close>

theorem dfsa_distinct_slots_finish:
  assumes "cell_run [n, ''edfsa-query''] c0 c" and "dfsa_ready c0" and "c_rs c"
    and "distinct (map t_slot (unread (c_tags c)))" and "\<forall>i. unit_draws (us i)"
  shows "\<exists>c'. rs_slots us (nat (r_qValue (c_reader c) - r_uniqCounter (c_reader c) + 1)) c = Some c' \<and>
      \<not> c_rs c' \<and> (\<forall>t \<in> set (c_tags c'). t_state t = T_ACKNOWLEDGED) \<and>
      r_success (c_reader c') = int (length (unread (c_tags c0)))"
proof -
  have rd: "edfsa_ready c0" "r_estMethod (c_reader c0) \<noteq> 2" using assms(2) by (simp_all add: dfsa_ready_iff)
  have i: "dfsa_inv (int (length (unread (c_tags c0)))) c"
    using dfsa_run_inv [OF dfsa_run_closed [OF assms(1) rd] rd(1)] by blast
  then have k: "r_uniqCounter (c_reader c) \<le> r_qValue (c_reader c)"
    using assms(3) by (simp add: dfsa_inv_def Let_def frame_ok_def)
  then obtain d where d: "r_qValue (c_reader c) = r_uniqCounter (c_reader c) + int d"
    by (metis zle_iff_zadd)
  obtain c' where c': "rs_slots us (Suc d) c = Some c'" "\<not> c_rs c'" "dfsa_inv (int (length (unread (c_tags c0)))) c'"
    using dfsa_finish [OF i assms(3) _ assms(5) d] assms(4) by (auto simp: view_slots)
  then have "r_success (c_reader c') = int (length (unread (c_tags c0)))"
    by (auto simp: dfsa_inv_def Let_def)
  moreover have "nat (r_qValue (c_reader c) - r_uniqCounter (c_reader c) + 1) = Suc d" by (simp add: d)
  ultimately show ?thesis using c' dfsa_done by auto
qed

section \<open>Examples\<close>

text \<open>Two tags, of which the draws make one take the first and one the second slot.\<close>

definition demo_tag :: "int \<Rightarrow> tag" where
  "demo_tag a = new_tag (demo_agent\<lparr>here_addr := a\<rparr>) 0 a SERVICE_EDFSA 0 0 0 0 0 0"

definition demo_draw :: "int \<Rightarrow> real" where
  "demo_draw a = (if a = 11 then 0 else 1)"

definition demo_dfsa :: cell where
  "demo_dfsa = \<lparr>c_reader = demo_reader\<lparr>r_service := SERVICE_EDFSA, r_qValue := 2\<rparr>,
     c_tags = [demo_tag 11, demo_tag 12], c_rs = False, c_col = False\<rparr>"

definition demo_dfsa_started :: cell where
  "demo_dfsa_started = the (cell_command demo_draw [''reader'', ''edfsa-query''] demo_dfsa)"

lemma demo_dfsa_ready: "dfsa_ready demo_dfsa"
  by (simp add: dfsa_ready_def demo_dfsa_def demo_reader_defs closed_form_def tags_ok_def cores_def demo_tag_def
      new_tag_def tag_core_def agent.defs tag.defs)

lemma demo_edfsa_ready: "edfsa_ready demo_dfsa" "r_estMethod (c_reader demo_dfsa) \<noteq> 2"
  using demo_dfsa_ready by (simp_all add: dfsa_ready_iff)

lemma demo_draws: "unit_draws demo_draw"
  by (simp add: unit_draws_def demo_draw_def)

lemma demo_slots: "slot_draw 2 0 = 1" "slot_draw 2 1 = 2"
proof -
  have "to_double 1 = 1" "to_double 2 = 2" "to_float 1 = 1" "to_float 2 = 2"
    using to_double_of_int [of 1] to_double_of_int [of 2] to_float_of_int [of 1] to_float_of_int [of 2] by simp_all
  then show "slot_draw 2 0 = 1" "slot_draw 2 1 = 2"
    using c_round_of_int [of 1] c_round_of_int [of 2]
    by (simp_all add: slot_draw_def rng_uniform_def dadd_def dsub_def dmul_def)
qed

lemma demo_dfsa_start:
  "cell_command demo_draw [''reader'', ''edfsa-query''] demo_dfsa = Some demo_dfsa_started"
  by (simp add: demo_dfsa_started_def cell_command_def reader_command_def Let_def)

lemmas demo_started = dfsa_start [OF demo_edfsa_ready(1) demo_draws demo_dfsa_start]

lemma demo_dfsa_run: "cell_run [''reader'', ''edfsa-query''] demo_dfsa demo_dfsa_started"
  by (rule start [OF demo_draws demo_dfsa_start])

lemma demo_dfsa_slots: "map t_slot (unread (c_tags demo_dfsa_started)) = [1, 2]"
  unfolding view_slots [symmetric] demo_started(5)
  by (simp add: demo_dfsa_def demo_reader_defs cores_def view_def in_frame_def core_query_def demo_tag_def
      tag_core_def new_tag_def agent.defs tag.defs demo_draw_def demo_slots)

lemma demo_dfsa_frame: "r_qValue (c_reader demo_dfsa_started) = 2" "unread (c_tags demo_dfsa) = c_tags demo_dfsa"
  "length (c_tags demo_dfsa) = 2"
  using demo_started(4)
  by (simp_all add: demo_dfsa_def demo_reader_defs unread_def demo_tag_def new_tag_def agent.defs tag.defs)

theorem dfsa_distinct_slots_finish_witness:
  "\<exists>c'. rs_slots (\<lambda>i. demo_draw) 2 demo_dfsa_started = Some c' \<and> \<not> c_rs c' \<and>
     (\<forall>t \<in> set (c_tags c'). t_state t = T_ACKNOWLEDGED) \<and> r_success (c_reader c') = 2"
  using dfsa_distinct_slots_finish [OF demo_dfsa_run demo_dfsa_ready demo_started(2), of "\<lambda>i. demo_draw"]
  by (simp add: demo_dfsa_slots demo_draws demo_started(3) demo_dfsa_frame)


end
