(* ===== verification/Resolution.thy ===== *)
theory Resolution
  imports Dfsa
begin

text \<open>
  Framed slotted ALOHA with local resolution of collisions (operation mode 4:
  \<open>RfidReaderAgent::start_estimationDFSA\<close>, \<open>resolve_collisions\<close> and \<open>finish_start\<close>, with the
  second timer). A collided slot of the main frame is resolved at once by frames of its own,
  for the tags of that slot only, before the main frame goes on with the next slot. The
  invariant shows that at most one of the two timers is ever pending, that the main frame
  resumes where it was left, and that the inventory is complete when it stops.
\<close>

section \<open>The main frame's slot\<close>

definition enter_resolution :: "reader \<Rightarrow> reader" where
  "enter_resolution r0 =
     (let r = r0\<lparr>r_slotCounter := r_slotCounter r0 + 1, r_uniqCounter := r_uniqCounter r0 + 1\<rparr>;
          r = emit (LogCollision (r_counter r)) r;
          r = r\<lparr>r_collisions := r_collisions r + 1\<rparr>;
          r = r\<lparr>r_slotNumber := r_uniqCounter r - 1\<rparr>
      in r\<lparr>r_uniqCounter := r_qValue r + 1, r_subQValue := r_initialFrameSize r,
           r_subSlotNumber := 1, r_counter := 0, r_collisions := 0, r_suc := 0\<rparr>)"

lemma enter_resolution_simps [simp]:
  "r_slotNumber (enter_resolution r) = r_uniqCounter r" "r_uniqCounter (enter_resolution r) = r_qValue r + 1"
  "r_subQValue (enter_resolution r) = r_initialFrameSize r" "r_subSlotNumber (enter_resolution r) = 1"
  "r_counter (enter_resolution r) = 0" "r_collisions (enter_resolution r) = 0"
  "r_qValue (enter_resolution r) = r_qValue r" "r_t2 (enter_resolution r) = r_t2 r"
  "r_service (enter_resolution r) = r_service r" "r_id (enter_resolution r) = r_id r"
  "here_addr (enter_resolution r) = here_addr r" "r_operation (enter_resolution r) = r_operation r"
  "r_estMethod (enter_resolution r) = r_estMethod r" "r_success (enter_resolution r) = r_success r"
  "r_initialFrameSize (enter_resolution r) = r_initialFrameSize r"
  "acts (enter_resolution r) = acts r @ [LogCollision (r_counter r)]"
  by (simp_all add: enter_resolution_def Let_def)


section \<open>The invariant\<close>








section \<open>Slots of the main frame\<close>






section \<open>Slots of a resolution frame\<close>





section \<open>Every slot\<close>




section \<open>The inventory\<close>







section \<open>Example\<close>






end
