(* ===== verification/QInventory.thy ===== *)
theory QInventory
  imports CellSlots
begin

text \<open>
  The Q algorithm in a cell of one reader and its tags (operation mode 0:
  \<open>RfidReaderAgent::start_sing\<close> and the tag's \<open>recv_standard\<close>). The slot in which a single tag
  answers identifies it and advances the others; an inventory that stops has read every tag,
  unless a collision drove Q to 15, where the reader stops without evaluating its last query.
\<close>

section \<open>What the tags of a Q inventory keep\<close>

definition q_draw :: "int \<Rightarrow> real \<Rightarrow> int" where
  "q_draw Q u = c_trunc (to_float (rng_uniform 0 (dsub (to_double (2 powi Q)) 1) u))"

definition core_adjust :: "(int \<Rightarrow> real) \<Rightarrow> int \<Rightarrow> core \<Rightarrow> core" where
  "core_adjust us Q c = (if k_done c then c else c\<lparr>k_slot := q_draw Q (us (k_addr c))\<rparr>)"

definition core_next :: "core \<Rightarrow> core" where
  "core_next c = (if \<not> k_done c \<and> k_slot c > 0 then c\<lparr>k_slot := k_slot c - 1\<rparr> else c)"

definition core_read :: "int \<Rightarrow> core \<Rightarrow> core" where
  "core_read a c = (if k_addr c = a then c\<lparr>k_slot := k_slot c - 1, k_done := True\<rparr> else c)"

lemma q_core_simps [simp]:
  "k_addr (core_adjust us Q c) = k_addr c" "k_done (core_adjust us Q c) = k_done c"
  "k_addr (core_next c) = k_addr c" "k_done (core_next c) = k_done c" "k_addr (core_read a c) = k_addr c"
  "k_done (core_read a c) = (k_done c \<or> k_addr c = a)"
  by (simp_all add: core_adjust_def core_next_def core_read_def)

text \<open>The draw is never negative, and with Q = -1 it is always slot 0.\<close>

lemma q_draw_range:
  assumes "-1 \<le> Q" and "Q \<le> 15" and "0 \<le> u" and "u \<le> 1"
  shows "0 \<le> q_draw Q u" and "Q = -1 \<Longrightarrow> q_draw Q u = 0"
proof -
  have "q_draw Q u = 0" if "Q = -1"
  proof -
    have d: "to_double (1 / 2) = 1 / 2" by (rule to_double_exact [of _ 1 "-1"]) (simp_all add: power_int_def)
    have f: "to_float (1 / 2) = 1 / 2" by (rule to_float_exact [of _ 1 "-1"]) (simp_all add: power_int_def)
    have p: "(2::real) powi (-1) = 1 / 2" "(1 / 2 :: real) - 1 = - (1 / 2)" by (simp_all add: power_int_def)
    have n: "to_double (- (1 / 2)) = - (1 / 2)" using to_double_minus [of "1 / 2"] by (simp only: d)
    have "dsub (to_double (2 powi Q)) 1 = - (1 / 2)" by (simp only: that p d dsub_def n)
    moreover have "rng_uniform 0 (- (1 / 2)) u = - to_double (u / 2)"
      using rng_uniform_0 [OF n] to_double_minus [of "u / 2"] by simp
    moreover have "0 \<le> to_double (u / 2)" "to_double (u / 2) \<le> 1 / 2"
      using to_double_nonneg [of "u / 2"] to_double_mono [of "u / 2" "1 / 2"] assms(3,4) unfolding d by simp_all
    then have "0 \<le> to_float (to_double (u / 2))" "to_float (to_double (u / 2)) \<le> 1 / 2"
      using to_float_nonneg to_float_mono [of "to_double (u / 2)" "1 / 2"] unfolding f by simp_all
    ultimately show ?thesis unfolding q_draw_def by (simp add: to_float_minus c_trunc_small)
  qed
  moreover have "0 \<le> q_draw Q u" if "0 \<le> Q"
  proof -
    have r: "dsub (to_double (2 powi Q)) 1 = of_int (2 ^ nat Q - 1)" using slot_range_exact that assms(2) by simp
    have "(2::int) ^ nat Q \<le> 2 ^ 15" using assms(2) by (intro power_increasing) auto
    then have "to_double (of_int (2 ^ nat Q - 1)) = of_int (2 ^ nat Q - 1)" by (intro to_double_of_int) auto
    then have "rng_uniform 0 (of_int (2 ^ nat Q - 1)) u = to_double (of_int (2 ^ nat Q - 1) * u)" by (rule rng_uniform_0)
    moreover have "0 \<le> of_int (2 ^ nat Q - 1) * u" using assms(3) by simp
    ultimately show ?thesis
      unfolding q_draw_def r by (metis c_trunc_nonneg to_double_nonneg to_float_nonneg)
  qed
  ultimately show "0 \<le> q_draw Q u" and "Q = -1 \<Longrightarrow> q_draw Q u = 0" using assms(1) by (cases "Q = -1"; force)+
qed

section \<open>The packets of the Q algorithm\<close>

lemma adjust_packet_simps [simp]:
  "hdr_tipo (rfid (adjust_packet r)) = FLOW_RT" "hdr_service (rfid (adjust_packet r)) = r_service r"
  "hdr_command (rfid (adjust_packet r)) = RC_QUERYADJUST" "hdr_qValue (rfid (adjust_packet r)) = r_qValue r"
  "hdr_id (rfid (adjust_packet r)) = r_id r" "ip_daddr (ip (adjust_packet r)) = IP_BROADCAST"
  "ip_saddr (ip (adjust_packet r)) = here_addr r"
  by (simp_all add: adjust_packet_def Let_def)

lemma update_slot_packet_simps [simp]:
  "hdr_tipo (rfid (update_slot_packet r)) = FLOW_RT" "hdr_service (rfid (update_slot_packet r)) = r_service r"
  "hdr_command (rfid (update_slot_packet r)) = RC_QUERYREPLY" "hdr_tagEPC (rfid (update_slot_packet r)) = IP_BROADCAST"
  "hdr_id (rfid (update_slot_packet r)) = r_id r" "ip_daddr (ip (update_slot_packet r)) = IP_BROADCAST"
  "ip_saddr (ip (update_slot_packet r)) = here_addr r"
  by (simp_all add: update_slot_packet_def Let_def)

lemma tag_core_arbitrate [simp]:
  "t_state t \<noteq> T_ACKNOWLEDGED \<Longrightarrow> tag_core (arbitrate p c t) = tag_core t"
  by (simp add: tag_core_def arbitrate_def)

lemma answer_arbitrate:
  assumes "acts t' = acts t" "here_addr t' = here_addr t" "t_tagEPC t' = t_tagEPC t"
    "hdr_service (rfid p) = SERVICE_STANDARD" "tag_hear us p t = emit FreePkt (arbitrate p c t')" "c \<noteq> TC_REPLY"
  shows "answers_iff (t_slot t' = 0) us p t"
  using assms by (auto simp: answers_iff_def tag_answer_def arbitrate_def counted_reply_def)

lemma tag_hear_std:
  "hdr_tipo (rfid p) = FLOW_RT \<Longrightarrow> hdr_service (rfid p) = SERVICE_STANDARD \<Longrightarrow> ip_daddr (ip p) = IP_BROADCAST \<Longrightarrow>
   tag_hear us p t = emit FreePkt (recv_standard (us (here_addr t)) p t)"
  by (simp add: tag_hear_def tag_recv_def)

text \<open>The first query and the adjusting ones make every unread tag draw.\<close>

definition is_query :: "packet \<Rightarrow> bool" where
  "is_query p \<longleftrightarrow> hdr_tipo (rfid p) = FLOW_RT \<and> hdr_service (rfid p) = SERVICE_STANDARD \<and>
     (hdr_command (rfid p) = RC_QUERY \<or> hdr_command (rfid p) = RC_QUERYADJUST) \<and> ip_daddr (ip p) = IP_BROADCAST"

lemma hear_adjust:
  assumes "is_query p" and "t_state t \<noteq> T_ACKNOWLEDGED \<or> hdr_command (rfid p) = RC_QUERYADJUST"
  shows "tag_core (tag_hear us p t) = core_adjust us (hdr_qValue (rfid p)) (tag_core t)"
    and "answers_iff (\<not> k_done (core_adjust us (hdr_qValue (rfid p)) (tag_core t)) \<and>
           k_slot (core_adjust us (hdr_qValue (rfid p)) (tag_core t)) = 0) us p t"
proof -
  let ?Q = "hdr_qValue (rfid p)" and ?u = "us (here_addr t)"
  define t1 where "t1 = updateSlot ?u (t\<lparr>t_memory := ?Q, t_id := hdr_id (rfid p)\<rparr>)"
  have q: "hdr_service (rfid p) = SERVICE_STANDARD" using assms(1) by (simp add: is_query_def)
  have h: "tag_hear us p t = emit FreePkt (if t_state t = T_ACKNOWLEDGED then t\<lparr>t_memory := ?Q\<rparr>
      else arbitrate p (hdr_command (rfid p)) t1)"
    using assms by (auto simp: is_query_def tag_hear_std recv_standard_def t1_def Let_def)
  have t1: "acts t1 = acts t" "here_addr t1 = here_addr t" "t_tagEPC t1 = t_tagEPC t" "t_state t1 = t_state t"
    by (simp_all add: t1_def)
  have c: "tag_core t1 = core_adjust us ?Q (tag_core t)" if "t_state t \<noteq> T_ACKNOWLEDGED"
    using that by (simp add: tag_core_def core_adjust_def t1_def) (simp add: updateSlot_def q_draw_def Let_def)
  show "tag_core (tag_hear us p t) = core_adjust us ?Q (tag_core t)"
  proof (cases "t_state t = T_ACKNOWLEDGED")
    case True
    with h show ?thesis by (simp add: tag_core_def core_adjust_def)
  next
    case False
    with h c t1(4) show ?thesis by simp
  qed
  show "answers_iff (\<not> k_done (core_adjust us ?Q (tag_core t)) \<and> k_slot (core_adjust us ?Q (tag_core t)) = 0) us p t"
  proof (cases "t_state t = T_ACKNOWLEDGED")
    case True
    then show ?thesis using h answers_none [of "t\<lparr>t_memory := ?Q\<rparr>" t us p] by simp
  next
    case False
    moreover have "k_slot (core_adjust us ?Q (tag_core t)) = t_slot t1" using c [OF False] by (metis core_simps(2))
    moreover have "hdr_command (rfid p) \<noteq> TC_REPLY" using assms(1) by (auto simp: is_query_def)
    ultimately show ?thesis using h answer_arbitrate [OF t1(1-3) q, of us "hdr_command (rfid p)"] by simp
  qed
qed

text \<open>The broadcast after a success counts every other tag down; a tag already at slot 0 would
  not answer it, but then none is left there.\<close>

lemma hear_update:
  assumes "r_service r = SERVICE_STANDARD" and "t_tagEPC t \<noteq> IP_BROADCAST"
    and "t_state t \<noteq> T_ACKNOWLEDGED \<longrightarrow> t_slot t \<noteq> 0"
  shows "tag_core (tag_hear us (update_slot_packet r) t) = core_next (tag_core t)"
    and "answers_iff (\<not> k_done (core_next (tag_core t)) \<and> k_slot (core_next (tag_core t)) = 0) us (update_slot_packet r) t"
proof -
  let ?p = "update_slot_packet r"
  define t1 where "t1 = t\<lparr>t_memory := hdr_qValue (rfid ?p), t_id := r_id r\<rparr>"
  define t2 where "t2 = t1\<lparr>t_slot := t_slot t - 1\<rparr>"
  have h: "tag_hear us ?p t = emit FreePkt
     (if t_slot t > 0 then (if t_state t \<noteq> T_ACKNOWLEDGED then arbitrate ?p RC_QUERYREPLY t2 else t1)
      else t\<lparr>t_memory := hdr_qValue (rfid ?p)\<rparr>)"
    using assms by (simp add: tag_hear_std recv_standard_def Let_def t1_def t2_def)
  have f: "acts t1 = acts t" "acts t2 = acts t" "here_addr t2 = here_addr t" "t_tagEPC t2 = t_tagEPC t"
    "t_state t2 = t_state t" "t_slot t2 = t_slot t - 1" "tag_core t1 = tag_core t"
    "tag_core t2 = (tag_core t)\<lparr>k_slot := t_slot t - 1\<rparr>"
    by (simp_all add: t1_def t2_def tag_core_def)
  have s: "hdr_service (rfid ?p) = SERVICE_STANDARD" using assms(1) by simp
  consider (live) "t_slot t > 0" "t_state t \<noteq> T_ACKNOWLEDGED" | (acked) "t_slot t > 0" "t_state t = T_ACKNOWLEDGED"
    | (none) "\<not> t_slot t > 0" by blast
  note cases = this
  show "tag_core (tag_hear us ?p t) = core_next (tag_core t)"
  proof (rule cases)
    assume "\<not> t_slot t > 0"
    then show ?thesis by (simp add: h core_next_def tag_core_def)
  qed (simp_all add: h f core_next_def)
  show "answers_iff (\<not> k_done (core_next (tag_core t)) \<and> k_slot (core_next (tag_core t)) = 0) us ?p t"
  proof (rule cases)
    assume "t_slot t > 0" "t_state t \<noteq> T_ACKNOWLEDGED"
    then show ?thesis
      using h answer_arbitrate [OF f(2-4) s, of us RC_QUERYREPLY] f(6) by (simp add: core_next_def)
  next
    assume "t_slot t > 0" "t_state t = T_ACKNOWLEDGED"
    then show ?thesis using h answers_none [OF f(1), of us ?p] by (simp add: core_next_def)
  next
    assume "\<not> t_slot t > 0"
    then show ?thesis
      using h answers_none [of "t\<lparr>t_memory := hdr_qValue (rfid ?p)\<rparr>" t us ?p] assms(3)
      by (cases "t_state t = T_ACKNOWLEDGED") (simp_all add: core_next_def)
  qed
qed

text \<open>The acknowledgement: the tag it names is read and confirms it, and the confirmation sets
  the reader's reply counter to zero.\<close>

definition confirms :: "int \<Rightarrow> int \<Rightarrow> packet \<Rightarrow> bool" where
  "confirms addr i q \<longleftrightarrow> ip_daddr (ip q) = addr \<and> hdr_tipo (rfid q) = FLOW_TR \<and> hdr_id (rfid q) = i \<and>
     hdr_service (rfid q) = SERVICE_STANDARD \<and> hdr_command (rfid q) = TC_REPLY"

lemma hear_read:
  assumes "r_service r = SERVICE_STANDARD" and "here_addr t \<noteq> IP_BROADCAST" and "r_tagIP r \<noteq> IP_BROADCAST"
    and "here_addr t = r_tagIP r \<longrightarrow> t_tagEPC t = r_tagEPC r"
  shows "tag_core (tag_hear us (queryreply_packet r) t) = core_read (r_tagIP r) (tag_core t)"
    and "\<forall>q \<in> set (tag_answer us (queryreply_packet r) t). confirms (here_addr r) (r_id r) q"
proof -
  let ?p = "queryreply_packet r"
  define t1 where "t1 = t\<lparr>t_memory := hdr_qValue (rfid ?p), t_id := r_id r, t_state := T_ACKNOWLEDGED, t_slot := t_slot t - 1\<rparr>"
  have h: "tag_hear us ?p t = (if here_addr t = r_tagIP r then emit FreePkt (sendPacket ?p TC_REPLY t1) else t)"
    using assms by (auto simp: tag_hear_def tag_recv_def recv_standard_def Let_def t1_def)
  have f: "acts t1 = acts t" "tag_core t1 = (tag_core t)\<lparr>k_slot := t_slot t - 1, k_done := True\<rparr>"
    by (simp_all add: t1_def tag_core_def)
  have "tag_core (sendPacket ?p TC_REPLY t1) = tag_core t1" by (simp add: tag_core_def)
  then show "tag_core (tag_hear us ?p t) = core_read (r_tagIP r) (tag_core t)"
    by (simp add: h f core_read_def)
  show "\<forall>q \<in> set (tag_answer us ?p t). confirms (here_addr r) (r_id r) q"
    using assms(1) f(1) by (simp add: tag_answer_def h confirms_def outputs_def)
qed

lemma hear_confirms:
  assumes "\<forall>q \<in> set qs. confirms (here_addr r) (r_id r) q" and "r_counter r = 0"
  shows "heard r (fold reader_hear qs r) \<and> r_counter (fold reader_hear qs r) = 0"
  using assms
proof (induction qs arbitrary: r)
  case (Cons q qs)
  have q: "reader_hear q r = r\<lparr>r_counter := 0, r_tagEPC := hdr_tagEPC (rfid q), r_tagIP := ip_saddr (ip q),
     r_rng16 := hdr_rng16 (rfid q), acts := acts r @ [FreePkt]\<rparr>"
    using Cons.prems by (simp add: confirms_def reader_hear_def reader_recv_def note_tag_def emit_def Let_def)
  then have "heard r (reader_hear q r)" unfolding heard_def by blast
  moreover have "heard (reader_hear q r) (fold reader_hear qs (reader_hear q r)) \<and>
      r_counter (fold reader_hear qs (reader_hear q r)) = 0"
    using Cons.prems by (intro Cons.IH) (simp_all add: q)
  ultimately show ?case using heard_trans by auto
qed (simp add: heard_refl)

lemma exchange_read:
  assumes "r_service r0 = SERVICE_STANDARD" and "\<forall>t \<in> set ts. here_addr t \<noteq> IP_BROADCAST" and "r_tagIP r0 \<noteq> IP_BROADCAST"
    and "\<forall>t \<in> set ts. here_addr t = r_tagIP r0 \<longrightarrow> t_tagEPC t = r_tagEPC r0"
    and "here_addr r = here_addr r0" and "r_id r = r_id r0" and "r_counter r = 0"
    and "exchange us (queryreply_packet r0) (r, ts) = (r', ts')"
  shows "cores ts' = map (core_read (r_tagIP r0)) (cores ts)" "heard r r'" "r_counter r' = 0"
    "ts' = map (tag_hear us (queryreply_packet r0)) ts"
proof -
  have r': "r' = fold reader_hear (answers us (queryreply_packet r0) ts) r"
    and ts': "ts' = map (tag_hear us (queryreply_packet r0)) ts"
    using assms(8) by (auto simp: exchange_def)
  note h = hear_read [OF assms(1) _ assms(3)]
  show "cores ts' = map (core_read (r_tagIP r0)) (cores ts)"
    using h(1) assms(2,4) by (simp add: ts' cores_def)
  have "\<forall>q \<in> set (answers us (queryreply_packet r0) ts). confirms (here_addr r) (r_id r) q"
    using h(2) assms(2,4-6) by (fastforce simp: answers_def)
  from hear_confirms [OF this assms(7)] show "heard r r'" "r_counter r' = 0" by (simp_all add: r')
  show "ts' = map (tag_hear us (queryreply_packet r0)) ts" by (rule ts')
qed

section \<open>The cell\<close>

definition tags_std :: "tag list \<Rightarrow> bool" where
  "tags_std ts \<longleftrightarrow> distinct (map here_addr ts) \<and>
     (\<forall>t \<in> set ts. here_addr t \<noteq> IP_BROADCAST \<and> t_tagEPC t \<noteq> IP_BROADCAST)"

lemma here_addr_arbitrate [simp]:
  "here_addr (arbitrate p c t) = here_addr t" "here_addr (reply_in_slot p t) = here_addr t"
  by (simp_all add: arbitrate_def reply_in_slot_def)

lemma tag_hear_ident [simp]: "here_addr (tag_hear us p t) = here_addr t" "t_tagEPC (tag_hear us p t) = t_tagEPC t"
proof -
  have "here_addr (recv_tracking u p t) = here_addr t" "here_addr (recv_standard u p t) = here_addr t"
    "here_addr (recv_ebtsa u p t) = here_addr t" "here_addr (recv_edfsa u p t) = here_addr t" for u
    by (simp_all add: recv_tracking_def recv_standard_def recv_ebtsa_def recv_edfsa_def Let_def)
  then show "here_addr (tag_hear us p t) = here_addr t" by (simp add: tag_hear_def tag_recv_def Let_def)
  show "t_tagEPC (tag_hear us p t) = t_tagEPC t" by (simp add: tag_hear_def tag_recv_state)
qed

lemma tags_std_hear [simp]: "tags_std (map (tag_hear us p) ts) = tags_std ts"
  by (simp add: tags_std_def comp_def)

definition q_counts :: "reader \<Rightarrow> tag list \<Rightarrow> bool" where
  "q_counts r ts \<longleftrightarrow> r_counter r = slot_count (view 0 (cores ts)) 0 \<and>
     (r_counter r = 1 \<longrightarrow> (r_tagIP r, 0) \<in> set (view 0 (cores ts)) \<and>
        (\<exists>t \<in> set ts. r_tagIP r = here_addr t \<and> r_tagEPC r = t_tagEPC t))"

lemma q_counts_exchange:
  assumes "\<And>t. t \<in> set ts \<Longrightarrow> tag_core (tag_hear us p t) = F (tag_core t)"
    and "\<And>t. t \<in> set ts \<Longrightarrow> answers_iff (\<not> k_done (F (tag_core t)) \<and> k_slot (F (tag_core t)) = 0) us p t"
    and "\<And>c. k_addr (F c) = k_addr c"
    and "ip_saddr (ip p) = here_addr r" and "hdr_id (rfid p) = r_id r" and "r_counter r = 0"
    and "exchange us p (r, ts) = (r', ts')"
  shows "cores ts' = map F (cores ts)" "heard r r'" "q_counts r' ts'" "tags_std ts' = tags_std ts"
proof -
  have a: "answers_iff (in_frame 0 (F (tag_core t)) \<and> k_slot (F (tag_core t)) = 0) us p t" if "t \<in> set ts" for t
    using assms(2) [OF that] by (simp add: in_frame_def)
  have ts': "ts' = map (tag_hear us p) ts" using assms(7) by (simp add: exchange_def)
  note x = exchange_counts [OF assms(1) a assms(3-7)]
  show "cores ts' = map F (cores ts)" "heard r r'" "tags_std ts' = tags_std ts" using x(1,2) by (simp_all add: ts')
  show "q_counts r' ts'" using x(3-5) by (auto simp: q_counts_def ts')
qed

lemma exchange_adjust:
  assumes "is_query p" and "\<forall>t \<in> set ts. t_state t \<noteq> T_ACKNOWLEDGED \<or> hdr_command (rfid p) = RC_QUERYADJUST"
    and "ip_saddr (ip p) = here_addr r" and "hdr_id (rfid p) = r_id r" and "r_counter r = 0"
    and "exchange us p (r, ts) = (r', ts')"
  shows "cores ts' = map (core_adjust us (hdr_qValue (rfid p))) (cores ts)" "heard r r'" "q_counts r' ts'"
    "tags_std ts' = tags_std ts"
proof -
  have h: "tag_core (tag_hear us p t) = core_adjust us (hdr_qValue (rfid p)) (tag_core t)"
    "answers_iff (\<not> k_done (core_adjust us (hdr_qValue (rfid p)) (tag_core t)) \<and>
       k_slot (core_adjust us (hdr_qValue (rfid p)) (tag_core t)) = 0) us p t" if "t \<in> set ts" for t
    by (rule hear_adjust [OF assms(1) bspec [OF assms(2) that]])+
  show "cores ts' = map (core_adjust us (hdr_qValue (rfid p))) (cores ts)" "heard r r'" "q_counts r' ts'"
    "tags_std ts' = tags_std ts"
    using q_counts_exchange [OF h q_core_simps(1) assms(3-6)] by simp_all
qed

lemma exchange_update:
  assumes "r_service r0 = SERVICE_STANDARD" and "tags_std ts" and "\<forall>c \<in> set (cores ts). \<not> k_done c \<longrightarrow> k_slot c \<noteq> 0"
    and "here_addr r = here_addr r0" and "r_id r = r_id r0" and "r_counter r = 0"
    and "exchange us (update_slot_packet r0) (r, ts) = (r', ts')"
  shows "cores ts' = map core_next (cores ts)" "heard r r'" "q_counts r' ts'" "tags_std ts' = tags_std ts"
  using q_counts_exchange [of ts us "update_slot_packet r0" core_next r r' ts'] hear_update [OF assms(1)] assms(2-7)
  by (simp_all add: tags_std_def cores_def)

section \<open>The invariant\<close>

definition q_inv :: "int \<Rightarrow> cell \<Rightarrow> bool" where
  "q_inv m c \<longleftrightarrow>
     (let r = c_reader c; cs = cores (c_tags c) in
      r_operation r = 0 \<and> r_service r = SERVICE_STANDARD \<and> sing_inv r \<and> \<not> c_col c \<and> tags_std (c_tags c) \<and>
      r_success r + int (length (view 0 cs)) = m \<and> q_counts r (c_tags c) \<and>
      (\<forall>x \<in> set cs. \<not> k_done x \<longrightarrow> 0 \<le> k_slot x \<and> (r_qValue r = -1 \<longrightarrow> k_slot x = 0)) \<and>
      (c_rs c \<or> view 0 cs = [] \<or> r_qValue r = 15))"

lemma heard_sing_inv: "sing_inv r \<Longrightarrow> heard r r' \<Longrightarrow> 0 \<le> r_counter r' \<Longrightarrow> sing_inv r'"
  by (auto simp: sing_inv_def heard_frame)

lemma q_counts_nonneg: "q_counts r ts \<Longrightarrow> 0 \<le> r_counter r"
  by (simp add: q_counts_def)

text \<open>A query that makes the unread tags draw leaves a cell that satisfies the invariant.\<close>

lemma length_view_adjust: "length (view 0 (map (core_adjust us Q) cs)) = length (view 0 cs)"
  by (induction cs) (auto simp: view_def in_frame_def)

lemma q_query:
  assumes "is_query p" and "\<forall>t \<in> set ts. t_state t \<noteq> T_ACKNOWLEDGED \<or> hdr_command (rfid p) = RC_QUERYADJUST"
    and "ip_saddr (ip p) = here_addr r'" and "hdr_id (rfid p) = r_id r'" and "r_counter r' = 0"
    and "hdr_qValue (rfid p) = r_qValue r'" and "exchange us p (r', ts) = (r2, ts2)" and "unit_draws us"
    and "r_operation r' = 0" and "r_service r' = SERVICE_STANDARD" and "sing_inv r'" and "tags_std ts"
    and "r_success r' + int (length (view 0 (cores ts))) = m" and "b \<or> r_qValue r' = 15"
  shows "q_inv m \<lparr>c_reader = r2, c_tags = ts2, c_rs = b, c_col = False\<rparr>"
proof -
  note x = exchange_adjust [OF assms(1-5,7)]
  note h = heard_frame [OF x(2)]
  have q: "-1 \<le> r_qValue r'" "r_qValue r' \<le> 15" using assms(11) by (simp_all add: sing_inv_def)
  have "0 \<le> k_slot y \<and> (r_qValue r' = -1 \<longrightarrow> k_slot y = 0)" if "y \<in> set (cores ts2)" "\<not> k_done y" for y
  proof -
    obtain z where "y = core_adjust us (r_qValue r') z" using \<open>y \<in> set (cores ts2)\<close> x(1) assms(6) by auto
    then show ?thesis
      using \<open>\<not> k_done y\<close> q_draw_range [OF q, of "us (k_addr z)"] assms(8) by (auto simp: core_adjust_def unit_draws_def)
  qed
  moreover have "sing_inv r2" using heard_sing_inv [OF assms(11) x(2) q_counts_nonneg [OF x(3)]] .
  moreover have "length (view 0 (cores ts2)) = length (view 0 (cores ts))" by (simp add: x(1) length_view_adjust)
  ultimately show ?thesis
    using assms(9,10,12-14) x(3,4) by (auto simp: q_inv_def Let_def h)
qed

section \<open>Slots\<close>

lemma cell_after_outputs:
  assumes "acts r' = acts r @ ys" and "fold (exchange us) (sent ys) (r', ts) = (r2, ts2)"
  shows "cell_after us r r' rs cl ts = \<lparr>c_reader = r2, c_tags = ts2, c_rs = rs \<or> list_ex sets_rs ys, c_col = cl \<or> list_ex sets_col ys\<rparr>"
  using assms by (simp add: cell_after_def outputs_def Let_def)

lemma send_query_ajust_upd: "send_query_ajust r = r\<lparr>acts := acts r @ [AllocPkt, Send (adjust_packet r)]\<rparr>"
  by (simp add: send_query_ajust_def alloc_send_def emit_def)

lemma update_slot_upd: "send_query_reply_update_slot r = r\<lparr>acts := acts r @ [AllocPkt, Send (update_slot_packet r)]\<rparr>"
  by (simp add: send_query_reply_update_slot_def alloc_send_def emit_def)

lemma raise_bigQ_frame [simp]: "here_addr (raise_bigQ r) = here_addr r"
  by (simp add: raise_bigQ_def)

text \<open>The last step of an idle and of a collided slot.\<close>

definition adjusted :: "reader \<Rightarrow> reader" where
  "adjusted r =
     (let r0 = r\<lparr>r_slotCounter := r_slotCounter r + 1\<rparr> in
      if r_counter r = 0 then
        (let r2 = raise_bigQ (r0\<lparr>r_idle := r_idle r + 1, r_Qfp := idle_Q r, r_qValue := c_round (idle_Q r)\<rparr>)
         in if c_round (idle_Q r) = 0 then r2\<lparr>r_qValue := -1\<rparr> else r2)
      else (raise_bigQ (r0\<lparr>r_collisions := r_collisions r + 1, r_Qfp := collision_Q r,
              r_qValue := c_round (collision_Q r)\<rparr>))\<lparr>r_counter := 0\<rparr>)"

lemma start_sing_adjusts:
  assumes "r_counter r = 0 \<and> r_qValue r \<noteq> -1 \<or> r_counter r > 1"
  shows "\<exists>d. start_sing r =
    (adjusted r)\<lparr>acts := acts r @ [AllocPkt, Send (adjust_packet (adjusted r))] @
       (if r_counter r > 1 \<and> r_qValue (adjusted r) = 15 then [] else [ReschedRs d])\<rparr>"
    and "acts (adjusted r) = acts r" "r_counter (adjusted r) = 0" "r_operation (adjusted r) = r_operation r"
    "r_service (adjusted r) = r_service r" "r_success (adjusted r) = r_success r" "r_id (adjusted r) = r_id r"
    "here_addr (adjusted r) = here_addr r"
proof -
  have i: "idle_Q (r\<lparr>r_slotCounter := n\<rparr>) = idle_Q r" "collision_Q (r\<lparr>r_slotCounter := n\<rparr>) = collision_Q r" for n
    by (simp_all add: idle_Q_def collision_Q_def)
  show "acts (adjusted r) = acts r" "r_counter (adjusted r) = 0" "r_operation (adjusted r) = r_operation r"
    "r_service (adjusted r) = r_service r" "r_success (adjusted r) = r_success r" "r_id (adjusted r) = r_id r"
    "here_addr (adjusted r) = here_addr r"
    using assms by (auto simp: adjusted_def Let_def)
  show "\<exists>d. start_sing r =
    (adjusted r)\<lparr>acts := acts r @ [AllocPkt, Send (adjust_packet (adjusted r))] @
       (if r_counter r > 1 \<and> r_qValue (adjusted r) = 15 then [] else [ReschedRs d])\<rparr>"
  proof (cases "r_counter r = 0")
    case True
    then show ?thesis
      using assms by (intro exI [of _ "r_t2 r"])
        (simp add: start_sing_cases start_sing_idle_eq adjusted_def Let_def i send_query_ajust_upd emit_upd)
  next
    case False
    then show ?thesis
      using assms by (intro exI [of _ "r_t2 r"])
        (simp add: start_sing_cases start_sing_collision_eq adjusted_def Let_def i send_query_ajust_upd emit_upd)
  qed
qed

lemma q_slot_adjust:
  assumes "q_inv m c" and "c_rs c" and "r = c_reader c" and "r_counter r = 0 \<and> r_qValue r \<noteq> -1 \<or> r_counter r > 1"
    and "unit_draws us"
  shows "q_inv m (cell_after us r (start_sing r) False (c_col c) (c_tags c))"
proof -
  note a = start_sing_adjusts [OF assms(4)]
  obtain d where d: "start_sing r = (adjusted r)\<lparr>acts := acts r @ [AllocPkt, Send (adjust_packet (adjusted r))] @
       (if r_counter r > 1 \<and> r_qValue (adjusted r) = 15 then [] else [ReschedRs d])\<rparr>" using a(1) by blast
  define p ys where "p = adjust_packet (adjusted r)" and
    "ys = [AllocPkt, Send p] @ (if r_counter r > 1 \<and> r_qValue (adjusted r) = 15 then [] else [ReschedRs d])"
  have i: "r_operation r = 0" "r_service r = SERVICE_STANDARD" "sing_inv r" "\<not> c_col c" "tags_std (c_tags c)"
    "r_success r + int (length (view 0 (cores (c_tags c)))) = m"
    using assms(1,3) by (simp_all add: q_inv_def Let_def)
  have s: "acts (start_sing r) = acts r @ ys" "sent ys = [p]" by (simp_all add: d ys_def p_def)
  obtain r2 ts2 where x: "exchange us p (start_sing r, c_tags c) = (r2, ts2)" by fastforce
  have c: "cell_after us r (start_sing r) False (c_col c) (c_tags c) =
      \<lparr>c_reader = r2, c_tags = ts2, c_rs = list_ex sets_rs ys, c_col = False\<rparr>"
    using cell_after_outputs [OF s(1), of us "c_tags c" r2 ts2 False "c_col c"] x s(2) i(4) by (simp add: ys_def)
  have "is_query p" using i(2) a(5) by (simp add: is_query_def p_def)
  then show ?thesis
    unfolding c using i start_sing_inv [OF i(3)] a
    by (intro q_query [OF _ _ _ _ _ _ x assms(5)]) (simp_all add: p_def d ys_def)
qed

lemma q_slot_stop:
  assumes "q_inv m c" and "r = c_reader c" and "r_counter r = 0" "r_qValue r = -1"
  shows "q_inv m (cell_after us r (start_sing r) False (c_col c) (c_tags c))"
proof -
  have i: "r_operation r = 0" "r_service r = SERVICE_STANDARD" "sing_inv r" "\<not> c_col c" "tags_std (c_tags c)"
    "r_success r + int (length (view 0 (cores (c_tags c)))) = m" "q_counts r (c_tags c)"
    "\<forall>x \<in> set (cores (c_tags c)). \<not> k_done x \<longrightarrow> k_slot x = 0"
    using assms by (simp_all add: q_inv_def Let_def)
  have s: "acts (start_sing r) = acts r" "r_service (start_sing r) = r_service r" "r_success (start_sing r) = r_success r"
    "r_counter (start_sing r) = r_counter r" "r_qValue (start_sing r) = -1" "r_tagIP (start_sing r) = r_tagIP r"
    "r_tagEPC (start_sing r) = r_tagEPC r"
    using assms(3,4) by (simp_all add: start_sing_cases start_sing_idle_eq Let_def)
  have c: "cell_after us r (start_sing r) False (c_col c) (c_tags c) =
      \<lparr>c_reader = start_sing r, c_tags = c_tags c, c_rs = False, c_col = False\<rparr>"
    using cell_after_outputs [of "start_sing r" r "[]" us "c_tags c"] s(1) i(4) by simp
  have "slot_count (view 0 (cores (c_tags c))) 0 = 0" using i(7) assms(3) by (simp add: q_counts_def)
  then have "view 0 (cores (c_tags c)) = []"
    using i(8) by (auto simp: slot_count_0 view_def in_frame_def filter_empty_conv)
  moreover have "q_counts (start_sing r) (c_tags c)" using i(7) by (simp add: q_counts_def s)
  ultimately show ?thesis
    unfolding c using i start_sing_inv [OF i(3)] by (simp add: q_inv_def Let_def s)
qed

text \<open>The slot in which one tag answered.\<close>

definition success_state :: "reader \<Rightarrow> reader" where
  "success_state r = r\<lparr>r_slotCounter := r_slotCounter r + 1, r_uniqCounter := r_uniqCounter r + 1,
     r_success := r_success r + 1, r_total := r_total r + r_collisions r, r_counter := 0\<rparr>"

lemma start_sing_success_eq:
  assumes "r_counter r = 1"
  shows "\<exists>ra. start_sing r = (success_state r)\<lparr>acts := acts r @ [AllocPkt, Send (queryreply_packet (success_state r)),
      AllocPkt, Send (update_slot_packet ra), ReschedRs (r_t2 r)]\<rparr> \<and>
    r_service ra = r_service r \<and> r_id ra = r_id r \<and> here_addr ra = here_addr r"
proof -
  define ra where "ra = send_query_reply (success_state r)"
  have f: "r_service ra = r_service r" "r_id ra = r_id r" "here_addr ra = here_addr r"
    by (simp_all add: ra_def success_state_def send_query_reply_upd)
  have "start_sing r = emit (ReschedRs (r_t2 r)) (send_query_reply_update_slot ra)"
    using assms by (simp add: start_sing_cases start_sing_success_def success_state_def ra_def Let_def)
  also have "\<dots> = (success_state r)\<lparr>acts := acts r @ [AllocPkt, Send (queryreply_packet (success_state r)),
      AllocPkt, Send (update_slot_packet ra), ReschedRs (r_t2 r)]\<rparr>"
    by (simp add: update_slot_upd emit_upd ra_def send_query_reply_upd) (simp add: success_state_def)
  finally show ?thesis using f by blast
qed

lemma view_core_read: "view rep (map (core_read a) cs) = filter (\<lambda>x. fst x \<noteq> a) (view rep cs)"
  by (induction cs) (auto simp: view_def in_frame_def core_read_def)

lemma length_view_next: "length (view 0 (map core_next cs)) = length (view 0 cs)"
  by (induction cs) (auto simp: view_def in_frame_def)

text \<open>What a successful slot does to the cell, for the invariant and for the property below.\<close>

lemma q_slot_success:
  assumes "q_inv m c" and "c_rs c" and "r = c_reader c" and "r_counter r = 1"
    and "c' = cell_after us r (start_sing r) False (c_col c) (c_tags c)"
  shows "cores (c_tags c') = map core_next (map (core_read (r_tagIP r)) (cores (c_tags c)))"
    and "c_rs c'" "\<not> c_col c'" "heard (start_sing r) (c_reader c')" "q_counts (c_reader c') (c_tags c')"
    and "tags_std (c_tags c')"
    and "\<forall>x \<in> set (cores (c_tags c)). \<not> k_done x \<and> k_slot x = 0 \<longrightarrow> k_addr x = r_tagIP r"
proof -
  let ?ts = "c_tags c" and ?cs = "cores (c_tags c)"
  obtain ra where s: "start_sing r = (success_state r)\<lparr>acts := acts r @ [AllocPkt,
      Send (queryreply_packet (success_state r)), AllocPkt, Send (update_slot_packet ra), ReschedRs (r_t2 r)]\<rparr>"
    and ra: "r_service ra = r_service r" "r_id ra = r_id r" "here_addr ra = here_addr r"
    using start_sing_success_eq [OF assms(4)] by blast
  have i: "r_service r = SERVICE_STANDARD" "\<not> c_col c" "tags_std ?ts" "q_counts r ?ts"
    using assms(1,3) by (simp_all add: q_inv_def Let_def)
  have f: "r_service (success_state r) = SERVICE_STANDARD" "r_tagIP (success_state r) = r_tagIP r"
    "r_tagEPC (success_state r) = r_tagEPC r" "here_addr (start_sing r) = here_addr (success_state r)"
    "r_id (start_sing r) = r_id (success_state r)" "r_counter (start_sing r) = 0"
    using i(1) by (simp_all add: s success_state_def)
  obtain t0 where t0: "t0 \<in> set ?ts" "r_tagIP r = here_addr t0" "r_tagEPC r = t_tagEPC t0" "(r_tagIP r, 0) \<in> set (view 0 ?cs)"
    using i(4) assms(4) by (auto simp: q_counts_def)
  have tag: "\<forall>t \<in> set ?ts. here_addr t \<noteq> IP_BROADCAST" "r_tagIP (success_state r) \<noteq> IP_BROADCAST"
    "\<forall>t \<in> set ?ts. here_addr t = r_tagIP (success_state r) \<longrightarrow> t_tagEPC t = r_tagEPC (success_state r)"
  proof -
    have "t = t0" if "t \<in> set ?ts" "here_addr t = here_addr t0" for t
      using i(3) t0(1) that by (auto simp: tags_std_def distinct_map inj_on_def)
    then show "\<forall>t \<in> set ?ts. here_addr t = r_tagIP (success_state r) \<longrightarrow> t_tagEPC t = r_tagEPC (success_state r)"
      using t0 f by auto
  qed (use i(3) t0 f in \<open>auto simp: tags_std_def\<close>)
  obtain r1 ts1 where x1: "exchange us (queryreply_packet (success_state r)) (start_sing r, ?ts) = (r1, ts1)" by fastforce
  note y1 = exchange_read [OF f(1) tag f(4-6) x1, unfolded f(2)]
  obtain r2 ts2 where x2: "exchange us (update_slot_packet ra) (r1, ts1) = (r2, ts2)" by fastforce
  have slots: "slot_count (view 0 (map (core_read (r_tagIP r)) ?cs)) 0 = 0"
  proof -
    have d: "distinct (map fst (view 0 ?cs))"
      using i(3) by (intro distinct_view) (simp add: tags_std_def cores_def comp_def)
    have "slot_count (take_out 1 (r_tagIP r) (view 0 ?cs)) 0 = 0"
      using slot_count_take_out [OF d, of 1 0 "r_tagIP r" 0] i(4) assms(4) t0(4) by (simp add: q_counts_def)
    moreover have "view 0 (map (core_read (r_tagIP r)) ?cs) = take_out 1 (r_tagIP r) (view 0 ?cs)"
      by (simp add: take_out_def view_core_read)
    ultimately show ?thesis by simp
  qed
  have live: "\<forall>x \<in> set (cores ts1). \<not> k_done x \<longrightarrow> k_slot x \<noteq> 0"
    using slots y1(1) by (force simp: slot_count_0 view_def in_frame_def)
  have r1: "here_addr r1 = here_addr ra" "r_id r1 = r_id ra"
    using heard_frame [OF y1(2)] ra by (simp_all add: s success_state_def)
  have ok1: "tags_std ts1" "r_service ra = SERVICE_STANDARD" using i(1,3) y1(4) ra by simp_all
  note y2 = exchange_update [OF ok1(2,1) live r1 y1(3) x2]
  have c': "c' = \<lparr>c_reader = r2, c_tags = ts2, c_rs = True, c_col = False\<rparr>"
    unfolding assms(5) using cell_after_outputs [of "start_sing r" r _ us ?ts r2 ts2 False "c_col c"] x1 x2 i(2) by (simp add: s)
  show "cores (c_tags c') = map core_next (map (core_read (r_tagIP r)) ?cs)" using y1(1) y2(1) by (simp add: c')
  show "c_rs c'" "\<not> c_col c'" "q_counts (c_reader c') (c_tags c')" "tags_std (c_tags c')"
    using y2(3,4) ok1(1) by (simp_all add: c')
  show "heard (start_sing r) (c_reader c')" using heard_trans [OF y1(2) y2(2)] by (simp add: c')
  show "\<forall>x \<in> set ?cs. \<not> k_done x \<and> k_slot x = 0 \<longrightarrow> k_addr x = r_tagIP r"
  proof (intro ballI impI, rule ccontr)
    fix x assume x: "x \<in> set ?cs" "\<not> k_done x \<and> k_slot x = 0" "k_addr x \<noteq> r_tagIP r"
    then have "core_read (r_tagIP r) x = x" by (simp add: core_read_def)
    with x slots show False by (force simp: slot_count_0 view_def in_frame_def)
  qed
qed

lemma q_success_inv:
  assumes "q_inv m c" and "c_rs c" and "r = c_reader c" and "r_counter r = 1"
    and "c' = cell_after us r (start_sing r) False (c_col c) (c_tags c)"
  shows "q_inv m c'"
proof -
  let ?cs = "cores (c_tags c)"
  note x = q_slot_success [OF assms]
  have i: "r_operation r = 0" "r_service r = SERVICE_STANDARD" "sing_inv r" "tags_std (c_tags c)"
    "r_success r + int (length (view 0 ?cs)) = m" "q_counts r (c_tags c)"
    "\<forall>y \<in> set ?cs. \<not> k_done y \<longrightarrow> 0 \<le> k_slot y \<and> (r_qValue r = -1 \<longrightarrow> k_slot y = 0)"
    using assms(1,3) by (simp_all add: q_inv_def Let_def)
  have g: "r_operation (c_reader c') = 0" "r_service (c_reader c') = SERVICE_STANDARD"
    "r_qValue (c_reader c') = r_qValue r" "r_success (c_reader c') = r_success r + 1"
    using heard_frame [OF x(4)] start_sing_success_eq [OF assms(4)] i(1,2) by (auto simp: success_state_def)
  have m: "(r_tagIP r, 0) \<in> set (view 0 ?cs)" using i(6) assms(4) by (simp add: q_counts_def)
  have d: "distinct (map fst (view 0 ?cs))"
    using i(4) by (intro distinct_view) (simp add: tags_std_def cores_def comp_def)
  have "length (view 0 ?cs) = Suc (length (view 0 (cores (c_tags c'))))"
    unfolding x(1) length_view_next view_core_read using filter_out_length [OF d m] by simp
  then have n: "r_success (c_reader c') + int (length (view 0 (cores (c_tags c')))) = m" using i(5) g by simp
  have "0 \<le> k_slot y \<and> (r_qValue r = -1 \<longrightarrow> k_slot y = 0)" if "y \<in> set (cores (c_tags c'))" "\<not> k_done y" for y
  proof -
    from that(1) obtain z where z: "z \<in> set ?cs" "y = core_next (core_read (r_tagIP r) z)" unfolding x(1) by auto
    then have "\<not> k_done z \<and> k_addr z \<noteq> r_tagIP r" using that(2) by simp
    then have "\<not> k_done z" "core_read (r_tagIP r) z = z" by (simp_all add: core_read_def)
    then show ?thesis using i(7) z by (auto simp: core_next_def)
  qed
  moreover have "sing_inv (c_reader c')"
    using heard_sing_inv [OF start_sing_inv [OF i(3)] x(4) q_counts_nonneg [OF x(5)]] .
  ultimately show ?thesis using x(2,3,5,6) n g by (simp add: q_inv_def Let_def)
qed

lemma q_slot:
  assumes "q_inv m c" and "unit_draws us" and "rs_slot us c = Some c'"
  shows "q_inv m c'"
proof -
  let ?r = "c_reader c"
  have p: "c_rs c" using assms(3) by (auto simp: rs_slot_def split: if_splits)
  have "r_operation ?r = 0" and n: "0 \<le> r_counter ?r"
    using assms(1) by (simp_all add: q_inv_def Let_def sing_inv_def)
  then have c': "c' = cell_after us ?r (start_sing ?r) False (c_col c) (c_tags c)"
    using assms(3) p by (simp add: rs_slot_def rs_expire_def)
  consider "r_counter ?r = 0" "r_qValue ?r = -1" | "r_counter ?r = 1"
    | "r_counter ?r = 0 \<and> r_qValue ?r \<noteq> -1 \<or> r_counter ?r > 1" using n by linarith
  then show ?thesis
  proof cases
    case 1
    then show ?thesis unfolding c' by (rule q_slot_stop [OF assms(1) refl])
  next
    case 2
    then show ?thesis by (rule q_success_inv [OF assms(1) p refl _ c'])
  next
    case 3
    then show ?thesis unfolding c' by (rule q_slot_adjust [OF assms(1) p refl _ assms(2)])
  qed
qed

section \<open>The inventory\<close>

definition q_ready :: "cell \<Rightarrow> bool" where
  "q_ready c \<longleftrightarrow>
     (let r = c_reader c in
      r_service r = SERVICE_STANDARD \<and> r_counter r = 0 \<and> 0 \<le> r_Qfp r \<and> r_Qfp r \<le> 15 \<and>
      -1 \<le> r_qValue r \<and> r_qValue r \<le> 15 \<and> \<not> c_rs c \<and> \<not> c_col c \<and> tags_std (c_tags c) \<and>
      (\<forall>t \<in> set (c_tags c). t_state t \<noteq> T_ACKNOWLEDGED))"

lemma q_start:
  assumes "q_ready c0" and "unit_draws us" and "cell_command us [n, ''standard-query-tags''] c0 = Some c"
  shows "q_inv (int (length (c_tags c0))) c" "c_rs c"
    "cores (c_tags c) = map (core_adjust us (r_qValue (c_reader c0))) (cores (c_tags c0))"
proof -
  let ?r = "c_reader c0"
  define rb where "rb = ?r\<lparr>r_operation := 0, r_bigQ := r_qValue ?r, r_collisions := 0, r_idle := 0,
                r_success := 0, r_session := r_session ?r + 1, r_slotCounter := 0, r_total := 0,
                r_uniqCounter := 0\<rparr>"
  define r' where "r' = emit (ReschedRs (r_t2 rb)) (query RC_QUERY 0 0 rb)"
  have c: "c = cell_after us ?r r' False False (c_tags c0)"
    using assms(1,3) by (auto simp: cell_command_def reader_command_def q_ready_def rb_def r'_def send_query_def Let_def)
  have s: "r_service ?r = SERVICE_STANDARD" "r_counter ?r = 0" "tags_std (c_tags c0)" "0 \<le> r_Qfp ?r" "r_Qfp ?r \<le> 15"
    "-1 \<le> r_qValue ?r" "r_qValue ?r \<le> 15" "\<forall>t \<in> set (c_tags c0). t_state t \<noteq> T_ACKNOWLEDGED"
    using assms(1) by (simp_all add: q_ready_def Let_def)
  define p where "p = query_packet RC_QUERY 0 0 rb"
  have a: "acts r' = acts ?r @ [AllocPkt, Send p, ReschedRs (r_t2 rb)]"
    by (simp add: r'_def rb_def query_upd emit_upd p_def)
  obtain r2 ts2 where x: "exchange us p (r', c_tags c0) = (r2, ts2)" by fastforce
  have c: "c = \<lparr>c_reader = r2, c_tags = ts2, c_rs = True, c_col = False\<rparr>"
    unfolding c using cell_after_outputs [OF a, of us "c_tags c0" r2 ts2 False False] x by simp
  have v: "length (view 0 (cores (c_tags c0))) = length (c_tags c0)"
    using s(8) by (simp add: view_def cores_def in_frame_def filter_map comp_def)
  have q: "is_query p" using s(1) by (simp add: is_query_def p_def rb_def)
  then show "q_inv (int (length (c_tags c0))) c"
    unfolding c using s v
    by (intro q_query [OF _ _ _ _ _ _ x assms(2)]) (simp_all add: p_def r'_def rb_def query_upd emit_upd sing_inv_def)
  show "cores (c_tags c) = map (core_adjust us (r_qValue ?r)) (cores (c_tags c0))"
    using exchange_adjust(1) [OF q _ _ _ _ x] s by (simp add: c p_def r'_def rb_def query_upd emit_upd)
  show "c_rs c" by (simp add: c)
qed

lemma q_run_inv:
  "cell_run [n, ''standard-query-tags''] c0 c \<Longrightarrow> q_ready c0 \<Longrightarrow> q_inv (int (length (c_tags c0))) c"
proof (induction rule: cell_run.induct)
  case (start us c)
  then show ?case using q_start(1) by blast
next
  case (rs c us c')
  then show ?case using q_slot by blast
next
  case (col c us c')
  then show ?case by (auto simp: q_inv_def Let_def col_slot_def)
qed

lemma q_handler:
  assumes "q_inv m c" and "c_rs c"
  shows "rs_slot us c = Some (cell_after us (c_reader c) (start_sing (c_reader c)) False (c_col c) (c_tags c))"
  using assms by (simp add: q_inv_def Let_def rs_slot_def rs_expire_def)

lemma slot_count_unread: "slot_count (view 0 (cores ts)) k = int (length (filter (\<lambda>t. t_slot t = k) (unread ts)))"
  by (simp add: slot_count_view cores_def in_frame_def unread_def filter_map comp_def conj_commute)

text \<open>
  C4: the slot that identifies a tag. In a Q inventory, when the reader evaluates a slot in
  which it counted one answer, then one unread tag is in slot 0, and after the slot exactly
  that tag has become acknowledged, every other unread tag has counted its slot down by one,
  the reader has counted one more success and set the slot timer, and its reply counter
  already holds the number of tags that are in slot 0 now.
\<close>

theorem q_single_answer_identifies:
  assumes "cell_run [n, ''standard-query-tags''] c0 c" and "q_ready c0" and "c_rs c"
    and "r_counter (c_reader c) = 1"
  shows "\<exists>c' t. rs_slot us c = Some c' \<and> t \<in> set (c_tags c) \<and> t_state t \<noteq> T_ACKNOWLEDGED \<and> t_slot t = 0 \<and>
     cores (c_tags c') = map core_next (map (core_read (here_addr t)) (cores (c_tags c))) \<and>
     c_rs c' \<and> r_success (c_reader c') = r_success (c_reader c) + 1 \<and>
     r_counter (c_reader c') = int (length (filter (\<lambda>t. t_slot t = 0) (unread (c_tags c'))))"
proof -
  note i = q_run_inv [OF assms(1,2)]
  define c' where "c' = cell_after us (c_reader c) (start_sing (c_reader c)) False (c_col c) (c_tags c)"
  note x = q_slot_success [OF i assms(3) refl assms(4) c'_def]
  have "q_counts (c_reader c) (c_tags c)" using i by (simp add: q_inv_def Let_def)
  then have "(r_tagIP (c_reader c), 0) \<in> set (view 0 (cores (c_tags c)))" using assms(4) by (simp add: q_counts_def)
  then obtain t where "t \<in> set (c_tags c)" "t_state t \<noteq> T_ACKNOWLEDGED" "t_slot t = 0" "here_addr t = r_tagIP (c_reader c)"
    by (auto simp: view_def cores_def in_frame_def)
  moreover have "r_success (c_reader c') = r_success (c_reader c) + 1"
    using heard_frame [OF x(4)] start_sing_success_eq [OF assms(4)] by (auto simp: success_state_def)
  moreover have "r_counter (c_reader c') = int (length (filter (\<lambda>t. t_slot t = 0) (unread (c_tags c'))))"
    using x(5) by (simp add: q_counts_def slot_count_unread)
  ultimately show ?thesis using q_handler [OF i assms(3), of us] x(1,2) by (auto simp: c'_def)
qed

text \<open>
  C3: a Q inventory that stops is complete, with one exception. From a reader whose Q
  parameters are in range and tags that are not yet read, in every run and for all draws: the
  count of successful slots is the number of tags read, the handler of a pending timer
  returns, and when the timer is no longer pending every tag is acknowledged or Q has been
  driven to 15, where a collision leaves the reader without a timer.
\<close>

theorem q_inventory_complete:
  assumes "cell_run [n, ''standard-query-tags''] c0 c" and "q_ready c0"
  shows "(c_rs c \<longrightarrow> (\<forall>us. \<exists>c'. rs_slot us c = Some c')) \<and>
         r_success (c_reader c) = int (length (c_tags c0)) - int (length (unread (c_tags c))) \<and>
         (\<not> c_rs c \<longrightarrow> (\<forall>t \<in> set (c_tags c). t_state t = T_ACKNOWLEDGED) \<or> r_qValue (c_reader c) = 15)"
proof -
  note i = q_run_inv [OF assms]
  have "r_success (c_reader c) + int (length (unread (c_tags c))) = int (length (c_tags c0))"
    using i by (simp add: q_inv_def Let_def length_view_0)
  moreover have "unread (c_tags c) = [] \<or> r_qValue (c_reader c) = 15" if "\<not> c_rs c"
    using i that length_view_0 [of "c_tags c"] by (auto simp: q_inv_def Let_def)
  ultimately show ?thesis using q_handler [OF i] by (auto simp: unread_def filter_empty_conv)
qed

text \<open>
  C29: the order of an answer and a confirmation matters. After a successful slot the
  confirmation of the tag just read and the answer of the next tag travel at the same time.
  If the confirmation arrives first, the next slot counts the answer as a success; if it
  arrives second, it sets the reply counter back to zero, and the slot counts as idle: the
  answer is lost and the frame starts again.
\<close>

theorem late_confirmation_loses_answer:
  assumes "confirms (here_addr r) (r_id r) p" and "counted_reply (here_addr r) (r_id r) a epc q"
    and "r_counter r = 0"
  shows "r_success (start_sing (reader_hear q (reader_hear p r))) = r_success r + 1 \<and>
         r_idle (start_sing (reader_hear q (reader_hear p r))) = r_idle r \<and>
         r_success (start_sing (reader_hear p (reader_hear q r))) = r_success r \<and>
         r_idle (start_sing (reader_hear p (reader_hear q r))) = r_idle r + 1"
proof -
  have p: "reader_hear p s = s\<lparr>r_counter := 0, r_tagEPC := hdr_tagEPC (rfid p), r_tagIP := ip_saddr (ip p),
     r_rng16 := hdr_rng16 (rfid p), acts := acts s @ [FreePkt]\<rparr>"
    if "here_addr s = here_addr r" "r_id s = r_id r" for s
    using assms(1) that by (simp add: confirms_def reader_hear_def reader_recv_def note_tag_def emit_def Let_def)
  have s1: "r_success (start_sing s) = r_success s + 1 \<and> r_idle (start_sing s) = r_idle s" if "r_counter s = 1" for s
    using start_sing_success_eq [OF that] by (auto simp: success_state_def)
  have s0: "r_success (start_sing s) = r_success s \<and> r_idle (start_sing s) = r_idle s + 1" if "r_counter s = 0" for s
    using that by (simp add: start_sing_cases start_sing_idle_eq Let_def send_ops)
  have f: "r_counter (reader_hear p r) = 0" "here_addr (reader_hear p r) = here_addr r" "r_id (reader_hear p r) = r_id r"
    "r_success (reader_hear p r) = r_success r" "r_idle (reader_hear p r) = r_idle r" by (simp_all add: p)
  note h = reader_hear_counted [OF assms(2)]
  have q: "r_counter (reader_hear q (reader_hear p r)) = 1" "heard (reader_hear p r) (reader_hear q (reader_hear p r))"
    using reader_hear_counted [of "reader_hear p r" a epc q] assms(2) f by simp_all
  have "r_counter (reader_hear p (reader_hear q r)) = 0" "r_success (reader_hear p (reader_hear q r)) = r_success r"
    "r_idle (reader_hear p (reader_hear q r)) = r_idle r"
    using heard_frame [OF h(4)] by (simp_all add: p)
  then show ?thesis using s1 [OF q(1)] s0 heard_frame [OF q(2)] f by simp
qed

section \<open>Examples\<close>

definition demo_q_tag :: "int \<Rightarrow> tag" where
  "demo_q_tag a = new_tag (demo_agent\<lparr>here_addr := a\<rparr>) 0 a SERVICE_STANDARD 0 0 0 0 0 0"

definition demo_q :: cell where
  "demo_q = \<lparr>c_reader = demo_reader, c_tags = [demo_q_tag 11], c_rs = False, c_col = False\<rparr>"

definition no_draw :: "int \<Rightarrow> real" where
  "no_draw a = 0"

definition demo_q_started :: cell where
  "demo_q_started = the (cell_command no_draw [''reader'', ''standard-query-tags''] demo_q)"

lemma no_draws: "unit_draws no_draw"
  by (simp add: unit_draws_def no_draw_def)

lemma demo_q_ready: "q_ready demo_q"
  by (simp add: q_ready_def demo_q_def demo_reader_defs tags_std_def demo_q_tag_def new_tag_def agent.defs tag.defs)

lemma demo_q_command: "cell_command no_draw [''reader'', ''standard-query-tags''] demo_q = Some demo_q_started"
  by (simp add: demo_q_started_def cell_command_def reader_command_def Let_def)

lemmas demo_q_run = start [OF no_draws demo_q_command]

theorem q_inventory_complete_witness:
  "c_rs demo_q_started \<and> (\<forall>us. \<exists>c'. rs_slot us demo_q_started = Some c') \<and>
   r_success (c_reader demo_q_started) = 1 - int (length (unread (c_tags demo_q_started)))"
  using q_inventory_complete [OF demo_q_run demo_q_ready] q_start(2) [OF demo_q_ready no_draws demo_q_command]
  by (simp add: demo_q_def)

text \<open>The only tag draws slot 0 and answers the first query.\<close>

lemma demo_q_counter: "r_counter (c_reader demo_q_started) = 1"
proof -
  have d: "q_draw Q 0 = 0" for Q
    using c_trunc_of_int [of 0] by (simp add: q_draw_def rng_uniform_def dadd_def dmul_def)
  have "q_counts (c_reader demo_q_started) (c_tags demo_q_started)"
    using q_start(1) [OF demo_q_ready no_draws demo_q_command] by (simp add: q_inv_def Let_def)
  moreover have "slot_count (view 0 (cores (c_tags demo_q_started))) 0 = 1"
    unfolding q_start(3) [OF demo_q_ready no_draws demo_q_command]
    by (simp add: demo_q_def cores_def view_def in_frame_def core_adjust_def slot_count_def no_draw_def d demo_q_tag_def
        new_tag_def tag_core_def agent.defs tag.defs)
  ultimately show ?thesis by (simp add: q_counts_def)
qed

theorem q_single_answer_identifies_witness:
  "\<exists>c' t. rs_slot no_draw demo_q_started = Some c' \<and> t \<in> set (c_tags demo_q_started) \<and> t_slot t = 0 \<and>
     cores (c_tags c') = map core_next (map (core_read (here_addr t)) (cores (c_tags demo_q_started))) \<and>
     r_success (c_reader c') = r_success (c_reader demo_q_started) + 1"
  using q_single_answer_identifies [OF demo_q_run demo_q_ready q_start(2) [OF demo_q_ready no_draws demo_q_command]
      demo_q_counter, of no_draw] by blast

definition demo_answer :: "int \<Rightarrow> packet" where
  "demo_answer cmd = packet_init\<lparr>ip := (ip packet_init)\<lparr>ip_daddr := 5, ip_saddr := 11\<rparr>,
     rfid := zero_rfid\<lparr>hdr_tipo := FLOW_TR, hdr_id := 9, hdr_service := SERVICE_STANDARD, hdr_command := cmd,
       hdr_tagEPC := 11\<rparr>\<rparr>"

theorem late_confirmation_loses_answer_witness:
  "r_success (start_sing (reader_hear (demo_answer RC_QUERYREPLY) (reader_hear (demo_answer TC_REPLY) demo_reader))) = 1 \<and>
   r_success (start_sing (reader_hear (demo_answer TC_REPLY) (reader_hear (demo_answer RC_QUERYREPLY) demo_reader))) = 0"
proof -
  have "confirms (here_addr demo_reader) (r_id demo_reader) (demo_answer TC_REPLY)"
    "counted_reply (here_addr demo_reader) (r_id demo_reader) 11 11 (demo_answer RC_QUERYREPLY)"
    "r_counter demo_reader = 0" "r_success demo_reader = 0"
    by (simp_all add: confirms_def counted_reply_def demo_answer_def demo_reader_defs packet_init_def)
  from late_confirmation_loses_answer [OF this(1-3)] this(4) show ?thesis by simp
qed

end
