(* ===== verification/Silence.thy ===== *)
theory Silence
  imports Inventory
begin

text \<open>
  A reader that nobody answers. The Q algorithm lowers Q in every idle slot and stops after a
  bounded number of them; the estimation phase (\<open>start_est\<close>) only starts its round again, and
  never ends.
\<close>

section \<open>The Q algorithm stops\<close>

lemma to_double_lowers:
  assumes "0 \<le> x" and "x \<le> 15"
  shows "to_double x \<le> x + 2 powi (-49)"
proof (cases "x \<le> 2 powi (-49)")
  case True
  have "to_double (2 powi (-49)) = 2 powi (-49)"
    by (rule to_double_exact [of _ 1 "-49"]) simp_all
  then show ?thesis using to_double_mono [OF assms(1) True] assms(1) by simp
next
  case False
  have "(2::real) powi (-1022) \<le> 2 powi (-49)" by (rule power_int_increasing) simp_all
  then have "2 powi (-1022) \<le> \<bar>x\<bar>" using False by linarith
  have "to_double x - x \<le> 2 powi (-53) * \<bar>x\<bar>"
    by (rule order_trans [OF abs_ge_self to_double_relerror [OF \<open>2 powi (-1022) \<le> \<bar>x\<bar>\<close>]])
  moreover have "\<bar>x\<bar> = x" using assms(1) by simp
  moreover have "2 powi (-53) * x \<le> 2 powi (-53) * 15" using assms(2) by (intro mult_left_mono) simp_all
  moreover have "2 powi (-53) * (15::real) \<le> 2 powi (-49)" by (simp add: power_int_def power_divide)
  ultimately show ?thesis by linarith
qed

text \<open>A step of at least \<open>2 / N\<close> lowers Q by at least \<open>1 / N\<close> in spite of the rounding.\<close>

definition fine_step :: "nat \<Rightarrow> bool" where
  "fine_step N \<longleftrightarrow> 0 < N \<and> N \<le> 2 ^ 49"

lemma fine_step_powi: "fine_step N \<Longrightarrow> 2 powi (-49) \<le> 1 / real N"
proof -
  assume "fine_step N"
  then have "0 < real N" "real N \<le> 2 ^ 49" using of_nat_le_iff [of N "2 ^ 49"] by (auto simp: fine_step_def)
  then have "1 / 2 ^ 49 \<le> 1 / real N" by (intro divide_left_mono) auto
  then show ?thesis by (simp add: power_int_def power_divide)
qed

lemma idle_Q_lowers:
  assumes "0 \<le> r_Qfp r" and "r_Qfp r \<le> 15" and "fine_step N" and "2 / real N \<le> r_c r"
  shows "idle_Q r \<le> max 0 (r_Qfp r - 1 / real N)"
proof (cases "r_Qfp r \<le> r_c r")
  case True
  then have "dsub (r_Qfp r) (r_c r) \<le> 0"
    using to_double_nonneg [of "r_c r - r_Qfp r"] to_double_minus [of "r_c r - r_Qfp r"] by (simp add: dsub_def)
  then show ?thesis by (simp add: idle_Q_def)
next
  case False
  have "0 \<le> r_c r" using assms(4) order_trans [of 0 "2 / real N" "r_c r"] by simp
  then have "dsub (r_Qfp r) (r_c r) \<le> r_Qfp r - r_c r + 2 powi (-49)"
    unfolding dsub_def using assms False by (intro to_double_lowers) auto
  moreover have "2 / real N = 1 / real N + 1 / real N" by simp
  ultimately have "dsub (r_Qfp r) (r_c r) \<le> r_Qfp r - 1 / real N"
    using assms(4) fine_step_powi [OF assms(3)] by linarith
  then show ?thesis unfolding idle_Q_def by (auto simp: min_def max_def)
qed

text \<open>The reader's own part of a slot that nobody answers.\<close>

definition silent_ok :: "nat \<Rightarrow> reader \<Rightarrow> bool" where
  "silent_ok N r \<longleftrightarrow> r_counter r = 0 \<and> 0 \<le> r_Qfp r \<and> r_Qfp r \<le> 15 \<and> fine_step N \<and> 2 / real N \<le> r_c r"

definition stopped :: "reader \<Rightarrow> bool" where
  "stopped r \<longleftrightarrow> \<not> list_ex sets_rs (outputs r (start_sing r)) \<and> sent (outputs r (start_sing r)) = []"

lemma silent_stop:
  assumes "r_counter r = 0" and "r_qValue r = -1"
  shows "stopped r"
  using assms by (simp add: stopped_def start_sing_cases start_sing_idle_eq Let_def outputs_def)

lemma silent_slot:
  assumes "silent_ok N r" and "r_qValue r \<noteq> -1"
  shows "silent_ok N (start_sing r)" "r_Qfp (start_sing r) \<le> max 0 (r_Qfp r - 1 / real N)"
    "r_Qfp (start_sing r) < 1 / 2 \<Longrightarrow> r_qValue (start_sing r) = -1"
proof -
  define r0 where "r0 = r\<lparr>r_slotCounter := r_slotCounter r + 1\<rparr>"
  have i: "idle_Q r0 = idle_Q r" by (simp add: r0_def idle_Q_def)
  have s: "r_counter (start_sing r) = 0" "r_Qfp (start_sing r) = idle_Q r" "r_c (start_sing r) = r_c r"
    "r_qValue (start_sing r) = (if c_round (idle_Q r) = 0 then -1 else c_round (idle_Q r))"
    using assms by (simp_all add: start_sing_cases start_sing_idle_eq silent_ok_def Let_def send_ops r0_def [symmetric] i)
      (simp_all add: r0_def)
  show "silent_ok N (start_sing r)" using assms(1) idle_Q_range [of r] by (simp add: silent_ok_def s)
  show "r_Qfp (start_sing r) \<le> max 0 (r_Qfp r - 1 / real N)"
    unfolding s(2) using assms(1) by (intro idle_Q_lowers [where N = N]) (simp_all add: silent_ok_def)
  show "r_Qfp (start_sing r) < 1 / 2 \<Longrightarrow> r_qValue (start_sing r) = -1"
    using idle_Q_range(1) [of r] unfolding s(2,4) by (auto simp: c_round_def floor_eq_iff)
qed

lemma silent_stops:
  assumes "silent_ok N r" and "r_Qfp r \<le> real k / real N"
  shows "\<exists>n \<le> k + 1. stopped ((start_sing ^^ n) r)"
  using assms
proof (induction k arbitrary: r)
  case (0 r)
  show ?case
  proof (cases "r_qValue r = -1")
    case True
    then show ?thesis using 0 silent_stop [of r] by (intro exI [of _ 0]) (simp add: silent_ok_def)
  next
    case False
    note s = silent_slot [OF 0(1) False]
    have "r_Qfp r - 1 / real N \<le> 0" using 0(2) by (simp add: order_trans [of _ 0 "1 / real N"])
    then have "r_Qfp (start_sing r) \<le> 0" using s(2) by simp
    then have "r_qValue (start_sing r) = -1" by (intro s(3)) linarith
    then show ?thesis using s(1) silent_stop [of "start_sing r"] by (intro exI [of _ 1]) (simp add: silent_ok_def)
  qed
next
  case (Suc k r)
  show ?case
  proof (cases "r_qValue r = -1")
    case True
    then show ?thesis using Suc.prems silent_stop [of r] by (intro exI [of _ 0]) (simp add: silent_ok_def)
  next
    case False
    note s = silent_slot [OF Suc.prems(1) False]
    have "real (Suc k) / real N = real k / real N + 1 / real N" by (simp add: add_divide_distrib)
    moreover have "0 \<le> real k / real N" by simp
    ultimately have "r_Qfp (start_sing r) \<le> real k / real N" using Suc.prems(2) s(2) by linarith
    then obtain n where n: "n \<le> k + 1" "stopped ((start_sing ^^ n) (start_sing r))" using Suc.IH s(1) by blast
    then show ?thesis by (intro exI [of _ "Suc n"]) (simp add: funpow_swap1)
  qed
qed

text \<open>
  C24: a Q-algorithm reader that nobody answers stops. At any point of a session whose Q
  parameters are in the range of the protocol and whose step \<open>c_\<close> is at least \<open>2 / N\<close> for
  some \<open>N\<close> up to \<open>2 ^ 49\<close>, when no reply is outstanding and none comes any more, then after at
  most \<open>15 N + 1\<close> slots the expiration of the slot timer sends nothing and does not set the
  timer again, whatever the roundings of the floating-point Q do: 106 slots for the default
  step of 0.3.
\<close>

theorem q_silent_reader_stops:
  assumes "sing_session r0 r" and "0 \<le> r_Qfp r0" and "r_Qfp r0 \<le> 15" and "-1 \<le> r_qValue r0"
    and "r_qValue r0 \<le> 15" and "0 \<le> r_counter r0" and "r_counter r = 0"
    and "0 < N" and "N \<le> 2 ^ 49" and "2 / real N \<le> r_c r"
  shows "\<exists>n \<le> 15 * N + 1. stopped ((start_sing ^^ n) r)"
proof -
  have "sing_inv r" using sing_session_inv [OF assms(1-6)] by simp
  then have "silent_ok N r" "r_Qfp r \<le> real (15 * N) / real N"
    using assms(7-10) by (simp_all add: sing_inv_def silent_ok_def fine_step_def)
  from silent_stops [OF this] show ?thesis .
qed

section \<open>The estimation phase does not\<close>

primrec rs_expires :: "nat \<Rightarrow> reader \<Rightarrow> reader option" where
  "rs_expires 0 r = Some r"
| "rs_expires (Suc n) r = Option.bind (rs_expire r) (rs_expires n)"

definition est_silent :: "reader \<Rightarrow> bool" where
  "est_silent r \<longleftrightarrow> (r_operation r = 1 \<or> r_operation r = 3) \<and> r_counter r = 0 \<and> r_rebuttal r = 0 \<and>
     r_collisions r = 0 \<and> r_idle r = r_estCounter r - 1 \<and> 1 \<le> r_estCounter r \<and> r_estCounter r \<le> r_estConstant r"

lemma est_silent_slot:
  assumes "est_silent r"
  obtains r' where "rs_expire r = Some r'" "est_silent r'" "list_ex sets_rs (outputs r r')"
proof -
  have e: "rs_expire r = Some (start_est r)" using assms by (auto simp: est_silent_def rs_expire_def)
  have "est_silent (start_est r) \<and> list_ex sets_rs (outputs r (start_est r))"
    using assms
    by (cases "r_estCounter r = r_estConstant r")
      (auto simp: est_silent_def start_est_def est_count_slot_def restart_est_def reset_est_def update_Q_def Let_def
        send_ops outputs_def)
  with e that show ?thesis by blast
qed

text \<open>
  C25: an estimation that nobody answers never ends. After \<open>standard-with-estimation\<close> or
  \<open>estimation-dfsa-query\<close>, if no tag ever replies, then after any number of slots the slot
  timer's handler runs another one and sets the timer again: the reader polls forever, where
  the Q algorithm stops.
\<close>

theorem silent_estimation_never_ends:
  assumes "reader_command [n, c] r0 = Some r" and "c = ''standard-with-estimation'' \<or> c = ''estimation-dfsa-query''"
    and "r_counter r0 = 0" and "1 \<le> r_estConstant r0"
  shows "\<exists>r1 r2. rs_expires k r = Some r1 \<and> rs_expire r1 = Some r2 \<and> list_ex sets_rs (outputs r1 r2)"
proof -
  have "est_silent r"
    using assms by (auto simp: reader_command_def est_silent_def Let_def send_ops)
  then have "\<exists>r1. rs_expires k r = Some r1 \<and> est_silent r1"
  proof (induction k arbitrary: r)
    case (Suc k r)
    then show ?case by (auto elim!: est_silent_slot [of r])
  qed simp
  then show ?thesis using est_silent_slot by metis
qed

section \<open>Examples\<close>

definition demo_sing :: reader where
  "demo_sing = the (reader_command [''reader'', ''standard-query-tags''] demo_reader)"

lemma demo_sing_command: "reader_command [''reader'', ''standard-query-tags''] demo_reader = Some demo_sing"
  by (simp add: demo_sing_def reader_command_def Let_def)

lemma demo_sing_simps: "r_counter demo_sing = 0" "r_c demo_sing = 1 / 2"
proof -
  have "r_counter r = r_counter r0 \<and> r_c r = r_c r0"
    if "reader_command [n, ''standard-query-tags''] r0 = Some r" for n r0 r
    using that by (auto simp: reader_command_def Let_def send_ops)
  from this [OF demo_sing_command] show "r_counter demo_sing = 0" "r_c demo_sing = 1 / 2"
    by (simp_all add: demo_reader_defs)
qed

theorem q_silent_reader_stops_witness: "\<exists>n \<le> 61. stopped ((start_sing ^^ n) demo_sing)"
proof -
  have "\<exists>n \<le> 15 * 4 + 1. stopped ((start_sing ^^ n) demo_sing)"
  proof (rule q_silent_reader_stops [of demo_reader])
    show "sing_session demo_reader demo_sing" by (rule begin_session [OF demo_sing_command])
  qed (simp_all add: demo_sing_simps demo_reader_defs)
  then show ?thesis by simp
qed

theorem silent_estimation_never_ends_witness:
  "\<exists>r. reader_command [''reader'', ''estimation-dfsa-query''] demo_reader = Some r \<and>
     (\<forall>k. \<exists>r1 r2. rs_expires k r = Some r1 \<and> rs_expire r1 = Some r2 \<and> list_ex sets_rs (outputs r1 r2))"
proof -
  obtain r where r: "reader_command [''reader'', ''estimation-dfsa-query''] demo_reader = Some r"
    by (simp add: reader_command_def Let_def)
  show ?thesis
    using r silent_estimation_never_ends [OF r] by (simp add: demo_reader_defs)
qed

end
