(* ===== verification/EventQueue.thy ===== *)
theory EventQueue
  imports Prelude
begin

text \<open>
  Events (common/scheduler.h) and the contract between \<open>Scheduler\<close> and its event queues. An
  event is identified by its address; while it is queued its \<open>uid_\<close> is positive, and the
  scheduler hands out increasing identifiers, so ordering events by time and then by
  identifier is ordering them by time and, at equal times, by arrival.

  The contract is the locale \<open>event_queue\<close>; the theories ListSched, HeapSched, SplaySched and
  CalendarSched interpret it on the schedulers of the simulator (the fifth, in MapSched, cannot
  meet it: its \<open>deque\<close> is undefined), and the theory Scheduler builds the simulation loop on it.

  Times are exact real numbers in these theories.
\<close>

section \<open>Events\<close>

datatype event = Event (ev_id: nat) (ev_time: real) (ev_uid: int) (ev_handler: nat)

instantiation event :: linorder
begin

definition less_eq_event :: "event \<Rightarrow> event \<Rightarrow> bool" where
  "less_eq_event a b \<longleftrightarrow> ev_time a < ev_time b \<or> ev_time a = ev_time b \<and>
     (ev_uid a < ev_uid b \<or> ev_uid a = ev_uid b \<and>
     (ev_id a < ev_id b \<or> ev_id a = ev_id b \<and> ev_handler a \<le> ev_handler b))"

definition less_event :: "event \<Rightarrow> event \<Rightarrow> bool" where
  "less_event a b \<longleftrightarrow> a \<le> b \<and> \<not> b \<le> (a::event)"

instance
  by standard (auto simp: less_eq_event_def less_event_def intro: event.expand)

end

lemma less_event_iff:
  "a < b \<longleftrightarrow> ev_time a < ev_time b \<or> ev_time a = ev_time b \<and>
     (ev_uid a < ev_uid b \<or> ev_uid a = ev_uid b \<and>
     (ev_id a < ev_id b \<or> ev_id a = ev_id b \<and> ev_handler a < ev_handler b))"
  by (auto simp: less_eq_event_def less_event_def)

lemma event_le_time: "a \<le> b \<Longrightarrow> ev_time a \<le> ev_time (b :: event)"
  by (auto simp: less_eq_event_def)

lemma event_less_time: "ev_time a < ev_time b \<Longrightarrow> a < (b :: event)"
  by (simp add: less_event_iff)

lemma event_less_uid: "ev_time a \<le> ev_time b \<Longrightarrow> ev_uid a < ev_uid b \<Longrightarrow> a < (b :: event)"
  by (auto simp: less_event_iff)

text \<open>\<open>e->uid_ = - e->uid_\<close>, done to an event that is cancelled or dispatched.\<close>

definition neg_uid :: "event \<Rightarrow> event" where
  "neg_uid e = Event (ev_id e) (ev_time e) (- ev_uid e) (ev_handler e)"

lemma neg_uid_simps [simp]:
  "ev_id (neg_uid e) = ev_id e" "ev_time (neg_uid e) = ev_time e" "ev_uid (neg_uid e) = - ev_uid e"
  "ev_handler (neg_uid e) = ev_handler e"
  by (simp_all add: neg_uid_def)

section \<open>What is in a queue\<close>

text \<open>Distinct events, every identifier positive and below the next one to be given out.\<close>

definition good_events :: "int \<Rightarrow> event set \<Rightarrow> bool" where
  "good_events u S \<longleftrightarrow> finite S \<and> inj_on ev_uid S \<and> inj_on ev_id S \<and>
     (\<forall>e \<in> S. 0 < ev_uid e \<and> ev_uid e < u \<and> 0 \<le> ev_time e)"

definition fresh_event :: "int \<Rightarrow> event \<Rightarrow> event set \<Rightarrow> bool" where
  "fresh_event u e S \<longleftrightarrow> 0 < u \<and> u \<le> ev_uid e \<and> 0 \<le> ev_time e \<and> ev_id e \<notin> ev_id ` S"

lemma good_events_empty [simp]: "good_events u {}"
  by (simp add: good_events_def)

lemma good_events_insert:
  "good_events u S \<Longrightarrow> fresh_event u e S \<Longrightarrow> good_events (ev_uid e + 1) (insert e S)"
  by (fastforce simp: good_events_def fresh_event_def)

lemma good_events_subset: "good_events u S \<Longrightarrow> T \<subseteq> S \<Longrightarrow> good_events u T"
  unfolding good_events_def by (meson finite_subset inj_on_subset subsetD)

lemma good_events_mono: "good_events u S \<Longrightarrow> u \<le> v \<Longrightarrow> good_events v S"
  by (fastforce simp: good_events_def)

lemma good_events_eqI:
  "good_events u S \<Longrightarrow> a \<in> S \<Longrightarrow> b \<in> S \<Longrightarrow> ev_id a = ev_id b \<Longrightarrow> a = b"
  "good_events u S \<Longrightarrow> a \<in> S \<Longrightarrow> b \<in> S \<Longrightarrow> ev_uid a = ev_uid b \<Longrightarrow> a = b"
  by (auto simp: good_events_def dest: inj_onD)

lemma fresh_event_notin: "fresh_event u e S \<Longrightarrow> e \<notin> S"
  by (auto simp: fresh_event_def)

text \<open>A fresh event comes after every queued event that is not later.\<close>

lemma fresh_event_less:
  "good_events u S \<Longrightarrow> fresh_event u e S \<Longrightarrow> x \<in> S \<Longrightarrow> ev_time x \<le> ev_time e \<Longrightarrow> x < e"
  by (rule event_less_uid) (auto simp: good_events_def fresh_event_def)

lemma fresh_event_order:
  assumes "good_events u S" "fresh_event u e S" "x \<in> S"
  shows "x < e \<longleftrightarrow> ev_time x \<le> ev_time e" and "e < x \<longleftrightarrow> ev_time e < ev_time x"
  using fresh_event_less [OF assms] assms(3) by (auto simp: less_event_iff not_less)

lemma Min_event_eqI: "finite S \<Longrightarrow> a \<in> S \<Longrightarrow> (\<And>x. x \<in> S \<Longrightarrow> a \<le> x) \<Longrightarrow> Min S = (a :: event)"
  by (rule Min_eqI) auto

lemma find_uid:
  "inj_on ev_uid (set xs) \<Longrightarrow> e \<in> set xs \<Longrightarrow> find (\<lambda>x. ev_uid x = ev_uid e) xs = Some e"
  by (induction xs) (auto dest: inj_onD)

section \<open>The contract\<close>

text \<open>
  \<open>inv u q\<close> is the representation invariant of a queue to which only events with identifiers
  below \<open>u\<close> were given. Insertion is promised for identifiers below the limit \<open>lim\<close>, which only
  the heap needs. Cancelling returns the event with its identifier negated; its value \<open>None\<close> is
  the abort of the program.
\<close>

locale event_queue =
  fixes qempty :: 'q
    and qinsert :: "event \<Rightarrow> 'q \<Rightarrow> 'q"
    and qdeque :: "'q \<Rightarrow> event option \<times> 'q"
    and qcancel :: "event \<Rightarrow> 'q \<Rightarrow> (event \<times> 'q) option"
    and qlookup :: "int \<Rightarrow> 'q \<Rightarrow> event option"
    and elems :: "'q \<Rightarrow> event set"
    and inv :: "int \<Rightarrow> 'q \<Rightarrow> bool"
    and lim :: int
  assumes empty_inv: "0 < u \<Longrightarrow> inv u qempty" and elems_empty: "elems qempty = {}"
    and inv_good: "inv u q \<Longrightarrow> good_events u (elems q)"
    and insert_inv: "inv u q \<Longrightarrow> fresh_event u e (elems q) \<Longrightarrow> ev_uid e < lim \<Longrightarrow>
          inv (ev_uid e + 1) (qinsert e q)"
    and elems_insert: "inv u q \<Longrightarrow> fresh_event u e (elems q) \<Longrightarrow> ev_uid e < lim \<Longrightarrow>
          elems (qinsert e q) = insert e (elems q)"
    and deque_none: "inv u q \<Longrightarrow> elems q = {} \<Longrightarrow> qdeque q = (None, q)"
    and deque_some: "inv u q \<Longrightarrow> elems q \<noteq> {} \<Longrightarrow>
          \<exists>q'. qdeque q = (Some (Min (elems q)), q') \<and> inv u q' \<and> elems q' = elems q - {Min (elems q)}"
    and cancel_queued: "inv u q \<Longrightarrow> e \<in> elems q \<Longrightarrow>
          \<exists>q'. qcancel e q = Some (neg_uid e, q') \<and> inv u q' \<and> elems q' = elems q - {e}"
    and cancel_idle: "inv u q \<Longrightarrow> ev_uid e \<le> 0 \<Longrightarrow> qcancel e q = Some (e, q)"
    and lookup_queued: "inv u q \<Longrightarrow> e \<in> elems q \<Longrightarrow> qlookup (ev_uid e) q = Some e"
    and lookup_none: "inv u q \<Longrightarrow> \<forall>e \<in> elems q. ev_uid e \<noteq> v \<Longrightarrow> qlookup v q = None"
begin

text \<open>Draining a queue.\<close>

lemma deque_sorted:
  assumes "inv u q"
  shows "fst (qdeque q) = (if elems q = {} then None else Some (Min (elems q))) \<and>
    elems (snd (qdeque q)) = elems q - set_option (fst (qdeque q)) \<and> inv u (snd (qdeque q))"
proof (cases "elems q = {}")
  case True
  then show ?thesis using deque_none [OF assms True] assms by simp
next
  case False
  obtain q' where "qdeque q = (Some (Min (elems q)), q')" "inv u q'" "elems q' = elems q - {Min (elems q)}"
    using deque_some [OF assms False] by blast
  with False show ?thesis by simp
qed

end

text \<open>Queues whose \<open>head\<close> also works when they are empty.\<close>

locale event_queue_head = event_queue +
  fixes qhead :: "'a \<Rightarrow> event option \<times> 'a"
  assumes head_none: "inv u q \<Longrightarrow> elems q = {} \<Longrightarrow> qhead q = (None, q)"
    and head_some: "inv u q \<Longrightarrow> elems q \<noteq> {} \<Longrightarrow>
          \<exists>q'. qhead q = (Some (Min (elems q)), q') \<and> inv u q' \<and> elems q' = elems q"
begin

text \<open>\<open>head\<close> shows what \<open>deque\<close> would take.\<close>

lemma head_deque:
  assumes "inv u q"
  shows "fst (qhead q) = fst (qdeque q) \<and> elems (snd (qhead q)) = elems q \<and> inv u (snd (qhead q))"
proof (cases "elems q = {}")
  case True
  then show ?thesis using head_none [OF assms True] deque_none [OF assms True] assms by simp
next
  case False
  obtain q' where "qhead q = (Some (Min (elems q)), q')" "inv u q'" "elems q' = elems q"
    using head_some [OF assms False] by blast
  with False deque_sorted [OF assms] show ?thesis by simp
qed

end

end
