(* ===== verification/ListSched.thy ===== *)
theory ListSched
  imports EventQueue
begin

text \<open>
  \<open>ListScheduler\<close> (common/scheduler.cc): one linked list in time order. The list of events
  stands for the chain of \<open>next_\<close> pointers from \<open>queue_\<close>; pointers are compared by the
  event's address.
\<close>

fun list_insert :: "event \<Rightarrow> event list \<Rightarrow> event list" where
  "list_insert e [] = [e]"
| "list_insert e (p # ps) = (if ev_time e < ev_time p then e # p # ps else p # list_insert e ps)"

text \<open>The search of \<open>cancel\<close>; falling off the end is the abort.\<close>

fun list_unlink :: "nat \<Rightarrow> event list \<Rightarrow> event list option" where
  "list_unlink a [] = None"
| "list_unlink a (p # ps) = (if ev_id p = a then Some ps else map_option ((#) p) (list_unlink a ps))"

definition list_cancel :: "event \<Rightarrow> event list \<Rightarrow> (event \<times> event list) option" where
  "list_cancel e q =
     (if ev_uid e \<le> 0 then Some (e, q)
      else map_option (\<lambda>q'. (neg_uid e, q')) (list_unlink (ev_id e) q))"

fun list_lookup :: "int \<Rightarrow> event list \<Rightarrow> event option" where
  "list_lookup u [] = None"
| "list_lookup u (p # ps) = (if ev_uid p = u then Some p else list_lookup u ps)"

definition list_head :: "event list \<Rightarrow> event option \<times> event list" where
  "list_head q = (case q of [] \<Rightarrow> None | e # _ \<Rightarrow> Some e, q)"

definition list_deque :: "event list \<Rightarrow> event option \<times> event list" where
  "list_deque q = (case q of [] \<Rightarrow> (None, []) | e # q' \<Rightarrow> (Some e, q'))"

definition list_inv :: "int \<Rightarrow> event list \<Rightarrow> bool" where
  "list_inv u q \<longleftrightarrow> sorted_wrt (<) q \<and> good_events u (set q)"

section \<open>Strictly sorted lists of events\<close>

lemma set_list_insert [simp]: "set (list_insert e q) = insert e (set q)"
  by (induction e q rule: list_insert.induct) auto

lemma list_insert_sorted:
  assumes "sorted_wrt (<) q" and "\<And>x. x \<in> set q \<Longrightarrow> ev_time x \<le> ev_time e \<Longrightarrow> x < e"
  shows "sorted_wrt (<) (list_insert e q)"
  using assms
proof (induction q)
  case (Cons p ps)
  have "e < x" if "ev_time e < ev_time p" "x \<in> set ps" for x
    using that Cons.prems(1) event_less_time less_trans by (metis sorted_wrt.simps(2))
  then show ?case using Cons by (auto simp: event_less_time)
qed simp

lemma sorted_wrt_distinct: "sorted_wrt (<) q \<Longrightarrow> distinct (q :: event list)"
  by (induction q) auto

lemma Min_sorted_Cons: "sorted_wrt (<) (p # ps) \<Longrightarrow> Min (set (p # ps)) = (p :: event)"
  by (intro Min_event_eqI) auto

lemma list_unlink_mem:
  assumes "inj_on ev_id (set q)" and "e \<in> set q"
  shows "list_unlink (ev_id e) q = Some (remove1 e q)"
  using assms
proof (induction q)
  case (Cons p ps)
  have "ev_id p = ev_id e \<longleftrightarrow> p = e" using Cons.prems by (auto dest: inj_onD)
  then show ?case using Cons by (auto simp: inj_on_def)
qed simp

lemma list_lookup_mem:
  assumes "inj_on ev_uid (set q)" and "e \<in> set q"
  shows "list_lookup (ev_uid e) q = Some e"
  using assms
proof (induction q)
  case (Cons p ps)
  have "ev_uid p = ev_uid e \<longleftrightarrow> p = e" using Cons.prems by (auto dest: inj_onD)
  then show ?case using Cons by (auto simp: inj_on_def)
qed simp

lemma list_lookup_none: "\<forall>e \<in> set q. ev_uid e \<noteq> v \<Longrightarrow> list_lookup v q = None"
  by (induction q) auto

lemma sorted_wrt_remove1: "sorted_wrt P q \<Longrightarrow> sorted_wrt P (remove1 e q)"
  by (induction q) (auto dest: notin_set_remove1 in_set_remove1 set_remove1_subset [THEN subsetD])

section \<open>The contract\<close>

lemma list_insert_inv:
  assumes "list_inv u q" and "fresh_event u e (set q)"
  shows "list_inv (ev_uid e + 1) (list_insert e q)"
  unfolding list_inv_def
proof
  have g: "good_events u (set q)" and s: "sorted_wrt (<) q" using assms by (auto simp: list_inv_def)
  show "sorted_wrt (<) (list_insert e q)"
    by (rule list_insert_sorted [OF s fresh_event_less [OF g assms(2)]])
  show "good_events (ev_uid e + 1) (set (list_insert e q))"
    using good_events_insert [OF g assms(2)] by simp
qed

lemma list_deque_some:
  assumes "list_inv u q" and "set q \<noteq> {}"
  shows "\<exists>q'. list_deque q = (Some (Min (set q)), q') \<and> list_inv u q' \<and> set q' = set q - {Min (set q)}"
proof -
  obtain p ps where q: "q = p # ps" using assms(2) by (cases q) auto
  have s: "sorted_wrt (<) (p # ps)" and g: "good_events u (set q)" using assms(1) q by (auto simp: list_inv_def)
  have "list_inv u ps" using good_events_subset [OF g] s q by (auto simp: list_inv_def)
  moreover have "set ps = set q - {p}" using s q by auto
  ultimately show ?thesis using Min_sorted_Cons [OF s] q by (simp add: list_deque_def)
qed

lemma list_cancel_queued:
  assumes "list_inv u q" and "e \<in> set q"
  shows "\<exists>q'. list_cancel e q = Some (neg_uid e, q') \<and> list_inv u q' \<and> set q' = set q - {e}"
proof -
  have s: "sorted_wrt (<) q" and g: "good_events u (set q)" using assms(1) by (auto simp: list_inv_def)
  have u: "list_unlink (ev_id e) q = Some (remove1 e q)" "0 < ev_uid e"
    using g assms(2) by (auto simp: good_events_def list_unlink_mem)
  have "set (remove1 e q) = set q - {e}" using sorted_wrt_distinct [OF s] by simp
  moreover from this have "list_inv u (remove1 e q)"
    using good_events_subset [OF g] sorted_wrt_remove1 [OF s] by (auto simp: list_inv_def)
  ultimately show ?thesis using u by (simp add: list_cancel_def)
qed

interpretation list_q: event_queue_head "[]" list_insert list_deque list_cancel list_lookup set list_inv lim list_head
  for lim
proof (unfold_locales, goal_cases)
  case (3 u q) then show ?case by (simp add: list_inv_def)
next
  case (4 u q e) then show ?case by (simp add: list_insert_inv)
next
  case (7 u q) then show ?case by (rule list_deque_some)
next
  case (8 u q e) then show ?case by (rule list_cancel_queued)
next
  case (10 u q e) then show ?case by (simp add: list_lookup_mem list_inv_def good_events_def)
next
  case (13 u q)
  then obtain p ps where q: "q = p # ps" by (cases q) auto
  with 13 Min_sorted_Cons [of p ps] show ?case by (simp add: list_inv_def list_head_def)
qed (auto simp: list_inv_def list_deque_def list_cancel_def list_head_def list_lookup_none)

end
