(* ===== verification/MapSched.thy ===== *)
theory MapSched
  imports ListSched
begin

text \<open>
  \<open>MapScheduler\<close> (common/scheduler-map.cc): a \<open>std::set\<close> of event pointers ordered by
  \<open>event_less_adapter\<close>. The set is the list of its elements in iteration order; elements that
  the adapter does not order are the same for it. \<open>deque\<close> reads the iterator it has just
  erased, which is undefined; so this scheduler has no defined simulation, and what is shown is
  that its other operations do what those of the linear list do.
\<close>

definition event_less_adapter :: "event \<Rightarrow> event \<Rightarrow> bool" where
  "event_less_adapter a b \<longleftrightarrow> ev_time a < ev_time b \<or> (ev_time a = ev_time b \<and> ev_uid a < ev_uid b)"

fun map_insert :: "event \<Rightarrow> event list \<Rightarrow> event list" where
  "map_insert e [] = [e]"
| "map_insert e (p # ps) =
     (if event_less_adapter e p then e # p # ps
      else if event_less_adapter p e then p # map_insert e ps
      else p # ps)"

definition map_same :: "event \<Rightarrow> event \<Rightarrow> bool" where
  "map_same a b \<longleftrightarrow> \<not> event_less_adapter a b \<and> \<not> event_less_adapter b a"

definition map_cancel :: "event \<Rightarrow> event list \<Rightarrow> (event \<times> event list) option" where
  "map_cancel e q =
     (if \<exists>x \<in> set q. map_same e x then Some (neg_uid e, filter (\<lambda>x. \<not> map_same e x) q)
      else Some (e, q))"

definition map_lookup :: "int \<Rightarrow> event list \<Rightarrow> event option" where
  "map_lookup u q = find (\<lambda>e. ev_uid e = u) q"

text \<open>\<open>deque\<close> erases the first element and then reads through its iterator: \<open>None\<close> is that
  undefined access.\<close>

definition map_deque :: "event list \<Rightarrow> (event option \<times> event list) option" where
  "map_deque q = (case q of [] \<Rightarrow> Some (None, []) | e # q' \<Rightarrow> None)"

text \<open>\<open>head\<close> dereferences \<open>begin()\<close> without a test: \<open>None\<close> is a read past the end.\<close>

definition map_head :: "event list \<Rightarrow> event option" where
  "map_head q = (case q of [] \<Rightarrow> None | e # _ \<Rightarrow> Some e)"

section \<open>Agreement with the list scheduler\<close>

lemma adapter_less: "event_less_adapter a b \<Longrightarrow> a < b"
  by (auto simp: event_less_adapter_def less_event_iff)

lemma map_same_iff: "map_same a b \<longleftrightarrow> ev_time a = ev_time b \<and> ev_uid a = ev_uid b"
  by (auto simp: map_same_def event_less_adapter_def)

lemma map_insert_fresh:
  assumes "\<And>x. x \<in> set q \<Longrightarrow> ev_uid x < ev_uid e"
  shows "map_insert e q = list_insert e q"
  using assms by (induction q) (force simp: event_less_adapter_def)+

lemma map_lookup_eq: "map_lookup u q = list_lookup u q"
  unfolding map_lookup_def by (induction q) auto

lemma map_cancel_queued:
  assumes "list_inv u q" and "e \<in> set q"
  shows "map_cancel e q = Some (neg_uid e, remove1 e q)"
proof -
  have g: "good_events u (set q)" and s: "sorted_wrt (<) q" using assms(1) by (auto simp: list_inv_def)
  have "map_same e x \<longleftrightarrow> x = e" if "x \<in> set q" for x
    using good_events_eqI(2) [OF g that assms(2)] by (auto simp: map_same_iff)
  moreover have "filter (\<lambda>x. x \<noteq> e) q = remove1 e q"
    using sorted_wrt_distinct [OF s] by (simp add: distinct_remove1_removeAll removeAll_filter_not_eq eq_commute)
  ultimately show ?thesis using assms(2) by (auto simp: map_cancel_def cong: filter_cong)
qed

text \<open>On the queues that the simulator builds, inserting a new event, cancelling, looking up and reading the
  head are the operations of the list scheduler.\<close>

lemma map_operations_agree:
  assumes "list_inv u q"
  shows "fresh_event u e (set q) \<Longrightarrow> map_insert e q = list_insert e q"
    and "e \<in> set q \<Longrightarrow> map_cancel e q = list_cancel e q"
    and "map_lookup v q = list_lookup v q"
    and "map_head q = (if q = [] then None else Some (hd q))"
proof -
  show "map_insert e q = list_insert e q" if "fresh_event u e (set q)"
    using assms that by (intro map_insert_fresh) (auto simp: list_inv_def good_events_def fresh_event_def)
  show "map_cancel e q = list_cancel e q" if "e \<in> set q"
    using list_cancel_queued [OF assms that] list_unlink_mem [of q e] map_cancel_queued [OF assms that] that assms
    by (auto simp: list_cancel_def list_inv_def good_events_def split: if_splits)
qed (simp_all add: map_lookup_eq map_head_def split: list.split)

end
