(* ===== verification/SplaySched.thy ===== *)
theory SplaySched
  imports ListSched "HOL-Library.Tree"
begin

text \<open>
  \<open>SplayScheduler\<close> (common/splay-scheduler.cc): a splay tree in which \<open>prev_\<close> and \<open>next_\<close> are
  the left and right children. Top-down splaying keeps two partial trees whose open ends are
  the pointers \<open>l\<close> and \<open>r\<close>; here they are lists of the linked nodes, the open end first, each
  with its finished subtree.
\<close>

record splay =
  sp_root :: "event tree"
  sp_qsize :: int

section \<open>Operations\<close>

fun close_left :: "(event tree \<times> event) list \<Rightarrow> event tree \<Rightarrow> event tree" where
  "close_left [] t = t"
| "close_left ((s, v) # L) t = close_left L (Node s v t)"

fun close_right :: "(event \<times> event tree) list \<Rightarrow> event tree \<Rightarrow> event tree" where
  "close_right [] t = t"
| "close_right ((v, s) # R) t = close_right R (Node t v s)"

text \<open>The loop of \<open>insert\<close>: rotate when the path turns the same way twice, then link the root
  of the remaining tree to the partial tree it belongs to.\<close>

function (sequential) splay_split ::
  "real \<Rightarrow> event tree \<Rightarrow> (event tree \<times> event) list \<Rightarrow> (event \<times> event tree) list \<Rightarrow> event tree \<times> event tree" where
  "splay_split tm Leaf L R = (close_left L Leaf, close_right R Leaf)"
| "splay_split tm (Node tlft tv trgt) L R =
     (if tm < ev_time tv then
        (case tlft of
           Leaf \<Rightarrow> (close_left L Leaf, close_right R (Node Leaf tv trgt))
         | Node xl xv xr \<Rightarrow>
             if tm < ev_time xv then splay_split tm xl L ((xv, Node xr tv trgt) # R)
             else splay_split tm (Node xl xv xr) L ((tv, trgt) # R))
      else
        (case trgt of
           Leaf \<Rightarrow> (close_left L (Node tlft tv Leaf), close_right R Leaf)
         | Node xl xv xr \<Rightarrow>
             if tm \<ge> ev_time xv then splay_split tm xr ((Node tlft tv xl, xv) # L) R
             else splay_split tm (Node xl xv xr) ((tlft, tv) # L) R))"
  by pat_completeness auto
termination
  by (relation "measure (\<lambda>(tm, t, L, R). size t)") auto

definition splay_insert :: "event \<Rightarrow> splay \<Rightarrow> splay" where
  "splay_insert n q =
     (let q = q\<lparr>sp_qsize := sp_qsize q + 1\<rparr>
      in if sp_root q = Leaf then q\<lparr>sp_root := Node Leaf n Leaf\<rparr>
         else (let (l, r) = splay_split (ev_time n) (sp_root q) [] []
               in q\<lparr>sp_root := Node l n r\<rparr>))"

fun splay_leftmost :: "event tree \<Rightarrow> event option" where
  "splay_leftmost Leaf = None"
| "splay_leftmost (Node Leaf v r) = Some v"
| "splay_leftmost (Node l v r) = splay_leftmost l"

definition splay_head :: "splay \<Rightarrow> event option \<times> splay" where
  "splay_head q = (splay_leftmost (sp_root q), q)"

text \<open>\<open>deque\<close>: walk down the left spine two nodes at a time, rotating each pair.\<close>

function (sequential) splay_pop :: "event tree \<Rightarrow> (event \<times> event tree) option" where
  "splay_pop Leaf = None"
| "splay_pop (Node Leaf tv tr) = Some (tv, tr)"
| "splay_pop (Node (Node Leaf lv lr) tv tr) = Some (lv, Node lr tv tr)"
| "splay_pop (Node (Node (Node Leaf llv llr) lv lr) tv tr) = Some (llv, Node (Node llr lv lr) tv tr)"
| "splay_pop (Node (Node (Node lll llv llr) lv lr) tv tr) =
     map_option (\<lambda>(m, s). (m, Node s tv tr)) (splay_pop (Node lll llv (Node llr lv lr)))"
  by pat_completeness auto
termination
  by (relation "measure size") auto

definition splay_deque :: "splay \<Rightarrow> event option \<times> splay" where
  "splay_deque q =
     (case splay_pop (sp_root q) of
        None \<Rightarrow> (None, q)
      | Some (e, t) \<Rightarrow> (Some e, q\<lparr>sp_qsize := sp_qsize q - 1, sp_root := t\<rparr>))"

text \<open>\<open>cancel\<close>: search by time and identifier, then put the successor in the event's place.\<close>

fun splay_take_min :: "event tree \<Rightarrow> event \<Rightarrow> event tree \<Rightarrow> event \<times> event tree" where
  "splay_take_min Leaf v r = (v, r)"
| "splay_take_min (Node l' v' r') v r =
     (let (m, s) = splay_take_min l' v' r' in (m, Node s v r))"

fun splay_join :: "event tree \<Rightarrow> event tree \<Rightarrow> event tree" where
  "splay_join l Leaf = l"
| "splay_join Leaf r = r"
| "splay_join l (Node pl p pr) = (let (m, s) = splay_take_min pl p pr in Node l m s)"

fun splay_unlink :: "event \<Rightarrow> event tree \<Rightarrow> event tree option" where
  "splay_unlink e Leaf = None"
| "splay_unlink e (Node l v r) =
     (if ev_id v = ev_id e then Some (splay_join l r)
      else if ev_time e > ev_time v \<or> ev_time e = ev_time v \<and> ev_uid e > ev_uid v
        then map_option (Node l v) (splay_unlink e r)
        else map_option (\<lambda>l'. Node l' v r) (splay_unlink e l))"

definition splay_cancel :: "event \<Rightarrow> splay \<Rightarrow> (event \<times> splay) option" where
  "splay_cancel e q =
     (if ev_uid e \<le> 0 then Some (e, q)
      else map_option (\<lambda>t. (neg_uid e, q\<lparr>sp_root := t, sp_qsize := sp_qsize q - 1\<rparr>))
             (splay_unlink e (sp_root q)))"

fun uid_lookup :: "int \<Rightarrow> event tree \<Rightarrow> event option" where
  "uid_lookup u Leaf = None"
| "uid_lookup u (Node l v r) =
     (if ev_uid v = u then Some v
      else case uid_lookup u l of Some res \<Rightarrow> Some res | None \<Rightarrow> uid_lookup u r)"

definition splay_lookup :: "int \<Rightarrow> splay \<Rightarrow> event option" where
  "splay_lookup u q = uid_lookup u (sp_root q)"

text \<open>\<open>validate\<close>: the number of nodes, or a failed assertion.\<close>

fun splay_validate :: "event tree \<Rightarrow> int option" where
  "splay_validate Leaf = Some 0"
| "splay_validate (Node l v r) =
     (if (l = Leaf \<or> ev_time v \<ge> ev_time (value l)) \<and> (r = Leaf \<or> ev_time v \<le> ev_time (value r)) then
        (case (splay_validate l, splay_validate r) of
           (Some m, Some n) \<Rightarrow> Some (1 + m + n) | _ \<Rightarrow> None)
      else None)"

definition splay_inv :: "int \<Rightarrow> splay \<Rightarrow> bool" where
  "splay_inv u q \<longleftrightarrow> sorted_wrt (<) (inorder (sp_root q)) \<and> good_events u (set_tree (sp_root q)) \<and>
     sp_qsize q = int (size (sp_root q))"

definition splay_elems :: "splay \<Rightarrow> event set" where
  "splay_elems q = set_tree (sp_root q)"

definition splay_empty :: splay where
  "splay_empty = \<lparr>sp_root = Leaf, sp_qsize = 0\<rparr>"

section \<open>Splaying keeps the in-order sequence\<close>

definition seq_left :: "(event tree \<times> event) list \<Rightarrow> event list" where
  "seq_left L = concat (map (\<lambda>(s, v). inorder s @ [v]) (rev L))"

definition seq_right :: "(event \<times> event tree) list \<Rightarrow> event list" where
  "seq_right R = concat (map (\<lambda>(v, s). v # inorder s) R)"

lemma seq_simps [simp]:
  "seq_left [] = []" "seq_left ((s, v) # L) = seq_left L @ inorder s @ [v]"
  "seq_right [] = []" "seq_right ((v, s) # R) = v # inorder s @ seq_right R"
  by (simp_all add: seq_left_def seq_right_def)

lemma inorder_close_left [simp]: "inorder (close_left L t) = seq_left L @ inorder t"
  by (induction L t rule: close_left.induct) auto

lemma inorder_close_right [simp]: "inorder (close_right R t) = inorder t @ seq_right R"
  by (induction R t rule: close_right.induct) auto

lemma set_tree_close [simp]:
  "set_tree (close_left L t) = set (seq_left L) \<union> set_tree t"
  "set_tree (close_right R t) = set_tree t \<union> set (seq_right R)"
  by (simp_all add: set_inorder [symmetric] del: set_inorder)

text \<open>The step of the loop, one rule for each way to turn.\<close>

lemma splay_split_cases:
  assumes "splay_split tm (Node l v r) L R = (a, b)"
  obtains (stop_left) "tm < ev_time v" "l = Leaf" "a = close_left L Leaf" "b = close_right R (Node Leaf v r)"
  | (zig_left) xl xv xr where "tm < ev_time v" "l = Node xl xv xr" "tm < ev_time xv"
      "splay_split tm xl L ((xv, Node xr v r) # R) = (a, b)"
  | (link_right) xl xv xr where "tm < ev_time v" "l = Node xl xv xr" "ev_time xv \<le> tm"
      "splay_split tm l L ((v, r) # R) = (a, b)"
  | (stop_right) "ev_time v \<le> tm" "r = Leaf" "a = close_left L (Node l v Leaf)" "b = close_right R Leaf"
  | (zig_right) xl xv xr where "ev_time v \<le> tm" "r = Node xl xv xr" "ev_time xv \<le> tm"
      "splay_split tm xr ((Node l v xl, xv) # L) R = (a, b)"
  | (link_left) xl xv xr where "ev_time v \<le> tm" "r = Node xl xv xr" "tm < ev_time xv"
      "splay_split tm r ((l, v) # L) R = (a, b)"
  using assms
  by (cases "tm < ev_time v"; cases l; cases r) (simp_all split: if_splits)

lemma splay_split_seq:
  "splay_split tm t L R = (a, b) \<Longrightarrow>
   inorder a @ inorder b = seq_left L @ inorder t @ seq_right R"
proof (induction "size t" arbitrary: t L R a b rule: less_induct)
  case less
  show ?case
  proof (cases t)
    case (Node l v r)
    from less.prems [unfolded Node] show ?thesis
    proof (cases rule: splay_split_cases)
      case (zig_left xl xv xr)
      with less.hyps [of xl] Node show ?thesis by simp
    next
      case (link_right xl xv xr)
      with less.hyps [of l] Node show ?thesis by simp
    next
      case (zig_right xl xv xr)
      with less.hyps [of xr] Node show ?thesis by simp
    next
      case (link_left xl xv xr)
      with less.hyps [of r] Node show ?thesis by simp
    qed (simp_all add: Node)
  qed (use less.prems in auto)
qed

lemma sorted_wrt_times: "sorted_wrt (<) xs \<Longrightarrow> sorted_wrt (\<lambda>a b. ev_time a \<le> ev_time b) xs"
  by (rule sorted_wrt_mono_rel) (auto simp: less_event_iff)

lemma splay_split_times:
  assumes "splay_split tm t L R = (a, b)" and "sorted_wrt (\<lambda>a b. ev_time a \<le> ev_time b) (inorder t)"
    and "\<forall>x \<in> set (seq_left L). ev_time x \<le> tm" and "\<forall>x \<in> set (seq_right R). tm < ev_time x"
  shows "(\<forall>x \<in> set (inorder a). ev_time x \<le> tm) \<and> (\<forall>x \<in> set (inorder b). tm < ev_time x)"
  using assms
proof (induction "size t" arbitrary: t L R a b rule: less_induct)
  case less
  show ?case
  proof (cases t)
    case (Node l v r)
    note s = less.prems(2) [unfolded Node, simplified, unfolded sorted_wrt_append, simplified]
    from less.prems(1) [unfolded Node] show ?thesis
    proof (cases rule: splay_split_cases)
      case stop_left
      with s less.prems(3,4) show ?thesis by fastforce
    next
      case (zig_left xl xv xr)
      show ?thesis
        by (rule less.hyps [OF _ zig_left(4)])
          (use zig_left s less.prems(3,4) Node in \<open>fastforce simp: sorted_wrt_append\<close>)+
    next
      case (link_right xl xv xr)
      show ?thesis
        by (rule less.hyps [OF _ link_right(4)])
          (use link_right s less.prems(3,4) Node in \<open>fastforce simp: sorted_wrt_append\<close>)+
    next
      case stop_right
      with s less.prems(3,4) show ?thesis by fastforce
    next
      case (zig_right xl xv xr)
      show ?thesis
        by (rule less.hyps [OF _ zig_right(4)])
          (use zig_right s less.prems(3,4) Node in \<open>fastforce simp: sorted_wrt_append\<close>)+
    next
      case (link_left xl xv xr)
      show ?thesis
        by (rule less.hyps [OF _ link_left(4)])
          (use link_left s less.prems(3,4) Node in \<open>fastforce simp: sorted_wrt_append\<close>)+
    qed
  qed (use less.prems in auto)
qed

lemma splay_insert_inorder:
  assumes "sorted_wrt (<) (inorder (sp_root q))"
  shows "\<exists>xs ys. inorder (sp_root q) = xs @ ys \<and> inorder (sp_root (splay_insert e q)) = xs @ e # ys \<and>
    (\<forall>x \<in> set xs. ev_time x \<le> ev_time e) \<and> (\<forall>x \<in> set ys. ev_time e < ev_time x)"
proof (cases "sp_root q = Leaf")
  case True
  then show ?thesis by (simp add: splay_insert_def Let_def)
next
  case False
  obtain a b where ab: "splay_split (ev_time e) (sp_root q) [] [] = (a, b)" by fastforce
  have "inorder (sp_root (splay_insert e q)) = inorder a @ e # inorder b"
    using False ab by (simp add: splay_insert_def Let_def)
  moreover have "inorder (sp_root q) = inorder a @ inorder b"
    using splay_split_seq [OF ab] by simp
  ultimately show ?thesis
    using splay_split_times [OF ab sorted_wrt_times [OF assms]] by (intro exI conjI) auto
qed

section \<open>Removal\<close>

lemma splay_pop_inorder:
  "t \<noteq> Leaf \<Longrightarrow> \<exists>m s. splay_pop t = Some (m, s) \<and> inorder t = m # inorder s"
  by (induction t rule: splay_pop.induct) auto

lemma splay_take_min_inorder:
  "splay_take_min l v r = (m, s) \<Longrightarrow> inorder l @ v # inorder r = m # inorder s"
  by (induction l v r arbitrary: m s rule: splay_take_min.induct) (auto split: prod.splits)

lemma splay_join_inorder: "inorder (splay_join l r) = inorder l @ inorder r"
  by (cases "(l, r)" rule: splay_join.cases)
     (auto split: prod.splits dest: splay_take_min_inorder)

lemma splay_unlink_mem:
  assumes "sorted_wrt (<) (inorder t)" and "inj_on ev_id (set_tree t)" and "inj_on ev_uid (set_tree t)"
    and "e \<in> set_tree t"
  shows "\<exists>t'. splay_unlink e t = Some t' \<and> inorder t' = remove1 e (inorder t)"
  using assms
proof (induction t)
  case (Node l v r)
  have lt: "\<forall>x \<in> set_tree l. x < v" "\<forall>x \<in> set_tree r. v < x"
    and sub: "sorted_wrt (<) (inorder l)" "sorted_wrt (<) (inorder r)"
    using Node.prems(1) by (auto simp: sorted_wrt_append)
  have inj: "inj_on ev_id (set_tree l)" "inj_on ev_id (set_tree r)"
    "inj_on ev_uid (set_tree l)" "inj_on ev_uid (set_tree r)"
    using Node.prems(2,3) by (auto intro: inj_on_subset)
  have ids: "ev_id v = ev_id e \<longleftrightarrow> e = v" "ev_uid v = ev_uid e \<longleftrightarrow> e = v"
    using Node.prems(2,3,4) by (auto dest: inj_onD)
  have gt: "ev_time e > ev_time v \<or> ev_time e = ev_time v \<and> ev_uid e > ev_uid v \<longleftrightarrow> v < e" if "e \<noteq> v"
    using that ids by (auto simp: less_event_iff)
  show ?case
  proof (cases "e = v")
    case True
    then have "v \<notin> set_tree l" using lt by auto
    then show ?thesis using True by (simp add: splay_join_inorder remove1_append)
  next
    case False
    show ?thesis
    proof (cases "v < e")
      case True
      then have "e \<in> set_tree r" "e \<notin> set_tree l" using Node.prems(4) lt False by (auto dest: order.asym)
      then show ?thesis using Node.IH(2) [OF sub(2) inj(2,4)] True False gt ids
        by (auto simp: remove1_append)
    next
      case lf: False
      then have "e \<in> set_tree l" using Node.prems(4) lt False by auto
      then show ?thesis using Node.IH(1) [OF sub(1) inj(1,3)] lf False gt ids
        by (auto simp: remove1_append)
    qed
  qed
qed simp

lemma splay_leftmost_inorder: "t \<noteq> Leaf \<Longrightarrow> splay_leftmost t = Some (hd (inorder t))"
  by (induction t rule: splay_leftmost.induct) (auto simp: hd_append)

lemma uid_lookup_Some: "uid_lookup u t = Some e \<Longrightarrow> e \<in> set_tree t \<and> ev_uid e = u"
  by (induction t) (auto split: if_splits option.splits)

lemma uid_lookup_None: "uid_lookup u t = None \<longleftrightarrow> (\<forall>e \<in> set_tree t. ev_uid e \<noteq> u)"
  by (induction t) (auto split: option.splits)

lemma uid_lookup_mem:
  assumes "inj_on ev_uid (set_tree t)" and "e \<in> set_tree t"
  shows "uid_lookup (ev_uid e) t = Some e"
proof (cases "uid_lookup (ev_uid e) t")
  case None
  then show ?thesis using uid_lookup_None [of "ev_uid e" t] assms(2) by auto
next
  case (Some x)
  then show ?thesis using uid_lookup_Some [OF Some] assms by (auto dest: inj_onD)
qed

section \<open>The contract\<close>

lemma splay_size_set: "size t = length (inorder t)"
  by simp

lemma splay_insert_inv:
  assumes "splay_inv u q" and "fresh_event u e (splay_elems q)"
  shows "splay_inv (ev_uid e + 1) (splay_insert e q)" and "splay_elems (splay_insert e q) = insert e (splay_elems q)"
proof -
  have g: "good_events u (splay_elems q)" and s: "sorted_wrt (<) (inorder (sp_root q))"
    using assms(1) by (auto simp: splay_inv_def splay_elems_def)
  obtain xs ys where xy: "inorder (sp_root q) = xs @ ys" "inorder (sp_root (splay_insert e q)) = xs @ e # ys"
    "\<forall>x \<in> set xs. ev_time x \<le> ev_time e" "\<forall>x \<in> set ys. ev_time e < ev_time x"
    using splay_insert_inorder [OF s] by blast
  have el: "splay_elems q = set xs \<union> set ys"
    by (metis splay_elems_def set_inorder set_append xy(1))
  show el': "splay_elems (splay_insert e q) = insert e (splay_elems q)"
    unfolding splay_elems_def set_inorder [symmetric] xy by simp
  have "sorted_wrt (<) (xs @ e # ys)"
    using s xy fresh_event_less [OF g assms(2)] el by (auto simp: sorted_wrt_append event_less_time)
  moreover have "sp_qsize (splay_insert e q) = sp_qsize q + 1"
    by (simp add: splay_insert_def Let_def split: prod.splits)
  moreover have "size (sp_root (splay_insert e q)) = size (sp_root q) + 1"
    by (metis length_inorder xy(1,2) length_append length_Cons add_Suc_right Suc_eq_plus1)
  moreover have "good_events (ev_uid e + 1) (set_tree (sp_root (splay_insert e q)))"
    using good_events_insert [OF g assms(2)] el' by (simp add: splay_elems_def)
  ultimately show "splay_inv (ev_uid e + 1) (splay_insert e q)"
    using assms(1) xy(2) by (simp add: splay_inv_def)
qed

lemma splay_deque_some:
  assumes "splay_inv u q" and "splay_elems q \<noteq> {}"
  shows "\<exists>q'. splay_deque q = (Some (Min (splay_elems q)), q') \<and> splay_inv u q' \<and>
    splay_elems q' = splay_elems q - {Min (splay_elems q)}"
proof -
  have s: "sorted_wrt (<) (inorder (sp_root q))" and g: "good_events u (splay_elems q)"
    using assms(1) by (auto simp: splay_inv_def splay_elems_def)
  have "sp_root q \<noteq> Leaf" using assms(2) by (auto simp: splay_elems_def)
  then obtain m t where mt: "splay_pop (sp_root q) = Some (m, t)" "inorder (sp_root q) = m # inorder t"
    using splay_pop_inorder by blast
  have e: "splay_elems q = set (m # inorder t)" by (metis mt(2) splay_elems_def set_inorder)
  have s': "sorted_wrt (<) (m # inorder t)" using s mt(2) by simp
  have m: "Min (splay_elems q) = m" unfolding e by (rule Min_sorted_Cons [OF s'])
  have "set_tree t = splay_elems q - {m}" using s' e by auto
  moreover have "size (sp_root q) = size t + 1" by (metis length_inorder mt(2) length_Cons Suc_eq_plus1)
  ultimately show ?thesis
    using mt m s' good_events_subset [OF g, of "set_tree t"] assms(1)
    by (auto simp: splay_deque_def splay_inv_def splay_elems_def)
qed

lemma splay_cancel_queued:
  assumes "splay_inv u q" and "e \<in> splay_elems q"
  shows "\<exists>q'. splay_cancel e q = Some (neg_uid e, q') \<and> splay_inv u q' \<and> splay_elems q' = splay_elems q - {e}"
proof -
  have s: "sorted_wrt (<) (inorder (sp_root q))" and g: "good_events u (set_tree (sp_root q))"
    and n: "sp_qsize q = int (size (sp_root q))"
    using assms(1) by (auto simp: splay_inv_def)
  have mem: "e \<in> set_tree (sp_root q)" using assms(2) by (simp add: splay_elems_def)
  obtain t where t: "splay_unlink e (sp_root q) = Some t" "inorder t = remove1 e (inorder (sp_root q))"
    using splay_unlink_mem [OF s _ _ mem] g by (auto simp: good_events_def)
  have st: "set_tree t = set_tree (sp_root q) - {e}"
    unfolding set_inorder [symmetric] t(2) using sorted_wrt_distinct [OF s] by simp
  have "size t = size (sp_root q) - 1"
    using t(2) mem length_remove1 [of e "inorder (sp_root q)"] by (simp flip: length_inorder)
  moreover have "0 < size (sp_root q)" using mem by (cases "sp_root q") simp_all
  ultimately have "int (size t) = int (size (sp_root q)) - 1" by simp
  moreover have "0 < ev_uid e" using g mem by (auto simp: good_events_def)
  ultimately show ?thesis
    using t st sorted_wrt_remove1 [OF s] good_events_subset [OF g, of "set_tree t"] n
    by (auto simp: splay_cancel_def splay_inv_def splay_elems_def)
qed

interpretation splay_q: event_queue_head splay_empty splay_insert splay_deque splay_cancel splay_lookup
    splay_elems splay_inv lim splay_head
  for lim
proof (unfold_locales, goal_cases)
  case (3 u q) then show ?case by (simp add: splay_inv_def splay_elems_def)
next
  case (4 u q e) then show ?case by (simp add: splay_insert_inv)
next
  case (5 u q e) then show ?case by (simp add: splay_insert_inv)
next
  case (7 u q) then show ?case by (rule splay_deque_some)
next
  case (8 u q e) then show ?case by (rule splay_cancel_queued)
next
  case (10 u q e)
  then show ?case by (simp add: splay_lookup_def splay_elems_def splay_inv_def good_events_def uid_lookup_mem)
next
  case (11 u q v) then show ?case by (simp add: splay_lookup_def splay_elems_def uid_lookup_None)
next
  case (13 u q)
  have n: "sp_root q \<noteq> Leaf" using 13(2) by (auto simp: splay_elems_def)
  obtain m xs where mx: "inorder (sp_root q) = m # xs" using splay_pop_inorder [OF n] by blast
  have s: "sorted_wrt (<) (m # xs)" using 13(1) mx by (simp add: splay_inv_def)
  have "Min (splay_elems q) = m"
    unfolding splay_elems_def set_inorder [symmetric] mx by (rule Min_sorted_Cons [OF s])
  then show ?case using splay_leftmost_inorder [OF n] mx 13(1) by (simp add: splay_head_def)
qed (simp_all add: splay_inv_def splay_elems_def splay_empty_def splay_deque_def splay_cancel_def splay_head_def)

end
