(* ===== verification/HeapSched.thy ===== *)
theory HeapSched
  imports EventQueue
begin

text \<open>
  \<open>Heap\<close> (common/heap.h, common/scheduler.cc) and \<open>HeapScheduler\<close>: a binary heap in an array
  that doubles when it is full, ordered by the key and then by a secondary key that counts
  insertions. The counters are 32-bit unsigned integers and wrap around; the heap keeps
  events of equal time in order as long as fewer than \<open>2 ^ 31\<close> events were inserted. Array
  slots that were never written hold \<open>no_elem\<close>; the iteration cursor \<open>h_iter\<close> is local to the
  search that uses it.
\<close>

datatype heap_elem = HeapElem (he_key: real) (he_s_key: nat) (he_elem: "event option")

record heap =
  h_elems :: "heap_elem list"
  h_s_key :: nat
  h_size :: nat
  h_maxsize :: nat

definition heap_parent :: "nat \<Rightarrow> nat" where "heap_parent i = (i - 1) div 2"
definition heap_left :: "nat \<Rightarrow> nat" where "heap_left i = i * 2 + 1"
definition heap_right :: "nat \<Rightarrow> nat" where "heap_right i = (i + 1) * 2"

lemma parent_less [simp]: "0 < i \<Longrightarrow> heap_parent i < i"
  by (auto simp: heap_parent_def)

lemma child_greater [simp]: "i < heap_left i" "i < heap_right i" "0 < heap_left i" "0 < heap_right i"
  "heap_left i < heap_right i" "heap_left i \<noteq> i" "heap_right i \<noteq> i"
  by (auto simp: heap_left_def heap_right_def)

lemma parent_child [simp]: "heap_parent (heap_left i) = i" "heap_parent (heap_right i) = i"
  by (auto simp: heap_left_def heap_right_def heap_parent_def)

lemma parent_iff: "0 < j \<Longrightarrow> heap_parent j = i \<longleftrightarrow> j = heap_left i \<or> j = heap_right i"
  by (auto simp: heap_left_def heap_right_def heap_parent_def)

definition no_elem :: heap_elem where
  "no_elem = HeapElem 0 0 None"

definition heap_new :: "nat \<Rightarrow> heap" where
  "heap_new sz = \<lparr>h_elems = replicate sz no_elem, h_s_key = 0, h_size = 0, h_maxsize = sz\<rparr>"

text \<open>\<open>KEY_LESS_THAN\<close> and \<open>swap\<close>.\<close>

definition key_less :: "heap_elem \<Rightarrow> heap_elem \<Rightarrow> bool" where
  "key_less a b \<longleftrightarrow> he_key a < he_key b \<or> (he_key a = he_key b \<and> he_s_key a < he_s_key b)"

definition heap_swap :: "nat \<Rightarrow> nat \<Rightarrow> heap_elem list \<Rightarrow> heap_elem list" where
  "heap_swap i j A = A[i := A ! j, j := A ! i]"

definition heap_member :: "nat \<Rightarrow> heap \<Rightarrow> nat" where
  "heap_member a h =
     (case find (\<lambda>i. map_option ev_id (he_elem (h_elems h ! i)) = Some a) [0..<h_size h] of
        Some i \<Rightarrow> i + 1 | None \<Rightarrow> 0)"

text \<open>\<open>heap_insert\<close>: grow a full array, shift larger ancestors down, then write the new element.\<close>

function heap_up :: "heap_elem \<Rightarrow> heap_elem list \<Rightarrow> nat \<Rightarrow> heap_elem list" where
  "heap_up x A i =
     (if 0 < i \<and> key_less x (A ! heap_parent i)
      then heap_up x (A[i := A ! heap_parent i]) (heap_parent i)
      else A[i := x])"
  by pat_completeness auto
termination
  by (relation "measure (\<lambda>(x, A, i). i)") auto

definition heap_grow :: "heap \<Rightarrow> heap" where
  "heap_grow h =
     (if h_maxsize h = h_size h
      then h\<lparr>h_maxsize := (h_maxsize h * 2) mod 2 ^ 32,
             h_elems := take ((h_maxsize h * 2) mod 2 ^ 32)
               (h_elems h @ replicate (h_maxsize h) no_elem)\<rparr>
      else h)"

definition heap_insert :: "real \<Rightarrow> event \<Rightarrow> heap \<Rightarrow> heap" where
  "heap_insert key e h =
     (let h = heap_grow h;
          i = h_size h;
          h = h\<lparr>h_size := (h_size h + 1) mod 2 ^ 32\<rparr>
      in h\<lparr>h_elems := heap_up (HeapElem key (h_s_key h) (Some e)) (h_elems h) i,
           h_s_key := (h_s_key h + 1) mod 2 ^ 32\<rparr>)"

text \<open>The loop of \<open>heap_extract_min\<close>.\<close>

definition heap_child :: "heap_elem list \<Rightarrow> nat \<Rightarrow> nat \<Rightarrow> nat" where
  "heap_child A n i =
     (if heap_right i < n then
        if key_less (A ! heap_left i) (A ! heap_right i) then heap_left i else heap_right i
      else if heap_left i < n then heap_left i else i)"

function heap_down :: "heap_elem list \<Rightarrow> nat \<Rightarrow> nat \<Rightarrow> heap_elem list" where
  "heap_down A n i =
     (if i < n then
        (let x = heap_child A n i
         in if x \<noteq> i \<and> key_less (A ! x) (A ! i) then heap_down (heap_swap i x A) n x else A)
      else A)"
  by pat_completeness auto
termination
  by (relation "measure (\<lambda>(A, n, i). n - i)") (auto simp: heap_child_def diff_less_mono2 intro!: diff_less_mono2 split: if_splits)

definition heap_extract_min :: "heap \<Rightarrow> event option \<times> heap" where
  "heap_extract_min h =
     (if h_size h = 0 then (None, h)
      else (let m = he_elem (h_elems h ! 0); n = h_size h - 1;
                A = (h_elems h)[0 := h_elems h ! n]
            in (m, h\<lparr>h_size := n, h_elems := heap_down A n 0\<rparr>)))"

text \<open>\<open>heap_delete\<close>: swap the element up to the root, then extract the root.\<close>

function heap_raise :: "heap_elem list \<Rightarrow> nat \<Rightarrow> heap_elem list" where
  "heap_raise A i = (if i = 0 then A else heap_raise (heap_swap i (heap_parent i) A) (heap_parent i))"
  by pat_completeness auto
termination
  by (relation "measure snd") auto

definition heap_delete :: "nat \<Rightarrow> heap \<Rightarrow> heap" where
  "heap_delete a h =
     (let i = heap_member a h
      in if i = 0 then h
         else snd (heap_extract_min (h\<lparr>h_elems := heap_raise (h_elems h) (i - 1)\<rparr>)))"

definition heap_min :: "heap \<Rightarrow> event option" where
  "heap_min h = (if h_size h > 0 then he_elem (h_elems h ! 0) else None)"

section \<open>The scheduler\<close>

definition heap_sched_empty :: heap where
  "heap_sched_empty = heap_new 32"

definition heap_sched_cancel :: "event \<Rightarrow> heap \<Rightarrow> (event \<times> heap) option" where
  "heap_sched_cancel e h =
     (if ev_uid e \<le> 0 then Some (e, h) else Some (neg_uid e, heap_delete (ev_id e) h))"

definition heap_sched_insert :: "event \<Rightarrow> heap \<Rightarrow> heap" where
  "heap_sched_insert e h = heap_insert (ev_time e) e h"

text \<open>\<open>lookup\<close> iterates over the array from the root and stops at a null pointer.\<close>

definition heap_sched_lookup :: "int \<Rightarrow> heap \<Rightarrow> event option" where
  "heap_sched_lookup u h =
     (case find (\<lambda>x. x = None \<or> map_option ev_uid x = Some u)
        (map he_elem (take (h_size h) (h_elems h))) of
        Some x \<Rightarrow> x | None \<Rightarrow> None)"

definition heap_sched_deque :: "heap \<Rightarrow> event option \<times> heap" where
  "heap_sched_deque h = heap_extract_min h"

definition heap_sched_head :: "heap \<Rightarrow> event option \<times> heap" where
  "heap_sched_head h = (heap_min h, h)"

declare heap_up.simps [simp del] heap_down.simps [simp del] heap_raise.simps [simp del]

section \<open>The heap order\<close>

abbreviation key_le :: "heap_elem \<Rightarrow> heap_elem \<Rightarrow> bool" where
  "key_le a b \<equiv> \<not> key_less b a"

lemma key_le_trans: "key_le a b \<Longrightarrow> key_le b c \<Longrightarrow> key_le a c"
  by (auto simp: key_less_def)

lemma key_less_le: "key_less a b \<Longrightarrow> key_le a b"
  by (auto simp: key_less_def)

lemma key_less_irrefl [simp]: "\<not> key_less a a"
  by (simp add: key_less_def)

definition heap_ok :: "nat \<Rightarrow> heap_elem list \<Rightarrow> bool" where
  "heap_ok n A \<longleftrightarrow> (\<forall>j. 0 < j \<and> j < n \<longrightarrow> key_le (A ! heap_parent j) (A ! j))"

text \<open>Heap order everywhere but at position \<open>i\<close>, whose children are still above its parent.\<close>

definition hole_ok :: "nat \<Rightarrow> heap_elem list \<Rightarrow> nat \<Rightarrow> bool" where
  "hole_ok n A i \<longleftrightarrow>
     (\<forall>j. 0 < j \<and> j < n \<and> j \<noteq> i \<and> heap_parent j \<noteq> i \<longrightarrow> key_le (A ! heap_parent j) (A ! j)) \<and>
     (\<forall>j. 0 < j \<and> j < n \<and> heap_parent j = i \<and> 0 < i \<longrightarrow> key_le (A ! heap_parent i) (A ! j))"

lemma length_heap_swap [simp]: "length (heap_swap i j A) = length A"
  by (simp add: heap_swap_def)

lemma nth_heap_swap:
  "i < length A \<Longrightarrow> j < length A \<Longrightarrow>
   heap_swap i j A ! k = (if k = j then A ! i else if k = i then A ! j else A ! k)"
  by (auto simp: heap_swap_def nth_list_update)

lemma heap_swap_mset:
  assumes "i < n" "j < n" "n \<le> length A"
  shows "mset (take n (heap_swap i j A)) = mset (take n A)"
proof -
  have "take n (heap_swap i j A) = (take n A)[i := take n A ! j, j := take n A ! i]"
    using assms by (simp add: heap_swap_def take_update_swap)
  then show ?thesis using assms mset_swap [of j "take n A" i] by simp
qed

lemma hole_up:
  assumes "hole_ok n A i" "0 < i" "i < n" "n \<le> length A"
  shows "hole_ok n (heap_swap i (heap_parent i) A) (heap_parent i)"
proof -
  let ?p = "heap_parent i" and ?B = "heap_swap i (heap_parent i) A"
  have p: "?p < i" using assms(2) by (rule parent_less)
  have nth: "?B ! k = (if k = ?p then A ! i else if k = i then A ! ?p else A ! k)" for k
    using assms(3,4) p by (simp add: nth_heap_swap)
  have h1: "key_le (A ! heap_parent j) (A ! j)" if "0 < j" "j < n" "j \<noteq> i" "heap_parent j \<noteq> i" for j
    using assms(1) that by (simp add: hole_ok_def)
  have h2: "key_le (A ! ?p) (A ! j)" if "0 < j" "j < n" "heap_parent j = i" for j
    using assms(1,2) that by (simp add: hole_ok_def)
  show ?thesis
    unfolding hole_ok_def
  proof (intro conjI allI impI)
    fix j assume j: "0 < j \<and> j < n \<and> j \<noteq> ?p \<and> heap_parent j \<noteq> ?p"
    show "key_le (?B ! heap_parent j) (?B ! j)"
    proof (cases "heap_parent j = i")
      case True
      then show ?thesis using j h2 [of j] p nth by auto
    next
      case False
      then have "j \<noteq> i" using j by auto
      then show ?thesis using j h1 [of j] False nth by simp
    qed
  next
    fix j assume j: "0 < j \<and> j < n \<and> heap_parent j = ?p \<and> 0 < ?p"
    have pp: "heap_parent ?p < ?p" using j by simp
    have up: "key_le (A ! heap_parent ?p) (A ! ?p)" using h1 [of ?p] j p assms(3) pp by auto
    have "?p < j" using j parent_less [of j] by metis
    then have "heap_parent ?p \<noteq> i" "heap_parent ?p \<noteq> ?p" "j \<noteq> ?p" using pp p j by linarith+
    moreover have "key_le (A ! ?p) (A ! j)" if "j \<noteq> i"
      using h1 [of j] j that p by auto
    ultimately show "key_le (?B ! heap_parent ?p) (?B ! j)"
      using up nth key_le_trans by (metis (no_types, lifting))
  qed
qed

lemma heap_child_props:
  assumes "heap_child A n i \<noteq> i"
  shows "heap_child A n i < n" "0 < heap_child A n i" "heap_parent (heap_child A n i) = i" "i < heap_child A n i"
proof -
  have "heap_left i < n" if "heap_right i < n" using that child_greater(5) less_trans by blast
  then show "heap_child A n i < n" "0 < heap_child A n i" "heap_parent (heap_child A n i) = i" "i < heap_child A n i"
    using assms by (auto simp: heap_child_def split: if_splits)
qed

lemma heap_child_min:
  assumes "0 < j" "j < n" "heap_parent j = i"
  shows "heap_child A n i \<noteq> i" "key_le (A ! heap_child A n i) (A ! j)"
proof -
  have j: "j = heap_left i \<or> j = heap_right i" using assms(1,3) by (simp add: parent_iff)
  then show "heap_child A n i \<noteq> i" using assms(2) by (auto simp: heap_child_def)
  show "key_le (A ! heap_child A n i) (A ! j)"
    using j assms(2) by (elim disjE) (simp_all add: heap_child_def key_less_le)
qed

lemma hole_down:
  assumes "hole_ok n A i" "i < n" "n \<le> length A" "x = heap_child A n i" "x \<noteq> i" "key_less (A ! x) (A ! i)"
  shows "hole_ok n (heap_swap i x A) x \<and> key_le (heap_swap i x A ! heap_parent x) (heap_swap i x A ! x)"
proof -
  let ?B = "heap_swap i x A"
  have x: "x < n" "0 < x" "heap_parent x = i" "i < x"
    using assms(4,5) heap_child_props [of A n i] by auto
  have nth: "?B ! k = (if k = x then A ! i else if k = i then A ! x else A ! k)" for k
    using assms(2,3) x by (simp add: nth_heap_swap)
  have h1: "key_le (A ! heap_parent j) (A ! j)" if "0 < j" "j < n" "j \<noteq> i" "heap_parent j \<noteq> i" for j
    using assms(1) that by (simp add: hole_ok_def)
  have h2: "key_le (A ! heap_parent i) (A ! j)" if "0 < j" "j < n" "heap_parent j = i" "0 < i" for j
    using assms(1) that by (simp add: hole_ok_def)
  have sib: "key_le (A ! x) (A ! j)" if "0 < j" "j < n" "heap_parent j = i" for j
    using heap_child_min(2) [OF that] assms(4) by simp
  have "hole_ok n ?B x"
    unfolding hole_ok_def
  proof (intro conjI allI impI)
    fix j assume j: "0 < j \<and> j < n \<and> j \<noteq> x \<and> heap_parent j \<noteq> x"
    have jp: "heap_parent j < j" using j by simp
    consider "j = i" | "heap_parent j = i" | "j \<noteq> i" "heap_parent j \<noteq> i" by blast
    then show "key_le (?B ! heap_parent j) (?B ! j)"
    proof cases
      case 1
      then have "heap_parent j \<noteq> i" using jp by linarith
      then show ?thesis using 1 j h2 [of x] x(1,2,3) by (simp add: nth)
    next
      case 2
      then have "j \<noteq> i" using jp by linarith
      then show ?thesis using 2 j x(4) sib [of j] by (simp add: nth)
    next
      case 3 then show ?thesis using j h1 [of j] by (simp add: nth)
    qed
  next
    fix j assume j: "0 < j \<and> j < n \<and> heap_parent j = x \<and> 0 < x"
    have "x < j" using j parent_less [of j] by metis
    then have "j \<noteq> i" "j \<noteq> x" "i \<noteq> x" using x(4) by linarith+
    then show "key_le (?B ! heap_parent x) (?B ! j)"
      using h1 [of j] j x(3) by (simp add: nth)
  qed
  then show ?thesis using x(3,4) assms(6) key_less_le [OF assms(6)] by (simp add: nth)
qed

lemma hole_fill:
  assumes "hole_ok n A i" "0 < i \<Longrightarrow> key_le (A ! heap_parent i) (A ! i)"
    "\<And>j. 0 < j \<Longrightarrow> j < n \<Longrightarrow> heap_parent j = i \<Longrightarrow> key_le (A ! i) (A ! j)"
  shows "heap_ok n A"
  using assms by (auto simp: hole_ok_def heap_ok_def)

lemma heap_ok_hole: "heap_ok n A \<Longrightarrow> hole_ok n A i"
proof -
  assume h: "heap_ok n A"
  have "key_le (A ! heap_parent i) (A ! j)" if "0 < j" "j < n" "heap_parent j = i" "0 < i" for j
  proof -
    have "i < j" using that(1,3) parent_less [of j] by metis
    then have "key_le (A ! heap_parent i) (A ! i)" using h that(2,4) unfolding heap_ok_def by (meson less_trans)
    moreover have "key_le (A ! i) (A ! j)" using h that(1,2,3) unfolding heap_ok_def by blast
    ultimately show ?thesis by (rule key_le_trans)
  qed
  then show ?thesis using h by (simp add: hole_ok_def heap_ok_def)
qed

section \<open>The loops\<close>

lemma heap_down_ok:
  assumes "hole_ok n A i" "0 < i \<Longrightarrow> key_le (A ! heap_parent i) (A ! i)" "n \<le> length A"
  shows "heap_ok n (heap_down A n i) \<and> mset (take n (heap_down A n i)) = mset (take n A) \<and>
    length (heap_down A n i) = length A"
  using assms
proof (induction A n i rule: heap_down.induct)
  case (1 A n i)
  define x where "x = heap_child A n i"
  show ?case
  proof (cases "i < n \<and> x \<noteq> i \<and> key_less (A ! x) (A ! i)")
    case True
    then have xn: "x < n" using heap_child_props(1) [of A n i] by (simp add: x_def)
    have "hole_ok n (heap_swap i x A) x" "key_le (heap_swap i x A ! heap_parent x) (heap_swap i x A ! x)"
      using hole_down [OF 1(2) _ 1(4) x_def] True by auto
    then show ?thesis
      using 1(1) [OF _ x_def] True 1(4) heap_swap_mset [of i n x A] xn
      by (simp add: heap_down.simps [of A n i] x_def [symmetric] Let_def)
  next
    case False
    have "heap_ok n A"
    proof (rule hole_fill [OF 1(2,3)])
      fix j assume j: "0 < j" "j < n" "heap_parent j = i"
      then have i: "i < n" using parent_less [of j] by linarith
      have "x \<noteq> i" using heap_child_min(1) [OF j] by (simp add: x_def)
      then have "key_le (A ! i) (A ! x)" using False i by simp
      moreover have "key_le (A ! x) (A ! j)"
        using heap_child_min(2) [OF j] by (simp add: x_def)
      ultimately show "key_le (A ! i) (A ! j)" by (rule key_le_trans)
    qed
    then show ?thesis using False by (auto simp: heap_down.simps [of A n i] x_def [symmetric] Let_def)
  qed
qed

lemma heap_raise_ok:
  assumes "hole_ok n A i" "i < n" "n \<le> length A"
  shows "hole_ok n (heap_raise A i) 0 \<and> mset (take n (heap_raise A i)) = mset (take n A) \<and>
    length (heap_raise A i) = length A \<and> heap_raise A i ! 0 = A ! i"
  using assms
proof (induction A i rule: heap_raise.induct)
  case (1 A i)
  show ?case
  proof (cases "i = 0")
    case False
    let ?B = "heap_swap i (heap_parent i) A"
    have p: "heap_parent i < i" using False by simp
    then have pn: "heap_parent i < n" using 1(3) by linarith
    have "hole_ok n (heap_raise ?B (heap_parent i)) 0 \<and>
      mset (take n (heap_raise ?B (heap_parent i))) = mset (take n ?B) \<and>
      length (heap_raise ?B (heap_parent i)) = length ?B \<and>
      heap_raise ?B (heap_parent i) ! 0 = ?B ! heap_parent i"
      using 1(1) [OF False] hole_up [OF 1(2) _ 1(3,4)] False pn 1(4) by simp
    then show ?thesis
      using False 1(3,4) pn heap_swap_mset [OF 1(3) pn 1(4)]
      by (simp add: heap_raise.simps [of A i] nth_heap_swap)
  qed (use 1 in \<open>simp add: heap_raise.simps [of A 0]\<close>)
qed

lemma heap_up_swap:
  assumes "0 < i" "i < length A"
  shows "A[i := A ! heap_parent i, heap_parent i := x] = heap_swap i (heap_parent i) (A[i := x])"
proof -
  have "heap_parent i \<noteq> i" using parent_less [OF assms(1)] by linarith
  then show ?thesis using assms(2) by (simp add: heap_swap_def)
qed

lemma heap_up_ok:
  assumes "hole_ok n (A[i := x]) i" "\<forall>j. 0 < j \<and> j < n \<and> heap_parent j = i \<longrightarrow> key_le x (A ! j)"
    "i < n" "n \<le> length A"
  shows "heap_ok n (heap_up x A i) \<and> mset (take n (heap_up x A i)) = mset (take n (A[i := x])) \<and>
    length (heap_up x A i) = length A"
  using assms
proof (induction x A i rule: heap_up.induct)
  case (1 x A i)
  let ?p = "heap_parent i" and ?B = "A[i := x]"
  have len: "i < length A" using 1(4,5) by linarith
  show ?case
  proof (cases "0 < i \<and> key_less x (A ! ?p)")
    case True
    then have p: "?p < i" by simp
    then have pn: "?p < n" using 1(4) by linarith
    have sw: "A[i := A ! ?p, ?p := x] = heap_swap i ?p ?B" using heap_up_swap len True by blast
    have hole: "hole_ok n (A[i := A ! ?p, ?p := x]) ?p"
      unfolding sw using hole_up [OF 1(2) _ 1(4)] True 1(5) by simp
    have kids: "\<forall>j. 0 < j \<and> j < n \<and> heap_parent j = ?p \<longrightarrow> key_le x (A[i := A ! ?p] ! j)"
    proof (intro allI impI)
      fix j assume j: "0 < j \<and> j < n \<and> heap_parent j = ?p"
      have xp: "key_le x (A ! ?p)" using True by (simp add: key_less_le)
      have pi: "?p \<noteq> i" using p by linarith
      show "key_le x (A[i := A ! ?p] ! j)"
      proof (cases "j = i")
        case True
        then show ?thesis using xp len by simp
      next
        case False
        then have "key_le (?B ! ?p) (?B ! j)" using 1(2) j pi unfolding hole_ok_def by metis
        then have "key_le (A ! ?p) (A ! j)" using False pi by simp
        then show ?thesis using False key_le_trans [OF xp] by simp
      qed
    qed
    have "heap_ok n (heap_up x (A[i := A ! ?p]) ?p) \<and>
      mset (take n (heap_up x (A[i := A ! ?p]) ?p)) = mset (take n (A[i := A ! ?p, ?p := x])) \<and>
      length (heap_up x (A[i := A ! ?p]) ?p) = length (A[i := A ! ?p])"
      using 1(1) [OF True hole kids pn] 1(5) by simp
    moreover have "mset (take n (heap_swap i ?p ?B)) = mset (take n ?B)"
      using heap_swap_mset [OF 1(4) pn, of ?B] 1(5) by simp
    ultimately show ?thesis using True sw by (simp add: heap_up.simps [of x A i])
  next
    case False
    have "heap_ok n ?B"
    proof (rule hole_fill [OF 1(2)])
      assume i: "0 < i"
      then have "?p \<noteq> i" using parent_less [OF i] by linarith
      then show "key_le (?B ! ?p) (?B ! i)" using False i len by simp
    next
      fix j assume j: "0 < j" "j < n" "heap_parent j = i"
      then have "j \<noteq> i" using parent_less [of j] by auto
      then show "key_le (?B ! i) (?B ! j)" using 1(3) j len by simp
    qed
    then show ?thesis using False by (auto simp: heap_up.simps [of x A i])
  qed
qed

lemma heap_root_min: "heap_ok n A \<Longrightarrow> j < n \<Longrightarrow> key_le (A ! 0) (A ! j)"
proof (induction j rule: less_induct)
  case (less j)
  show ?case
  proof (cases "j = 0")
    case False
    then have "heap_parent j < j" by simp
    then have "key_le (A ! 0) (A ! heap_parent j)" using less by simp
    moreover have "key_le (A ! heap_parent j) (A ! j)" using less.prems False by (simp add: heap_ok_def)
    ultimately show ?thesis by (rule key_le_trans)
  qed simp
qed

lemma mset_drop_root:
  assumes "0 < n" "n \<le> length A"
  shows "mset (take n A) = add_mset (A ! 0) (mset (take (n - 1) (A[0 := A ! (n - 1)])))"
proof (cases "n = 1")
  case True
  then show ?thesis using assms by (cases A) auto
next
  case False
  obtain a B where A: "A = a # B" using assms by (cases A) auto
  obtain m where n: "n = Suc (Suc m)" using assms False by (cases n; cases "n - 1") auto
  have "take (Suc m) B = take m B @ [B ! m]" using assms n A by (simp add: take_Suc_conv_app_nth)
  then show ?thesis by (simp add: A n)
qed

text \<open>Extracting the root of an array that is a heap below it.\<close>

lemma heap_extract_root:
  assumes "hole_ok (h_size h) (h_elems h) 0" "0 < h_size h" "h_size h \<le> length (h_elems h)"
  defines "h' \<equiv> snd (heap_extract_min h)"
  shows "fst (heap_extract_min h) = he_elem (h_elems h ! 0)" "h_size h' = h_size h - 1"
    "heap_ok (h_size h') (h_elems h')" "length (h_elems h') = length (h_elems h)"
    "mset (take (h_size h) (h_elems h)) = add_mset (h_elems h ! 0) (mset (take (h_size h') (h_elems h')))"
    "h_s_key h' = h_s_key h" "h_maxsize h' = h_maxsize h"
proof -
  let ?n = "h_size h - 1" and ?A = "(h_elems h)[0 := h_elems h ! (h_size h - 1)]"
  have "hole_ok ?n ?A 0"
    using assms(1) by (auto simp: hole_ok_def nth_list_update)
  then have d: "heap_ok ?n (heap_down ?A ?n 0)" "mset (take ?n (heap_down ?A ?n 0)) = mset (take ?n ?A)"
    "length (heap_down ?A ?n 0) = length ?A"
    using heap_down_ok [of ?n ?A 0] assms(3) by auto
  have h': "h' = h\<lparr>h_size := ?n, h_elems := heap_down ?A ?n 0\<rparr>"
    using assms(2) by (simp add: h'_def heap_extract_min_def Let_def)
  show "fst (heap_extract_min h) = he_elem (h_elems h ! 0)"
    using assms(2) by (simp add: heap_extract_min_def Let_def)
  show "h_size h' = h_size h - 1" "heap_ok (h_size h') (h_elems h')"
    "length (h_elems h') = length (h_elems h)" "h_s_key h' = h_s_key h" "h_maxsize h' = h_maxsize h"
    using d by (simp_all add: h')
  show "mset (take (h_size h) (h_elems h)) = add_mset (h_elems h ! 0) (mset (take (h_size h') (h_elems h')))"
    using mset_drop_root [OF assms(2,3)] d(2) by (simp add: h')
qed

section \<open>The contract\<close>

definition he_ev :: "heap_elem \<Rightarrow> event" where
  "he_ev x = the (he_elem x)"

text \<open>The entries of a heap that has seen identifiers below \<open>u\<close> and secondary keys below \<open>sk\<close>.\<close>

definition entries_ok :: "int \<Rightarrow> nat \<Rightarrow> heap_elem list \<Rightarrow> bool" where
  "entries_ok u sk xs \<longleftrightarrow> distinct (map he_ev xs) \<and> good_events u (he_ev ` set xs) \<and>
     (\<forall>x \<in> set xs. he_elem x = Some (he_ev x) \<and> he_key x = ev_time (he_ev x) \<and> he_s_key x < sk) \<and>
     (\<forall>x \<in> set xs. \<forall>y \<in> set xs. he_s_key x < he_s_key y \<longleftrightarrow> ev_uid (he_ev x) < ev_uid (he_ev y))"

definition heap_entries :: "heap \<Rightarrow> heap_elem list" where
  "heap_entries h = take (h_size h) (h_elems h)"

definition heap_evs :: "heap \<Rightarrow> event set" where
  "heap_evs h = he_ev ` set (heap_entries h)"

definition heap_inv :: "int \<Rightarrow> heap \<Rightarrow> bool" where
  "heap_inv u h \<longleftrightarrow> heap_ok (h_size h) (h_elems h) \<and> entries_ok u (h_s_key h) (heap_entries h) \<and>
     h_size h \<le> h_maxsize h \<and> length (h_elems h) = h_maxsize h \<and> 0 < h_maxsize h \<and>
     h_size h \<le> h_s_key h \<and> int (h_s_key h) < u"

lemma entries_ok_mset: "mset xs = mset ys \<Longrightarrow> entries_ok u sk xs \<Longrightarrow> entries_ok u sk ys"
  unfolding entries_ok_def by (metis mset_eq_setD mset_map mset_eq_imp_distinct_iff)

lemma entries_ok_remove:
  assumes "mset xs = add_mset a (mset ys)" "entries_ok u sk xs"
  shows "entries_ok u sk ys" "he_ev ` set ys = he_ev ` set xs - {he_ev a}"
proof -
  have m: "mset xs = mset (a # ys)" using assms(1) by simp
  have e: "entries_ok u sk (a # ys)" using entries_ok_mset [OF m assms(2)] .
  have s: "set xs = insert a (set ys)" using mset_eq_setD [OF m] by simp
  show "entries_ok u sk ys"
    using e good_events_subset [of u "he_ev ` set (a # ys)" "he_ev ` set ys"] by (auto simp: entries_ok_def)
  show "he_ev ` set ys = he_ev ` set xs - {he_ev a}"
    using e s by (auto simp: entries_ok_def)
qed

lemma entries_ok_add:
  assumes "entries_ok u sk ys" "fresh_event u e (he_ev ` set ys)"
    "mset xs = add_mset (HeapElem (ev_time e) sk (Some e)) (mset ys)"
  shows "entries_ok (ev_uid e + 1) (Suc sk) xs" "he_ev ` set xs = insert e (he_ev ` set ys)"
proof -
  let ?x = "HeapElem (ev_time e) sk (Some e)"
  have m: "mset (?x # ys) = mset xs" using assms(3) by simp
  have x: "he_ev ?x = e" by (simp add: he_ev_def)
  have g: "good_events u (he_ev ` set ys)" using assms(1) by (simp add: entries_ok_def)
  have lt: "ev_uid (he_ev y) < ev_uid e \<and> he_s_key y < sk" if "y \<in> set ys" for y
    using that g assms(1,2) by (fastforce simp: entries_ok_def good_events_def fresh_event_def)
  have "entries_ok (ev_uid e + 1) (Suc sk) (?x # ys)"
    using assms(1) good_events_insert [OF g assms(2)] fresh_event_notin [OF assms(2)] lt x
    by (fastforce simp: entries_ok_def)
  then show "entries_ok (ev_uid e + 1) (Suc sk) xs" by (rule entries_ok_mset [OF m])
  show "he_ev ` set xs = insert e (he_ev ` set ys)"
    using mset_eq_setD [OF m] x by (metis image_insert list.simps(15))
qed

lemma key_less_event:
  assumes "entries_ok u sk xs" "x \<in> set xs" "y \<in> set xs"
  shows "key_less x y \<longleftrightarrow> he_ev x < he_ev y"
proof -
  have g: "good_events u (he_ev ` set xs)" using assms(1) by (simp add: entries_ok_def)
  have "ev_uid (he_ev x) = ev_uid (he_ev y) \<Longrightarrow> he_ev x = he_ev y"
    using good_events_eqI(2) [OF g] assms(2,3) by blast
  then show ?thesis
    using assms by (auto simp: key_less_def less_event_iff entries_ok_def)
qed

lemma heap_entries_nth:
  "h_size h \<le> length (h_elems h) \<Longrightarrow> i < h_size h \<Longrightarrow>
   heap_entries h ! i = h_elems h ! i \<and> h_elems h ! i \<in> set (heap_entries h)"
  by (auto simp: heap_entries_def in_set_conv_nth)

lemma heap_root_Min:
  assumes "heap_inv u h" "0 < h_size h"
  shows "he_elem (h_elems h ! 0) = Some (Min (heap_evs h))"
proof -
  have len: "h_size h \<le> length (h_elems h)" and e: "entries_ok u (h_s_key h) (heap_entries h)"
    and ok: "heap_ok (h_size h) (h_elems h)"
    using assms(1) by (auto simp: heap_inv_def)
  have r: "h_elems h ! 0 \<in> set (heap_entries h)" using heap_entries_nth [OF len assms(2)] by simp
  have "Min (heap_evs h) = he_ev (h_elems h ! 0)"
  proof (rule Min_event_eqI)
    show "finite (heap_evs h)" by (simp add: heap_evs_def)
    show "he_ev (h_elems h ! 0) \<in> heap_evs h" using r by (simp add: heap_evs_def)
    fix v assume "v \<in> heap_evs h"
    then obtain i where i: "i < h_size h" "v = he_ev (h_elems h ! i)"
      using len by (auto simp: heap_evs_def heap_entries_def in_set_conv_nth)
    then show "he_ev (h_elems h ! 0) \<le> v"
      using heap_root_min [OF ok i(1)] key_less_event [OF e _ r] heap_entries_nth [OF len i(1)] by auto
  qed
  then show ?thesis using e r by (auto simp: entries_ok_def)
qed

lemma heap_deque_some:
  assumes "heap_inv u h" "heap_evs h \<noteq> {}"
  shows "\<exists>h'. heap_sched_deque h = (Some (Min (heap_evs h)), h') \<and> heap_inv u h' \<and>
    heap_evs h' = heap_evs h - {Min (heap_evs h)}"
proof -
  have n: "0 < h_size h" using assms(2) by (cases "h_size h") (auto simp: heap_evs_def heap_entries_def)
  have len: "h_size h \<le> length (h_elems h)" using assms(1) by (simp add: heap_inv_def)
  have hole: "hole_ok (h_size h) (h_elems h) 0" using assms(1) heap_ok_hole by (simp add: heap_inv_def)
  define h' where "h' = snd (heap_extract_min h)"
  note x = heap_extract_root [OF hole n len, folded h'_def]
  have e: "entries_ok u (h_s_key h) (heap_entries h)" using assms(1) by (simp add: heap_inv_def)
  note r = entries_ok_remove [OF x(5) [folded heap_entries_def] e]
  have m: "he_elem (h_elems h ! 0) = Some (Min (heap_evs h))" by (rule heap_root_Min [OF assms(1) n])
  have "heap_inv u h'" using assms(1) x r(1) by (auto simp: heap_inv_def)
  moreover have "heap_evs h' = heap_evs h - {Min (heap_evs h)}"
    using r(2) m by (simp add: heap_evs_def he_ev_def)
  ultimately show ?thesis
    using x(1) m by (auto simp: heap_sched_deque_def h'_def prod_eq_iff)
qed

lemma heap_grow_props:
  assumes "heap_inv u h" "u < 2 ^ 31"
  defines "g \<equiv> heap_grow h"
  shows "h_size g = h_size h" "h_s_key g = h_s_key h" "h_size h < h_maxsize g" "length (h_elems g) = h_maxsize g"
    "\<And>i. i < h_size h \<Longrightarrow> h_elems g ! i = h_elems h ! i" "take (h_size h) (h_elems g) = heap_entries h"
proof -
  have i: "h_size h \<le> h_maxsize h" "length (h_elems h) = h_maxsize h" "0 < h_maxsize h"
    "int (h_size h) < 2 ^ 31"
    using assms(1,2) by (auto simp: heap_inv_def)
  then have "h_maxsize h * 2 < 2 ^ 32" if "h_maxsize h = h_size h" using that by simp
  then have full: "g = h\<lparr>h_maxsize := h_maxsize h * 2, h_elems := h_elems h @ replicate (h_maxsize h) no_elem\<rparr>"
    if "h_maxsize h = h_size h"
    using that i(2) by (simp add: g_def heap_grow_def)
  have part: "g = h" if "h_maxsize h \<noteq> h_size h" using that by (simp add: g_def heap_grow_def)
  show "h_size g = h_size h" "h_s_key g = h_s_key h" by (simp_all add: g_def heap_grow_def)
  show "h_size h < h_maxsize g" "length (h_elems g) = h_maxsize g"
    using i full part by (cases "h_maxsize h = h_size h"; simp)+
  show "h_elems g ! i = h_elems h ! i" if "i < h_size h" for i
    using that i full part by (cases "h_maxsize h = h_size h") (simp_all add: nth_append)
  show "take (h_size h) (h_elems g) = heap_entries h"
    using i full part by (cases "h_maxsize h = h_size h") (simp_all add: heap_entries_def)
qed

lemma heap_insert_inv:
  assumes "heap_inv u h" "fresh_event u e (heap_evs h)" "ev_uid e < 2 ^ 31"
  shows "heap_inv (ev_uid e + 1) (heap_sched_insert e h)" "heap_evs (heap_sched_insert e h) = insert e (heap_evs h)"
proof -
  define g where "g = heap_grow h"
  define n where "n = h_size h"
  define x where "x = HeapElem (ev_time e) (h_s_key h) (Some e)"
  define A where "A = heap_up x (h_elems g) n"
  have u: "u < 2 ^ 31" "u \<le> ev_uid e" using assms(2,3) by (auto simp: fresh_event_def)
  note gp = heap_grow_props [OF assms(1) u(1), folded g_def n_def]
  have h: "heap_ok n (h_elems h)" "entries_ok u (h_s_key h) (heap_entries h)" "n \<le> h_s_key h"
    "int (h_s_key h) < u" using assms(1) by (auto simp: heap_inv_def n_def)
  have hole: "hole_ok (Suc n) ((h_elems g)[n := x]) n"
    unfolding hole_ok_def
  proof (intro conjI allI impI)
    fix j assume j: "0 < j \<and> j < Suc n \<and> j \<noteq> n \<and> heap_parent j \<noteq> n"
    then have "j < n" "heap_parent j < n" using parent_less [of j] by linarith+
    then show "key_le ((h_elems g)[n := x] ! heap_parent j) ((h_elems g)[n := x] ! j)"
      using h(1) j gp(5) by (simp add: heap_ok_def)
  next
    fix j assume "0 < j \<and> j < Suc n \<and> heap_parent j = n \<and> 0 < n"
    then show "key_le ((h_elems g)[n := x] ! heap_parent n) ((h_elems g)[n := x] ! j)"
      using parent_less [of j] by linarith
  qed
  have kids: "\<forall>j. 0 < j \<and> j < Suc n \<and> heap_parent j = n \<longrightarrow> key_le x (h_elems g ! j)"
  proof (intro allI impI)
    fix j assume "0 < j \<and> j < Suc n \<and> heap_parent j = n"
    then show "key_le x (h_elems g ! j)" using parent_less [of j] by linarith
  qed
  have "heap_ok (Suc n) A \<and> mset (take (Suc n) A) = mset (take (Suc n) ((h_elems g)[n := x])) \<and>
    length A = length (h_elems g)"
    unfolding A_def using heap_up_ok [OF hole kids] gp(3,4) by simp
  moreover have "mset (take (Suc n) ((h_elems g)[n := x])) = add_mset x (mset (heap_entries h))"
    using gp(3,4,6) by (simp add: take_Suc_conv_app_nth)
  ultimately have A: "heap_ok (Suc n) A" "mset (take (Suc n) A) = add_mset x (mset (heap_entries h))"
    "length A = h_maxsize g"
    using gp(4) by auto
  have "int (h_s_key h) < 2 ^ 31" using h(4) u(1) by linarith
  then have "Suc n < 2 ^ 32" "Suc (h_s_key h) < 2 ^ 32" using h(3) by simp_all
  then have r: "heap_sched_insert e h = g\<lparr>h_size := Suc n, h_elems := A, h_s_key := Suc (h_s_key h)\<rparr>"
    using gp(1,2) by (simp add: heap_sched_insert_def heap_insert_def Let_def g_def [symmetric] A_def x_def)
  note ent = entries_ok_add [OF h(2) assms(2) [unfolded heap_evs_def], of "take (Suc n) A"]
  have "heap_entries (heap_sched_insert e h) = take (Suc n) A" by (simp add: r heap_entries_def)
  then show "heap_evs (heap_sched_insert e h) = insert e (heap_evs h)"
    using ent(2) A(2) by (simp add: heap_evs_def x_def)
  show "heap_inv (ev_uid e + 1) (heap_sched_insert e h)"
    using A ent(1) gp(3) h(3,4) u(2) by (simp add: heap_inv_def r heap_entries_def x_def)
qed

lemma heap_member_mem:
  assumes "entries_ok u sk (heap_entries h)" "h_size h \<le> length (h_elems h)" "e \<in> heap_evs h"
  obtains i where "heap_member (ev_id e) h = i + 1" "i < h_size h" "he_ev (h_elems h ! i) = e"
proof -
  let ?P = "\<lambda>i. map_option ev_id (he_elem (h_elems h ! i)) = Some (ev_id e)"
  have P: "?P i \<longleftrightarrow> he_ev (h_elems h ! i) = e" if "i < h_size h" for i
  proof -
    have m: "h_elems h ! i \<in> set (heap_entries h)" using heap_entries_nth [OF assms(2) that] by simp
    have g: "good_events u (heap_evs h)" using assms(1) by (simp add: entries_ok_def heap_evs_def)
    have "he_elem (h_elems h ! i) = Some (he_ev (h_elems h ! i))" using assms(1) m by (simp add: entries_ok_def)
    moreover have "he_ev (h_elems h ! i) \<in> heap_evs h" using m by (simp add: heap_evs_def)
    ultimately show ?thesis using good_events_eqI(1) [OF g _ assms(3)] by auto
  qed
  obtain k where k: "k < h_size h" "he_ev (h_elems h ! k) = e"
    using assms(2,3) by (auto simp: heap_evs_def heap_entries_def in_set_conv_nth)
  then have "find ?P [0..<h_size h] \<noteq> None" using P [OF k(1)] by (auto simp: find_None_iff)
  then obtain i where i: "find ?P [0..<h_size h] = Some i" by blast
  then have "i < h_size h" "?P i" by (auto simp: find_Some_iff)
  then show thesis using that [of i] i P by (simp add: heap_member_def)
qed

lemma heap_cancel_queued:
  assumes "heap_inv u h" "e \<in> heap_evs h"
  shows "\<exists>h'. heap_sched_cancel e h = Some (neg_uid e, h') \<and> heap_inv u h' \<and> heap_evs h' = heap_evs h - {e}"
proof -
  have h: "heap_ok (h_size h) (h_elems h)" "entries_ok u (h_s_key h) (heap_entries h)"
    "h_size h \<le> length (h_elems h)"
    using assms(1) by (auto simp: heap_inv_def)
  obtain i where i: "heap_member (ev_id e) h = i + 1" "i < h_size h" "he_ev (h_elems h ! i) = e"
    using heap_member_mem [OF h(2,3) assms(2)] by blast
  define k where "k = h\<lparr>h_elems := heap_raise (h_elems h) i\<rparr>"
  define h' where "h' = snd (heap_extract_min k)"
  have r: "hole_ok (h_size h) (h_elems k) 0" "mset (take (h_size h) (h_elems k)) = mset (heap_entries h)"
    "length (h_elems k) = length (h_elems h)" "h_elems k ! 0 = h_elems h ! i"
    using heap_raise_ok [OF heap_ok_hole [OF h(1)] i(2) h(3)] by (auto simp: k_def heap_entries_def)
  have hole: "hole_ok (h_size k) (h_elems k) 0" "0 < h_size k" "h_size k \<le> length (h_elems k)"
    using r h(3) i(2) by (simp_all add: k_def)
  note x = heap_extract_root [OF hole, folded h'_def]
  have e: "entries_ok u (h_s_key h) (take (h_size k) (h_elems k))"
    using entries_ok_mset [OF r(2) [symmetric] h(2)] by (simp add: k_def)
  note rm = entries_ok_remove [OF x(5) e]
  have "set (take (h_size k) (h_elems k)) = set (heap_entries h)"
    using mset_eq_setD [OF r(2)] by (simp add: k_def)
  then have "heap_evs h' = heap_evs h - {e}"
    using rm(2) r(4) i(3) by (simp add: heap_evs_def heap_entries_def)
  moreover have "heap_inv u h'"
    using x rm(1) r(3) assms(1) by (auto simp: heap_inv_def heap_entries_def k_def)
  moreover have "0 < ev_uid e" using h(2) assms(2) by (auto simp: entries_ok_def good_events_def heap_evs_def)
  moreover have "heap_delete (ev_id e) h = h'" using i(1) by (simp add: heap_delete_def h'_def k_def)
  ultimately show ?thesis by (simp add: heap_sched_cancel_def)
qed

lemma heap_lookup_find:
  assumes "entries_ok u sk (heap_entries h)"
  shows "heap_sched_lookup v h = find (\<lambda>e. ev_uid e = v) (map he_ev (heap_entries h))"
proof -
  have "(case find (\<lambda>x. x = None \<or> map_option ev_uid x = Some v) (map he_elem xs) of Some x \<Rightarrow> x | None \<Rightarrow> None)
      = find (\<lambda>e. ev_uid e = v) (map he_ev xs)"
    if "\<forall>x \<in> set xs. he_elem x = Some (he_ev x)" for xs
    using that by (induction xs) auto
  then show ?thesis using assms by (simp add: heap_sched_lookup_def heap_entries_def entries_ok_def)
qed

interpretation heap_q: event_queue_head heap_sched_empty heap_sched_insert heap_sched_deque heap_sched_cancel
    heap_sched_lookup heap_evs heap_inv "2 ^ 31" heap_sched_head
proof (unfold_locales, goal_cases)
  case (1 u)
  then show ?case
    by (simp add: heap_inv_def heap_sched_empty_def heap_new_def heap_ok_def entries_ok_def heap_entries_def)
next
  case 2
  then show ?case by (simp add: heap_evs_def heap_entries_def heap_sched_empty_def heap_new_def)
next
  case (3 u q) then show ?case by (simp add: heap_inv_def entries_ok_def heap_evs_def)
next
  case (4 u q e) then show ?case by (rule heap_insert_inv)
next
  case (5 u q e) then show ?case by (rule heap_insert_inv)
next
  case (6 u q)
  then have "h_size q = 0" by (auto simp: heap_evs_def heap_entries_def heap_inv_def)
  then show ?case by (simp add: heap_sched_deque_def heap_extract_min_def)
next
  case (7 u q) then show ?case by (rule heap_deque_some)
next
  case (8 u q e) then show ?case by (rule heap_cancel_queued)
next
  case (9 u q e) then show ?case by (simp add: heap_sched_cancel_def)
next
  case (10 u q e)
  then have ok: "entries_ok u (h_s_key q) (heap_entries q)" by (simp add: heap_inv_def)
  then show ?case
    using 10(2) heap_lookup_find [OF ok] find_uid [of "map he_ev (heap_entries q)" e]
    by (simp add: heap_evs_def entries_ok_def good_events_def)
next
  case (11 u q v)
  then have ok: "entries_ok u (h_s_key q) (heap_entries q)" by (simp add: heap_inv_def)
  then show ?case using 11(2) heap_lookup_find [OF ok] by (auto simp: heap_evs_def find_None_iff)
next
  case (12 u q)
  then have "h_size q = 0" by (auto simp: heap_evs_def heap_entries_def heap_inv_def)
  then show ?case by (simp add: heap_sched_head_def heap_min_def)
next
  case (13 u q)
  then have "0 < h_size q" by (cases "h_size q") (auto simp: heap_evs_def heap_entries_def)
  then show ?case using 13(1) heap_root_Min [OF 13(1)] by (simp add: heap_sched_head_def heap_min_def)
qed

end
