(* ===== verification/CalendarSched.thy ===== *)
theory CalendarSched
  imports ListSched
begin

text \<open>
  \<open>CalendarScheduler\<close> (common/scheduler.cc), the simulator's default event queue: events are
  hashed by time into buckets of a calendar year, each bucket a circular list in time order,
  and the number and the width of the buckets adapt to the load. A bucket's list starts at
  \<open>list_\<close>, so \<open>list_->prev_\<close> is its last element. Bucket numbers are natural numbers (times
  are not negative), the search counters do not wrap around, and \<open>min_bin_width_\<close> and
  \<open>adjust_new_width_interval_\<close> are the values bound from the simulation script.
\<close>

section \<open>State\<close>

record bucket =
  b_list :: "event list"
  b_count :: int

record calendar =
  c_min_bin_width :: real
  c_adjust :: nat
  c_time_to_newwidth :: nat
  c_head_search :: nat
  c_insert_search :: nat
  c_round_num :: int
  c_gap_num :: int
  c_last_time :: real
  c_avg_gap :: real
  c_width :: real
  c_diff0 :: real
  c_diff1 :: real
  c_diff2 :: real
  c_stat_qsize :: int
  c_nbuckets :: nat
  c_lastbucket :: nat
  c_top :: int
  c_bot :: int
  c_buckets :: "bucket list"
  c_qsize :: int
  c_clock :: real

text \<open>\<open>fmod\<close> of math.h and \<open>CALENDAR_HASH\<close>.\<close>

definition c_fmod :: "real \<Rightarrow> real \<Rightarrow> real" where
  "c_fmod x y = x - y * of_int (c_trunc (x / y))"

definition calendar_hash :: "calendar \<Rightarrow> real \<Rightarrow> nat" where
  "calendar_hash c t = nat (c_trunc (c_fmod (t / c_width c) (of_nat (c_nbuckets c))))"

definition cal_reinit :: "nat \<Rightarrow> real \<Rightarrow> real \<Rightarrow> calendar \<Rightarrow> calendar" where
  "cal_reinit nbuck bwidth start c =
     (let c = c\<lparr>c_buckets := replicate nbuck \<lparr>b_list = [], b_count = 0\<rparr>, c_width := bwidth,
                c_nbuckets := nbuck, c_qsize := 0, c_stat_qsize := 0\<rparr>
      in c\<lparr>c_lastbucket := calendar_hash c start,
           c_diff0 := bwidth * of_nat nbuck / 2, c_diff1 := bwidth * of_nat nbuck / 2 + bwidth,
           c_diff2 := bwidth * of_nat nbuck,
           c_bot := int (nbuck div 2) - 2, c_top := int (nbuck * 2)\<rparr>)"

text \<open>The constructor; the members it leaves unset when width adjustment is off start at 0.\<close>

definition cal_new :: "nat \<Rightarrow> real \<Rightarrow> calendar" where
  "cal_new adjust min_bin_width =
     cal_reinit 4 1 0 \<lparr>c_min_bin_width = min_bin_width, c_adjust = adjust, c_time_to_newwidth = adjust,
       c_head_search = 0, c_insert_search = 0, c_round_num = 0, c_gap_num = 0,
       c_last_time = (if adjust > 0 then -2 else 0), c_avg_gap = (if adjust > 0 then -2 else 0),
       c_width = 1, c_diff0 = 0, c_diff1 = 0, c_diff2 = 0, c_stat_qsize = 0, c_nbuckets = 4,
       c_lastbucket = 0, c_top = 0, c_bot = 0, c_buckets = [], c_qsize = 0, c_clock = 0\<rparr>"

section \<open>Placing an event in its bucket\<close>

text \<open>\<open>insert\<close>: the new list, whether the time is new to the bucket, and the steps of the search
  back from the tail.\<close>

definition place_after :: "event \<Rightarrow> event list \<Rightarrow> event list \<times> bool \<times> nat" where
  "place_after e L =
     (if L = [] then ([e], True, 0)
      else if ev_time e < ev_time (hd L) then (e # L, True, 1)
      else (let later = takeWhile (\<lambda>x. ev_time e < ev_time x) (rev L);
                rest = dropWhile (\<lambda>x. ev_time e < ev_time x) (rev L)
            in (rev rest @ e # rev later, ev_time (hd rest) < ev_time e, 1 + length later)))"

text \<open>\<open>insert2\<close>: before the events of the same time.\<close>

definition place_before :: "event \<Rightarrow> event list \<Rightarrow> event list \<times> bool" where
  "place_before e L =
     (if L = [] then ([e], True)
      else if ev_time e > ev_time (last L) then (L @ [e], ev_time (hd L) \<noteq> ev_time e)
      else (let front = takeWhile (\<lambda>x. ev_time e > ev_time x) L;
                rest = dropWhile (\<lambda>x. ev_time e > ev_time x) L
            in (front @ e # rest, ev_time (hd rest) \<noteq> ev_time e)))"

definition bucket_add :: "nat \<Rightarrow> event list \<Rightarrow> bool \<Rightarrow> calendar \<Rightarrow> calendar" where
  "bucket_add i L new c =
     c\<lparr>c_buckets := (c_buckets c)[i := \<lparr>b_list = L,
          b_count = b_count (c_buckets c ! i) + (if new then 1 else 0)\<rparr>],
       c_stat_qsize := c_stat_qsize c + (if new then 1 else 0), c_qsize := c_qsize c + 1\<rparr>"

definition bucket_remove :: "nat \<Rightarrow> event list \<Rightarrow> bool \<Rightarrow> calendar \<Rightarrow> calendar" where
  "bucket_remove i L gone c =
     c\<lparr>c_buckets := (c_buckets c)[i := \<lparr>b_list = L,
          b_count = b_count (c_buckets c ! i) - (if gone then 1 else 0)\<rparr>],
       c_stat_qsize := c_stat_qsize c - (if gone then 1 else 0), c_qsize := c_qsize c - 1\<rparr>"

definition cal_insert2 :: "event \<Rightarrow> calendar \<Rightarrow> calendar" where
  "cal_insert2 e c =
     (let i = calendar_hash c (ev_time e); (L, new) = place_before e (b_list (c_buckets c ! i))
      in bucket_add i L new c)"

section \<open>Resizing\<close>

text \<open>The index of the fullest bucket, the first of them.\<close>

definition max_bucket :: "calendar \<Rightarrow> nat" where
  "max_bucket c = fold (\<lambda>i m. if b_count (c_buckets c ! i) > b_count (c_buckets c ! m) then i else m)
     [1..<c_nbuckets c] 0"

definition cal_newwidth :: "nat \<Rightarrow> calendar \<Rightarrow> real \<times> calendar" where
  "cal_newwidth newsize c =
     (let c = (if c_adjust c > 0 then c\<lparr>c_time_to_newwidth := c_adjust c\<rparr> else c)
      in if c_adjust c > 0 \<and> c_avg_gap c > 0 then (c_avg_gap c * 4, c)
         else (let b = c_buckets c ! max_bucket c; nsamples = b_count b
               in if nsamples \<le> 4 then (c_width c, c)
                  else (let nw = ev_time (last (b_list b)) - ev_time (hd (b_list b));
                            nw = nw / of_int (if int newsize < nsamples then int newsize else nsamples)
                        in (nw * 4, c))))"

definition cal_rebuild :: "nat \<Rightarrow> real \<Rightarrow> real \<Rightarrow> calendar \<Rightarrow> calendar" where
  "cal_rebuild newsize bwidth start c =
     (let oldb = c_buckets c;
          c = fold (\<lambda>b. fold cal_insert2 (rev (b_list b))) oldb (cal_reinit newsize bwidth start c)
      in c\<lparr>c_head_search := 0, c_insert_search := 0, c_round_num := 0\<rparr>)"

definition cal_resize :: "nat \<Rightarrow> real \<Rightarrow> calendar \<Rightarrow> calendar" where
  "cal_resize newsize start c =
     (if newsize = c_nbuckets c then
        (let bwidth = (if c_head_search c > 0 then of_nat (c_head_search c) else 1 :: real);
             bwidth = (if c_insert_search c > 0 then bwidth / of_nat (c_insert_search c) else bwidth);
             bwidth = sqrt bwidth * c_width c
         in if bwidth < c_min_bin_width c then
              if c_time_to_newwidth c > 0
              then c\<lparr>c_time_to_newwidth := c_time_to_newwidth c - 1, c_head_search := 0,
                     c_insert_search := 0, c_round_num := 0\<rparr>
              else (let (bwidth, c) = cal_newwidth newsize c in cal_rebuild newsize bwidth start c)
            else cal_rebuild newsize bwidth start c)
      else
        (let (bwidth, c) = cal_newwidth newsize c
         in cal_rebuild (if newsize < 4 then 4 else newsize) bwidth start c))"

section \<open>Queue operations\<close>

definition cal_rewind :: "real \<Rightarrow> calendar \<Rightarrow> calendar" where
  "cal_rewind newtime c =
     (if c_clock c > newtime
      then c\<lparr>c_clock := newtime, c_lastbucket := calendar_hash c newtime\<rparr> else c)"

definition cal_insert :: "event \<Rightarrow> calendar \<Rightarrow> calendar" where
  "cal_insert e c =
     (let c = cal_rewind (ev_time e) c;
          i = calendar_hash c (ev_time e);
          (L, new, steps) = place_after e (b_list (c_buckets c ! i));
          c = bucket_add i L new (c\<lparr>c_insert_search := c_insert_search c + steps\<rparr>)
      in if c_stat_qsize c > c_top c then cal_resize (c_nbuckets c * 2) (c_clock c) c else c)"

text \<open>One \<open>CAL_DEQUEUE\<close> per visited bucket: stop at a head that is due within the given
  distance, else remember the earliest head. The result is the bucket and event found, the
  earliest head seen, and the number of buckets visited.\<close>

fun cal_visit :: "calendar \<Rightarrow> (real \<times> nat) list \<Rightarrow> (nat \<times> event) option \<Rightarrow>
    (nat \<times> event) option \<times> (nat \<times> event) option \<times> nat" where
  "cal_visit c [] m = (None, m, 0)"
| "cal_visit c ((d, i) # vs) m =
     (case b_list (c_buckets c ! i) of
        [] \<Rightarrow> (let (f, m, k) = cal_visit c vs m in (f, m, k + 1))
      | e # _ \<Rightarrow>
          if ev_time e - c_clock c < d then (Some (i, e), m, 1)
          else (let (f, m, k) = cal_visit c vs
                      (case m of None \<Rightarrow> Some (i, e)
                       | Some (l, x) \<Rightarrow> if ev_time x > ev_time e then Some (i, e) else m)
                in (f, m, k + 1)))"

text \<open>The buckets in the order of the search: the last used one, the next one, and all others
  but the one before the last used one.\<close>

definition cal_order :: "calendar \<Rightarrow> (real \<times> nat) list" where
  "cal_order c =
     (let i = (\<lambda>k. (c_lastbucket c + k) mod c_nbuckets c)
      in (c_diff0 c, i 0) # (c_diff1 c, i 1) # map (\<lambda>k. (c_diff2 c, i k)) [2..<c_nbuckets c - 1])"

text \<open>\<open>head\<close>: no event at all in a queue whose size is not zero would be a null pointer access.\<close>

definition cal_pick :: "nat \<Rightarrow> event list \<Rightarrow> (nat \<times> event) option \<Rightarrow> (nat \<times> event) option" where
  "cal_pick i L m =
     (case L of
        [] \<Rightarrow> m
      | e # _ \<Rightarrow>
          (case m of
             Some (l, x) \<Rightarrow> if ev_time x < ev_time e then m else Some (i, e)
           | None \<Rightarrow> Some (i, e)))"

definition cal_search :: "calendar \<Rightarrow> (nat \<times> event) option \<times> nat" where
  "cal_search c =
     (let (f, m, k) = cal_visit c (cal_order c) None;
          i = (if c_lastbucket c > 0 then c_lastbucket c - 1 else c_nbuckets c - 1)
      in (case f of Some le \<Rightarrow> Some le | None \<Rightarrow> cal_pick i (b_list (c_buckets c ! i)) m, k))"

definition cal_head :: "calendar \<Rightarrow> event option \<times> calendar" where
  "cal_head c =
     (if c_qsize c = 0 then (None, c)
      else
        (let (r, k) = cal_search c; c = c\<lparr>c_head_search := c_head_search c + k\<rparr>
         in case r of
              Some (l, e) \<Rightarrow> (Some e, c\<lparr>c_lastbucket := l, c_clock := ev_time e\<rparr>)
            | None \<Rightarrow> (None, c)))"

text \<open>The width sampling of \<open>deque\<close>, on the event to be taken.\<close>

definition cal_sample :: "event \<Rightarrow> calendar \<Rightarrow> calendar" where
  "cal_sample e c =
     (if c_adjust c > 0 then
        if c_last_time c < 0 then c\<lparr>c_last_time := ev_time e\<rparr>
        else
          (let c = c\<lparr>c_gap_num := c_gap_num c + 1\<rparr>
           in if c_gap_num c \<ge> c_qsize c then
                (let c = c\<lparr>c_avg_gap := (ev_time e - c_last_time c) / of_int (c_gap_num c),
                           c_gap_num := 0, c_last_time := ev_time e, c_round_num := c_round_num c + 1\<rparr>
                 in if c_round_num c > 20 \<and> (c_head_search c > c_insert_search c * 2 \<or>
                         c_insert_search c > c_head_search c * 2)
                    then (cal_resize (c_nbuckets c) (c_clock c) c)\<lparr>c_round_num := 0\<rparr>
                    else if c_round_num c > 100
                      then c\<lparr>c_round_num := 0, c_head_search := 0, c_insert_search := 0\<rparr>
                      else c)
              else c)
      else c)"

definition cal_unlink_head :: "calendar \<Rightarrow> calendar" where
  "cal_unlink_head c =
     (let l = c_lastbucket c; b = c_buckets c ! l; e = hd (b_list b); rest = tl (b_list b);
          last_of_time = (rest = [] \<or> ev_time (hd rest) \<noteq> ev_time e)
      in bucket_remove l rest last_of_time c)"

definition cal_deque :: "calendar \<Rightarrow> event option \<times> calendar" where
  "cal_deque c =
     (case cal_head c of
        (None, c) \<Rightarrow> (None, c)
      | (Some e, c) \<Rightarrow>
          (let c = cal_unlink_head (cal_sample e c)
           in (Some e, if c_stat_qsize c < c_bot c
                       then cal_resize (c_nbuckets c div 2) (c_clock c) c else c)))"

text \<open>\<open>cancel\<close>: \<open>prev\<close> and \<open>next\<close> of the event in its circular list decide whether its time is
  unique there; an event that is not in its bucket violates the assertions.\<close>

definition cal_cancel :: "event \<Rightarrow> calendar \<Rightarrow> (event \<times> calendar) option" where
  "cal_cancel e c =
     (if ev_uid e \<le> 0 then Some (e, c)
      else
        (let i = calendar_hash c (ev_time e); b = c_buckets c ! i;
             front = takeWhile (\<lambda>x. ev_id x \<noteq> ev_id e) (b_list b);
             rest = dropWhile (\<lambda>x. ev_id x \<noteq> ev_id e) (b_list b)
         in case rest of
              [] \<Rightarrow> None
            | _ # back \<Rightarrow>
                (let ring = back @ front;
                     unique = (ring = [] \<or>
                       ev_time (hd ring) \<noteq> ev_time e \<and> ev_time (last ring) \<noteq> ev_time e)
                 in Some (neg_uid e, bucket_remove i (front @ back) unique c))))"

definition cal_lookup :: "int \<Rightarrow> calendar \<Rightarrow> event option" where
  "cal_lookup u c = find (\<lambda>e. ev_uid e = u) (concat (map b_list (c_buckets c)))"

section \<open>The hash\<close>

definition cal_slot :: "calendar \<Rightarrow> real \<Rightarrow> int" where
  "cal_slot c t = \<lfloor>t / c_width c\<rfloor>"

lemma calendar_hash_slot:
  assumes "0 \<le> t" "0 < c_width c" "0 < c_nbuckets c"
  shows "calendar_hash c t = nat (cal_slot c t mod int (c_nbuckets c))"
proof -
  let ?x = "t / c_width c" and ?n = "int (c_nbuckets c)"
  have x: "0 \<le> ?x" using assms by simp
  have "c_trunc (?x / of_int ?n) = \<lfloor>?x\<rfloor> div ?n"
    using assms floor_divide_real_eq_div [of ?n ?x] by (simp add: c_trunc_def)
  then have f: "c_fmod ?x (of_nat (c_nbuckets c)) = ?x - of_int (?n * (\<lfloor>?x\<rfloor> div ?n))"
    by (simp add: c_fmod_def)
  have fl: "\<lfloor>?x - of_int (?n * (\<lfloor>?x\<rfloor> div ?n))\<rfloor> = \<lfloor>?x\<rfloor> mod ?n"
    by (simp only: floor_diff_of_int minus_mult_div_eq_mod)
  moreover have "0 \<le> \<lfloor>?x\<rfloor> mod ?n" using assms(3) by simp
  ultimately have "0 \<le> ?x - of_int (?n * (\<lfloor>?x\<rfloor> div ?n))" by linarith
  then show ?thesis using f fl by (simp add: calendar_hash_def c_trunc_def cal_slot_def)
qed

lemma calendar_hash_less: "0 \<le> t \<Longrightarrow> 0 < c_width c \<Longrightarrow> 0 < c_nbuckets c \<Longrightarrow> calendar_hash c t < c_nbuckets c"
  by (simp add: calendar_hash_slot nat_less_iff)

lemma calendar_hash_cong:
  "c_width c' = c_width c \<Longrightarrow> c_nbuckets c' = c_nbuckets c \<Longrightarrow> calendar_hash c' = calendar_hash c"
  by (simp add: calendar_hash_def fun_eq_iff)

section \<open>Placing\<close>

abbreviation tsorted :: "event list \<Rightarrow> bool" where
  "tsorted \<equiv> sorted_wrt (\<lambda>a b. ev_time a \<le> ev_time b)"

lemma tsortedI: "sorted_wrt (<) xs \<Longrightarrow> tsorted xs"
  by (rule sorted_wrt_mono_rel) (auto simp: less_event_iff)

lemma list_insert_append:
  "\<forall>x \<in> set xs. ev_time x \<le> ev_time e \<Longrightarrow> \<forall>y \<in> set ys. ev_time e < ev_time y \<Longrightarrow>
   list_insert e (xs @ ys) = xs @ e # ys"
  by (induction xs) (auto, cases ys, auto)

lemma tsorted_split_after:
  assumes "tsorted L" "later = takeWhile (\<lambda>x. t < ev_time x) (rev L)" "rest = dropWhile (\<lambda>x. t < ev_time x) (rev L)"
  shows "L = rev rest @ rev later" "\<forall>x \<in> set rest. ev_time x \<le> t" "\<forall>x \<in> set later. t < ev_time x"
proof -
  have "rev L = later @ rest" using assms by simp
  then show L: "L = rev rest @ rev later" by (metis rev_append rev_rev_ident)
  show "\<forall>x \<in> set later. t < ev_time x" using assms(2) by (auto dest: set_takeWhileD)
  show "\<forall>x \<in> set rest. ev_time x \<le> t"
  proof (cases rest)
    case (Cons y ys)
    have "\<not> t < ev_time y" using Cons assms(3) hd_dropWhile [of "\<lambda>x. t < ev_time x" "rev L"] by simp
    moreover have "\<forall>x \<in> set ys. ev_time x \<le> ev_time y"
      using assms(1) L Cons by (auto simp: sorted_wrt_append)
    ultimately show ?thesis using Cons by auto
  qed simp
qed

lemma place_after_front:
  assumes "tsorted (y # ys)" "ev_time e < ev_time y"
  shows "ev_time e \<notin> ev_time ` set (y # ys)"
proof -
  have "ev_time e < ev_time x" if "x \<in> set (y # ys)" for x
    using assms that by (auto intro: less_le_trans)
  then show ?thesis by force
qed

lemma place_after_back:
  assumes "tsorted L" "x \<in> set L" "ev_time x \<le> ev_time e"
  defines "later \<equiv> takeWhile (\<lambda>x. ev_time e < ev_time x) (rev L)"
    and "rest \<equiv> dropWhile (\<lambda>x. ev_time e < ev_time x) (rev L)"
  shows "rev rest @ e # rev later = list_insert e L"
    "ev_time (hd rest) < ev_time e \<longleftrightarrow> ev_time e \<notin> ev_time ` set L"
proof -
  have later: "later = takeWhile (\<lambda>x. ev_time e < ev_time x) (rev L)"
    and rest: "rest = dropWhile (\<lambda>x. ev_time e < ev_time x) (rev L)" by (simp_all add: later_def rest_def)
  note sp = tsorted_split_after [OF assms(1) later rest]
  show "rev rest @ e # rev later = list_insert e L"
    using list_insert_append [of "rev rest" e "rev later"] sp by simp
  have L: "set L = set rest \<union> set later" using sp(1) by (metis set_append set_rev)
  have ne: "rest \<noteq> []" using L assms(2,3) sp(3) by force
  have "tsorted (rev rest)" using assms(1) sp(1) by (metis sorted_wrt_append)
  then have top: "ev_time x \<le> ev_time (hd rest)" if "x \<in> set rest" for x
    using ne that by (cases rest) (auto simp: sorted_wrt_append)
  have hd: "ev_time (hd rest) \<le> ev_time e" "hd rest \<in> set L" using sp(2) L hd_in_set [OF ne] by auto
  show "ev_time (hd rest) < ev_time e \<longleftrightarrow> ev_time e \<notin> ev_time ` set L"
  proof
    assume lt: "ev_time (hd rest) < ev_time e"
    have "ev_time x \<noteq> ev_time e" if "x \<in> set L" for x
      using that L top [of x] lt sp(3) by force
    then show "ev_time e \<notin> ev_time ` set L" by force
  next
    assume "ev_time e \<notin> ev_time ` set L"
    then show "ev_time (hd rest) < ev_time e" using hd by (metis imageI order.not_eq_order_implies_strict)
  qed
qed

lemma place_after_eq:
  assumes "tsorted L" "place_after e L = (L', new, k)"
  shows "L' = list_insert e L \<and> (new \<longleftrightarrow> ev_time e \<notin> ev_time ` set L)"
proof (cases L)
  case Nil
  then show ?thesis using assms(2) by (auto simp: place_after_def)
next
  case (Cons y ys)
  show ?thesis
  proof (cases "ev_time e < ev_time y")
    case True
    then show ?thesis using assms place_after_front [of y ys e] Cons by (auto simp: place_after_def)
  next
    case False
    then show ?thesis
      using assms(2) place_after_back [OF assms(1), of y e] Cons by (auto simp: place_after_def Let_def)
  qed
qed

lemma tsorted_last:
  assumes "tsorted L" "x \<in> set L"
  shows "ev_time x \<le> ev_time (last L)"
  using assms by (induction L) auto

lemma tsorted_hd:
  assumes "tsorted L" "x \<in> set L"
  shows "ev_time (hd L) \<le> ev_time x"
  using assms by (cases L) auto

lemma place_before_mid:
  assumes "tsorted L" "L \<noteq> []" "ev_time e \<le> ev_time (last L)"
  defines "f \<equiv> takeWhile (\<lambda>x. ev_time e > ev_time x) L" and "r \<equiv> dropWhile (\<lambda>x. ev_time e > ev_time x) L"
  shows "L = f @ r" "\<forall>x \<in> set f. ev_time x < ev_time e" "\<forall>x \<in> set r. ev_time e \<le> ev_time x"
    "ev_time (hd r) \<noteq> ev_time e \<longleftrightarrow> ev_time e \<notin> ev_time ` set L"
proof -
  show L: "L = f @ r" by (simp add: f_def r_def)
  show f: "\<forall>x \<in> set f. ev_time x < ev_time e" by (auto simp: f_def dest: set_takeWhileD)
  have ne: "r \<noteq> []"
  proof
    assume "r = []"
    then have "ev_time (last L) < ev_time e"
      using last_in_set [OF assms(2)] by (simp add: r_def dropWhile_eq_Nil_conv)
    then show False using assms(3) by simp
  qed
  have "ev_time e \<le> ev_time (hd r)" using hd_dropWhile [of "\<lambda>x. ev_time e > ev_time x" L] ne by (simp add: r_def)
  moreover have rs: "tsorted r" using assms(1) L by (metis sorted_wrt_append)
  ultimately show r: "\<forall>x \<in> set r. ev_time e \<le> ev_time x" using tsorted_hd order_trans by blast
  show "ev_time (hd r) \<noteq> ev_time e \<longleftrightarrow> ev_time e \<notin> ev_time ` set L"
  proof
    assume n: "ev_time (hd r) \<noteq> ev_time e"
    have "ev_time x \<noteq> ev_time e" if "x \<in> set L" for x
    proof (cases "x \<in> set f")
      case True then show ?thesis using f by auto
    next
      case False
      then have "x \<in> set r" using that L by (metis Un_iff set_append)
      then show ?thesis using tsorted_hd [OF rs] r n hd_in_set [OF ne] by fastforce
    qed
    then show "ev_time e \<notin> ev_time ` set L" by force
  next
    assume n: "ev_time e \<notin> ev_time ` set L"
    have "hd r \<in> set L" using hd_in_set [OF ne] L by (metis Un_iff set_append)
    then show "ev_time (hd r) \<noteq> ev_time e" using n by (metis imageI)
  qed
qed

lemma place_before_eq:
  assumes "tsorted L" "place_before e L = (L', new)"
  shows "\<exists>f r. L = f @ r \<and> L' = f @ e # r \<and> (\<forall>x \<in> set f. ev_time x < ev_time e) \<and>
    (\<forall>x \<in> set r. ev_time e \<le> ev_time x) \<and> (new \<longleftrightarrow> ev_time e \<notin> ev_time ` set L)"
proof (cases "L = []")
  case True
  then show ?thesis using assms(2) by (auto simp: place_before_def)
next
  case ne: False
  show ?thesis
  proof (cases "ev_time e > ev_time (last L)")
    case True
    have all: "ev_time x < ev_time e" if "x \<in> set L" for x
      using tsorted_last [OF assms(1) that] True by simp
    then have "ev_time e \<notin> ev_time ` set L" by force
    moreover have "ev_time (hd L) \<noteq> ev_time e" using all [OF hd_in_set [OF ne]] by simp
    moreover have "L' = L @ [e]" "new \<longleftrightarrow> ev_time (hd L) \<noteq> ev_time e"
      using assms(2) ne True by (auto simp: place_before_def)
    ultimately show ?thesis using all by (intro exI [of _ L] exI [of _ "[]"]) simp
  next
    case False
    let ?f = "takeWhile (\<lambda>x. ev_time e > ev_time x) L" and ?r = "dropWhile (\<lambda>x. ev_time e > ev_time x) L"
    have "L' = ?f @ e # ?r" "new \<longleftrightarrow> ev_time (hd ?r) \<noteq> ev_time e"
      using assms(2) ne False by (auto simp: place_before_def Let_def)
    moreover have le: "ev_time e \<le> ev_time (last L)" using False by simp
    note mid = place_before_mid [OF assms(1) ne le]
    ultimately have "L = ?f @ ?r \<and> L' = ?f @ e # ?r \<and> (\<forall>x \<in> set ?f. ev_time x < ev_time e) \<and>
      (\<forall>x \<in> set ?r. ev_time e \<le> ev_time x) \<and> (new \<longleftrightarrow> ev_time e \<notin> ev_time ` set L)"
      using mid by metis
    then show ?thesis by blast
  qed
qed

section \<open>The invariant\<close>

definition cal_evs :: "calendar \<Rightarrow> nat \<Rightarrow> event list" where
  "cal_evs c i = b_list (c_buckets c ! i)"

definition cal_elems :: "calendar \<Rightarrow> event set" where
  "cal_elems c = (\<Union>b \<in> set (c_buckets c). set (b_list b))"

definition bucket_ok :: "calendar \<Rightarrow> nat \<Rightarrow> bool" where
  "bucket_ok c i \<longleftrightarrow> sorted_wrt (<) (cal_evs c i) \<and>
     (\<forall>e \<in> set (cal_evs c i). calendar_hash c (ev_time e) = i) \<and>
     b_count (c_buckets c ! i) = int (card (ev_time ` set (cal_evs c i)))"

text \<open>The shape of a calendar: bucket geometry, bucket contents and the counters.\<close>

definition cal_core :: "int \<Rightarrow> calendar \<Rightarrow> bool" where
  "cal_core u c \<longleftrightarrow> 4 \<le> c_nbuckets c \<and> length (c_buckets c) = c_nbuckets c \<and> 0 < c_width c \<and>
     c_diff0 c = c_width c * of_nat (c_nbuckets c) / 2 \<and> c_diff1 c = c_diff0 c + c_width c \<and>
     c_diff2 c = c_width c * of_nat (c_nbuckets c) \<and>
     (\<forall>i < c_nbuckets c. bucket_ok c i) \<and> good_events u (cal_elems c) \<and>
     c_qsize c = int (card (cal_elems c)) \<and> c_stat_qsize c = int (card (ev_time ` cal_elems c))"

text \<open>The calendar clock is not later than any event, and the search starts in its bucket.\<close>

definition cal_inv :: "int \<Rightarrow> calendar \<Rightarrow> bool" where
  "cal_inv u c \<longleftrightarrow> cal_core u c \<and> 0 \<le> c_clock c \<and> c_lastbucket c = calendar_hash c (c_clock c) \<and>
     (\<forall>e \<in> cal_elems c. c_clock c \<le> ev_time e)"

lemma cal_elems_iff: "e \<in> cal_elems c \<longleftrightarrow> (\<exists>i < length (c_buckets c). e \<in> set (cal_evs c i))"
  by (auto simp: cal_elems_def cal_evs_def in_set_conv_nth Bex_def)

lemma cal_core_mem:
  assumes "cal_core u c"
  shows "e \<in> cal_elems c \<longleftrightarrow> e \<in> set (cal_evs c (calendar_hash c (ev_time e))) \<and> 0 \<le> ev_time e"
proof
  assume e: "e \<in> cal_elems c"
  then have "0 \<le> ev_time e" using assms by (auto simp: cal_core_def good_events_def)
  then show "e \<in> set (cal_evs c (calendar_hash c (ev_time e))) \<and> 0 \<le> ev_time e"
    using e assms by (auto simp: cal_elems_iff cal_core_def bucket_ok_def)
next
  assume "e \<in> set (cal_evs c (calendar_hash c (ev_time e))) \<and> 0 \<le> ev_time e"
  then show "e \<in> cal_elems c"
    using assms calendar_hash_less [of "ev_time e" c] by (auto simp: cal_elems_iff cal_core_def)
qed

lemma cal_bucket_mem:
  assumes "cal_core u c" "i < c_nbuckets c"
  shows "e \<in> set (cal_evs c i) \<longleftrightarrow> e \<in> cal_elems c \<and> calendar_hash c (ev_time e) = i"
  using assms cal_core_mem [OF assms(1), of e] by (auto simp: cal_core_def bucket_ok_def cal_elems_iff)

section \<open>Adding an event\<close>

lemma bucket_add_frame [simp]:
  "c_nbuckets (bucket_add i L new c) = c_nbuckets c" "c_width (bucket_add i L new c) = c_width c"
  "c_clock (bucket_add i L new c) = c_clock c" "c_lastbucket (bucket_add i L new c) = c_lastbucket c"
  "c_diff0 (bucket_add i L new c) = c_diff0 c" "c_diff1 (bucket_add i L new c) = c_diff1 c"
  "c_diff2 (bucket_add i L new c) = c_diff2 c" "c_adjust (bucket_add i L new c) = c_adjust c"
  "length (c_buckets (bucket_add i L new c)) = length (c_buckets c)"
  "calendar_hash (bucket_add i L new c) = calendar_hash c"
  "c_qsize (bucket_add i L new c) = c_qsize c + 1"
  "c_stat_qsize (bucket_add i L new c) = c_stat_qsize c + (if new then 1 else 0)"
  by (simp_all add: bucket_add_def calendar_hash_def fun_eq_iff)

lemma cal_evs_bucket_add:
  "i < length (c_buckets c) \<Longrightarrow> cal_evs (bucket_add i L new c) j = (if j = i then L else cal_evs c j)"
  by (simp add: cal_evs_def bucket_add_def nth_list_update)

lemma bucket_add_core:
  assumes core: "cal_core u c" and e: "e \<notin> cal_elems c" "0 \<le> ev_time e" "good_events v (insert e (cal_elems c))"
    and i: "i = calendar_hash c (ev_time e)"
    and L: "set L = insert e (set (cal_evs c i))" "sorted_wrt (<) L"
    and new: "new \<longleftrightarrow> ev_time e \<notin> ev_time ` set (cal_evs c i)"
  shows "cal_core v (bucket_add i L new c)" "cal_elems (bucket_add i L new c) = insert e (cal_elems c)"
proof -
  let ?c = "bucket_add i L new c"
  have il: "i < c_nbuckets c" "i < length (c_buckets c)"
    using core e(2) i calendar_hash_less [of "ev_time e" c] by (auto simp: cal_core_def)
  have len: "length (c_buckets c) = c_nbuckets c" using core by (simp add: cal_core_def)
  show el: "cal_elems ?c = insert e (cal_elems c)"
  proof (rule set_eqI)
    fix x
    have "x \<in> cal_elems ?c \<longleftrightarrow> (\<exists>j < c_nbuckets c. x \<in> set (if j = i then L else cal_evs c j))"
      using il len by (simp add: cal_elems_iff cal_evs_bucket_add)
    also have "\<dots> \<longleftrightarrow> x = e \<or> (\<exists>j < c_nbuckets c. x \<in> set (cal_evs c j))" using L(1) il by auto
    finally show "x \<in> cal_elems ?c \<longleftrightarrow> x \<in> insert e (cal_elems c)" using len by (simp add: cal_elems_iff)
  qed
  have fin: "finite (cal_elems c)" using core by (simp add: cal_core_def good_events_def)
  have newt: "new \<longleftrightarrow> ev_time e \<notin> ev_time ` cal_elems c"
  proof -
    have "x \<in> set (cal_evs c i)" if "x \<in> cal_elems c" "ev_time x = ev_time e" for x
      using cal_bucket_mem [OF core il(1)] that i by simp
    moreover have "x \<in> cal_elems c" if "x \<in> set (cal_evs c i)" for x
      using cal_bucket_mem [OF core il(1)] that by simp
    ultimately show ?thesis unfolding new by (auto simp: image_iff)
  qed
  have "bucket_ok ?c j" if j: "j < c_nbuckets c" for j
  proof (cases "j = i")
    case True
    have "b_count (c_buckets ?c ! i) = int (card (ev_time ` set L))"
      using core il new L(1) by (simp add: bucket_add_def cal_core_def bucket_ok_def card_insert_if)
    then show ?thesis
      using True core il L i by (auto simp: bucket_ok_def cal_evs_bucket_add cal_core_def)
  next
    case False
    then have "c_buckets ?c ! j = c_buckets c ! j" using il by (simp add: bucket_add_def)
    then show ?thesis using False core il j by (simp add: bucket_ok_def cal_evs_bucket_add cal_core_def)
  qed
  moreover have "c_qsize ?c = int (card (cal_elems ?c))"
    using core e(1) fin unfolding el by (simp add: cal_core_def)
  moreover have "c_stat_qsize ?c = int (card (ev_time ` cal_elems ?c))"
    using core newt fin unfolding el by (simp add: cal_core_def card_insert_if)
  ultimately show "cal_core v ?c" using core e(3) by (simp add: cal_core_def el)
qed

lemma cal_insert2_core:
  assumes core: "cal_core u c" and e: "e \<notin> cal_elems c" "0 \<le> ev_time e" "good_events u (insert e (cal_elems c))"
    and eq: "\<And>x. x \<in> cal_elems c \<Longrightarrow> ev_time x = ev_time e \<Longrightarrow> e < x"
  shows "cal_core u (cal_insert2 e c)" "cal_elems (cal_insert2 e c) = insert e (cal_elems c)"
    "c_clock (cal_insert2 e c) = c_clock c" "c_lastbucket (cal_insert2 e c) = c_lastbucket c"
    "calendar_hash (cal_insert2 e c) = calendar_hash c" "c_nbuckets (cal_insert2 e c) = c_nbuckets c"
proof -
  define i where "i = calendar_hash c (ev_time e)"
  have il: "i < c_nbuckets c" using core e(2) calendar_hash_less [of "ev_time e" c] by (auto simp: cal_core_def i_def)
  obtain L new where pb: "place_before e (cal_evs c i) = (L, new)" by fastforce
  have ins: "cal_insert2 e c = bucket_add i L new c"
    using pb by (simp add: cal_insert2_def i_def cal_evs_def)
  have s: "sorted_wrt (<) (cal_evs c i)" using core il by (simp add: cal_core_def bucket_ok_def)
  obtain f r where fr: "cal_evs c i = f @ r" "L = f @ e # r" "\<forall>x \<in> set f. ev_time x < ev_time e"
    "\<forall>x \<in> set r. ev_time e \<le> ev_time x" "new \<longleftrightarrow> ev_time e \<notin> ev_time ` set (cal_evs c i)"
    using place_before_eq [OF tsortedI [OF s] pb] by blast
  have "e < x" if "x \<in> set r" for x
  proof (cases "ev_time x = ev_time e")
    case True
    have "x \<in> set (cal_evs c i)" using that fr(1) by simp
    then have "x \<in> cal_elems c" unfolding cal_bucket_mem [OF core il] by blast
    then show ?thesis using eq True by simp
  next
    case False
    then show ?thesis using fr(4) that by (intro event_less_time) force
  qed
  then have "sorted_wrt (<) L" using s fr(1,2,3) by (auto simp: sorted_wrt_append event_less_time)
  moreover have "set L = insert e (set (cal_evs c i))" using fr by auto
  ultimately show "cal_core u (cal_insert2 e c)" "cal_elems (cal_insert2 e c) = insert e (cal_elems c)"
    unfolding ins using bucket_add_core [OF core e i_def _ _ fr(5)] by auto
  show "c_clock (cal_insert2 e c) = c_clock c" "c_lastbucket (cal_insert2 e c) = c_lastbucket c"
    "calendar_hash (cal_insert2 e c) = calendar_hash c" "c_nbuckets (cal_insert2 e c) = c_nbuckets c"
    by (simp_all add: ins)
qed

end
