(* ===== verification/CalendarQueue.thy ===== *)
theory CalendarQueue
  imports CalendarSched
begin

text \<open>
  \<open>CalendarScheduler\<close> meets the contract of an event queue: rebuilding the calendar keeps its
  contents and the order of simultaneous events, the search of \<open>head\<close> finds the first event,
  and insertion, removal and cancellation keep the calendar's invariant whatever the width
  adjustment does.
\<close>

section \<open>Rebuilding\<close>

lemma cal_elems_cong: "c_buckets c' = c_buckets c \<Longrightarrow> cal_elems c' = cal_elems c"
  by (simp add: cal_elems_def)

lemma cal_core_cong:
  assumes "c_buckets c' = c_buckets c" "c_nbuckets c' = c_nbuckets c" "c_width c' = c_width c"
    "c_diff0 c' = c_diff0 c" "c_diff1 c' = c_diff1 c" "c_diff2 c' = c_diff2 c"
    "c_qsize c' = c_qsize c" "c_stat_qsize c' = c_stat_qsize c"
  shows "cal_core u c' = cal_core u c"
  using assms calendar_hash_cong [of c' c] cal_elems_cong [of c' c]
  by (simp add: cal_core_def bucket_ok_def cal_evs_def)

lemma cal_reinit_core:
  assumes "4 \<le> n" "0 < w"
  shows "cal_core u (cal_reinit n w st c)" "cal_elems (cal_reinit n w st c) = {}"
    "c_clock (cal_reinit n w st c) = c_clock c" "c_nbuckets (cal_reinit n w st c) = n"
    "c_lastbucket (cal_reinit n w st c) = calendar_hash (cal_reinit n w st c) st"
proof -
  show el: "cal_elems (cal_reinit n w st c) = {}"
    by (auto simp: cal_elems_def cal_reinit_def Let_def)
  show "cal_core u (cal_reinit n w st c)"
    using assms unfolding cal_core_def el
    by (simp add: cal_reinit_def Let_def bucket_ok_def cal_evs_def)
  show "c_clock (cal_reinit n w st c) = c_clock c" "c_nbuckets (cal_reinit n w st c) = n"
    by (simp_all add: cal_reinit_def Let_def)
  show "c_lastbucket (cal_reinit n w st c) = calendar_hash (cal_reinit n w st c) st"
    by (simp add: cal_reinit_def Let_def calendar_hash_def)
qed

text \<open>Adding a sequence of events in which, of two simultaneous ones, the later comes first.\<close>

lemma fold_insert2_core:
  assumes "cal_core u c" "distinct xs" "set xs \<inter> cal_elems c = {}" "good_events u (set xs \<union> cal_elems c)"
    "sorted_wrt (\<lambda>x e. ev_time x = ev_time e \<longrightarrow> e < x) xs"
    "\<forall>x \<in> cal_elems c. \<forall>e \<in> set xs. ev_time x = ev_time e \<longrightarrow> e < x"
  shows "cal_core u (fold cal_insert2 xs c) \<and> cal_elems (fold cal_insert2 xs c) = set xs \<union> cal_elems c \<and>
    c_clock (fold cal_insert2 xs c) = c_clock c \<and> c_lastbucket (fold cal_insert2 xs c) = c_lastbucket c \<and>
    calendar_hash (fold cal_insert2 xs c) = calendar_hash c \<and> c_nbuckets (fold cal_insert2 xs c) = c_nbuckets c"
  using assms
proof (induction xs arbitrary: c)
  case (Cons e xs)
  have e: "e \<notin> cal_elems c" "0 \<le> ev_time e" "good_events u (insert e (cal_elems c))"
    using Cons.prems(3,4) good_events_subset [OF Cons.prems(4), of "insert e (cal_elems c)"]
    by (auto simp: good_events_def)
  have eq: "e < x" if "x \<in> cal_elems c" "ev_time x = ev_time e" for x
    using that Cons.prems(6) by simp
  note i = cal_insert2_core [OF Cons.prems(1) e eq]
  have "cal_core u (fold cal_insert2 xs (cal_insert2 e c)) \<and>
    cal_elems (fold cal_insert2 xs (cal_insert2 e c)) = set xs \<union> cal_elems (cal_insert2 e c) \<and>
    c_clock (fold cal_insert2 xs (cal_insert2 e c)) = c_clock (cal_insert2 e c) \<and>
    c_lastbucket (fold cal_insert2 xs (cal_insert2 e c)) = c_lastbucket (cal_insert2 e c) \<and>
    calendar_hash (fold cal_insert2 xs (cal_insert2 e c)) = calendar_hash (cal_insert2 e c) \<and>
    c_nbuckets (fold cal_insert2 xs (cal_insert2 e c)) = c_nbuckets (cal_insert2 e c)"
  proof (rule Cons.IH)
    show "set xs \<inter> cal_elems (cal_insert2 e c) = {}" using Cons.prems(2,3) i(2) by auto
    show "good_events u (set xs \<union> cal_elems (cal_insert2 e c))" using Cons.prems(4) i(2) by simp
    show "\<forall>x \<in> cal_elems (cal_insert2 e c). \<forall>e' \<in> set xs. ev_time x = ev_time e' \<longrightarrow> e' < x"
      using Cons.prems(5,6) i(2) by simp
  qed (use Cons.prems i in simp_all)
  then show ?case using i by auto
qed simp

definition cal_unload :: "calendar \<Rightarrow> event list" where
  "cal_unload c = concat (map (\<lambda>b. rev (b_list b)) (c_buckets c))"

lemma cal_rebuild_unload:
  "cal_rebuild n w st c = (fold cal_insert2 (cal_unload c) (cal_reinit n w st c))
     \<lparr>c_head_search := 0, c_insert_search := 0, c_round_num := 0\<rparr>"
proof -
  have f: "fold (\<lambda>b. fold cal_insert2 (rev (b_list b))) bs z = fold cal_insert2 (concat (map (\<lambda>b. rev (b_list b)) bs)) z"
    for bs z by (induction bs arbitrary: z) auto
  show ?thesis unfolding cal_rebuild_def cal_unload_def Let_def f ..
qed

lemma set_cal_unload: "set (cal_unload c) = cal_elems c"
  by (auto simp: cal_unload_def cal_elems_def)

lemma concat_by_index:
  assumes "\<forall>i < length Ls. sorted_wrt P (Ls ! i)"
    "\<forall>i j. i < j \<and> j < length Ls \<longrightarrow> (\<forall>x \<in> set (Ls ! i). \<forall>y \<in> set (Ls ! j). P x y)"
  shows "sorted_wrt P (concat Ls)"
  using assms
proof (induction Ls)
  case (Cons L Ls)
  have "sorted_wrt P (concat Ls)"
  proof (rule Cons.IH)
    show "\<forall>i < length Ls. sorted_wrt P (Ls ! i)" using Cons.prems(1) by fastforce
    show "\<forall>i j. i < j \<and> j < length Ls \<longrightarrow> (\<forall>x \<in> set (Ls ! i). \<forall>y \<in> set (Ls ! j). P x y)"
      using Cons.prems(2) [rule_format, of "Suc _" "Suc _"] by simp
  qed
  moreover have "P x y" if x: "x \<in> set L" and y: "y \<in> set (concat Ls)" for x y
  proof -
    obtain M where "M \<in> set Ls" "y \<in> set M" using y by auto
    then obtain j where "j < length Ls" "y \<in> set (Ls ! j)" by (metis in_set_conv_nth)
    then show ?thesis using Cons.prems(2) [rule_format, of 0 "Suc j"] x by simp
  qed
  moreover have "sorted_wrt P L" using Cons.prems(1) by force
  ultimately show ?case by (simp add: sorted_wrt_append)
qed simp

definition unload_before :: "event \<Rightarrow> event \<Rightarrow> bool" where
  "unload_before x e \<longleftrightarrow> x \<noteq> e \<and> (ev_time x = ev_time e \<longrightarrow> e < x)"

lemma cal_unload_sorted:
  assumes "cal_core u c"
  shows "sorted_wrt unload_before (cal_unload c)"
  unfolding cal_unload_def
proof (rule concat_by_index)
  let ?Ls = "map (\<lambda>b. rev (b_list b)) (c_buckets c)"
  have len: "length ?Ls = c_nbuckets c" using assms by (simp add: cal_core_def)
  have nth: "?Ls ! i = rev (cal_evs c i)" if "i < c_nbuckets c" for i
    using that assms by (simp add: cal_core_def cal_evs_def)
  have hash: "calendar_hash c (ev_time x) = i" if "i < c_nbuckets c" "x \<in> set (?Ls ! i)" for i x
    using that nth assms by (simp add: cal_core_def bucket_ok_def)
  show "\<forall>i < length ?Ls. sorted_wrt unload_before (?Ls ! i)"
  proof (intro allI impI)
    fix i assume "i < length ?Ls"
    then have i: "i < c_nbuckets c" using len by linarith
    have "sorted_wrt (<) (cal_evs c i)" using i assms by (simp add: cal_core_def bucket_ok_def)
    then have "sorted_wrt (\<lambda>x e. unload_before e x) (cal_evs c i)"
      by (rule sorted_wrt_mono_rel [rotated]) (auto simp: unload_before_def)
    then show "sorted_wrt unload_before (?Ls ! i)" unfolding nth [OF i] by (simp add: sorted_wrt_rev)
  qed
  show "\<forall>i j. i < j \<and> j < length ?Ls \<longrightarrow> (\<forall>x \<in> set (?Ls ! i). \<forall>e \<in> set (?Ls ! j). unload_before x e)"
  proof (intro allI impI ballI)
    fix i j x e assume ij: "i < j \<and> j < length ?Ls" "x \<in> set (?Ls ! i)" "e \<in> set (?Ls ! j)"
    then have "i < c_nbuckets c" "j < c_nbuckets c" using len by linarith+
    then have "calendar_hash c (ev_time x) = i" "calendar_hash c (ev_time e) = j" using hash ij(2,3) by auto
    then show "unload_before x e" using ij(1) by (auto simp: unload_before_def)
  qed
qed

lemma cal_rebuild_core:
  assumes "cal_core u c" "4 \<le> n" "0 < w"
  shows "cal_core u (cal_rebuild n w st c)" "cal_elems (cal_rebuild n w st c) = cal_elems c"
    "c_clock (cal_rebuild n w st c) = c_clock c" "c_nbuckets (cal_rebuild n w st c) = n"
    "c_lastbucket (cal_rebuild n w st c) = calendar_hash (cal_rebuild n w st c) st"
proof -
  let ?r = "cal_reinit n w st c"
  note r = cal_reinit_core(1) [OF assms(2,3), of u st c] cal_reinit_core(2-5) [OF assms(2,3), of st c]
  have g: "good_events u (set (cal_unload c))" using assms(1) by (simp add: set_cal_unload cal_core_def)
  have d: "distinct xs" if "sorted_wrt unload_before xs" for xs
    using that by (induction xs) (auto simp: unload_before_def)
  have s: "sorted_wrt (\<lambda>x e. ev_time x = ev_time e \<longrightarrow> e < x) (cal_unload c)"
    using cal_unload_sorted [OF assms(1)] by (rule sorted_wrt_mono_rel [rotated]) (simp add: unload_before_def)
  define z where "z = fold cal_insert2 (cal_unload c) ?r"
  have z: "cal_core u z" "cal_elems z = set (cal_unload c) \<union> cal_elems ?r" "c_clock z = c_clock ?r"
    "c_lastbucket z = c_lastbucket ?r" "calendar_hash z = calendar_hash ?r" "c_nbuckets z = c_nbuckets ?r"
    using fold_insert2_core [OF r(1) d [OF cal_unload_sorted [OF assms(1)]] _ _ s] r(2) g
    by (simp_all add: z_def)
  have b: "cal_rebuild n w st c = z\<lparr>c_head_search := 0, c_insert_search := 0, c_round_num := 0\<rparr>"
    by (simp add: cal_rebuild_unload z_def)
  let ?z = "z\<lparr>c_head_search := 0, c_insert_search := 0, c_round_num := 0\<rparr>"
  show "cal_core u (cal_rebuild n w st c)"
    unfolding b using z(1) cal_core_cong [of ?z z u] by simp
  show "cal_elems (cal_rebuild n w st c) = cal_elems c"
    unfolding b using z(2) r(2) set_cal_unload [of c] cal_elems_cong [of ?z z] by simp
  show "c_clock (cal_rebuild n w st c) = c_clock c" "c_nbuckets (cal_rebuild n w st c) = n"
    unfolding b using z r by simp_all
  show "c_lastbucket (cal_rebuild n w st c) = calendar_hash (cal_rebuild n w st c) st"
    unfolding b using z r(5) calendar_hash_cong [of ?z z] by simp
qed

section \<open>Resizing\<close>

lemma max_bucket_less: "0 < c_nbuckets c \<Longrightarrow> max_bucket c < c_nbuckets c"
proof -
  assume n: "0 < c_nbuckets c"
  have "fold (\<lambda>i m. if P i m then i else m) xs k < c_nbuckets c"
    if "k < c_nbuckets c" "\<forall>x \<in> set xs. x < c_nbuckets c" for P xs k
    using that by (induction xs arbitrary: k) auto
  then show ?thesis using n by (simp add: max_bucket_def)
qed

text \<open>The assertion of \<open>newwidth\<close>: more than one time in a bucket means a positive spread.\<close>

lemma bucket_spread:
  assumes "tsorted L" "1 < card (ev_time ` set L)"
  shows "ev_time (hd L) < ev_time (last L)"
proof (rule ccontr)
  assume "\<not> ev_time (hd L) < ev_time (last L)"
  then have "ev_time x = ev_time (hd L)" if "x \<in> set L" for x
    using tsorted_hd [OF assms(1) that] tsorted_last [OF assms(1) that] by linarith
  then have "ev_time ` set L \<subseteq> {ev_time (hd L)}" by auto
  then have "card (ev_time ` set L) \<le> card {ev_time (hd L)}" by (rule card_mono [rotated]) simp
  then show False using assms(2) by simp
qed

lemma cal_newwidth_props:
  assumes "cal_core u c" "0 < newsize" "cal_newwidth newsize c = (w, c')"
  shows "0 < w" "\<exists>t. c' = c\<lparr>c_time_to_newwidth := t\<rparr>"
proof -
  define b where "b = c_buckets c ! max_bucket c"
  have m: "max_bucket c < c_nbuckets c" using assms(1) by (intro max_bucket_less) (simp add: cal_core_def)
  then have ok: "tsorted (b_list b)" "b_count b = int (card (ev_time ` set (b_list b)))"
    using assms(1) tsortedI by (auto simp: cal_core_def bucket_ok_def cal_evs_def b_def)
  have w0: "0 < c_width c" using assms(1) by (simp add: cal_core_def)
  have mb: "max_bucket (c\<lparr>c_time_to_newwidth := t\<rparr>) = max_bucket c" for t by (simp add: max_bucket_def)
  show "\<exists>t. c' = c\<lparr>c_time_to_newwidth := t\<rparr>"
  proof -
    have "c' = c \<or> c' = c\<lparr>c_time_to_newwidth := c_adjust c\<rparr>"
      using assms(3) by (auto simp: cal_newwidth_def Let_def split: if_splits)
    moreover have "c = c\<lparr>c_time_to_newwidth := c_time_to_newwidth c\<rparr>" by simp
    ultimately show ?thesis by metis
  qed
  have spread: "0 < ev_time (last (b_list b)) - ev_time (hd (b_list b))" if "4 < b_count b"
    using bucket_spread [OF ok(1)] ok(2) that by simp
  have "w = c_avg_gap c * 4 \<and> 0 < c_avg_gap c \<or> w = c_width c \<or>
    4 < b_count b \<and> w = (ev_time (last (b_list b)) - ev_time (hd (b_list b))) /
        of_int (if int newsize < b_count b then int newsize else b_count b) * 4"
    using assms(3) by (auto simp: cal_newwidth_def Let_def mb b_def split: if_splits)
  then show "0 < w" using w0 spread assms(2) by (auto intro!: divide_pos_pos)
qed

lemma cal_core_newwidth_cong: "cal_core u (c\<lparr>c_time_to_newwidth := t\<rparr>) = cal_core u c"
  "cal_elems (c\<lparr>c_time_to_newwidth := t\<rparr>) = cal_elems c"
  by (intro cal_core_cong cal_elems_cong; simp)+

definition same_queue :: "int \<Rightarrow> real \<Rightarrow> calendar \<Rightarrow> calendar \<Rightarrow> bool" where
  "same_queue u start c c' \<longleftrightarrow> cal_core u c' \<and> cal_elems c' = cal_elems c \<and> c_clock c' = c_clock c \<and>
     (c_lastbucket c = calendar_hash c start \<longrightarrow> c_lastbucket c' = calendar_hash c' start)"

lemma cal_rebuild_same:
  assumes "cal_core u c" "4 \<le> n" "0 < w"
  shows "same_queue u st c (cal_rebuild n w st (c\<lparr>c_time_to_newwidth := t\<rparr>))"
  using cal_rebuild_core [of u "c\<lparr>c_time_to_newwidth := t\<rparr>" n w st] assms
  by (simp add: same_queue_def cal_core_newwidth_cong)

lemma cal_resize_same:
  assumes core: "cal_core u c" and n: "0 < n"
  shows "same_queue u st c (cal_resize n st c)"
proof -
  have c4: "4 \<le> c_nbuckets c" "0 < c_width c" using core by (auto simp: cal_core_def)
  obtain w c' where wc: "cal_newwidth n c = (w, c')" by fastforce
  obtain t where w: "0 < w" "c' = c\<lparr>c_time_to_newwidth := t\<rparr>"
    using cal_newwidth_props [OF core n wc] by blast
  have self: "c = c\<lparr>c_time_to_newwidth := c_time_to_newwidth c\<rparr>" by simp
  show ?thesis
  proof (cases "n = c_nbuckets c")
    case True
    define bw where "bw = (let b = (if c_head_search c > 0 then of_nat (c_head_search c) else 1 :: real);
      b = (if c_insert_search c > 0 then b / of_nat (c_insert_search c) else b) in sqrt b * c_width c)"
    have bw: "0 < bw" using c4(2) by (simp add: bw_def Let_def)
    have r: "same_queue u st c (cal_rebuild n bw st c)"
      using cal_rebuild_same [OF core _ bw, of n st "c_time_to_newwidth c"] True c4(1) self by simp
    have r': "same_queue u st c (cal_rebuild n w st c')"
      using cal_rebuild_same [OF core _ w(1), of n st t] True c4(1) w(2) by simp
    let ?k = "c\<lparr>c_time_to_newwidth := c_time_to_newwidth c - 1, c_head_search := 0, c_insert_search := 0,
      c_round_num := 0\<rparr>"
    have k: "same_queue u st c ?k"
      using core cal_core_cong [of ?k c u] cal_elems_cong [of ?k c] calendar_hash_cong [of ?k c]
      by (simp add: same_queue_def)
    have "cal_resize n st c = (if bw < c_min_bin_width c then if c_time_to_newwidth c > 0 then ?k
        else cal_rebuild n w st c' else cal_rebuild n bw st c)"
      using True wc by (simp add: cal_resize_def Let_def bw_def)
    then show ?thesis using r r' k by simp
  next
    case False
    then have "cal_resize n st c = cal_rebuild (if n < 4 then 4 else n) w st c'"
      using wc by (simp add: cal_resize_def)
    then show ?thesis using cal_rebuild_same [OF core _ w(1), of "if n < 4 then 4 else n" st t] w(2) by simp
  qed
qed

lemma same_queue_inv:
  assumes "same_queue u (c_clock c) c c'" "0 \<le> c_clock c" "c_lastbucket c = calendar_hash c (c_clock c)"
    "\<forall>e \<in> cal_elems c. c_clock c \<le> ev_time e"
  shows "cal_inv u c'" "cal_elems c' = cal_elems c"
  using assms by (auto simp: same_queue_def cal_inv_def)

section \<open>Insertion\<close>

lemma cal_insert_add:
  assumes "cal_core u c" "fresh_event u e (cal_elems c)"
    "place_after e (cal_evs c (calendar_hash c (ev_time e))) = (L, new, k)"
  shows "cal_core (ev_uid e + 1) (bucket_add (calendar_hash c (ev_time e)) L new c)"
    "cal_elems (bucket_add (calendar_hash c (ev_time e)) L new c) = insert e (cal_elems c)"
proof -
  define i where "i = calendar_hash c (ev_time e)"
  have g: "good_events u (cal_elems c)" using assms(1) by (simp add: cal_core_def)
  have t: "0 \<le> ev_time e" using assms(2) by (simp add: fresh_event_def)
  have il: "i < c_nbuckets c" using assms(1) t calendar_hash_less [of "ev_time e" c] by (auto simp: cal_core_def i_def)
  have s: "sorted_wrt (<) (cal_evs c i)" using assms(1) il by (simp add: cal_core_def bucket_ok_def)
  have p: "L = list_insert e (cal_evs c i)" "new \<longleftrightarrow> ev_time e \<notin> ev_time ` set (cal_evs c i)"
    using place_after_eq [OF tsortedI [OF s]] assms(3) by (auto simp: i_def)
  have "x < e" if "x \<in> set (cal_evs c i)" "ev_time x \<le> ev_time e" for x
    using fresh_event_less [OF g assms(2) _ that(2)] that(1) cal_bucket_mem [OF assms(1) il] by simp
  then have "sorted_wrt (<) L" unfolding p(1) by (rule list_insert_sorted [OF s])
  then show "cal_core (ev_uid e + 1) (bucket_add (calendar_hash c (ev_time e)) L new c)"
    "cal_elems (bucket_add (calendar_hash c (ev_time e)) L new c) = insert e (cal_elems c)"
    using bucket_add_core [OF assms(1) fresh_event_notin [OF assms(2)] t good_events_insert [OF g assms(2)] refl]
      p by (simp_all add: i_def)
qed

lemma cal_insert_inv:
  assumes inv: "cal_inv u c" and e: "fresh_event u e (cal_elems c)"
  shows "cal_inv (ev_uid e + 1) (cal_insert e c)" "cal_elems (cal_insert e c) = insert e (cal_elems c)"
proof -
  have core: "cal_core u c" using inv by (simp add: cal_inv_def)
  have t: "0 \<le> ev_time e" using e by (simp add: fresh_event_def)
  define c1 where "c1 = cal_rewind (ev_time e) c"
  obtain L new k where pl: "place_after e (cal_evs c (calendar_hash c (ev_time e))) = (L, new, k)"
    using prod_cases3 by blast
  define c2 where "c2 = c1\<lparr>c_insert_search := c_insert_search c1 + k\<rparr>"
  have b1: "c_buckets c1 = c_buckets c" by (simp add: c1_def cal_rewind_def)
  have b2: "c_buckets c2 = c_buckets c" "c_clock c2 = min (c_clock c) (ev_time e)" by (simp_all add: c2_def c1_def cal_rewind_def)
  have h2: "calendar_hash c2 = calendar_hash c" "calendar_hash c1 = calendar_hash c"
    by (intro calendar_hash_cong; simp add: c2_def c1_def cal_rewind_def)+
  have core2: "cal_core u c2" "cal_elems c2 = cal_elems c"
    using core cal_core_cong [of c2 c u] cal_elems_cong [of c2 c] by (simp_all add: c2_def c1_def cal_rewind_def)
  define c3 where "c3 = bucket_add (calendar_hash c2 (ev_time e)) L new c2"
  have pl2: "place_after e (cal_evs c2 (calendar_hash c2 (ev_time e))) = (L, new, k)"
    using pl by (simp add: h2 cal_evs_def b2)
  have core3: "cal_core (ev_uid e + 1) c3" "cal_elems c3 = insert e (cal_elems c)"
    using cal_insert_add [OF core2(1) _ pl2] e core2(2) by (simp_all add: c3_def)
  have cl3: "c_clock c3 = min (c_clock c) (ev_time e)" "c_lastbucket c3 = calendar_hash c3 (c_clock c3)"
    using inv by (auto simp: c3_def b2 h2 cal_inv_def) (auto simp: c2_def c1_def cal_rewind_def min_def)
  have le3: "\<forall>x \<in> cal_elems c3. c_clock c3 \<le> ev_time x" "0 \<le> c_clock c3"
    using inv t core3(2) cl3(1) by (auto simp: cal_inv_def min_def intro: order_trans)
  have ins: "cal_insert e c = (if c_stat_qsize c3 > c_top c3 then cal_resize (c_nbuckets c3 * 2) (c_clock c3) c3 else c3)"
    using pl by (simp add: cal_insert_def Let_def c1_def [symmetric] c3_def h2 cal_evs_def b1)
      (simp add: c2_def)
  have "0 < c_nbuckets c3 * 2" using core3(1) by (simp add: cal_core_def)
  then have "same_queue (ev_uid e + 1) (c_clock c3) c3 (cal_insert e c)"
    using cal_resize_same [OF core3(1)] core3(1) by (simp add: ins same_queue_def)
  then show "cal_inv (ev_uid e + 1) (cal_insert e c)" "cal_elems (cal_insert e c) = insert e (cal_elems c)"
    using same_queue_inv [OF _ le3(2) cl3(2) le3(1)] core3(2) by auto
qed

section \<open>The search for the first event\<close>

definition bhead :: "calendar \<Rightarrow> nat \<Rightarrow> event option" where
  "bhead c i = (case cal_evs c i of [] \<Rightarrow> None | e # _ \<Rightarrow> Some e)"

text \<open>What \<open>CAL_DEQUEUE\<close> in sequence does, for any sequence of distances and buckets.\<close>

lemma cal_visit_found:
  assumes "cal_visit c vs m = (Some (i, e), m', k)"
  shows "\<exists>us d ws. vs = us @ (d, i) # ws \<and> bhead c i = Some e \<and> ev_time e - c_clock c < d \<and>
    (\<forall>(d', i') \<in> set us. \<forall>y. bhead c i' = Some y \<longrightarrow> \<not> ev_time y - c_clock c < d')"
  using assms
proof (induction vs arbitrary: m k)
  case (Cons v vs)
  obtain d j where v: "v = (d, j)" by (cases v)
  show ?case
  proof (cases "\<exists>x xs. cal_evs c j = x # xs \<and> ev_time x - c_clock c < d")
    case True
    then show ?thesis
      using Cons.prems v by (intro exI [of _ "[]"] exI [of _ d] exI [of _ vs]) (auto simp: bhead_def cal_evs_def)
  next
    case False
    then obtain n l where r: "cal_visit c vs n = (Some (i, e), m', l)"
      using Cons.prems v by (auto simp: cal_evs_def split: list.splits if_splits prod.splits)
    have nv: "\<forall>y. bhead c j = Some y \<longrightarrow> \<not> ev_time y - c_clock c < d"
      using False by (auto simp: bhead_def split: list.splits)
    obtain us d' ws where "vs = us @ (d', i) # ws" "bhead c i = Some e" "ev_time e - c_clock c < d'"
      "\<forall>(d', i') \<in> set us. \<forall>y. bhead c i' = Some y \<longrightarrow> \<not> ev_time y - c_clock c < d'"
      using Cons.IH [OF r] by blast
    then show ?thesis using nv v by (intro exI [of _ "v # us"] exI [of _ d'] exI [of _ ws]) auto
  qed
qed simp

lemma cal_visit_none:
  assumes "cal_visit c vs m = (None, m', k)"
  shows "(\<forall>(d, i) \<in> set vs. \<forall>y. bhead c i = Some y \<longrightarrow> \<not> ev_time y - c_clock c < d) \<and>
    (m' = None \<longrightarrow> m = None \<and> (\<forall>(d, i) \<in> set vs. bhead c i = None)) \<and>
    (\<forall>l x. m' = Some (l, x) \<longrightarrow>
       (m = Some (l, x) \<or> (\<exists>d. (d, l) \<in> set vs \<and> bhead c l = Some x)) \<and>
       (\<forall>(d, i) \<in> set vs. \<forall>y. bhead c i = Some y \<longrightarrow> ev_time x \<le> ev_time y) \<and>
       (\<forall>l0 x0. m = Some (l0, x0) \<longrightarrow> ev_time x \<le> ev_time x0))"
  using assms
proof (induction vs arbitrary: m k)
  case (Cons v vs)
  obtain d j where v: "v = (d, j)" by (cases v)
  show ?case
  proof (cases "bhead c j")
    case None
    then obtain l where r: "cal_visit c vs m = (None, m', l)"
      using Cons.prems v by (auto simp: bhead_def cal_evs_def split: list.splits prod.splits)
    show ?thesis using Cons.IH [OF r] None v by auto
  next
    case (Some y)
    then have nv: "\<not> ev_time y - c_clock c < d"
      using Cons.prems v by (auto simp: bhead_def cal_evs_def split: list.splits if_splits)
    define n where "n = (case m of None \<Rightarrow> Some (j, y) | Some (l, x) \<Rightarrow> if ev_time x > ev_time y then Some (j, y) else m)"
    obtain l where r: "cal_visit c vs n = (None, m', l)"
      using Cons.prems v Some nv by (auto simp: bhead_def cal_evs_def n_def split: list.splits prod.splits)
    have n: "n = Some (j, y) \<and> (\<forall>l0 x0. m = Some (l0, x0) \<longrightarrow> ev_time y \<le> ev_time x0) \<or>
       n = m \<and> (\<exists>l0 x0. m = Some (l0, x0) \<and> ev_time x0 \<le> ev_time y)"
      by (auto simp: n_def split: option.splits if_splits)
    note ih = Cons.IH [OF r]
    from n show ?thesis
    proof (elim disjE conjE)
      assume a: "n = Some (j, y)" "\<forall>l0 x0. m = Some (l0, x0) \<longrightarrow> ev_time y \<le> ev_time x0"
      then show ?thesis using ih Some nv v by (auto intro: order_trans)
    next
      assume a: "n = m" "\<exists>l0 x0. m = Some (l0, x0) \<and> ev_time x0 \<le> ev_time y"
      then show ?thesis using ih Some nv v by (auto intro: order_trans)
    qed
  qed
qed simp

section \<open>Bucket offsets\<close>

definition cal_idx :: "calendar \<Rightarrow> nat \<Rightarrow> nat" where
  "cal_idx c k = (c_lastbucket c + k) mod c_nbuckets c"

definition cal_diff :: "calendar \<Rightarrow> nat \<Rightarrow> real" where
  "cal_diff c k = (if k = 0 then c_diff0 c else if k = 1 then c_diff1 c else c_diff2 c)"

lemma cal_order_eq:
  assumes "4 \<le> c_nbuckets c"
  shows "cal_order c = map (\<lambda>k. (cal_diff c k, cal_idx c k)) [0..<c_nbuckets c - 1]"
proof -
  have "[0..<c_nbuckets c - 1] = 0 # 1 # [2..<c_nbuckets c - 1]"
    using assms by (simp add: upt_conv_Cons numeral_2_eq_2)
  then show ?thesis by (simp add: cal_order_def cal_diff_def cal_idx_def Let_def)
qed

text \<open>The slot of an event relative to the slot of the calendar clock.\<close>

definition rel_slot :: "calendar \<Rightarrow> event \<Rightarrow> int" where
  "rel_slot c x = cal_slot c (ev_time x) - cal_slot c (c_clock c)"

lemma rel_slot_time:
  assumes "0 < c_width c" "rel_slot c x < rel_slot c y"
  shows "ev_time x < ev_time y"
proof (rule ccontr)
  assume "\<not> ev_time x < ev_time y"
  then have "ev_time y / c_width c \<le> ev_time x / c_width c" using assms(1) by (simp add: divide_right_mono)
  then have "cal_slot c (ev_time y) \<le> cal_slot c (ev_time x)" by (simp add: cal_slot_def floor_mono)
  then show False using assms(2) by (simp add: rel_slot_def)
qed

lemma rel_slot_offset:
  assumes inv: "cal_inv u c" and x: "x \<in> cal_elems c"
  shows "0 \<le> rel_slot c x" "x \<in> set (cal_evs c (cal_idx c (nat (rel_slot c x mod int (c_nbuckets c)))))"
proof -
  let ?n = "int (c_nbuckets c)" and ?K = "cal_slot c (c_clock c)"
  have core: "cal_core u c" and n: "4 \<le> c_nbuckets c" "0 < c_width c" and t: "0 \<le> c_clock c" "c_clock c \<le> ev_time x"
    and lb: "c_lastbucket c = calendar_hash c (c_clock c)"
    using inv x by (auto simp: cal_inv_def cal_core_def)
  have "c_clock c / c_width c \<le> ev_time x / c_width c" using n(2) t(2) by (simp add: divide_right_mono)
  then show "0 \<le> rel_slot c x" by (simp add: rel_slot_def cal_slot_def floor_mono)
  have l: "int (c_lastbucket c) = ?K mod ?n" using lb t(1) n by (simp add: calendar_hash_slot)
  have "int (cal_idx c (nat (rel_slot c x mod ?n))) = (?K mod ?n + rel_slot c x mod ?n) mod ?n"
    using n l by (simp add: cal_idx_def zmod_int)
  also have "\<dots> = cal_slot c (ev_time x) mod ?n" by (simp add: mod_add_eq rel_slot_def)
  finally have "cal_idx c (nat (rel_slot c x mod ?n)) = calendar_hash c (ev_time x)"
    using t n by (simp add: calendar_hash_slot)
  then show "x \<in> set (cal_evs c (cal_idx c (nat (rel_slot c x mod ?n))))"
    using cal_core_mem [OF core] x by simp
qed

lemma cal_idx_inj:
  assumes "cal_idx c k = cal_idx c k'" "k < c_nbuckets c" "k' < c_nbuckets c"
  shows "k = k'"
proof -
  have "a = b" if "a \<le> b" "(l + a) mod n = (l + b) mod n" "b < n" for a b l n :: nat
  proof -
    have "n dvd (l + b) - (l + a)" using that(1,2) mod_eq_dvd_iff_nat [of "l + a" "l + b" n] by simp
    then have "n dvd b - a" by simp
    then show ?thesis using that(1,3) by (auto dest: dvd_imp_le)
  qed
  then show ?thesis using assms unfolding cal_idx_def by (metis nat_le_linear)
qed

lemma bucket_offset:
  assumes inv: "cal_inv u c" and k: "k < c_nbuckets c" and x: "x \<in> set (cal_evs c (cal_idx c k))"
  shows "x \<in> cal_elems c" "rel_slot c x mod int (c_nbuckets c) = int k"
proof -
  let ?n = "int (c_nbuckets c)" and ?o = "nat (rel_slot c x mod int (c_nbuckets c))"
  have core: "cal_core u c" using inv by (simp add: cal_inv_def)
  have n: "0 < c_nbuckets c" using k by simp
  have i: "cal_idx c j < c_nbuckets c" for j using n by (simp add: cal_idx_def)
  show el: "x \<in> cal_elems c" using cal_bucket_mem [OF core i] x by simp
  have o: "?o < c_nbuckets c" using n by (simp add: nat_less_iff)
  have "cal_idx c ?o = calendar_hash c (ev_time x)"
    using cal_bucket_mem [OF core i] rel_slot_offset(2) [OF inv el] by metis
  also have "\<dots> = cal_idx c k" using cal_bucket_mem [OF core i] x by metis
  finally have "?o = k" using cal_idx_inj o k by blast
  then show "rel_slot c x mod ?n = int k" using n by auto
qed

lemma slot_bounds:
  assumes "0 < c_width c"
  shows "of_int (cal_slot c t) * c_width c \<le> t" "t < (of_int (cal_slot c t) + 1) * c_width c"
proof -
  have "of_int (cal_slot c t) \<le> t / c_width c" "t / c_width c < of_int (cal_slot c t) + 1"
    by (simp_all add: cal_slot_def)
  then show "of_int (cal_slot c t) * c_width c \<le> t" "t < (of_int (cal_slot c t) + 1) * c_width c"
    using assms by (simp_all add: field_simps)
qed

text \<open>A head is accepted exactly if it is due before the calendar wraps around.\<close>

lemma cal_accept:
  assumes inv: "cal_inv u c" and k: "k + 1 < c_nbuckets c" and x: "x \<in> set (cal_evs c (cal_idx c k))"
  shows "ev_time x - c_clock c < cal_diff c k \<longleftrightarrow> rel_slot c x < int (c_nbuckets c)"
proof -
  let ?w = "c_width c" and ?n = "c_nbuckets c" and ?K = "cal_slot c (c_clock c)"
  have n: "4 \<le> ?n" "0 < ?w" and d: "c_diff0 c = ?w * real ?n / 2" "c_diff1 c = c_diff0 c + ?w" "c_diff2 c = ?w * real ?n"
    using inv by (auto simp: cal_inv_def cal_core_def)
  have o: "x \<in> cal_elems c" "rel_slot c x mod int ?n = int k" using bucket_offset [OF inv _ x] k by auto
  have r0: "0 \<le> rel_slot c x" by (rule rel_slot_offset(1) [OF inv o(1)])
  have s: "cal_slot c (ev_time x) = ?K + rel_slot c x" by (simp add: rel_slot_def)
  note b = slot_bounds [OF n(2), of "ev_time x"] slot_bounds [OF n(2), of "c_clock c"]
  have dk: "(real k + 1) * ?w \<le> cal_diff c k" "cal_diff c k \<le> (real k + real ?n - 1) * ?w"
  proof -
    have "4 * ?w \<le> real ?n * ?w" using n by (intro mult_right_mono) auto
    then have d0: "2 * ?w \<le> c_diff0 c" "c_diff0 c * 2 = real ?n * ?w" using d(1) by (simp_all add: mult.commute)
    have d0w: "?w \<le> c_diff0 c" "2 * ?w \<le> c_diff1 c" "c_diff0 c \<le> real ?n * ?w - ?w" "c_diff1 c \<le> real ?n * ?w"
      "c_diff2 c = real ?n * ?w"
      using d0 d(2,3) n(2) by (linarith, linarith, linarith, linarith, simp)
    have kn: "(real k + 1) * ?w \<le> real ?n * ?w" using k n by (intro mult_right_mono) auto
    consider "k = 0" | "k = 1" | "2 \<le> k" by linarith
    then show "(real k + 1) * ?w \<le> cal_diff c k"
      by cases (use d0w kn in \<open>simp_all add: cal_diff_def\<close>)
    have kn': "real ?n * ?w \<le> (real k + real ?n - 1) * ?w" if "2 \<le> k"
      using that n by (intro mult_right_mono) auto
    consider "k = 0" | "k = 1" | "2 \<le> k" by linarith
    then show "cal_diff c k \<le> (real k + real ?n - 1) * ?w"
      by cases (use d0w kn' in \<open>simp_all add: cal_diff_def left_diff_distrib\<close>)
  qed
  show ?thesis
  proof (cases "rel_slot c x < int ?n")
    case True
    then have rk: "rel_slot c x = int k" using o(2) r0 by simp
    have "ev_time x < (of_int ?K + real k + 1) * ?w" using b(2) by (simp add: s rk add_ac)
    then have "ev_time x - c_clock c < (real k + 1) * ?w" using b(3) by (simp add: distrib_right)
    then show ?thesis using True dk(1) by simp
  next
    case False
    have "int k + int ?n \<le> rel_slot c x"
    proof -
      have "1 \<le> rel_slot c x div int ?n" using False n by (simp add: int_one_le_iff_zero_less pos_imp_zdiv_pos_iff)
      then have "int ?n * 1 \<le> int ?n * (rel_slot c x div int ?n)" by (intro mult_left_mono) auto
      moreover have "rel_slot c x = int ?n * (rel_slot c x div int ?n) + int k"
        using o(2) by (metis mult_div_mod_eq)
      ultimately show ?thesis by linarith
    qed
    then have "real k + real ?n \<le> of_int (rel_slot c x)" by (metis of_int_add of_int_le_iff of_int_of_nat_eq)
    then have "(of_int ?K + (real k + real ?n)) * ?w \<le> (of_int ?K + of_int (rel_slot c x)) * ?w"
      using n(2) by (intro mult_right_mono) auto
    then have "(of_int ?K + (real k + real ?n)) * ?w \<le> ev_time x" using b(1) by (simp add: s)
    then have "(real k + real ?n - 1) * ?w \<le> ev_time x - c_clock c" using b(4) by (simp add: algebra_simps)
    then show ?thesis using False dk(2) by simp
  qed
qed

lemma bhead_mem:
  assumes "cal_core u c" "i < c_nbuckets c" "bhead c i = Some e"
  shows "e \<in> set (cal_evs c i)" "e \<in> cal_elems c" "calendar_hash c (ev_time e) = i"
    "\<And>x. x \<in> set (cal_evs c i) \<Longrightarrow> e \<le> x"
proof -
  obtain xs where xs: "cal_evs c i = e # xs" using assms(3) by (auto simp: bhead_def split: list.splits)
  have s: "sorted_wrt (<) (cal_evs c i)" using assms(1,2) by (simp add: cal_core_def bucket_ok_def)
  show m: "e \<in> set (cal_evs c i)" by (simp add: xs)
  then show "e \<in> cal_elems c" "calendar_hash c (ev_time e) = i" using cal_bucket_mem [OF assms(1,2)] by simp_all
  show "e \<le> x" if "x \<in> set (cal_evs c i)" for x using that s by (auto simp: xs)
qed

lemma bhead_ex: "x \<in> set (cal_evs c i) \<Longrightarrow> \<exists>y. bhead c i = Some y"
  by (auto simp: bhead_def split: list.splits)

lemma cal_idx_less [simp]: "0 < c_nbuckets c \<Longrightarrow> cal_idx c k < c_nbuckets c"
  by (simp add: cal_idx_def)

lemma rel_slot_mono:
  assumes "0 < c_width c" "ev_time x \<le> ev_time y"
  shows "rel_slot c x \<le> rel_slot c y"
  using rel_slot_time [OF assms(1), of y x] assms(2) by linarith

lemma event_offset:
  assumes "cal_inv u c" "x \<in> cal_elems c"
  obtains k where "k < c_nbuckets c" "x \<in> set (cal_evs c (cal_idx c k))" "int k = rel_slot c x mod int (c_nbuckets c)"
proof -
  let ?k = "nat (rel_slot c x mod int (c_nbuckets c))"
  have n: "0 < c_nbuckets c" using assms(1) by (auto simp: cal_inv_def cal_core_def)
  show thesis using that [of ?k] rel_slot_offset(2) [OF assms] n by (simp add: nat_less_iff)
qed

text \<open>The first accepted head is the first event.\<close>

lemma accepted_is_min:
  assumes inv: "cal_inv u c" and k: "k + 1 < c_nbuckets c" "bhead c (cal_idx c k) = Some e"
    "ev_time e - c_clock c < cal_diff c k"
    and before: "\<And>j y. j < k \<Longrightarrow> bhead c (cal_idx c j) = Some y \<Longrightarrow> \<not> ev_time y - c_clock c < cal_diff c j"
    and x: "x \<in> cal_elems c"
  shows "e \<le> x"
proof -
  have core: "cal_core u c" and n: "0 < c_nbuckets c" "0 < c_width c"
    using inv by (auto simp: cal_inv_def cal_core_def)
  note e = bhead_mem [OF core cal_idx_less [OF n(1)] k(2)]
  have ee: "e \<in> cal_elems c" "rel_slot c e mod int (c_nbuckets c) = int k"
    using bucket_offset [OF inv _ e(1)] k(1) by auto
  have "rel_slot c e < int (c_nbuckets c)" using cal_accept [OF inv k(1) e(1)] k(3) by simp
  then have re: "rel_slot c e = int k" using ee(2) rel_slot_offset(1) [OF inv ee(1)] by simp
  obtain j where j: "j < c_nbuckets c" "x \<in> set (cal_evs c (cal_idx c j))" "int j = rel_slot c x mod int (c_nbuckets c)"
    using event_offset [OF inv x] by blast
  have lt: "e < x" if "rel_slot c e < rel_slot c x" using rel_slot_time [OF n(2) that] by (rule event_less_time)
  have rx: "int j \<le> rel_slot c x" unfolding j(3) using rel_slot_offset(1) [OF inv x] by (simp add: zmod_le_nonneg_dividend)
  consider "j < k" | "j = k" | "k < j" by linarith
  then show ?thesis
  proof cases
    case 1
    obtain y where y: "bhead c (cal_idx c j) = Some y" using bhead_ex [OF j(2)] by blast
    note ym = bhead_mem [OF core cal_idx_less [OF n(1)] y]
    have "\<not> rel_slot c y < int (c_nbuckets c)"
      using cal_accept [OF inv _ ym(1)] before [OF 1 y] 1 k(1) by simp
    moreover have "rel_slot c y \<le> rel_slot c x" by (rule rel_slot_mono [OF n(2) event_le_time [OF ym(4) [OF j(2)]]])
    ultimately show ?thesis using lt re k(1) by simp
  next
    case 2
    then show ?thesis using e(4) j(2) by simp
  next
    case 3
    then show ?thesis using lt re rx by simp
  qed
qed

text \<open>A head with the earliest time of all heads is the first event.\<close>

lemma earliest_head_is_min:
  assumes inv: "cal_inv u c" and l: "l < c_nbuckets c" "bhead c l = Some e"
    and all: "\<And>k y. k < c_nbuckets c \<Longrightarrow> bhead c (cal_idx c k) = Some y \<Longrightarrow> ev_time e \<le> ev_time y"
    and x: "x \<in> cal_elems c"
  shows "e \<le> x"
proof -
  have core: "cal_core u c" and n: "0 < c_nbuckets c" using inv by (auto simp: cal_inv_def cal_core_def)
  obtain k where k: "k < c_nbuckets c" "x \<in> set (cal_evs c (cal_idx c k))" using event_offset [OF inv x] by blast
  obtain y where y: "bhead c (cal_idx c k) = Some y" using bhead_ex [OF k(2)] by blast
  note ym = bhead_mem [OF core cal_idx_less [OF n] y] and em = bhead_mem [OF core l]
  have "ev_time e < ev_time y \<or> y = e"
    using all [OF k(1) y] ym(3) em(3) y l(2) by (metis option.inject order_le_less)
  then show ?thesis using ym(4) [OF k(2)] event_less_time [of e y] by auto
qed

lemma upt_split:
  assumes "map f [0..<n] = us @ v # ws"
  shows "length us < n" "v = f (length us)" "us = map f [0..<length us]"
proof -
  have "length (map f [0..<n]) = length us + Suc (length ws)" unfolding assms by simp
  then show l: "length us < n" by simp
  have "map f [0..<n] ! length us = v" unfolding assms by simp
  then show "v = f (length us)" using l by simp
  have "take (length us) (map f [0..<n]) = us" unfolding assms by simp
  then show "us = map f [0..<length us]" using l by (simp add: take_map)
qed

lemma cal_dec_idx:
  assumes "cal_inv u c"
  shows "(if c_lastbucket c > 0 then c_lastbucket c - 1 else c_nbuckets c - 1) = cal_idx c (c_nbuckets c - 1)"
proof -
  have n: "4 \<le> c_nbuckets c" "0 < c_width c" "c_lastbucket c < c_nbuckets c"
    using assms calendar_hash_less [of "c_clock c" c] by (auto simp: cal_inv_def cal_core_def)
  have "c_lastbucket c + (c_nbuckets c - 1) = c_nbuckets c + (c_lastbucket c - 1)" if "0 < c_lastbucket c"
    using that n(1) by simp
  then have "cal_idx c (c_nbuckets c - 1) = (c_lastbucket c - 1) mod c_nbuckets c" if "0 < c_lastbucket c"
    using that unfolding cal_idx_def by (metis mod_add_self1)
  then show ?thesis using n by (auto simp: cal_idx_def)
qed

lemma cal_pick_earliest:
  assumes "m \<noteq> None \<or> bhead c i \<noteq> None"
  shows "\<exists>l e. cal_pick i (cal_evs c i) m = Some (l, e) \<and> (m = Some (l, e) \<or> l = i \<and> bhead c i = Some e) \<and>
    (\<forall>l' x. m = Some (l', x) \<longrightarrow> ev_time e \<le> ev_time x) \<and> (\<forall>y. bhead c i = Some y \<longrightarrow> ev_time e \<le> ev_time y)"
  using assms by (auto simp: cal_pick_def bhead_def split: list.splits option.splits)

lemma cal_search_min:
  assumes inv: "cal_inv u c" and ne: "cal_elems c \<noteq> {}"
  obtains l e k where "cal_search c = (Some (l, e), k)" "l < c_nbuckets c" "bhead c l = Some e"
    "\<forall>x \<in> cal_elems c. e \<le> x"
proof -
  have core: "cal_core u c" and n: "4 \<le> c_nbuckets c" "0 < c_nbuckets c"
    using inv by (auto simp: cal_inv_def cal_core_def)
  obtain f m k where v: "cal_visit c (cal_order c) None = (f, m, k)" using prod_cases3 by blast
  define i where "i = cal_idx c (c_nbuckets c - 1)"
  note ord = cal_order_eq [OF n(1)]
  show thesis
  proof (cases f)
    case (Some le)
    obtain l e where le: "le = (l, e)" by (cases le)
    obtain us d ws where u: "cal_order c = us @ (d, l) # ws" "bhead c l = Some e" "ev_time e - c_clock c < d"
      "\<forall>(d', i') \<in> set us. \<forall>y. bhead c i' = Some y \<longrightarrow> \<not> ev_time y - c_clock c < d'"
      using cal_visit_found [of c "cal_order c" None l e m k] v Some le by auto
    note sp = upt_split [OF u(1) [unfolded ord]]
    have dl: "d = cal_diff c (length us)" "l = cal_idx c (length us)" using sp(2) by auto
    have before: "\<not> ev_time y - c_clock c < cal_diff c j" if "j < length us" "bhead c (cal_idx c j) = Some y" for j y
    proof -
      have "(cal_diff c j, cal_idx c j) \<in> set us" by (subst sp(3)) (use that(1) in auto)
      then show ?thesis using u(4) that(2) by auto
    qed
    have "e \<le> x" if "x \<in> cal_elems c" for x
    proof (rule accepted_is_min [OF inv, of "length us"])
      show "length us + 1 < c_nbuckets c" using sp(1) by simp
    qed (use u(2,3) dl before that in auto)
    then have "\<forall>x \<in> cal_elems c. e \<le> x" by blast
    moreover have "cal_search c = (Some (l, e), k)" using v Some le by (simp add: cal_search_def)
    ultimately show thesis using that u(2) dl(2) n(2) by simp
  next
    case None
    note nf = cal_visit_none [OF v [unfolded None]]
    have mem: "(cal_diff c j, cal_idx c j) \<in> set (cal_order c)" if "j + 1 < c_nbuckets c" for j
      unfolding ord using that by auto
    have s: "cal_search c = (cal_pick i (cal_evs c i) m, k)"
      unfolding cal_search_def i_def cal_evs_def cal_dec_idx [OF inv] using v None by (simp add: Let_def)
    have nf_none: "bhead c b = None" if "m = None" "(d, b) \<in> set (cal_order c)" for d b using nf that by blast
    have nf_le: "ev_time x \<le> ev_time y" if "m = Some (l, x)" "(d, b) \<in> set (cal_order c)" "bhead c b = Some y" for l x d b y
      using nf that by blast
    have nf_mem: "\<exists>d. (d, l) \<in> set (cal_order c) \<and> bhead c l = Some x" if "m = Some (l, x)" for l x
      using nf that by blast
    have heads: "(\<exists>l x. m = Some (l, x) \<and> ev_time x \<le> ev_time y) \<or> bhead c i = Some y"
      if "bhead c (cal_idx c j) = Some y" "j < c_nbuckets c" for j y
    proof (cases "j + 1 < c_nbuckets c")
      case True
      then have "m \<noteq> None" using nf_none [OF _ mem] that(1) by fastforce
      then obtain l x where lx: "m = Some (l, x)" by fast
      then show ?thesis using nf_le [OF lx mem [OF True] that(1)] by blast
    next
      case False
      then have "j = c_nbuckets c - 1" using that(2) by linarith
      then show ?thesis using that(1) by (simp add: i_def)
    qed
    have m: "l < c_nbuckets c \<and> bhead c l = Some x" if lx: "m = Some (l, x)" for l x
    proof -
      obtain d where "(d, l) \<in> set (cal_order c)" "bhead c l = Some x" using nf_mem [OF lx] by blast
      then show ?thesis using n(2) by (auto simp: ord)
    qed
    obtain x0 j0 where "x0 \<in> cal_elems c" "j0 < c_nbuckets c" "x0 \<in> set (cal_evs c (cal_idx c j0))"
      using ne event_offset [OF inv] by (metis all_not_in_conv)
    then obtain y0 where "bhead c (cal_idx c j0) = Some y0" "j0 < c_nbuckets c" using bhead_ex by blast
    then have "m \<noteq> None \<or> bhead c i \<noteq> None" using heads by blast
    then obtain l e where r: "cal_pick i (cal_evs c i) m = Some (l, e)" "m = Some (l, e) \<or> l = i \<and> bhead c i = Some e"
      "\<And>l' x. m = Some (l', x) \<Longrightarrow> ev_time e \<le> ev_time x" "\<And>y. bhead c i = Some y \<Longrightarrow> ev_time e \<le> ev_time y"
      using cal_pick_earliest by metis
    have l: "l < c_nbuckets c" "bhead c l = Some e" using r(2) m n(2) by (auto simp: i_def)
    have "\<forall>x \<in> cal_elems c. e \<le> x"
      using earliest_head_is_min [OF inv l] heads r(3,4) by (meson order_trans)
    then show thesis using that s r(1) l by simp
  qed
qed

section \<open>Taking the first event\<close>

lemma cal_head_props:
  assumes inv: "cal_inv u c" and ne: "cal_elems c \<noteq> {}"
  obtains c' where "cal_head c = (Some (Min (cal_elems c)), c')" "cal_inv u c'" "cal_elems c' = cal_elems c"
    "c_clock c' = ev_time (Min (cal_elems c))"
proof -
  have core: "cal_core u c" using inv by (simp add: cal_inv_def)
  then have fin: "finite (cal_elems c)" and q: "c_qsize c \<noteq> 0"
    using ne by (auto simp: cal_core_def good_events_def)
  obtain l e k where s: "cal_search c = (Some (l, e), k)" "l < c_nbuckets c" "bhead c l = Some e"
    "\<forall>x \<in> cal_elems c. e \<le> x"
    using cal_search_min [OF inv ne] by blast
  note em = bhead_mem [OF core s(2,3)]
  have m: "Min (cal_elems c) = e" using fin em(2) s(4) by (intro Min_event_eqI) auto
  let ?c = "c\<lparr>c_head_search := c_head_search c + k, c_lastbucket := l, c_clock := ev_time e\<rparr>"
  have h: "cal_head c = (Some e, ?c)" using q s(1) by (simp add: cal_head_def)
  have "cal_core u ?c" "cal_elems ?c = cal_elems c" "calendar_hash ?c = calendar_hash c"
    using core cal_core_cong [of ?c c u] cal_elems_cong [of ?c c] calendar_hash_cong [of ?c c] by simp_all
  moreover have "0 \<le> ev_time e" using core em(2) by (auto simp: cal_core_def good_events_def)
  ultimately have "cal_inv u ?c" using em(3) s(4) event_le_time by (auto simp: cal_inv_def)
  then show thesis using that [of ?c] h m \<open>cal_elems ?c = cal_elems c\<close> by simp
qed

lemma same_queue_agree:
  assumes "cal_core u c" "c_buckets c' = c_buckets c" "c_nbuckets c' = c_nbuckets c" "c_width c' = c_width c"
    "c_diff0 c' = c_diff0 c" "c_diff1 c' = c_diff1 c" "c_diff2 c' = c_diff2 c" "c_qsize c' = c_qsize c"
    "c_stat_qsize c' = c_stat_qsize c" "c_clock c' = c_clock c" "c_lastbucket c' = c_lastbucket c"
  shows "same_queue u st c c'"
  using assms cal_core_cong [of c' c u] cal_elems_cong [of c' c] calendar_hash_cong [of c' c]
  by (simp add: same_queue_def)

lemma same_queue_trans: "same_queue u st c c1 \<Longrightarrow> same_queue u st c1 c2 \<Longrightarrow> same_queue u st c c2"
  by (simp add: same_queue_def)

lemma cal_sample_same:
  assumes "cal_core u c"
  shows "same_queue u (c_clock c) c (cal_sample e c)"
proof -
  define c1 where "c1 = c\<lparr>c_gap_num := c_gap_num c + 1\<rparr>"
  define c2 where "c2 = c1\<lparr>c_avg_gap := (ev_time e - c_last_time c1) / of_int (c_gap_num c1),
    c_gap_num := 0, c_last_time := ev_time e, c_round_num := c_round_num c1 + 1\<rparr>"
  define c3 where "c3 = cal_resize (c_nbuckets c2) (c_clock c2) c2"
  have n: "0 < c_nbuckets c2" using assms by (simp add: cal_core_def c1_def c2_def)
  have s1: "same_queue u (c_clock c) c c1" by (rule same_queue_agree [OF assms]) (simp_all add: c1_def)
  have s2: "same_queue u (c_clock c) c c2" by (rule same_queue_agree [OF assms]) (simp_all add: c1_def c2_def)
  then have core2: "cal_core u c2" "c_clock c2 = c_clock c" by (simp_all add: same_queue_def)
  have s3: "same_queue u (c_clock c) c2 c3"
    using cal_resize_same [OF core2(1) n, of "c_clock c2"] core2(2) by (simp add: c3_def)
  then have "cal_core u c3" by (simp add: same_queue_def)
  then have "same_queue u (c_clock c) c3 (c3\<lparr>c_round_num := 0\<rparr>)" by (rule same_queue_agree) simp_all
  then have s4: "same_queue u (c_clock c) c (c3\<lparr>c_round_num := 0\<rparr>)" using s2 s3 same_queue_trans by blast
  have s5: "same_queue u (c_clock c) c (c2\<lparr>c_round_num := 0, c_head_search := 0, c_insert_search := 0\<rparr>)"
    by (rule same_queue_agree [OF assms]) (simp_all add: c1_def c2_def)
  have s6: "same_queue u (c_clock c) c (c\<lparr>c_last_time := ev_time e\<rparr>)"
    by (rule same_queue_agree [OF assms]) simp_all
  have s0: "same_queue u (c_clock c) c c" by (rule same_queue_agree [OF assms]) simp_all
  show ?thesis
    unfolding cal_sample_def Let_def c1_def [symmetric] c2_def [symmetric] c3_def [symmetric]
    using s0 s1 s2 s4 s5 s6 by simp
qed

section \<open>Removing an event\<close>

lemma bucket_remove_frame [simp]:
  "c_nbuckets (bucket_remove i L gone c) = c_nbuckets c" "c_clock (bucket_remove i L gone c) = c_clock c"
  "c_lastbucket (bucket_remove i L gone c) = c_lastbucket c"
  "calendar_hash (bucket_remove i L gone c) = calendar_hash c"
  "c_width (bucket_remove i L gone c) = c_width c" "c_diff0 (bucket_remove i L gone c) = c_diff0 c"
  "c_diff1 (bucket_remove i L gone c) = c_diff1 c" "c_diff2 (bucket_remove i L gone c) = c_diff2 c"
  "length (c_buckets (bucket_remove i L gone c)) = length (c_buckets c)"
  "c_qsize (bucket_remove i L gone c) = c_qsize c - 1"
  "c_stat_qsize (bucket_remove i L gone c) = c_stat_qsize c - (if gone then 1 else 0)"
  by (simp_all add: bucket_remove_def calendar_hash_def fun_eq_iff)

lemma cal_evs_bucket_remove:
  "i < length (c_buckets c) \<Longrightarrow> cal_evs (bucket_remove i L gone c) j = (if j = i then L else cal_evs c j)"
  by (simp add: cal_evs_def bucket_remove_def nth_list_update)

lemma card_times_remove:
  assumes "finite S" "e \<in> S"
  shows "int (card (ev_time ` (S - {e}))) =
    int (card (ev_time ` S)) - (if ev_time e \<notin> ev_time ` (S - {e}) then 1 else 0)"
proof -
  have "ev_time ` S = insert (ev_time e) (ev_time ` (S - {e}))" using assms(2) by auto
  then show ?thesis using assms(1) by (simp add: card_insert_if)
qed

lemma bucket_remove_core:
  assumes core: "cal_core u c" and e: "e \<in> cal_elems c" and i: "i = calendar_hash c (ev_time e)"
    and L: "set L = set (cal_evs c i) - {e}" "sorted_wrt (<) L" and gone: "gone \<longleftrightarrow> ev_time e \<notin> ev_time ` set L"
  shows "cal_core u (bucket_remove i L gone c)" "cal_elems (bucket_remove i L gone c) = cal_elems c - {e}"
proof -
  let ?c = "bucket_remove i L gone c"
  have t: "0 \<le> ev_time e" and fin: "finite (cal_elems c)" and g: "good_events u (cal_elems c)"
    and len: "length (c_buckets c) = c_nbuckets c"
    using core e by (auto simp: cal_core_def good_events_def)
  have il: "i < c_nbuckets c" using core t i calendar_hash_less [of "ev_time e" c] by (auto simp: cal_core_def)
  note mem = cal_bucket_mem [OF core]
  show el: "cal_elems ?c = cal_elems c - {e}"
  proof (rule set_eqI)
    fix x
    have "x \<in> cal_elems ?c \<longleftrightarrow> (\<exists>j < c_nbuckets c. x \<in> set (if j = i then L else cal_evs c j))"
      using il len by (simp add: cal_elems_iff cal_evs_bucket_remove)
    also have "\<dots> \<longleftrightarrow> (\<exists>j < c_nbuckets c. x \<in> set (cal_evs c j) - {e})"
    proof -
      have "x \<in> set (if j = i then L else cal_evs c j) \<longleftrightarrow> x \<in> set (cal_evs c j) - {e}" if "j < c_nbuckets c" for j
        using L(1) mem [OF that, of e] i by (cases "j = i") auto
      then show ?thesis by blast
    qed
    also have "\<dots> \<longleftrightarrow> x \<in> cal_elems c - {e}" unfolding Diff_iff cal_elems_iff len by blast
    finally show "x \<in> cal_elems ?c \<longleftrightarrow> x \<in> cal_elems c - {e}" .
  qed
  have eL: "e \<in> set (cal_evs c i)" using mem [OF il, of e] e i by simp
  have gone': "gone \<longleftrightarrow> ev_time e \<notin> ev_time ` (cal_elems c - {e})"
  proof -
    have "x \<in> set L" if "x \<in> cal_elems c - {e}" "ev_time x = ev_time e" for x
      using mem [OF il, of x] that i L(1) by simp
    moreover have "x \<in> cal_elems c - {e}" if "x \<in> set L" for x using mem [OF il, of x] that L(1) by simp
    ultimately have "ev_time e \<in> ev_time ` set L \<longleftrightarrow> ev_time e \<in> ev_time ` (cal_elems c - {e})"
      unfolding image_iff by metis
    then show ?thesis using gone by simp
  qed
  have cnt: "b_count (c_buckets c ! i) = int (card (ev_time ` set (cal_evs c i)))" "sorted_wrt (<) (cal_evs c i)"
    "\<forall>e \<in> set (cal_evs c i). calendar_hash c (ev_time e) = i"
    using core il by (auto simp: cal_core_def bucket_ok_def)
  have "bucket_ok ?c j" if j: "j < c_nbuckets c" for j
  proof (cases "j = i")
    case True
    have "b_count (c_buckets ?c ! i) = int (card (ev_time ` set L))"
      using il len gone card_times_remove [OF finite_set eL] cnt(1) unfolding L(1) [symmetric]
      by (simp add: bucket_remove_def)
    then show ?thesis
      using True il len L cnt(3) by (simp add: bucket_ok_def cal_evs_bucket_remove)
  next
    case False
    then have "c_buckets ?c ! j = c_buckets c ! j" using il len by (simp add: bucket_remove_def)
    then show ?thesis using False core il len j by (simp add: bucket_ok_def cal_evs_bucket_remove cal_core_def)
  qed
  moreover have "c_qsize ?c = int (card (cal_elems ?c))"
  proof -
    have "c_qsize c = int (card (cal_elems c))" using core by (simp add: cal_core_def)
    then show ?thesis using card_Suc_Diff1 [OF fin e] unfolding el by (metis add_diff_cancel_left' bucket_remove_frame(10) of_nat_Suc plus_1_eq_Suc add.commute)
  qed
  moreover have "c_stat_qsize ?c = int (card (ev_time ` cal_elems ?c))"
  proof -
    have "c_stat_qsize c = int (card (ev_time ` cal_elems c))" using core by (simp add: cal_core_def)
    then show ?thesis unfolding el card_times_remove [OF fin e] gone' [symmetric] by simp
  qed
  ultimately show "cal_core u ?c"
    using core good_events_subset [OF g, of "cal_elems c - {e}"] by (simp add: cal_core_def el)
qed

text \<open>The head of a bucket: its time is gone exactly if the next event has another time.\<close>

lemma cal_unlink_head_core:
  assumes core: "cal_core u c" and l: "c_lastbucket c = calendar_hash c (ev_time e)"
    and e: "e \<in> cal_elems c" "\<forall>x \<in> cal_elems c. e \<le> x"
  shows "cal_core u (cal_unlink_head c)" "cal_elems (cal_unlink_head c) = cal_elems c - {e}"
    "c_clock (cal_unlink_head c) = c_clock c" "c_lastbucket (cal_unlink_head c) = c_lastbucket c"
    "calendar_hash (cal_unlink_head c) = calendar_hash c"
proof -
  define i where "i = c_lastbucket c"
  have t: "0 \<le> ev_time e" using core e(1) by (auto simp: cal_core_def good_events_def)
  have il: "i < c_nbuckets c" using core t l calendar_hash_less [of "ev_time e" c] by (auto simp: cal_core_def i_def)
  note mem = cal_bucket_mem [OF core il]
  have s: "sorted_wrt (<) (cal_evs c i)" using core il by (simp add: cal_core_def bucket_ok_def)
  have "e \<in> set (cal_evs c i)" using mem [of e] e(1) l by (simp add: i_def)
  then obtain h xs where hx: "cal_evs c i = h # xs" by (cases "cal_evs c i") auto
  have "h \<in> cal_elems c" using mem [of h] hx by simp
  then have "e \<le> h" using e(2) by simp
  moreover have "h \<le> e" using s \<open>e \<in> set (cal_evs c i)\<close> by (auto simp: hx)
  ultimately have h: "h = e" by simp
  let ?gone = "xs = [] \<or> ev_time (hd xs) \<noteq> ev_time e"
  have r: "cal_unlink_head c = bucket_remove i xs ?gone c"
    using hx h by (simp add: cal_unlink_head_def Let_def i_def cal_evs_def)
  have "?gone \<longleftrightarrow> ev_time e \<notin> ev_time ` set xs"
  proof (cases xs)
    case (Cons y ys)
    have "tsorted (h # y # ys)" using tsortedI [OF s] by (simp add: hx Cons)
    then show ?thesis using h Cons by (auto simp: image_iff)
  qed simp
  then show "cal_core u (cal_unlink_head c)" "cal_elems (cal_unlink_head c) = cal_elems c - {e}"
    unfolding r using bucket_remove_core [OF core e(1), of i xs] s hx h l by (auto simp: i_def)
  show "c_clock (cal_unlink_head c) = c_clock c" "c_lastbucket (cal_unlink_head c) = c_lastbucket c"
    "calendar_hash (cal_unlink_head c) = calendar_hash c"
    by (simp_all add: r)
qed

lemma cal_deque_some:
  assumes inv: "cal_inv u c" and ne: "cal_elems c \<noteq> {}"
  shows "\<exists>c'. cal_deque c = (Some (Min (cal_elems c)), c') \<and> cal_inv u c' \<and>
    cal_elems c' = cal_elems c - {Min (cal_elems c)}"
proof -
  define e where "e = Min (cal_elems c)"
  obtain c1 where h: "cal_head c = (Some e, c1)" "cal_inv u c1" "cal_elems c1 = cal_elems c" "c_clock c1 = ev_time e"
    using cal_head_props [OF inv ne] by (auto simp: e_def)
  have core1: "cal_core u c1" "0 \<le> c_clock c1" "c_lastbucket c1 = calendar_hash c1 (c_clock c1)"
    "\<forall>x \<in> cal_elems c1. c_clock c1 \<le> ev_time x"
    using h(2) by (auto simp: cal_inv_def)
  define c2 where "c2 = cal_sample e c1"
  have s2: "same_queue u (c_clock c1) c1 c2" using cal_sample_same [OF core1(1)] by (simp add: c2_def)
  note i2 = same_queue_inv [OF s2 core1(2,3,4)]
  have fin: "finite (cal_elems c)" using inv by (simp add: cal_inv_def cal_core_def good_events_def)
  have e: "e \<in> cal_elems c2" "\<forall>x \<in> cal_elems c2. e \<le> x"
    using fin ne i2(2) h(3) by (auto simp: e_def)
  have c2: "c_clock c2 = ev_time e" "cal_core u c2" "c_lastbucket c2 = calendar_hash c2 (ev_time e)"
    using s2 h(4) i2(1) by (auto simp: same_queue_def cal_inv_def)
  define c3 where "c3 = cal_unlink_head c2"
  note u3 = cal_unlink_head_core [OF c2(2,3) e, folded c3_def]
  define c4 where "c4 = (if c_stat_qsize c3 < c_bot c3 then cal_resize (c_nbuckets c3 div 2) (c_clock c3) c3 else c3)"
  have n3: "0 < c_nbuckets c3 div 2" using u3(1) by (auto simp: cal_core_def)
  have "same_queue u (c_clock c3) c3 c4"
    using cal_resize_same [OF u3(1) n3] same_queue_agree [OF u3(1), of c3] by (simp add: c4_def)
  then have i4: "cal_inv u c4" "cal_elems c4 = cal_elems c3"
    by (rule same_queue_inv; use u3 c2 e(2) i2(1) event_le_time in \<open>auto simp: cal_inv_def\<close>)+
  have "cal_deque c = (Some e, c4)"
    using h(1) by (simp add: cal_deque_def c2_def c3_def c4_def Let_def)
  then show ?thesis using i4 u3(2) i2(2) h(3) by (auto simp: e_def)
qed

lemma takeWhile_dropWhile_id:
  assumes "inj_on ev_id (set L)" "e \<in> set L"
  obtains f b where "L = f @ e # b" "takeWhile (\<lambda>x. ev_id x \<noteq> ev_id e) L = f" "dropWhile (\<lambda>x. ev_id x \<noteq> ev_id e) L = e # b"
proof -
  obtain f b where L: "L = f @ e # b" "e \<notin> set f" using split_list_first [OF assms(2)] by blast
  have "\<forall>x \<in> set f. ev_id x \<noteq> ev_id e" using assms(1) L by (auto simp: inj_on_def)
  then show thesis using that [of f b] L(1) by simp
qed

text \<open>The neighbours in the circular list tell whether a time occurs once.\<close>

lemma ring_unique:
  assumes "tsorted (f @ e # b)"
  shows "(b @ f = [] \<or> ev_time (hd (b @ f)) \<noteq> ev_time e \<and> ev_time (last (b @ f)) \<noteq> ev_time e) \<longleftrightarrow>
    ev_time e \<notin> ev_time ` set (f @ b)"
proof -
  have le: "\<forall>x \<in> set f. ev_time x \<le> ev_time e" "\<forall>x \<in> set b. ev_time e \<le> ev_time x" and fs: "tsorted f" and bs: "tsorted b"
    and fb: "\<forall>x \<in> set f. \<forall>y \<in> set b. ev_time x \<le> ev_time y"
    using assms by (auto simp: sorted_wrt_append)
  have bh: "ev_time e \<in> ev_time ` set b \<longleftrightarrow> b \<noteq> [] \<and> ev_time (hd b) = ev_time e"
  proof
    assume "ev_time e \<in> ev_time ` set b"
    then obtain x where "x \<in> set b" "ev_time x = ev_time e" by auto
    then show "b \<noteq> [] \<and> ev_time (hd b) = ev_time e" using tsorted_hd [OF bs] le(2) by (cases b) force+
  qed (metis hd_in_set imageI)
  have fl: "ev_time e \<in> ev_time ` set f \<longleftrightarrow> f \<noteq> [] \<and> ev_time (last f) = ev_time e"
  proof
    assume "ev_time e \<in> ev_time ` set f"
    then obtain x where x: "x \<in> set f" "ev_time x = ev_time e" by auto
    then have "f \<noteq> []" by auto
    then have "ev_time (last f) \<le> ev_time e" using le(1) by simp
    then show "f \<noteq> [] \<and> ev_time (last f) = ev_time e" using tsorted_last [OF fs x(1)] x(2) \<open>f \<noteq> []\<close> by simp
  qed (metis last_in_set imageI)
  have hf: "ev_time (hd f) = ev_time e \<Longrightarrow> f \<noteq> [] \<Longrightarrow> ev_time e \<in> ev_time ` set f" by (metis hd_in_set imageI)
  have lb: "ev_time (last b) = ev_time e \<Longrightarrow> b \<noteq> [] \<Longrightarrow> ev_time e \<in> ev_time ` set b" by (metis last_in_set imageI)
  have im: "ev_time e \<in> ev_time ` set (f @ b) \<longleftrightarrow> ev_time e \<in> ev_time ` set f \<or> ev_time e \<in> ev_time ` set b"
    by (simp add: image_Un)
  show ?thesis
  proof (cases "b = []")
    case True
    then show ?thesis using fl hf im by auto
  next
    case ne: False
    then show ?thesis using bh fl lb im by (cases "f = []") (auto simp: hd_append last_append)
  qed
qed

lemma cal_cancel_queued:
  assumes inv: "cal_inv u c" and e: "e \<in> cal_elems c"
  shows "\<exists>c'. cal_cancel e c = Some (neg_uid e, c') \<and> cal_inv u c' \<and> cal_elems c' = cal_elems c - {e}"
proof -
  have core: "cal_core u c" and g: "good_events u (cal_elems c)" using inv by (auto simp: cal_inv_def cal_core_def)
  define i where "i = calendar_hash c (ev_time e)"
  have t: "0 \<le> ev_time e" "0 < ev_uid e" using g e by (auto simp: good_events_def)
  have il: "i < c_nbuckets c" using core t calendar_hash_less [of "ev_time e" c] by (auto simp: cal_core_def i_def)
  note mem = cal_bucket_mem [OF core il]
  have s: "sorted_wrt (<) (cal_evs c i)" using core il by (simp add: cal_core_def bucket_ok_def)
  have "set (cal_evs c i) \<subseteq> cal_elems c" using mem by auto
  then have inj: "inj_on ev_id (set (cal_evs c i))" using g by (auto simp: good_events_def intro: inj_on_subset)
  have "e \<in> set (cal_evs c i)" using mem [of e] e by (simp add: i_def)
  then obtain f b where fb: "cal_evs c i = f @ e # b" "takeWhile (\<lambda>x. ev_id x \<noteq> ev_id e) (cal_evs c i) = f"
    "dropWhile (\<lambda>x. ev_id x \<noteq> ev_id e) (cal_evs c i) = e # b"
    using takeWhile_dropWhile_id [OF inj] by blast
  let ?gone = "b @ f = [] \<or> ev_time (hd (b @ f)) \<noteq> ev_time e \<and> ev_time (last (b @ f)) \<noteq> ev_time e"
  define c' where "c' = bucket_remove i (f @ b) ?gone c"
  have r: "cal_cancel e c = Some (neg_uid e, c')"
    using t(2) fb(2,3) by (simp add: cal_cancel_def Let_def i_def [symmetric] cal_evs_def [symmetric] c'_def)
  have s': "sorted_wrt (<) (f @ b)" "set (f @ b) = set (cal_evs c i) - {e}"
    using s sorted_wrt_distinct [OF s] by (auto simp: fb(1) sorted_wrt_append)
  have u: "?gone \<longleftrightarrow> ev_time e \<notin> ev_time ` set (f @ b)"
    using ring_unique [of f e b] tsortedI [OF s] by (simp add: fb(1))
  note rm = bucket_remove_core [OF core e i_def s'(2,1) u, folded c'_def]
  have "cal_inv u c'" using inv rm by (auto simp: cal_inv_def c'_def)
  then show ?thesis using r rm(2) by simp
qed

lemma cal_lookup_concat: "set (concat (map b_list (c_buckets c))) = cal_elems c"
  by (auto simp: cal_elems_def)

lemma cal_new_inv: "0 < u \<Longrightarrow> cal_inv u (cal_new a w)"
proof -
  have r: "cal_inv u (cal_reinit 4 1 0 z)" if "c_clock z = 0" for z
    using cal_reinit_core(1) [of 4 1 u 0 z] cal_reinit_core(2-5) [of 4 1 0 z] that by (simp add: cal_inv_def)
  show ?thesis unfolding cal_new_def by (rule r) simp
qed

interpretation calendar_q: event_queue_head "cal_new adjust w" cal_insert cal_deque cal_cancel cal_lookup
    cal_elems cal_inv lim cal_head
  for adjust w lim
proof (unfold_locales, goal_cases)
  case (1 u) then show ?case by (rule cal_new_inv)
next
  case 2 then show ?case by (auto simp: cal_new_def cal_elems_def cal_reinit_def Let_def)
next
  case (3 u q) then show ?case by (simp add: cal_inv_def cal_core_def)
next
  case (4 u q e) then show ?case by (simp add: cal_insert_inv)
next
  case (5 u q e) then show ?case by (simp add: cal_insert_inv)
next
  case (6 u q) then show ?case by (simp add: cal_deque_def cal_head_def cal_inv_def cal_core_def)
next
  case (7 u q) then show ?case by (rule cal_deque_some)
next
  case (8 u q e) then show ?case by (rule cal_cancel_queued)
next
  case (9 u q e) then show ?case by (simp add: cal_cancel_def)
next
  case (10 u q e)
  have g: "inj_on ev_uid (cal_elems q)" using 10(1) by (simp add: cal_inv_def cal_core_def good_events_def)
  then show ?case using 10(2) find_uid [of "concat (map b_list (c_buckets q))" e]
    unfolding cal_lookup_def by (simp only: cal_lookup_concat)
next
  case (11 u q v)
  then show ?case using cal_lookup_concat [of q] by (auto simp: cal_lookup_def find_None_iff)
next
  case (12 u q) then show ?case by (simp add: cal_head_def cal_inv_def cal_core_def)
next
  case (13 u q) then show ?case using cal_head_props [OF 13] by metis
qed

end
