(* ===== verification/Scheduler.thy ===== *)
theory Scheduler
  imports ListSched MapSched SplaySched HeapSched CalendarQueue
begin

text \<open>
  \<open>Scheduler\<close> (common/scheduler.cc): scheduling, cancelling and dispatching events, the
  simulation loop, the script commands that touch the queue, and the queue dump. The event
  queue is given by its three virtual operations. Event objects live in \<open>sc_events\<close>, by
  address; what a handler does is its list of requests to the scheduler and a change of the
  rest of the simulation state, both chosen by the parameter \<open>handle\<close>, which stands for the
  virtual \<open>Handler::handle\<close>. The identifier counter is a signed 64-bit integer.
\<close>

section \<open>State and operations\<close>

record ('q, 's) sim =
  sc_clock :: real
  sc_halted :: bool
  sc_uid :: int
  sc_queue :: 'q
  sc_events :: "nat \<Rightarrow> event"
  sc_state :: 's
  sc_trace :: "event list"

record 'q qops =
  q_insert :: "event \<Rightarrow> 'q \<Rightarrow> 'q"
  q_deque :: "'q \<Rightarrow> event option \<times> 'q"
  q_cancel :: "event \<Rightarrow> 'q \<Rightarrow> (event \<times> 'q) option"

datatype sched_error = NullHandler | UidNotValid | UidExhausted | GoingBackwards | CancelAbort

datatype request = RSchedule "nat option" nat real | RCancel nat | RHalt

type_synonym 's handler_fun = "event \<Rightarrow> real \<Rightarrow> 's \<Rightarrow> request list \<times> 's"

definition sched_new :: "'q \<Rightarrow> 's \<Rightarrow> ('q, 's) sim" where
  "sched_new q st = \<lparr>sc_clock = 0, sc_halted = False, sc_uid = 1, sc_queue = q,
     sc_events = (\<lambda>i. Event i 0 0 0), sc_state = st, sc_trace = []\<rparr>"

text \<open>\<open>uid_++\<close> on 64 bits.\<close>

definition uid_next :: "int \<Rightarrow> int" where
  "uid_next u = (if u = 2 ^ 63 - 1 then - (2 ^ 63) else u + 1)"

definition sched_schedule ::
  "'q qops \<Rightarrow> nat option \<Rightarrow> nat \<Rightarrow> real \<Rightarrow> ('q, 's) sim \<Rightarrow> (sched_error, ('q, 's) sim) result" where
  "sched_schedule ops h i delay s =
     (case h of
        None \<Rightarrow> Inl NullHandler
      | Some hdl \<Rightarrow>
          if ev_uid (sc_events s i) > 0 then Inl UidNotValid
          else if sc_uid s < 0 then Inl UidExhausted
          else (let e = Event i (sc_clock s + delay) (sc_uid s) hdl
                in Inr (s\<lparr>sc_uid := uid_next (sc_uid s), sc_events := (sc_events s)(i := e),
                          sc_queue := q_insert ops e (sc_queue s)\<rparr>)))"

definition sched_cancel :: "'q qops \<Rightarrow> nat \<Rightarrow> ('q, 's) sim \<Rightarrow> (sched_error, ('q, 's) sim) result" where
  "sched_cancel ops i s =
     (case q_cancel ops (sc_events s i) (sc_queue s) of
        None \<Rightarrow> Inl CancelAbort
      | Some (e, q) \<Rightarrow> Inr (s\<lparr>sc_events := (sc_events s)(i := e), sc_queue := q\<rparr>))"

fun sched_request :: "'q qops \<Rightarrow> request \<Rightarrow> ('q, 's) sim \<Rightarrow> (sched_error, ('q, 's) sim) result" where
  "sched_request ops (RSchedule h i delay) s = sched_schedule ops h i delay s"
| "sched_request ops (RCancel i) s = sched_cancel ops i s"
| "sched_request ops RHalt s = Inr (s\<lparr>sc_halted := True\<rparr>)"

fun sched_requests :: "'q qops \<Rightarrow> request list \<Rightarrow> ('q, 's) sim \<Rightarrow> (sched_error, ('q, 's) sim) result" where
  "sched_requests ops [] s = Inr s"
| "sched_requests ops (r # rs) s = bind_res (sched_request ops r s) (sched_requests ops rs)"

definition sched_dispatch ::
  "'q qops \<Rightarrow> 's handler_fun \<Rightarrow> event \<Rightarrow> real \<Rightarrow> ('q, 's) sim \<Rightarrow> (sched_error, ('q, 's) sim) result" where
  "sched_dispatch ops handle p t s =
     (if t < sc_clock s then Inl GoingBackwards
      else (let s = s\<lparr>sc_clock := t, sc_events := (sc_events s)(ev_id p := neg_uid p),
                      sc_trace := sc_trace s @ [p]\<rparr>;
                (rs, st) = handle p t (sc_state s)
            in sched_requests ops rs (s\<lparr>sc_state := st\<rparr>)))"

text \<open>\<open>run\<close>: at most \<open>n\<close> dispatches.\<close>

fun sched_run ::
  "'q qops \<Rightarrow> 's handler_fun \<Rightarrow> nat \<Rightarrow> ('q, 's) sim \<Rightarrow> (sched_error, ('q, 's) sim) result" where
  "sched_run ops handle 0 s = Inr s"
| "sched_run ops handle (Suc n) s =
     (if sc_halted s then Inr s
      else (case q_deque ops (sc_queue s) of
              (None, q) \<Rightarrow> Inr (s\<lparr>sc_queue := q\<rparr>)
            | (Some p, q) \<Rightarrow>
                bind_res (sched_dispatch ops handle p (ev_time p) (s\<lparr>sc_queue := q\<rparr>)) (sched_run ops handle n)))"

text \<open>The script command \<open>at\<close>: a negative time is a delay; \<open>None\<close> is "can't schedule command
  in past". The address of the new event object is an argument.\<close>

definition sched_at ::
  "'q qops \<Rightarrow> nat \<Rightarrow> nat \<Rightarrow> real \<Rightarrow> ('q, 's) sim \<Rightarrow> (sched_error, ('q, 's) sim) result option" where
  "sched_at ops at_handler i t s =
     (let delay = (if t < 0 then - t else t - sc_clock s)
      in if delay < 0 then None else Some (sched_schedule ops (Some at_handler) i delay s))"

text \<open>\<open>dumpq\<close>: remove and print what is left, at most \<open>n\<close> events.\<close>

fun sched_dumpq :: "'q qops \<Rightarrow> nat \<Rightarrow> 'q \<Rightarrow> event list \<times> 'q" where
  "sched_dumpq ops 0 q = ([], q)"
| "sched_dumpq ops (Suc n) q =
     (case q_deque ops q of
        (None, q) \<Rightarrow> ([], q)
      | (Some p, q) \<Rightarrow> (let (ps, q) = sched_dumpq ops n q in (p # ps, q)))"

definition sched_reset :: "('q, 's) sim \<Rightarrow> ('q, 's) sim" where
  "sched_reset s = s\<lparr>sc_clock := 0\<rparr>"

text \<open>A whole simulation: what the script schedules before \<open>run\<close>, then at most \<open>n\<close> dispatches.\<close>

definition sched_simulate ::
  "'q qops \<Rightarrow> 'q \<Rightarrow> 's handler_fun \<Rightarrow> request list \<Rightarrow> 's \<Rightarrow> nat \<Rightarrow> (sched_error, ('q, 's) sim) result" where
  "sched_simulate ops q0 handle rs st n =
     bind_res (sched_requests ops rs (sched_new q0 st)) (\<lambda>s. sched_run ops handle n (sched_reset s))"

section \<open>Identifiers\<close>

text \<open>A simulation that makes fewer than \<open>2 ^ 63 - 1\<close> requests does not run out of identifiers.\<close>

lemma requests_ids:
  assumes "0 < sc_uid s" "sc_uid s + int (length rs) < 2 ^ 63"
  shows "sched_requests ops rs s \<noteq> Inl UidExhausted \<and>
    (\<forall>s'. sched_requests ops rs s = Inr s' \<longrightarrow> 0 < sc_uid s' \<and> sc_uid s' \<le> sc_uid s + int (length rs))"
  using assms
proof (induction rs arbitrary: s)
  case (Cons r rs)
  have one: "sched_request ops r s \<noteq> Inl UidExhausted \<and>
    (\<forall>s'. sched_request ops r s = Inr s' \<longrightarrow> 0 < sc_uid s' \<and> sc_uid s' \<le> sc_uid s + 1)"
    using Cons.prems
    by (cases r) (auto simp: sched_schedule_def sched_cancel_def Let_def uid_next_def split: option.splits if_splits)
  show ?case
  proof (cases "sched_request ops r s")
    case (Inl e)
    then show ?thesis using one by auto
  next
    case (Inr s1)
    then have "0 < sc_uid s1" "sc_uid s1 \<le> sc_uid s + 1" using one by auto
    then show ?thesis using Cons.IH [of s1] Cons.prems(2) Inr by fastforce
  qed
qed simp

lemma run_ids:
  assumes "\<forall>e t st. length (fst (handle e t st)) \<le> L" "0 < sc_uid s" "sc_uid s + int n * int L < 2 ^ 63"
  shows "sched_run ops handle n s \<noteq> Inl UidExhausted"
  using assms(2,3)
proof (induction n arbitrary: s)
  case (Suc n)
  have "sched_dispatch ops handle p (ev_time p) (s\<lparr>sc_queue := q\<rparr>) \<noteq> Inl UidExhausted \<and>
      (\<forall>s1. sched_dispatch ops handle p (ev_time p) (s\<lparr>sc_queue := q\<rparr>) = Inr s1 \<longrightarrow>
         0 < sc_uid s1 \<and> sc_uid s1 \<le> sc_uid s + int L)" for p q
  proof -
    obtain rs st where h: "handle p (ev_time p) (sc_state s) = (rs, st)" by fastforce
    have l: "int (length rs) \<le> int L" using assms(1) h by (metis fst_conv of_nat_le_iff)
    have "sc_uid s + int (length rs) < 2 ^ 63"
    proof -
      have "int L \<le> int (Suc n) * int L" by (simp add: algebra_simps)
      then show ?thesis using Suc.prems(2) l by linarith
    qed
    then show ?thesis
      using requests_ids [of "s\<lparr>sc_queue := q, sc_clock := ev_time p, sc_events := (sc_events s)(ev_id p := neg_uid p),
          sc_trace := sc_trace s @ [p], sc_state := st\<rparr>" rs ops] Suc.prems(1) h l
      by (auto simp: sched_dispatch_def Let_def)
  qed
  note d = this
  show ?case
  proof (cases "sc_halted s")
    case False
    obtain o' q where q: "q_deque ops (sc_queue s) = (o', q)" by fastforce
    show ?thesis
    proof (cases o')
      case (Some p)
      show ?thesis
      proof (cases "sched_dispatch ops handle p (ev_time p) (s\<lparr>sc_queue := q\<rparr>)")
        case (Inl e)
        then show ?thesis using False q Some d [of p q] by simp
      next
        case (Inr s1)
        then have u: "0 < sc_uid s1" "sc_uid s1 \<le> sc_uid s + int L" using d [of p q] by blast+
        then have "sc_uid s1 + int n * int L < 2 ^ 63" using Suc.prems(2) by (simp add: algebra_simps)
        then show ?thesis using Suc.IH [OF u(1)] False q Some Inr by simp
      qed
    qed (use False q in simp)
  qed simp
qed simp

lemma simulate_ids:
  assumes "\<forall>e t st. length (fst (handle e t st)) \<le> L" "1 + int (length rs) + int n * int L < 2 ^ 63"
  shows "sched_simulate ops q0 handle rs st n \<noteq> Inl UidExhausted"
proof (cases "sched_requests ops rs (sched_new q0 st)")
  case (Inl e)
  have "0 \<le> int n * int L" by simp
  then have "1 + int (length rs) < 2 ^ 63" using assms(2) by linarith
  then show ?thesis using Inl requests_ids [of "sched_new q0 st" rs ops] by (simp add: sched_simulate_def sched_new_def)
next
  case (Inr s1)
  have "0 \<le> int n * int L" by simp
  then have "1 + int (length rs) < 2 ^ 63" using assms(2) by linarith
  then have "0 < sc_uid s1 \<and> sc_uid s1 \<le> 1 + int (length rs)"
    using Inr requests_ids [of "sched_new q0 st" rs ops] by (simp add: sched_new_def)
  then show ?thesis
    using run_ids [OF assms(1), of "sched_reset s1" n ops] assms(2) Inr by (simp add: sched_simulate_def sched_reset_def)
qed

section \<open>The abstract scheduler\<close>

text \<open>A queue that is the set of its events.\<close>

definition spec_ops :: "event set qops" where
  "spec_ops = \<lparr>q_insert = insert,
     q_deque = (\<lambda>S. if S = {} then (None, S) else (Some (Min S), S - {Min S})),
     q_cancel = (\<lambda>e S. if ev_uid e \<le> 0 then Some (e, S) else if e \<in> S then Some (neg_uid e, S - {e}) else None)\<rparr>"

definition sim_map :: "('p \<Rightarrow> 'q) \<Rightarrow> ('p, 's) sim \<Rightarrow> ('q, 's) sim" where
  "sim_map f s = \<lparr>sc_clock = sc_clock s, sc_halted = sc_halted s, sc_uid = sc_uid s,
     sc_queue = f (sc_queue s), sc_events = sc_events s, sc_state = sc_state s, sc_trace = sc_trace s\<rparr>"

lemma sim_map_simps [simp]:
  "sc_clock (sim_map f s) = sc_clock s" "sc_halted (sim_map f s) = sc_halted s"
  "sc_uid (sim_map f s) = sc_uid s" "sc_queue (sim_map f s) = f (sc_queue s)"
  "sc_events (sim_map f s) = sc_events s" "sc_state (sim_map f s) = sc_state s"
  "sc_trace (sim_map f s) = sc_trace s"
  by (simp_all add: sim_map_def)

lemma sim_map_update [simp]:
  "sim_map f (s\<lparr>sc_clock := t\<rparr>) = (sim_map f s)\<lparr>sc_clock := t\<rparr>"
  "sim_map f (s\<lparr>sc_halted := b\<rparr>) = (sim_map f s)\<lparr>sc_halted := b\<rparr>"
  "sim_map f (s\<lparr>sc_uid := u\<rparr>) = (sim_map f s)\<lparr>sc_uid := u\<rparr>"
  "sim_map f (s\<lparr>sc_queue := q\<rparr>) = (sim_map f s)\<lparr>sc_queue := f q\<rparr>"
  "sim_map f (s\<lparr>sc_events := ev\<rparr>) = (sim_map f s)\<lparr>sc_events := ev\<rparr>"
  "sim_map f (s\<lparr>sc_state := st\<rparr>) = (sim_map f s)\<lparr>sc_state := st\<rparr>"
  "sim_map f (s\<lparr>sc_trace := tr\<rparr>) = (sim_map f s)\<lparr>sc_trace := tr\<rparr>"
  by (simp_all add: sim_map_def)

text \<open>What is visible of a simulation: everything but the queue's representation.\<close>

abbreviation outcome :: "(sched_error, ('q, 's) sim) result \<Rightarrow> (sched_error, (unit, 's) sim) result" where
  "outcome \<equiv> map_sum id (sim_map (\<lambda>_. ()))"

text \<open>Requests and handlers that do not schedule into the past.\<close>

fun future_request :: "request \<Rightarrow> bool" where
  "future_request (RSchedule h i delay) = (0 \<le> delay)"
| "future_request _ = True"

definition future_handler :: "'s handler_fun \<Rightarrow> bool" where
  "future_handler handle \<longleftrightarrow> (\<forall>e t st. \<forall>r \<in> set (fst (handle e t st)). future_request r)"

text \<open>The bound on identifiers after \<open>uid_\<close> has wrapped around.\<close>

definition uid_bound :: "int \<Rightarrow> int" where
  "uid_bound u = (if u < 0 then 2 ^ 63 else u)"

text \<open>Event objects and queue agree, and nothing queued is in the past.\<close>

definition sim_ok :: "(event set, 's) sim \<Rightarrow> bool" where
  "sim_ok s \<longleftrightarrow> good_events (uid_bound (sc_uid s)) (sc_queue s) \<and> sc_uid s \<noteq> 0 \<and> sc_uid s < 2 ^ 63 \<and>
     0 \<le> sc_clock s \<and> (\<forall>i. ev_id (sc_events s i) = i) \<and>
     (\<forall>e \<in> sc_queue s. sc_events s (ev_id e) = e \<and> sc_clock s \<le> ev_time e) \<and>
     (\<forall>i. 0 < ev_uid (sc_events s i) \<longrightarrow> sc_events s i \<in> sc_queue s)"

section \<open>The abstract scheduler keeps its invariant\<close>

lemma spec_ops_simps [simp]:
  "q_insert spec_ops = insert"
  "q_deque spec_ops S = (if S = {} then (None, S) else (Some (Min S), S - {Min S}))"
  "q_cancel spec_ops e S =
     (if ev_uid e \<le> 0 then Some (e, S) else if e \<in> S then Some (neg_uid e, S - {e}) else None)"
  by (simp_all add: spec_ops_def)

lemma sim_ok_new: "sim_ok (sched_new {} st)"
  by (simp add: sim_ok_def sched_new_def uid_bound_def)

lemma uid_bound_next: "0 < u \<Longrightarrow> u < 2 ^ 63 \<Longrightarrow> uid_bound (uid_next u) = u + 1 \<and> uid_next u \<noteq> 0 \<and> uid_next u < 2 ^ 63"
  by (auto simp: uid_bound_def uid_next_def)

lemma schedule_fresh:
  assumes "sim_ok s" "\<not> 0 < ev_uid (sc_events s i)" "\<not> sc_uid s < 0" "0 \<le> delay"
  shows "fresh_event (sc_uid s) (Event i (sc_clock s + delay) (sc_uid s) h) (sc_queue s)" "0 < sc_uid s"
    "uid_bound (sc_uid s) = sc_uid s"
  using assms by (auto simp: sim_ok_def fresh_event_def good_events_def uid_bound_def)

lemma spec_schedule_ok:
  assumes "sim_ok s" "0 \<le> delay" "sched_schedule spec_ops h i delay s = Inr s'"
  shows "sim_ok s'"
proof -
  obtain hd where h: "h = Some hd" "\<not> 0 < ev_uid (sc_events s i)" "\<not> sc_uid s < 0"
    using assms(3) by (auto simp: sched_schedule_def split: option.splits if_splits)
  note f = schedule_fresh(1) [OF assms(1) h(2,3) assms(2), of hd] schedule_fresh(2,3) [OF assms(1) h(2,3) assms(2)]
  define e where "e = Event i (sc_clock s + delay) (sc_uid s) hd"
  have s': "s' = s\<lparr>sc_uid := uid_next (sc_uid s), sc_events := (sc_events s)(i := e), sc_queue := insert e (sc_queue s)\<rparr>"
    using assms(3) h by (simp add: sched_schedule_def e_def Let_def)
  have lt: "sc_uid s < 2 ^ 63" using assms(1) by (simp add: sim_ok_def)
  note u = uid_bound_next [OF f(2) lt]
  have "good_events (sc_uid s + 1) (insert e (sc_queue s))"
    using good_events_insert [of "sc_uid s" "sc_queue s" e] assms(1) f by (simp add: sim_ok_def e_def)
  moreover have "ev_id x \<noteq> i" if "x \<in> sc_queue s" for x
    using that f(1) by (auto simp: fresh_event_def)
  ultimately show ?thesis
    using assms(1,2) u f(2) by (auto simp: sim_ok_def s' e_def)
qed

lemma spec_cancel_ok:
  assumes "sim_ok s" "sched_cancel spec_ops i s = Inr s'"
  shows "sim_ok s'"
proof (cases "ev_uid (sc_events s i) \<le> 0")
  case True
  then have "s' = s" using assms(2) by (auto simp: sched_cancel_def)
  then show ?thesis using assms(1) by simp
next
  case False
  let ?e = "sc_events s i"
  have e: "?e \<in> sc_queue s" "ev_id ?e = i" using assms(1) False by (auto simp: sim_ok_def)
  have s': "s' = s\<lparr>sc_events := (sc_events s)(i := neg_uid ?e), sc_queue := sc_queue s - {?e}\<rparr>"
    using assms(2) False e(1) by (auto simp: sched_cancel_def)
  have g: "good_events (uid_bound (sc_uid s)) (sc_queue s)" using assms(1) by (simp add: sim_ok_def)
  have other: "ev_id x \<noteq> i" if "x \<in> sc_queue s - {?e}" for x
    using that good_events_eqI(1) [OF g _ e(1)] e(2) by auto
  have "sc_events s j \<noteq> ?e" if "j \<noteq> i" for j using assms(1) that by (metis sim_ok_def)
  then show ?thesis
    using assms(1) other e False good_events_subset [OF g, of "sc_queue s - {?e}"] by (auto simp: sim_ok_def s')
qed


text \<open>A queued event can always be cancelled.\<close>

lemma spec_cancel_returns: "sim_ok s \<Longrightarrow> \<exists>s'. sched_cancel spec_ops i s = Inr s'"
  by (auto simp: sched_cancel_def sim_ok_def)


text \<open>Taking the first event and marking it dispatched.\<close>

definition begin_dispatch :: "event \<Rightarrow> (event set, 's) sim \<Rightarrow> (event set, 's) sim" where
  "begin_dispatch p s = s\<lparr>sc_queue := sc_queue s - {p}, sc_clock := ev_time p,
     sc_events := (sc_events s)(ev_id p := neg_uid p), sc_trace := sc_trace s @ [p]\<rparr>"

lemma begin_dispatch_ok:
  assumes "sim_ok s" "p \<in> sc_queue s" "\<forall>x \<in> sc_queue s. p \<le> x"
  shows "sim_ok (begin_dispatch p s)"
proof -
  have g: "good_events (uid_bound (sc_uid s)) (sc_queue s)" using assms(1) by (simp add: sim_ok_def)
  have p: "sc_events s (ev_id p) = p" "0 \<le> ev_time p" "0 < ev_uid p"
    using assms(1,2) g by (auto simp: sim_ok_def good_events_def)
  have other: "ev_id x \<noteq> ev_id p" if "x \<in> sc_queue s - {p}" for x
    using that good_events_eqI(1) [OF g _ assms(2)] by auto
  have "sc_events s j \<noteq> p" if "j \<noteq> ev_id p" for j using assms(1) that by (metis sim_ok_def)
  then show ?thesis
    using assms other p good_events_subset [OF g, of "sc_queue s - {p}"] event_le_time
    by (auto simp: sim_ok_def begin_dispatch_def)
qed

lemma spec_run_step:
  assumes "sim_ok s" "\<not> sc_halted s" "sc_queue s \<noteq> {}"
  defines "p \<equiv> Min (sc_queue s)"
  shows "sched_run spec_ops handle (Suc n) s =
      bind_res (sched_requests spec_ops (fst (handle p (ev_time p) (sc_state s)))
        ((begin_dispatch p s)\<lparr>sc_state := snd (handle p (ev_time p) (sc_state s))\<rparr>)) (sched_run spec_ops handle n)"
    and "p \<in> sc_queue s" and "\<forall>x \<in> sc_queue s. p \<le> x" and "sc_clock s \<le> ev_time p"
proof -
  have fin: "finite (sc_queue s)" using assms(1) by (simp add: sim_ok_def good_events_def)
  show p: "p \<in> sc_queue s" "\<forall>x \<in> sc_queue s. p \<le> x" using fin assms(3) by (auto simp: p_def)
  then show c: "sc_clock s \<le> ev_time p" using assms(1) by (auto simp: sim_ok_def)
  show "sched_run spec_ops handle (Suc n) s =
      bind_res (sched_requests spec_ops (fst (handle p (ev_time p) (sc_state s)))
        ((begin_dispatch p s)\<lparr>sc_state := snd (handle p (ev_time p) (sc_state s))\<rparr>)) (sched_run spec_ops handle n)"
    using assms(2,3) c
    by (simp add: sched_dispatch_def Let_def p_def [symmetric] begin_dispatch_def split: prod.splits)
qed

lemma requests_frame:
  "sched_requests ops rs s = Inr s' \<Longrightarrow> sc_clock s' = sc_clock s \<and> sc_trace s' = sc_trace s \<and> sc_state s' = sc_state s"
proof (induction rs arbitrary: s)
  case (Cons r rs)
  then obtain s1 where s1: "sched_request ops r s = Inr s1" "sched_requests ops rs s1 = Inr s'"
    by (auto simp: bind_res_Inr)
  have "sc_clock s1 = sc_clock s \<and> sc_trace s1 = sc_trace s \<and> sc_state s1 = sc_state s"
    using s1(1) by (cases r) (auto simp: sched_schedule_def sched_cancel_def Let_def split: option.splits if_splits)
  then show ?case using Cons.IH [OF s1(2)] by simp
qed simp




section \<open>Every event queue implements the abstract scheduler\<close>

locale sim_queue = event_queue +
  fixes ops
  assumes wide: "2 ^ 63 \<le> lim"
    and ops: "ops = \<lparr>q_insert = qinsert, q_deque = qdeque, q_cancel = qcancel\<rparr>"
begin

lemma ops_simps [simp]: "q_insert ops = qinsert" "q_deque ops = qdeque" "q_cancel ops = qcancel"
  by (simp_all add: ops)

definition sinv where
  "sinv s \<longleftrightarrow> inv (uid_bound (sc_uid s)) (sc_queue s) \<and> sim_ok (sim_map elems s)"

lemma sinv_new: "sinv (sched_new qempty st)"
proof -
  have "sim_map elems (sched_new qempty st) = sched_new {} st" by (simp add: sched_new_def sim_map_def elems_empty)
  moreover have "inv 1 qempty" by (rule empty_inv) simp
  ultimately show ?thesis
    using sim_ok_new [of st] by (simp add: sinv_def) (simp add: sched_new_def uid_bound_def)
qed

lemma schedule_refines:
  assumes "sinv s" "0 \<le> delay"
  shows "map_sum id (sim_map elems) (sched_schedule ops h i delay s) = sched_schedule spec_ops h i delay (sim_map elems s)"
    and "sched_schedule ops h i delay s = Inr s' \<Longrightarrow> sinv s'"
proof -
  have main: "map_sum id (sim_map elems) (sched_schedule ops h i delay s) = sched_schedule spec_ops h i delay (sim_map elems s) \<and>
    (\<forall>s'. sched_schedule ops h i delay s = Inr s' \<longrightarrow> inv (uid_bound (sc_uid s')) (sc_queue s'))"
  proof (cases "h = None \<or> 0 < ev_uid (sc_events s i) \<or> sc_uid s < 0")
    case True
    then show ?thesis by (auto simp: sched_schedule_def split: option.splits)
  next
    case False
    then obtain hd where h: "h = Some hd" "\<not> 0 < ev_uid (sc_events s i)" "\<not> sc_uid s < 0" by auto
    define e where "e = Event i (sc_clock s + delay) (sc_uid s) hd"
    have ok: "sim_ok (sim_map elems s)" using assms(1) by (simp add: sinv_def)
    note f = schedule_fresh(1) [OF ok _ _ assms(2), of i hd] schedule_fresh(2,3) [OF ok _ _ assms(2), of i]
    have fr: "fresh_event (sc_uid s) e (elems (sc_queue s))" "0 < sc_uid s" "uid_bound (sc_uid s) = sc_uid s"
      using f h by (auto simp: e_def)
    have u: "sc_uid s < 2 ^ 63" "ev_uid e < lim" using ok wide by (auto simp: sim_ok_def e_def)
    have i: "inv (sc_uid s) (sc_queue s)" using assms(1) fr(3) by (simp add: sinv_def)
    note ins = insert_inv [OF i fr(1) u(2)] elems_insert [OF i fr(1) u(2)]
    have "uid_bound (uid_next (sc_uid s)) = sc_uid s + 1" using uid_bound_next [OF fr(2) u(1)] by simp
    then show ?thesis using h ins by (simp add: sched_schedule_def Let_def e_def)
  qed
  then show "map_sum id (sim_map elems) (sched_schedule ops h i delay s) = sched_schedule spec_ops h i delay (sim_map elems s)" by blast
  assume r: "sched_schedule ops h i delay s = Inr s'"
  then have "sched_schedule spec_ops h i delay (sim_map elems s) = Inr (sim_map elems s')" using main by (metis map_sum.simps(2))
  then show "sinv s'" using spec_schedule_ok [OF _ assms(2)] assms(1) main r by (auto simp: sinv_def)
qed

lemma cancel_refines:
  assumes "sinv s"
  shows "map_sum id (sim_map elems) (sched_cancel ops i s) = sched_cancel spec_ops i (sim_map elems s)"
    and "sched_cancel ops i s = Inr s' \<Longrightarrow> sinv s'"
proof -
  let ?e = "sc_events s i"
  have ok: "sim_ok (sim_map elems s)" and i: "inv (uid_bound (sc_uid s)) (sc_queue s)"
    using assms by (auto simp: sinv_def)
  have main: "map_sum id (sim_map elems) (sched_cancel ops i s) = sched_cancel spec_ops i (sim_map elems s) \<and>
    (\<forall>s'. sched_cancel ops i s = Inr s' \<longrightarrow> inv (uid_bound (sc_uid s')) (sc_queue s'))"
  proof (cases "ev_uid ?e \<le> 0")
    case True
    then show ?thesis using cancel_idle [OF i True] i by (simp add: sched_cancel_def)
  next
    case False
    then have e: "?e \<in> elems (sc_queue s)" using ok by (auto simp: sim_ok_def)
    then obtain q where "qcancel ?e (sc_queue s) = Some (neg_uid ?e, q)" "inv (uid_bound (sc_uid s)) q"
      "elems q = elems (sc_queue s) - {?e}"
      using cancel_queued [OF i] by blast
    then show ?thesis using False e by (simp add: sched_cancel_def)
  qed
  then show "map_sum id (sim_map elems) (sched_cancel ops i s) = sched_cancel spec_ops i (sim_map elems s)" by blast
  assume r: "sched_cancel ops i s = Inr s'"
  then have "sched_cancel spec_ops i (sim_map elems s) = Inr (sim_map elems s')" using main by (metis map_sum.simps(2))
  then show "sinv s'" using spec_cancel_ok [OF ok] main r by (auto simp: sinv_def)
qed

lemma requests_refine:
  assumes "sinv s" "\<forall>r \<in> set rs. future_request r"
  shows "map_sum id (sim_map elems) (sched_requests ops rs s) = sched_requests spec_ops rs (sim_map elems s) \<and>
    (\<forall>s'. sched_requests ops rs s = Inr s' \<longrightarrow> sinv s')"
  using assms
proof (induction rs arbitrary: s)
  case (Cons r rs)
  have one: "map_sum id (sim_map elems) (sched_request ops r s) = sched_request spec_ops r (sim_map elems s) \<and>
    (\<forall>s'. sched_request ops r s = Inr s' \<longrightarrow> sinv s')"
  proof (cases r)
    case (RSchedule h i delay)
    then show ?thesis using schedule_refines [OF Cons.prems(1)] Cons.prems(2) by auto
  next
    case (RCancel i)
    then show ?thesis using cancel_refines [OF Cons.prems(1)] by auto
  next
    case RHalt
    then show ?thesis using Cons.prems(1) by (simp add: sinv_def) (simp add: sim_ok_def)
  qed
  show ?case
  proof (cases "sched_request ops r s")
    case (Inl x)
    then have "sched_request spec_ops r (sim_map elems s) = Inl x" using one by (metis id_apply map_sum.simps(1))
    then show ?thesis using Inl by simp
  next
    case (Inr s1)
    then have "sched_request spec_ops r (sim_map elems s) = Inr (sim_map elems s1)" using one by (metis map_sum.simps(2))
    then show ?thesis using Inr one Cons.IH [of s1] Cons.prems(2) by simp
  qed
qed simp

lemma run_refines:
  assumes "sinv s" "future_handler handle"
  shows "map_sum id (sim_map elems) (sched_run ops handle n s) = sched_run spec_ops handle n (sim_map elems s)"
  using assms
proof (induction n arbitrary: s)
  case (Suc n)
  have i: "inv (uid_bound (sc_uid s)) (sc_queue s)" and ok: "sim_ok (sim_map elems s)"
    using Suc.prems(1) by (auto simp: sinv_def)
  show ?case
  proof (cases "sc_halted s \<or> elems (sc_queue s) = {}")
    case True
    then show ?thesis using deque_none [OF i] by auto
  next
    case False
    define p where "p = Min (elems (sc_queue s))"
    obtain q where q: "qdeque (sc_queue s) = (Some p, q)" "inv (uid_bound (sc_uid s)) q" "elems q = elems (sc_queue s) - {p}"
      using deque_some [OF i] False by (auto simp: p_def)
    define rs st where "rs = fst (handle p (ev_time p) (sc_state s))" and "st = snd (handle p (ev_time p) (sc_state s))"
    define b where "b = s\<lparr>sc_queue := q, sc_clock := ev_time p, sc_events := (sc_events s)(ev_id p := neg_uid p),
      sc_trace := sc_trace s @ [p], sc_state := st\<rparr>"
    have step: "sched_run spec_ops handle (Suc n) (sim_map elems s) =
        bind_res (sched_requests spec_ops rs ((begin_dispatch p (sim_map elems s))\<lparr>sc_state := st\<rparr>)) (sched_run spec_ops handle n)"
      "p \<in> elems (sc_queue s)" "\<forall>x \<in> elems (sc_queue s). p \<le> x" "sc_clock s \<le> ev_time p"
      using spec_run_step [OF ok] False by (auto simp: p_def rs_def st_def)
    have conc: "sched_run ops handle (Suc n) s = bind_res (sched_requests ops rs b) (sched_run ops handle n)"
      using False q(1) step(4) by (simp add: sched_dispatch_def Let_def b_def rs_def st_def split: prod.splits)
    have mb: "sim_map elems b = (begin_dispatch p (sim_map elems s))\<lparr>sc_state := st\<rparr>"
      using q(3) by (simp add: b_def begin_dispatch_def)
    have "sim_ok (begin_dispatch p (sim_map elems s))" using begin_dispatch_ok [OF ok] step(2,3) by simp
    then have b: "sinv b" using q(2) mb by (simp add: sinv_def) (simp add: b_def sim_ok_def)
    have fr: "\<forall>r \<in> set rs. future_request r" using Suc.prems(2) by (auto simp: rs_def future_handler_def)
    note rq = requests_refine [OF b fr]
    show ?thesis
    proof (cases "sched_requests ops rs b")
      case (Inl x)
      then have "sched_requests spec_ops rs (sim_map elems b) = Inl x" using rq by (metis id_apply map_sum.simps(1))
      then show ?thesis using Inl conc step(1) mb by simp
    next
      case (Inr s1)
      then have "sched_requests spec_ops rs (sim_map elems b) = Inr (sim_map elems s1)" using rq by (metis map_sum.simps(2))
      then show ?thesis using Inr conc step(1) mb rq Suc.IH [of s1] Suc.prems(2) by simp
    qed
  qed
qed simp

lemma simulate_refines:
  assumes "future_handler handle" "\<forall>r \<in> set rs. future_request r"
  shows "map_sum id (sim_map elems) (sched_simulate ops qempty handle rs st n) = sched_simulate spec_ops {} handle rs st n"
proof -
  have e: "sim_map elems (sched_new qempty st) = sched_new {} st" by (simp add: sched_new_def sim_map_def elems_empty)
  note rq = requests_refine [OF sinv_new [of st] assms(2), unfolded e]
  show ?thesis
  proof (cases "sched_requests ops rs (sched_new qempty st)")
    case (Inl x)
    then have "sched_requests spec_ops rs (sched_new {} st) = Inl x" using rq by (metis id_apply map_sum.simps(1))
    then show ?thesis using Inl by (simp add: sched_simulate_def)
  next
    case (Inr s1)
    have "sc_clock s1 = 0" using requests_frame [OF Inr] by (simp add: sched_new_def)
    then have r: "sched_reset s1 = s1" by (simp add: sched_reset_def)
    have "sched_requests spec_ops rs (sched_new {} st) = Inr (sim_map elems s1)" using Inr rq by (metis map_sum.simps(2))
    moreover have "sched_reset (sim_map elems s1) = sim_map elems s1" using \<open>sc_clock s1 = 0\<close> by (simp add: sched_reset_def sim_map_def)
    ultimately show ?thesis using Inr rq run_refines [OF _ assms(1), of s1] r by (simp add: sched_simulate_def)
  qed
qed

lemma simulate_outcome:
  assumes "future_handler handle" "\<forall>r \<in> set rs. future_request r"
  shows "outcome (sched_simulate ops qempty handle rs st n) = outcome (sched_simulate spec_ops {} handle rs st n)"
proof -
  have "sim_map f (sim_map g s) = sim_map (f \<circ> g) s" for f g and s :: "('a, 'd) sim"
    by (simp add: sim_map_def)
  then have "map_sum id (sim_map (\<lambda>_. ())) (map_sum id (sim_map elems) r) = map_sum id (sim_map (\<lambda>_. ())) r"
    for r :: "(sched_error, ('a, 'd) sim) result"
    by (cases r) (simp_all add: comp_def)
  then show ?thesis using simulate_refines [OF assms] by metis
qed

lemma dumpq_sorted:
  assumes "inv u q"
  shows "card (elems q) < n \<Longrightarrow> fst (sched_dumpq ops n q) = sorted_list_of_set (elems q) \<and>
    elems (snd (sched_dumpq ops n q)) = {}"
  using assms
proof (induction n arbitrary: q)
  case (Suc n)
  have fin: "finite (elems q)" using inv_good [OF Suc.prems(2)] by (simp add: good_events_def)
  show ?case
  proof (cases "elems q = {}")
    case True
    then show ?thesis using deque_none [OF Suc.prems(2)] by simp
  next
    case False
    obtain q' where q': "qdeque q = (Some (Min (elems q)), q')" "inv u q'" "elems q' = elems q - {Min (elems q)}"
      using deque_some [OF Suc.prems(2) False] by blast
    have "0 < card (elems q)" using fin False by (simp add: card_gt_0_iff)
    then have "card (elems q') < n" using Suc.prems(1) q'(3) fin False by (simp add: card_Diff_singleton)
    then show ?thesis
      using Suc.IH [of q'] q' sorted_list_of_set_nonempty [OF fin False] by (auto split: prod.splits)
  qed
qed simp

end

section \<open>The schedulers\<close>

definition list_ops :: "event list qops" where
  "list_ops = \<lparr>q_insert = list_insert, q_deque = list_deque, q_cancel = list_cancel\<rparr>"

definition splay_ops :: "splay qops" where
  "splay_ops = \<lparr>q_insert = splay_insert, q_deque = splay_deque, q_cancel = splay_cancel\<rparr>"

definition calendar_ops :: "calendar qops" where
  "calendar_ops = \<lparr>q_insert = cal_insert, q_deque = cal_deque, q_cancel = cal_cancel\<rparr>"

interpretation list_sim: sim_queue "[]" list_insert list_deque list_cancel list_lookup set list_inv "2 ^ 63" list_ops
  by unfold_locales (simp_all add: list_ops_def)

interpretation splay_sim: sim_queue splay_empty splay_insert splay_deque splay_cancel splay_lookup splay_elems
    splay_inv "2 ^ 63" splay_ops
  by unfold_locales (simp_all add: splay_ops_def)

interpretation calendar_sim: sim_queue "cal_new adjust w" cal_insert cal_deque cal_cancel cal_lookup cal_elems
    cal_inv "2 ^ 63" calendar_ops
  for adjust w
  by unfold_locales (simp_all add: calendar_ops_def)

text \<open>
  C8: the choice of scheduler does not change the simulation. For every behaviour of the
  event handlers and every initial schedule that never schedules into the past, the calendar
  queue (with any width adjustment) and the splay tree dispatch the same events in the same
  order as the linear list, and end in the same state or with the same error.
\<close>

theorem schedulers_agree:
  assumes "future_handler handle" and "\<forall>r \<in> set rs. future_request r"
  shows "outcome (sched_simulate calendar_ops (cal_new adjust w) handle rs st n) = outcome (sched_simulate list_ops [] handle rs st n) \<and>
         outcome (sched_simulate splay_ops splay_empty handle rs st n) = outcome (sched_simulate list_ops [] handle rs st n)"
  using list_sim.simulate_outcome [OF assms] calendar_sim.simulate_outcome [OF assms]
    splay_sim.simulate_outcome [OF assms] by simp





text \<open>
  \<open>dumpq\<close> empties the calendar queue and prints every pending event once, in the order in
  which they would be dispatched, after finitely many steps.
\<close>

theorem dumpq_drains:
  assumes "cal_inv u c" and "card (cal_elems c) < n"
  shows "fst (sched_dumpq calendar_ops n c) = sorted_list_of_set (cal_elems c) \<and>
         cal_elems (snd (sched_dumpq calendar_ops n c)) = {}"
  using calendar_sim.dumpq_sorted [OF assms] .

text \<open>
  C35: the heap scheduler keeps its contents and its order. While fewer than \<open>2 ^ 31\<close>
  identifiers were given out, inserting an event adds it, cancelling a queued event removes
  it, and the next event taken out is the first by time and, at equal times, by arrival.
\<close>

theorem heap_scheduler_contract:
  assumes "heap_inv u h"
  shows "(fresh_event u e (heap_evs h) \<and> ev_uid e < 2 ^ 31 \<longrightarrow>
            heap_inv (ev_uid e + 1) (heap_sched_insert e h) \<and> heap_evs (heap_sched_insert e h) = insert e (heap_evs h)) \<and>
         (heap_evs h \<noteq> {} \<longrightarrow> (\<exists>h'. heap_sched_deque h = (Some (Min (heap_evs h)), h') \<and> heap_inv u h' \<and>
            heap_evs h' = heap_evs h - {Min (heap_evs h)})) \<and>
         (e \<in> heap_evs h \<longrightarrow> (\<exists>h'. heap_sched_cancel e h = Some (neg_uid e, h') \<and> heap_inv u h' \<and>
            heap_evs h' = heap_evs h - {e}))"
  using heap_q.insert_inv [OF assms] heap_q.elems_insert [OF assms] heap_q.deque_some [OF assms]
    heap_q.cancel_queued [OF assms] by blast

section \<open>Examples\<close>

text \<open>A handler that reschedules its event half a second later, three times.\<close>

definition demo_handle :: "nat handler_fun" where
  "demo_handle e t k = (if k < 3 then ([RSchedule (Some 1) (ev_id e) (1 / 2)], k + 1) else ([], k))"

definition demo_requests :: "request list" where
  "demo_requests = [RSchedule (Some 1) 7 2, RSchedule (Some 2) 8 2, RCancel 8]"

lemma demo_future: "future_handler demo_handle" "\<forall>r \<in> set demo_requests. future_request r"
  by (auto simp: future_handler_def demo_handle_def demo_requests_def)

theorem schedulers_agree_witness:
  "future_handler demo_handle \<and>
   outcome (sched_simulate calendar_ops (cal_new 10 1) demo_handle demo_requests 0 5) =
   outcome (sched_simulate list_ops [] demo_handle demo_requests 0 5)"
  using schedulers_agree [OF demo_future, of 10 1 0 5] demo_future(1) by blast


definition demo_event :: event where
  "demo_event = Event 7 (5 / 2) 1 3"

lemma demo_event_fresh: "fresh_event 1 demo_event {}" "ev_uid demo_event = 1"
  by (simp_all add: fresh_event_def demo_event_def)

theorem dumpq_drains_witness:
  "fst (sched_dumpq calendar_ops 2 (cal_insert demo_event (cal_new 10 1))) = [demo_event]"
proof -
  have i: "cal_inv 1 (cal_new 10 1)" by (rule calendar_q.empty_inv) simp
  have "cal_inv 2 (cal_insert demo_event (cal_new 10 1))" "cal_elems (cal_insert demo_event (cal_new 10 1)) = {demo_event}"
    using cal_insert_inv [OF i, of demo_event] demo_event_fresh calendar_q.elems_empty [of 10 1] by simp_all
  then show ?thesis using dumpq_drains [of 2 "cal_insert demo_event (cal_new 10 1)" 2] by simp
qed

theorem heap_scheduler_contract_witness:
  "heap_inv 2 (heap_sched_insert demo_event heap_sched_empty) \<and>
   heap_evs (heap_sched_insert demo_event heap_sched_empty) = {demo_event}"
proof -
  have i: "heap_inv 1 heap_sched_empty" by (rule heap_q.empty_inv) simp
  show ?thesis
    using heap_scheduler_contract [OF i, of demo_event] demo_event_fresh heap_q.elems_empty by simp
qed

end
