(* ===== verification/Timer.thy ===== *)
theory Timer
  imports Scheduler
begin

text \<open>
  \<open>TimerHandler\<close> (common/timer-handler.h, common/timer-handler.cc): a timer is a state
  machine over idle, pending and handling that owns one event object.  Its operations are
  modelled as the requests they make to the scheduler together with the new state, or the
  abort the code ends in; a system of timers is a handler for the simulation loop, in
  which the code of the subclasses, \<open>expire\<close>, is a parameter that chooses operations on
  any of the timers.
\<close>

section \<open>The state machine\<close>

datatype timer_status = TIMER_IDLE | TIMER_PENDING | TIMER_HANDLING

record timer =
  tm_status :: timer_status
  tm_event :: nat
  tm_this :: nat

datatype timer_error = CancelNotScheduled | SchedNotIdle | HandleNotPending

definition timer_new :: "nat \<Rightarrow> timer" where
  "timer_new k = \<lparr>tm_status = TIMER_IDLE, tm_event = k, tm_this = k\<rparr>"

definition timer_start :: "real \<Rightarrow> timer \<Rightarrow> request list" where
  "timer_start delay t = [RSchedule (Some (tm_this t)) (tm_event t) delay]"

definition timer_stop :: "timer \<Rightarrow> request list" where
  "timer_stop t = [RCancel (tm_event t)]"

definition timer_cancel :: "timer \<Rightarrow> (timer_error, request list \<times> timer) result" where
  "timer_cancel t =
     (if tm_status t \<noteq> TIMER_PENDING then Inl CancelNotScheduled
      else Inr (timer_stop t, t\<lparr>tm_status := TIMER_IDLE\<rparr>))"

definition timer_sched :: "real \<Rightarrow> timer \<Rightarrow> (timer_error, request list \<times> timer) result" where
  "timer_sched delay t =
     (if tm_status t \<noteq> TIMER_IDLE then Inl SchedNotIdle
      else Inr (timer_start delay t, t\<lparr>tm_status := TIMER_PENDING\<rparr>))"

definition timer_resched :: "real \<Rightarrow> timer \<Rightarrow> request list \<times> timer" where
  "timer_resched delay t =
     ((if tm_status t = TIMER_PENDING then timer_stop t else []) @ timer_start delay t,
      t\<lparr>tm_status := TIMER_PENDING\<rparr>)"

definition timer_force_cancel :: "timer \<Rightarrow> request list \<times> timer" where
  "timer_force_cancel t =
     (if tm_status t = TIMER_PENDING then (timer_stop t, t\<lparr>tm_status := TIMER_IDLE\<rparr>) else ([], t))"

section \<open>A system of timers\<close>

datatype timer_op = TSched real | TResched real | TCancel | TForceCancel

type_synonym timers = "nat \<Rightarrow> timer"

definition timer_op_step :: "timer_op \<Rightarrow> timer \<Rightarrow> (timer_error, request list \<times> timer) result" where
  "timer_op_step opn t =
     (case opn of
        TSched d \<Rightarrow> timer_sched d t
      | TResched d \<Rightarrow> Inr (timer_resched d t)
      | TCancel \<Rightarrow> timer_cancel t
      | TForceCancel \<Rightarrow> Inr (timer_force_cancel t))"

fun timer_ops :: "(nat \<times> timer_op) list \<Rightarrow> timers \<Rightarrow> (timer_error, request list \<times> timers) result" where
  "timer_ops [] T = Inr ([], T)"
| "timer_ops ((k, opn) # ops) T =
     bind_res (timer_op_step opn (T k)) (\<lambda>(rs, t).
       bind_res (timer_ops ops (T(k := t))) (\<lambda>(rs', T'). Inr (rs @ rs', T')))"

text \<open>
  \<open>handle\<close>: pending to handling, then \<open>expire\<close>, then idle unless \<open>expire\<close> rescheduled the
  timer.  An abort ends the simulation and leaves its reason as the state.
\<close>

definition timer_handle ::
  "(nat \<Rightarrow> real \<Rightarrow> 'c \<Rightarrow> (nat \<times> timer_op) list \<times> 'c) \<Rightarrow> nat \<Rightarrow> real \<Rightarrow> timers \<Rightarrow> 'c \<Rightarrow>
     (timer_error, request list \<times> timers \<times> 'c) result" where
  "timer_handle expire k now T c =
     (if tm_status (T k) \<noteq> TIMER_PENDING then Inl HandleNotPending
      else let (ops, c') = expire k now c
           in bind_res (timer_ops ops (T(k := (T k)\<lparr>tm_status := TIMER_HANDLING\<rparr>))) (\<lambda>(rs, T').
                Inr (rs, if tm_status (T' k) = TIMER_HANDLING
                         then T'(k := (T' k)\<lparr>tm_status := TIMER_IDLE\<rparr>) else T', c')))"

definition timers_handler ::
  "(nat \<Rightarrow> real \<Rightarrow> 'c \<Rightarrow> (nat \<times> timer_op) list \<times> 'c) \<Rightarrow> (timer_error, timers \<times> 'c) result handler_fun" where
  "timers_handler expire e now st =
     (case st of
        Inl err \<Rightarrow> ([RHalt], Inl err)
      | Inr (T, c) \<Rightarrow>
          (case timer_handle expire (ev_handler e) now T c of
             Inl err \<Rightarrow> ([RHalt], Inl err)
           | Inr (rs, T', c') \<Rightarrow> (rs, Inr (T', c'))))"

section \<open>Timers and their events agree\<close>

definition timer_delay_ok :: "timer_op \<Rightarrow> bool" where
  "timer_delay_ok opn \<longleftrightarrow> (case opn of TSched d \<Rightarrow> 0 \<le> d | TResched d \<Rightarrow> 0 \<le> d | _ \<Rightarrow> True)"

definition timer_linked :: "timers \<Rightarrow> (event set, 's) sim \<Rightarrow> bool" where
  "timer_linked T s \<longleftrightarrow> (\<forall>e \<in> sc_queue s. ev_handler e = ev_id e) \<and>
     (\<forall>k. tm_event (T k) = k \<and> tm_this (T k) = k \<and>
        (tm_status (T k) = TIMER_PENDING \<longleftrightarrow> 0 < ev_uid (sc_events s k)))"

lemma requests_append:
  "sched_requests ops (rs @ rs') s = bind_res (sched_requests ops rs s) (sched_requests ops rs')"
proof (induction rs arbitrary: s)
  case Nil
  then show ?case by simp
next
  case (Cons r rs)
  then show ?case by (cases "sched_request ops r s") simp_all
qed

text \<open>Starting an idle timer and stopping a pending one.\<close>

lemma timer_start_linked:
  assumes ok: "sim_ok s" and l: "timer_linked T s" and d: "0 \<le> d" and p: "tm_status (T k) \<noteq> TIMER_PENDING"
  shows "sched_requests spec_ops (timer_start d (T k)) s = Inl UidExhausted \<or>
    (\<exists>s'. sched_requests spec_ops (timer_start d (T k)) s = Inr s' \<and> sim_ok s' \<and>
       timer_linked (T(k := (T k)\<lparr>tm_status := TIMER_PENDING\<rparr>)) s' \<and>
       ev_time (sc_events s' k) = sc_clock s + d)"
proof -
  have k: "tm_event (T k) = k" "tm_this (T k) = k" "\<not> 0 < ev_uid (sc_events s k)"
    using l p by (auto simp: timer_linked_def)
  show ?thesis
  proof (cases "sc_uid s < 0")
    case True
    then show ?thesis using k by (simp add: timer_start_def sched_schedule_def)
  next
    case False
    define s' where "s' = s\<lparr>sc_uid := uid_next (sc_uid s),
      sc_events := (sc_events s)(k := Event k (sc_clock s + d) (sc_uid s) k),
      sc_queue := insert (Event k (sc_clock s + d) (sc_uid s) k) (sc_queue s)\<rparr>"
    have e: "sched_schedule spec_ops (Some k) k d s = Inr s'"
      using k(3) False by (simp add: sched_schedule_def Let_def s'_def)
    have u: "0 < sc_uid s" using ok False by (simp add: sim_ok_def)
    have "timer_linked (T(k := (T k)\<lparr>tm_status := TIMER_PENDING\<rparr>)) s'"
      using l u by (auto simp: timer_linked_def s'_def)
    then show ?thesis using e spec_schedule_ok [OF ok d e] k by (auto simp: timer_start_def s'_def)
  qed
qed

lemma timer_stop_linked:
  assumes ok: "sim_ok s" and l: "timer_linked T s" and p: "tm_status (T k) = TIMER_PENDING"
    and st: "st \<noteq> TIMER_PENDING"
  shows "\<exists>s'. sched_requests spec_ops (timer_stop (T k)) s = Inr s' \<and> sim_ok s' \<and> sc_clock s' = sc_clock s \<and>
       timer_linked (T(k := (T k)\<lparr>tm_status := st\<rparr>)) s'"
proof -
  let ?e = "sc_events s k"
  have k: "tm_event (T k) = k" "0 < ev_uid ?e" using l p by (auto simp: timer_linked_def)
  have q: "?e \<in> sc_queue s" using ok k by (auto simp: sim_ok_def)
  define s' where "s' = s\<lparr>sc_events := (sc_events s)(k := neg_uid ?e), sc_queue := sc_queue s - {?e}\<rparr>"
  have e: "sched_cancel spec_ops k s = Inr s'" using k q by (simp add: sched_cancel_def s'_def)
  have "timer_linked (T(k := (T k)\<lparr>tm_status := st\<rparr>)) s'"
    using l st k by (auto simp: timer_linked_def s'_def)
  then show ?thesis using e spec_cancel_ok [OF ok e] k by (auto simp: timer_stop_def s'_def)
qed

lemma timer_resched_linked:
  assumes ok: "sim_ok s" and l: "timer_linked T s" and d: "0 \<le> d"
  shows "sched_requests spec_ops (fst (timer_resched d (T k))) s = Inl UidExhausted \<or>
    (\<exists>s'. sched_requests spec_ops (fst (timer_resched d (T k))) s = Inr s' \<and> sim_ok s' \<and>
       timer_linked (T(k := snd (timer_resched d (T k)))) s' \<and>
       ev_time (sc_events s' k) = sc_clock s + d)"
proof (cases "tm_status (T k) = TIMER_PENDING")
  case False
  then show ?thesis using timer_start_linked [OF ok l d False] by (simp add: timer_resched_def)
next
  case True
  define T1 where "T1 = T(k := (T k)\<lparr>tm_status := TIMER_IDLE\<rparr>)"
  obtain s1 where s1: "sched_requests spec_ops (timer_stop (T k)) s = Inr s1" "sim_ok s1"
      "sc_clock s1 = sc_clock s" "timer_linked T1 s1"
    using timer_stop_linked [OF ok l True, of TIMER_IDLE] by (auto simp: T1_def)
  have st: "timer_start d (T1 k) = timer_start d (T k)" by (simp add: T1_def timer_start_def)
  have t: "T1(k := (T1 k)\<lparr>tm_status := TIMER_PENDING\<rparr>) = T(k := (T k)\<lparr>tm_status := TIMER_PENDING\<rparr>)"
    by (simp add: T1_def)
  have "tm_status (T1 k) \<noteq> TIMER_PENDING" by (simp add: T1_def)
  from timer_start_linked [OF s1(2,4) d this] show ?thesis
    using True s1(1,3) unfolding st t by (simp add: timer_resched_def requests_append)
qed

lemma timer_step_linked:
  assumes ok: "sim_ok s" and l: "timer_linked T s" and d: "timer_delay_ok opn"
    and st: "timer_op_step opn (T k) = Inr (rs, t)"
  shows "sched_requests spec_ops rs s = Inl UidExhausted \<or>
    (\<exists>s'. sched_requests spec_ops rs s = Inr s' \<and> sim_ok s' \<and> timer_linked (T(k := t)) s')"
proof (cases opn)
  case (TSched x)
  then have "tm_status (T k) = TIMER_IDLE" "rs = timer_start x (T k)" "t = (T k)\<lparr>tm_status := TIMER_PENDING\<rparr>"
    using st by (auto simp: timer_op_step_def timer_sched_def split: if_splits)
  then show ?thesis using timer_start_linked [OF ok l, of x k] d TSched by (auto simp: timer_delay_ok_def)
next
  case (TResched x)
  then have "rs = fst (timer_resched x (T k))" "t = snd (timer_resched x (T k))"
    using st by (simp_all add: timer_op_step_def)
  then show ?thesis using timer_resched_linked [OF ok l, of x k] d TResched by (auto simp: timer_delay_ok_def)
next
  case TCancel
  then have "tm_status (T k) = TIMER_PENDING" "rs = timer_stop (T k)" "t = (T k)\<lparr>tm_status := TIMER_IDLE\<rparr>"
    using st by (auto simp: timer_op_step_def timer_cancel_def split: if_splits)
  then show ?thesis using timer_stop_linked [OF ok l, of k TIMER_IDLE] by auto
next
  case TForceCancel
  show ?thesis
  proof (cases "tm_status (T k) = TIMER_PENDING")
    case True
    then have "rs = timer_stop (T k)" "t = (T k)\<lparr>tm_status := TIMER_IDLE\<rparr>"
      using st TForceCancel by (auto simp: timer_op_step_def timer_force_cancel_def)
    then show ?thesis using timer_stop_linked [OF ok l True, of TIMER_IDLE] by auto
  next
    case False
    then have "rs = []" "t = T k" using st TForceCancel by (auto simp: timer_op_step_def timer_force_cancel_def)
    then show ?thesis using ok l by simp
  qed
qed

lemma timer_ops_linked:
  assumes "sim_ok s" "timer_linked T s" "\<forall>(k, opn) \<in> set ops. timer_delay_ok opn"
    "timer_ops ops T = Inr (rs, T')"
  shows "sched_requests spec_ops rs s = Inl UidExhausted \<or>
    (\<exists>s'. sched_requests spec_ops rs s = Inr s' \<and> sim_ok s' \<and> timer_linked T' s')"
  using assms
proof (induction ops arbitrary: s T rs)
  case Nil
  then show ?case by simp
next
  case (Cons a ops)
  obtain k opn where a: "a = (k, opn)" by force
  obtain r1 t r2 where st: "timer_op_step opn (T k) = Inr (r1, t)"
      and rest: "timer_ops ops (T(k := t)) = Inr (r2, T')" and rs: "rs = r1 @ r2"
    using Cons.prems(4) a by (auto simp: bind_res_Inr)
  have d: "timer_delay_ok opn" "\<forall>(k, opn) \<in> set ops. timer_delay_ok opn" using Cons.prems(3) a by auto
  from timer_step_linked [OF Cons.prems(1,2) d(1) st] show ?case
  proof
    assume "sched_requests spec_ops r1 s = Inl UidExhausted"
    then show ?thesis by (simp add: rs requests_append)
  next
    assume "\<exists>s'. sched_requests spec_ops r1 s = Inr s' \<and> sim_ok s' \<and> timer_linked (T(k := t)) s'"
    then obtain s1 where s1: "sched_requests spec_ops r1 s = Inr s1" "sim_ok s1" "timer_linked (T(k := t)) s1" by blast
    from Cons.IH [OF s1(2,3) d(2) rest] show ?thesis by (simp add: rs requests_append s1(1))
  qed
qed

text \<open>Clients that only reschedule and force-cancel cannot make a timer abort.\<close>

definition careful_op :: "timer_op \<Rightarrow> bool" where
  "careful_op opn \<longleftrightarrow> (case opn of TResched d \<Rightarrow> 0 \<le> d | TForceCancel \<Rightarrow> True | _ \<Rightarrow> False)"

definition careful :: "(nat \<Rightarrow> real \<Rightarrow> 'c \<Rightarrow> (nat \<times> timer_op) list \<times> 'c) \<Rightarrow> bool" where
  "careful expire \<longleftrightarrow> (\<forall>k now c. \<forall>(j, opn) \<in> set (fst (expire k now c)). careful_op opn)"

lemma careful_delay: "careful_op opn \<Longrightarrow> timer_delay_ok opn"
  by (auto simp: careful_op_def timer_delay_ok_def split: timer_op.splits)

lemma careful_ops_return:
  "\<forall>(k, opn) \<in> set ops. careful_op opn \<Longrightarrow> \<exists>rs T'. timer_ops ops T = Inr (rs, T')"
proof (induction ops arbitrary: T)
  case Nil
  then show ?case by simp
next
  case (Cons a ops)
  obtain k opn where a: "a = (k, opn)" by force
  have "careful_op opn" using Cons.prems a by auto
  then have "\<exists>p. timer_op_step opn (T k) = Inr p" by (cases opn) (auto simp: careful_op_def timer_op_step_def)
  then obtain r1 t where st: "timer_op_step opn (T k) = Inr (r1, t)" by auto
  have "\<forall>(k, opn) \<in> set ops. careful_op opn" using Cons.prems by simp
  from Cons.IH [OF this, of "T(k := t)"] obtain r2 T' where "timer_ops ops (T(k := t)) = Inr (r2, T')" by blast
  then show ?case using a st by simp
qed

lemma timer_ops_future:
  assumes "timer_ops ops T = Inr (rs, T')" "\<forall>(k, opn) \<in> set ops. timer_delay_ok opn"
  shows "\<forall>r \<in> set rs. future_request r"
  using assms
proof (induction ops arbitrary: T rs)
  case Nil
  then show ?case by simp
next
  case (Cons a ops)
  obtain k opn where a: "a = (k, opn)" by force
  obtain r1 t r2 where st: "timer_op_step opn (T k) = Inr (r1, t)"
      and rest: "timer_ops ops (T(k := t)) = Inr (r2, T')" and rs: "rs = r1 @ r2"
    using Cons.prems(1) a by (auto simp: bind_res_Inr)
  have "\<forall>r \<in> set r1. future_request r"
    using st Cons.prems(2) a by (cases opn) (auto simp: timer_op_step_def timer_sched_def timer_resched_def timer_cancel_def
        timer_force_cancel_def timer_start_def timer_stop_def timer_delay_ok_def split: if_splits)
  then show ?case using Cons.IH [OF rest] Cons.prems(2) rs by auto
qed

text \<open>Dispatching the event of a timer puts it into handling.\<close>

lemma dispatch_linked:
  assumes "sim_ok s" "timer_linked T s" "p \<in> sc_queue s"
  shows "timer_linked (T(ev_id p := (T (ev_id p))\<lparr>tm_status := TIMER_HANDLING\<rparr>)) (begin_dispatch p s)"
    and "tm_status (T (ev_id p)) = TIMER_PENDING" "ev_handler p = ev_id p"
proof -
  have p: "sc_events s (ev_id p) = p" "0 < ev_uid p"
    using assms(1,3) by (auto simp: sim_ok_def good_events_def)
  then show "tm_status (T (ev_id p)) = TIMER_PENDING" using assms(2) by (simp add: timer_linked_def)
  show "ev_handler p = ev_id p" using assms(2,3) by (simp add: timer_linked_def)
  show "timer_linked (T(ev_id p := (T (ev_id p))\<lparr>tm_status := TIMER_HANDLING\<rparr>)) (begin_dispatch p s)"
    using assms(2) p by (auto simp: timer_linked_def begin_dispatch_def)
qed

lemma timer_linked_state: "timer_linked T (s\<lparr>sc_state := st\<rparr>) = timer_linked T s"
  by (simp add: timer_linked_def)

lemma timer_linked_idle:
  "timer_linked T s \<Longrightarrow> tm_status (T k) = TIMER_HANDLING \<Longrightarrow> timer_linked (T(k := (T k)\<lparr>tm_status := TIMER_IDLE\<rparr>)) s"
  unfolding timer_linked_def by (metis (no_types, lifting) fun_upd_apply timer.select_convs timer.surjective
      timer.update_convs(1) timer_status.distinct(1,5))

lemma sim_ok_state: "sim_ok (s\<lparr>sc_state := st\<rparr>) = sim_ok s"
  by (simp add: sim_ok_def)


lemma requests_state:
  "sched_requests ops rs (s\<lparr>sc_state := st\<rparr>) = map_sum id (\<lambda>x. x\<lparr>sc_state := st\<rparr>) (sched_requests ops rs s)"
proof (induction rs arbitrary: s)
  case Nil
  then show ?case by simp
next
  case (Cons r rs)
  have "sched_request ops r (s\<lparr>sc_state := st\<rparr>) = map_sum id (\<lambda>x. x\<lparr>sc_state := st\<rparr>) (sched_request ops r s)"
    by (cases r) (auto simp: sched_schedule_def sched_cancel_def Let_def split: option.splits)
  then show ?case using Cons.IH by (cases "sched_request ops r s") simp_all
qed

lemma timer_ops_handling:
  assumes "timer_ops ops T = Inr (rs, T')" "tm_status (T' j) = TIMER_HANDLING"
  shows "tm_status (T j) = TIMER_HANDLING"
  using assms
proof (induction ops arbitrary: T rs)
  case Nil
  then show ?case by simp
next
  case (Cons a ops)
  obtain k opn where a: "a = (k, opn)" by force
  obtain r1 t r2 where st: "timer_op_step opn (T k) = Inr (r1, t)"
      and rest: "timer_ops ops (T(k := t)) = Inr (r2, T')"
    using Cons.prems(1) a by (auto simp: bind_res_Inr)
  have "tm_status t = TIMER_HANDLING \<Longrightarrow> t = T k"
    using st by (cases opn) (auto simp: timer_op_step_def timer_sched_def timer_resched_def timer_cancel_def
        timer_force_cancel_def split: if_splits)
  then show ?case using Cons.IH [OF rest Cons.prems(2)] by (auto split: if_splits)
qed

text \<open>One dispatch of the simulation loop.\<close>

lemma timer_dispatch:
  assumes ok: "sim_ok s" and l: "timer_linked T s" and h: "\<forall>k. tm_status (T k) \<noteq> TIMER_HANDLING"
    and cf: "careful expire" and p: "p \<in> sc_queue s" "\<forall>x \<in> sc_queue s. p \<le> x"
  obtains rs T' c' where "timers_handler expire p now (Inr (T, c)) = (rs, Inr (T', c'))"
    "\<forall>k. tm_status (T' k) \<noteq> TIMER_HANDLING" "\<forall>r \<in> set rs. future_request r"
    "sched_requests spec_ops rs (begin_dispatch p s) = Inl UidExhausted \<or>
     (\<exists>s'. sched_requests spec_ops rs (begin_dispatch p s) = Inr s' \<and> sim_ok s' \<and> timer_linked T' s')"
proof -
  define k where "k = ev_id p"
  define T1 where "T1 = T(k := (T k)\<lparr>tm_status := TIMER_HANDLING\<rparr>)"
  note d = dispatch_linked [OF ok l p(1), folded k_def]
  obtain ops c' where e: "expire k now c = (ops, c')" by force
  have "\<forall>(j, opn) \<in> set (fst (expire k now c)). careful_op opn" 
    using cf [unfolded careful_def, THEN spec, THEN spec, THEN spec, of k now c] .
  then have co: "\<forall>(j, opn) \<in> set ops. careful_op opn" using e by simp
  then have de: "\<forall>(j, opn) \<in> set ops. timer_delay_ok opn" by (auto intro: careful_delay)
  obtain rs T2 where o: "timer_ops ops T1 = Inr (rs, T2)" using careful_ops_return [OF co] by blast
  define T' where "T' = (if tm_status (T2 k) = TIMER_HANDLING then T2(k := (T2 k)\<lparr>tm_status := TIMER_IDLE\<rparr>) else T2)"
  have hd: "timers_handler expire p now (Inr (T, c)) = (rs, Inr (T', c'))"
  proof -
    have x: "bind_res (timer_ops ops T1) (\<lambda>(rs, T').
        Inr (rs, if tm_status (T' k) = TIMER_HANDLING
                 then T'(k := (T' k)\<lparr>tm_status := TIMER_IDLE\<rparr>) else T', c')) = Inr (rs, T', c')"
      unfolding o bind_res_simps prod.case T'_def ..
    have "timer_handle expire k now T c = Inr (rs, T', c')"
      unfolding timer_handle_def T1_def [symmetric] e Let_def prod.case x using d(2) by simp
    then show ?thesis unfolding timers_handler_def d(3) by simp
  qed
  have nh: "\<forall>j. tm_status (T' j) \<noteq> TIMER_HANDLING"
  proof
    fix j
    show "tm_status (T' j) \<noteq> TIMER_HANDLING"
    proof (cases "j = k")
      case True
      then show ?thesis by (simp add: T'_def)
    next
      case False
      then have "tm_status (T1 j) \<noteq> TIMER_HANDLING" using h by (simp add: T1_def)
      then have "tm_status (T2 j) \<noteq> TIMER_HANDLING" using timer_ops_handling [OF o] by blast
      then show ?thesis using False by (simp add: T'_def)
    qed
  qed
  have ok1: "sim_ok (begin_dispatch p s)" by (rule begin_dispatch_ok [OF ok p])
  have r: "sched_requests spec_ops rs (begin_dispatch p s) = Inl UidExhausted \<or>
     (\<exists>s'. sched_requests spec_ops rs (begin_dispatch p s) = Inr s' \<and> sim_ok s' \<and> timer_linked T' s')"
    using timer_ops_linked [OF ok1 d(1) [folded T1_def] de o]
  proof
    assume "\<exists>s'. sched_requests spec_ops rs (begin_dispatch p s) = Inr s' \<and> sim_ok s' \<and> timer_linked T2 s'"
    then obtain s' where s': "sched_requests spec_ops rs (begin_dispatch p s) = Inr s'" "sim_ok s'" "timer_linked T2 s'"
      by (elim exE conjE)
    have "timer_linked T' s'"
    proof (cases "tm_status (T2 k) = TIMER_HANDLING")
      case True
      show ?thesis unfolding T'_def if_P [OF True] by (rule timer_linked_idle [OF s'(3) True])
    next
      case False
      show ?thesis unfolding T'_def if_not_P [OF False] by (rule s'(3))
    qed
    then show ?thesis using s'(1,2) by (intro disjI2 exI conjI)
  qed (rule disjI1)
  show ?thesis using that [OF hd nh timer_ops_future [OF o de] r] .
qed

lemma timers_run:
  assumes "sim_ok s" "sc_state s = Inr (T, c)" "timer_linked T s" "\<forall>k. tm_status (T k) \<noteq> TIMER_HANDLING"
    "careful expire"
  shows "sched_run spec_ops (timers_handler expire) n s = Inl UidExhausted \<or>
    (\<exists>s' T' c'. sched_run spec_ops (timers_handler expire) n s = Inr s' \<and> sim_ok s' \<and>
       sc_state s' = Inr (T', c') \<and> timer_linked T' s' \<and> (\<forall>k. tm_status (T' k) \<noteq> TIMER_HANDLING))"
  using assms
proof (induction n arbitrary: s T c)
  case 0
  then show ?case by auto
next
  case (Suc n)
  show ?case
  proof (cases "sc_halted s \<or> sc_queue s = {}")
    case True
    then have "sched_run spec_ops (timers_handler expire) (Suc n) s = Inr s" by auto
    then show ?thesis using Suc.prems by blast
  next
    case False
    define p where "p = Min (sc_queue s)"
    have f: "\<not> sc_halted s" "sc_queue s \<noteq> {}" using False by auto
    note step = spec_run_step(1) [OF Suc.prems(1) f, of "timers_handler expire" n, folded p_def]
      spec_run_step(2,3) [OF Suc.prems(1) f, folded p_def]
    obtain rs T' c' where hd: "timers_handler expire p (ev_time p) (Inr (T, c)) = (rs, Inr (T', c'))"
        "\<forall>k. tm_status (T' k) \<noteq> TIMER_HANDLING"
      and r: "sched_requests spec_ops rs (begin_dispatch p s) = Inl UidExhausted \<or>
         (\<exists>s'. sched_requests spec_ops rs (begin_dispatch p s) = Inr s' \<and> sim_ok s' \<and> timer_linked T' s')"
      using timer_dispatch [OF Suc.prems(1,3,4,5) step(2,3), of "ev_time p" c] by metis
    define b where "b = (begin_dispatch p s)\<lparr>sc_state := Inr (T', c')\<rparr>"
    have e: "sched_run spec_ops (timers_handler expire) (Suc n) s =
        bind_res (sched_requests spec_ops rs b) (sched_run spec_ops (timers_handler expire) n)"
      using step(1) hd(1) Suc.prems(2) by (simp add: b_def)
    have rb: "sched_requests spec_ops rs b =
        map_sum id (\<lambda>x. x\<lparr>sc_state := Inr (T', c')\<rparr>) (sched_requests spec_ops rs (begin_dispatch p s))"
      unfolding b_def by (rule requests_state)
    from r show ?thesis
    proof
      assume "sched_requests spec_ops rs (begin_dispatch p s) = Inl UidExhausted"
      then show ?thesis using e rb by simp
    next
      assume "\<exists>s'. sched_requests spec_ops rs (begin_dispatch p s) = Inr s' \<and> sim_ok s' \<and> timer_linked T' s'"
      then obtain s1 where s1: "sched_requests spec_ops rs (begin_dispatch p s) = Inr s1" "sim_ok s1" "timer_linked T' s1"
        by blast
      define s2 where "s2 = s1\<lparr>sc_state := Inr (T', c')\<rparr>"
      have "sim_ok s2" "timer_linked T' s2" "sc_state s2 = Inr (T', c')"
        using s1 by (simp_all add: s2_def sim_ok_state timer_linked_state)
      from Suc.IH [OF this(1,3,2) hd(2) Suc.prems(5)] show ?thesis using e rb s1(1) by (simp add: s2_def)
    qed
  qed
qed

section \<open>Properties\<close>

lemma careful_future: "careful expire \<Longrightarrow> future_handler (timers_handler expire)"
proof (unfold future_handler_def, intro allI ballI)
  fix e t st r
  assume cf: "careful expire" and r: "r \<in> set (fst (timers_handler expire e t st))"
  show "future_request r"
  proof (cases st)
    case (Inl err)
    then show ?thesis using r by (simp add: timers_handler_def)
  next
    case (Inr a)
    then obtain T c where st: "st = Inr (T, c)" by (cases a) auto
    define k where "k = ev_handler e"
    obtain ops c' where e: "expire k t c = (ops, c')" by force
    have "\<forall>(j, opn) \<in> set (fst (expire k t c)). careful_op opn"
      using cf [unfolded careful_def, THEN spec, THEN spec, THEN spec, of k t c] .
    then have de: "\<forall>(j, opn) \<in> set ops. timer_delay_ok opn" using e by (auto intro: careful_delay)
    show ?thesis
    proof (cases "timer_handle expire k t T c")
      case (Inl err)
      then show ?thesis using r st by (simp add: timers_handler_def k_def)
    next
      case (Inr b)
      obtain rs T' c2 where b: "b = (rs, T', c2)" by (cases b) auto
      obtain T2 where "timer_ops ops (T(k := (T k)\<lparr>tm_status := TIMER_HANDLING\<rparr>)) = Inr (rs, T2)"
        using Inr b e by (auto simp: timer_handle_def bind_res_Inr split: if_splits)
      from timer_ops_future [OF this de] show ?thesis using r st Inr b by (simp add: timers_handler_def k_def)
    qed
  qed
qed

lemma new_timers_linked: "timer_linked timer_new (sched_new {} st)"
  by (simp add: timer_linked_def timer_new_def sched_new_def)

text \<open>Each operation makes at most two requests, so a bound on the operations bounds the identifiers.\<close>

lemma timer_ops_length: "timer_ops ops T = Inr (rs, T') \<Longrightarrow> length rs \<le> 2 * length ops"
proof (induction ops arbitrary: T rs)
  case (Cons a ops)
  obtain k opn where a: "a = (k, opn)" by force
  obtain r1 t r2 where st: "timer_op_step opn (T k) = Inr (r1, t)"
      and rest: "timer_ops ops (T(k := t)) = Inr (r2, T')" and rs: "rs = r1 @ r2"
    using Cons.prems a by (auto simp: bind_res_Inr)
  have "length r1 \<le> 2"
    using st by (cases opn) (auto simp: timer_op_step_def timer_sched_def timer_resched_def timer_cancel_def
        timer_force_cancel_def timer_start_def timer_stop_def split: if_splits)
  then show ?case using Cons.IH [OF rest] rs by simp
qed simp

lemma timers_handler_length:
  assumes "\<forall>k now c. length (fst (expire k now c)) \<le> m"
  shows "length (fst (timers_handler expire e now st)) \<le> 2 * m + 1"
proof (cases st)
  case (Inr a)
  obtain T c where a: "a = (T, c)" by force
  show ?thesis
  proof (cases "timer_handle expire (ev_handler e) now T c")
    case (Inr b)
    obtain rs T' c' where b: "b = (rs, T', c')" by (cases b) auto
    obtain ops c2 where x: "expire (ev_handler e) now c = (ops, c2)" by force
    obtain T1 T2 where "timer_ops ops T1 = Inr (rs, T2)"
      using Inr b x by (auto simp: timer_handle_def bind_res_Inr split: if_splits)
    moreover have "length ops \<le> m" using assms x by (metis fst_conv)
    ultimately show ?thesis
      using timer_ops_length [of ops T1 rs T2] \<open>st = Inr a\<close> a Inr b by (simp add: timers_handler_def)
  qed (use \<open>st = Inr a\<close> a in \<open>simp add: timers_handler_def\<close>)
qed (simp add: timers_handler_def)

text \<open>A timer is pending exactly when an event of it is in the queue, and then there is only one.\<close>

definition timer_events :: "nat \<Rightarrow> event set \<Rightarrow> event set" where
  "timer_events k S = {e \<in> S. ev_handler e = k}"

lemma linked_events:
  assumes "sim_ok s" "timer_linked T s"
  shows "timer_events k (sc_queue s) = (if tm_status (T k) = TIMER_PENDING then {sc_events s k} else {})"
proof -
  have h: "\<forall>e \<in> sc_queue s. ev_handler e = ev_id e \<and> sc_events s (ev_id e) = e \<and> 0 < ev_uid e"
    and k: "tm_status (T k) = TIMER_PENDING \<longleftrightarrow> 0 < ev_uid (sc_events s k)"
    and q: "ev_id (sc_events s k) = k" "0 < ev_uid (sc_events s k) \<Longrightarrow> sc_events s k \<in> sc_queue s"
    using assms by (auto simp: sim_ok_def timer_linked_def good_events_def)
  have "e = sc_events s k" if "e \<in> timer_events k (sc_queue s)" for e
    using that h by (auto simp: timer_events_def)
  then show ?thesis using h k q by (auto simp: timer_events_def)
qed

text \<open>
  C11: Start any timers and run the simulation on the calendar queue for up to \<open>n\<close> events,
  with any client code that touches its timers only through resched (with a delay that is
  not negative) and force_cancel, from any expire, at most \<open>m\<close> times in one expire, where
  the numbers of operations and events keep the 63-bit identifiers from running out.  Then
  no timer aborts and the scheduler refuses no request: the run returns a state.  In it no
  timer is left in the handling state, and a timer is pending exactly when the calendar
  holds an event for it; it then holds exactly one, the timer's own event object.
\<close>

theorem timers_never_abort:
  fixes c :: 'c
  assumes "careful expire" "\<forall>(k, opn) \<in> set ops. careful_op opn" "timer_ops ops timer_new = Inr (rs, T)"
    "\<forall>k now c. length (fst (expire k now c)) \<le> m" "1 + 2 * int (length ops) + int n * (2 * int m + 1) < 2 ^ 63"
  shows "\<exists>s T' c'. sched_simulate calendar_ops (cal_new adjust w) (timers_handler expire) rs (Inr (T, c)) n = Inr s \<and>
       sc_state s = Inr (T', c') \<and>
       (\<forall>k. tm_status (T' k) \<noteq> TIMER_HANDLING \<and>
            timer_events k (cal_elems (sc_queue s)) =
              (if tm_status (T' k) = TIMER_PENDING then {sc_events s k} else {}))"
proof -
  let ?h = "timers_handler expire"
  have de: "\<forall>(k, opn) \<in> set ops. timer_delay_ok opn" using assms(2) by (auto intro: careful_delay)
  note fr = timer_ops_future [OF assms(3) de]
  have hn: "\<forall>k. tm_status (T k) \<noteq> TIMER_HANDLING"
    using timer_ops_handling [OF assms(3)] by (auto simp: timer_new_def)
  define st0 :: "(timer_error, timers \<times> 'c) result" where "st0 = Inr (T, c)"
  have hl: "\<forall>e t st. length (fst (?h e t st)) \<le> 2 * m + 1" using timers_handler_length [OF assms(4)] by blast
  have m: "int (2 * m + 1) = 2 * int m + 1" by simp
  have "int (length rs) \<le> 2 * int (length ops)" using timer_ops_length [OF assms(3)] by simp
  then have "1 + int (length rs) + int n * int (2 * m + 1) < 2 ^ 63"
    using assms(5) unfolding m by linarith
  note ids = simulate_ids [OF hl this]
  have spec: "\<exists>s T' c'. sched_simulate spec_ops {} ?h rs st0 n = Inr s \<and> sim_ok s \<and> sc_state s = Inr (T', c') \<and>
       timer_linked T' s \<and> (\<forall>k. tm_status (T' k) \<noteq> TIMER_HANDLING)"
    using timer_ops_linked [OF sim_ok_new new_timers_linked de assms(3), of st0]
  proof
    assume "sched_requests spec_ops rs (sched_new {} st0) = Inl UidExhausted"
    then show ?thesis using ids [of spec_ops "{}" st0] by (simp add: sched_simulate_def)
  next
    assume "\<exists>s'. sched_requests spec_ops rs (sched_new {} st0) = Inr s' \<and> sim_ok s' \<and> timer_linked T s'"
    then obtain s1 where s1: "sched_requests spec_ops rs (sched_new {} st0) = Inr s1" "sim_ok s1" "timer_linked T s1"
      by (elim exE conjE)
    note f = requests_frame [OF s1(1)]
    have r: "sched_reset s1 = s1" using f by (simp add: sched_reset_def sched_new_def)
    have st: "sc_state s1 = Inr (T, c)" using f by (simp add: sched_new_def st0_def)
    from timers_run [OF s1(2) st s1(3) hn assms(1), of n] show ?thesis
      using ids [of spec_ops "{}" st0] by (simp add: sched_simulate_def s1(1) r)
  qed
  then obtain s0 T' c' where s0: "sched_simulate spec_ops {} ?h rs st0 n = Inr s0" "sim_ok s0"
      "sc_state s0 = Inr (T', c')" "timer_linked T' s0" "\<forall>k. tm_status (T' k) \<noteq> TIMER_HANDLING" by blast
  define res where "res = sched_simulate calendar_ops (cal_new adjust w) ?h rs st0 n"
  have "map_sum id (sim_map cal_elems) res = Inr s0"
    unfolding res_def using calendar_sim.simulate_refines [OF careful_future [OF assms(1)] fr, of adjust w st0 n] s0(1)
    by (rule trans)
  then obtain s where s: "res = Inr s" "s0 = sim_map cal_elems s" by (cases res) auto
  have "\<forall>k. timer_events k (cal_elems (sc_queue s)) = (if tm_status (T' k) = TIMER_PENDING then {sc_events s k} else {})"
    using linked_events [OF s0(2,4)] by (simp add: s(2))
  then show ?thesis using s(1) s0(3,5) by (auto simp: res_def st0_def s(2))
qed

definition demo_expire :: "nat \<Rightarrow> real \<Rightarrow> nat \<Rightarrow> (nat \<times> timer_op) list \<times> nat" where
  "demo_expire k now c = (if c = 0 then [(Suc k, TForceCancel)] else [(k, TResched 1), (Suc k, TResched 2)], c - 1)"

lemma timers_never_abort_witness:
  "\<exists>rs T. timer_ops [(0, TResched 1), (0, TResched 3)] timer_new = Inr (rs, T) \<and>
     (\<exists>s T' c'. sched_simulate calendar_ops (cal_new 1 1) (timers_handler demo_expire) rs (Inr (T, 5)) 7 = Inr s \<and>
         sc_state s = Inr (T', c') \<and> (\<forall>k. tm_status (T' k) \<noteq> TIMER_HANDLING) \<and>
         (\<forall>k. tm_status (T' k) = TIMER_PENDING \<longrightarrow> sc_events s k \<in> cal_elems (sc_queue s)))"
proof -
  have cf: "careful demo_expire" by (auto simp: careful_def demo_expire_def careful_op_def)
  have co: "\<forall>(k, opn) \<in> set [(0 :: nat, TResched 1), (0, TResched 3)]. careful_op opn" by (simp add: careful_op_def)
  obtain rs T where o: "timer_ops [(0, TResched 1), (0, TResched 3)] timer_new = Inr (rs, T)"
    using careful_ops_return [OF co] by blast
  have l: "\<forall>k now c. length (fst (demo_expire k now c)) \<le> 2" by (simp add: demo_expire_def)
  have b: "1 + 2 * int (length [(0 :: nat, TResched 1), (0, TResched 3)]) + int 7 * (2 * int 2 + 1) < 2 ^ 63" by simp
  obtain s T' c' where s: "sched_simulate calendar_ops (cal_new 1 1) (timers_handler demo_expire) rs (Inr (T, 5)) 7 = Inr s"
      "sc_state s = Inr (T', c')"
    and k: "\<forall>k. tm_status (T' k) \<noteq> TIMER_HANDLING \<and> timer_events k (cal_elems (sc_queue s)) =
        (if tm_status (T' k) = TIMER_PENDING then {sc_events s k} else {})"
    using timers_never_abort [OF cf co o l b, of 1 1 5] by (elim exE conjE)
  have "sc_events s k \<in> cal_elems (sc_queue s)" if "tm_status (T' k) = TIMER_PENDING" for k
  proof -
    have "sc_events s k \<in> timer_events k (cal_elems (sc_queue s))" using k [THEN spec, of k] that by simp
    then show ?thesis by (simp add: timer_events_def)
  qed
  moreover have "\<forall>k. tm_status (T' k) \<noteq> TIMER_HANDLING" using k by blast
  ultimately show ?thesis using o s by blast
qed

text \<open>
  Misusing a timer aborts: sched on a timer that is not idle, cancel on one that is not
  pending, and in particular sched of the own timer from inside expire, where it is in the
  handling state; resched is the operation that may be used there and leaves the timer pending.
\<close>

theorem timer_misuse_aborts:
  "(tm_status t \<noteq> TIMER_IDLE \<longrightarrow> timer_sched d t = Inl SchedNotIdle) \<and>
   (tm_status t \<noteq> TIMER_PENDING \<longrightarrow> timer_cancel t = Inl CancelNotScheduled) \<and>
   timer_handle (\<lambda>k now c. ((k, TSched d) # ops, c)) k now (T(k := t\<lparr>tm_status := TIMER_PENDING\<rparr>)) c = Inl SchedNotIdle \<and>
   (\<exists>rs T'. timer_handle (\<lambda>k now c. ([(k, TResched d)], c)) k now (T(k := t\<lparr>tm_status := TIMER_PENDING\<rparr>)) c = Inr (rs, T', c) \<and>
      rs = timer_start d t \<and> tm_status (T' k) = TIMER_PENDING)"
  by (simp add: timer_sched_def timer_cancel_def timer_handle_def timer_op_step_def timer_resched_def timer_start_def)

lemma timer_misuse_aborts_witness:
  "timer_sched 1 (\<lparr>tm_status = TIMER_PENDING, tm_event = 0, tm_this = 0\<rparr>) = Inl SchedNotIdle"
  using timer_misuse_aborts [of "\<lparr>tm_status = TIMER_PENDING, tm_event = 0, tm_this = 0\<rparr>" 1 "[]" 0 0 timer_new "0 :: nat"] by simp

end
