(* ===== verification/PacketQueue.thy ===== *)
theory PacketQueue
  imports Packet "HOL-Library.Sublist"
begin

text \<open>
  \<open>PacketQueue\<close> (queue/queue.h, queue/queue.cc): the singly linked list of packets that
  every queueing discipline keeps.  A packet is its address; \<open>q_next\<close> is the \<open>next_\<close>
  pointer of the packet objects, which an operation overwrites exactly where the code
  does and which a packet that left the queue keeps, stale.  The header of a packet is
  read through a function \<open>H\<close> from addresses to packets.

  A walk along \<open>next_\<close> need not end on a cyclic list, so \<open>remove\<close> is a partial function
  in the option monad, whose \<open>None\<close> is not returning; on a well-formed queue it is
  shown to return.  Well-formedness is a relation between the pointer structure and the
  list of addresses it stands for, and each operation is shown to implement a list
  operation.
\<close>

section \<open>State and operations\<close>

record pktq =
  q_head :: "nat option"
  q_tail :: "nat option"
  q_next :: "nat \<Rightarrow> nat option"
  q_len :: int
  q_bytes :: int
  q_iter :: "nat option"

datatype queue_error = RemoveNotFound | NullPacket

type_synonym headers = "nat \<Rightarrow> packet"

abbreviation pkt_size :: "headers \<Rightarrow> nat \<Rightarrow> int" where
  "pkt_size H p \<equiv> ch_size (cmn (H p))"

definition pq_new :: pktq where
  "pq_new = \<lparr>q_head = None, q_tail = None, q_next = (\<lambda>_. None), q_len = 0, q_bytes = 0,
     q_iter = None\<rparr>"

text \<open>\<open>enque\<close> appends and returns the previous tail.\<close>

definition pq_enque :: "headers \<Rightarrow> nat \<Rightarrow> pktq \<Rightarrow> nat option \<times> pktq" where
  "pq_enque H p q =
     (let q1 = (case q_tail q of
                  None \<Rightarrow> q\<lparr>q_head := Some p, q_tail := Some p\<rparr>
                | Some t \<Rightarrow> q\<lparr>q_next := (q_next q)(t := Some p), q_tail := Some p\<rparr>)
      in (q_tail q, q1\<lparr>q_next := (q_next q1)(p := None), q_len := q_len q1 + 1,
                      q_bytes := q_bytes q1 + pkt_size H p\<rparr>))"

definition pq_deque :: "headers \<Rightarrow> pktq \<Rightarrow> nat option \<times> pktq" where
  "pq_deque H q =
     (case q_head q of
        None \<Rightarrow> (None, q)
      | Some p \<Rightarrow>
          let q1 = q\<lparr>q_head := q_next q p\<rparr>;
              q2 = (if q_tail q = Some p then q1\<lparr>q_head := None, q_tail := None\<rparr> else q1)
          in (Some p, q2\<lparr>q_len := q_len q2 - 1, q_bytes := q_bytes q2 - pkt_size H p\<rparr>))"

fun pq_walk :: "(nat \<Rightarrow> nat option) \<Rightarrow> nat option \<Rightarrow> nat \<Rightarrow> nat option" where
  "pq_walk nx None n = None"
| "pq_walk nx (Some p) 0 = Some p"
| "pq_walk nx (Some p) (Suc n) = pq_walk nx (nx p) n"

text \<open>\<open>lookup(n)\<close>; a negative index gives the head.\<close>

definition pq_lookup :: "int \<Rightarrow> pktq \<Rightarrow> nat option" where
  "pq_lookup n q = pq_walk (q_next q) (q_head q) (nat n)"

definition pq_enqueHead :: "headers \<Rightarrow> nat \<Rightarrow> pktq \<Rightarrow> pktq" where
  "pq_enqueHead H p q =
     (let q1 = (if q_head q = None then q\<lparr>q_tail := Some p\<rparr> else q)
      in q1\<lparr>q_next := (q_next q1)(p := q_head q1), q_head := Some p,
           q_len := q_len q1 + 1, q_bytes := q_bytes q1 + pkt_size H p\<rparr>)"

text \<open>
  The search loop of \<open>remove(target)\<close>: the result is the predecessor of the target
  (\<open>None\<close> when it is the head), or \<open>Inl\<close> when the list ends without it.
\<close>

partial_function (option) pq_find ::
  "(nat \<Rightarrow> nat option) \<Rightarrow> nat \<Rightarrow> nat option \<Rightarrow> nat option \<Rightarrow> (queue_error, nat option) result option" where
  "pq_find nx target pp p =
     (if p = None then Some (Inl RemoveNotFound)
      else if the p = target then Some (Inr pp)
      else pq_find nx target p (nx (the p)))"

definition pq_unlink :: "headers \<Rightarrow> nat \<Rightarrow> nat \<Rightarrow> pktq \<Rightarrow> pktq" where
  "pq_unlink H p pp q =
     (let q1 = (if q_tail q = Some p then q\<lparr>q_tail := Some pp\<rparr> else q)
      in q1\<lparr>q_next := (q_next q1)(pp := q_next q1 p), q_len := q_len q1 - 1,
           q_bytes := q_bytes q1 - pkt_size H p\<rparr>)"

definition pq_remove :: "headers \<Rightarrow> nat \<Rightarrow> pktq \<Rightarrow> (queue_error, pktq) result option" where
  "pq_remove H target q =
     (case pq_find (q_next q) target None (q_head q) of
        None \<Rightarrow> None
      | Some (Inl e) \<Rightarrow> Some (Inl e)
      | Some (Inr None) \<Rightarrow> Some (Inr (snd (pq_deque H q)))
      | Some (Inr (Some pp)) \<Rightarrow> Some (Inr (pq_unlink H target pp q)))"

text \<open>\<open>remove(pkt, prev)\<close>; a null \<open>prev\<close> with a packet that is not the head is dereferenced.\<close>

definition pq_remove2 ::
  "headers \<Rightarrow> nat option \<Rightarrow> nat option \<Rightarrow> pktq \<Rightarrow> (queue_error, pktq) result" where
  "pq_remove2 H pkt prev q =
     (case pkt of
        None \<Rightarrow> Inr q
      | Some p \<Rightarrow>
          if q_head q = Some p then Inr (snd (pq_deque H q))
          else case prev of
                 None \<Rightarrow> Inl NullPacket
               | Some pp \<Rightarrow> Inr (let q1 = q\<lparr>q_next := (q_next q)(pp := q_next q p)\<rparr>;
                                   q2 = (if q_tail q1 = Some p then q1\<lparr>q_tail := Some pp\<rparr> else q1)
                               in q2\<lparr>q_len := q_len q2 - 1,
                                     q_bytes := q_bytes q2 - pkt_size H p\<rparr>))"

definition pq_resetIterator :: "pktq \<Rightarrow> pktq" where
  "pq_resetIterator q = q\<lparr>q_iter := q_head q\<rparr>"

definition pq_getNext :: "pktq \<Rightarrow> nat option \<times> pktq" where
  "pq_getNext q =
     (case q_iter q of
        None \<Rightarrow> (None, q)
      | Some p \<Rightarrow> (Some p, q\<lparr>q_iter := q_next q p\<rparr>))"

section \<open>The list a queue stands for\<close>

text \<open>\<open>seg nx p xs r\<close>: following \<open>next_\<close> from \<open>p\<close> visits \<open>xs\<close> and arrives at \<open>r\<close>.\<close>

fun seg :: "(nat \<Rightarrow> nat option) \<Rightarrow> nat option \<Rightarrow> nat list \<Rightarrow> nat option \<Rightarrow> bool" where
  "seg nx p [] r \<longleftrightarrow> p = r"
| "seg nx p (x # xs) r \<longleftrightarrow> p = Some x \<and> seg nx (nx x) xs r"

definition last_opt :: "nat list \<Rightarrow> nat option" where
  "last_opt xs = (if xs = [] then None else Some (last xs))"

definition head_opt :: "nat list \<Rightarrow> nat option" where
  "head_opt xs = (case xs of [] \<Rightarrow> None | x # _ \<Rightarrow> Some x)"

definition pq_repr :: "headers \<Rightarrow> pktq \<Rightarrow> nat list \<Rightarrow> bool" where
  "pq_repr H q xs \<longleftrightarrow> seg (q_next q) (q_head q) xs None \<and> distinct xs \<and>
     q_tail q = last_opt xs \<and> q_len q = int (length xs) \<and>
     q_bytes q = sum_list (List.map (pkt_size H) xs)"

lemma last_opt_simps [simp]:
  "last_opt [] = None"
  "last_opt (xs @ [x]) = Some x"
  "last_opt [x] = Some x"
  "last_opt xs = None \<longleftrightarrow> xs = []"
  by (simp_all add: last_opt_def)

lemma head_opt_simps [simp]:
  "head_opt [] = None"
  "head_opt (x # xs) = Some x"
  by (simp_all add: head_opt_def)

lemma seg_append: "seg nx p (xs @ ys) r \<longleftrightarrow> (\<exists>m. seg nx p xs m \<and> seg nx m ys r)"
  by (induction xs arbitrary: p) auto

lemma seg_head: "seg nx p xs None \<Longrightarrow> p = head_opt xs"
  by (cases xs) auto

lemma seg_upd [simp]: "a \<notin> set xs \<Longrightarrow> seg (nx(a := v)) p xs r \<longleftrightarrow> seg nx p xs r"
  by (induction xs arbitrary: p) auto

lemma seg_snoc: "seg nx p (xs @ [x]) r \<longleftrightarrow> seg nx p xs (Some x) \<and> nx x = r"
  by (auto simp: seg_append)

lemma seg_unique: "seg nx p xs None \<Longrightarrow> seg nx p ys None \<Longrightarrow> xs = ys"
proof (induction xs arbitrary: p ys)
  case Nil
  then show ?case by (cases ys) auto
next
  case (Cons x xs)
  then show ?case by (cases ys) auto
qed

lemma pq_repr_unique: "pq_repr H q xs \<Longrightarrow> pq_repr H q ys \<Longrightarrow> xs = ys"
  by (auto simp: pq_repr_def intro: seg_unique)

lemma pq_repr_new [simp]: "pq_repr H pq_new []"
  by (simp add: pq_repr_def pq_new_def)

lemma pq_repr_len: "pq_repr H q xs \<Longrightarrow> q_len q = int (length xs)"
  by (simp add: pq_repr_def)

lemma pq_repr_bytes: "pq_repr H q xs \<Longrightarrow> q_bytes q = sum_list (List.map (pkt_size H) xs)"
  by (simp add: pq_repr_def)

lemma pq_repr_head: "pq_repr H q xs \<Longrightarrow> q_head q = head_opt xs"
  by (auto simp: pq_repr_def intro: seg_head)

lemma pq_repr_tail: "pq_repr H q xs \<Longrightarrow> q_tail q = last_opt xs"
  by (simp add: pq_repr_def)

lemma pq_repr_distinct: "pq_repr H q xs \<Longrightarrow> distinct xs"
  by (simp add: pq_repr_def)

section \<open>Each operation implements a list operation\<close>

lemma pq_enque_repr:
  assumes "pq_repr H q xs" "p \<notin> set xs"
  shows "pq_repr H (snd (pq_enque H p q)) (xs @ [p])"
    and "fst (pq_enque H p q) = last_opt xs"
proof -
  show "fst (pq_enque H p q) = last_opt xs"
    using assms(1) by (simp add: pq_enque_def pq_repr_def Let_def)
  show "pq_repr H (snd (pq_enque H p q)) (xs @ [p])"
  proof (cases xs rule: rev_cases)
    case Nil
    then show ?thesis
      using assms by (simp add: pq_enque_def pq_repr_def Let_def)
  next
    case (snoc ys y)
    then show ?thesis
      using assms by (auto simp: pq_enque_def pq_repr_def Let_def seg_append last_opt_def)
  qed
qed

lemma pq_deque_repr:
  assumes "pq_repr H q (x # xs)"
  shows "fst (pq_deque H q) = Some x" and "pq_repr H (snd (pq_deque H q)) xs"
proof -
  have hd: "q_head q = Some x" using pq_repr_head [OF assms] by simp
  then show "fst (pq_deque H q) = Some x" by (simp add: pq_deque_def Let_def)
  show "pq_repr H (snd (pq_deque H q)) xs"
  proof (cases "xs = []")
    case True
    then show ?thesis using assms by (simp add: pq_deque_def pq_repr_def Let_def last_opt_def)
  next
    case False
    then have "last xs \<noteq> x" using assms by (auto simp: pq_repr_def)
    then show ?thesis using assms False hd by (auto simp: pq_deque_def pq_repr_def Let_def last_opt_def)
  qed
qed

lemma pq_deque_empty: "pq_repr H q [] \<Longrightarrow> pq_deque H q = (None, q)"
  by (simp add: pq_deque_def pq_repr_def)

lemma pq_enqueHead_repr:
  assumes "pq_repr H q xs" "p \<notin> set xs"
  shows "pq_repr H (pq_enqueHead H p q) (p # xs)"
  using assms pq_repr_head [OF assms(1)]
  by (cases xs) (auto simp: pq_enqueHead_def pq_repr_def Let_def last_opt_def)

lemma pq_walk_seg: "seg nx p xs None \<Longrightarrow> pq_walk nx p n = (if n < length xs then Some (xs ! n) else None)"
proof (induction xs arbitrary: p n)
  case Nil
  then show ?case by simp
next
  case (Cons x xs)
  then show ?case by (cases n) auto
qed

lemma pq_lookup_repr:
  "pq_repr H q xs \<Longrightarrow> pq_lookup n q = (if nat n < length xs then Some (xs ! nat n) else None)"
  by (simp add: pq_lookup_def pq_repr_def pq_walk_seg)

lemma pq_find_seg:
  assumes "seg nx p xs None" "distinct xs"
  shows "pq_find nx t pp p =
    Some (if t \<in> set xs then Inr (if takeWhile (\<lambda>x. x \<noteq> t) xs = [] then pp
            else Some (last (takeWhile (\<lambda>x. x \<noteq> t) xs)))
          else Inl RemoveNotFound)"
  using assms
proof (induction xs arbitrary: p pp)
  case Nil
  then show ?case by (simp add: pq_find.simps)
next
  case (Cons x xs)
  then show ?case by (auto simp: pq_find.simps [of _ _ _ "Some x"])
qed

lemma pq_find_middle:
  assumes "seg nx p (ys @ t # zs) None" "distinct (ys @ t # zs)"
  shows "pq_find nx t None p = Some (Inr (last_opt ys))"
proof -
  have "takeWhile (\<lambda>x. x \<noteq> t) (ys @ t # zs) = ys"
    using assms(2) by (subst takeWhile_append2) auto
  then show ?thesis using pq_find_seg [OF assms, of t None] by (simp add: last_opt_def)
qed

lemma pq_unlink_repr:
  assumes "pq_repr H q (ys @ pp # t # zs)"
  shows "pq_repr H (pq_unlink H t pp q) (ys @ pp # zs)"
proof -
  have s: "seg (q_next q) (q_head q) ys (Some pp)" "q_next q pp = Some t" "seg (q_next q) (q_next q t) zs None"
    using assms by (auto simp: pq_repr_def seg_append)
  have d: "pp \<notin> set ys" "pp \<notin> set zs" "pp \<noteq> t" "t \<notin> set zs" using assms by (auto simp: pq_repr_def)
  have tl: "q_tail q = Some (last (t # zs))" using assms by (simp add: pq_repr_def last_opt_def)
  show ?thesis
  proof (cases "zs = []")
    case True
    then show ?thesis
      using assms s d tl by (simp add: pq_repr_def pq_unlink_def Let_def seg_append last_opt_def)
  next
    case False
    then have "last zs \<noteq> t" using d by auto
    then show ?thesis
      using assms s d tl False by (simp add: pq_repr_def pq_unlink_def Let_def seg_append last_opt_def)
  qed
qed

lemma pq_remove_repr:
  assumes "pq_repr H q xs" "t \<in> set xs"
  shows "\<exists>q'. pq_remove H t q = Some (Inr q') \<and> pq_repr H q' (remove1 t xs)"
proof -
  obtain ys zs where xs: "xs = ys @ t # zs" using split_list [OF assms(2)] by blast
  have f: "pq_find (q_next q) t None (q_head q) = Some (Inr (last_opt ys))"
    using assms(1) by (intro pq_find_middle [of _ _ _ _ zs]) (auto simp: pq_repr_def xs)
  have r: "remove1 t xs = ys @ zs"
    using assms(1) by (simp add: xs pq_repr_def remove1_append)
  show ?thesis
  proof (cases ys rule: rev_cases)
    case Nil
    then show ?thesis using f r assms(1) pq_deque_repr(2) [of H q t zs] by (simp add: pq_remove_def xs)
  next
    case (snoc vs v)
    then show ?thesis using f r assms(1) pq_unlink_repr [of H q vs v t zs] by (simp add: pq_remove_def xs)
  qed
qed

lemma pq_remove_absent:
  assumes "pq_repr H q xs" "t \<notin> set xs"
  shows "pq_remove H t q = Some (Inl RemoveNotFound)"
  using assms pq_find_seg [of "q_next q" "q_head q" xs t None] by (simp add: pq_remove_def pq_repr_def)

lemma pq_remove2_repr:
  assumes "pq_repr H q xs" "xs = ys @ t # zs"
  shows "\<exists>q'. pq_remove2 H (Some t) (last_opt ys) q = Inr q' \<and> pq_repr H q' (ys @ zs)"
proof (cases ys rule: rev_cases)
  case Nil
  then show ?thesis
    using assms pq_repr_head [OF assms(1)] pq_deque_repr(2) [of H q t zs] by (simp add: pq_remove2_def)
next
  case (snoc vs v)
  then have ne: "q_head q \<noteq> Some t"
    using assms pq_repr_head [OF assms(1)] pq_repr_distinct [OF assms(1)] by (cases vs) auto
  have "pq_remove2 H (Some t) (last_opt ys) q = Inr (pq_unlink H t v q)"
    using ne snoc by (simp add: pq_remove2_def pq_unlink_def Let_def)
  then show ?thesis using assms snoc pq_unlink_repr [of H q vs v t zs] by simp
qed

section \<open>Iteration\<close>

text \<open>\<open>n\<close> calls of \<open>getNext\<close>, with the packets they return.\<close>

fun pq_iterate :: "nat \<Rightarrow> pktq \<Rightarrow> nat option list" where
  "pq_iterate 0 q = []"
| "pq_iterate (Suc n) q = (case pq_getNext q of (r, q') \<Rightarrow> r # pq_iterate n q')"

lemma pq_iterate_seg:
  "seg (q_next q) (q_iter q) xs None \<Longrightarrow> pq_iterate (Suc (length xs)) q = List.map Some xs @ [None]"
proof (induction xs arbitrary: q)
  case Nil
  then show ?case by (simp add: pq_getNext_def)
next
  case (Cons x xs)
  then have "pq_getNext q = (Some x, q\<lparr>q_iter := q_next q x\<rparr>)" by (simp add: pq_getNext_def)
  then show ?case using Cons.prems Cons.IH [of "q\<lparr>q_iter := q_next q x\<rparr>"] by simp
qed

lemma pq_iterate_repr:
  "pq_repr H q xs \<Longrightarrow> pq_iterate (Suc (length xs)) (pq_resetIterator q) = List.map Some xs @ [None]"
  using pq_iterate_seg [of "pq_resetIterator q" xs] by (simp add: pq_resetIterator_def pq_repr_def)

end
