(* ===== verification/LinkQueue.thy ===== *)
theory LinkQueue
  imports PacketQueue
begin

text \<open>
  The base class \<open>Queue\<close> (queue/queue.h, queue/queue.cc): the blocked flag that lets one
  packet at a time go to the link below, the utilization statistics, and the operations
  \<open>recv\<close>, \<open>resume\<close> and \<open>reset\<close>, which call the virtual \<open>enque\<close> and \<open>deque\<close> of the
  discipline.  The virtual functions are arguments of the model's operations; the locale
  \<open>discipline\<close> states what they promise, \<open>link_server\<close> what the link below sees of a
  queue, and the base class turns the first contract into the second.

  A call of \<open>target_->recv(p, &qh_)\<close> and a call of \<open>drop(p)\<close> are recorded as actions.
  Simulation time and the statistics are exact reals.
\<close>

section \<open>State\<close>

datatype qact = Forward nat | DropPkt nat | DropEnd nat

record queue =
  qlim :: int
  blocked :: int
  unblock_on_resume :: bool
  pq :: pktq
  true_ave :: real
  total_time :: real
  last_change :: real
  old_util :: real
  util_weight :: real
  util_check_intv :: real
  period_begin :: real
  cur_util :: real
  buf_slot :: int
  util_buf :: "real list"
  util_records :: int
  q_acts :: "qact list"

definition act_forward :: "qact \<Rightarrow> nat list" where
  "act_forward a = (case a of Forward p \<Rightarrow> [p] | _ \<Rightarrow> [])"

definition act_drop :: "qact \<Rightarrow> nat list" where
  "act_drop a = (case a of DropPkt p \<Rightarrow> [p] | DropEnd p \<Rightarrow> [p] | _ \<Rightarrow> [])"

definition forwarded :: "qact list \<Rightarrow> nat list" where
  "forwarded as = concat (List.map act_forward as)"

definition dropped :: "qact list \<Rightarrow> nat list" where
  "dropped as = concat (List.map act_drop as)"

lemma acts_simps [simp]:
  "forwarded [] = []" "dropped [] = []"
  "forwarded (as @ bs) = forwarded as @ forwarded bs"
  "dropped (as @ bs) = dropped as @ dropped bs"
  "forwarded (List.map Forward ps) = ps" "dropped (List.map Forward ps) = []"
  "forwarded (List.map DropPkt ps) = []" "dropped (List.map DropPkt ps) = ps"
  "forwarded (List.map DropEnd ps) = []" "dropped (List.map DropEnd ps) = ps"
  "forwarded [Forward p] = [p]" "dropped [Forward p] = []"
  "forwarded [DropPkt p] = []" "dropped [DropPkt p] = [p]"
  by (induction ps) (simp_all add: forwarded_def dropped_def act_forward_def act_drop_def)

section \<open>Operations of the base class\<close>

text \<open>The buffer of \<open>util_records_\<close> measurements is allocated only when the count is positive.\<close>

definition queue_new :: "int \<Rightarrow> real \<Rightarrow> int \<Rightarrow> bool \<Rightarrow> real \<Rightarrow> int \<Rightarrow> real \<Rightarrow> real \<Rightarrow> queue" where
  "queue_new limit weight blk unblk intv recs ave0 tot0 =
     \<lparr>qlim = limit, blocked = blk, unblock_on_resume = unblk, pq = pq_new, true_ave = ave0,
      total_time = tot0, last_change = 0, old_util = 0, util_weight = weight,
      util_check_intv = intv, period_begin = 0, cur_util = 0, buf_slot = 0,
      util_buf = replicate (nat recs) 0, util_records = recs, q_acts = []\<rparr>"

text \<open>
  The loop of \<open>utilUpdate\<close> that closes measurement periods: the guard counter lets it run
  at most \<open>util_records_\<close> times.
\<close>

fun util_loop :: "nat \<Rightarrow> real \<Rightarrow> real \<Rightarrow> real \<Rightarrow> int \<Rightarrow> 'a queue_scheme \<Rightarrow> 'a queue_scheme" where
  "util_loop 0 tot intv int_end link q = q"
| "util_loop (Suc g) tot intv int_end link q =
     (if tot + intv > util_check_intv q then
        util_loop g tot (intv - util_check_intv q) int_end link
          (q\<lparr>period_begin := int_end, util_buf := (util_buf q)[nat (buf_slot q) := cur_util q],
             buf_slot := (buf_slot q + 1) mod util_records q, cur_util := of_int link\<rparr>)
      else q)"

definition utilUpdate :: "real \<Rightarrow> real \<Rightarrow> int \<Rightarrow> 'a queue_scheme \<Rightarrow> 'a queue_scheme" where
  "utilUpdate int_begin int_end link q =
     (let decay = exp (- util_weight q * (int_end - int_begin));
          q1 = q\<lparr>old_util := of_int link + (old_util q - of_int link) * decay\<rparr>
      in if util_records q = 0 then q1
         else let intv = int_end - int_begin; tot = int_begin - period_begin q
              in if intv \<noteq> 0 \<or> tot \<noteq> 0 then
                   util_loop (nat (util_records q)) tot intv int_end link
                     (q1\<lparr>cur_util := (of_int link * intv + cur_util q * tot) / (intv + tot)\<rparr>)
                 else q1)"

definition utilization :: "real \<Rightarrow> 'a queue_scheme \<Rightarrow> real \<times> 'a queue_scheme" where
  "utilization now q =
     (let q1 = (utilUpdate (last_change q) now (blocked q) q)\<lparr>last_change := now\<rparr>
      in (old_util q1, q1))"

text \<open>The maximum loop of \<open>peak_utilization\<close> starts at zero and reads the buffer in order.\<close>

definition util_peak :: "real list \<Rightarrow> real" where
  "util_peak us = foldl (\<lambda>peak u. if u > peak then u else peak) 0 us"

definition peak_utilization :: "real \<Rightarrow> 'a queue_scheme \<Rightarrow> real \<times> 'a queue_scheme" where
  "peak_utilization now q =
     (if util_records q = 0 then utilization now q
      else let q1 = (utilUpdate (last_change q) now (blocked q) q)\<lparr>last_change := now\<rparr>
           in (util_peak (take (nat (util_records q1)) (util_buf q1)), q1))"

definition updateStats :: "real \<Rightarrow> int \<Rightarrow> 'a queue_scheme \<Rightarrow> 'a queue_scheme" where
  "updateStats now queuesize q =
     (let newtime = now - total_time q
      in if newtime > 0 then
           q\<lparr>true_ave := (total_time q * true_ave q + newtime * of_int queuesize) / now,
             total_time := now\<rparr>
         else q)"

definition queue_recv ::
  "(real \<Rightarrow> nat \<Rightarrow> 'a queue_scheme \<Rightarrow> 'a queue_scheme) \<Rightarrow>
   (real \<Rightarrow> 'a queue_scheme \<Rightarrow> nat option \<times> 'a queue_scheme) \<Rightarrow>
   real \<Rightarrow> nat \<Rightarrow> 'a queue_scheme \<Rightarrow> 'a queue_scheme" where
  "queue_recv enq deq now p q =
     (let q1 = enq now p q
      in if blocked q1 = 0 then
           case deq now q1 of
             (None, q2) \<Rightarrow> q2
           | (Some p', q2) \<Rightarrow>
               let q3 = utilUpdate (last_change q2) now (blocked q2) q2
               in q3\<lparr>last_change := now, blocked := 1, q_acts := q_acts q3 @ [Forward p']\<rparr>
         else q1)"

definition queue_resume ::
  "(real \<Rightarrow> 'a queue_scheme \<Rightarrow> nat option \<times> 'a queue_scheme) \<Rightarrow>
   real \<Rightarrow> 'a queue_scheme \<Rightarrow> 'a queue_scheme" where
  "queue_resume deq now q =
     (case deq now q of
        (Some p, q1) \<Rightarrow> q1\<lparr>q_acts := q_acts q1 @ [Forward p]\<rparr>
      | (None, q1) \<Rightarrow>
          let q2 = utilUpdate (last_change q1) now (blocked q1) q1
          in if unblock_on_resume q2 then q2\<lparr>last_change := now, blocked := 0\<rparr>
             else q2\<lparr>last_change := now, blocked := 1\<rparr>)"

text \<open>The loop that dequeues and drops until the queue is empty (\<open>None\<close>: it does not end).\<close>

partial_function (option) queue_flush ::
  "(real \<Rightarrow> 'a queue_scheme \<Rightarrow> nat option \<times> 'a queue_scheme) \<Rightarrow> (nat \<Rightarrow> qact) \<Rightarrow>
   real \<Rightarrow> 'a queue_scheme \<Rightarrow> 'a queue_scheme option" where
  "queue_flush deq act now q =
     (if fst (deq now q) = None then Some (snd (deq now q))
      else queue_flush deq act now
        ((snd (deq now q))\<lparr>q_acts := q_acts (snd (deq now q)) @ [act (the (fst (deq now q)))]\<rparr>))"

definition queue_reset ::
  "(real \<Rightarrow> 'a queue_scheme \<Rightarrow> nat option \<times> 'a queue_scheme) \<Rightarrow>
   real \<Rightarrow> 'a queue_scheme \<Rightarrow> 'a queue_scheme option" where
  "queue_reset deq now q = queue_flush deq DropPkt now (q\<lparr>total_time := 0, true_ave := 0\<rparr>)"

section \<open>The statistics leave the queue itself alone\<close>

lemma util_loop_frame [simp]:
  "pq (util_loop g tot intv e l q) = pq q"
  "blocked (util_loop g tot intv e l q) = blocked q"
  "unblock_on_resume (util_loop g tot intv e l q) = unblock_on_resume q"
  "q_acts (util_loop g tot intv e l q) = q_acts q"
  "qlim (util_loop g tot intv e l q) = qlim q"
  "queue.more (util_loop g tot intv e l q) = queue.more q"
  by (induction g arbitrary: intv q) simp_all

lemma utilUpdate_frame [simp]:
  "pq (utilUpdate a b l q) = pq q"
  "blocked (utilUpdate a b l q) = blocked q"
  "unblock_on_resume (utilUpdate a b l q) = unblock_on_resume q"
  "q_acts (utilUpdate a b l q) = q_acts q"
  "qlim (utilUpdate a b l q) = qlim q"
  "queue.more (utilUpdate a b l q) = queue.more q"
  by (simp_all add: utilUpdate_def Let_def)

lemma updateStats_frame [simp]:
  "pq (updateStats now n q) = pq q"
  "blocked (updateStats now n q) = blocked q"
  "unblock_on_resume (updateStats now n q) = unblock_on_resume q"
  "q_acts (updateStats now n q) = q_acts q"
  "qlim (updateStats now n q) = qlim q"
  "queue.more (updateStats now n q) = queue.more q"
  by (simp_all add: updateStats_def Let_def)

section \<open>Utilization is a proportion\<close>

definition util_ok :: "'a queue_scheme \<Rightarrow> bool" where
  "util_ok q \<longleftrightarrow> 0 \<le> old_util q \<and> old_util q \<le> 1 \<and> 0 \<le> cur_util q \<and> cur_util q \<le> 1 \<and>
     (\<forall>u \<in> set (util_buf q). 0 \<le> u \<and> u \<le> 1) \<and> 0 \<le> util_weight q \<and> 0 \<le> util_check_intv q \<and>
     int (length (util_buf q)) = max 0 (util_records q) \<and> 0 \<le> buf_slot q \<and>
     (0 < util_records q \<longrightarrow> buf_slot q < util_records q) \<and> period_begin q \<le> last_change q"

lemma convex_unit:
  fixes a b l u :: real
  assumes "0 \<le> a" "0 \<le> b" "a \<noteq> 0 \<or> b \<noteq> 0" "0 \<le> l" "l \<le> 1" "0 \<le> u" "u \<le> 1"
  shows "0 \<le> (l * a + u * b) / (a + b)" "(l * a + u * b) / (a + b) \<le> 1"
proof -
  have pos: "0 < a + b" using assms by linarith
  show "0 \<le> (l * a + u * b) / (a + b)" using assms pos by simp
  have "l * a \<le> a" "u * b \<le> b" using assms by (simp_all add: mult_left_le_one_le)
  then show "(l * a + u * b) / (a + b) \<le> 1" using pos by (simp add: divide_le_eq)
qed

lemma decay_unit:
  fixes l u d :: real
  assumes "0 \<le> l" "l \<le> 1" "0 \<le> u" "u \<le> 1" "0 \<le> d" "d \<le> 1"
  shows "0 \<le> l + (u - l) * d" "l + (u - l) * d \<le> 1"
proof -
  have e: "l + (u - l) * d = l * (1 - d) + u * d" by (simp add: algebra_simps)
  have "l * (1 - d) \<le> 1 - d" "u * d \<le> d" using assms by (simp_all add: mult_left_le_one_le)
  then show "l + (u - l) * d \<le> 1" using e by linarith
  show "0 \<le> l + (u - l) * d" using assms e by simp
qed

definition util_mid :: "real \<Rightarrow> 'a queue_scheme \<Rightarrow> bool" where
  "util_mid now q \<longleftrightarrow> util_ok (q\<lparr>last_change := now\<rparr>)"

lemma util_loop_mid:
  assumes "util_mid now q" "0 \<le> l" "l \<le> 1" "0 < util_records q"
  shows "util_mid now (util_loop g tot intv now l q)"
  using assms
proof (induction g arbitrary: intv q)
  case 0
  then show ?case by simp
next
  case (Suc g)
  have "of_int l \<ge> (0::real)" "of_int l \<le> (1::real)" using Suc.prems by simp_all
  then have "util_mid now (q\<lparr>period_begin := now, util_buf := (util_buf q)[nat (buf_slot q) := cur_util q],
      buf_slot := (buf_slot q + 1) mod util_records q, cur_util := of_int l\<rparr>)"
    using Suc.prems set_update_subset_insert [of "util_buf q" "nat (buf_slot q)" "cur_util q"]
    by (auto simp: util_mid_def util_ok_def)
  then show ?case using Suc by simp
qed

lemma utilUpdate_ok:
  assumes ok: "util_ok q" and l: "0 \<le> l" "l \<le> 1" and t: "last_change q \<le> now"
  shows "util_ok ((utilUpdate (last_change q) now l q)\<lparr>last_change := now\<rparr>)"
proof -
  have lr: "0 \<le> real_of_int l" "real_of_int l \<le> 1" using l by simp_all
  define d where "d = exp (- util_weight q * (now - last_change q))"
  have d: "0 \<le> d" "d \<le> 1" using ok t by (simp_all add: d_def util_ok_def)
  define q1 where "q1 = q\<lparr>old_util := of_int l + (old_util q - of_int l) * d\<rparr>"
  have m1: "util_mid now q1"
    using ok t decay_unit [OF lr _ _ d, of "old_util q"]
    by (auto simp: q1_def util_mid_def util_ok_def)
  define c where "c = (of_int l * (now - last_change q) + cur_util q * (last_change q - period_begin q)) /
     ((now - last_change q) + (last_change q - period_begin q))"
  show ?thesis
  proof (cases "util_records q \<noteq> 0 \<and> (now - last_change q \<noteq> 0 \<or> last_change q - period_begin q \<noteq> 0)")
    case False
    then have "utilUpdate (last_change q) now l q = q1"
      by (auto simp: utilUpdate_def Let_def q1_def d_def)
    then show ?thesis using m1 by (simp add: util_mid_def)
  next
    case True
    have "0 \<le> c" "c \<le> 1"
      using convex_unit [of "now - last_change q" "last_change q - period_begin q" "of_int l" "cur_util q"]
        True ok t lr by (auto simp: c_def util_ok_def)
    then have m2: "util_mid now (q1\<lparr>cur_util := c\<rparr>)" using m1 by (auto simp: util_mid_def util_ok_def)
    have e: "utilUpdate (last_change q) now l q =
        util_loop (nat (util_records q)) (last_change q - period_begin q) (now - last_change q) now l
          (q1\<lparr>cur_util := c\<rparr>)"
      using True by (auto simp: utilUpdate_def Let_def q1_def d_def c_def)
    show ?thesis
    proof (cases "util_records q \<le> 0")
      case True
      then show ?thesis using m2 e by (simp add: util_mid_def)
    next
      case False
      then have "0 < util_records (q1\<lparr>cur_util := c\<rparr>)" by (simp add: q1_def)
      then show ?thesis using util_loop_mid [OF m2 l] e by (simp add: util_mid_def)
    qed
  qed
qed

lemma util_peak_aux:
  "\<lbrakk>\<forall>u \<in> set us. u \<le> (1::real); 0 \<le> p; p \<le> 1\<rbrakk> \<Longrightarrow>
     (let r = foldl (\<lambda>peak u. if u > peak then u else peak) p us
      in 0 \<le> r \<and> r \<le> 1 \<and> p \<le> r \<and> (\<forall>u \<in> set us. u \<le> r))"
proof (induction us arbitrary: p)
  case Nil
  then show ?case by simp
next
  case (Cons u us)
  define m where "m = (if u > p then u else p)"
  define r where "r = foldl (\<lambda>peak u. if u > peak then u else peak) m us"
  have m: "0 \<le> m" "m \<le> 1" "p \<le> m" "u \<le> m" using Cons.prems by (auto simp: m_def)
  have r: "0 \<le> r \<and> r \<le> 1 \<and> m \<le> r \<and> (\<forall>u \<in> set us. u \<le> r)"
    using Cons.IH [of m] Cons.prems m by (simp add: Let_def r_def)
  have "foldl (\<lambda>peak u. if u > peak then u else peak) p (u # us) = r"
    by (simp add: r_def m_def)
  then show ?case using r m by (auto simp: Let_def)
qed

lemma util_peak_max:
  assumes "\<forall>u \<in> set us. u \<le> (1::real)"
  shows "0 \<le> util_peak us" "util_peak us \<le> 1" "u \<in> set us \<Longrightarrow> u \<le> util_peak us"
  using util_peak_aux [OF assms, of 0] by (auto simp: util_peak_def Let_def)

section \<open>The contract of a discipline and what the link sees\<close>

text \<open>
  \<open>discipline\<close>: the virtual \<open>enque\<close> keeps or drops packets, losing none, and \<open>deque\<close>
  takes the head of the packet queue; neither touches the blocked flag.
\<close>

locale discipline =
  fixes H :: headers
    and enq :: "real \<Rightarrow> nat \<Rightarrow> 'a queue_scheme \<Rightarrow> 'a queue_scheme"
    and deq :: "real \<Rightarrow> 'a queue_scheme \<Rightarrow> nat option \<times> 'a queue_scheme"
  assumes enq_law: "\<lbrakk>pq_repr H (pq q) xs; p \<notin> set xs\<rbrakk> \<Longrightarrow>
      \<exists>ys ds. pq_repr H (pq (enq now p q)) ys \<and>
        q_acts (enq now p q) = q_acts q @ List.map DropPkt ds \<and>
        mset (xs @ [p]) = mset ys + mset ds \<and> subseq ys (xs @ [p])"
    and enq_frame: "blocked (enq now p q) = blocked q"
      "unblock_on_resume (enq now p q) = unblock_on_resume q"
    and deq_empty: "pq_repr H (pq q) [] \<Longrightarrow> fst (deq now q) = None \<and> pq_repr H (pq (snd (deq now q))) []"
    and deq_cons: "pq_repr H (pq q) (x # xs) \<Longrightarrow>
      fst (deq now q) = Some x \<and> pq_repr H (pq (snd (deq now q))) xs"
    and deq_frame: "blocked (snd (deq now q)) = blocked q"
      "unblock_on_resume (snd (deq now q)) = unblock_on_resume q"
      "q_acts (snd (deq now q)) = q_acts q"

text \<open>
  \<open>link_server\<close>: a queue that is not blocked is empty; receiving a packet loses none and
  forwards one only when the queue was not blocked, which blocks it; \<open>resume\<close> forwards
  the head, or unblocks an empty queue.
\<close>

locale link_server =
  fixes H :: headers
    and rcv :: "real \<Rightarrow> nat \<Rightarrow> 'a queue_scheme \<Rightarrow> 'a queue_scheme"
    and res :: "real \<Rightarrow> 'a queue_scheme \<Rightarrow> 'a queue_scheme"
  assumes rcv_blocked: "\<lbrakk>pq_repr H (pq q) xs; p \<notin> set xs; blocked q = 1\<rbrakk> \<Longrightarrow>
      \<exists>ys ds. pq_repr H (pq (rcv now p q)) ys \<and> blocked (rcv now p q) = 1 \<and>
        q_acts (rcv now p q) = q_acts q @ List.map DropPkt ds \<and>
        mset (p # xs) = mset ys + mset ds"
    and rcv_idle: "\<lbrakk>pq_repr H (pq q) []; blocked q = 0\<rbrakk> \<Longrightarrow>
      pq_repr H (pq (rcv now p q)) [] \<and>
      (q_acts (rcv now p q) = q_acts q @ [Forward p] \<and> blocked (rcv now p q) = 1 \<or>
       q_acts (rcv now p q) = q_acts q @ [DropPkt p] \<and> blocked (rcv now p q) = 0)"
    and rcv_frame: "unblock_on_resume (rcv now p q) = unblock_on_resume q"
    and res_empty: "\<lbrakk>pq_repr H (pq q) []; unblock_on_resume q\<rbrakk> \<Longrightarrow>
      pq_repr H (pq (res now q)) [] \<and> blocked (res now q) = 0 \<and> q_acts (res now q) = q_acts q"
    and res_cons: "pq_repr H (pq q) (x # xs) \<Longrightarrow>
      pq_repr H (pq (res now q)) xs \<and> blocked (res now q) = blocked q \<and>
      q_acts (res now q) = q_acts q @ [Forward x]"
    and res_frame: "unblock_on_resume (res now q) = unblock_on_resume q"

context discipline
begin

lemma deq_cases:
  assumes "pq_repr H (pq q) xs"
  obtains "xs = []" "deq now q = (None, snd (deq now q))" "pq_repr H (pq (snd (deq now q))) []"
  | x ys where "xs = x # ys" "deq now q = (Some x, snd (deq now q))" "pq_repr H (pq (snd (deq now q))) ys"
proof (cases xs)
  case Nil
  then show ?thesis using that(1) deq_empty [of q now] assms by (simp add: prod_eq_iff)
next
  case (Cons x ys)
  then show ?thesis using that(2) deq_cons [of q x ys now] assms by (simp add: prod_eq_iff)
qed

lemma recv_blocked:
  assumes "pq_repr H (pq q) xs" "p \<notin> set xs" "blocked q = 1"
  shows "\<exists>ys ds. pq_repr H (pq (queue_recv enq deq now p q)) ys \<and>
     blocked (queue_recv enq deq now p q) = 1 \<and>
     q_acts (queue_recv enq deq now p q) = q_acts q @ List.map DropPkt ds \<and>
     mset (p # xs) = mset ys + mset ds"
  using enq_law [OF assms(1,2), of now] assms(3) enq_frame(1) [of now p q]
  by (auto simp: queue_recv_def Let_def)

lemma recv_idle:
  assumes "pq_repr H (pq q) []" "blocked q = 0"
  shows "pq_repr H (pq (queue_recv enq deq now p q)) [] \<and>
      (q_acts (queue_recv enq deq now p q) = q_acts q @ [Forward p] \<and>
         blocked (queue_recv enq deq now p q) = 1 \<or>
       q_acts (queue_recv enq deq now p q) = q_acts q @ [DropPkt p] \<and>
         blocked (queue_recv enq deq now p q) = 0)"
proof -
  obtain ys ds where e: "pq_repr H (pq (enq now p q)) ys"
      "q_acts (enq now p q) = q_acts q @ List.map DropPkt ds"
      "mset ([] @ [p]) = mset ys + mset ds"
    using enq_law [OF assms(1), of p now] by auto
  have b: "blocked (enq now p q) = 0" using enq_frame(1) assms(2) by simp
  have yd: "ys = [] \<and> ds = [p] \<or> ys = [p] \<and> ds = []"
    using e(3) by (auto simp: single_is_union)
  from e(1) show ?thesis
  proof (cases rule: deq_cases [where now = now])
    case 1
    then show ?thesis using yd e b deq_frame [of now "enq now p q"]
      by (auto simp: queue_recv_def Let_def split: prod.splits)
  next
    case (2 x zs)
    then show ?thesis using yd e b deq_frame [of now "enq now p q"]
      by (auto simp: queue_recv_def Let_def split: prod.splits)
  qed
qed

lemma recv_frame: "unblock_on_resume (queue_recv enq deq now p q) = unblock_on_resume q"
  using enq_frame(2) [of now p q] deq_frame(2) [of now "enq now p q"]
  by (auto simp: queue_recv_def Let_def split: prod.splits option.splits)

lemma resume_empty:
  assumes "pq_repr H (pq q) []" "unblock_on_resume q"
  shows "pq_repr H (pq (queue_resume deq now q)) [] \<and> blocked (queue_resume deq now q) = 0 \<and>
     q_acts (queue_resume deq now q) = q_acts q"
  using assms deq_empty [of q now] deq_frame [of now q]
  by (auto simp: queue_resume_def Let_def split: prod.splits)

lemma resume_cons:
  assumes "pq_repr H (pq q) (x # xs)"
  shows "pq_repr H (pq (queue_resume deq now q)) xs \<and> blocked (queue_resume deq now q) = blocked q \<and>
     q_acts (queue_resume deq now q) = q_acts q @ [Forward x]"
  using assms deq_cons [of q x xs now] deq_frame [of now q]
  by (auto simp: queue_resume_def Let_def split: prod.splits)

lemma resume_frame: "unblock_on_resume (queue_resume deq now q) = unblock_on_resume q"
  using deq_frame(2) [of now q]
  by (auto simp: queue_resume_def Let_def split: prod.splits option.splits)

text \<open>The flush loop ends, and drops the whole queue in order.\<close>

lemma flush_drops:
  assumes "pq_repr H (pq q) xs"
  shows "\<exists>q'. queue_flush deq act now q = Some q' \<and> pq_repr H (pq q') [] \<and>
     q_acts q' = q_acts q @ List.map act xs"
  using assms
proof (induction xs arbitrary: q)
  case Nil
  then show ?case
    using deq_empty [of q now] deq_frame(3) [of now q] by (subst queue_flush.simps) simp
next
  case (Cons x xs)
  define q1 where "q1 = (snd (deq now q))\<lparr>q_acts := q_acts (snd (deq now q)) @ [act x]\<rparr>"
  have d: "fst (deq now q) = Some x" "pq_repr H (pq (snd (deq now q))) xs"
    using deq_cons [OF Cons.prems] by auto
  have "queue_flush deq act now q = queue_flush deq act now q1"
    by (subst queue_flush.simps) (simp add: d q1_def)
  moreover have "pq_repr H (pq q1) xs" using d by (simp add: q1_def)
  moreover have "q_acts q1 = q_acts q @ [act x]" by (simp add: q1_def deq_frame)
  ultimately show ?case using Cons.IH [of q1] by auto
qed

end

sublocale discipline \<subseteq> server: link_server H "queue_recv enq deq" "queue_resume deq"
  by unfold_locales
    (rule recv_blocked recv_idle recv_frame resume_empty resume_cons resume_frame; assumption)+

section \<open>A queue and the link below it\<close>

text \<open>
  The link below holds the packets the queue forwarded to it and calls \<open>qh_.handle\<close>, which
  resumes the queue, when it is done with one; a link that holds nothing does not call.
\<close>

datatype link_event = Arrive real nat | LinkDone real

definition link_step ::
  "(real \<Rightarrow> nat \<Rightarrow> 'a queue_scheme \<Rightarrow> 'a queue_scheme) \<Rightarrow>
   (real \<Rightarrow> 'a queue_scheme \<Rightarrow> 'a queue_scheme) \<Rightarrow>
   'a queue_scheme \<times> nat list \<Rightarrow> link_event \<Rightarrow> 'a queue_scheme \<times> nat list" where
  "link_step rcv res s e =
     (case s of (q, held) \<Rightarrow>
        case e of
          Arrive t p \<Rightarrow>
            let q' = rcv t p q in (q', held @ forwarded (drop (length (q_acts q)) (q_acts q')))
        | LinkDone t \<Rightarrow>
            if held = [] then (q, held)
            else let q' = res t q
                 in (q', List.drop 1 held @ forwarded (drop (length (q_acts q)) (q_acts q'))))"

definition link_run ::
  "(real \<Rightarrow> nat \<Rightarrow> 'a queue_scheme \<Rightarrow> 'a queue_scheme) \<Rightarrow>
   (real \<Rightarrow> 'a queue_scheme \<Rightarrow> 'a queue_scheme) \<Rightarrow>
   link_event list \<Rightarrow> 'a queue_scheme \<Rightarrow> 'a queue_scheme \<times> nat list" where
  "link_run rcv res es q = foldl (link_step rcv res) (q, []) es"

definition arrivals :: "link_event list \<Rightarrow> nat list" where
  "arrivals es = concat (List.map (\<lambda>e. case e of Arrive t p \<Rightarrow> [p] | LinkDone t \<Rightarrow> []) es)"

definition link_inv :: "headers \<Rightarrow> nat list \<Rightarrow> 'a queue_scheme \<times> nat list \<Rightarrow> nat list \<Rightarrow> bool" where
  "link_inv H arr s xs \<longleftrightarrow> (case s of (q, held) \<Rightarrow>
     pq_repr H (pq q) xs \<and> unblock_on_resume q \<and>
     mset arr = mset (forwarded (q_acts q)) + mset (dropped (q_acts q)) + mset xs \<and>
     (held = [] \<and> blocked q = 0 \<and> xs = [] \<or>
      (\<exists>p. held = [p] \<and> blocked q = 1 \<and> last_opt (forwarded (q_acts q)) = Some p)))"

lemma arrivals_snoc [simp]:
  "arrivals [] = []"
  "arrivals (es @ [Arrive t p]) = arrivals es @ [p]"
  "arrivals (es @ [LinkDone t]) = arrivals es"
  by (simp_all add: arrivals_def)

lemma link_run_snoc [simp]:
  "link_run rcv res [] q = (q, [])"
  "link_run rcv res (es @ [e]) q = link_step rcv res (link_run rcv res es q) e"
  by (simp_all add: link_run_def)

definition idle_queue :: "headers \<Rightarrow> 'a queue_scheme \<Rightarrow> bool" where
  "idle_queue H q \<longleftrightarrow> q_head (pq q) = None \<and> q_tail (pq q) = None \<and> q_len (pq q) = 0 \<and>
     q_bytes (pq q) = 0 \<and> blocked q = 0 \<and> unblock_on_resume q \<and> q_acts q = []"

lemma idle_repr: "idle_queue H q \<Longrightarrow> pq_repr H (pq q) []"
  by (simp add: idle_queue_def pq_repr_def)

context link_server
begin

lemma arrive_inv:
  assumes inv: "link_inv H arr (q, held) xs" and new: "p \<notin> set arr"
  shows "\<exists>ys. link_inv H (arr @ [p]) (link_step rcv res (q, held) (Arrive t p)) ys"
proof -
  have r: "pq_repr H (pq q) xs" and u: "unblock_on_resume q"
    and m: "mset arr = mset (forwarded (q_acts q)) + mset (dropped (q_acts q)) + mset xs"
    using inv by (auto simp: link_inv_def)
  have p: "p \<notin> set xs" using new m by (metis UnI2 set_mset_mset set_mset_union)
  have u': "unblock_on_resume (rcv t p q)" using rcv_frame u by simp
  consider "held = []" "blocked q = 0" "xs = []"
    | h where "held = [h]" "blocked q = 1" "last_opt (forwarded (q_acts q)) = Some h"
    using inv by (auto simp: link_inv_def)
  then show ?thesis
  proof cases
    case 1
    then show ?thesis using rcv_idle [of q t p] r m u'
      by (intro exI [of _ "[]"]) (auto simp: link_inv_def link_step_def Let_def)
  next
    case 2
    then obtain ys ds where "pq_repr H (pq (rcv t p q)) ys" "blocked (rcv t p q) = 1"
        "q_acts (rcv t p q) = q_acts q @ List.map DropPkt ds" "mset (p # xs) = mset ys + mset ds"
      using rcv_blocked [OF r p] by blast
    then show ?thesis using 2 m u'
      by (intro exI [of _ ys]) (simp add: link_inv_def link_step_def Let_def ac_simps)
  qed
qed

lemma done_inv:
  assumes inv: "link_inv H arr (q, held) xs"
  shows "\<exists>ys. link_inv H arr (link_step rcv res (q, held) (LinkDone t)) ys"
proof -
  have r: "pq_repr H (pq q) xs" and u: "unblock_on_resume q"
    and m: "mset arr = mset (forwarded (q_acts q)) + mset (dropped (q_acts q)) + mset xs"
    using inv by (auto simp: link_inv_def)
  have u': "unblock_on_resume (res t q)" using res_frame u by simp
  consider "held = []" | h where "held = [h]" "blocked q = 1"
    using inv by (auto simp: link_inv_def)
  then show ?thesis
  proof cases
    case 1
    then show ?thesis using inv by (auto simp: link_step_def)
  next
    case 2
    show ?thesis
    proof (cases xs)
      case Nil
      then show ?thesis using res_empty [of q t] r u m u' 2
        by (intro exI [of _ "[]"]) (auto simp: link_inv_def link_step_def Let_def)
    next
      case (Cons x ys)
      then show ?thesis using res_cons [of q x ys t] r u m u' 2
        by (intro exI [of _ ys]) (auto simp: link_inv_def link_step_def Let_def)
    qed
  qed
qed

lemma run_inv:
  assumes "idle_queue H q" "distinct (arrivals es)"
  shows "\<exists>xs. link_inv H (arrivals es) (link_run rcv res es q) xs"
  using assms(2)
proof (induction es rule: rev_induct)
  case Nil
  then show ?case using assms(1) idle_repr [OF assms(1)]
    by (auto simp: link_inv_def idle_queue_def)
next
  case (snoc e es)
  obtain q' held where s: "link_run rcv res es q = (q', held)" by force
  show ?case
  proof (cases e)
    case (Arrive t p)
    then obtain xs where "link_inv H (arrivals es) (q', held) xs" using snoc s by auto
    then show ?thesis using arrive_inv [of "arrivals es" q' held xs p t] snoc.prems Arrive s by simp
  next
    case (LinkDone t)
    then obtain xs where "link_inv H (arrivals es) (q', held) xs" using snoc s by auto
    then show ?thesis using done_inv [of "arrivals es" q' held xs t] LinkDone s by simp
  qed
qed

end
section \<open>Order of service\<close>

context discipline
begin

lemma recv_fifo:
  assumes "pq_repr H (pq q) xs" "p \<notin> set xs" "blocked q = 0 \<and> xs = [] \<or> blocked q = 1"
  shows "\<exists>ys. pq_repr H (pq (queue_recv enq deq t p q)) ys \<and>
     subseq (forwarded (q_acts (queue_recv enq deq t p q)) @ ys) (forwarded (q_acts q) @ xs @ [p])"
  using assms(3)
proof
  assume "blocked q = 0 \<and> xs = []"
  then show ?thesis
    using recv_idle [of q t p] assms by (intro exI [of _ "[]"]) auto
next
  assume b: "blocked q = 1"
  obtain ys ds where "pq_repr H (pq (enq t p q)) ys"
      "q_acts (enq t p q) = q_acts q @ List.map DropPkt ds" "subseq ys (xs @ [p])"
    using enq_law [OF assms(1,2), of t] by blast
  then show ?thesis
    using b enq_frame(1) [of t p q]
    by (intro exI [of _ ys]) (auto simp: queue_recv_def Let_def intro: list_emb_append_mono)
qed

lemma run_fifo:
  assumes "idle_queue H q" "distinct (arrivals es)"
  shows "\<exists>xs. link_inv H (arrivals es) (link_run (queue_recv enq deq) (queue_resume deq) es q) xs \<and>
     subseq (forwarded (q_acts (fst (link_run (queue_recv enq deq) (queue_resume deq) es q))) @ xs)
       (arrivals es)"
  using assms(2)
proof (induction es rule: rev_induct)
  case Nil
  then show ?case using assms(1) server.run_inv [of q "[]"] by (auto simp: link_inv_def idle_queue_def)
next
  case (snoc e es)
  obtain q' held where s: "link_run (queue_recv enq deq) (queue_resume deq) es q = (q', held)" by force
  have da: "distinct (arrivals es)" using snoc.prems by (cases e) auto
  then obtain xs where inv: "link_inv H (arrivals es) (q', held) xs"
    and sub: "subseq (forwarded (q_acts q') @ xs) (arrivals es)" using snoc.IH s by auto
  obtain zs where inv': "link_inv H (arrivals (es @ [e]))
      (link_run (queue_recv enq deq) (queue_resume deq) (es @ [e]) q) zs"
    using server.run_inv [OF assms(1) snoc.prems] by blast
  have r: "pq_repr H (pq q') xs" and b: "blocked q' = 0 \<and> xs = [] \<or> blocked q' = 1"
    using inv by (auto simp: link_inv_def)
  show ?case
  proof (cases e)
    case (Arrive t p)
    have "p \<notin> set xs" using inv snoc.prems Arrive
      by (auto simp: link_inv_def) (metis UnI2 set_mset_mset set_mset_union)+
    then obtain ys where ys: "pq_repr H (pq (queue_recv enq deq t p q')) ys"
      "subseq (forwarded (q_acts (queue_recv enq deq t p q')) @ ys) (forwarded (q_acts q') @ xs @ [p])"
      using recv_fifo [OF r _ b] by blast
    have "zs = ys" using inv' ys(1) Arrive s
      by (auto simp: link_inv_def link_step_def Let_def intro: pq_repr_unique)
    moreover have "subseq ((forwarded (q_acts q') @ xs) @ [p]) (arrivals es @ [p])"
      using sub by (intro list_emb_append_mono) auto
    ultimately show ?thesis using inv' ys(2) Arrive s
      by (intro exI [of _ ys]) (auto simp: link_step_def Let_def dest: subseq_order.trans)
  next
    case (LinkDone t)
    have "subseq (forwarded (q_acts (fst (link_step (queue_recv enq deq) (queue_resume deq) (q', held) e))) @ zs)
        (arrivals es)"
    proof (cases "held = [] \<or> xs = []")
      case True
      then have "zs = []" "xs = []" using inv inv' LinkDone s resume_empty [of q' t] pq_repr_unique
        by (auto simp: link_inv_def link_step_def Let_def)
      then show ?thesis using sub inv LinkDone True resume_empty [of q' t]
        by (auto simp: link_step_def Let_def link_inv_def)
    next
      case False
      then obtain x ys where xs: "xs = x # ys" by (cases xs) auto
      then have "zs = ys" using inv' LinkDone s False resume_cons [of q' x ys t] r pq_repr_unique
        by (auto simp: link_inv_def link_step_def Let_def)
      then show ?thesis using sub LinkDone False xs resume_cons [of q' x ys t] r
        by (auto simp: link_step_def Let_def)
    qed
    then show ?thesis using inv' LinkDone s by auto
  qed
qed

end

end
