(* ===== verification/DropTailQueue.thy ===== *)
theory DropTailQueue
  imports LinkQueue
begin

text \<open>
  The two disciplines of the interface queue: \<open>DropTail\<close> (queue/drop-tail.h,
  queue/drop-tail.cc), a bounded FIFO counted in packets or in bytes, and \<open>PriQueue\<close>
  (queue/priqueue.h, queue/priqueue.cc), which puts routing packets at the head and lets
  the link layer take packets out of the middle.

  Calls that can abort (\<open>PacketQueue::remove\<close> of an absent packet) return \<open>Inl\<close>, and
  loops over the queue are partial functions, shown to end on every well-formed queue.
\<close>

section \<open>DropTail\<close>

record droptail = queue +
  drop_front :: bool
  summarystats :: bool
  qib :: bool
  mean_pktsize :: int

definition droptail_stats :: "real \<Rightarrow> 'a droptail_scheme \<Rightarrow> 'a droptail_scheme" where
  "droptail_stats now q =
     (if summarystats q then updateStats now (if qib q then q_bytes (pq q) else q_len (pq q)) q else q)"

definition droptail_full :: "headers \<Rightarrow> nat \<Rightarrow> 'a droptail_scheme \<Rightarrow> bool" where
  "droptail_full H p q \<longleftrightarrow>
     (\<not> qib q \<and> q_len (pq q) + 1 \<ge> qlim q) \<or>
     (qib q \<and> q_bytes (pq q) + pkt_size H p \<ge> qlim q * mean_pktsize q)"

definition droptail_enque :: "headers \<Rightarrow> real \<Rightarrow> nat \<Rightarrow> 'a droptail_scheme \<Rightarrow> 'a droptail_scheme" where
  "droptail_enque H now p q0 =
     (let q = droptail_stats now q0
      in if droptail_full H p q then
           if drop_front q then
             case pq_deque H (snd (pq_enque H p (pq q))) of
               (Some pp, b) \<Rightarrow> q\<lparr>pq := b, q_acts := q_acts q @ [DropPkt pp]\<rparr>
             | (None, b) \<Rightarrow> q\<lparr>pq := b\<rparr>
           else q\<lparr>q_acts := q_acts q @ [DropPkt p]\<rparr>
         else q\<lparr>pq := snd (pq_enque H p (pq q))\<rparr>)"

definition droptail_deque ::
  "headers \<Rightarrow> real \<Rightarrow> 'a droptail_scheme \<Rightarrow> nat option \<times> 'a droptail_scheme" where
  "droptail_deque H now q0 =
     (let q = droptail_stats now q0
      in (fst (pq_deque H (pq q)), q\<lparr>pq := snd (pq_deque H (pq q))\<rparr>))"

definition shrink_over :: "'a droptail_scheme \<Rightarrow> bool" where
  "shrink_over q \<longleftrightarrow>
     (\<not> qib q \<and> q_len (pq q) > qlim q) \<or> (qib q \<and> q_bytes (pq q) > qlim q * mean_pktsize q)"

partial_function (option) shrink_queue ::
  "headers \<Rightarrow> 'a droptail_scheme \<Rightarrow> (queue_error, 'a droptail_scheme) result option" where
  "shrink_queue H q =
     (if shrink_over q then
        if drop_front q then
          if fst (pq_deque H (pq q)) = None then Some (Inl NullPacket)
          else shrink_queue H (q\<lparr>pq := snd (pq_deque H (pq q)),
                 q_acts := q_acts q @ [DropPkt (the (fst (pq_deque H (pq q))))]\<rparr>)
        else
          if q_tail (pq q) = None then Some (Inl RemoveNotFound)
          else Option.bind (pq_remove H (the (q_tail (pq q))) (pq q)) (\<lambda>r.
                 if isl r then Some (Inl (projl r))
                 else shrink_queue H (q\<lparr>pq := projr r,
                        q_acts := q_acts q @ [DropPkt (the (q_tail (pq q)))]\<rparr>))
      else Some (Inr q))"

definition droptail_recv :: "headers \<Rightarrow> real \<Rightarrow> nat \<Rightarrow> 'a droptail_scheme \<Rightarrow> 'a droptail_scheme" where
  "droptail_recv H = queue_recv (droptail_enque H) (droptail_deque H)"

definition droptail_resume :: "headers \<Rightarrow> real \<Rightarrow> 'a droptail_scheme \<Rightarrow> 'a droptail_scheme" where
  "droptail_resume H = queue_resume (droptail_deque H)"

definition droptail_reset :: "headers \<Rightarrow> real \<Rightarrow> 'a droptail_scheme \<Rightarrow> 'a droptail_scheme option" where
  "droptail_reset H = queue_reset (droptail_deque H)"

section \<open>PriQueue\<close>

record priqueue = droptail +
  prefer_routing :: bool

abbreviation (input) PT_MESSAGE :: int where "PT_MESSAGE \<equiv> 13"
abbreviation (input) PT_TORA :: int where "PT_TORA \<equiv> 36"
abbreviation (input) PT_DSR :: int where "PT_DSR \<equiv> 37"
abbreviation (input) PT_AODV :: int where "PT_AODV \<equiv> 38"
abbreviation (input) PT_AOMDV :: int where "PT_AOMDV \<equiv> 61"
abbreviation (input) PT_MDART :: int where "PT_MDART \<equiv> 72"

definition routing_ptype :: "int \<Rightarrow> bool" where
  "routing_ptype t \<longleftrightarrow> t = PT_DSR \<or> t = PT_MESSAGE \<or> t = PT_TORA \<or> t = PT_AODV \<or>
     t = PT_AOMDV \<or> t = PT_MDART"

text \<open>The insertion at the head, with the packet at the tail dropped when the queue is full.\<close>

definition pri_insert ::
  "headers \<Rightarrow> nat \<Rightarrow> 'a droptail_scheme \<Rightarrow> (queue_error, 'a droptail_scheme) result option" where
  "pri_insert H p q =
     (let b = pq_enqueHead H p (pq q)
      in if q_len b \<ge> qlim q then
           case pq_lookup (q_len b - 1) b of
             None \<Rightarrow> Some (Inl RemoveNotFound)
           | Some d \<Rightarrow>
               (case pq_remove H d b of
                  None \<Rightarrow> None
                | Some (Inl e) \<Rightarrow> Some (Inl e)
                | Some (Inr b') \<Rightarrow> Some (Inr (q\<lparr>pq := b', q_acts := q_acts q @ [DropPkt d]\<rparr>)))
         else Some (Inr (q\<lparr>pq := b\<rparr>)))"

text \<open>Unlike \<open>Queue::recv\<close>, the forwarding here does not update the utilization.\<close>

definition pri_serve :: "headers \<Rightarrow> real \<Rightarrow> 'a droptail_scheme \<Rightarrow> 'a droptail_scheme" where
  "pri_serve H now q =
     (if blocked q = 0 then
        case droptail_deque H now q of
          (None, q1) \<Rightarrow> q1
        | (Some p, q1) \<Rightarrow> q1\<lparr>blocked := 1, q_acts := q_acts q1 @ [Forward p]\<rparr>
      else q)"

definition recvHighPriority ::
  "headers \<Rightarrow> real \<Rightarrow> nat \<Rightarrow> 'a droptail_scheme \<Rightarrow> (queue_error, 'a droptail_scheme) result option" where
  "recvHighPriority H now p q =
     (case pri_insert H p q of
        None \<Rightarrow> None
      | Some (Inl e) \<Rightarrow> Some (Inl e)
      | Some (Inr q1) \<Rightarrow> Some (Inr (pri_serve H now q1)))"

definition pri_recv ::
  "headers \<Rightarrow> real \<Rightarrow> nat \<Rightarrow> 'a priqueue_scheme \<Rightarrow> (queue_error, 'a priqueue_scheme) result option" where
  "pri_recv H now p q =
     (if prefer_routing q \<and> routing_ptype (ch_ptype (cmn (H p))) then recvHighPriority H now p q
      else Some (Inr (droptail_recv H now p q)))"

text \<open>\<open>filter(fn, data)\<close>: every packet the filter accepts is removed (and not freed or dropped).\<close>

partial_function (option) pri_filter_loop ::
  "headers \<Rightarrow> (nat \<Rightarrow> bool) \<Rightarrow> int \<Rightarrow> 'a droptail_scheme \<Rightarrow>
     (queue_error, 'a droptail_scheme) result option" where
  "pri_filter_loop H f i q =
     (if i < q_len (pq q) then
        if pq_lookup i (pq q) = None then Some (Inl NullPacket)
        else if f (the (pq_lookup i (pq q))) then
          Option.bind (pq_remove H (the (pq_lookup i (pq q))) (pq q)) (\<lambda>r.
            if isl r then Some (Inl (projl r)) else pri_filter_loop H f i (q\<lparr>pq := projr r\<rparr>))
        else pri_filter_loop H f (i + 1) q
      else Some (Inr q))"

definition pri_filter_fn ::
  "headers \<Rightarrow> (nat \<Rightarrow> bool) \<Rightarrow> 'a droptail_scheme \<Rightarrow> (queue_error, 'a droptail_scheme) result option" where
  "pri_filter_fn H f q = pri_filter_loop H f 0 q"

text \<open>\<open>filter(id)\<close>: the first packet with next hop \<open>id\<close> and its predecessor.\<close>

partial_function (option) next_hop_search ::
  "headers \<Rightarrow> (nat \<Rightarrow> nat option) \<Rightarrow> int \<Rightarrow> nat option \<Rightarrow> nat option \<Rightarrow> (nat option \<times> nat option) option" where
  "next_hop_search H nx dst pp p =
     (if p = None then Some (None, pp)
      else if ch_next_hop (cmn (H (the p))) = dst then Some (p, pp)
      else next_hop_search H nx dst p (nx (the p)))"

definition pri_filter_id ::
  "headers \<Rightarrow> int \<Rightarrow> 'a droptail_scheme \<Rightarrow>
     (queue_error, nat option \<times> 'a droptail_scheme) result option" where
  "pri_filter_id H dst q =
     (case next_hop_search H (q_next (pq q)) dst None (q_head (pq q)) of
        None \<Rightarrow> None
      | Some (None, pp) \<Rightarrow> Some (Inr (None, q))
      | Some (Some p, None) \<Rightarrow>
          (case pq_remove H p (pq q) of
             None \<Rightarrow> None
           | Some (Inl e) \<Rightarrow> Some (Inl e)
           | Some (Inr b) \<Rightarrow> Some (Inr (Some p, q\<lparr>pq := b\<rparr>)))
      | Some (Some p, Some pp) \<Rightarrow>
          (case pq_remove2 H (Some p) (Some pp) (pq q) of
             Inl e \<Rightarrow> Some (Inl e)
           | Inr b \<Rightarrow> Some (Inr (Some p, q\<lparr>pq := b\<rparr>))))"

definition pri_terminate :: "headers \<Rightarrow> real \<Rightarrow> 'a droptail_scheme \<Rightarrow> 'a droptail_scheme option" where
  "pri_terminate H now q = queue_flush (droptail_deque H) DropEnd now q"

section \<open>DropTail keeps the contract\<close>

lemma droptail_stats_frame [simp]:
  "pq (droptail_stats now q) = pq q"
  "blocked (droptail_stats now q) = blocked q"
  "unblock_on_resume (droptail_stats now q) = unblock_on_resume q"
  "q_acts (droptail_stats now q) = q_acts q"
  "qlim (droptail_stats now q) = qlim q"
  "queue.more (droptail_stats now q) = queue.more q"
  by (simp_all add: droptail_stats_def)

lemma droptail_fields:
  assumes "queue.more q' = queue.more q"
  shows "drop_front q' = drop_front q" "qib q' = qib q" "mean_pktsize q' = mean_pktsize q"
    "summarystats q' = summarystats q"
  using assms by (cases q; cases q'; simp)+

lemma droptail_stats_fields [simp]:
  "drop_front (droptail_stats now q) = drop_front q"
  "qib (droptail_stats now q) = qib q"
  "mean_pktsize (droptail_stats now q) = mean_pktsize q"
  by (rule droptail_fields; simp)+

lemma droptail_full_stats [simp]: "droptail_full H p (droptail_stats now q) = droptail_full H p q"
  by (simp add: droptail_full_def)

lemma droptail_enque_cases:
  assumes r: "pq_repr H (pq q) xs" and p: "p \<notin> set xs"
  shows "pq_repr H (pq (droptail_enque H now p q))
           (if \<not> droptail_full H p q then xs @ [p] else if drop_front q then List.drop 1 (xs @ [p]) else xs)"
    and "q_acts (droptail_enque H now p q) = q_acts q @ List.map DropPkt
           (if \<not> droptail_full H p q then [] else if drop_front q then [hd (xs @ [p])] else [p])"
proof -
  have e: "pq_repr H (snd (pq_enque H p (pq q))) (xs @ [p])" using pq_enque_repr(1) [OF r p] .
  obtain y ys where xp: "xs @ [p] = y # ys" by (cases xs) auto
  have d: "fst (pq_deque H (snd (pq_enque H p (pq q)))) = Some y"
      "pq_repr H (snd (pq_deque H (snd (pq_enque H p (pq q))))) ys"
    using pq_deque_repr [of H "snd (pq_enque H p (pq q))" y ys] e xp by auto
  show "pq_repr H (pq (droptail_enque H now p q))
           (if \<not> droptail_full H p q then xs @ [p] else if drop_front q then List.drop 1 (xs @ [p]) else xs)"
    using e d r xp by (auto simp: droptail_enque_def Let_def split: prod.splits option.splits)
  show "q_acts (droptail_enque H now p q) = q_acts q @ List.map DropPkt
           (if \<not> droptail_full H p q then [] else if drop_front q then [hd (xs @ [p])] else [p])"
    using d xp by (auto simp: droptail_enque_def Let_def split: prod.splits option.splits)
qed

lemma droptail_enque_frame:
  "blocked (droptail_enque H now p q) = blocked q"
  "unblock_on_resume (droptail_enque H now p q) = unblock_on_resume q"
  "qlim (droptail_enque H now p q) = qlim q"
  "drop_front (droptail_enque H now p q) = drop_front q"
  "qib (droptail_enque H now p q) = qib q"
  "mean_pktsize (droptail_enque H now p q) = mean_pktsize q"
  by (auto simp: droptail_enque_def Let_def split: prod.splits option.splits)

interpretation dt: discipline H "droptail_enque H" "droptail_deque H" for H
proof unfold_locales
  fix q :: "'a droptail_scheme" and xs p now
  assume r: "pq_repr H (pq q) xs" and p: "p \<notin> set xs"
  define Y where "Y = (if \<not> droptail_full H p q then xs @ [p] else if drop_front q then List.drop 1 (xs @ [p]) else xs)"
  define D where "D = (if \<not> droptail_full H p q then [] else if drop_front q then [hd (xs @ [p])] else [p])"
  obtain y ys where xp: "xs @ [p] = y # ys" by (cases xs) auto
  have ms: "mset (xs @ [p]) = mset Y + mset D"
  proof (cases "droptail_full H p q \<and> drop_front q")
    case True
    then show ?thesis by (simp add: Y_def D_def xp)
  next
    case False
    then show ?thesis by (auto simp: Y_def D_def)
  qed
  have "subseq Y (xs @ [p])"
  proof (cases "droptail_full H p q \<and> drop_front q")
    case True
    then show ?thesis by (auto simp: Y_def xp intro: list_emb_Cons)
  next
    case False
    then show ?thesis by (auto simp: Y_def intro: subseq_rev_drop_many)
  qed
  then show "\<exists>ys ds. pq_repr H (pq (droptail_enque H now p q)) ys \<and>
        q_acts (droptail_enque H now p q) = q_acts q @ List.map DropPkt ds \<and>
        mset (xs @ [p]) = mset ys + mset ds \<and> subseq ys (xs @ [p])"
    using droptail_enque_cases [OF r p, of now] ms unfolding Y_def [symmetric] D_def [symmetric] by blast
next
  fix q :: "'a droptail_scheme" and now
  assume "pq_repr H (pq q) []"
  then show "fst (droptail_deque H now q) = None \<and> pq_repr H (pq (snd (droptail_deque H now q))) []"
    using pq_deque_empty [of H "pq q"] by (simp add: droptail_deque_def Let_def)
next
  fix q :: "'a droptail_scheme" and x xs now
  assume "pq_repr H (pq q) (x # xs)"
  then show "fst (droptail_deque H now q) = Some x \<and> pq_repr H (pq (snd (droptail_deque H now q))) xs"
    using pq_deque_repr [of H "pq q" x xs] by (simp add: droptail_deque_def Let_def)
qed (simp_all add: droptail_enque_frame droptail_deque_def Let_def)

section \<open>The bound of DropTail\<close>

text \<open>
  A packet is dropped as soon as keeping it would make the queue \<open>limit_\<close> packets long, so
  the queue holds at most \<open>limit_\<close> - 1 of them.
\<close>

definition within_limit :: "'a droptail_scheme \<Rightarrow> bool" where
  "within_limit q \<longleftrightarrow> qib q \<or> q_len (pq q) \<le> max 0 (qlim q - 1)"

lemma droptail_deque_frame:
  "qlim (snd (droptail_deque H now q)) = qlim q"
  "queue.more (snd (droptail_deque H now q)) = queue.more q"
  "pq (snd (droptail_deque H now q)) = snd (pq_deque H (pq q))"
  by (simp_all add: droptail_deque_def Let_def)

lemma pq_deque_len: "q_len (snd (pq_deque H b)) \<le> q_len b"
  by (simp add: pq_deque_def Let_def split: option.splits)

lemma within_limit_cong:
  assumes "queue.more q' = queue.more q" "qlim q' = qlim q" "q_len (pq q') \<le> q_len (pq q)" "within_limit q"
  shows "within_limit q'"
  using assms droptail_fields(2) [OF assms(1)] by (auto simp: within_limit_def)

lemma droptail_enque_within:
  assumes r: "pq_repr H (pq q) xs" and p: "p \<notin> set xs" and w: "within_limit q"
  shows "within_limit (droptail_enque H now p q)"
proof -
  let ?q = "droptail_enque H now p q"
  have l: "q_len (pq ?q) = int (length (if \<not> droptail_full H p q then xs @ [p]
      else if drop_front q then List.drop 1 (xs @ [p]) else xs))"
    using pq_repr_len [OF droptail_enque_cases(1) [OF r p, of now]] .
  show ?thesis using w l pq_repr_len [OF r]
    by (auto simp: within_limit_def droptail_enque_frame droptail_full_def split: if_splits)
qed

lemma droptail_recv_within:
  assumes r: "pq_repr H (pq q) xs" and p: "p \<notin> set xs" and w: "within_limit q"
  shows "within_limit (droptail_recv H now p q)"
proof -
  define q1 where "q1 = droptail_enque H now p q"
  have w1: "within_limit q1" using droptail_enque_within [OF assms] by (simp add: q1_def)
  obtain o2 q2 where d: "droptail_deque H now q1 = (o2, q2)" by force
  have w2: "within_limit q2"
    using within_limit_cong [OF _ _ _ w1, of q2] droptail_deque_frame [of H now q1] d pq_deque_len [of H "pq q1"]
    by simp
  define q3 where "q3 p' = (utilUpdate (last_change q2) now (blocked q2) q2)\<lparr>last_change := now, blocked := 1,
     q_acts := q_acts q2 @ [Forward p']\<rparr>" for p'
  have w3: "within_limit (q3 p')" for p'
    by (rule within_limit_cong [OF _ _ _ w2]) (simp_all add: q3_def)
  show ?thesis using w1 w2 w3 d
    by (auto simp: droptail_recv_def queue_recv_def Let_def q1_def [symmetric] q3_def split: option.splits)
qed

lemma droptail_resume_within:
  assumes w: "within_limit q"
  shows "within_limit (droptail_resume H now q)"
proof -
  obtain o2 q2 where d: "droptail_deque H now q = (o2, q2)" by force
  have w2: "within_limit q2"
    using within_limit_cong [OF _ _ _ w, of q2] droptail_deque_frame [of H now q] d pq_deque_len [of H "pq q"]
    by simp
  have e: "droptail_resume H now q = (case o2 of Some p \<Rightarrow> q2\<lparr>q_acts := q_acts q2 @ [Forward p]\<rparr>
     | None \<Rightarrow> (utilUpdate (last_change q2) now (blocked q2) q2)
                 \<lparr>last_change := now, blocked := (if unblock_on_resume q2 then 0 else 1)\<rparr>)"
    by (simp add: droptail_resume_def queue_resume_def Let_def d split: option.splits)
  show ?thesis unfolding e
    by (rule within_limit_cong [OF _ _ _ w2]) (simp_all split: option.splits)
qed

lemma droptail_run_within:
  assumes "idle_queue H q" "distinct (arrivals es)" "within_limit q"
  shows "within_limit (fst (link_run (droptail_recv H) (droptail_resume H) es q))"
  using assms(2)
proof (induction es rule: rev_induct)
  case Nil
  then show ?case using assms(3) by simp
next
  case (snoc e es)
  obtain q' held where s: "link_run (droptail_recv H) (droptail_resume H) es q = (q', held)" by force
  have da: "distinct (arrivals es)" using snoc.prems by (cases e) auto
  have w: "within_limit q'" using snoc.IH [OF da] s by simp
  obtain xs where inv: "link_inv H (arrivals es) (q', held) xs"
    using dt.server.run_inv [OF assms(1) da] s by (auto simp: droptail_recv_def droptail_resume_def)
  show ?case
  proof (cases e)
    case (Arrive t p)
    then have "p \<notin> set xs" using inv snoc.prems
      by (auto simp: link_inv_def) (metis UnI2 set_mset_mset set_mset_union)+
    then show ?thesis using droptail_recv_within [OF _ _ w, of H xs p t] inv Arrive s
      by (simp add: link_step_def Let_def link_inv_def)
  next
    case (LinkDone t)
    then show ?thesis using droptail_resume_within [OF w] w s by (simp add: link_step_def Let_def)
  qed
qed

lemma droptail_recv_frame:
  "qlim (droptail_recv H now p q) = qlim q \<and> qib (droptail_recv H now p q) = qib q"
proof -
  have e: "qlim (droptail_enque H now p q) = qlim q" "qib (droptail_enque H now p q) = qib q"
    by (simp_all add: droptail_enque_frame)
  have u: "qib (utilUpdate a b l r) = qib r" for a b l and r :: "'a droptail_scheme"
    by (rule droptail_fields) simp
  have d: "qlim (snd (droptail_deque H now r)) = qlim r" "qib (snd (droptail_deque H now r)) = qib r"
    for r :: "'a droptail_scheme"
    by (simp_all add: droptail_deque_def Let_def)
  show ?thesis
    using e d [of "droptail_enque H now p q"]
    by (auto simp: droptail_recv_def queue_recv_def Let_def u split: prod.splits option.splits)
qed

lemma droptail_resume_frame:
  "qlim (droptail_resume H now q) = qlim q \<and> qib (droptail_resume H now q) = qib q"
proof -
  have u: "qib (utilUpdate a b l r) = qib r" for a b l and r :: "'a droptail_scheme"
    by (rule droptail_fields) simp
  have d: "qlim (snd (droptail_deque H now q)) = qlim q" "qib (snd (droptail_deque H now q)) = qib q"
    by (simp_all add: droptail_deque_def Let_def)
  show ?thesis using d
    by (auto simp: droptail_resume_def queue_resume_def Let_def u split: prod.splits option.splits)
qed

lemma droptail_run_frame:
  "qlim (fst (link_run (droptail_recv H) (droptail_resume H) es q)) = qlim q \<and>
   qib (fst (link_run (droptail_recv H) (droptail_resume H) es q)) = qib q"
proof (induction es rule: rev_induct)
  case Nil
  then show ?case by simp
next
  case (snoc e es)
  then show ?case
    by (auto simp: link_step_def Let_def droptail_recv_frame droptail_resume_frame
        split: prod.splits link_event.splits)
qed

section \<open>Shrinking the queue\<close>

lemma shrink_front:
  assumes "pq_repr H (pq q) xs" "drop_front q" "0 \<le> qlim q" "0 \<le> mean_pktsize q"
  shows "\<exists>q' ys zs. shrink_queue H q = Some (Inr q') \<and> xs = zs @ ys \<and> pq_repr H (pq q') ys \<and>
     \<not> shrink_over q' \<and> q_acts q' = q_acts q @ List.map DropPkt zs"
  using assms
proof (induction xs arbitrary: q)
  case Nil
  then have "\<not> shrink_over q" by (auto simp: shrink_over_def pq_repr_def not_less)
  then show ?case using Nil by (intro exI [of _ q]) (simp add: shrink_queue.simps)
next
  case (Cons x xs)
  show ?case
  proof (cases "shrink_over q")
    case False
    then show ?thesis using Cons.prems
      by (intro exI [of _ q] exI [of _ "x # xs"] exI [of _ "[]"]) (simp add: shrink_queue.simps)
  next
    case True
    define q1 where "q1 = q\<lparr>pq := snd (pq_deque H (pq q)), q_acts := q_acts q @ [DropPkt x]\<rparr>"
    have d: "fst (pq_deque H (pq q)) = Some x" "pq_repr H (pq q1) xs"
      using pq_deque_repr [OF Cons.prems(1)] by (simp_all add: q1_def)
    have e: "shrink_queue H q = shrink_queue H q1"
      using True Cons.prems(2) d(1) by (subst shrink_queue.simps) (simp add: q1_def)
    obtain q' ys zs where "shrink_queue H q1 = Some (Inr q')" "xs = zs @ ys" "pq_repr H (pq q') ys"
        "\<not> shrink_over q'" "q_acts q' = q_acts q1 @ List.map DropPkt zs"
      using Cons.IH [OF d(2)] Cons.prems by (auto simp: q1_def)
    then show ?thesis using e
      by (intro exI [of _ q'] exI [of _ ys] exI [of _ "x # zs"]) (simp add: q1_def)
  qed
qed

lemma shrink_back:
  assumes "pq_repr H (pq q) xs" "\<not> drop_front q" "0 \<le> qlim q" "0 \<le> mean_pktsize q"
  shows "\<exists>q' ys zs. shrink_queue H q = Some (Inr q') \<and> xs = ys @ rev zs \<and> pq_repr H (pq q') ys \<and>
     \<not> shrink_over q' \<and> q_acts q' = q_acts q @ List.map DropPkt zs"
  using assms
proof (induction xs arbitrary: q rule: rev_induct)
  case Nil
  then have "\<not> shrink_over q" by (auto simp: shrink_over_def pq_repr_def not_less)
  then show ?case using Nil by (intro exI [of _ q]) (simp add: shrink_queue.simps)
next
  case (snoc x xs)
  show ?case
  proof (cases "shrink_over q")
    case False
    then show ?thesis using snoc.prems
      by (intro exI [of _ q] exI [of _ "xs @ [x]"] exI [of _ "[]"]) (simp add: shrink_queue.simps)
  next
    case True
    have x: "q_tail (pq q) = Some x" using pq_repr_tail [OF snoc.prems(1)] by simp
    have rm: "remove1 x (xs @ [x]) = xs"
      using pq_repr_distinct [OF snoc.prems(1)] by (simp add: remove1_append)
    obtain b where b: "pq_remove H x (pq q) = Some (Inr b)" "pq_repr H b xs"
      using pq_remove_repr [OF snoc.prems(1), of x] rm by auto
    define q1 where "q1 = q\<lparr>pq := b, q_acts := q_acts q @ [DropPkt x]\<rparr>"
    have e: "shrink_queue H q = shrink_queue H q1"
      using True snoc.prems(2) x b(1) by (subst shrink_queue.simps) (simp add: q1_def)
    obtain q' ys zs where "shrink_queue H q1 = Some (Inr q')" "xs = ys @ rev zs" "pq_repr H (pq q') ys"
        "\<not> shrink_over q'" "q_acts q' = q_acts q1 @ List.map DropPkt zs"
      using snoc.IH [of q1] snoc.prems b by (auto simp: q1_def)
    then show ?thesis using e
      by (intro exI [of _ q'] exI [of _ ys] exI [of _ "x # zs"]) (simp add: q1_def)
  qed
qed

section \<open>PriQueue keeps the link's contract\<close>

lemma pri_insert_cases:
  assumes r: "pq_repr H (pq q) xs" and p: "p \<notin> set xs"
  shows "\<exists>b. pri_insert H p q = Some (Inr (if int (length xs) + 1 \<ge> qlim q
             then q\<lparr>pq := b, q_acts := q_acts q @ [DropPkt (last (p # xs))]\<rparr> else q\<lparr>pq := b\<rparr>)) \<and>
           pq_repr H b (if int (length xs) + 1 \<ge> qlim q then butlast (p # xs) else p # xs)"
proof -
  define b where "b = pq_enqueHead H p (pq q)"
  have br: "pq_repr H b (p # xs)" using pq_enqueHead_repr [OF r p] by (simp add: b_def)
  have bl: "q_len b = int (length xs) + 1" using pq_repr_len [OF br] by simp
  show ?thesis
  proof (cases "int (length xs) + 1 \<ge> qlim q")
    case False
    then show ?thesis using br bl by (intro exI [of _ b]) (simp add: pri_insert_def Let_def b_def)
  next
    case True
    have lk: "pq_lookup (q_len b - 1) b = Some (last (p # xs))"
      using pq_lookup_repr [OF br, of "q_len b - 1"] bl by (simp add: last_conv_nth)
    have rm: "remove1 (last (p # xs)) (p # xs) = butlast (p # xs)"
    proof -
      have "p # xs = butlast (p # xs) @ [last (p # xs)]" by simp
      moreover have "distinct (p # xs)" using pq_repr_distinct [OF br] .
      ultimately show ?thesis
        by (metis distinct_append disjoint_iff list.set_intros(1) remove1.simps(2) remove1_append append_Nil2)
    qed
    obtain b' where "pq_remove H (last (p # xs)) b = Some (Inr b')" "pq_repr H b' (butlast (p # xs))"
      using pq_remove_repr [OF br, of "last (p # xs)"] rm by (metis last_in_set list.distinct(1))
    then show ?thesis using True lk bl
      by (intro exI [of _ b']) (simp add: pri_insert_def Let_def b_def [symmetric])
  qed
qed

lemma pri_serve_blocked: "blocked q \<noteq> 0 \<Longrightarrow> pri_serve H now q = q"
  by (simp add: pri_serve_def)

lemma pri_serve_empty:
  assumes "pq_repr H (pq q) []"
  shows "pq_repr H (pq (pri_serve H now q)) []" "blocked (pri_serve H now q) = blocked q"
    "q_acts (pri_serve H now q) = q_acts q" "unblock_on_resume (pri_serve H now q) = unblock_on_resume q"
  using assms pq_deque_empty [OF assms] by (simp_all add: pri_serve_def droptail_deque_def Let_def)

lemma pri_serve_single:
  assumes "pq_repr H (pq q) [p]" "blocked q = 0"
  shows "pq_repr H (pq (pri_serve H now q)) []" "blocked (pri_serve H now q) = 1"
    "q_acts (pri_serve H now q) = q_acts q @ [Forward p]"
  using assms(2) pq_deque_repr [OF assms(1)] by (simp_all add: pri_serve_def droptail_deque_def Let_def)

lemma pri_serve_frame: "unblock_on_resume (pri_serve H now q) = unblock_on_resume q"
  by (simp add: pri_serve_def droptail_deque_def Let_def split: option.splits)

text \<open>\<open>recvHighPriority\<close> never aborts on a well-formed queue.\<close>

lemma high_priority_returns:
  assumes r: "pq_repr H (pq q) xs" and p: "p \<notin> set xs"
  obtains b where "recvHighPriority H now p q = Some (Inr (pri_serve H now
      (if int (length xs) + 1 \<ge> qlim q
       then q\<lparr>pq := b, q_acts := q_acts q @ [DropPkt (last (p # xs))]\<rparr> else q\<lparr>pq := b\<rparr>)))"
    "pq_repr H b (if int (length xs) + 1 \<ge> qlim q then butlast (p # xs) else p # xs)"
  using pri_insert_cases [OF assms] by (auto simp: recvHighPriority_def)

definition pri_recv_step :: "headers \<Rightarrow> real \<Rightarrow> nat \<Rightarrow> 'a priqueue_scheme \<Rightarrow> 'a priqueue_scheme" where
  "pri_recv_step H now p q = (case pri_recv H now p q of Some (Inr q') \<Rightarrow> q' | _ \<Rightarrow> q)"

lemma pri_recv_returns:
  assumes "pq_repr H (pq q) xs" "p \<notin> set xs"
  shows "pri_recv H now p q = Some (Inr (pri_recv_step H now p q))"
proof (cases "prefer_routing q \<and> routing_ptype (ch_ptype (cmn (H p)))")
  case True
  then have e: "pri_recv H now p q = recvHighPriority H now p q" by (simp add: pri_recv_def)
  obtain q' where "recvHighPriority H now p q = Some (Inr q')"
    using high_priority_returns [OF assms, of now] by blast
  then show ?thesis using e by (simp add: pri_recv_step_def)
next
  case False
  then have "pri_recv H now p q = Some (Inr (droptail_recv H now p q))" by (auto simp: pri_recv_def)
  then show ?thesis by (simp add: pri_recv_step_def)
qed

lemma pri_recv_step_frame: "unblock_on_resume (pri_recv_step H now p q) = unblock_on_resume q"
proof (cases "prefer_routing q \<and> routing_ptype (ch_ptype (cmn (H p)))")
  case True
  then have e: "pri_recv H now p q = recvHighPriority H now p q" by (simp add: pri_recv_def)
  show ?thesis
  proof (cases "\<exists>q1. pri_insert H p q = Some (Inr q1)")
    case True
    then obtain q1 where q1: "pri_insert H p q = Some (Inr q1)" by blast
    have "unblock_on_resume q1 = unblock_on_resume q"
      using q1 by (auto simp: pri_insert_def Let_def split: if_splits option.splits sum.splits)
    then show ?thesis using e q1 by (simp add: pri_recv_step_def recvHighPriority_def pri_serve_frame)
  next
    case False
    then show ?thesis using e by (auto simp: pri_recv_step_def recvHighPriority_def split: option.splits sum.splits)
  qed
next
  case False
  then have "pri_recv_step H now p q = droptail_recv H now p q" by (auto simp: pri_recv_step_def pri_recv_def)
  then show ?thesis by (simp add: droptail_recv_def dt.recv_frame)
qed

lemma pri_recv_idle:
  assumes r: "pq_repr H (pq q) []" and b: "blocked q = 0"
  shows "pq_repr H (pq (pri_recv_step H now p q)) [] \<and>
      (q_acts (pri_recv_step H now p q) = q_acts q @ [Forward p] \<and> blocked (pri_recv_step H now p q) = 1 \<or>
       q_acts (pri_recv_step H now p q) = q_acts q @ [DropPkt p] \<and> blocked (pri_recv_step H now p q) = 0)"
proof (cases "prefer_routing q \<and> routing_ptype (ch_ptype (cmn (H p)))")
  case True
  have p: "p \<notin> set []" by simp
  obtain c where c: "recvHighPriority H now p q = Some (Inr (pri_serve H now
      (if int (length ([] :: nat list)) + 1 \<ge> qlim q
       then q\<lparr>pq := c, q_acts := q_acts q @ [DropPkt (last [p])]\<rparr> else q\<lparr>pq := c\<rparr>)))"
    and cr0: "pq_repr H c (if int (length ([] :: nat list)) + 1 \<ge> qlim q then butlast [p] else [p])"
    by (rule high_priority_returns [OF r p, where now = now])
  have cr: "pq_repr H c (if 1 \<ge> qlim q then [] else [p])" using cr0 by (simp split: if_splits)
  have e: "pri_recv_step H now p q = pri_serve H now
      (if 1 \<ge> qlim q then q\<lparr>pq := c, q_acts := q_acts q @ [DropPkt p]\<rparr> else q\<lparr>pq := c\<rparr>)"
    using True c by (simp add: pri_recv_step_def pri_recv_def)
  show ?thesis
  proof (cases "1 \<ge> qlim q")
    case True
    define q1 where "q1 = q\<lparr>pq := c, q_acts := q_acts q @ [DropPkt p]\<rparr>"
    have "pq_repr H (pq q1) []" using cr True by (simp add: q1_def)
    then show ?thesis using pri_serve_empty [of H q1 now] e True b by (simp add: q1_def)
  next
    case False
    define q1 where "q1 = q\<lparr>pq := c\<rparr>"
    have "pq_repr H (pq q1) [p]" using cr False by (simp add: q1_def)
    then show ?thesis using pri_serve_single [of H q1 p now] e False b by (simp add: q1_def)
  qed
next
  case False
  then have "pri_recv_step H now p q = droptail_recv H now p q" by (auto simp: pri_recv_step_def pri_recv_def)
  then show ?thesis using dt.recv_idle [OF r b, of now p] by (simp add: droptail_recv_def)
qed

lemma pri_recv_blocked:
  assumes r: "pq_repr H (pq q) xs" and p: "p \<notin> set xs" and b: "blocked q = 1"
  shows "\<exists>ys ds. pq_repr H (pq (pri_recv_step H now p q)) ys \<and> blocked (pri_recv_step H now p q) = 1 \<and>
     q_acts (pri_recv_step H now p q) = q_acts q @ List.map DropPkt ds \<and>
     mset (p # xs) = mset ys + mset ds"
proof (cases "prefer_routing q \<and> routing_ptype (ch_ptype (cmn (H p)))")
  case True
  define full where "full \<longleftrightarrow> int (length xs) + 1 \<ge> qlim q"
  obtain c where c: "recvHighPriority H now p q = Some (Inr (pri_serve H now
      (if full then q\<lparr>pq := c, q_acts := q_acts q @ [DropPkt (last (p # xs))]\<rparr> else q\<lparr>pq := c\<rparr>)))"
    and cr: "pq_repr H c (if full then butlast (p # xs) else p # xs)"
    using high_priority_returns [OF r p, of now] unfolding full_def [symmetric] by blast
  have e: "pri_recv_step H now p q =
      (if full then q\<lparr>pq := c, q_acts := q_acts q @ [DropPkt (last (p # xs))]\<rparr> else q\<lparr>pq := c\<rparr>)"
    using True c b by (simp add: pri_recv_step_def pri_recv_def pri_serve_blocked)
  have "mset (p # xs) = mset (butlast (p # xs)) + mset [last (p # xs)]"
    by (metis append_butlast_last_id list.distinct(1) mset_append)
  then show ?thesis using e cr b
    by (cases full)
      (rule exI [of _ "butlast (p # xs)"], rule exI [of _ "[last (p # xs)]"], simp del: mset.simps,
       rule exI [of _ "p # xs"], rule exI [of _ "[]"], simp)
next
  case False
  then have "pri_recv_step H now p q = droptail_recv H now p q" by (auto simp: pri_recv_step_def pri_recv_def)
  then show ?thesis using dt.recv_blocked [OF r p b, of now] by (simp add: droptail_recv_def)
qed

interpretation pri: link_server H "pri_recv_step H" "droptail_resume H" for H
  unfolding droptail_resume_def
  by unfold_locales
    (rule pri_recv_blocked pri_recv_idle pri_recv_step_frame
      dt.resume_empty dt.resume_cons dt.resume_frame; assumption)+

section \<open>Taking packets out of the middle\<close>

lemma pri_filter_loop_list:
  assumes "pq_repr H (pq q) (ys @ xs)"
  shows "\<exists>b. pri_filter_loop H f (int (length ys)) q = Some (Inr (q\<lparr>pq := b\<rparr>)) \<and>
     pq_repr H b (ys @ filter (\<lambda>p. \<not> f p) xs)"
  using assms
proof (induction xs arbitrary: ys q)
  case Nil
  then have "\<not> int (length ys) < q_len (pq q)" using pq_repr_len [OF Nil.prems] by simp
  then show ?case using Nil by (intro exI [of _ "pq q"]) (simp add: pri_filter_loop.simps)
next
  case (Cons x xs)
  have l: "int (length ys) < q_len (pq q)" using pq_repr_len [OF Cons.prems] by simp
  have lk: "pq_lookup (int (length ys)) (pq q) = Some x" using pq_lookup_repr [OF Cons.prems] by simp
  show ?case
  proof (cases "f x")
    case True
    have rm: "remove1 x (ys @ x # xs) = ys @ xs"
      using pq_repr_distinct [OF Cons.prems] by (simp add: remove1_append)
    obtain b where b: "pq_remove H x (pq q) = Some (Inr b)" "pq_repr H b (ys @ xs)"
      using pq_remove_repr [OF Cons.prems, of x] rm by auto
    have "pri_filter_loop H f (int (length ys)) q = pri_filter_loop H f (int (length ys)) (q\<lparr>pq := b\<rparr>)"
      by (subst pri_filter_loop.simps) (simp add: l lk True b)
    then show ?thesis using Cons.IH [of "q\<lparr>pq := b\<rparr>" ys] b True by auto
  next
    case False
    have "pri_filter_loop H f (int (length ys)) q = pri_filter_loop H f (int (length (ys @ [x]))) q"
      by (subst pri_filter_loop.simps) (simp add: l lk False add.commute)
    then show ?thesis using Cons.IH [of q "ys @ [x]"] Cons.prems False by auto
  qed
qed

lemma next_hop_search_seg:
  assumes "seg nx p xs None"
  shows "next_hop_search H nx dst pp p =
    Some (head_opt (dropWhile (\<lambda>x. ch_next_hop (cmn (H x)) \<noteq> dst) xs),
          if takeWhile (\<lambda>x. ch_next_hop (cmn (H x)) \<noteq> dst) xs = [] then pp
          else last_opt (takeWhile (\<lambda>x. ch_next_hop (cmn (H x)) \<noteq> dst) xs))"
  using assms
proof (induction xs arbitrary: p pp)
  case Nil
  then show ?case by (simp add: next_hop_search.simps)
next
  case (Cons x xs)
  then show ?case by (simp add: next_hop_search.simps [of _ _ _ _ "Some x"] last_opt_def)
qed

lemma pri_filter_id_found:
  assumes r: "pq_repr H (pq q) (ys @ p # zs)"
    and y: "\<forall>x \<in> set ys. ch_next_hop (cmn (H x)) \<noteq> dst" and p: "ch_next_hop (cmn (H p)) = dst"
  shows "\<exists>b. pri_filter_id H dst q = Some (Inr (Some p, q\<lparr>pq := b\<rparr>)) \<and> pq_repr H b (ys @ zs)"
proof -
  have t: "takeWhile (\<lambda>x. ch_next_hop (cmn (H x)) \<noteq> dst) (ys @ p # zs) = ys"
    "dropWhile (\<lambda>x. ch_next_hop (cmn (H x)) \<noteq> dst) (ys @ p # zs) = p # zs"
    using y p by (simp_all add: takeWhile_append2 dropWhile_append2)
  have s: "next_hop_search H (q_next (pq q)) dst None (q_head (pq q)) = Some (Some p, last_opt ys)"
    using next_hop_search_seg [of "q_next (pq q)" "q_head (pq q)" "ys @ p # zs" H dst None] r t
    by (simp add: pq_repr_def last_opt_def)
  show ?thesis
  proof (cases ys rule: rev_cases)
    case Nil
    then have "remove1 p (ys @ p # zs) = ys @ zs" by simp
    then obtain b where "pq_remove H p (pq q) = Some (Inr b)" "pq_repr H b (ys @ zs)"
      using pq_remove_repr [OF r, of p] by auto
    then show ?thesis using s Nil by (intro exI [of _ b]) (simp add: pri_filter_id_def)
  next
    case (snoc vs v)
    obtain b where "pq_remove2 H (Some p) (last_opt ys) (pq q) = Inr b" "pq_repr H b (ys @ zs)"
      using pq_remove2_repr [OF r refl] by blast
    then show ?thesis using s snoc by (intro exI [of _ b]) (simp add: pri_filter_id_def)
  qed
qed

lemma pri_filter_id_none:
  assumes r: "pq_repr H (pq q) xs" and y: "\<forall>x \<in> set xs. ch_next_hop (cmn (H x)) \<noteq> dst"
  shows "pri_filter_id H dst q = Some (Inr (None, q))"
proof -
  have d: "head_opt (dropWhile (\<lambda>x. ch_next_hop (cmn (H x)) \<noteq> dst) xs) = None"
    using y by (simp add: head_opt_def dropWhile_eq_Nil_conv [THEN iffD2])
  have "seg (q_next (pq q)) (q_head (pq q)) xs None" using r by (simp add: pq_repr_def)
  from next_hop_search_seg [OF this, of H dst None, unfolded d] show ?thesis
    by (simp add: pri_filter_id_def)
qed

end
