(* ===== verification/InterfaceQueue.thy ===== *)
theory InterfaceQueue
  imports DropTailQueue
begin

text \<open>
  The properties of the interface queue: the pointer operations implement a list, the
  link below never holds more than one packet of a queue, no packet is lost or
  duplicated, the bound holds, every loop over the queue ends, and the utilization the
  queue reports is a proportion.
\<close>

section \<open>The pointer structure implements a list\<close>

text \<open>
  C19: On a packet queue that stands for the list xs, and a packet p that is not queued,
  enque appends p and returns the old tail, enqueHead prepends it, deque takes the head
  (or returns null on the empty queue), lookup(n) is the n-th packet, and resetIterator
  followed by getNext visits every packet once, in order, and then returns null; the
  packet count and the byte count are those of the list.
\<close>

theorem packet_queue_refines_list:
  assumes "pq_repr H q xs" "p \<notin> set xs"
  shows "fst (pq_enque H p q) = last_opt xs \<and> pq_repr H (snd (pq_enque H p q)) (xs @ [p]) \<and>
     pq_repr H (pq_enqueHead H p q) (p # xs) \<and>
     (case xs of [] \<Rightarrow> pq_deque H q = (None, q)
      | y # ys \<Rightarrow> fst (pq_deque H q) = Some y \<and> pq_repr H (snd (pq_deque H q)) ys) \<and>
     (\<forall>n. pq_lookup (int n) q = (if n < length xs then Some (xs ! n) else None)) \<and>
     pq_iterate (Suc (length xs)) (pq_resetIterator q) = List.map Some xs @ [None] \<and>
     q_len q = int (length xs) \<and> q_bytes q = sum_list (List.map (pkt_size H) xs)"
proof -
  have "case xs of [] \<Rightarrow> pq_deque H q = (None, q)
      | y # ys \<Rightarrow> fst (pq_deque H q) = Some y \<and> pq_repr H (snd (pq_deque H q)) ys"
    using assms(1) pq_deque_empty pq_deque_repr by (cases xs) auto
  then show ?thesis
    using pq_enque_repr [OF assms] pq_enqueHead_repr [OF assms] pq_lookup_repr [OF assms(1)]
      pq_iterate_repr [OF assms(1)] pq_repr_len [OF assms(1)] pq_repr_bytes [OF assms(1)] by simp
qed

definition demo_headers :: headers where
  "demo_headers p = packet_init\<lparr>cmn := (cmn packet_init)\<lparr>ch_size := 100, ch_next_hop := int p,
     ch_ptype := (if p = 9 then PT_AODV else PT_RFIDPACKET)\<rparr>\<rparr>"

definition demo_pq :: pktq where
  "demo_pq = snd (pq_enque demo_headers 5 (snd (pq_enque demo_headers 4 pq_new)))"

lemmas demo_pq_defs = demo_pq_def pq_enque_def pq_new_def demo_headers_def packet_init_def Let_def

lemma demo_pq_repr: "pq_repr demo_headers demo_pq [4, 5]"
  by (simp add: demo_pq_defs pq_repr_def last_opt_def)

lemma packet_queue_refines_list_witness:
  "pq_repr demo_headers demo_pq [4, 5] \<and> fst (pq_enque demo_headers 7 demo_pq) = Some 5 \<and>
   pq_repr demo_headers (snd (pq_enque demo_headers 7 demo_pq)) [4, 5, 7] \<and>
   fst (pq_deque demo_headers demo_pq) = Some 4"
  using packet_queue_refines_list [OF demo_pq_repr, of 7] demo_pq_repr by (simp add: last_opt_def)

text \<open>
  PacketQueue::remove ends on every well-formed queue: a queued packet is unlinked,
  the order of the others and both counts kept right, and a packet that is not queued makes
  it abort.  remove(pkt, prev) with the predecessor of pkt unlinks it in the same way.
\<close>

theorem packet_queue_remove:
  assumes "pq_repr H q (ys @ t # zs)" "u \<notin> set (ys @ t # zs)"
  shows "(\<exists>q'. pq_remove H t q = Some (Inr q') \<and> pq_repr H q' (ys @ zs)) \<and>
     pq_remove H u q = Some (Inl RemoveNotFound) \<and>
     (\<exists>q'. pq_remove2 H (Some t) (last_opt ys) q = Inr q' \<and> pq_repr H q' (ys @ zs))"
proof -
  have "remove1 t (ys @ t # zs) = ys @ zs"
    using pq_repr_distinct [OF assms(1)] by (simp add: remove1_append)
  then show ?thesis
    using pq_remove_repr [OF assms(1), of t] pq_remove_absent [OF assms] pq_remove2_repr [OF assms(1) refl]
    by simp
qed

lemma packet_queue_remove_witness:
  "(\<exists>q'. pq_remove demo_headers 5 demo_pq = Some (Inr q') \<and> pq_repr demo_headers q' [4]) \<and>
   pq_remove demo_headers 8 demo_pq = Some (Inl RemoveNotFound)"
proof -
  have "pq_repr demo_headers demo_pq ([4] @ 5 # [])" using demo_pq_repr by simp
  from packet_queue_remove [OF this, of 8] show ?thesis by simp
qed

section \<open>Service of the link\<close>

definition demo_queue :: priqueue where
  "demo_queue = queue.extend (queue_new 3 1 0 True 1 0 0 0)
     \<lparr>drop_front = False, summarystats = False, qib = False, mean_pktsize = 500, prefer_routing = True\<rparr>"

lemma demo_queue_idle: "idle_queue demo_headers demo_queue" "within_limit demo_queue"
  by (simp_all add: demo_queue_def queue_new_def queue.defs idle_queue_def within_limit_def pq_new_def)

text \<open>
  Take any interleaving of packets arriving at an idle DropTail queue and of the link
  below finishing a packet it holds.  At every moment the link holds at most one packet,
  exactly when the queue is blocked, and then it is the last packet forwarded; a queue
  that is not blocked is empty; every packet that arrived was forwarded, dropped or is
  queued, once; and packets are forwarded in the order they arrived.
\<close>

theorem droptail_link_service:
  assumes "idle_queue H q" "distinct (arrivals es)"
    and "link_run (droptail_recv H) (droptail_resume H) es q = (q', held)"
  shows "\<exists>xs. pq_repr H (pq q') xs \<and>
     (held = [] \<and> blocked q' = 0 \<and> xs = [] \<or>
      (\<exists>p. held = [p] \<and> blocked q' = 1 \<and> last_opt (forwarded (q_acts q')) = Some p)) \<and>
     mset (arrivals es) = mset (forwarded (q_acts q')) + mset (dropped (q_acts q')) + mset xs \<and>
     subseq (forwarded (q_acts q') @ xs) (arrivals es)"
  using dt.run_fifo [OF assms(1,2)] assms(3)
  by (auto simp: link_inv_def droptail_recv_def droptail_resume_def)

definition demo_events :: "link_event list" where
  "demo_events = [Arrive 1 4, Arrive 2 5, LinkDone 3]"

lemma demo_arrivals: "arrivals demo_events = [4, 5]"
  by (simp add: demo_events_def arrivals_def)

lemma droptail_link_service_witness:
  "\<exists>q' held xs. link_run (droptail_recv demo_headers) (droptail_resume demo_headers) demo_events demo_queue = (q', held) \<and>
     length held \<le> 1 \<and> {#4, 5#} = mset (forwarded (q_acts q')) + mset (dropped (q_acts q')) + mset xs"
proof -
  obtain q' held where r: "link_run (droptail_recv demo_headers) (droptail_resume demo_headers) demo_events demo_queue
    = (q', held)" by force
  have d: "distinct (arrivals demo_events)" by (simp add: demo_arrivals)
  from droptail_link_service [OF demo_queue_idle(1) d r] show ?thesis using r by (auto simp: demo_arrivals)
qed

text \<open>
  In any such run, a DropTail queue that counts packets never holds limit_ or more of
  them: at most limit_ - 1 packets are queued, whether it drops from the front or the tail.
\<close>

theorem droptail_bound:
  assumes "idle_queue H q" "distinct (arrivals es)" "\<not> qib q" "1 \<le> qlim q"
  shows "q_len (pq (fst (link_run (droptail_recv H) (droptail_resume H) es q))) \<le> qlim q - 1"
proof -
  have "within_limit q" using assms(1,4) by (simp add: within_limit_def idle_queue_def)
  from droptail_run_within [OF assms(1,2) this] show ?thesis
    using assms droptail_run_frame [of H es q] by (simp add: within_limit_def)
qed

lemma droptail_bound_witness:
  "q_len (pq (fst (link_run (droptail_recv demo_headers) (droptail_resume demo_headers) demo_events demo_queue))) \<le> 2"
proof -
  have "distinct (arrivals demo_events)" "\<not> qib demo_queue" "qlim demo_queue = 3"
    by (simp_all add: demo_arrivals demo_queue_def queue_new_def queue.defs)
  then show ?thesis using droptail_bound [OF demo_queue_idle(1), of demo_events] by simp
qed

text \<open>
  C10: Take any interleaving of arrivals and completions at an idle PriQueue.  Every recv
  returns (removing the packet it drops never aborts), for a routing packet put at the head
  as for any other; the link holds at most one packet, exactly when the queue is blocked,
  and every packet that arrived was forwarded, dropped or is queued, once.
\<close>

theorem priqueue_link_service:
  assumes "idle_queue H q" "distinct (arrivals (es @ [Arrive t p]))"
    and "link_run (pri_recv_step H) (droptail_resume H) es q = (q', held)"
  shows "pri_recv H t p q' = Some (Inr (pri_recv_step H t p q')) \<and>
     (\<exists>xs. pq_repr H (pq q') xs \<and>
       (held = [] \<and> blocked q' = 0 \<and> xs = [] \<or>
        (\<exists>r. held = [r] \<and> blocked q' = 1 \<and> last_opt (forwarded (q_acts q')) = Some r)) \<and>
       mset (arrivals es) = mset (forwarded (q_acts q')) + mset (dropped (q_acts q')) + mset xs)"
proof -
  have d: "distinct (arrivals es)" "p \<notin> set (arrivals es)" using assms(2) by simp_all
  obtain xs where inv: "link_inv H (arrivals es) (q', held) xs"
    using pri.run_inv [OF assms(1) d(1)] assms(3) by auto
  have "p \<notin> set xs" using inv d(2)
    by (auto simp: link_inv_def) (metis UnI2 set_mset_mset set_mset_union)+
  then have "pri_recv H t p q' = Some (Inr (pri_recv_step H t p q'))"
    using pri_recv_returns [of H q' xs p t] inv by (simp add: link_inv_def)
  then show ?thesis using inv by (auto simp: link_inv_def)
qed

lemma priqueue_link_service_witness:
  "\<exists>q' held. link_run (pri_recv_step demo_headers) (droptail_resume demo_headers) demo_events demo_queue = (q', held) \<and>
     pri_recv demo_headers 4 9 q' = Some (Inr (pri_recv_step demo_headers 4 9 q'))"
proof -
  obtain q' held where r: "link_run (pri_recv_step demo_headers) (droptail_resume demo_headers) demo_events demo_queue
    = (q', held)" by force
  have d: "distinct (arrivals (demo_events @ [Arrive 4 9]))" by (simp add: demo_arrivals)
  from priqueue_link_service [OF demo_queue_idle(1) d r] show ?thesis using r by blast
qed

section \<open>Loops over the queue\<close>

text \<open>
  Shrink_queue ends for every well-formed queue and non-negative limits: it stops as
  soon as the queue is within its limit, having dropped packets one by one from the front
  or from the tail, and keeps the rest in order.
\<close>

theorem shrink_queue_terminates:
  assumes "pq_repr H (pq q) xs" "0 \<le> qlim q" "0 \<le> mean_pktsize q"
  shows "\<exists>q' ys zs. shrink_queue H q = Some (Inr q') \<and> pq_repr H (pq q') ys \<and> \<not> shrink_over q' \<and>
     q_acts q' = q_acts q @ List.map DropPkt zs \<and>
     xs = (if drop_front q then zs @ ys else ys @ rev zs)"
proof (cases "drop_front q")
  case True
  then show ?thesis using shrink_front [OF assms(1) True assms(2,3)] by auto
next
  case False
  then show ?thesis using shrink_back [OF assms(1) False assms(2,3)] by auto
qed

lemma shrink_queue_terminates_witness:
  "\<exists>q' ys zs. shrink_queue demo_headers (demo_queue\<lparr>pq := demo_pq, qlim := 1\<rparr>) = Some (Inr q') \<and>
     pq_repr demo_headers (pq q') ys \<and> \<not> shrink_over q' \<and> [4, 5] = ys @ rev zs"
proof -
  define q where "q = demo_queue\<lparr>pq := demo_pq, qlim := 1\<rparr>"
  have "pq_repr demo_headers (pq q) [4, 5]" "0 \<le> qlim q" "0 \<le> mean_pktsize q" "\<not> drop_front q"
    using demo_pq_repr by (simp_all add: q_def demo_queue_def queue_new_def queue.defs)
  from shrink_queue_terminates [OF this(1-3)] this(4) show ?thesis unfolding q_def [symmetric] by auto
qed

text \<open>
  PriQueue::filter with a predicate ends, removes exactly the packets it accepts and
  keeps the others in order; filter with an address takes out the first packet with that
  next hop, and nothing when there is none.
\<close>

theorem priqueue_filter:
  assumes "pq_repr H (pq q) xs"
  shows "(\<exists>b. pri_filter_fn H f q = Some (Inr (q\<lparr>pq := b\<rparr>)) \<and> pq_repr H b (filter (\<lambda>p. \<not> f p) xs)) \<and>
     (case List.find (\<lambda>p. ch_next_hop (cmn (H p)) = dst) xs of
        None \<Rightarrow> pri_filter_id H dst q = Some (Inr (None, q))
      | Some p \<Rightarrow> \<exists>b. pri_filter_id H dst q = Some (Inr (Some p, q\<lparr>pq := b\<rparr>)) \<and>
                      pq_repr H b (remove1 p xs))"
proof (rule conjI)
  show "\<exists>b. pri_filter_fn H f q = Some (Inr (q\<lparr>pq := b\<rparr>)) \<and> pq_repr H b (filter (\<lambda>p. \<not> f p) xs)"
    using pri_filter_loop_list [of H q "[]" xs f] assms by (simp add: pri_filter_fn_def)
  show "case List.find (\<lambda>p. ch_next_hop (cmn (H p)) = dst) xs of
        None \<Rightarrow> pri_filter_id H dst q = Some (Inr (None, q))
      | Some p \<Rightarrow> \<exists>b. pri_filter_id H dst q = Some (Inr (Some p, q\<lparr>pq := b\<rparr>)) \<and>
                      pq_repr H b (remove1 p xs)"
  proof (cases "List.find (\<lambda>p. ch_next_hop (cmn (H p)) = dst) xs")
    case None
    then have "\<forall>x \<in> set xs. ch_next_hop (cmn (H x)) \<noteq> dst" by (auto simp: find_None_iff)
    from pri_filter_id_none [OF assms this] show ?thesis using None by simp
  next
    case (Some p)
    then obtain i where i: "i < length xs" "ch_next_hop (cmn (H (xs ! i))) = dst" "p = xs ! i"
      and b: "\<forall>j<i. ch_next_hop (cmn (H (xs ! j))) \<noteq> dst" by (auto simp: find_Some_iff)
    have xs: "xs = take i xs @ p # drop (Suc i) xs" using i by (simp add: id_take_nth_drop)
    have pre: "\<forall>x \<in> set (take i xs). ch_next_hop (cmn (H x)) \<noteq> dst"
      using b i(1) by (simp add: all_set_conv_all_nth)
    have "p \<notin> set (take i xs)" using pre i by auto
    then have "remove1 p xs = take i xs @ drop (Suc i) xs" by (subst xs) (simp add: remove1_append)
    moreover have "pq_repr H (pq q) (take i xs @ p # drop (Suc i) xs)" using assms xs by simp
    ultimately show ?thesis using pri_filter_id_found [of H q "take i xs" p "drop (Suc i) xs" dst] pre i Some by simp
  qed
qed

lemma priqueue_filter_witness:
  "\<exists>b. pri_filter_id demo_headers 5 (demo_queue\<lparr>pq := demo_pq\<rparr>) =
      Some (Inr (Some 5, demo_queue\<lparr>pq := b\<rparr>)) \<and> pq_repr demo_headers b [4]"
proof -
  have "pq_repr demo_headers (pq (demo_queue\<lparr>pq := demo_pq\<rparr>)) [4, 5]" using demo_pq_repr by simp
  from priqueue_filter [OF this, of _ 5] show ?thesis by (simp add: demo_headers_def packet_init_def)
qed

text \<open>
  The loops that empty a queue end: PriQueue::Terminate drops every queued packet, in
  order, with the end-of-simulation reason, and Queue::reset drops them all and clears the
  average; both leave the queue empty.
\<close>

theorem queue_flush_ends:
  assumes "pq_repr H (pq q) xs"
  shows "(\<exists>q'. pri_terminate H now q = Some q' \<and> pq_repr H (pq q') [] \<and>
       q_acts q' = q_acts q @ List.map DropEnd xs) \<and>
     (\<exists>q'. droptail_reset H now q = Some q' \<and> pq_repr H (pq q') [] \<and>
       q_acts q' = q_acts q @ List.map DropPkt xs)"
  using dt.flush_drops [OF assms, of DropEnd now]
    dt.flush_drops [of H "q\<lparr>total_time := 0, true_ave := 0\<rparr>" xs DropPkt now] assms
  by (simp add: pri_terminate_def droptail_reset_def queue_reset_def)

lemma queue_flush_ends_witness:
  "\<exists>q'. pri_terminate demo_headers 1 (demo_queue\<lparr>pq := demo_pq\<rparr>) = Some q' \<and>
     pq_repr demo_headers (pq q') [] \<and> q_acts q' = [DropEnd 4, DropEnd 5]"
proof -
  have r: "pq_repr demo_headers (pq (demo_queue\<lparr>pq := demo_pq\<rparr>)) [4, 5]" using demo_pq_repr by simp
  have a: "q_acts (demo_queue\<lparr>pq := demo_pq\<rparr>) = []" by (simp add: demo_queue_def queue_new_def queue.defs)
  from queue_flush_ends [OF r, of 1] a show ?thesis by simp
qed

section \<open>Utilization\<close>

lemma util_ok_frame:
  "util_ok (droptail_enque H now p q) = util_ok q" "last_change (droptail_enque H now p q) = last_change q"
  "util_ok (snd (droptail_deque H now q)) = util_ok q" "last_change (snd (droptail_deque H now q)) = last_change q"
  by (auto simp: droptail_enque_def droptail_deque_def droptail_stats_def updateStats_def Let_def util_ok_def
      split: option.splits prod.splits)

lemma util_ok_blocked [simp]:
  "util_ok (q\<lparr>last_change := t, blocked := b\<rparr>) = util_ok (q\<lparr>last_change := t\<rparr>)"
  "util_ok (q\<lparr>last_change := t, blocked := b, q_acts := a\<rparr>) = util_ok (q\<lparr>last_change := t\<rparr>)"
  "util_ok (q\<lparr>q_acts := a\<rparr>) = util_ok q"
  by (simp_all add: util_ok_def)

lemma droptail_recv_util:
  assumes "util_ok q" "blocked q = 0 \<or> blocked q = 1" "last_change q \<le> now"
  shows "util_ok (droptail_recv H now p q)"
proof -
  define q1 where "q1 = droptail_enque H now p q"
  define q2 where "q2 = snd (droptail_deque H now q1)"
  have b2: "blocked q2 = blocked q" by (simp add: q2_def q1_def dt.deq_frame droptail_enque_frame)
  have ok1: "util_ok q1" using assms(1) by (simp add: q1_def util_ok_frame)
  have ok2: "util_ok q2" "last_change q2 \<le> now"
    using ok1 assms(3) by (simp_all add: q2_def q1_def util_ok_frame)
  have "util_ok ((utilUpdate (last_change q2) now (blocked q2) q2)\<lparr>last_change := now\<rparr>)"
    using utilUpdate_ok [OF ok2(1) _ _ ok2(2), of "blocked q2"] assms(2) b2 by auto
  then show ?thesis using ok1 ok2
    by (auto simp: droptail_recv_def queue_recv_def Let_def q1_def [symmetric] q2_def split: prod.splits option.splits)
qed

lemma droptail_resume_util:
  assumes "util_ok q" "blocked q = 0 \<or> blocked q = 1" "last_change q \<le> now"
  shows "util_ok (droptail_resume H now q)"
proof -
  define q2 where "q2 = snd (droptail_deque H now q)"
  have b2: "blocked q2 = blocked q" by (simp add: q2_def dt.deq_frame)
  have ok2: "util_ok q2" "last_change q2 \<le> now" using assms by (simp_all add: q2_def util_ok_frame)
  have "util_ok ((utilUpdate (last_change q2) now (blocked q2) q2)\<lparr>last_change := now\<rparr>)"
    using utilUpdate_ok [OF ok2(1) _ _ ok2(2), of "blocked q2"] assms(2) b2 by auto
  then show ?thesis using ok2
    by (auto simp: droptail_resume_def queue_resume_def Let_def q2_def split: prod.splits option.splits)
qed

text \<open>
  The utilization statistics stay proportions: from a queue whose statistics are
  well-formed, recv, resume and both measurements keep the mean, the current and every
  recorded utilization within [0, 1] and the record slot inside its buffer, and
  peak_utilization is at least every recorded measurement.
\<close>

theorem utilization_proportion:
  assumes "util_ok q" "blocked q = 0 \<or> blocked q = 1" "last_change q \<le> now"
  shows "util_ok (droptail_recv H now p q) \<and> util_ok (droptail_resume H now q) \<and>
     util_ok (snd (utilization now q)) \<and> 0 \<le> fst (utilization now q) \<and> fst (utilization now q) \<le> 1 \<and>
     util_ok (snd (peak_utilization now q)) \<and> 0 \<le> fst (peak_utilization now q) \<and>
     fst (peak_utilization now q) \<le> 1 \<and>
     (util_records q \<noteq> 0 \<longrightarrow>
       (\<forall>u \<in> set (util_buf (snd (peak_utilization now q))). u \<le> fst (peak_utilization now q)))"
proof -
  define q1 where "q1 = (utilUpdate (last_change q) now (blocked q) q)\<lparr>last_change := now\<rparr>"
  have ok: "util_ok q1" using utilUpdate_ok [OF assms(1) _ _ assms(3), of "blocked q"] assms(2)
    by (auto simp: q1_def)
  then have u: "\<forall>u \<in> set (util_buf q1). u \<le> 1" "take (nat (util_records q1)) (util_buf q1) = util_buf q1"
    and o1: "0 \<le> old_util q1" "old_util q1 \<le> 1"
    by (auto simp: util_ok_def)
  have ut: "utilization now q = (old_util q1, q1)" by (simp add: utilization_def Let_def q1_def)
  have pk: "peak_utilization now q = (if util_records q = 0 then (old_util q1, q1) else (util_peak (util_buf q1), q1))"
    using u(2) by (simp add: peak_utilization_def Let_def q1_def ut [unfolded q1_def])
  show ?thesis
    using droptail_recv_util [OF assms, of H p] droptail_resume_util [OF assms, of H] ut pk ok o1
      util_peak_max [OF u(1)] by auto
qed

lemma utilization_proportion_witness:
  "0 \<le> fst (utilization 5 demo_queue) \<and> fst (utilization 5 demo_queue) \<le> 1 \<and>
   util_ok (droptail_recv demo_headers 5 4 demo_queue)"
proof -
  have "util_ok demo_queue" "blocked demo_queue = 0" "last_change demo_queue \<le> 5"
    by (simp_all add: demo_queue_def queue_new_def queue.defs util_ok_def)
  then show ?thesis using utilization_proportion [of demo_queue 5 demo_headers 4] by blast
qed

text \<open>
  When PriQueue forwards a routing packet on an idle link, at whatever time, the
  utilization measured later counts the link busy ever since the last change before the
  packet arrived: the idle time up to the packet is booked as busy, because
  recvHighPriority blocks the queue without updating the utilization.
\<close>

theorem high_priority_idle_as_busy:
  assumes "pq_repr H (pq q) []" "blocked q = 0" "util_records q = 0" "1 < qlim q"
  shows "\<exists>q'. recvHighPriority H t p q = Some (Inr q') \<and> blocked q' = 1 \<and>
     fst (utilization now q') = 1 + (old_util q - 1) * exp (- util_weight q * (now - last_change q))"
proof -
  have p: "p \<notin> set []" by simp
  obtain b where b: "recvHighPriority H t p q = Some (Inr (pri_serve H t
      (if int (length ([] :: nat list)) + 1 \<ge> qlim q
       then q\<lparr>pq := b, q_acts := q_acts q @ [DropPkt (last [p])]\<rparr> else q\<lparr>pq := b\<rparr>)))"
    and r: "pq_repr H b (if int (length ([] :: nat list)) + 1 \<ge> qlim q then butlast [p] else [p])"
    by (rule high_priority_returns [OF assms(1) p, where now = t])
  define q1 where "q1 = q\<lparr>pq := b\<rparr>"
  have r1: "pq_repr H (pq q1) [p]" using r assms(4) by (simp add: q1_def)
  have e: "recvHighPriority H t p q = Some (Inr (pri_serve H t q1))" using b assms(4) by (simp add: q1_def)
  have s: "blocked (pri_serve H t q1) = 1" using pri_serve_single(2) [OF r1] assms(2) by (simp add: q1_def)
  have f: "old_util (pri_serve H t q1) = old_util q" "last_change (pri_serve H t q1) = last_change q"
    "util_weight (pri_serve H t q1) = util_weight q" "util_records (pri_serve H t q1) = util_records q"
    by (auto simp: pri_serve_def droptail_deque_def droptail_stats_def updateStats_def Let_def q1_def
        split: option.splits)
  show ?thesis using e s f assms(3) by (simp add: utilization_def utilUpdate_def Let_def)
qed

lemma high_priority_idle_as_busy_witness:
  "\<exists>q'. recvHighPriority demo_headers 100 9 demo_queue = Some (Inr q') \<and>
     fst (utilization 101 q') = 1 - exp (-101)"
proof -
  have "pq_repr demo_headers (pq demo_queue) []" "blocked demo_queue = 0" "util_records demo_queue = 0"
      "1 < qlim demo_queue" "old_util demo_queue = 0" "util_weight demo_queue = 1" "last_change demo_queue = 0"
    using idle_repr [OF demo_queue_idle(1)] by (simp_all add: demo_queue_def queue_new_def queue.defs)
  then show ?thesis using high_priority_idle_as_busy [of demo_headers demo_queue 100 9 101] by auto
qed

end
