(* ===== verification/LinkLayer.thy ===== *)
theory LinkLayer
  imports Packet
begin

text \<open>
  The link layer: \<open>VARPTable\<close> (mac/varp.cc), \<open>ARPTable\<close> (mac/arp.h, mac/arp.cc) and \<open>LL\<close>
  (mac/ll.h, mac/ll.cc).  Packets are addresses into a memory of frames, because the table
  holds packets that wait for an address.  The node address computed by
  \<open>Address::get_nodeaddr\<close> and the next hop of a \<open>LanRouter\<close> are parameters of the
  configuration; what the layer schedules, drops, frees or hands back through a
  transmission-failure callback is recorded as actions.
\<close>

section \<open>Frames\<close>

record hdr_mac =
  mac_macSA :: int
  mac_macDA :: int
  mac_hdr_type :: int
  mac_ftype :: int

record hdr_ll =
  ll_lltype :: int
  ll_seqno :: int

record hdr_arp =
  arp_hrd :: int
  arp_pro :: int
  arp_hln :: int
  arp_pln :: int
  arp_op :: int
  arp_sha :: int
  arp_spa :: int
  arp_tha :: int
  arp_tpa :: int

record frame = packet +
  f_mac :: hdr_mac
  f_ll :: hdr_ll
  f_arp :: hdr_arp
  f_xmit_failure :: bool

abbreviation (input) PT_ARP :: int where "PT_ARP \<equiv> 34"
abbreviation (input) NS_AF_NONE :: int where "NS_AF_NONE \<equiv> 0"
abbreviation (input) NS_AF_ILINK :: int where "NS_AF_ILINK \<equiv> 1"
abbreviation (input) NS_AF_INET :: int where "NS_AF_INET \<equiv> 2"
abbreviation (input) MAC_BROADCAST :: int where "MAC_BROADCAST \<equiv> -1"
abbreviation (input) ETHERTYPE_IP :: int where "ETHERTYPE_IP \<equiv> 0x0800"
abbreviation (input) ETHERTYPE_ARP :: int where "ETHERTYPE_ARP \<equiv> 0x0806"
abbreviation (input) ARPOP_REQUEST :: int where "ARPOP_REQUEST \<equiv> 1"
abbreviation (input) ARPOP_REPLY :: int where "ARPOP_REPLY \<equiv> 2"
abbreviation (input) LL_DATA :: int where "LL_DATA \<equiv> 1"
abbreviation (input) ARP_HDR_LEN :: int where "ARP_HDR_LEN \<equiv> 28"
abbreviation (input) ARP_MAX_REQUEST_COUNT :: int where "ARP_MAX_REQUEST_COUNT \<equiv> 3"
abbreviation (input) EADDRNOTAVAIL :: int where "EADDRNOTAVAIL \<equiv> 99"

text \<open>\<open>Mac::hdr_dst\<close>, \<open>hdr_src\<close> and \<open>hdr_type\<close>: values below -1, and type 0, only read.\<close>

definition mac_set_dst :: "int \<Rightarrow> frame \<Rightarrow> frame" where
  "mac_set_dst d f = (if d > -2 then f\<lparr>f_mac := (f_mac f)\<lparr>mac_macDA := d\<rparr>\<rparr> else f)"

definition mac_set_src :: "int \<Rightarrow> frame \<Rightarrow> frame" where
  "mac_set_src a f = (if a > -2 then f\<lparr>f_mac := (f_mac f)\<lparr>mac_macSA := a\<rparr>\<rparr> else f)"

definition mac_set_type :: "int \<Rightarrow> frame \<Rightarrow> frame" where
  "mac_set_type t f = (if t \<noteq> 0 then f\<lparr>f_mac := (f_mac f)\<lparr>mac_hdr_type := t\<rparr>\<rparr> else f)"

definition set_cmn :: "(hdr_cmn \<Rightarrow> hdr_cmn) \<Rightarrow> frame \<Rightarrow> frame" where
  "set_cmn g f = f\<lparr>cmn := g (cmn f)\<rparr>"

section \<open>The virtual ARP table\<close>

record varp =
  va_maddr :: "int list"
  va_size :: int

datatype link_error = VarpOutOfBounds | ArpFatal | NotInitialized | NullTable

text \<open>Doubling from a positive size; it is 10 when the table is created.\<close>

function varp_double :: "int \<Rightarrow> int \<Rightarrow> int" where
  "varp_double n s = (if n < s \<or> s \<le> 0 then s else varp_double n (2 * s))"
  by auto
termination
  by (relation "measure (\<lambda>(n, s). nat (n + 1 - s))") auto

declare varp_double.simps [simp del]

definition varp_sizeinit :: "int \<Rightarrow> varp \<Rightarrow> varp" where
  "varp_sizeinit n v =
     (let s = varp_double n (if va_size v = 0 then 10 else va_size v)
      in \<lparr>va_maddr = va_maddr v @ replicate (nat (s - va_size v)) (-1), va_size = s\<rparr>)"

text \<open>The command \<open>mac-addr n m\<close>.\<close>

definition varp_mac_addr :: "int \<Rightarrow> int \<Rightarrow> varp \<Rightarrow> (link_error, varp) result" where
  "varp_mac_addr n m v =
     (if n < 0 then Inl VarpOutOfBounds
      else let v1 = (if n < va_size v then v else varp_sizeinit n v)
           in Inr (v1\<lparr>va_maddr := (va_maddr v1)[nat n := m]\<rparr>))"

text \<open>\<open>arpresolve\<close>: the guard lets an index equal to the size through.\<close>

definition varp_lookup :: "int \<Rightarrow> varp \<Rightarrow> (link_error, int option) result" where
  "varp_lookup n v =
     (if n > va_size v then Inr None
      else if n < 0 \<or> n \<ge> va_size v then Inl VarpOutOfBounds
      else let ma = va_maddr v ! nat n in Inr (if ma \<ge> 0 then Some ma else None))"

definition varp_ok :: "varp \<Rightarrow> bool" where
  "varp_ok v \<longleftrightarrow> 0 \<le> va_size v \<and> int (length (va_maddr v)) = va_size v"

lemma varp_double_ge: "0 < s \<Longrightarrow> n < varp_double n s \<and> s \<le> varp_double n s"
proof (induction n s rule: varp_double.induct)
  case (1 n s)
  then show ?case by (cases "n < s") (auto simp: varp_double.simps [of n s])
qed

lemma varp_sizeinit_ok:
  assumes "varp_ok v" "0 \<le> n"
  shows "varp_ok (varp_sizeinit n v)" "n < va_size (varp_sizeinit n v)" "va_size v \<le> va_size (varp_sizeinit n v)"
    "i < length (va_maddr v) \<Longrightarrow> va_maddr (varp_sizeinit n v) ! i = va_maddr v ! i"
    "length (va_maddr v) \<le> i \<Longrightarrow> i < length (va_maddr (varp_sizeinit n v)) \<Longrightarrow> va_maddr (varp_sizeinit n v) ! i = -1"
proof -
  define s0 where "s0 = (if va_size v = 0 then 10 else va_size v)"
  have s0: "0 < s0" "va_size v \<le> s0" using assms by (auto simp: s0_def varp_ok_def)
  note g = varp_double_ge [OF s0(1), of n]
  show "varp_ok (varp_sizeinit n v)" "n < va_size (varp_sizeinit n v)" "va_size v \<le> va_size (varp_sizeinit n v)"
    using assms g s0 by (auto simp: varp_sizeinit_def Let_def varp_ok_def s0_def [symmetric])
  show "va_maddr (varp_sizeinit n v) ! i = va_maddr v ! i" if "i < length (va_maddr v)"
    using that by (simp add: varp_sizeinit_def Let_def nth_append)
  show "va_maddr (varp_sizeinit n v) ! i = -1" if "length (va_maddr v) \<le> i" "i < length (va_maddr (varp_sizeinit n v))"
    using that by (simp add: varp_sizeinit_def Let_def nth_append)
qed

section \<open>The ARP table\<close>

record arp_entry =
  ae_ipaddr :: int
  ae_up :: bool
  ae_macaddr :: int
  ae_hold :: "nat option"
  ae_count :: int

datatype link_act = SchedDown nat | SchedUp nat | LDrop nat | LDropArp nat | LDropEnd nat | XmitFailure nat | LFree nat

record link =
  l_mem :: "nat \<Rightarrow> frame"
  l_arp :: "arp_entry list"
  l_seqno :: int
  l_next :: nat
  l_acts :: "link_act list"

record link_cfg =
  c_node :: int
  c_mac :: int
  c_macDA :: int
  c_initialized :: bool
  c_arptable :: bool
  c_nodeaddr :: "int \<Rightarrow> int"
  c_lan :: "(frame \<Rightarrow> int) option"
  c_varp :: "varp option"

definition arp_entry_new :: "int \<Rightarrow> arp_entry" where
  "arp_entry_new dst = \<lparr>ae_ipaddr = dst, ae_up = False, ae_macaddr = 0, ae_hold = None, ae_count = 0\<rparr>"

definition arplookup :: "int \<Rightarrow> arp_entry list \<Rightarrow> arp_entry option" where
  "arplookup dst tab = List.find (\<lambda>a. ae_ipaddr a = dst) tab"

text \<open>Writing through the pointer to the entry that \<open>arplookup\<close> finds.\<close>

fun arp_update :: "int \<Rightarrow> (arp_entry \<Rightarrow> arp_entry) \<Rightarrow> arp_entry list \<Rightarrow> arp_entry list" where
  "arp_update dst g [] = []"
| "arp_update dst g (a # tab) = (if ae_ipaddr a = dst then g a # tab else a # arp_update dst g tab)"

text \<open>The entry for an address, created at the head of the list when there is none.\<close>

definition arp_ensure :: "int \<Rightarrow> arp_entry list \<Rightarrow> arp_entry list" where
  "arp_ensure dst tab = (if arplookup dst tab = None then arp_entry_new dst # tab else tab)"

definition l_act :: "link_act \<Rightarrow> link \<Rightarrow> link" where
  "l_act a s = s\<lparr>l_acts := l_acts s @ [a]\<rparr>"

definition l_write :: "nat \<Rightarrow> (frame \<Rightarrow> frame) \<Rightarrow> link \<Rightarrow> link" where
  "l_write p g s = s\<lparr>l_mem := (l_mem s)(p := g (l_mem s p))\<rparr>"

text \<open>Handing a packet back to the sender's callback, or dropping it.\<close>

definition arp_fail :: "nat \<Rightarrow> link \<Rightarrow> link" where
  "arp_fail p s = (if f_xmit_failure (l_mem s p) then l_act (XmitFailure p) s else l_act (LDropArp p) s)"

definition arp_request_frame :: "link_cfg \<Rightarrow> int \<Rightarrow> int \<Rightarrow> frame \<Rightarrow> frame" where
  "arp_request_frame c src dst f =
     (let f1 = set_cmn (\<lambda>h. h\<lparr>ch_ptype := PT_ARP, ch_size := ARP_HDR_LEN, ch_iface := -2, ch_error := 0\<rparr>) f;
          f2 = mac_set_type ETHERTYPE_ARP (mac_set_src (c_mac c) (mac_set_dst MAC_BROADCAST f1));
          f3 = set_cmn (\<lambda>h. h\<lparr>ch_direction := DIR_DOWN\<rparr>) (f2\<lparr>f_ll := \<lparr>ll_lltype = LL_DATA, ll_seqno = 0\<rparr>\<rparr>)
      in f3\<lparr>f_arp := \<lparr>arp_hrd = 1, arp_pro = ETHERTYPE_IP, arp_hln = 6, arp_pln = 4, arp_op = ARPOP_REQUEST,
              arp_sha = c_mac c, arp_spa = src, arp_tha = 0, arp_tpa = dst\<rparr>\<rparr>)"

text \<open>A frame fresh from \<open>Packet::alloc\<close>.\<close>

definition frame_alloc :: frame where
  "frame_alloc = packet.extend packet_alloc_bits
     \<lparr>f_mac = \<lparr>mac_macSA = 0, mac_macDA = 0, mac_hdr_type = 0, mac_ftype = 0\<rparr>, f_ll = \<lparr>ll_lltype = 0, ll_seqno = 0\<rparr>,
      f_arp = \<lparr>arp_hrd = 0, arp_pro = 0, arp_hln = 0, arp_pln = 0, arp_op = 0, arp_sha = 0, arp_spa = 0,
        arp_tha = 0, arp_tpa = 0\<rparr>, f_xmit_failure = False\<rparr>"

definition arprequest :: "link_cfg \<Rightarrow> int \<Rightarrow> int \<Rightarrow> link \<Rightarrow> link" where
  "arprequest c src dst s =
     (let p = l_next s
      in l_act (SchedDown p) (s\<lparr>l_next := Suc p,
           l_mem := (l_mem s)(p := arp_request_frame c src dst frame_alloc)\<rparr>))"

definition arpresolve :: "link_cfg \<Rightarrow> int \<Rightarrow> nat \<Rightarrow> link \<Rightarrow> int \<times> link" where
  "arpresolve c dst p s =
     (case arplookup dst (l_arp s) of
        Some e \<Rightarrow>
          if ae_up e then (0, l_write p (mac_set_dst (ae_macaddr e)) s)
          else if ae_count e \<ge> ARP_MAX_REQUEST_COUNT then
            let s1 = s\<lparr>l_arp := arp_update dst (\<lambda>a. a\<lparr>ae_count := 0, ae_hold := None\<rparr>) (l_arp s)\<rparr>;
                s2 = (case ae_hold e of None \<Rightarrow> s1 | Some t \<Rightarrow> arp_fail t s1)
            in (EADDRNOTAVAIL, arp_fail p s2)
          else
            let s1 = (case ae_hold e of None \<Rightarrow> s | Some t \<Rightarrow> l_act (LDropArp t) s);
                s2 = s1\<lparr>l_arp := arp_update dst (\<lambda>a. a\<lparr>ae_count := ae_count a + 1, ae_hold := Some p\<rparr>) (l_arp s1)\<rparr>
            in (EADDRNOTAVAIL, arprequest c (c_node c) dst s2)
      | None \<Rightarrow>
          let s1 = s\<lparr>l_arp := (arp_entry_new dst)\<lparr>ae_count := 1, ae_hold := Some p\<rparr> # l_arp s\<rparr>
          in (EADDRNOTAVAIL, arprequest c (c_node c) dst s1))"

definition arp_reply_frame :: "link_cfg \<Rightarrow> frame \<Rightarrow> frame" where
  "arp_reply_frame c f =
     (let ah = f_arp f;
          f1 = set_cmn (\<lambda>h. h\<lparr>ch_size := ARP_HDR_LEN, ch_error := 0, ch_direction := DIR_DOWN\<rparr>) f;
          f2 = mac_set_type ETHERTYPE_ARP (mac_set_src (c_mac c) (mac_set_dst (arp_sha ah) f1));
          f3 = f2\<lparr>f_ll := (f_ll f2)\<lparr>ll_seqno := 0, ll_lltype := LL_DATA\<rparr>\<rparr>
      in f3\<lparr>f_arp := ah\<lparr>arp_op := ARPOP_REPLY, arp_tha := arp_sha ah, arp_sha := c_mac c,
              arp_spa := arp_tpa ah, arp_tpa := arp_spa ah\<rparr>\<rparr>)"

text \<open>The test of \<open>arpinput\<close> that a held packet is one for the address that was resolved.\<close>

definition held_for :: "link_cfg \<Rightarrow> int \<Rightarrow> frame \<Rightarrow> bool" where
  "held_for c spa f \<longleftrightarrow>
     (ch_addr_type (cmn f) = NS_AF_NONE \<and> c_nodeaddr c (ip_daddr (ip f)) = spa) \<or>
     (ch_addr_type (cmn f) = NS_AF_INET \<and> ch_next_hop (cmn f) = spa)"

definition arp_release :: "link_cfg \<Rightarrow> int \<Rightarrow> int \<Rightarrow> link \<Rightarrow> (link_error, link) result" where
  "arp_release c spa sha s =
     (case arplookup spa (l_arp s) of
        Some e \<Rightarrow>
          (case ae_hold e of
             None \<Rightarrow> Inr s
           | Some h \<Rightarrow>
               if held_for c spa (l_mem s h) then
                 Inr ((l_act (SchedDown h) (l_write h (mac_set_dst sha) s))
                        \<lparr>l_arp := arp_update spa (\<lambda>a. a\<lparr>ae_hold := None\<rparr>) (l_arp s)\<rparr>)
               else Inl ArpFatal)
      | None \<Rightarrow> Inr s)"

definition arpinput :: "link_cfg \<Rightarrow> nat \<Rightarrow> link \<Rightarrow> (link_error, link) result" where
  "arpinput c p s =
     (let ah = f_arp (l_mem s p);
          tab = arp_update (arp_spa ah) (\<lambda>a. a\<lparr>ae_macaddr := arp_sha ah, ae_up := True\<rparr>)
                  (arp_ensure (arp_spa ah) (l_arp s))
      in bind_res (arp_release c (arp_spa ah) (arp_sha ah) (s\<lparr>l_arp := tab\<rparr>)) (\<lambda>s1.
           if arp_op ah = ARPOP_REQUEST \<and> arp_tpa ah = c_node c
           then Inr (l_act (SchedDown p) (l_write p (arp_reply_frame c) s1))
           else Inr (l_act (LFree p) s1)))"

text \<open>\<open>Terminate\<close>: every held packet is dropped.\<close>

fun arp_purge :: "arp_entry list \<Rightarrow> link_act list \<times> arp_entry list" where
  "arp_purge [] = ([], [])"
| "arp_purge (a # tab) =
     (let (acts, rest) = arp_purge tab
      in case ae_hold a of
           None \<Rightarrow> (acts, a # rest)
         | Some h \<Rightarrow> (LDropEnd h # acts, a\<lparr>ae_hold := None\<rparr> # rest))"

definition arp_terminate :: "link \<Rightarrow> link" where
  "arp_terminate s = (let (acts, tab) = arp_purge (l_arp s) in s\<lparr>l_arp := tab, l_acts := l_acts s @ acts\<rparr>)"

section \<open>The link layer\<close>

definition ll_sendUp :: "nat \<Rightarrow> link \<Rightarrow> link" where
  "ll_sendUp p s = (if ch_error (cmn (l_mem s p)) > 0 then l_act (LDrop p) s else l_act (SchedUp p) s)"

text \<open>The \<open>default\<close> branch of \<open>sendDown\<close>; the integer is \<open>tx\<close>.\<close>

definition ll_default :: "link_cfg \<Rightarrow> nat \<Rightarrow> link \<Rightarrow> (link_error, int \<times> link) result" where
  "ll_default c p s =
     (let nh = (case c_lan c of None \<Rightarrow> -1 | Some g \<Rightarrow> g (l_mem s p))
      in if nh < 0 then Inr (0, l_write p (mac_set_dst (c_macDA c)) s)
         else case c_varp c of
                Some v \<Rightarrow> bind_res (varp_lookup nh v) (\<lambda>r. case r of
                    Some ma \<Rightarrow> Inr (0, l_write p (\<lambda>f. f\<lparr>f_mac := (f_mac f)\<lparr>mac_macDA := ma\<rparr>\<rparr>) s)
                  | None \<Rightarrow> Inr (1, s))
              | None \<Rightarrow> Inr (0, l_write p (mac_set_dst nh) s))"

definition ll_address :: "link_cfg \<Rightarrow> nat \<Rightarrow> link \<Rightarrow> (link_error, int \<times> link) result" where
  "ll_address c p s =
     (let ch = cmn (l_mem s p)
      in if ch_addr_type ch = NS_AF_ILINK then Inr (0, l_write p (mac_set_dst (ch_next_hop ch)) s)
         else if ch_addr_type ch = NS_AF_INET \<or> ch_addr_type ch = NS_AF_NONE then
           let dst = (if ch_addr_type ch = NS_AF_INET then ch_next_hop ch
                      else c_nodeaddr c (ip_daddr (ip (l_mem s p))))
           in if dst = IP_BROADCAST then Inr (0, l_write p (mac_set_dst MAC_BROADCAST) s)
              else if c_arptable c then Inr (arpresolve c dst p s)
              else ll_default c p s
         else ll_default c p s)"

definition ll_sendDown :: "link_cfg \<Rightarrow> nat \<Rightarrow> link \<Rightarrow> (link_error, link) result" where
  "ll_sendDown c p s =
     (let s1 = s\<lparr>l_seqno := l_seqno s + 1\<rparr>;
          s2 = l_write p (\<lambda>f. mac_set_type ETHERTYPE_IP (mac_set_src (c_mac c)
                 (f\<lparr>f_ll := \<lparr>ll_lltype = LL_DATA, ll_seqno = l_seqno s1\<rparr>\<rparr>))) s1
      in bind_res (ll_address c p s2) (\<lambda>(tx, s3). Inr (if tx = 0 then l_act (SchedDown p) s3 else s3)))"

definition ll_recv :: "link_cfg \<Rightarrow> nat \<Rightarrow> link \<Rightarrow> (link_error, link) result" where
  "ll_recv c p s =
     (if \<not> c_initialized c then Inl NotInitialized
      else if ch_direction (cmn (l_mem s p)) = DIR_UP then
        if ch_ptype (cmn (l_mem s p)) = PT_ARP then
          if c_arptable c then arpinput c p s else Inl NullTable
        else Inr (ll_sendUp p s)
      else ll_sendDown c p (l_write p (set_cmn (\<lambda>h. h\<lparr>ch_direction := DIR_DOWN\<rparr>)) s))"

section \<open>The table as a map\<close>

lemma arplookup_Nil [simp]: "arplookup d [] = None"
  by (simp add: arplookup_def)

lemma arplookup_Cons [simp]: "arplookup d (a # tab) = (if ae_ipaddr a = d then Some a else arplookup d tab)"
  by (simp add: arplookup_def)

lemma arplookup_update:
  assumes "\<And>a. ae_ipaddr (g a) = ae_ipaddr a"
  shows "arplookup d (arp_update dst g tab) = (if d = dst then map_option g (arplookup dst tab) else arplookup d tab)"
  by (induction tab) (auto simp: assms)

lemma arp_update_keys:
  assumes "\<And>a. ae_ipaddr (g a) = ae_ipaddr a"
  shows "List.map ae_ipaddr (arp_update dst g tab) = List.map ae_ipaddr tab"
  by (induction tab) (auto simp: assms)

lemma arplookup_None: "arplookup d tab = None \<longleftrightarrow> d \<notin> ae_ipaddr ` set tab"
  by (induction tab) auto

lemma arplookup_Some: "arplookup d tab = Some e \<Longrightarrow> e \<in> set tab \<and> ae_ipaddr e = d"
  by (induction tab) (auto split: if_splits)

lemma arplookup_member:
  "distinct (List.map ae_ipaddr tab) \<Longrightarrow> e \<in> set tab \<Longrightarrow> arplookup (ae_ipaddr e) tab = Some e"
  by (induction tab) (auto simp: rev_image_eqI)

lemma arplookup_ensure:
  "arplookup d (arp_ensure dst tab) =
     (if d = dst \<and> arplookup dst tab = None then Some (arp_entry_new dst) else arplookup d tab)"
  by (auto simp: arp_ensure_def arp_entry_new_def)

text \<open>The packets an entry list holds.\<close>

definition held_list :: "arp_entry list \<Rightarrow> nat list" where
  "held_list tab = List.map_filter ae_hold tab"

lemma held_list_simps [simp]:
  "held_list [] = []"
  "held_list (a # tab) = (case ae_hold a of None \<Rightarrow> held_list tab | Some h \<Rightarrow> h # held_list tab)"
  by (auto simp: held_list_def split: option.splits)

lemma held_list_member: "e \<in> set tab \<Longrightarrow> ae_hold e = Some h \<Longrightarrow> h \<in> set (held_list tab)"
  by (induction tab) (auto split: option.splits)

lemma held_list_entry: "h \<in> set (held_list tab) \<Longrightarrow> \<exists>e \<in> set tab. ae_hold e = Some h"
  by (induction tab) (auto split: option.splits)

lemma held_update:
  assumes "arplookup dst tab = Some e" "\<And>a. ae_ipaddr (g a) = ae_ipaddr a"
  shows "mset (held_list (arp_update dst g tab)) + mset (case ae_hold e of None \<Rightarrow> [] | Some h \<Rightarrow> [h]) =
     mset (held_list tab) + mset (case ae_hold (g e) of None \<Rightarrow> [] | Some h \<Rightarrow> [h])"
  using assms(1)
proof (induction tab)
  case Nil
  then show ?case by simp
next
  case (Cons a tab)
  then show ?case by (auto split: option.splits if_splits)
qed

lemma held_update_set:
  "arplookup dst tab = Some e \<Longrightarrow> set (held_list (arp_update dst g tab)) \<subseteq>
     set (held_list tab) \<union> (case ae_hold (g e) of None \<Rightarrow> {} | Some h \<Rightarrow> {h})"
  by (induction tab) (auto split: option.splits if_splits)

lemma held_update_distinct:
  assumes "distinct (held_list tab)" "arplookup dst tab = Some e"
    "\<forall>h. ae_hold (g e) = Some h \<longrightarrow> ae_hold e = Some h \<or> h \<notin> set (held_list tab)"
  shows "distinct (held_list (arp_update dst g tab))"
  using assms
proof (induction tab)
  case Nil
  then show ?case by simp
next
  case (Cons a tab)
  show ?case
  proof (cases "ae_ipaddr a = dst")
    case True
    then show ?thesis using Cons.prems by (auto split: option.splits)
  next
    case False
    then have e: "arplookup dst tab = Some e" using Cons.prems(2) by simp
    have "distinct (held_list tab)" "\<forall>h. ae_hold (g e) = Some h \<longrightarrow> ae_hold e = Some h \<or> h \<notin> set (held_list tab)"
      using Cons.prems(1,3) by (auto split: option.splits)
    note IH = Cons.IH [OF this(1) e this(2)]
    show ?thesis
    proof (cases "ae_hold a")
      case None
      then show ?thesis using IH False by simp
    next
      case (Some x)
      have x: "x \<notin> set (held_list tab)" using Cons.prems(1) Some by simp
      have "ae_hold (g e) \<noteq> Some x"
      proof
        assume gx: "ae_hold (g e) = Some x"
        then have "ae_hold e = Some x" using Cons.prems(3) Some by auto
        then show False using x e arplookup_Some held_list_member by blast
      qed
      then show ?thesis using IH False Some x held_update_set [OF e, of g] by (auto split: option.splits)
    qed
  qed
qed

section \<open>The invariant of the table\<close>

definition arp_inv :: "link_cfg \<Rightarrow> link \<Rightarrow> bool" where
  "arp_inv c s \<longleftrightarrow> distinct (List.map ae_ipaddr (l_arp s)) \<and> distinct (held_list (l_arp s)) \<and>
     (\<forall>h \<in> set (held_list (l_arp s)). h < l_next s) \<and>
     (\<forall>d e. arplookup d (l_arp s) = Some e \<longrightarrow>
        (ae_up e \<longrightarrow> ae_hold e = None) \<and> 0 \<le> ae_count e \<and> ae_count e \<le> ARP_MAX_REQUEST_COUNT \<and>
        (\<forall>h. ae_hold e = Some h \<longrightarrow> held_for c d (l_mem s h)))"

lemma arp_invD:
  assumes "arp_inv c s"
  shows "distinct (List.map ae_ipaddr (l_arp s))" "distinct (held_list (l_arp s))"
    "h \<in> set (held_list (l_arp s)) \<Longrightarrow> h < l_next s"
    "arplookup d (l_arp s) = Some e \<Longrightarrow> ae_up e \<Longrightarrow> ae_hold e = None"
    "arplookup d (l_arp s) = Some e \<Longrightarrow> 0 \<le> ae_count e \<and> ae_count e \<le> ARP_MAX_REQUEST_COUNT"
    "arplookup d (l_arp s) = Some e \<Longrightarrow> ae_hold e = Some h \<Longrightarrow> held_for c d (l_mem s h)"
  using assms by (auto simp: arp_inv_def)

lemma l_simps [simp]:
  "l_arp (l_act a s) = l_arp s" "l_mem (l_act a s) = l_mem s" "l_next (l_act a s) = l_next s"
  "l_acts (l_act a s) = l_acts s @ [a]" "l_seqno (l_act a s) = l_seqno s"
  "l_arp (l_write p g s) = l_arp s" "l_mem (l_write p g s) = (l_mem s)(p := g (l_mem s p))"
  "l_next (l_write p g s) = l_next s" "l_acts (l_write p g s) = l_acts s" "l_seqno (l_write p g s) = l_seqno s"
  by (simp_all add: l_act_def l_write_def)

lemma held_for_simps [simp]:
  "held_for c d (mac_set_dst a f) = held_for c d f" "held_for c d (mac_set_src a f) = held_for c d f"
  "held_for c d (mac_set_type t f) = held_for c d f" "held_for c d (f\<lparr>f_ll := x\<rparr>) = held_for c d f"
  "held_for c d (f\<lparr>f_mac := m\<rparr>) = held_for c d f"
  "held_for c d (set_cmn (\<lambda>h. h\<lparr>ch_direction := y\<rparr>) f) = held_for c d f"
  by (auto simp: held_for_def mac_set_dst_def mac_set_src_def mac_set_type_def set_cmn_def)

text \<open>Changing packets that are not held, and allocating, keeps the invariant.\<close>

lemma arp_inv_mem:
  assumes "arp_inv c s" "\<forall>h \<in> set (held_list (l_arp s)). l_mem s' h = l_mem s h" "l_next s \<le> l_next s'"
    "l_arp s' = l_arp s"
  shows "arp_inv c s'"
proof -
  have "l_mem s' h = l_mem s h" if "arplookup d (l_arp s) = Some e" "ae_hold e = Some h" for d e h
    using that assms(2) arplookup_Some held_list_member by blast
  then show ?thesis using assms by (fastforce simp: arp_inv_def)
qed

lemma arp_inv_update:
  assumes inv: "arp_inv c s" and e: "arplookup dst (l_arp s) = Some e" and g: "\<And>a. ae_ipaddr (g a) = ae_ipaddr a"
    and ok: "(ae_up (g e) \<longrightarrow> ae_hold (g e) = None) \<and> 0 \<le> ae_count (g e) \<and> ae_count (g e) \<le> ARP_MAX_REQUEST_COUNT"
    and h: "\<And>h. ae_hold (g e) = Some h \<Longrightarrow> held_for c dst (l_mem s h) \<and> h < l_next s \<and>
       (ae_hold e = Some h \<or> h \<notin> set (held_list (l_arp s)))"
  shows "arp_inv c (s\<lparr>l_arp := arp_update dst g (l_arp s)\<rparr>)"
proof -
  note d = arp_invD [OF inv]
  have hh: "\<forall>h. ae_hold (g e) = Some h \<longrightarrow> ae_hold e = Some h \<or> h \<notin> set (held_list (l_arp s))" using h by blast
  note sub = held_update_set [OF e, of g] and dist = held_update_distinct [OF d(2) e, of g, OF hh]
  show ?thesis
    using inv ok h sub dist d(1) e
    by (auto simp: arp_inv_def arplookup_update [OF g] arp_update_keys [OF g] split: option.splits if_splits)
qed

section \<open>Every packet is accounted for\<close>

definition act_pkt :: "link_act \<Rightarrow> nat" where
  "act_pkt a = (case a of SchedDown p \<Rightarrow> p | SchedUp p \<Rightarrow> p | LDrop p \<Rightarrow> p | LDropArp p \<Rightarrow> p | LDropEnd p \<Rightarrow> p
     | XmitFailure p \<Rightarrow> p | LFree p \<Rightarrow> p)"

text \<open>
  \<open>accounted s s' A\<close>: between the two states, the packets \<open>A\<close> that came in, those held and
  those newly allocated are the packets acted upon and those held now.
\<close>

definition accounted :: "link \<Rightarrow> link \<Rightarrow> nat multiset \<Rightarrow> bool" where
  "accounted s s' A \<longleftrightarrow> l_next s \<le> l_next s' \<and>
     (\<exists>as. l_acts s' = l_acts s @ as \<and>
        mset (held_list (l_arp s)) + A + mset [l_next s ..< l_next s'] =
        mset (List.map act_pkt as) + mset (held_list (l_arp s')))"

lemma mset_balance:
  fixes a b d p q x y A B :: "'a multiset"
  assumes "a + A + x = p + b" "b + B + y = q + d"
  shows "a + (A + B) + (x + y) = (p + q) + d"
proof -
  have "a + (A + B) + (x + y) = (a + A + x) + (B + y)" by (simp only: ac_simps)
  also have "\<dots> = p + (b + B + y)" unfolding assms(1) by (simp only: ac_simps)
  also have "\<dots> = (p + q) + d" unfolding assms(2) by (simp only: ac_simps)
  finally show ?thesis .
qed

lemma accounted_trans:
  assumes "accounted s s1 A" "accounted s1 s2 B"
  shows "accounted s s2 (A + B)"
proof -
  obtain as bs where as: "l_acts s1 = l_acts s @ as" "l_acts s2 = l_acts s1 @ bs"
    and m: "mset (held_list (l_arp s)) + A + mset [l_next s ..< l_next s1] = mset (List.map act_pkt as) + mset (held_list (l_arp s1))"
      "mset (held_list (l_arp s1)) + B + mset [l_next s1 ..< l_next s2] = mset (List.map act_pkt bs) + mset (held_list (l_arp s2))"
    and n: "l_next s \<le> l_next s1" "l_next s1 \<le> l_next s2"
    using assms by (auto simp: accounted_def)
  have "mset [l_next s ..< l_next s2] = mset [l_next s ..< l_next s1] + mset [l_next s1 ..< l_next s2]"
    using n upt_add_eq_append [of "l_next s" "l_next s1" "l_next s2 - l_next s1"]
    by (simp del: mset_upt upt_Suc)
  then have "mset (held_list (l_arp s)) + (A + B) + mset [l_next s ..< l_next s2] =
      mset (List.map act_pkt (as @ bs)) + mset (held_list (l_arp s2))"
    using mset_balance [OF m] by (simp del: mset_upt)
  then show ?thesis using as n by (auto simp: accounted_def)
qed

lemma accounted_refl: "accounted s s {#}"
  by (simp add: accounted_def)

lemma accounted_act: "accounted s (l_act a s) {#act_pkt a#}"
  by (simp add: accounted_def)

lemma accounted_write: "accounted s (l_write p g s) {#}"
  by (simp add: accounted_def)

lemma accounted_seqno: "accounted s (s\<lparr>l_seqno := n\<rparr>) {#}"
  by (simp add: accounted_def)

lemma accounted_request: "accounted s (arprequest c src dst s) {#}"
  by (simp add: accounted_def arprequest_def Let_def act_pkt_def)

lemma accounted_fail: "accounted s (arp_fail p s) {#p#}"
  by (simp add: accounted_def arp_fail_def act_pkt_def)

text \<open>Replacing the packet an entry holds, when the old one is acted upon.\<close>

lemma accounted_hold:
  assumes e: "arplookup dst (l_arp s) = Some e" and g: "\<And>a. ae_ipaddr (g a) = ae_ipaddr a"
    and s1: "l_arp s1 = l_arp s" "l_next s1 = l_next s"
    and a: "l_acts s1 = l_acts s @ List.map f (case ae_hold e of None \<Rightarrow> [] | Some h \<Rightarrow> [h])" "\<And>h. act_pkt (f h) = h"
  shows "accounted s (s1\<lparr>l_arp := arp_update dst g (l_arp s1)\<rparr>) (mset (case ae_hold (g e) of None \<Rightarrow> [] | Some h \<Rightarrow> [h]))"
  using held_update [OF e, of g, OF g] s1 a
  by (auto simp: accounted_def ac_simps split: option.splits)

section \<open>Resolving and answering keep the invariant\<close>

lemma arprequest_inv: "arp_inv c s \<Longrightarrow> arp_inv c (arprequest c' src dst s)"
  by (rule arp_inv_mem [of c s]) (auto simp: arprequest_def Let_def dest: arp_invD(3))

lemma arp_fail_simps [simp]:
  "l_arp (arp_fail p s) = l_arp s" "l_mem (arp_fail p s) = l_mem s" "l_next (arp_fail p s) = l_next s"
  by (simp_all add: arp_fail_def)

lemma arp_inv_act: "arp_inv c s \<Longrightarrow> arp_inv c (l_act a s)" "arp_inv c s \<Longrightarrow> arp_inv c (arp_fail p s)"
  by (simp_all add: arp_inv_def)

lemma arp_inv_write: "arp_inv c s \<Longrightarrow> p \<notin> set (held_list (l_arp s)) \<Longrightarrow> arp_inv c (l_write p g s)"
  by (rule arp_inv_mem [of c s]) auto

lemma arpresolve_ok:
  assumes inv: "arp_inv c s" and p: "p < l_next s" "p \<notin> set (held_list (l_arp s))" "held_for c dst (l_mem s p)"
  shows "arp_inv c (snd (arpresolve c dst p s)) \<and>
    accounted s (snd (arpresolve c dst p s)) (if fst (arpresolve c dst p s) = 0 then {#} else {#p#})"
proof (cases "arplookup dst (l_arp s)")
  case None
  define s1 where "s1 = s\<lparr>l_arp := (arp_entry_new dst)\<lparr>ae_count := 1, ae_hold := Some p\<rparr> # l_arp s\<rparr>"
  have e: "arpresolve c dst p s = (EADDRNOTAVAIL, arprequest c (c_node c) dst s1)"
    using None by (simp add: arpresolve_def Let_def s1_def)
  have "arp_inv c s1"
    using inv p None by (auto simp: arp_inv_def s1_def arp_entry_new_def arplookup_None)
  moreover have "accounted s s1 {#p#}" by (simp add: accounted_def s1_def)
  ultimately show ?thesis
    using e arprequest_inv accounted_trans [OF _ accounted_request, of s s1 "{#p#}" c "c_node c" dst] by simp
next
  case (Some e)
  note d = arp_invD(4,5) [OF inv Some]
  consider "ae_up e" | "\<not> ae_up e" "ae_count e \<ge> ARP_MAX_REQUEST_COUNT" | "\<not> ae_up e" "ae_count e < ARP_MAX_REQUEST_COUNT"
    by linarith
  then show ?thesis
  proof cases
    case 1
    then show ?thesis using Some inv p accounted_write by (simp add: arpresolve_def arp_inv_write)
  next
    case 2
    define g :: "arp_entry \<Rightarrow> arp_entry" where "g = (\<lambda>a. a\<lparr>ae_count := 0, ae_hold := None :: nat option\<rparr>)"
    define s1 where "s1 = s\<lparr>l_arp := arp_update dst g (l_arp s)\<rparr>"
    define s2 where "s2 = (case ae_hold e of None \<Rightarrow> s1 | Some t \<Rightarrow> arp_fail t s1)"
    have e: "arpresolve c dst p s = (EADDRNOTAVAIL, arp_fail p s2)"
      using Some 2 by (simp add: arpresolve_def Let_def s1_def s2_def g_def split: option.splits)
    have i1: "arp_inv c s1" unfolding s1_def
      by (rule arp_inv_update [OF inv Some]) (simp_all add: g_def)
    have i2: "arp_inv c s2" using i1 by (simp add: s2_def arp_inv_act split: option.splits)
    define f where "f = (\<lambda>h. if f_xmit_failure (l_mem s h) then XmitFailure h else LDropArp h)"
    define s0 where "s0 = s\<lparr>l_acts := l_acts s @ List.map f (case ae_hold e of None \<Rightarrow> [] | Some h \<Rightarrow> [h])\<rparr>"
    have s2: "s2 = s0\<lparr>l_arp := arp_update dst g (l_arp s0)\<rparr>"
      by (auto simp: s2_def s1_def s0_def f_def arp_fail_def l_act_def split: option.splits)
    have "accounted s s2 (mset (case ae_hold (g e) of None \<Rightarrow> [] | Some h \<Rightarrow> [h]))" unfolding s2
      by (rule accounted_hold [OF Some, where f = f]) (simp_all add: g_def s0_def f_def act_pkt_def)
    then have "accounted s s2 {#}" by (simp add: g_def)
    from accounted_trans [OF this accounted_fail, of p] show ?thesis using e arp_inv_act(2) [OF i2] by simp
  next
    case 3
    define g :: "arp_entry \<Rightarrow> arp_entry" where "g = (\<lambda>a. a\<lparr>ae_count := ae_count a + 1, ae_hold := Some p\<rparr>)"
    define s0 where "s0 = s\<lparr>l_acts := l_acts s @ List.map LDropArp (case ae_hold e of None \<Rightarrow> [] | Some h \<Rightarrow> [h])\<rparr>"
    define s2 where "s2 = s0\<lparr>l_arp := arp_update dst g (l_arp s0)\<rparr>"
    have "(case ae_hold e of None \<Rightarrow> s | Some t \<Rightarrow> l_act (LDropArp t) s) = s0"
      by (simp add: s0_def l_act_def split: option.splits)
    then have e: "arpresolve c dst p s = (EADDRNOTAVAIL, arprequest c (c_node c) dst s2)"
      using Some 3 by (simp add: arpresolve_def Let_def s2_def g_def)
    have i0: "arp_inv c s0" using inv by (simp add: arp_inv_def s0_def)
    have i2: "arp_inv c s2" unfolding s2_def
      by (rule arp_inv_update [OF i0, of _ e]) (use Some d 3 p in \<open>simp_all add: g_def s0_def\<close>)
    have "accounted s s2 (mset (case ae_hold (g e) of None \<Rightarrow> [] | Some h \<Rightarrow> [h]))" unfolding s2_def
      by (rule accounted_hold [OF Some, where f = LDropArp]) (simp_all add: g_def s0_def act_pkt_def)
    then have "accounted s s2 {#p#}" by (simp add: g_def)
    from accounted_trans [OF this accounted_request, of c "c_node c" dst] show ?thesis
      using e arprequest_inv [OF i2] by simp
  qed
qed

text \<open>A held packet is always one for the address its entry resolves.\<close>

lemma arp_release_ok:
  assumes inv: "arp_inv c s" and e: "arplookup spa (l_arp s) = Some e" and g: "g = (\<lambda>a. a\<lparr>ae_macaddr := sha, ae_up := True\<rparr>)"
  obtains s' where "arp_release c spa sha (s\<lparr>l_arp := arp_update spa g (l_arp s)\<rparr>) = Inr s'" "arp_inv c s'"
    "accounted s s' {#}" "set (held_list (l_arp s')) \<subseteq> set (held_list (l_arp s))" "l_next s' = l_next s"
    "\<And>x. x \<notin> set (held_list (l_arp s)) \<Longrightarrow> l_mem s' x = l_mem s x"
proof (cases "ae_hold e")
  case None
  have gi: "\<And>a. ae_ipaddr (g a) = ae_ipaddr a" by (simp add: g)
  define s' where "s' = s\<lparr>l_arp := arp_update spa g (l_arp s)\<rparr>"
  have r: "arp_release c spa sha s' = Inr s'" using e None by (simp add: arp_release_def arplookup_update g s'_def)
  have i: "arp_inv c s'" unfolding s'_def
    by (rule arp_inv_update [OF inv e]) (use arp_invD(5) [OF inv e] None in \<open>simp_all add: g\<close>)
  have a: "accounted s s' {#}"
    using accounted_hold [OF e gi refl refl, of SchedDown] None by (simp add: s'_def g act_pkt_def)
  have "set (held_list (l_arp s')) \<subseteq> set (held_list (l_arp s))"
    using held_update_set [OF e, of g] None by (auto simp: s'_def g)
  then show ?thesis using that [of s'] r i a by (simp add: s'_def)
next
  case (Some h)
  have gi: "\<And>a. ae_ipaddr (g a) = ae_ipaddr a" by (simp add: g)
  have hf: "held_for c spa (l_mem s h)" using arp_invD(6) [OF inv e Some] .
  have hm: "h \<in> set (held_list (l_arp s))" using e Some arplookup_Some held_list_member by blast
  define k :: "arp_entry \<Rightarrow> arp_entry" where "k = (\<lambda>a. a\<lparr>ae_hold := None :: nat option\<rparr>)"
  define s0 where "s0 = l_act (SchedDown h) (l_write h (mac_set_dst sha) s)"
  define s' where "s' = s0\<lparr>l_arp := arp_update spa (k \<circ> g) (l_arp s0)\<rparr>"
  have kk: "arp_update spa k (arp_update spa g tab) = arp_update spa (k \<circ> g) tab" for tab
    by (induction tab) (auto simp: gi)
  have r: "arp_release c spa sha (s\<lparr>l_arp := arp_update spa g (l_arp s)\<rparr>) = Inr s'"
    using e Some hf kk [of "l_arp s"]
    by (simp add: arp_release_def arplookup_update gi s'_def s0_def k_def g l_act_def l_write_def)
  have kg: "\<And>a. ae_ipaddr ((k \<circ> g) a) = ae_ipaddr a" by (simp add: k_def g)
  have sub: "set (held_list (arp_update spa (k \<circ> g) (l_arp s))) \<subseteq> set (held_list (l_arp s))"
    using held_update_set [OF e, of "k \<circ> g"] by (simp add: k_def g)
  have i1: "arp_inv c (s\<lparr>l_arp := arp_update spa (k \<circ> g) (l_arp s)\<rparr>)"
    by (rule arp_inv_update [OF inv e kg]) (use arp_invD(5) [OF inv e] in \<open>simp_all add: k_def g\<close>)
  have hn: "h \<notin> set (held_list (arp_update spa (k \<circ> g) (l_arp s)))"
  proof -
    have "mset (held_list (arp_update spa (k \<circ> g) (l_arp s))) + {#h#} = mset (held_list (l_arp s))"
      using held_update [OF e kg] Some by (simp add: k_def g o_def)
    then have "count (mset (held_list (arp_update spa (k \<circ> g) (l_arp s)))) h + 1 = count (mset (held_list (l_arp s))) h"
      by (metis count_single count_union)
    moreover have "count (mset (held_list (l_arp s))) h = 1"
      using arp_invD(2) [OF inv] hm by (simp add: distinct_count_atmost_1)
    ultimately show ?thesis by simp
  qed
  have i: "arp_inv c s'"
    by (rule arp_inv_mem [OF i1]) (use hn in \<open>auto simp: s'_def s0_def\<close>)
  have a: "accounted s s' (mset (case ae_hold ((k \<circ> g) e) of None \<Rightarrow> [] | Some h \<Rightarrow> [h]))" unfolding s'_def
    by (rule accounted_hold [OF e kg, where f = SchedDown]) (simp_all add: s0_def Some act_pkt_def)
  then have "accounted s s' {#}" by (simp add: k_def g)
  moreover have "l_mem s' x = l_mem s x" if "x \<notin> set (held_list (l_arp s))" for x
    using that hm by (auto simp: s'_def s0_def)
  ultimately show ?thesis using that [of s'] r i sub by (simp add: s'_def s0_def)
qed

lemma arp_ensure_ok:
  assumes "arp_inv c s"
  shows "arp_inv c (s\<lparr>l_arp := arp_ensure dst (l_arp s)\<rparr>)" "held_list (arp_ensure dst (l_arp s)) = held_list (l_arp s)"
    "\<exists>e. arplookup dst (arp_ensure dst (l_arp s)) = Some e"
proof -
  show h: "held_list (arp_ensure dst (l_arp s)) = held_list (l_arp s)" by (simp add: arp_ensure_def arp_entry_new_def)
  show "\<exists>e. arplookup dst (arp_ensure dst (l_arp s)) = Some e" by (auto simp: arplookup_ensure)
  show "arp_inv c (s\<lparr>l_arp := arp_ensure dst (l_arp s)\<rparr>)"
    using assms h by (auto simp: arp_inv_def arplookup_ensure arp_entry_new_def split: if_splits)
      (auto simp: arp_ensure_def arp_entry_new_def arplookup_None)
qed

lemma arpinput_ok:
  assumes inv: "arp_inv c s" and p: "p \<notin> set (held_list (l_arp s))"
  shows "\<exists>s'. arpinput c p s = Inr s' \<and> arp_inv c s' \<and> accounted s s' {#p#}"
proof -
  define ah where "ah = f_arp (l_mem s p)"
  define s1 where "s1 = s\<lparr>l_arp := arp_ensure (arp_spa ah) (l_arp s)\<rparr>"
  define g :: "arp_entry \<Rightarrow> arp_entry" where "g = (\<lambda>a. a\<lparr>ae_macaddr := arp_sha ah, ae_up := True\<rparr>)"
  note en = arp_ensure_ok [OF inv, of "arp_spa ah"]
  have i1: "arp_inv c s1" and h1: "held_list (l_arp s1) = held_list (l_arp s)" using en by (simp_all add: s1_def)
  obtain e where e: "arplookup (arp_spa ah) (l_arp s1) = Some e" using en(3) by (auto simp: s1_def)
  obtain s2 where s2: "arp_release c (arp_spa ah) (arp_sha ah) (s1\<lparr>l_arp := arp_update (arp_spa ah) g (l_arp s1)\<rparr>) = Inr s2"
      "arp_inv c s2" "accounted s1 s2 {#}" "set (held_list (l_arp s2)) \<subseteq> set (held_list (l_arp s1))"
    using arp_release_ok [OF i1 e g_def] by metis
  have e2: "s1\<lparr>l_arp := arp_update (arp_spa ah) g (l_arp s1)\<rparr> =
      s\<lparr>l_arp := arp_update (arp_spa ah) g (arp_ensure (arp_spa ah) (l_arp s))\<rparr>" by (simp add: s1_def)
  have a1: "accounted s s1 {#}" using h1 by (simp add: accounted_def) (simp add: s1_def)
  have a2: "accounted s s2 {#}" using accounted_trans [OF a1 s2(3)] by simp
  have p2: "p \<notin> set (held_list (l_arp s2))" using p s2(4) h1 by auto
  have aw: "accounted s (l_act a (l_write p f s2)) {#p#}" if "act_pkt a = p" for a f
    using accounted_trans [OF accounted_trans [OF a2 accounted_write [of s2 p f]] accounted_act [of _ a]] that by simp
  have al: "accounted s (l_act (LFree p) s2) {#p#}"
    using accounted_trans [OF a2 accounted_act [of _ "LFree p"]] by (simp add: act_pkt_def)
  have in2: "arpinput c p s = (if arp_op ah = ARPOP_REQUEST \<and> arp_tpa ah = c_node c
       then Inr (l_act (SchedDown p) (l_write p (arp_reply_frame c) s2)) else Inr (l_act (LFree p) s2))"
    using s2(1) unfolding e2 by (simp add: arpinput_def Let_def ah_def [symmetric] g_def)
  show ?thesis using in2 aw [of "SchedDown p"] al arp_inv_act(1) arp_inv_write [OF s2(2) p2] s2(2)
    by (simp add: act_pkt_def)
qed

lemma ll_default_ok:
  assumes "arp_inv c s" "p \<notin> set (held_list (l_arp s))" "c_lan c = None"
  shows "\<exists>s'. ll_default c p s = Inr (0, s') \<and> arp_inv c s' \<and> accounted s s' {#}"
  using assms by (simp add: ll_default_def arp_inv_write accounted_write)

lemma ll_address_ok:
  assumes inv: "arp_inv c s" and p: "p < l_next s" "p \<notin> set (held_list (l_arp s))" and lan: "c_lan c = None"
  shows "\<exists>tx s'. ll_address c p s = Inr (tx, s') \<and> arp_inv c s' \<and> accounted s s' (if tx = 0 then {#} else {#p#})"
proof -
  define ch where "ch = cmn (l_mem s p)"
  define dst where "dst = (if ch_addr_type ch = NS_AF_INET then ch_next_hop ch else c_nodeaddr c (ip_daddr (ip (l_mem s p))))"
  consider (link) "ch_addr_type ch = NS_AF_ILINK"
    | (inet) "ch_addr_type ch = NS_AF_INET \<or> ch_addr_type ch = NS_AF_NONE" | (other) "ch_addr_type ch \<noteq> NS_AF_ILINK"
      "\<not> (ch_addr_type ch = NS_AF_INET \<or> ch_addr_type ch = NS_AF_NONE)" by blast
  then show ?thesis
  proof cases
    case link
    then show ?thesis using inv p
      by (simp add: ll_address_def Let_def ch_def [symmetric] arp_inv_write accounted_write)
  next
    case inet
    have hf: "held_for c dst (l_mem s p)" using inet by (auto simp: held_for_def dst_def ch_def)
    have e: "ll_address c p s = (if dst = IP_BROADCAST then Inr (0, l_write p (mac_set_dst MAC_BROADCAST) s)
        else if c_arptable c then Inr (arpresolve c dst p s) else ll_default c p s)"
      using inet by (auto simp: ll_address_def Let_def ch_def [symmetric] dst_def)
    show ?thesis
    proof (cases "dst = IP_BROADCAST")
      case True
      then show ?thesis using e inv p by (simp add: arp_inv_write accounted_write)
    next
      case False
      then show ?thesis
        using e arpresolve_ok [OF inv p hf] ll_default_ok [OF inv p(2) lan]
        by (cases "c_arptable c"; cases "arpresolve c dst p s") auto
    qed
  next
    case other
    then show ?thesis using ll_default_ok [OF inv p(2) lan]
      by (auto simp: ll_address_def Let_def ch_def [symmetric])
  qed
qed

lemma ll_sendDown_ok:
  assumes inv: "arp_inv c s" and p: "p < l_next s" "p \<notin> set (held_list (l_arp s))" and lan: "c_lan c = None"
  shows "\<exists>s'. ll_sendDown c p s = Inr s' \<and> arp_inv c s' \<and> accounted s s' {#p#}"
proof -
  define s1 where "s1 = s\<lparr>l_seqno := l_seqno s + 1\<rparr>"
  define f where "f = (\<lambda>f :: frame. mac_set_type ETHERTYPE_IP (mac_set_src (c_mac c)
                 (f\<lparr>f_ll := \<lparr>ll_lltype = LL_DATA, ll_seqno = l_seqno s1\<rparr>\<rparr>)))"
  define s2 where "s2 = l_write p f s1"
  have i1: "arp_inv c s1" using inv by (simp add: arp_inv_def s1_def)
  have i2: "arp_inv c s2" using arp_inv_write [OF i1] p by (simp add: s2_def s1_def)
  have a2: "accounted s s2 {#}"
    using accounted_trans [OF accounted_seqno [of s "l_seqno s + 1"] accounted_write [of _ p f]] by (simp add: s2_def s1_def)
  have p2: "p < l_next s2" "p \<notin> set (held_list (l_arp s2))" using p by (simp_all add: s2_def s1_def)
  obtain tx s3 where s3: "ll_address c p s2 = Inr (tx, s3)" "arp_inv c s3" "accounted s2 s3 (if tx = 0 then {#} else {#p#})"
    using ll_address_ok [OF i2 p2 lan] by blast
  have a3: "accounted s s3 (if tx = 0 then {#} else {#p#})" using accounted_trans [OF a2 s3(3)] by simp
  have e: "ll_sendDown c p s = Inr (if tx = 0 then l_act (SchedDown p) s3 else s3)"
    using s3(1) by (simp add: ll_sendDown_def Let_def s2_def s1_def f_def)
  show ?thesis
  proof (cases "tx = 0")
    case True
    then have "accounted s (l_act (SchedDown p) s3) {#p#}"
      using accounted_trans [OF a3 accounted_act [of s3 "SchedDown p"]] by (simp add: act_pkt_def)
    then show ?thesis using e True s3(2) arp_inv_act(1) by simp
  next
    case False
    then show ?thesis using e a3 s3(2) by simp
  qed
qed

lemma ll_recv_ok:
  assumes inv: "arp_inv c s" and p: "p < l_next s" "p \<notin> set (held_list (l_arp s))"
    and cfg: "c_lan c = None" "c_initialized c" "c_arptable c"
  shows "\<exists>s'. ll_recv c p s = Inr s' \<and> arp_inv c s' \<and> accounted s s' {#p#}"
proof (cases "ch_direction (cmn (l_mem s p)) = DIR_UP")
  case True
  show ?thesis
  proof (cases "ch_ptype (cmn (l_mem s p)) = PT_ARP")
    case True
    then show ?thesis using arpinput_ok [OF inv p(2)] cfg \<open>ch_direction (cmn (l_mem s p)) = DIR_UP\<close>
      by (simp add: ll_recv_def)
  next
    case False
    have "accounted s (ll_sendUp p s) {#p#}"
      using accounted_act [of s "LDrop p"] accounted_act [of s "SchedUp p"] by (simp add: ll_sendUp_def act_pkt_def)
    moreover have "arp_inv c (ll_sendUp p s)" using inv by (simp add: ll_sendUp_def arp_inv_act)
    ultimately show ?thesis using False True cfg by (simp add: ll_recv_def)
  qed
next
  case False
  define s1 where "s1 = l_write p (set_cmn (\<lambda>h. h\<lparr>ch_direction := DIR_DOWN\<rparr>)) s"
  have i: "arp_inv c s1" using arp_inv_write [OF inv p(2)] by (simp add: s1_def)
  have q: "p < l_next s1" "p \<notin> set (held_list (l_arp s1))" using p by (simp_all add: s1_def)
  obtain s' where "ll_sendDown c p s1 = Inr s'" "arp_inv c s'" "accounted s1 s' {#p#}"
    using ll_sendDown_ok [OF i q cfg(1)] by blast
  then show ?thesis
    using False cfg accounted_trans [OF accounted_write [of s p "set_cmn (\<lambda>h. h\<lparr>ch_direction := DIR_DOWN\<rparr>)"], folded s1_def, of s' "{#p#}"]
    by (simp add: ll_recv_def s1_def)
qed

section \<open>Reachable states\<close>

text \<open>
  The link layer of a node among the rest of the simulator, which allocates packets and
  writes to those the table does not hold, and which never hands the layer a packet that is
  held.
\<close>

inductive ll_reach :: "link_cfg \<Rightarrow> link \<Rightarrow> bool" for c where
  ll_start: "ll_reach c \<lparr>l_mem = m, l_arp = [], l_seqno = 0, l_next = n, l_acts = []\<rparr>"
| ll_receive: "\<lbrakk>ll_reach c s; p < l_next s; p \<notin> set (held_list (l_arp s)); ll_recv c p s = Inr s'\<rbrakk> \<Longrightarrow> ll_reach c s'"
| ll_other: "\<lbrakk>ll_reach c s; \<forall>h \<in> set (held_list (l_arp s)). m h = l_mem s h; l_next s \<le> n\<rbrakk>
    \<Longrightarrow> ll_reach c (s\<lparr>l_mem := m, l_next := n\<rparr>)"
| ll_terminate: "ll_reach c s \<Longrightarrow> ll_reach c (arp_terminate s)"

inductive_cases ll_reachE: "ll_reach c s"

lemma arp_purge_keys: "List.map ae_ipaddr (snd (arp_purge tab)) = List.map ae_ipaddr tab"
  by (induction tab) (auto simp: Let_def split: option.splits prod.splits)

lemma arp_purge_hold: "held_list (snd (arp_purge tab)) = []"
  by (induction tab) (auto simp: Let_def split: option.splits prod.splits)

lemma arp_purge_acts: "fst (arp_purge tab) = List.map LDropEnd (held_list tab)"
  by (induction tab) (auto simp: Let_def split: option.splits prod.splits)

lemma arp_purge_lookup:
  "arplookup d (snd (arp_purge tab)) = map_option (\<lambda>a. a\<lparr>ae_hold := None\<rparr>) (arplookup d tab)"
proof (induction tab)
  case Nil
  then show ?case by simp
next
  case (Cons a tab)
  then show ?case by (cases a) (auto simp: Let_def split: option.splits prod.splits)
qed

lemma arp_terminate_inv: "arp_inv c s \<Longrightarrow> arp_inv c (arp_terminate s)"
  by (auto simp: arp_inv_def arp_terminate_def Let_def split_beta arp_purge_keys arp_purge_hold arp_purge_lookup)

lemma ll_reach_inv:
  assumes "ll_reach c s" "c_lan c = None" "c_initialized c" "c_arptable c"
  shows "arp_inv c s"
  using assms(1)
proof induction
  case (ll_start m n)
  then show ?case by (simp add: arp_inv_def)
next
  case (ll_receive s p s')
  then show ?case using ll_recv_ok [OF ll_receive.IH ll_receive.hyps(2,3) assms(2-4)] by auto
next
  case (ll_other s m n)
  then show ?case by (intro arp_inv_mem [OF ll_other.IH]) auto
next
  case (ll_terminate s)
  then show ?case by (simp add: arp_terminate_inv)
qed

section \<open>Properties\<close>

text \<open>
  C9: In every reachable state of a wireless node's link layer, receiving any packet returns:
  the fatal error of arpinput ("held" packet for another address) cannot happen, because
  every entry holds at most one packet and only one for its own address; an address is asked
  for at most three times before the waiting packets are given up, and a resolved address
  holds none.
\<close>

theorem arp_fatal_unreachable:
  assumes "ll_reach c s" "c_lan c = None" "c_initialized c" "c_arptable c"
    and "p < l_next s" "p \<notin> set (held_list (l_arp s))"
  shows "(\<exists>s'. ll_recv c p s = Inr s') \<and> distinct (List.map ae_ipaddr (l_arp s)) \<and> distinct (held_list (l_arp s)) \<and>
     (\<forall>d e. arplookup d (l_arp s) = Some e \<longrightarrow> (ae_up e \<longrightarrow> ae_hold e = None) \<and> ae_count e \<le> 3 \<and>
        (\<forall>h. ae_hold e = Some h \<longrightarrow> held_for c d (l_mem s h)))"
  using ll_reach_inv [OF assms(1-4)] ll_recv_ok [OF _ assms(5,6,2-4)] by (fastforce simp: arp_inv_def)

definition demo_cfg :: "int \<Rightarrow> int \<Rightarrow> link_cfg" where
  "demo_cfg node mac = \<lparr>c_node = node, c_mac = mac, c_macDA = 0, c_initialized = True, c_arptable = True,
     c_nodeaddr = id, c_lan = None, c_varp = None\<rparr>"

definition demo_link :: link where
  "demo_link = \<lparr>l_mem = (\<lambda>_. set_cmn (\<lambda>h. h\<lparr>ch_addr_type := NS_AF_INET, ch_next_hop := 2\<rparr>) frame_alloc),
     l_arp = [], l_seqno = 0, l_next = 5, l_acts = []\<rparr>"

lemma demo_link_reach: "ll_reach (demo_cfg 1 10) demo_link"
  unfolding demo_link_def by (rule ll_start)

lemma demo_cfg_simps [simp]:
  "c_lan (demo_cfg a b) = None" "c_initialized (demo_cfg a b)" "c_arptable (demo_cfg a b)"
  "c_node (demo_cfg a b) = a" "c_mac (demo_cfg a b) = b" "c_nodeaddr (demo_cfg a b) = id"
  by (simp_all add: demo_cfg_def)

lemma arp_fatal_unreachable_witness: "\<exists>s'. ll_recv (demo_cfg 1 10) 3 demo_link = Inr s'"
proof -
  have "3 < l_next demo_link" "3 \<notin> set (held_list (l_arp demo_link))" by (simp_all add: demo_link_def)
  then show ?thesis using arp_fatal_unreachable [OF demo_link_reach] by simp
qed

text \<open>
  C36: No packet is lost or used twice by the link layer of a wireless node: the packet
  received, those the table held and the requests allocated are, together, exactly the
  packets scheduled up or down, dropped, freed or handed back to their sender, and those
  held afterwards.
\<close>

theorem ll_packet_accounting:
  assumes "ll_reach c s" "c_lan c = None" "c_initialized c" "c_arptable c"
    and "p < l_next s" "p \<notin> set (held_list (l_arp s))" "ll_recv c p s = Inr s'"
  shows "\<exists>as. l_acts s' = l_acts s @ as \<and>
     mset (held_list (l_arp s)) + {#p#} + mset [l_next s ..< l_next s'] =
     mset (List.map act_pkt as) + mset (held_list (l_arp s'))"
  using ll_recv_ok [OF ll_reach_inv [OF assms(1-4)] assms(5,6,2-4)] assms(7) by (auto simp: accounted_def)

lemma ll_packet_accounting_witness:
  "\<exists>s' as. ll_recv (demo_cfg 1 10) 3 demo_link = Inr s' \<and> l_acts s' = as \<and>
     {#3#} + mset [5 ..< l_next s'] = mset (List.map act_pkt as) + mset (held_list (l_arp s'))"
proof -
  have d: "3 < l_next demo_link" "3 \<notin> set (held_list (l_arp demo_link))" "l_next demo_link = 5" "l_acts demo_link = []"
    "held_list (l_arp demo_link) = []" by (simp_all add: demo_link_def)
  obtain s' where s': "ll_recv (demo_cfg 1 10) 3 demo_link = Inr s'"
    using ll_recv_ok [OF ll_reach_inv [OF demo_link_reach], of 3] d by auto
  show ?thesis using ll_packet_accounting [OF demo_link_reach _ _ _ d(1,2) s'] s' d by (simp del: mset_upt)
qed

definition deliver :: "nat \<Rightarrow> frame \<Rightarrow> link \<Rightarrow> link" where
  "deliver q f s = s\<lparr>l_mem := (l_mem s)(q := set_cmn (\<lambda>h. h\<lparr>ch_direction := DIR_UP\<rparr>) f), l_next := Suc (max q (l_next s))\<rparr>"


lemma request_frame_simps:
  assumes "0 \<le> c_mac c"
  shows "f_arp (arp_request_frame c src dst f) = \<lparr>arp_hrd = 1, arp_pro = ETHERTYPE_IP, arp_hln = 6, arp_pln = 4,
      arp_op = ARPOP_REQUEST, arp_sha = c_mac c, arp_spa = src, arp_tha = 0, arp_tpa = dst\<rparr>"
    "mac_macDA (f_mac (arp_request_frame c src dst f)) = MAC_BROADCAST"
    "ch_ptype (cmn (arp_request_frame c src dst f)) = PT_ARP"
  using assms by (simp_all add: arp_request_frame_def Let_def set_cmn_def mac_set_dst_def mac_set_src_def mac_set_type_def)

lemma reply_frame_simps:
  assumes "0 \<le> arp_sha (f_arp f)"
  shows "f_arp (arp_reply_frame c f) = (f_arp f)\<lparr>arp_op := ARPOP_REPLY, arp_tha := arp_sha (f_arp f), arp_sha := c_mac c,
      arp_spa := arp_tpa (f_arp f), arp_tpa := arp_spa (f_arp f)\<rparr>"
    "mac_macDA (f_mac (arp_reply_frame c f)) = arp_sha (f_arp f)"
    "ch_ptype (cmn (arp_reply_frame c f)) = ch_ptype (cmn f)"
  using assms by (simp_all add: arp_reply_frame_def Let_def set_cmn_def mac_set_dst_def mac_set_src_def mac_set_type_def)

lemma deliver_simps [simp]:
  "l_arp (deliver q f s) = l_arp s" "l_acts (deliver q f s) = l_acts s"
  "f_arp (l_mem (deliver q f s) q) = f_arp f" "ch_direction (cmn (l_mem (deliver q f s) q)) = DIR_UP"
  "ch_ptype (cmn (l_mem (deliver q f s) q)) = ch_ptype (cmn f)" "x \<noteq> q \<Longrightarrow> l_mem (deliver q f s) x = l_mem s x"
  by (simp_all add: deliver_def set_cmn_def)

text \<open>Sending to an unknown address holds the packet and asks for the address.\<close>

lemma exchange_send:
  assumes "c_initialized c" "c_arptable c" "dst \<noteq> IP_BROADCAST" "arplookup dst (l_arp s) = None" "p < l_next s"
    and "ch_direction (cmn (l_mem s p)) \<noteq> DIR_UP" "ch_addr_type (cmn (l_mem s p)) = NS_AF_INET"
      "ch_next_hop (cmn (l_mem s p)) = dst"
  obtains s' where "ll_recv c p s = Inr s'" "l_acts s' = l_acts s @ [SchedDown (l_next s)]"
    "l_mem s' (l_next s) = arp_request_frame c (c_node c) dst frame_alloc" "held_for c dst (l_mem s' p)"
    "l_arp s' = (arp_entry_new dst)\<lparr>ae_count := 1, ae_hold := Some p\<rparr> # l_arp s" "l_next s' = Suc (l_next s)"
proof -
  define s1 where "s1 = l_write p (set_cmn (\<lambda>h. h\<lparr>ch_direction := DIR_DOWN\<rparr>)) s"
  define s2 where "s2 = l_write p (\<lambda>f. mac_set_type ETHERTYPE_IP (mac_set_src (c_mac c)
     (f\<lparr>f_ll := \<lparr>ll_lltype = LL_DATA, ll_seqno = l_seqno s + 1\<rparr>\<rparr>))) (s1\<lparr>l_seqno := l_seqno s + 1\<rparr>)"
  define s3 where "s3 = arprequest c (c_node c) dst
     (s2\<lparr>l_arp := (arp_entry_new dst)\<lparr>ae_count := 1, ae_hold := Some p\<rparr> # l_arp s2\<rparr>)"
  have f2: "ch_addr_type (cmn (l_mem s2 p)) = NS_AF_INET" "ch_next_hop (cmn (l_mem s2 p)) = dst"
    "l_arp s2 = l_arp s" "l_next s2 = l_next s" "l_acts s2 = l_acts s"
    using assms(7,8) by (simp_all add: s2_def s1_def set_cmn_def mac_set_src_def mac_set_type_def)
  have "ll_address c p s2 = Inr (EADDRNOTAVAIL, s3)"
    using f2 assms(2,3,4) by (simp add: ll_address_def Let_def arpresolve_def s3_def)
  then have "ll_recv c p s = Inr s3"
    using assms(1,6) by (simp add: ll_recv_def ll_sendDown_def Let_def s1_def [symmetric]) (simp add: s2_def s1_def)
  moreover have "held_for c dst (l_mem s3 p)"
    using f2 assms(5) by (simp add: s3_def arprequest_def Let_def held_for_def)
  ultimately show ?thesis using that [of s3] f2 by (simp add: s3_def arprequest_def Let_def)
qed

text \<open>A node that is asked for its own address answers.\<close>

lemma exchange_answer:
  assumes "c_initialized c" "c_arptable c" "arplookup spa (l_arp s) = None" "0 \<le> sha"
    and "ch_ptype (cmn f) = PT_ARP" "arp_op (f_arp f) = ARPOP_REQUEST" "arp_tpa (f_arp f) = c_node c"
      "arp_spa (f_arp f) = spa" "arp_sha (f_arp f) = sha"
  obtains s' where "ll_recv c q (deliver q f s) = Inr s'" "l_acts s' = l_acts s @ [SchedDown q]"
    "f_arp (l_mem s' q) = (f_arp f)\<lparr>arp_op := ARPOP_REPLY, arp_tha := sha, arp_sha := c_mac c,
       arp_spa := c_node c, arp_tpa := spa\<rparr>"
    "mac_macDA (f_mac (l_mem s' q)) = sha" "ch_ptype (cmn (l_mem s' q)) = PT_ARP"
    "map_option ae_macaddr (arplookup spa (l_arp s')) = Some sha"
proof -
  define s0 where "s0 = deliver q f s"
  define s1 where "s1 = s0\<lparr>l_arp := (arp_entry_new spa)\<lparr>ae_macaddr := sha, ae_up := True\<rparr> # l_arp s\<rparr>"
  have tab: "arp_update spa (\<lambda>a. a\<lparr>ae_macaddr := sha, ae_up := True\<rparr>) (arp_ensure spa (l_arp s)) =
      (arp_entry_new spa)\<lparr>ae_macaddr := sha, ae_up := True\<rparr> # l_arp s"
    using assms(3) by (simp add: arp_ensure_def arp_entry_new_def)
  have rel: "arp_release c spa sha s1 = Inr s1" by (simp add: arp_release_def s1_def arp_entry_new_def)
  have e: "ll_recv c q s0 = Inr (l_act (SchedDown q) (l_write q (arp_reply_frame c) s1))"
    using assms rel tab by (simp add: ll_recv_def arpinput_def Let_def s0_def s1_def)
  have fa: "f_arp (l_mem s1 q) = f_arp f" by (simp add: s1_def s0_def)
  note rp = reply_frame_simps [of "l_mem s1 q" c]
  show ?thesis using that [OF e [unfolded s0_def]] fa rp assms
    by (simp add: s1_def) (simp add: s0_def arp_entry_new_def)
qed

text \<open>A reply releases the packet that waited for it.\<close>

lemma exchange_release:
  assumes "c_initialized c" "c_arptable c" "l_arp s = (arp_entry_new spa)\<lparr>ae_count := 1, ae_hold := Some p\<rparr> # tab"
    "held_for c spa (l_mem s p)" "r \<noteq> p" "0 \<le> sha"
    and "ch_ptype (cmn f) = PT_ARP" "arp_op (f_arp f) = ARPOP_REPLY" "arp_spa (f_arp f) = spa" "arp_sha (f_arp f) = sha"
  obtains s' e where "ll_recv c r (deliver r f s) = Inr s'" "l_acts s' = l_acts s @ [SchedDown p, LFree r]"
    "mac_macDA (f_mac (l_mem s' p)) = sha" "arplookup spa (l_arp s') = Some e" "ae_up e" "ae_macaddr e = sha"
proof -
  define s0 where "s0 = deliver r f s"
  define ent where "ent = (arp_entry_new spa)\<lparr>ae_count := 1, ae_hold := Some p, ae_macaddr := sha, ae_up := True\<rparr>"
  have i: "ae_ipaddr (arp_entry_new spa) = spa" by (simp add: arp_entry_new_def)
  have tab: "arp_update spa (\<lambda>a. a\<lparr>ae_macaddr := sha, ae_up := True\<rparr>) (arp_ensure spa (l_arp s)) = ent # tab"
    using assms(3) i by (simp add: arp_ensure_def ent_def)
  define s1 where "s1 = s0\<lparr>l_arp := ent # tab\<rparr>"
  define s2 where "s2 = (l_act (SchedDown p) (l_write p (mac_set_dst sha) s1))\<lparr>l_arp := ent\<lparr>ae_hold := None\<rparr> # tab\<rparr>"
  have m: "l_mem s1 p = l_mem s p" using assms(5) by (simp add: s1_def s0_def)
  have rel: "arp_release c spa sha s1 = Inr s2"
    using assms(4) m i by (simp add: arp_release_def s2_def) (simp add: s1_def ent_def)
  have e: "ll_recv c r s0 = Inr (l_act (LFree r) s2)"
    using assms rel tab by (simp add: ll_recv_def arpinput_def Let_def s0_def s1_def)
  show ?thesis
    by (rule that [OF e [unfolded s0_def], of "ent\<lparr>ae_hold := None\<rparr>"])
      (use assms(6) in \<open>simp_all add: s2_def s1_def s0_def ent_def arp_entry_new_def mac_set_dst_def\<close>)
qed

text \<open>
  C37: The address resolution protocol works end to end.  Node A sends a packet to a node B
  it has no entry for; the packet is held and a broadcast request goes down.  When B receives
  that request it learns A's address and turns it into a reply addressed to A; when A
  receives the reply, the held packet goes down with B's MAC address as destination, and the
  next packet for B is sent at once.
\<close>

theorem arp_exchange:
  assumes a: "c_initialized ca" "c_arptable ca" "0 \<le> c_mac ca"
    and b: "c_initialized cb" "c_arptable cb" "0 \<le> c_mac cb" "c_node cb \<noteq> IP_BROADCAST"
    and p: "p < l_next sa" "ch_direction (cmn (l_mem sa p)) \<noteq> DIR_UP" "ch_addr_type (cmn (l_mem sa p)) = NS_AF_INET"
      "ch_next_hop (cmn (l_mem sa p)) = c_node cb"
    and none: "arplookup (c_node cb) (l_arp sa) = None" "arplookup (c_node ca) (l_arp sb) = None"
    and qr: "r > l_next sa"
  shows "\<exists>sa1 sb1 sa2 e. ll_recv ca p sa = Inr sa1 \<and> l_acts sa1 = l_acts sa @ [SchedDown (l_next sa)] \<and>
     mac_macDA (f_mac (l_mem sa1 (l_next sa))) = MAC_BROADCAST \<and>
     ll_recv cb q (deliver q (l_mem sa1 (l_next sa)) sb) = Inr sb1 \<and>
     l_acts sb1 = l_acts sb @ [SchedDown q] \<and> mac_macDA (f_mac (l_mem sb1 q)) = c_mac ca \<and>
     map_option ae_macaddr (arplookup (c_node ca) (l_arp sb1)) = Some (c_mac ca) \<and>
     ll_recv ca r (deliver r (l_mem sb1 q) sa1) = Inr sa2 \<and>
     l_acts sa2 = l_acts sa1 @ [SchedDown p, LFree r] \<and> mac_macDA (f_mac (l_mem sa2 p)) = c_mac cb \<and>
     arplookup (c_node cb) (l_arp sa2) = Some e \<and> ae_up e \<and> ae_macaddr e = c_mac cb \<and>
     fst (arpresolve ca (c_node cb) x sa2) = 0 \<and>
     mac_macDA (f_mac (l_mem (snd (arpresolve ca (c_node cb) x sa2)) x)) = c_mac cb"
proof -
  obtain sa1 where s1: "ll_recv ca p sa = Inr sa1" "l_acts sa1 = l_acts sa @ [SchedDown (l_next sa)]"
    "l_mem sa1 (l_next sa) = arp_request_frame ca (c_node ca) (c_node cb) frame_alloc"
    "held_for ca (c_node cb) (l_mem sa1 p)"
    "l_arp sa1 = (arp_entry_new (c_node cb))\<lparr>ae_count := 1, ae_hold := Some p\<rparr> # l_arp sa"
    using exchange_send [OF a(1,2) b(4) none(1) p(1-4)] by metis
  define f where "f = l_mem sa1 (l_next sa)"
  have f: "f_arp f = \<lparr>arp_hrd = 1, arp_pro = ETHERTYPE_IP, arp_hln = 6, arp_pln = 4, arp_op = ARPOP_REQUEST,
      arp_sha = c_mac ca, arp_spa = c_node ca, arp_tha = 0, arp_tpa = c_node cb\<rparr>"
    "mac_macDA (f_mac f) = MAC_BROADCAST" "ch_ptype (cmn f) = PT_ARP"
    unfolding f_def s1(3) by (rule request_frame_simps [OF a(3)])+
  obtain sb1 where s2: "ll_recv cb q (deliver q f sb) = Inr sb1" "l_acts sb1 = l_acts sb @ [SchedDown q]"
    "f_arp (l_mem sb1 q) = (f_arp f)\<lparr>arp_op := ARPOP_REPLY, arp_tha := c_mac ca, arp_sha := c_mac cb,
       arp_spa := c_node cb, arp_tpa := c_node ca\<rparr>"
    "mac_macDA (f_mac (l_mem sb1 q)) = c_mac ca" "ch_ptype (cmn (l_mem sb1 q)) = PT_ARP"
    "map_option ae_macaddr (arplookup (c_node ca) (l_arp sb1)) = Some (c_mac ca)"
    using exchange_answer [OF b(1,2) none(2) a(3) f(3), of q] f(1) by auto
  have rp: "r \<noteq> p" using p(1) qr by simp
  have g: "arp_op (f_arp (l_mem sb1 q)) = ARPOP_REPLY" "arp_spa (f_arp (l_mem sb1 q)) = c_node cb"
    "arp_sha (f_arp (l_mem sb1 q)) = c_mac cb" using s2(3) by simp_all
  obtain sa2 e where s3: "ll_recv ca r (deliver r (l_mem sb1 q) sa1) = Inr sa2"
    "l_acts sa2 = l_acts sa1 @ [SchedDown p, LFree r]" "mac_macDA (f_mac (l_mem sa2 p)) = c_mac cb"
    "arplookup (c_node cb) (l_arp sa2) = Some e" "ae_up e" "ae_macaddr e = c_mac cb"
    using exchange_release [OF a(1,2) s1(5,4) rp b(3) s2(5) g] by metis
  have "fst (arpresolve ca (c_node cb) x sa2) = 0"
    "mac_macDA (f_mac (l_mem (snd (arpresolve ca (c_node cb) x sa2)) x)) = c_mac cb"
    using s3(4-6) b(3) by (simp_all add: arpresolve_def mac_set_dst_def)
  then show ?thesis using s1(1,2) f(2) s2(1,2,4,6) s3 unfolding f_def by blast
qed

lemma arp_exchange_witness:
  "\<exists>sa1 sb1 sa2. ll_recv (demo_cfg 1 10) 3 demo_link = Inr sa1 \<and>
     ll_recv (demo_cfg 2 20) 6 (deliver 6 (l_mem sa1 5) demo_link) = Inr sb1 \<and>
     ll_recv (demo_cfg 1 10) 7 (deliver 7 (l_mem sb1 6) sa1) = Inr sa2 \<and>
     mac_macDA (f_mac (l_mem sa2 3)) = 20"
proof -
  have "l_next demo_link = 5" "l_arp demo_link = []" "ch_direction (cmn (l_mem demo_link 3)) = DIR_DOWN"
    "ch_addr_type (cmn (l_mem demo_link 3)) = NS_AF_INET" "ch_next_hop (cmn (l_mem demo_link 3)) = 2"
    by (simp_all add: demo_link_def set_cmn_def frame_alloc_def packet_alloc_bits_def packet_init_def packet.defs)
  then show ?thesis
    using arp_exchange [of "demo_cfg 1 10" "demo_cfg 2 20" 3 demo_link demo_link 7 6 0] by auto
qed

text \<open>
  The virtual ARP table is a map: after the command mac-addr n m (m not negative) the
  address of n is m and every other address that was set is unchanged, however often the
  table had to grow; resolving an address beyond the table fails cleanly, except for the one
  equal to its size, which reads past the end of the array.
\<close>

theorem varp_set_get:
  assumes "varp_ok v" "0 \<le> n" "0 \<le> m"
  shows "\<exists>v'. varp_mac_addr n m v = Inr v' \<and> varp_ok v' \<and> varp_lookup n v' = Inr (Some m) \<and>
     (\<forall>k. k \<noteq> n \<longrightarrow> (\<forall>x. varp_lookup k v = Inr (Some x) \<longrightarrow> varp_lookup k v' = Inr (Some x))) \<and>
     (\<forall>k. k > va_size v' \<longrightarrow> varp_lookup k v' = Inr None) \<and> varp_lookup (va_size v') v' = Inl VarpOutOfBounds"
proof -
  define v1 where "v1 = (if n < va_size v then v else varp_sizeinit n v)"
  define v' where "v' = v1\<lparr>va_maddr := (va_maddr v1)[nat n := m]\<rparr>"
  have e: "varp_mac_addr n m v = Inr v'" using assms(2) by (simp add: varp_mac_addr_def Let_def v'_def v1_def)
  have o1: "varp_ok v1" "n < va_size v1" "va_size v \<le> va_size v1"
    using assms(1) varp_sizeinit_ok(1-3) [OF assms(1,2)] by (auto simp: v1_def)
  have nth1: "va_maddr v1 ! i = va_maddr v ! i" if "i < length (va_maddr v)" for i
    using that varp_sizeinit_ok(4) [OF assms(1,2)] by (simp add: v1_def)
  have o2: "varp_ok v'" "va_size v' = va_size v1" using o1(1) by (simp_all add: v'_def varp_ok_def)
  have "varp_lookup n v' = Inr (Some m)"
    using o1 assms(2,3) by (simp add: varp_lookup_def v'_def varp_ok_def)
  moreover have "varp_lookup k v' = Inr (Some x)" if "k \<noteq> n" "varp_lookup k v = Inr (Some x)" for k x
  proof -
    have k: "0 \<le> k" "k < va_size v" "va_maddr v ! nat k = x" "0 \<le> x"
      using that(2) by (auto simp: varp_lookup_def Let_def split: if_splits)
    have "nat k < length (va_maddr v)" "nat k \<noteq> nat n" using k assms(1,2) that(1) by (auto simp: varp_ok_def)
    then have "va_maddr v' ! nat k = x" using nth1 k(3) by (simp add: v'_def)
    then show ?thesis using k o1(3) o2(2) by (simp add: varp_lookup_def)
  qed
  moreover have "varp_lookup (va_size v') v' = Inl VarpOutOfBounds" by (simp add: varp_lookup_def)
  ultimately show ?thesis using e o2(1) by (auto simp: varp_lookup_def [of _ v'])
qed

lemma varp_set_get_witness:
  "\<exists>v'. varp_mac_addr 12 7 \<lparr>va_maddr = [], va_size = 0\<rparr> = Inr v' \<and> varp_lookup 12 v' = Inr (Some 7)"
  using varp_set_get [of "\<lparr>va_maddr = [], va_size = 0\<rparr>" 12 7] by (auto simp: varp_ok_def)

end
