(* ===== verification/Address.thy ===== *)
theory Address
  imports Prelude "HOL-Library.Word"
begin

text \<open>
  Node addresses: \<open>AllocAddr\<close> (routing/alloc-address.cc), which hands out contiguous bit
  fields of the address word, and \<open>Address\<close> (routing/address.h, routing/address.cc), which
  converts between addresses and their dotted text form, with the tokenizer of
  \<open>RouteLogic\<close> (routing/route.cc) and the C library's \<open>atoi\<close> and \<open>sprintf\<close> of integers.
  Addresses are 32-bit words, read as signed where the code prints or shifts them.
\<close>

unbundle bit_operations_syntax

section \<open>Integers as text\<close>

definition digit_char :: "nat \<Rightarrow> char" where
  "digit_char d = char_of (48 + d)"

definition is_digit :: "char \<Rightarrow> bool" where
  "is_digit c \<longleftrightarrow> 48 \<le> (of_char c :: nat) \<and> (of_char c :: nat) \<le> 57"

definition digit_val :: "char \<Rightarrow> int" where
  "digit_val c = of_char c - 48"

fun print_nat :: "nat \<Rightarrow> string" where
  "print_nat n = (if n < 10 then [digit_char n] else print_nat (n div 10) @ [digit_char (n mod 10)])"

declare print_nat.simps [simp del]

definition print_int :: "int \<Rightarrow> string" where
  "print_int i = (if i < 0 then CHR ''-'' # print_nat (nat (- i)) else print_nat (nat i))"

definition is_space :: "char \<Rightarrow> bool" where
  "is_space c \<longleftrightarrow> (of_char c :: nat) = 32 \<or> 9 \<le> (of_char c :: nat) \<and> (of_char c :: nat) \<le> 13"

definition digits_val :: "string \<Rightarrow> int" where
  "digits_val s = foldl (\<lambda>v c. 10 * v + digit_val c) 0 (takeWhile is_digit s)"

definition atoi :: "string \<Rightarrow> int" where
  "atoi s =
     (case dropWhile is_space s of
        c # t \<Rightarrow> if c = CHR ''-'' then - digits_val t else if c = CHR ''+'' then digits_val t else digits_val (c # t)
      | [] \<Rightarrow> 0)"

lemma digit_char_simps:
  assumes "d < 10"
  shows "is_digit (digit_char d)" "digit_val (digit_char d) = int d" "\<not> is_space (digit_char d)"
    "digit_char d \<noteq> CHR ''-''" "digit_char d \<noteq> CHR ''+''" "digit_char d \<noteq> CHR ''.''"
proof -
  have o: "(of_char (digit_char d) :: nat) = 48 + d" using assms by (simp add: digit_char_def)
  then show "is_digit (digit_char d)" "\<not> is_space (digit_char d)" using assms by (auto simp: is_digit_def is_space_def)
  have "digit_val (digit_char d) = int (of_char (digit_char d)) - 48"
    by (simp add: digit_val_def of_nat_of_char)
  then show "digit_val (digit_char d) = int d" using o by simp
  have "(of_char (CHR ''-'') :: nat) = 45" "(of_char (CHR ''+'') :: nat) = 43" "(of_char (CHR ''.'') :: nat) = 46" by simp_all
  then show "digit_char d \<noteq> CHR ''-''" "digit_char d \<noteq> CHR ''+''" "digit_char d \<noteq> CHR ''.''" using o by auto
qed

lemma print_nat_digits:
  "(\<forall>c \<in> set (print_nat n). is_digit c \<and> c \<noteq> CHR ''.'') \<and> print_nat n \<noteq> [] \<and>
   foldl (\<lambda>v c. 10 * v + digit_val c) 0 (print_nat n) = int n"
proof (induction n rule: print_nat.induct)
  case (1 n)
  show ?case
  proof (cases "n < 10")
    case True
    then show ?thesis by (simp add: print_nat.simps digit_char_simps)
  next
    case False
    have m: "n mod 10 < 10" by simp
    have e: "print_nat n = print_nat (n div 10) @ [digit_char (n mod 10)]" using False by (simp add: print_nat.simps [of n])
    have "10 * int (n div 10) + int (n mod 10) = int n" by (simp add: zdiv_int zmod_int)
    then show ?thesis using 1 [OF False] digit_char_simps [OF m] by (simp add: e)
  qed
qed

lemma digits_val_print: "digits_val (print_nat n) = int n"
proof -
  have tw: "takeWhile is_digit (print_nat n) = print_nat n" using print_nat_digits by (simp add: takeWhile_eq_all_conv)
  show ?thesis unfolding digits_val_def tw using print_nat_digits [of n] by blast
qed

lemma print_nat_head:
  obtains c t where "print_nat n = c # t" "\<not> is_space c" "c \<noteq> CHR ''-''" "c \<noteq> CHR ''+''"
proof -
  obtain c t where ct: "print_nat n = c # t" using print_nat_digits [of n] by (cases "print_nat n") auto
  then have "is_digit c" using print_nat_digits [of n] by auto
  then have "\<not> is_space c" "c \<noteq> CHR ''-''" "c \<noteq> CHR ''+''" by (auto simp: is_digit_def is_space_def)
  then show ?thesis using that ct by blast
qed

text \<open>\<open>atoi\<close> reads back what \<open>sprintf("%d")\<close> wrote.\<close>

lemma atoi_print_int [simp]: "atoi (print_int i) = i"
proof (cases "i < 0")
  case True
  have "\<not> is_space (CHR ''-'')" by (simp add: is_space_def)
  then show ?thesis using True digits_val_print [of "nat (- i)"] by (simp add: print_int_def atoi_def)
next
  case False
  obtain c t where ct: "print_nat (nat i) = c # t" "\<not> is_space c" "c \<noteq> CHR ''-''" "c \<noteq> CHR ''+''"
    by (rule print_nat_head)
  then show ?thesis using False digits_val_print [of "nat i"] by (simp add: print_int_def atoi_def)
qed

lemma print_int_no_dot: "CHR ''.'' \<notin> set (print_int i)" "print_int i \<noteq> []"
  using print_nat_digits [of "nat i"] print_nat_digits [of "nat (- i)"] by (auto simp: print_int_def)

section \<open>Fields of an address\<close>

record address =
  a_levels :: nat
  a_shift :: "nat list"
  a_mask :: "32 word list"
  a_bpl :: "nat list"

datatype addr_error = AddrOutOfRange | AddrNegativeField | AddrUndefined

definition set_word_field :: "32 word \<Rightarrow> 32 word \<Rightarrow> nat \<Rightarrow> 32 word \<Rightarrow> 32 word" where
  "set_word_field w field shift msk = (push_bit shift (field AND msk)) OR (NOT (push_bit shift msk) AND w)"

text \<open>\<open>hier_addr\<close>; levels count from 1, and -1 is returned for a level that does not exist.\<close>

definition hier_addr :: "address \<Rightarrow> 32 word \<Rightarrow> nat \<Rightarrow> 32 word" where
  "hier_addr A w level =
     (if level \<le> a_levels A then signed_drop_bit (a_shift A ! (level - 1)) w AND a_mask A ! (level - 1) else -1)"

definition print_field :: "address \<Rightarrow> 32 word \<Rightarrow> nat \<Rightarrow> int" where
  "print_field A w i =
     (let a = signed_drop_bit (a_shift A ! i) w
      in sint (if a_levels A > 1 then a AND a_mask A ! i else a))"

text \<open>\<open>print_nodeaddr\<close>: every field followed by a dot, the last dot cut off.\<close>

definition print_nodeaddr :: "address \<Rightarrow> 32 word \<Rightarrow> string" where
  "print_nodeaddr A w =
     butlast (concat (List.map (\<lambda>i. print_int (print_field A w i) @ ''.'') [0 ..< a_levels A]))"

text \<open>\<open>RouteLogic::ns_strtok\<close>: the numbers between the dots, each plus one.\<close>

function ns_strtok :: "string \<Rightarrow> int list" where
  "ns_strtok s =
     (if s = [] then []
      else if CHR ''.'' \<in> set s
      then (atoi (takeWhile (\<lambda>c. c \<noteq> CHR ''.'') s) + 1) # ns_strtok (drop 1 (dropWhile (\<lambda>c. c \<noteq> CHR ''.'') s))
      else [atoi s + 1])"
  by auto
termination
proof (relation "measure length", simp)
  fix s :: string
  assume "s \<noteq> []" "CHR ''.'' \<in> set s"
  then have "dropWhile (\<lambda>c. c \<noteq> CHR ''.'') s \<noteq> []" by (auto simp: dropWhile_eq_Nil_conv)
  then show "(drop 1 (dropWhile (\<lambda>c. c \<noteq> CHR ''.'') s), s) \<in> measure length"
    using length_dropWhile_le [of "\<lambda>c. c \<noteq> CHR ''.''" s] by (cases "dropWhile (\<lambda>c. c \<noteq> CHR ''.'') s") auto
qed

declare ns_strtok.simps [simp del]

text \<open>
  The range check of \<open>str2addr\<close>: \<open>v > (unsigned long) (1 << bpl)\<close>, where the shift of a
  signed int by 31 gives the smallest int and a larger shift is undefined.
\<close>

definition out_of_field :: "int \<Rightarrow> nat \<Rightarrow> bool" where
  "out_of_field v b \<longleftrightarrow> v > (if b = 31 then 2 ^ 64 - 2 ^ 31 else 2 ^ b)"

fun store_fields :: "address \<Rightarrow> nat \<Rightarrow> int list \<Rightarrow> 32 word \<Rightarrow> (addr_error, 32 word) result" where
  "store_fields A i [] w = Inr w"
| "store_fields A i (v # vs) w =
     (if v - 1 < 0 then Inl AddrNegativeField
      else if out_of_field (v - 1) (a_bpl A ! i) then Inl AddrOutOfRange
      else store_fields A (Suc i) vs (set_word_field w (word_of_int (v - 1)) (a_shift A ! i) (a_mask A ! i)))"

definition str2addr :: "address \<Rightarrow> string \<Rightarrow> (addr_error, 32 word) result" where
  "str2addr A s =
     (if a_levels A < 2 then
        let tmp = atoi s
        in if tmp < 0 then Inr (word_of_int tmp)
           else if out_of_field tmp (a_bpl A ! 0) then Inl AddrOutOfRange
           else Inr (word_of_int tmp)
      else if length (ns_strtok s) \<noteq> a_levels A then Inl AddrUndefined
      else store_fields A 0 (ns_strtok s) 0)"

definition get_nodeaddr :: "address \<Rightarrow> 32 word \<Rightarrow> (addr_error, 32 word) result" where
  "get_nodeaddr A w = str2addr A (print_nodeaddr A w)"

section \<open>Printing and reading back\<close>

lemma strtok_single: "ns_strtok (print_int v) = [v + 1]"
  using print_int_no_dot [of v] by (simp add: ns_strtok.simps)

lemma strtok_cons: "ns_strtok (print_int v @ CHR ''.'' # s) = (v + 1) # ns_strtok s"
proof -
  let ?s = "print_int v @ CHR ''.'' # s"
  have t: "takeWhile (\<lambda>c. c \<noteq> CHR ''.'') ?s = print_int v" "dropWhile (\<lambda>c. c \<noteq> CHR ''.'') ?s = CHR ''.'' # s"
    using print_int_no_dot(1) [of v] by (auto simp: takeWhile_append dropWhile_append)
  show ?thesis by (subst ns_strtok.simps) (simp add: t)
qed

lemma strtok_print:
  "vs \<noteq> [] \<Longrightarrow> ns_strtok (butlast (concat (List.map (\<lambda>v. print_int v @ ''.'') vs))) = List.map (\<lambda>v. v + 1) vs"
proof (induction vs)
  case Nil
  then show ?case by simp
next
  case (Cons v vs)
  show ?case
  proof (cases vs)
    case Nil
    then show ?thesis by (simp add: butlast_append strtok_single)
  next
    case (Cons u us)
    then have ne: "concat (List.map (\<lambda>v. print_int v @ ''.'') vs) \<noteq> []" by simp
    then show ?thesis using Cons.IH Cons by (simp add: butlast_append strtok_cons)
  qed
qed

text \<open>A single-level address is printed and read back as one signed integer.\<close>

lemma flat_roundtrip:
  assumes "a_levels A = 1" "a_shift A ! 0 = 0"
  shows "get_nodeaddr A w = (if 0 \<le> sint w \<and> out_of_field (sint w) (a_bpl A ! 0) then Inl AddrOutOfRange else Inr w)"
proof -
  have p: "print_nodeaddr A w = print_int (sint w)"
    using assms by (simp add: print_nodeaddr_def print_field_def Let_def butlast_append)
  show ?thesis unfolding get_nodeaddr_def p str2addr_def Let_def using assms(1) by simp
qed

section \<open>Fields of a hierarchical address\<close>

definition fields_ok :: "address \<Rightarrow> bool" where
  "fields_ok A \<longleftrightarrow> 2 \<le> a_levels A \<and> length (a_shift A) = a_levels A \<and> length (a_mask A) = a_levels A \<and>
     length (a_bpl A) = a_levels A \<and>
     (\<forall>i < a_levels A. a_bpl A ! i < 32 \<and> a_shift A ! i + a_bpl A ! i \<le> 32 \<and> a_mask A ! i = mask (a_bpl A ! i))"

definition in_field :: "address \<Rightarrow> nat \<Rightarrow> nat \<Rightarrow> bool" where
  "in_field A i n \<longleftrightarrow> a_shift A ! i \<le> n \<and> n < a_shift A ! i + a_bpl A ! i"

lemma field_bits:
  assumes "b < 32" "s + b \<le> 32"
  shows "bit (signed_drop_bit s (w :: 32 word) AND mask b) n \<longleftrightarrow> n < b \<and> bit w (s + n)"
  using assms by (auto simp: bit_and_iff bit_mask_iff bit_signed_drop_bit_iff)

lemma field_range:
  assumes "b < 32"
  shows "0 \<le> sint (x AND mask b :: 32 word)" "sint (x AND mask b :: 32 word) < 2 ^ b"
proof -
  have t: "x AND mask b = take_bit b x" by (simp add: take_bit_eq_mask)
  have "uint (take_bit b x) < 2 ^ b" by (simp add: unsigned_take_bit_eq)
  moreover have "sint (take_bit b x) = uint (take_bit b x)"
  proof -
    have "\<not> bit (take_bit b x) 31" using assms by (simp add: bit_take_bit_iff)
    moreover have "min 31 b = b" using assms by simp
    ultimately show ?thesis by (simp add: sint_uint signed_take_bit_eq_if_positive bit_uint_iff flip: unsigned_take_bit_eq)
  qed
  ultimately show "0 \<le> sint (x AND mask b)" "sint (x AND mask b) < 2 ^ b" unfolding t by simp_all
qed

lemma set_word_field_bit:
  "bit (set_word_field w f s m) n \<longleftrightarrow> n < 32 \<and> (if s \<le> n \<and> bit m (n - s) then bit f (n - s) else bit w n)"
  by (auto simp: set_word_field_def bit_or_iff bit_and_iff bit_not_iff bit_push_bit_iff possible_bit_def
      dest: bit_imp_le_length)

lemma print_field_ok:
  assumes "fields_ok A" "i < a_levels A"
  shows "print_field A w i = sint (signed_drop_bit (a_shift A ! i) w AND mask (a_bpl A ! i))"
    "0 \<le> print_field A w i" "\<not> out_of_field (print_field A w i) (a_bpl A ! i)"
proof -
  have b: "a_bpl A ! i < 32" "a_mask A ! i = mask (a_bpl A ! i)" "1 < a_levels A"
    using assms by (auto simp: fields_ok_def)
  show e: "print_field A w i = sint (signed_drop_bit (a_shift A ! i) w AND mask (a_bpl A ! i))"
    using b by (simp add: print_field_def Let_def)
  note r = field_range [OF b(1), of "signed_drop_bit (a_shift A ! i) w"]
  show "0 \<le> print_field A w i" using e r by simp
  have "print_field A w i < 2 ^ (a_bpl A ! i)" using e r by simp
  moreover have "(2 :: int) ^ 31 \<le> 2 ^ 64 - 2 ^ 31" by simp
  ultimately show "\<not> out_of_field (print_field A w i) (a_bpl A ! i)" by (auto simp: out_of_field_def)
qed

lemma store_fields_bits:
  assumes ok: "fields_ok A"
  shows "i + length vs = a_levels A \<Longrightarrow> vs = List.map (\<lambda>j. print_field A w j + 1) [i ..< a_levels A] \<Longrightarrow>
    \<exists>r. store_fields A i vs acc = Inr r \<and>
      (\<forall>n < 32. bit r n \<longleftrightarrow> (if \<exists>j. i \<le> j \<and> j < a_levels A \<and> in_field A j n then bit w n else bit acc n))"
proof (induction vs arbitrary: i acc)
  case Nil
  then show ?case by auto
next
  case (Cons v vs)
  have i: "i < a_levels A" using Cons.prems(1) by simp
  then have up: "[i ..< a_levels A] = i # [Suc i ..< a_levels A]" by (rule upt_conv_Cons)
  have v: "v = print_field A w i + 1" "vs = List.map (\<lambda>j. print_field A w j + 1) [Suc i ..< a_levels A]"
    using Cons.prems(2) unfolding up by simp_all
  note pf = print_field_ok [OF ok i, of w]
  have b: "a_bpl A ! i < 32" "a_shift A ! i + a_bpl A ! i \<le> 32" "a_mask A ! i = mask (a_bpl A ! i)"
    using ok i by (auto simp: fields_ok_def)
  define x where "x = signed_drop_bit (a_shift A ! i) w AND mask (a_bpl A ! i)"
  have wx: "word_of_int (v - 1) = x" using v(1) pf(1) by (simp add: x_def)
  define acc' where "acc' = set_word_field acc x (a_shift A ! i) (a_mask A ! i)"
  have step: "store_fields A i (v # vs) acc = store_fields A (Suc i) vs acc'"
    using pf(2,3) v(1) wx by (simp add: acc'_def)
  have acc': "bit acc' n \<longleftrightarrow> (if in_field A i n then bit w n else bit acc n)" if "n < 32" for n
    using that b field_bits [OF b(1,2), of w "n - a_shift A ! i"]
    by (auto simp: acc'_def set_word_field_bit in_field_def bit_mask_iff x_def)
  obtain r where r: "store_fields A (Suc i) vs acc' = Inr r"
    "\<forall>n < 32. bit r n \<longleftrightarrow> (if \<exists>j. Suc i \<le> j \<and> j < a_levels A \<and> in_field A j n then bit w n else bit acc' n)"
    using Cons.IH [of "Suc i" acc'] Cons.prems(1) v(2) by auto
  have "(\<exists>j. i \<le> j \<and> j < a_levels A \<and> in_field A j n) \<longleftrightarrow>
      in_field A i n \<or> (\<exists>j. Suc i \<le> j \<and> j < a_levels A \<and> in_field A j n)" for n
    by (metis Suc_leD Suc_leI i le_neq_implies_less order_refl)
  then show ?case using step r acc' by auto
qed

lemma hierarchical_roundtrip:
  assumes ok: "fields_ok A"
  shows "\<exists>r. get_nodeaddr A w = Inr r \<and>
     (\<forall>n < 32. bit r n \<longleftrightarrow> bit w n \<and> (\<exists>j < a_levels A. in_field A j n))"
proof -
  have l: "2 \<le> a_levels A" using ok by (simp add: fields_ok_def)
  define vs where "vs = List.map (\<lambda>j. print_field A w j) [0 ..< a_levels A]"
  have "print_nodeaddr A w = butlast (concat (List.map (\<lambda>v. print_int v @ ''.'') vs))"
    by (simp add: print_nodeaddr_def vs_def comp_def)
  then have tok: "ns_strtok (print_nodeaddr A w) = List.map (\<lambda>j. print_field A w j + 1) [0 ..< a_levels A]"
    using strtok_print [of vs] l by (simp add: vs_def comp_def)
  obtain r where "store_fields A 0 (ns_strtok (print_nodeaddr A w)) 0 = Inr r"
    "\<forall>n < 32. bit r n \<longleftrightarrow> (if \<exists>j. 0 \<le> j \<and> j < a_levels A \<and> in_field A j n then bit w n else bit (0 :: 32 word) n)"
    using store_fields_bits [OF ok, of 0 _ w 0] tok by auto
  then show ?thesis using l tok by (auto simp: get_nodeaddr_def str2addr_def)
qed

end
