(* ===== verification/AddrAlloc.thy ===== *)
theory AddrAlloc
  imports Address
begin

text \<open>
  \<open>AllocAddr\<close> (routing/alloc-address.cc): the bit map of the address word from which the
  script allocates the multicast bit and the fields of every level, and the properties of
  addresses built from such fields.
\<close>

section \<open>The bit map\<close>

record alloc_addr =
  aa_size :: int
  aa_bitmap :: "bool list"

datatype alloc_error = SizeIncreased | NoSpace | AssertFailed

definition aa_new :: alloc_addr where
  "aa_new = \<lparr>aa_size = 0, aa_bitmap = []\<rparr>"

definition aa_alloc :: "int \<Rightarrow> alloc_addr" where
  "aa_alloc n = \<lparr>aa_size = n, aa_bitmap = replicate (nat n) False\<rparr>"

definition aa_check_size :: "int \<Rightarrow> alloc_addr \<Rightarrow> (alloc_error, alloc_addr) result" where
  "aa_check_size n s =
     (if n \<le> aa_size s then Inr s
      else if \<not> n > 0 then Inl AssertFailed
      else if aa_size s = 0 then Inr (aa_alloc n)
      else Inl SizeIncreased)"

definition aa_get_mask :: "nat \<Rightarrow> 32 word" where
  "aa_get_mask fieldsize = push_bit fieldsize 1 - 1"

text \<open>The inner loop of \<open>find_free\<close>: the index and the count when it stops.\<close>

fun free_run :: "bool list \<Rightarrow> nat \<Rightarrow> int \<Rightarrow> int \<Rightarrow> int \<times> int" where
  "free_run bm 0 i cnt = (i, cnt)"
| "free_run bm (Suc k) i cnt =
     (if i < 0 then (i, cnt)
      else if bm ! nat i then (i, 0)
      else free_run bm k (i - 1) (cnt + 1))"

lemma free_run_le: "fst (free_run bm k i cnt) \<le> i"
proof (induction k arbitrary: i cnt)
  case 0
  then show ?case by simp
next
  case (Suc k)
  have "fst (free_run bm k (i - 1) (cnt + 1)) \<le> i" using Suc.IH [of "i - 1" "cnt + 1"] by linarith
  then show ?case by simp
qed

function find_free :: "bool list \<Rightarrow> nat \<Rightarrow> int \<Rightarrow> int \<Rightarrow> int option" where
  "find_free bm len i cnt =
     (if i < 0 then None
      else if bm ! nat i then find_free bm len (i - 1) cnt
      else let (i', c) = free_run bm len i cnt
           in if c = int len then Some i else find_free bm len (i' - 1) c)"
  by auto
termination
proof (relation "measure (\<lambda>(bm, len, i, cnt). nat (i + 1))", goal_cases)
  case 1
  then show ?case by simp
next
  case (2 bm len i cnt)
  then show ?case by simp
next
  case (3 bm len i cnt x i' c)
  then have "i' \<le> i" using free_run_le [of bm len i cnt] by (metis fst_conv)
  then show ?case using 3 by simp
qed

declare find_free.simps [simp del]

definition aa_find_free :: "nat \<Rightarrow> alloc_addr \<Rightarrow> int option" where
  "aa_find_free len s = find_free (aa_bitmap s) len (aa_size s - 1) 0"

fun mark_down :: "nat \<Rightarrow> int \<Rightarrow> bool list \<Rightarrow> bool list" where
  "mark_down 0 i bm = bm"
| "mark_down (Suc k) i bm = mark_down k (i - 1) (bm[nat i := True])"

definition aa_set_field :: "int \<Rightarrow> nat \<Rightarrow> alloc_addr \<Rightarrow> (32 word \<times> int) \<times> alloc_addr" where
  "aa_set_field offset len s =
     ((aa_get_mask len, offset - (int len - 1)), s\<lparr>aa_bitmap := mark_down len offset (aa_bitmap s)\<rparr>)"

text \<open>The command \<open>setbit len size\<close>: the mask and the shift of the new field.\<close>

definition aa_setbit :: "nat \<Rightarrow> int \<Rightarrow> alloc_addr \<Rightarrow> (alloc_error, (32 word \<times> int) \<times> alloc_addr) result" where
  "aa_setbit len addrsize s =
     bind_res (aa_check_size addrsize s) (\<lambda>s1.
       case aa_find_free len s1 of
         None \<Rightarrow> Inl NoSpace
       | Some offset \<Rightarrow> Inr (aa_set_field offset len s1))"

definition aa_expand_port :: "nat \<Rightarrow> int \<Rightarrow> nat \<Rightarrow> alloc_addr \<Rightarrow> (alloc_error, (32 word \<times> int) \<times> alloc_addr) result" where
  "aa_expand_port len addrsize oldlen s =
     bind_res (aa_check_size addrsize s) (\<lambda>s1.
       case aa_find_free len s1 of
         None \<Rightarrow> Inl NoSpace
       | Some offset \<Rightarrow> Inr ((aa_get_mask (len + oldlen), offset - (int len - 1)),
                            s1\<lparr>aa_bitmap := mark_down len offset (aa_bitmap s1)\<rparr>))"

text \<open>\<open>free_field\<close> clears the lowest \<open>len\<close> bits that are set, whichever field they belong to.\<close>

fun free_low :: "nat \<Rightarrow> bool list \<Rightarrow> bool list" where
  "free_low k [] = []"
| "free_low k (b # bm) =
     (let k' = (if b then k - 1 else k)
      in if b \<and> k' = 0 then False # bm else False # free_low k' bm)"

definition aa_free_field :: "nat \<Rightarrow> alloc_addr \<Rightarrow> alloc_addr" where
  "aa_free_field len s = s\<lparr>aa_bitmap := free_low len (aa_bitmap s)\<rparr>"

section \<open>The search finds the highest free field\<close>

definition aa_ok :: "alloc_addr \<Rightarrow> bool" where
  "aa_ok s \<longleftrightarrow> 0 \<le> aa_size s \<and> int (length (aa_bitmap s)) = aa_size s"

definition free_at :: "bool list \<Rightarrow> nat \<Rightarrow> int \<Rightarrow> bool" where
  "free_at bm len i \<longleftrightarrow> int len \<le> i + 1 \<and> (\<forall>j. i - int len < j \<and> j \<le> i \<longrightarrow> \<not> bm ! nat j)"

lemma free_run_spec:
  "free_run bm k i cnt = (i', c) \<Longrightarrow> -1 \<le> i \<Longrightarrow>
     (if int k \<le> i + 1 \<and> (\<forall>j. i - int k < j \<and> j \<le> i \<longrightarrow> \<not> bm ! nat j)
      then i' = i - int k \<and> c = cnt + int k
      else i' < 0 \<and> i + 1 < int k \<and> c < cnt + int k \<or> 0 \<le> i' \<and> i - int k < i' \<and> bm ! nat i' \<and> c = 0)"
proof (induction k arbitrary: i cnt)
  case 0
  then show ?case by auto
next
  case (Suc k)
  show ?case
  proof (cases "i < 0")
    case True
    then show ?thesis using Suc.prems by auto
  next
    case False
    then have i1: "-1 \<le> i - 1" by simp
    show ?thesis
    proof (cases "bm ! nat i")
      case True
      then have "i' = i" "c = 0" using Suc.prems False by auto
      moreover have "i - int (Suc k) < i" by simp
      then have "\<not> (\<forall>j. i - int (Suc k) < j \<and> j \<le> i \<longrightarrow> \<not> bm ! nat j)" using True by blast
      ultimately show ?thesis using True False by simp
    next
      case nb: False
      have r: "free_run bm k (i - 1) (cnt + 1) = (i', c)" using Suc.prems False nb by simp
      have "(\<forall>j. i - int (Suc k) < j \<and> j \<le> i \<longrightarrow> \<not> bm ! nat j) \<longleftrightarrow>
          (\<forall>j. (i - 1) - int k < j \<and> j \<le> i - 1 \<longrightarrow> \<not> bm ! nat j)"
        (is "?L \<longleftrightarrow> ?R")
      proof
        assume ?L
        then show ?R by auto
      next
        assume R: ?R
        show ?L
        proof (intro allI impI)
          fix j
          assume j: "i - int (Suc k) < j \<and> j \<le> i"
          show "\<not> bm ! nat j"
          proof (cases "j = i")
            case True
            then show ?thesis using nb by simp
          next
            case False
            then show ?thesis using R j by auto
          qed
        qed
      qed
      then show ?thesis using Suc.IH [OF r i1] by (auto split: if_splits)
    qed
  qed
qed

definition free_spec :: "bool list \<Rightarrow> nat \<Rightarrow> int \<Rightarrow> int option \<Rightarrow> bool" where
  "free_spec bm len i r \<longleftrightarrow> (case r of
      Some p \<Rightarrow> free_at bm len p \<and> p \<le> i \<and> (\<forall>q. p < q \<and> q \<le> i \<longrightarrow> \<not> free_at bm len q)
    | None \<Rightarrow> \<forall>q \<le> i. \<not> free_at bm len q)"

lemma free_spec_skip:
  assumes "free_spec bm len j r" "j \<le> i" "\<And>q. j < q \<Longrightarrow> q \<le> i \<Longrightarrow> \<not> free_at bm len q"
  shows "free_spec bm len i r"
proof -
  have "\<not> free_at bm len q" if "q \<le> i" "q \<le> j \<Longrightarrow> \<not> free_at bm len q" for q
    using that assms(3) [of q] by (cases "q \<le> j") auto
  then show ?thesis using assms(1,2) by (auto simp: free_spec_def split: option.splits)
qed

lemma find_free_spec:
  assumes len: "0 < len"
  shows "free_spec bm len i (find_free bm len i 0)"
proof (induction "nat (i + 1)" arbitrary: i rule: less_induct)
  case less
  show ?case
  proof (cases "i < 0")
    case True
    then show ?thesis using len by (auto simp: find_free.simps [of bm len i] free_spec_def free_at_def)
  next
    case i: False
    show ?thesis
    proof (cases "bm ! nat i")
      case True
      have e: "find_free bm len i 0 = find_free bm len (i - 1) 0" using i True by (simp add: find_free.simps [of bm len i])
      have "i - int len < i" using len by simp
      then have ni: "\<not> free_at bm len i" using True unfolding free_at_def by blast
      have nq: "\<not> free_at bm len q" if "i - 1 < q" "q \<le> i" for q
      proof -
        have "q = i" using that by simp
        then show ?thesis using ni by simp
      qed
      have "free_spec bm len (i - 1) (find_free bm len (i - 1) 0)" using less [of "i - 1"] i by simp
      from free_spec_skip [OF this _ nq] show ?thesis unfolding e by simp
    next
      case nb: False
      obtain i' c where r: "free_run bm len i 0 = (i', c)" by force
      have "-1 \<le> i" using i by simp
      note sp = free_run_spec [OF r this, folded free_at_def]
      show ?thesis
      proof (cases "free_at bm len i")
        case True
        then have "find_free bm len i 0 = Some i"
          using sp r i nb by (simp add: find_free.simps [of bm len i])
        then show ?thesis using True by (auto simp: free_spec_def)
      next
        case nf: False
        then have c: "c \<noteq> int len" and d: "i' < 0 \<and> i + 1 < int len \<or> 0 \<le> i' \<and> i - int len < i' \<and> bm ! nat i' \<and> c = 0"
          using sp len by auto
        have e: "find_free bm len i 0 = find_free bm len (i' - 1) c" using r i nb c by (simp add: find_free.simps [of bm len i])
        have le: "i' \<le> i" using free_run_le [of bm len i 0] r by simp
        from d show ?thesis
        proof
          assume neg: "i' < 0 \<and> i + 1 < int len"
          then have "find_free bm len (i' - 1) c = None" by (simp add: find_free.simps)
          moreover have "\<not> free_at bm len q" if "q \<le> i" for q using that neg by (auto simp: free_at_def)
          ultimately show ?thesis using e by (simp add: free_spec_def)
        next
          assume h: "0 \<le> i' \<and> i - int len < i' \<and> bm ! nat i' \<and> c = 0"
          have nq: "\<not> free_at bm len q" if "i' - 1 < q" "q \<le> i" for q
          proof -
            have "q - int len < i'" "i' \<le> q" using that h by linarith+
            then show ?thesis using h unfolding free_at_def by blast
          qed
          have "free_spec bm len (i' - 1) (find_free bm len (i' - 1) 0)" using less [of "i' - 1"] h le by simp
          from free_spec_skip [OF this _ nq] show ?thesis using e h le by simp
        qed
      qed
    qed
  qed
qed

lemma mark_down_spec:
  "int k \<le> i + 1 \<Longrightarrow> i < int (length bm) \<Longrightarrow> length (mark_down k i bm) = length bm \<and>
     (\<forall>n < length bm. mark_down k i bm ! n \<longleftrightarrow> bm ! n \<or> i - int k < int n \<and> int n \<le> i)"
proof (induction k arbitrary: i bm)
  case 0
  then show ?case by auto
next
  case (Suc k)
  have i: "0 \<le> i" "int k \<le> (i - 1) + 1" "i - 1 < int (length (bm[nat i := True]))" using Suc.prems by auto
  have "bm[nat i := True] ! n \<longleftrightarrow> bm ! n \<or> int n = i" if "n < length bm" for n
    using i(1) that by (cases "n = nat i") auto
  then show ?case using Suc.IH [OF i(2,3)] by auto
qed

lemma mask_eq: "aa_get_mask len = mask len"
  by (simp add: aa_get_mask_def mask_eq_exp_minus_1 push_bit_eq_mult)

lemma aa_check_size_ok: "aa_ok s \<Longrightarrow> aa_check_size n s = Inr s1 \<Longrightarrow> aa_ok s1 \<and> n \<le> aa_size s1 \<and>
    (s1 = s \<or> aa_size s = 0 \<and> s1 = aa_alloc n)"
  by (auto simp: aa_check_size_def aa_ok_def aa_alloc_def split: if_splits)

lemma aa_setbit_spec:
  assumes ok: "aa_ok s" and len: "0 < len" and r: "aa_setbit len n s = Inr ((m, sh), s')"
  shows "\<exists>s1. aa_check_size n s = Inr s1 \<and> aa_ok s' \<and> aa_size s' = aa_size s1 \<and> m = mask len \<and> 0 \<le> sh \<and>
    sh + int len \<le> aa_size s' \<and>
    (\<forall>k. sh \<le> int k \<and> int k < sh + int len \<longrightarrow> \<not> aa_bitmap s1 ! k) \<and>
    (\<forall>k. int k < aa_size s' \<longrightarrow> aa_bitmap s' ! k = (aa_bitmap s1 ! k \<or> sh \<le> int k \<and> int k < sh + int len))"
proof -
  obtain s1 p where s1: "aa_check_size n s = Inr s1" and f: "find_free (aa_bitmap s1) len (aa_size s1 - 1) 0 = Some p"
    and s': "s' = s1\<lparr>aa_bitmap := mark_down len p (aa_bitmap s1)\<rparr>" "m = mask len" "sh = p - (int len - 1)"
    using r by (auto simp: aa_setbit_def bind_res_Inr aa_find_free_def aa_set_field_def mask_eq split: option.splits)
  have ok1: "aa_ok s1" using aa_check_size_ok [OF ok s1] by simp
  have fr: "free_at (aa_bitmap s1) len p" "p \<le> aa_size s1 - 1"
    using find_free_spec [OF len, of "aa_bitmap s1" "aa_size s1 - 1"] f by (auto simp: free_spec_def)
  have b: "int len \<le> p + 1" "p < int (length (aa_bitmap s1))" using fr ok1 by (auto simp: free_at_def aa_ok_def)
  note md = mark_down_spec [OF b]
  have "\<not> aa_bitmap s1 ! k" if "sh \<le> int k \<and> int k < sh + int len" for k
  proof -
    have "p - int len < int k" "int k \<le> p" using that s'(3) by linarith+
    then have "\<not> aa_bitmap s1 ! nat (int k)" using fr(1) unfolding free_at_def by blast
    then show ?thesis by simp
  qed
  moreover have "aa_bitmap s' ! k = (aa_bitmap s1 ! k \<or> sh \<le> int k \<and> int k < sh + int len)" if "int k < aa_size s'" for k
  proof -
    have "k < length (aa_bitmap s1)" using that s'(1) ok1 by (simp add: aa_ok_def)
    moreover have "(p - int len < int k \<and> int k \<le> p) = (sh \<le> int k \<and> int k < sh + int len)" using s'(3) by linarith
    ultimately show ?thesis using md s'(1) by simp
  qed
  ultimately show ?thesis using s1 s' ok1 b md fr(2) by (auto simp: aa_ok_def)
qed

text \<open>The fields of every level, allocated one after the other as the script does.\<close>

fun alloc_levels :: "nat list \<Rightarrow> int \<Rightarrow> alloc_addr \<Rightarrow> (alloc_error, (32 word \<times> int) list \<times> alloc_addr) result" where
  "alloc_levels [] n s = Inr ([], s)"
| "alloc_levels (len # lens) n s =
     bind_res (aa_setbit len n s) (\<lambda>(f, s1). bind_res (alloc_levels lens n s1) (\<lambda>(fs, s2). Inr (f # fs, s2)))"

definition level_address :: "nat list \<Rightarrow> (32 word \<times> int) list \<Rightarrow> address" where
  "level_address lens fs = \<lparr>a_levels = length lens, a_shift = List.map (\<lambda>f. nat (snd f)) fs, a_mask = List.map fst fs, a_bpl = lens\<rparr>"

definition field_bits_of :: "nat \<Rightarrow> int \<Rightarrow> nat set" where
  "field_bits_of len sh = {k. sh \<le> int k \<and> int k < sh + int len}"

lemma alloc_levels_spec:
  assumes "aa_ok s" "aa_size s = n" "0 < n" "\<forall>l \<in> set lens. 0 < l" "alloc_levels lens n s = Inr (fs, s')"
  shows "length fs = length lens \<and> aa_ok s' \<and> aa_size s' = n \<and>
    (\<forall>i < length lens. fst (fs ! i) = mask (lens ! i) \<and> 0 \<le> snd (fs ! i) \<and> snd (fs ! i) + int (lens ! i) \<le> n \<and>
       (\<forall>k \<in> field_bits_of (lens ! i) (snd (fs ! i)). \<not> aa_bitmap s ! k) \<and>
       (\<forall>j < i. field_bits_of (lens ! i) (snd (fs ! i)) \<inter> field_bits_of (lens ! j) (snd (fs ! j)) = {}))"
  using assms
proof (induction lens arbitrary: s fs)
  case Nil
  then show ?case by simp
next
  case (Cons l lens)
  obtain m sh s1 gs where sb: "aa_setbit l n s = Inr ((m, sh), s1)" and rest: "alloc_levels lens n s1 = Inr (gs, s')"
    and fs: "fs = (m, sh) # gs"
    using Cons.prems(5) by (auto simp: bind_res_Inr)
  have cs: "aa_check_size n s = Inr s" using Cons.prems(2) by (simp add: aa_check_size_def)
  have l: "0 < l" "\<forall>l \<in> set lens. 0 < l" using Cons.prems(4) by simp_all
  have sp: "aa_ok s1" "aa_size s1 = n" "m = mask l" "0 \<le> sh" "sh + int l \<le> n"
    "\<forall>k \<in> field_bits_of l sh. \<not> aa_bitmap s ! k"
    "\<forall>k. int k < n \<longrightarrow> aa_bitmap s1 ! k = (aa_bitmap s ! k \<or> k \<in> field_bits_of l sh)"
    using aa_setbit_spec [OF Cons.prems(1) l(1) sb] cs Cons.prems(2) by (auto simp: field_bits_of_def)
  note IH = Cons.IH [OF sp(1,2) Cons.prems(3) l(2) rest]
  have old: "\<not> aa_bitmap s ! k \<and> k \<notin> field_bits_of l sh"
    if "i < length lens" "k \<in> field_bits_of (lens ! i) (snd (gs ! i))" for i k
  proof -
    have "snd (gs ! i) + int (lens ! i) \<le> n" "\<not> aa_bitmap s1 ! k" using IH that by blast+
    moreover from this(1) have "int k < n" using that(2) by (simp add: field_bits_of_def)
    ultimately show ?thesis using sp(7) by blast
  qed
  have "fst (fs ! i) = mask ((l # lens) ! i) \<and> 0 \<le> snd (fs ! i) \<and> snd (fs ! i) + int ((l # lens) ! i) \<le> n \<and>
       (\<forall>k \<in> field_bits_of ((l # lens) ! i) (snd (fs ! i)). \<not> aa_bitmap s ! k) \<and>
       (\<forall>j < i. field_bits_of ((l # lens) ! i) (snd (fs ! i)) \<inter> field_bits_of ((l # lens) ! j) (snd (fs ! j)) = {})"
    if i: "i < length (l # lens)" for i
  proof (cases i)
    case 0
    then show ?thesis using sp(3-6) fs by simp
  next
    case (Suc i')
    have i': "i' < length lens" using i Suc by simp
    have "field_bits_of (lens ! i') (snd (gs ! i')) \<inter> field_bits_of ((l # lens) ! j) (snd (fs ! j)) = {}" if "j < i" for j
    proof (cases j)
      case 0
      then show ?thesis using old [OF i'] fs by auto
    next
      case (Suc j')
      then show ?thesis using IH i' that \<open>i = Suc i'\<close> fs by auto
    qed
    then show ?thesis using IH i' old [OF i'] Suc fs by simp
  qed
  then show ?case using IH fs by simp
qed

section \<open>Properties\<close>

text \<open>
  Allocating the bit fields of a hierarchical address: when the script's successive setbit
  calls on a fresh 32-bit map succeed, every level gets a field of the requested width inside
  the word, with the matching mask, and no two fields share a bit.
\<close>

theorem hierarchy_fields_disjoint:
  assumes "aa_check_size 32 aa_new = Inr s" "\<forall>l \<in> set lens. 0 < l \<and> l < 32" "2 \<le> length lens"
    "alloc_levels lens 32 s = Inr (fs, s')"
  shows "fields_ok (level_address lens fs) \<and>
    (\<forall>i < length lens. \<forall>j < i. \<forall>n. \<not> (in_field (level_address lens fs) i n \<and> in_field (level_address lens fs) j n))"
proof -
  have s: "s = aa_alloc 32" using assms(1) by (simp add: aa_check_size_def aa_new_def)
  have ok: "aa_ok s" "aa_size s = 32" by (simp_all add: s aa_ok_def aa_alloc_def)
  have pos: "\<forall>l \<in> set lens. 0 < l" using assms(2) by blast
  have sp: "length fs = length lens"
    "\<And>i. i < length lens \<Longrightarrow> fst (fs ! i) = mask (lens ! i) \<and> 0 \<le> snd (fs ! i) \<and> snd (fs ! i) + int (lens ! i) \<le> 32"
    "\<And>i j. i < length lens \<Longrightarrow> j < i \<Longrightarrow>
       field_bits_of (lens ! i) (snd (fs ! i)) \<inter> field_bits_of (lens ! j) (snd (fs ! j)) = {}"
    using alloc_levels_spec [OF ok _ pos assms(4)] by simp_all
  have inf: "in_field (level_address lens fs) i n \<longleftrightarrow> n \<in> field_bits_of (lens ! i) (snd (fs ! i))" if "i < length lens" for i n
    using sp(1) sp(2) [OF that] that by (auto simp: in_field_def level_address_def field_bits_of_def nat_le_iff)
  have "a_shift (level_address lens fs) ! i + lens ! i \<le> 32" if "i < length lens" for i
    using sp(1) sp(2) [OF that] that by (simp add: level_address_def nat_le_iff) linarith
  then have "fields_ok (level_address lens fs)"
    using sp assms(2,3) by (simp add: fields_ok_def level_address_def)
  moreover have "\<not> (in_field (level_address lens fs) i n \<and> in_field (level_address lens fs) j n)"
    if "i < length lens" "j < i" for i j n
  proof -
    have "j < length lens" using that by simp
    then show ?thesis using inf [of i n] inf [of j n] sp(3) [OF that] that by blast
  qed
  ultimately show ?thesis by blast
qed

lemma hierarchy_fields_disjoint_witness:
  "\<exists>s fs s'. aa_check_size 32 aa_new = Inr s \<and> alloc_levels [9, 11, 11] 32 s = Inr (fs, s') \<and>
     fields_ok (level_address [9, 11, 11] fs)"
proof -
  have c: "aa_check_size 32 aa_new = Inr (aa_alloc 32)" by (simp add: aa_check_size_def aa_new_def)
  have "\<not> isl (alloc_levels [9, 11, 11] 32 (aa_alloc 32))" by code_simp
  then obtain fs s' where a: "alloc_levels [9, 11, 11] 32 (aa_alloc 32) = Inr (fs, s')"
    by (cases "alloc_levels [9, 11, 11] 32 (aa_alloc 32)") auto
  have "\<forall>l \<in> set [9, 11, 11 :: nat]. 0 < l \<and> l < 32" "2 \<le> length [9, 11, 11 :: nat]" by simp_all
  from hierarchy_fields_disjoint [OF c this a] show ?thesis using c a by blast
qed

text \<open>
  With flat addressing (one level at shift 0) get_nodeaddr, which prints an address and
  parses the text again, gives back exactly the address it was given: every negative one, in
  particular the broadcast address -1, and every other up to 2 to the number of bits; above
  that the simulator exits.
\<close>

theorem nodeaddr_flat:
  assumes "a_levels A = 1" "a_shift A ! 0 = 0" "a_bpl A ! 0 < 31"
  shows "get_nodeaddr A w = (if sint w \<le> 2 ^ (a_bpl A ! 0) then Inr w else Inl AddrOutOfRange) \<and>
     get_nodeaddr A (-1) = Inr (-1)"
proof -
  define m :: int where "m = 2 ^ (a_bpl A ! 0)"
  have m: "0 < m" by (simp add: m_def)
  have f: "get_nodeaddr A v = (if 0 \<le> sint v \<and> m < sint v then Inl AddrOutOfRange else Inr v)" for v
    using flat_roundtrip [OF assms(1,2), of v] assms(3) by (simp add: out_of_field_def m_def)
  have "(0 \<le> sint w \<and> m < sint w) = (\<not> sint w \<le> m)" using m by linarith
  then show ?thesis using f [of w] f [of "-1"] by (simp add: m_def [symmetric])
qed

lemma nodeaddr_flat_witness:
  "get_nodeaddr \<lparr>a_levels = 1, a_shift = [0], a_mask = [mask 30], a_bpl = [30]\<rparr> 12 = Inr 12"
proof -
  have "sint (12 :: 32 word) \<le> 2 ^ 30" by simp
  then show ?thesis
    using nodeaddr_flat [of "\<lparr>a_levels = 1, a_shift = [0], a_mask = [mask 30], a_bpl = [30]\<rparr>" 12] by simp
qed

text \<open>
  With hierarchical addressing get_nodeaddr never fails and keeps every field of the
  address: the number of each level is unchanged, bits outside all fields are cleared, and
  applying it again changes nothing.
\<close>

theorem nodeaddr_hierarchical:
  assumes ok: "fields_ok A"
  shows "\<exists>r. get_nodeaddr A w = Inr r \<and> get_nodeaddr A r = Inr r \<and>
     (\<forall>l. 1 \<le> l \<and> l \<le> a_levels A \<longrightarrow> hier_addr A r l = hier_addr A w l) \<and>
     (\<forall>n < 32. bit r n \<longleftrightarrow> bit w n \<and> (\<exists>j < a_levels A. in_field A j n))"
proof -
  obtain r where r: "get_nodeaddr A w = Inr r" "\<forall>n < 32. bit r n \<longleftrightarrow> bit w n \<and> (\<exists>j < a_levels A. in_field A j n)"
    using hierarchical_roundtrip [OF ok] by blast
  obtain t where t: "get_nodeaddr A r = Inr t" "\<forall>n < 32. bit t n \<longleftrightarrow> bit r n \<and> (\<exists>j < a_levels A. in_field A j n)"
    using hierarchical_roundtrip [OF ok] by blast
  have "t = r" using r(2) t(2) by (intro bit_word_eqI) auto
  moreover have "hier_addr A r l = hier_addr A w l" if "1 \<le> l \<and> l \<le> a_levels A" for l
  proof -
    define i where "i = l - 1"
    have i: "i < a_levels A" using that unfolding i_def by linarith
    have b: "a_bpl A ! i < 32" "a_shift A ! i + a_bpl A ! i \<le> 32" "a_mask A ! i = mask (a_bpl A ! i)"
      using ok i by (auto simp: fields_ok_def)
    have "bit r (a_shift A ! i + n) = bit w (a_shift A ! i + n)" if "n < a_bpl A ! i" for n
      using r(2) that b i by (auto simp: in_field_def)
    then have "signed_drop_bit (a_shift A ! i) r AND mask (a_bpl A ! i) = signed_drop_bit (a_shift A ! i) w AND mask (a_bpl A ! i)"
      by (intro bit_word_eqI) (auto simp: field_bits [OF b(1,2)])
    then show ?thesis using that b(3) by (simp add: hier_addr_def i_def)
  qed
  ultimately show ?thesis using r t by blast
qed

definition demo_address :: address where
  "demo_address = \<lparr>a_levels = 3, a_shift = [22, 11, 0], a_mask = [mask 9, mask 11, mask 11], a_bpl = [9, 11, 11]\<rparr>"

lemma demo_address_ok: "fields_ok demo_address"
proof -
  have "i < 3 \<Longrightarrow> i = 0 \<or> i = 1 \<or> i = 2" for i :: nat by linarith
  then show ?thesis by (fastforce simp: fields_ok_def demo_address_def)
qed

lemma nodeaddr_hierarchical_witness:
  "\<exists>r. get_nodeaddr demo_address 4097 = Inr r \<and> hier_addr demo_address r 3 = hier_addr demo_address 4097 3"
proof -
  have "1 \<le> (3 :: nat) \<and> 3 \<le> a_levels demo_address" by (simp add: demo_address_def)
  then show ?thesis using nodeaddr_hierarchical [OF demo_address_ok, of 4097] by blast
qed

text \<open>
  With hierarchical addressing the broadcast address does not survive get_nodeaddr as soon
  as one bit of the word belongs to no field, as in the default format of 9, 11 and 11 bits:
  the result differs from -1, so the link layer's test for IP_BROADCAST fails on it.
\<close>

theorem hierarchical_broadcast_lost:
  assumes "fields_ok A" "n < 32" "\<forall>j < a_levels A. \<not> in_field A j n"
  shows "get_nodeaddr A (-1) \<noteq> Inr (-1)"
proof -
  obtain r where r: "get_nodeaddr A (-1) = Inr r" "bit r n \<longleftrightarrow> bit (-1 :: 32 word) n \<and> (\<exists>j < a_levels A. in_field A j n)"
    using hierarchical_roundtrip [OF assms(1), of "-1"] assms(2) by blast
  have "\<not> bit r n" "bit (-1 :: 32 word) n" using r(2) assms(2,3) by auto
  then show ?thesis using r(1) by auto
qed

lemma hierarchical_broadcast_lost_witness: "get_nodeaddr demo_address (-1) \<noteq> Inr (-1)"
proof -
  have "\<forall>j < a_levels demo_address. \<not> in_field demo_address j 31"
  proof (intro allI impI)
    fix j
    assume "j < a_levels demo_address"
    then have "j = 0 \<or> j = 1 \<or> j = 2" by (auto simp: demo_address_def)
    then show "\<not> in_field demo_address j 31" by (auto simp: in_field_def demo_address_def)
  qed
  then show ?thesis using hierarchical_broadcast_lost [OF demo_address_ok, of 31] by simp
qed

end
