(* ===== verification/Mrg.thy ===== *)
theory Mrg
  imports MachineFloat
begin

text \<open>
  The arithmetic of the random number generator (tools/rng.cc): residues modulo a 32-bit
  prime, and 3x3 matrices over them, computed in \<open>double\<close>. Each routine is modelled with its
  floating-point operations, and shown to compute the exact residue. The matrix algebra that
  the jumps of the generator rest on is done once, over integers.
\<close>

type_synonym 'a vec3 = "'a \<times> 'a \<times> 'a"
type_synonym 'a mat3 = "'a vec3 \<times> 'a vec3 \<times> 'a vec3"

definition ddiv :: "real \<Rightarrow> real \<Rightarrow> real" where "ddiv x y = to_double (x / y)"

text \<open>A value of type \<open>long\<close> as an operand of a \<open>double\<close> operation.\<close>

definition long_double :: "int \<Rightarrow> real" where "long_double k = to_double (of_int k)"

definition two17 :: real where "two17 = 131072"
definition two53 :: real where "two53 = 9007199254740992"

section \<open>The routines\<close>

text \<open>\<open>a1 = v / m; v -= a1 * m; if (v < 0.0) v += m;\<close>, in \<open>MultModM\<close> and twice in \<open>U01\<close>.\<close>

definition mod_reduce :: "real \<Rightarrow> real \<Rightarrow> real" where
  "mod_reduce v m =
     (let a1 = c_trunc (ddiv v m);
          v = dsub v (dmul (long_double a1) m)
      in if v < 0 then dadd v m else v)"

definition MultModM :: "real \<Rightarrow> real \<Rightarrow> real \<Rightarrow> real \<Rightarrow> real" where
  "MultModM a s c m =
     (let v = dadd (dmul a s) c;
          v = (if v \<ge> two53 \<or> v \<le> - two53 then
                 (let a1 = c_trunc (ddiv a two17);
                      a = dsub a (dmul (long_double a1) two17);
                      v = dmul (long_double a1) s;
                      a1 = c_trunc (ddiv v m);
                      v = dsub v (dmul (long_double a1) m)
                  in dadd (dadd (dmul v two17) (dmul a s)) c)
               else v)
      in mod_reduce v m)"

fun row_vec :: "real vec3 \<Rightarrow> real vec3 \<Rightarrow> real \<Rightarrow> real" where
  "row_vec (a0, a1, a2) (s0, s1, s2) m =
     (let x = MultModM a0 s0 0 m; x = MultModM a1 s1 x m in MultModM a2 s2 x m)"

fun MatVecModM :: "real mat3 \<Rightarrow> real vec3 \<Rightarrow> real \<Rightarrow> real vec3" where
  "MatVecModM (A0, A1, A2) s m = (row_vec A0 s m, row_vec A1 s m, row_vec A2 s m)"

fun transpose3 :: "'a mat3 \<Rightarrow> 'a mat3" where
  "transpose3 ((a00, a01, a02), (a10, a11, a12), (a20, a21, a22)) =
     ((a00, a10, a20), (a01, a11, a21), (a02, a12, a22))"

fun MatMatModM :: "real mat3 \<Rightarrow> real mat3 \<Rightarrow> real \<Rightarrow> real mat3" where
  "MatMatModM A B m =
     (let (c0, c1, c2) = transpose3 B
      in transpose3 (MatVecModM A c0 m, MatVecModM A c1 m, MatVecModM A c2 m))"

definition MatTwoPowModM :: "real mat3 \<Rightarrow> real \<Rightarrow> int \<Rightarrow> real mat3" where
  "MatTwoPowModM A m e = ((\<lambda>B. MatMatModM B B m) ^^ nat e) A"

function mat_pow_loop :: "real mat3 \<Rightarrow> real mat3 \<Rightarrow> real \<Rightarrow> int \<Rightarrow> real mat3" where
  "mat_pow_loop W B m n =
     (if n > 0 then
        mat_pow_loop (MatMatModM W W m) (if n mod 2 \<noteq> 0 then MatMatModM W B m else B) m (n div 2)
      else B)"
  by pat_completeness auto
termination by (relation "measure (\<lambda>(W, B, m, n). nat n)") auto

declare mat_pow_loop.simps [simp del]

fun one3 :: "'a::{zero, one} itself \<Rightarrow> 'a mat3" where
  "one3 _ = ((1, 0, 0), (0, 1, 0), (0, 0, 1))"

definition MatPowModM :: "real mat3 \<Rightarrow> real \<Rightarrow> int \<Rightarrow> real mat3" where
  "MatPowModM A m n = mat_pow_loop A (one3 TYPE(real)) m n"

section \<open>Exact residues from rounded quotients\<close>

lemma dmul_int: "\<bar>x * y\<bar> \<le> 2 ^ 53 \<Longrightarrow> dmul (of_int x) (of_int y) = of_int (x * y)"
  unfolding dmul_def of_int_mult [symmetric] by (rule to_double_of_int)

lemma dadd_int: "\<bar>x + y\<bar> \<le> 2 ^ 53 \<Longrightarrow> dadd (of_int x) (of_int y) = of_int (x + y)"
  unfolding dadd_def of_int_add [symmetric] by (rule to_double_of_int)

lemma dsub_int: "\<bar>x - y\<bar> \<le> 2 ^ 53 \<Longrightarrow> dsub (of_int x) (of_int y) = of_int (x - y)"
  unfolding dsub_def of_int_diff [symmetric] by (rule to_double_of_int)

lemma long_double_int: "\<bar>k\<bar> \<le> 2 ^ 53 \<Longrightarrow> long_double k = of_int k"
  unfolding long_double_def by (rule to_double_of_int)

lemma to_double_ge_two53: "two53 \<le> x \<Longrightarrow> two53 \<le> to_double x"
  using to_double_mono [of two53 x] to_double_of_int [of "2 ^ 53"] by (simp add: two53_def)

lemma c_trunc_minus: "c_trunc (- x) = - c_trunc x"
  by (auto simp: c_trunc_def ceiling_def)

lemma quotient_floor:
  assumes "0 \<le> v" and "v < 2 ^ 53" and "0 < m" and "m \<le> 2 ^ 53"
  shows "c_trunc (ddiv (of_int v) (of_int m)) = v div m"
proof -
  define x where "x = (of_int v / of_int m :: real)"
  have m: "0 < (of_int m :: real)" using assms by simp
  have v: "0 \<le> (of_int v :: real)" using assms by simp
  have pos: "0 \<le> x" unfolding x_def using m v by simp
  have q: "0 \<le> v div m" "v div m \<le> v" using assms zdiv_mono2 [of v 1 m] by (simp_all add: pos_imp_zdiv_nonneg_iff)
  have f: "\<lfloor>x\<rfloor> = v div m" by (simp add: floor_divide_of_int_eq x_def)
  have lo: "of_int (v div m) \<le> to_double x"
  proof -
    have "of_int (v div m) \<le> x" using f of_int_floor_le [of x] by simp
    then have "to_double (of_int (v div m)) \<le> to_double x"
      using q by (intro to_double_mono) simp_all
    then show ?thesis using to_double_of_int [of "v div m"] assms q by simp
  qed
  have hi: "to_double x < of_int (v div m + 1)"
  proof (cases "v = 0")
    case False
    have "v = v div m * m + v mod m" by simp
    moreover have "v mod m < m" using assms(3) by simp
    ultimately have "v + 1 \<le> (v div m + 1) * m" unfolding distrib_right by linarith
    then have "of_int v + 1 \<le> (of_int (v div m + 1) * of_int m :: real)"
      by (metis of_int_1 of_int_add of_int_le_iff of_int_mult)
    then have "(of_int v + 1) / of_int m \<le> (of_int (v div m + 1) :: real)"
      using m by (simp only: pos_divide_le_eq)
    then have gap: "x + 1 / of_int m \<le> of_int (v div m + 1)" by (simp only: x_def add_divide_distrib)
    have "(2 :: real) powi (-1022) \<le> 2 powi (-53)" by (rule powi2_mono) simp
    moreover have "(2 :: real) powi (-53) = 1 / 2 ^ 53" by (simp add: power_int_minus inverse_eq_divide)
    moreover have "1 / 2 ^ 53 \<le> (1 / of_int m :: real)"
      using assms(4) m by (intro frac_le) (simp_all only: of_int_le_iff [symmetric, where 'a = real], simp_all)
    moreover have "1 / of_int m \<le> x" unfolding x_def using False assms m by (intro divide_right_mono) auto
    ultimately have e: "\<bar>to_double x - x\<bar> \<le> 2 powi (-53) * \<bar>x\<bar>" by (intro to_double_relerror) linarith
    have "(of_int v :: real) < of_int (2 ^ 53)" using assms(2) of_int_less_iff by blast
    then have "of_int v / 2 ^ 53 < (1::real)" by simp
    then have "of_int v / 2 ^ 53 * (1 / of_int m) < 1 * (1 / of_int m :: real)"
      using m by (intro mult_strict_right_mono) simp_all
    moreover have "2 powi (-53) * \<bar>x\<bar> = of_int v / 2 ^ 53 * (1 / of_int m)"
      using v m by (simp add: x_def power_int_minus inverse_eq_divide)
    ultimately have "\<bar>to_double x - x\<bar> < 1 / of_int m" using e by simp
    with gap show ?thesis by linarith
  qed (simp add: x_def)
  show ?thesis using lo hi to_double_nonneg [OF pos]
    unfolding ddiv_def x_def [symmetric] by (simp add: c_trunc_def floor_eq_iff)
qed

lemma quotient_trunc:
  assumes "\<bar>v\<bar> < 2 ^ 53" and "0 < m" and "m \<le> 2 ^ 53"
  shows "c_trunc (ddiv (of_int v) (of_int m)) = sgn v * (\<bar>v\<bar> div m)"
proof (cases "0 \<le> v")
  case True
  then show ?thesis using quotient_floor [of v m] assms by (cases "v = 0") (simp_all add: sgn_if)
next
  case False
  then have "ddiv (of_int v) (of_int m) = - ddiv (of_int \<bar>v\<bar>) (of_int m)"
    by (simp add: ddiv_def to_double_minus)
  then show ?thesis using quotient_floor [of "\<bar>v\<bar>" m] assms False by (simp add: c_trunc_minus sgn_if)
qed

lemma signed_remainder:
  fixes v m :: int
  assumes "0 < m"
  shows "v - sgn v * (\<bar>v\<bar> div m) * m = sgn v * (\<bar>v\<bar> mod m)"
proof -
  have "v = sgn v * (\<bar>v\<bar> div m * m + \<bar>v\<bar> mod m)" by (simp add: sgn_mult_abs)
  then show ?thesis by (metis add_diff_cancel_left' distrib_left mult.assoc)
qed

text \<open>
  The last two statements of \<open>MultModM\<close>, and of both components of \<open>U01\<close>: the truncated
  quotient is exact although the division is rounded, so the result is the residue.
\<close>

lemma mod_reduce_exact:
  assumes "\<bar>v\<bar> < 2 ^ 53" and "0 < m" and "m \<le> 2 ^ 32"
  shows "mod_reduce (of_int v) (of_int m) = of_int (v mod m)"
proof -
  define V M where "V = (of_int v :: real)" and "M = (of_int m :: real)"
  define w where "w = dsub V (dmul (long_double (c_trunc (ddiv V M))) M)"
  have reduce: "mod_reduce V M = (if w < 0 then dadd w M else w)" by (simp add: mod_reduce_def w_def)
  let ?q = "sgn v * (\<bar>v\<bar> div m)"
  have q: "c_trunc (ddiv V M) = ?q" using quotient_trunc assms by (simp add: V_def M_def)
  have le: "\<bar>?q * m\<bar> \<le> \<bar>v\<bar>"
  proof -
    have "\<bar>v\<bar> div m * m \<le> \<bar>v\<bar>" using assms(2) by (simp add: minus_mod_eq_div_mult [symmetric])
    moreover have "0 \<le> \<bar>v\<bar> div m" using assms(2) by (simp add: pos_imp_zdiv_nonneg_iff)
    ultimately show ?thesis using assms(2) by (cases "v = 0") (simp_all add: abs_mult abs_sgn_eq)
  qed
  have ql: "\<bar>?q\<bar> \<le> \<bar>v\<bar>"
    using assms(2) zdiv_mono2 [of "\<bar>v\<bar>" 1 m] pos_imp_zdiv_nonneg_iff [of m "\<bar>v\<bar>"]
    by (cases "v = 0") (simp_all add: abs_mult abs_sgn_eq)
  have r: "\<bar>sgn v * (\<bar>v\<bar> mod m)\<bar> < m" using assms(2) by (cases "v = 0") (simp_all add: abs_mult abs_sgn_eq)
  have l: "long_double ?q = of_int ?q" unfolding long_double_def by (rule to_double_of_int) (use ql assms in linarith)
  have d: "dmul (of_int ?q) M = of_int (?q * m)"
    unfolding dmul_def M_def of_int_mult [symmetric] by (rule to_double_of_int) (use le assms in linarith)
  have "w = to_double (of_int (v - ?q * m))"
    unfolding w_def q l d by (simp only: dsub_def V_def of_int_diff)
  also have "\<dots> = of_int (sgn v * (\<bar>v\<bar> mod m))"
    unfolding signed_remainder [OF assms(2)] by (rule to_double_of_int) (use r assms(3) in simp)
  finally have w: "w = of_int (sgn v * (\<bar>v\<bar> mod m))" .
  have n: "0 \<le> \<bar>v\<bar> mod m" using assms(2) by simp
  have e: "v mod m = (if \<bar>v\<bar> mod m = 0 then 0 else m - \<bar>v\<bar> mod m)" if "v < 0"
    using zmod_zminus1_eq_if [of "\<bar>v\<bar>" m] that by simp
  have "(if w < 0 then dadd w M else w) = of_int (v mod m)"
  proof (cases "v < 0 \<and> \<bar>v\<bar> mod m \<noteq> 0")
    case True
    have "dadd w M = to_double (of_int (m - \<bar>v\<bar> mod m))"
      using True by (simp add: dadd_def w M_def algebra_simps)
    also have "\<dots> = of_int (m - \<bar>v\<bar> mod m)"
    proof (rule to_double_of_int)
      have "\<bar>m - \<bar>v\<bar> mod m\<bar> \<le> m" using n assms(2) pos_mod_bound [of m "\<bar>v\<bar>"] by linarith
      then show "\<bar>m - \<bar>v\<bar> mod m\<bar> \<le> 2 ^ 53" using assms(3) by simp
    qed
    finally have "dadd w M = of_int (m - \<bar>v\<bar> mod m)" .
    moreover have "0 < \<bar>v\<bar> mod m" using n True by linarith
    then have "w < 0" using True w by simp
    moreover have "v mod m = m - \<bar>v\<bar> mod m" using True e by metis
    ultimately show ?thesis by (simp only: if_True)
  next
    case False
    then have "v mod m = sgn v * (\<bar>v\<bar> mod m)" using e by (cases "v = 0"; cases "v < 0") simp_all
    moreover have "0 \<le> v mod m" using assms(2) by simp
    ultimately have "0 \<le> w \<and> w = of_int (v mod m)" using w of_int_0_le_iff by metis
    then show ?thesis by simp
  qed
  then show ?thesis using reduce by (simp only: V_def M_def)
qed

lemma MultModM_direct:
  assumes "\<bar>a * s\<bar> \<le> 2 ^ 53" and "\<bar>a * s + c\<bar> < 2 ^ 53" and "0 < m" and "m \<le> 2 ^ 32"
  shows "MultModM (of_int a) (of_int s) (of_int c) (of_int m) = of_int ((a * s + c) mod m)"
proof -
  have p: "dmul (of_int a) (of_int s) = of_int (a * s)" using assms(1) by (rule dmul_int)
  have "dadd (of_int (a * s)) (of_int c) = of_int (a * s + c)" by (rule dadd_int) (use assms(2) in simp)
  moreover have "(of_int (a * s + c) :: real) < two53" "- two53 < of_int (a * s + c)"
  proof -
    have "(of_int (a * s + c) :: real) < of_int (2 ^ 53)" "(of_int (- (2 ^ 53)) :: real) < of_int (a * s + c)"
      using assms(2) unfolding of_int_less_iff by linarith+
    then show "(of_int (a * s + c) :: real) < two53" "- two53 < of_int (a * s + c)"
      by (simp_all add: two53_def)
  qed
  ultimately show ?thesis using mod_reduce_exact [OF assms(2-4)] by (simp add: MultModM_def p)
qed

text \<open>\<open>MultModM\<close> is exact when \<open>c\<close> and \<open>s\<close> are residues and \<open>a\<close> is a residue or a small negative
  coefficient.\<close>

lemma MultModM_residue:
  assumes m: "2 ^ 31 \<le> m" "m \<le> 2 ^ 32" and s: "0 \<le> s" "s < m" and c: "0 \<le> c" "c < m"
    and a: "- 1500000 \<le> a" "a < m"
  shows "MultModM (of_int a) (of_int s) (of_int c) (of_int m) = of_int ((a * s + c) mod m)"
proof (cases "\<bar>a * s + c\<bar> < 2 ^ 53 \<and> \<bar>a * s\<bar> \<le> 2 ^ 53")
  case True
  then show ?thesis by (intro MultModM_direct) (use m in auto)
next
  case False
  have neg: "\<bar>a * s\<bar> < 2 ^ 53" if "a \<le> 0"
  proof -
    have "\<bar>a\<bar> * s \<le> 1500000 * 2 ^ 32" by (rule mult_mono) (use a s m that in auto)
    then show ?thesis using s by (simp add: abs_mult)
  qed
  have "0 < a"
  proof (rule ccontr)
    assume "\<not> 0 < a"
    then have "\<bar>a * s\<bar> < 2 ^ 53" "a * s \<le> 0" using neg s by (auto intro: mult_nonpos_nonneg)
    moreover have "m \<le> 2 ^ 53" using m by simp
    ultimately show False using False c m by linarith
  qed
  then have nn: "0 \<le> a * s" using s by simp
  then have big: "2 ^ 53 \<le> a * s + c" using False c by linarith
  have big_v: "two53 \<le> dadd (dmul (of_int a) (of_int s)) (of_int c)"
  proof (cases "a * s \<le> 2 ^ 53")
    case True
    then have "dmul (of_int a) (of_int s) = of_int (a * s)" using nn by (intro dmul_int) simp
    moreover have "(of_int (2 ^ 53) :: real) \<le> of_int (a * s + c)" using big of_int_le_iff by blast
    ultimately show ?thesis by (simp add: dadd_def two53_def to_double_ge_two53 [unfolded two53_def])
  next
    case False
    then have "(of_int (2 ^ 53) :: real) \<le> of_int (a * s)" using of_int_le_iff by fastforce
    then have "two53 \<le> dmul (of_int a) (of_int s)" unfolding dmul_def by (intro to_double_ge_two53) (simp add: two53_def)
    then show ?thesis unfolding dadd_def using c by (intro to_double_ge_two53) simp
  qed
  define a1 r where "a1 = a div 2 ^ 17" and "r = a mod 2 ^ 17"
  have two17: "two17 = of_int (2 ^ 17)" by (simp add: two17_def)
  have am: "a1 * 2 ^ 17 + r = a" by (simp add: a1_def r_def)
  have ab: "0 \<le> a1" "0 \<le> r" "r < 2 ^ 17" using \<open>0 < a\<close> by (simp_all add: pos_imp_zdiv_nonneg_iff a1_def r_def)
  have a1: "a1 < 2 ^ 15" using am ab a m by simp
  have "a1 * s \<le> 2 ^ 15 * 2 ^ 32" "r * s \<le> 2 ^ 17 * 2 ^ 32" by (rule mult_mono; use ab a1 s m in simp)+
  then have le: "0 \<le> a1 * s" "a1 * s < 2 ^ 53" "0 \<le> r * s" "r * s \<le> 2 ^ 49" using ab s by simp_all
  define v d where "v = a1 * s mod m" and "d = a1 * s div m"
  have vb: "0 \<le> v" "v < m" "d * m + v = a1 * s" using m by (simp_all add: v_def d_def)
  then have v17: "v * 2 ^ 17 \<le> 2 ^ 49" using m by simp
  have d: "0 \<le> d" "d * m \<le> a1 * s" "d \<le> a1 * s"
    using m le(1) vb zdiv_mono2 [of "a1 * s" 1 m] by (simp_all add: pos_imp_zdiv_nonneg_iff d_def)
  have q1: "c_trunc (ddiv (of_int a) two17) = a1"
    unfolding two17 a1_def by (rule quotient_floor) (use \<open>0 < a\<close> a m in simp_all)
  have l1: "long_double a1 = of_int a1" by (rule long_double_int) (use ab a1 in simp)
  have a': "dsub (of_int a) (dmul (of_int a1) two17) = of_int r"
  proof -
    have "dmul (of_int a1) two17 = of_int (a1 * 2 ^ 17)" unfolding two17 by (rule dmul_int) (use ab a1 in simp)
    moreover have "a - a1 * 2 ^ 17 = r" using am by simp
    ultimately show ?thesis using dsub_int [of a "a1 * 2 ^ 17"] ab by simp
  qed
  have v1: "dmul (of_int a1) (of_int s) = of_int (a1 * s)" by (rule dmul_int) (use le in simp)
  have q2: "c_trunc (ddiv (of_int (a1 * s)) (of_int m)) = d"
    unfolding d_def by (rule quotient_floor) (use le m in simp_all)
  have l2: "long_double d = of_int d" by (rule long_double_int) (use d le in linarith)
  have dm: "dmul (of_int d) (of_int m) = of_int (d * m)"
    by (rule dmul_int) (use d le m in \<open>simp add: abs_mult\<close>)
  have e: "a1 * s - d * m = v" and "\<bar>v\<bar> \<le> 2 ^ 53" using vb m by simp_all
  then have v2: "dsub (of_int (a1 * s)) (dmul (of_int d) (of_int m)) = of_int v"
    using dsub_int [of "a1 * s" "d * m"] unfolding dm e by blast
  have "dmul (of_int v) two17 = of_int (v * 2 ^ 17)" unfolding two17 by (rule dmul_int) (use vb v17 in simp)
  moreover have "dmul (of_int r) (of_int s) = of_int (r * s)" by (rule dmul_int) (use le in simp)
  moreover have "dadd (of_int (v * 2 ^ 17)) (of_int (r * s)) = of_int (v * 2 ^ 17 + r * s)"
    by (rule dadd_int) (use vb v17 le in simp)
  moreover have "dadd (of_int (v * 2 ^ 17 + r * s)) (of_int c) = of_int (v * 2 ^ 17 + r * s + c)"
    by (rule dadd_int) (use vb v17 le c m in simp)
  ultimately have "MultModM (of_int a) (of_int s) (of_int c) (of_int m) =
      mod_reduce (of_int (v * 2 ^ 17 + r * s + c)) (of_int m)"
    using big_v by (simp only: MultModM_def Let_def q1 l1 a' v1 q2 l2 v2 if_True simp_thms)
  also have "\<dots> = of_int ((v * 2 ^ 17 + r * s + c) mod m)"
    by (rule mod_reduce_exact) (use vb v17 le c m in simp_all)
  also have "v * 2 ^ 17 + r * s + c = (a1 * 2 ^ 17 + r) * s + c + (- d * 2 ^ 17) * m"
    by (simp add: algebra_simps e [symmetric])
  finally show ?thesis by (simp only: am mod_mult_self1)
qed

text \<open>The products that occur: residues, and products of two coefficients of a generator.\<close>

definition mul_ok :: "int \<Rightarrow> int \<Rightarrow> int \<Rightarrow> bool" where
  "mul_ok m a s \<longleftrightarrow> - 1500000 \<le> a \<and> a < m \<and> 0 \<le> s \<and> s < m \<or> \<bar>a\<bar> \<le> 1500000 \<and> \<bar>s\<bar> \<le> 1500000"

definition modulus_ok :: "int \<Rightarrow> bool" where
  "modulus_ok m \<longleftrightarrow> 2 ^ 31 \<le> m \<and> m \<le> 2 ^ 32"

lemma MultModM_exact:
  assumes "modulus_ok m" and "mul_ok m a s" and "0 \<le> c" and "c < m"
  shows "MultModM (of_int a) (of_int s) (of_int c) (of_int m) = of_int ((a * s + c) mod m)"
proof (cases "0 \<le> s \<and> s < m \<and> - 1500000 \<le> a \<and> a < m")
  case True
  then show ?thesis using assms by (intro MultModM_residue) (auto simp: modulus_ok_def)
next
  case False
  then have "\<bar>a\<bar> * \<bar>s\<bar> \<le> 1500000 * 1500000" using assms(2) by (intro mult_mono) (auto simp: mul_ok_def)
  then show ?thesis using assms by (intro MultModM_direct) (auto simp: modulus_ok_def abs_mult [symmetric])
qed

section \<open>Matrices of residues\<close>

fun all3 :: "('a \<Rightarrow> bool) \<Rightarrow> 'a vec3 \<Rightarrow> bool" where
  "all3 P (x, y, z) \<longleftrightarrow> P x \<and> P y \<and> P z"

fun map3 :: "('a \<Rightarrow> 'b) \<Rightarrow> 'a vec3 \<Rightarrow> 'b vec3" where
  "map3 f (x, y, z) = (f x, f y, f z)"

fun dot3 :: "int vec3 \<Rightarrow> int vec3 \<Rightarrow> int" where
  "dot3 (a0, a1, a2) (s0, s1, s2) = a0 * s0 + a1 * s1 + a2 * s2"

definition mvm :: "int \<Rightarrow> int mat3 \<Rightarrow> int vec3 \<Rightarrow> int vec3" where
  "mvm m A s = map3 (\<lambda>r. dot3 r s mod m) A"

definition mmm :: "int \<Rightarrow> int mat3 \<Rightarrow> int mat3 \<Rightarrow> int mat3" where
  "mmm m A B = transpose3 (map3 (mvm m A) (transpose3 B))"

abbreviation residues :: "int \<Rightarrow> int vec3 \<Rightarrow> bool" where
  "residues m \<equiv> all3 (\<lambda>x. 0 \<le> x \<and> x < m)"

abbreviation coefficients :: "int vec3 \<Rightarrow> bool" where
  "coefficients \<equiv> all3 (\<lambda>x. \<bar>x\<bar> \<le> 1500000)"

abbreviation vec_real :: "int vec3 \<Rightarrow> real vec3" where
  "vec_real \<equiv> map3 of_int"

abbreviation mat_real :: "int mat3 \<Rightarrow> real mat3" where
  "mat_real \<equiv> map3 vec_real"

lemma mod_dot: "(a2 * s2 + (a1 * s1 + a0 * s0 mod m) mod m) mod m = (a0 * s0 + a1 * s1 + a2 * s2) mod (m::int)"
  by (simp add: mod_simps algebra_simps)

lemma row_vec_exact:
  assumes "modulus_ok m" and "mul_ok m a0 s0" "mul_ok m a1 s1" "mul_ok m a2 s2"
  shows "row_vec (vec_real (a0, a1, a2)) (vec_real (s0, s1, s2)) (of_int m) = of_int (dot3 (a0, a1, a2) (s0, s1, s2) mod m)"
proof -
  have m: "0 < m" using assms(1) by (simp add: modulus_ok_def)
  note e = MultModM_exact [OF assms(1)]
  have "MultModM (of_int a0) (of_int s0) 0 (of_int m) = of_int (a0 * s0 mod m)"
    using e [OF assms(2), of 0] m by simp
  moreover have "MultModM (of_int a1) (of_int s1) (of_int (a0 * s0 mod m)) (of_int m) =
      of_int ((a1 * s1 + a0 * s0 mod m) mod m)" using e [OF assms(3)] m by simp
  moreover have "MultModM (of_int a2) (of_int s2) (of_int ((a1 * s1 + a0 * s0 mod m) mod m)) (of_int m) =
      of_int ((a0 * s0 + a1 * s1 + a2 * s2) mod m)" using e [OF assms(4)] m by (simp add: mod_dot)
  ultimately show ?thesis by simp
qed

definition mat_vec_ok :: "int \<Rightarrow> int mat3 \<Rightarrow> int vec3 \<Rightarrow> bool" where
  "mat_vec_ok m A s \<longleftrightarrow>
     all3 (all3 (\<lambda>a. - 1500000 \<le> a \<and> a < m)) A \<and> residues m s \<or> all3 coefficients A \<and> coefficients s"

lemma MatVecModM_exact:
  assumes "modulus_ok m" and "mat_vec_ok m A s"
  shows "MatVecModM (mat_real A) (vec_real s) (of_int m) = vec_real (mvm m A s)"
proof -
  obtain a00 a01 a02 a10 a11 a12 a20 a21 a22 s0 s1 s2 where
    A: "A = ((a00, a01, a02), (a10, a11, a12), (a20, a21, a22))" and s: "s = (s0, s1, s2)" by (metis surj_pair)
  have ok: "mul_ok m a00 s0" "mul_ok m a01 s1" "mul_ok m a02 s2" "mul_ok m a10 s0" "mul_ok m a11 s1"
    "mul_ok m a12 s2" "mul_ok m a20 s0" "mul_ok m a21 s1" "mul_ok m a22 s2"
    using assms(2) unfolding mat_vec_ok_def A s all3.simps mul_ok_def by blast+
  show ?thesis
    using row_vec_exact [OF assms(1) ok(1-3)] row_vec_exact [OF assms(1) ok(4-6)] row_vec_exact [OF assms(1) ok(7-9)]
    by (simp add: A s mvm_def)
qed

lemma residues_mvm: "0 < m \<Longrightarrow> residues m (mvm m A s)"
  by (cases A) (auto simp: mvm_def)

lemma transpose3_transpose3 [simp]: "transpose3 (transpose3 A) = A"
  by (cases A rule: transpose3.cases) auto

lemma transpose3_map3: "transpose3 (map3 (map3 f) A) = map3 (map3 f) (transpose3 A)"
  by (cases A rule: transpose3.cases) auto

lemma all3_transpose3: "all3 (all3 P) (transpose3 A) \<longleftrightarrow> all3 (all3 P) A"
  by (cases A rule: transpose3.cases) auto

lemma MatMatModM_exact:
  assumes "modulus_ok m" and "all3 (mat_vec_ok m A) (transpose3 B)"
  shows "MatMatModM (mat_real A) (mat_real B) (of_int m) = mat_real (mmm m A B)"
proof -
  obtain c0 c1 c2 where c: "transpose3 B = (c0, c1, c2)" by (metis surj_pair)
  have "transpose3 (mat_real B) = (vec_real c0, vec_real c1, vec_real c2)" by (simp add: transpose3_map3 c)
  then have "MatMatModM (mat_real A) (mat_real B) (of_int m) =
      transpose3 (map3 vec_real (mvm m A c0, mvm m A c1, mvm m A c2))"
    using assms(2) MatVecModM_exact [OF assms(1)] by (simp add: c)
  moreover have "transpose3 (vec_real u, vec_real v, vec_real w) = mat_real (transpose3 (u, v, w))" for u v w
    using transpose3_map3 [of of_int "(u, v, w)"] by simp
  ultimately show ?thesis by (simp add: mmm_def c)
qed

lemma residues_mmm: "0 < m \<Longrightarrow> all3 (residues m) (mmm m A B)"
  using residues_mvm by (cases "transpose3 B") (auto simp: mmm_def all3_transpose3)

text \<open>A matrix acts on vectors of residues; a product acts as the composition.\<close>

lemma lin_mod:
  "(a * (x mod m) + b * (y mod m) + c * (z mod m)) mod m = (a * x + b * y + c * z) mod (m::int)"
  "((x mod m) * a + (y mod m) * b + (z mod m) * c) mod m = (x * a + y * b + z * c) mod m"
  by (intro mod_add_cong mod_mult_cong; simp)+

lemma mvm_mmm: "mvm m (mmm m A B) v = mvm m A (mvm m B v)"
proof -
  obtain b00 b01 b02 b10 b11 b12 b20 b21 b22 v0 v1 v2 where
    B: "B = ((b00, b01, b02), (b10, b11, b12), (b20, b21, b22))" and v: "v = (v0, v1, v2)" by (metis surj_pair)
  have "dot3 (dot3 r (b00, b10, b20) mod m, dot3 r (b01, b11, b21) mod m, dot3 r (b02, b12, b22) mod m) v mod m =
        dot3 r (mvm m B v) mod m" for r
    by (cases r) (simp add: B v mvm_def lin_mod, simp add: algebra_simps)
  moreover obtain r0 r1 r2 where "A = (r0, r1, r2)" by (metis surj_pair)
  ultimately show ?thesis by (simp add: mvm_def mmm_def B)
qed

lemma mvm_one3: "residues m v \<Longrightarrow> mvm m (one3 TYPE(int)) v = v"
  by (cases v) (auto simp: mvm_def)

lemma mvm_zero: "mvm m A (0, 0, 0) = (0, 0, 0)"
proof -
  have "dot3 r (0, 0, 0) = 0" for r by (cases r) simp
  then show ?thesis by (cases A) (simp add: mvm_def)
qed


section \<open>Powers of a transition matrix\<close>

text \<open>\<open>P\<close> advances a vector of residues by \<open>n\<close> steps of \<open>A\<close>.\<close>

definition jumps :: "int \<Rightarrow> int mat3 \<Rightarrow> nat \<Rightarrow> int mat3 \<Rightarrow> bool" where
  "jumps m A n P \<longleftrightarrow> (\<forall>v. residues m v \<longrightarrow> mvm m P v = (mvm m A ^^ n) v)"

lemma jumpsI: "(\<And>v. residues m v \<Longrightarrow> mvm m P v = (mvm m A ^^ n) v) \<Longrightarrow> jumps m A n P"
  unfolding jumps_def by blast

lemma jumpsD: "jumps m A n P \<Longrightarrow> residues m v \<Longrightarrow> mvm m P v = (mvm m A ^^ n) v"
  unfolding jumps_def by blast

lemma residues_steps: "0 < m \<Longrightarrow> residues m v \<Longrightarrow> residues m ((mvm m A ^^ n) v)"
  by (cases n) (simp_all add: residues_mvm)

lemma jumps_self: "jumps m A (Suc 0) A"
  by (rule jumpsI) simp

lemma jumps_one3: "jumps m A 0 (one3 TYPE(int))"
  by (rule jumpsI) (simp add: mvm_one3 del: one3.simps)

lemma jumps_mmm: "0 < m \<Longrightarrow> jumps m A k P \<Longrightarrow> jumps m A n Q \<Longrightarrow> jumps m A (k + n) (mmm m P Q)"
  by (rule jumpsI) (simp add: mvm_mmm funpow_add residues_steps jumpsD)

definition two_pow :: "int \<Rightarrow> int mat3 \<Rightarrow> nat \<Rightarrow> int mat3" where
  "two_pow m A e = ((\<lambda>B. mmm m B B) ^^ e) A"

lemma jumps_two_pow: "0 < m \<Longrightarrow> jumps m A (2 ^ e) (two_pow m A e)"
proof (induction e)
  case (Suc e)
  then show ?case using jumps_mmm [of m A "2 ^ e" _ "2 ^ e"] by (simp add: two_pow_def mult_2)
qed (simp add: two_pow_def jumps_self)

text \<open>The matrices a power may start from: tables of residues, or coefficients.\<close>

definition start_mat :: "int \<Rightarrow> int mat3 \<Rightarrow> bool" where
  "start_mat m A \<longleftrightarrow> all3 (residues m) A \<or> all3 coefficients A"

lemma all3_mono: "all3 P v \<Longrightarrow> (\<And>x. P x \<Longrightarrow> Q x) \<Longrightarrow> all3 Q v"
  by (cases v) auto

lemma mat_vec_ok_residues:
  assumes "all3 (residues m) A" and "residues m s"
  shows "mat_vec_ok m A s"
proof -
  have "all3 (\<lambda>a. - 1500000 \<le> a \<and> a < m) r" if "residues m r" for r using that by (rule all3_mono) simp
  then have "all3 (all3 (\<lambda>a. - 1500000 \<le> a \<and> a < m)) A" by (rule all3_mono [OF assms(1)])
  then show ?thesis unfolding mat_vec_ok_def using assms(2) by blast
qed

lemma mat_vec_ok_coefficients: "all3 coefficients A \<Longrightarrow> coefficients s \<Longrightarrow> mat_vec_ok m A s"
  unfolding mat_vec_ok_def by blast

lemma start_square_ok:
  assumes "start_mat m A"
  shows "all3 (mat_vec_ok m A) (transpose3 A)"
proof (cases "all3 (residues m) A")
  case True
  then have "all3 (residues m) (transpose3 A)" by (simp only: all3_transpose3)
  then show ?thesis using mat_vec_ok_residues [OF True] by (rule all3_mono)
next
  case False
  then have c: "all3 coefficients A" using assms unfolding start_mat_def by blast
  then have "all3 coefficients (transpose3 A)" by (simp only: all3_transpose3)
  then show ?thesis using mat_vec_ok_coefficients [OF c] by (rule all3_mono)
qed

lemma start_mul_ok:
  assumes "modulus_ok m" and "start_mat m A" and "all3 (residues m) B"
  shows "all3 (mat_vec_ok m A) (transpose3 B)"
proof -
  let ?small = "all3 (\<lambda>a. - 1500000 \<le> a \<and> a < m)"
  have "?small r" if "residues m r" for r using that by (rule all3_mono) simp
  moreover have "?small r" if "coefficients r" for r
    using that by (rule all3_mono) (use assms(1) in \<open>auto simp: modulus_ok_def\<close>)
  ultimately have "all3 ?small A"
    using assms(2) all3_mono [of "residues m" A ?small] all3_mono [of coefficients A ?small]
    unfolding start_mat_def by argo
  then have ok: "mat_vec_ok m A s" if "residues m s" for s using that unfolding mat_vec_ok_def by argo
  have "all3 (residues m) (transpose3 B)" using assms(3) by (simp only: all3_transpose3)
  then show ?thesis by (rule all3_mono) (rule ok)
qed

lemma modulus_pos: "modulus_ok m \<Longrightarrow> 0 < m"
  by (simp add: modulus_ok_def)

lemma start_mat_mmm: "0 < m \<Longrightarrow> start_mat m (mmm m A B)"
  unfolding start_mat_def by (blast intro: residues_mmm)

lemma start_two_pow: "0 < m \<Longrightarrow> start_mat m A \<Longrightarrow> start_mat m (two_pow m A e)"
  by (cases e) (simp_all add: two_pow_def start_mat_mmm)

lemma MatTwoPowModM_exact:
  assumes "modulus_ok m" and "start_mat m A"
  shows "MatTwoPowModM (mat_real A) (of_int m) e = mat_real (two_pow m A (nat e))"
proof -
  have "((\<lambda>B. MatMatModM B B (of_int m)) ^^ k) (mat_real A) = mat_real (two_pow m A k)" for k
  proof (induction k)
    case (Suc k)
    have "start_mat m (two_pow m A k)" by (rule start_two_pow [OF modulus_pos [OF assms(1)] assms(2)])
    then show ?case
      using MatMatModM_exact [OF assms(1) start_square_ok] Suc.IH
      by (simp add: two_pow_def del: MatMatModM.simps)
  qed (simp add: two_pow_def)
  then show ?thesis by (simp add: MatTwoPowModM_def)
qed

lemma mat_pow_loop_exact:
  assumes "modulus_ok m" and "start_mat m W" and "all3 (residues m) B" and "jumps m A w W" and "jumps m A b B"
  shows "\<exists>P. mat_pow_loop (mat_real W) (mat_real B) (of_int m) n = mat_real P \<and> all3 (residues m) P \<and>
    jumps m A (b + w * nat n) P"
  using assms(2-)
proof (induction "nat n" arbitrary: n W B w b rule: less_induct)
  case less
  note pos = modulus_pos [OF assms(1)]
  show ?case
  proof (cases "n > 0")
    case False
    then have "mat_pow_loop (mat_real W) (mat_real B) (of_int m) n = mat_real B" "b + w * nat n = b"
      by (simp_all add: mat_pow_loop.simps [of _ _ _ n])
    then show ?thesis using less.prems(2,4) by (intro exI [of _ B] conjI) (simp_all only:)
  next
    case True
    define B' b' where "B' = (if n mod 2 \<noteq> 0 then mmm m W B else B)" and "b' = (if n mod 2 \<noteq> 0 then w + b else b)"
    have ww: "MatMatModM (mat_real W) (mat_real W) (of_int m) = mat_real (mmm m W W)"
      by (rule MatMatModM_exact [OF assms(1) start_square_ok [OF less.prems(1)]])
    have wb: "MatMatModM (mat_real W) (mat_real B) (of_int m) = mat_real (mmm m W B)"
      by (rule MatMatModM_exact [OF assms(1) start_mul_ok [OF assms(1) less.prems(1,2)]])
    have step: "mat_pow_loop (mat_real W) (mat_real B) (of_int m) n =
        mat_pow_loop (mat_real (mmm m W W)) (mat_real B') (of_int m) (n div 2)"
      unfolding mat_pow_loop.simps [of "mat_real W" _ _ n] B'_def ww wb using True by (simp only: if_True split: if_split) simp
    have B': "all3 (residues m) B'" unfolding B'_def using less.prems(2) residues_mmm [OF pos] by presburger
    have b': "jumps m A b' B'"
      unfolding B'_def b'_def using less.prems(4) jumps_mmm [OF pos less.prems(3,4)] by presburger
    have "nat (n div 2) < nat n" using True by simp
    from less.hyps [OF this start_mat_mmm [OF pos] B' jumps_mmm [OF pos less.prems(3,3)] b']
    obtain P where P: "mat_pow_loop (mat_real (mmm m W W)) (mat_real B') (of_int m) (n div 2) = mat_real P"
      "all3 (residues m) P" "jumps m A (b' + (w + w) * nat (n div 2)) P"
      by (elim exE conjE) (rule that)
    have "b + w * nat n = b' + (w + w) * nat (n div 2)"
    proof -
      obtain k where k: "n = int k" using True by (metis less_imp_le nonneg_int_cases)
      have "nat (n div 2) = k div 2" by (simp add: k nat_div_distrib)
      moreover have "n mod 2 \<noteq> 0 \<longleftrightarrow> k mod 2 = 1" unfolding k by presburger
      moreover have "k = 2 * (k div 2) + (if k mod 2 = 1 then 1 else 0)" by presburger
      moreover have "nat n = k" by (simp add: k)
      ultimately have "nat n = 2 * nat (n div 2) + (if n mod 2 \<noteq> 0 then 1 else 0)" by (cases "k mod 2 = 1") simp_all
      then show ?thesis unfolding b'_def by (simp add: distrib_left)
    qed
    then show ?thesis unfolding step using P by (intro exI [of _ P] conjI) (simp_all only:)
  qed
qed

lemma MatPowModM_exact:
  assumes "modulus_ok m" and "start_mat m A"
  obtains P where "MatPowModM (mat_real A) (of_int m) n = mat_real P" "all3 (residues m) P" "jumps m A (nat n) P"
proof -
  have "all3 (residues m) (one3 TYPE(int))" using assms(1) by (simp add: modulus_ok_def)
  from mat_pow_loop_exact [OF assms this jumps_self jumps_one3, of n]
  obtain P where "mat_pow_loop (mat_real A) (mat_real (one3 TYPE(int))) (of_int m) n = mat_real P"
    "all3 (residues m) P" "jumps m A (0 + Suc 0 * nat n) P"
    by (elim exE conjE) (rule that)
  moreover have "one3 TYPE(real) = mat_real (one3 TYPE(int))" by simp
  ultimately show ?thesis using that unfolding MatPowModM_def by (simp only: mult_Suc mult_0 add_0 add_0_right)
qed

end
