(* ===== verification/MrgTables.thy ===== *)
theory MrgTables
  imports Mrg
begin

text \<open>
  The transition matrices of the generator and the tables of their powers (tools/rng.cc), and
  the proof that every table is the power it is said to be: 76 and 127 squarings, evaluated by
  rewriting. Both moduli are just below \<open>2 ^ 32\<close>, so a residue is computed by folding the upper
  bits of a number onto the lower 32.
\<close>

section \<open>Tables\<close>

definition n1 :: int where "n1 = 4294967087"
definition n2 :: int where "n2 = 4294944443"

definition InvA1 :: "int mat3" where
  "InvA1 = ((184888585, 0, 1945170933), (1, 0, 0), (0, 1, 0))"

definition InvA2 :: "int mat3" where
  "InvA2 = ((0, 360363334, 4225571728), (1, 0, 0), (0, 1, 0))"

definition A1p0 :: "int mat3" where
  "A1p0 = ((0, 1, 0), (0, 0, 1), (-810728, 1403580, 0))"

definition A2p0 :: "int mat3" where
  "A2p0 = ((0, 1, 0), (0, 0, 1), (-1370589, 0, 527612))"

definition A1p76 :: "int mat3" where
  "A1p76 = ((82758667, 1871391091, 4127413238), (3672831523, 69195019, 1871391091),
     (3672091415, 3528743235, 69195019))"

definition A2p76 :: "int mat3" where
  "A2p76 = ((1511326704, 3759209742, 1610795712), (4292754251, 1511326704, 3889917532),
     (3859662829, 4292754251, 3708466080))"

definition A1p127 :: "int mat3" where
  "A1p127 = ((2427906178, 3580155704, 949770784), (226153695, 1230515664, 3580155704),
     (1988835001, 986791581, 1230515664))"

definition A2p127 :: "int mat3" where
  "A2p127 = ((1464411153, 277697599, 1610723613), (32183930, 1464411153, 1022607788),
     (2824425944, 32183930, 2093834863))"

section \<open>Residues by folding\<close>

fun high :: "nat \<Rightarrow> num \<Rightarrow> int" where
  "high 0 n = numeral n"
| "high (Suc k) num.One = 0"
| "high (Suc k) (num.Bit0 n) = high k n"
| "high (Suc k) (num.Bit1 n) = high k n"

fun low :: "nat \<Rightarrow> num \<Rightarrow> int" where
  "low 0 n = 0"
| "low (Suc k) num.One = 1"
| "low (Suc k) (num.Bit0 n) = 2 * low k n"
| "low (Suc k) (num.Bit1 n) = 2 * low k n + 1"

lemma high_low: "numeral n = high k n * 2 ^ k + low k n"
proof (induction k n rule: high.induct)
  case (3 k n)
  have "(numeral (num.Bit0 n) :: int) = 2 * numeral n" by simp
  with 3 show ?case by (simp only: high.simps low.simps power_Suc distrib_left mult.left_commute)
next
  case (4 k n)
  have "(numeral (num.Bit1 n) :: int) = 2 * numeral n + 1" by simp
  with 4 show ?case
    by (simp only: high.simps low.simps power_Suc distrib_left mult.left_commute add.assoc)
qed simp_all

lemma low_bound: "0 \<le> low k n \<and> low k n < 2 ^ k"
proof (induction k n rule: low.induct)
  case (2 k)
  have "(1::int) \<le> 2 ^ k" by simp
  then show ?case by (simp only: low.simps power_Suc) linarith
qed auto

lemma high_numeral:
  "high (numeral k) num.One = 0"
  "high (numeral k) (num.Bit0 n) = high (pred_numeral k) n"
  "high (numeral k) (num.Bit1 n) = high (pred_numeral k) n"
  by (simp_all add: numeral_eq_Suc)

lemma low_numeral:
  "low (numeral k) num.One = 1"
  "low (numeral k) (num.Bit0 n) = 2 * low (pred_numeral k) n"
  "low (numeral k) (num.Bit1 n) = 2 * low (pred_numeral k) n + 1"
  by (simp_all add: numeral_eq_Suc)

definition fold32 :: "int \<Rightarrow> int \<Rightarrow> int" where
  "fold32 c x = c * (x div 2 ^ 32) + x mod 2 ^ 32"

lemma fold32_numeral: "fold32 c (numeral n) = c * high 32 n + low 32 n"
proof -
  define h l :: int where "h = high 32 n" and "l = low 32 n"
  have "(numeral n :: int) = l + h * 2 ^ 32" using high_low [of n 32] by (simp add: h_def l_def)
  moreover have "(l + h * 2 ^ 32) mod 2 ^ 32 = l" "(l + h * 2 ^ 32) div 2 ^ 32 = h"
    using low_bound [of 32 n] by (simp_all add: l_def)
  ultimately show ?thesis by (simp only: fold32_def h_def l_def)
qed

lemma fold32_mod:
  assumes "m = 2 ^ 32 - c"
  shows "fold32 c x mod m = x mod m"
proof -
  define q where "q = x div 2 ^ 32"
  have "x mod 2 ^ 32 = x - q * 2 ^ 32" by (simp add: q_def minus_div_mult_eq_mod)
  then have "fold32 c x = x + (- q) * m"
    unfolding fold32_def q_def [symmetric] assms by (simp add: algebra_simps)
  then show ?thesis by (simp only: mod_mult_self1)
qed

text \<open>The last case is never reached; its modulus is hidden from evaluation.\<close>

definition plain_mod :: "int \<Rightarrow> int \<Rightarrow> int" where
  "plain_mod x m = x mod m"

definition settle :: "int \<Rightarrow> int \<Rightarrow> int" where
  "settle m x = (if x < 0 then plain_mod x m else if x < m then x else if x - m < m then x - m else plain_mod x m)"

lemma settle_mod: "0 < m \<Longrightarrow> settle m x = x mod m"
proof -
  assume "0 < m"
  moreover have "x - m = x mod m" if "m \<le> x" "x - m < m" using that by (metis diff_ge_0_iff_ge mod_pos_pos_trivial minus_mod_self2)
  ultimately show ?thesis by (auto simp: settle_def plain_mod_def)
qed

lemma settle_numeral:
  "settle (numeral m) (numeral x) = (if numeral x < (numeral m :: int) then numeral x
     else if (numeral x - numeral m < (numeral m :: int)) then numeral x - numeral m
     else plain_mod (numeral x) (numeral m))"
  by (simp add: settle_def)

lemma mod_by_folding:
  "numeral x mod 4294967087 = settle 4294967087 (fold32 209 (fold32 209 (fold32 209 (numeral x))))"
  "numeral x mod 4294944443 = settle 4294944443 (fold32 22853 (fold32 22853 (fold32 22853 (numeral x))))"
  by (simp_all add: settle_mod fold32_mod)

section \<open>The tables are powers of the transition matrices\<close>

definition square_mat :: "int \<Rightarrow> int mat3 \<Rightarrow> int mat3" where
  "square_mat m B = mmm m B B"

lemma square_mat_simp:
  "square_mat m ((a, b, c), (d, e, f), (g, h, i)) =
     (((a * a + b * d + c * g) mod m, (a * b + b * e + c * h) mod m, (a * c + b * f + c * i) mod m),
      ((d * a + e * d + f * g) mod m, (d * b + e * e + f * h) mod m, (d * c + e * f + f * i) mod m),
      ((g * a + h * d + i * g) mod m, (g * b + h * e + i * h) mod m, (g * c + h * f + i * i) mod m))"
  by (simp add: square_mat_def mmm_def mvm_def)

fun squarings :: "int \<Rightarrow> nat \<Rightarrow> int mat3 \<Rightarrow> int mat3" where
  "squarings m 0 B = B"
| "squarings m (Suc k) B = squarings m k (square_mat m B)"

lemma squarings_numeral:
  "squarings m (numeral k) B = squarings m (pred_numeral k) (square_mat m B)"
  by (simp add: numeral_eq_Suc)

lemma squarings_add: "squarings m (k + j) B = squarings m j (squarings m k B)"
  by (induction k arbitrary: B) simp_all

lemma two_pow_squarings: "two_pow m A e = squarings m e A"
proof (induction e arbitrary: A)
  case (Suc e)
  have "two_pow m A (Suc e) = two_pow m (square_mat m A) e"
    by (simp only: two_pow_def square_mat_def funpow_Suc_right o_apply)
  then show ?case using Suc.IH by simp
qed (simp add: two_pow_def)

named_theorems fast_arith \<open>rules that evaluate a squaring\<close>

lemmas [fast_arith] = arith_simps rel_simps pred_numeral_simps BitM.simps mult_1_right mult_zero_right
  add_0_right add_0_left numeral_plus_one if_True if_False
  high_numeral high.simps(1) low_numeral low.simps(1) fold32_numeral settle_numeral mod_by_folding
  square_mat_simp squarings_numeral squarings.simps(1)

lemma squarings_3:
  "squarings n1 3 A1p0 = ((1527363550, 2758233149, 1831234280), (4072640363, 939574583, 2758233149), (2064391165, 3228066636, 939574583))"
  "squarings n2 3 A2p0 = ((3405842137, 2680076935, 893509979), (4035147174, 3405842137, 3280220074), (2623373296, 4035147174, 361718588))"
  by (simp_all add: squarings_numeral square_mat_simp A1p0_def A2p0_def n1_def n2_def)

lemma squarings_1_76: "squarings 4294967087 73 ((1527363550, 2758233149, 1831234280), (4072640363, 939574583, 2758233149), (2064391165, 3228066636, 939574583)) = A1p76"
  unfolding A1p76_def by (simp only: fast_arith)

lemma squarings_1_127: "squarings 4294967087 51 A1p76 = A1p127"
  unfolding A1p76_def A1p127_def by (simp only: fast_arith)

lemma squarings_2_76: "squarings 4294944443 73 ((3405842137, 2680076935, 893509979), (4035147174, 3405842137, 3280220074), (2623373296, 4035147174, 361718588)) = A2p76"
  unfolding A2p76_def by (simp only: fast_arith)

lemma squarings_2_127: "squarings 4294944443 51 A2p76 = A2p127"
  unfolding A2p76_def A2p127_def by (simp only: fast_arith)

theorem power_tables:
  "two_pow n1 A1p0 76 = A1p76" "two_pow n2 A2p0 76 = A2p76"
  "two_pow n1 A1p0 127 = A1p127" "two_pow n2 A2p0 127 = A2p127"
  unfolding two_pow_squarings
proof -
  show a: "squarings n1 76 A1p0 = A1p76"
    using squarings_add [of n1 3 73 A1p0] squarings_1_76 squarings_3(1) by (simp add: n1_def)
  show b: "squarings n2 76 A2p0 = A2p76"
    using squarings_add [of n2 3 73 A2p0] squarings_2_76 squarings_3(2) by (simp add: n2_def)
  show "squarings n1 127 A1p0 = A1p127"
    using squarings_add [of n1 76 51 A1p0] squarings_1_127 a by (simp add: n1_def)
  show "squarings n2 127 A2p0 = A2p127"
    using squarings_add [of n2 76 51 A2p0] squarings_2_127 b by (simp add: n2_def)
qed

text \<open>The inverse tables.\<close>

lemma inverse_tables:
  "mmm n1 InvA1 A1p0 = one3 TYPE(int)" "mmm n1 A1p0 InvA1 = one3 TYPE(int)"
  "mmm n2 InvA2 A2p0 = one3 TYPE(int)" "mmm n2 A2p0 InvA2 = one3 TYPE(int)"
  by (simp_all add: mmm_def mvm_def InvA1_def A1p0_def InvA2_def A2p0_def n1_def n2_def)

end
