(* ===== verification/Rng.thy ===== *)
theory Rng
  imports MrgTables "HOL-Library.Word"
begin

text \<open>
  The random number generator \<open>RNG\<close> (tools/rng.h, tools/rng.cc): the combined multiple
  recursive generator MRG32k3a, whose state is two vectors of three residues kept in \<open>double\<close>
  variables. The draws, the seeding, the jumps to the next substream and the next stream, and
  the advance by an arbitrary number of steps are shown to compute the integer recurrences.
\<close>

section \<open>State\<close>

definition m1 :: real where "m1 = 4294967087"
definition m2 :: real where "m2 = 4294944443"
definition rng_norm :: real where "rng_norm = ddiv 1 (dadd m1 1)"
definition rng_fact :: real where "rng_fact = 1 / 2 ^ 24"

text \<open>An array of six numbers, as its two halves: \<open>Cg_[0..2]\<close> and \<open>Cg_[3..5]\<close>.\<close>

type_synonym 'a six = "'a vec3 \<times> 'a vec3"

record rng =
  Cg :: "real six"
  Bg :: "real six"
  Ig :: "real six"
  anti :: bool
  inc_prec :: bool

datatype rng_error = BadSeed | SourceRange

section \<open>Draws\<close>

fun U01 :: "rng \<Rightarrow> real \<times> rng" where
  "U01 r =
     (let ((c0, c1, c2), (c3, c4, c5)) = Cg r;
          p1 = mod_reduce (dsub (dmul 1403580 c1) (dmul 810728 c0)) m1;
          p2 = mod_reduce (dsub (dmul 527612 c5) (dmul 1370589 c3)) m2;
          u = (if p1 > p2 then dmul (dsub p1 p2) rng_norm else dmul (dadd (dsub p1 p2) m1) rng_norm)
      in (if anti r then dsub 1 u else u, r\<lparr>Cg := ((c1, c2, p1), (c4, c5, p2))\<rparr>))"

declare U01.simps [simp del]

definition U01d :: "rng \<Rightarrow> real \<times> rng" where
  "U01d r =
     (let (u, r) = U01 r; (w, r) = U01 r
      in if anti r then
           (let u = dadd u (dmul (dsub w 1) rng_fact) in (if u < 0 then dadd u 1 else u, r))
         else
           (let u = dadd u (dmul w rng_fact) in (if u < 1 then u else dsub u 1, r)))"

definition rand_u01 :: "rng \<Rightarrow> real \<times> rng" where
  "rand_u01 r = (if inc_prec r then U01d r else U01 r)"

text \<open>The conversions are to and from 64-bit \<open>unsigned long\<close>.\<close>

definition rand_int :: "int \<Rightarrow> int \<Rightarrow> rng \<Rightarrow> int \<times> rng" where
  "rand_int lo hi r =
     (let (u, r) = rand_u01 r;
          x = (word_of_int (c_trunc (dmul (long_double (uint (word_of_int (hi - lo + 1) :: 64 word))) u)) :: 64 word)
      in (sint (word_of_int lo + x), r))"

definition MAXINT :: int where "MAXINT = 2147483647"

definition rng_next :: "rng \<Rightarrow> int \<times> rng" where
  "rng_next r = rand_int 0 MAXINT r"

definition next_double :: "rng \<Rightarrow> real \<times> rng" where
  "next_double r = rand_u01 r"

definition uniform_positive_int :: "rng \<Rightarrow> int \<times> rng" where
  "uniform_positive_int r = (let (x, r) = rng_next r in (sint (word_of_int x :: 32 word), r))"

text \<open>\<open>uniform(int k)\<close>; the remainder by zero is undefined.\<close>

definition uniform_int :: "int \<Rightarrow> rng \<Rightarrow> (int \<times> rng) option" where
  "uniform_int k r =
     (let (x, r) = uniform_positive_int r; d = (word_of_int k :: 32 word)
      in if d = 0 then None else Some (sint (word_of_int x mod d), r))"

definition uniform_real :: "real \<Rightarrow> rng \<Rightarrow> real \<times> rng" where
  "uniform_real b r = (let (u, r) = next_double r in (dmul b u, r))"

definition uniform_range :: "real \<Rightarrow> real \<Rightarrow> rng \<Rightarrow> real \<times> rng" where
  "uniform_range a b r = (let (u, r) = uniform_real (dsub b a) r in (dadd a u, r))"

section \<open>Seeding and jumps\<close>

definition six_map :: "('a \<Rightarrow> 'b) \<Rightarrow> 'a six \<Rightarrow> 'b six" where
  "six_map f s = (map3 f (fst s), map3 f (snd s))"

text \<open>Seeds are \<open>unsigned long\<close>; the comparisons convert them to \<open>double\<close>.\<close>

definition CheckSeed :: "int six \<Rightarrow> bool" where
  "CheckSeed s \<longleftrightarrow> all3 (\<lambda>x. \<not> long_double x \<ge> m1) (fst s) \<and> all3 (\<lambda>x. \<not> long_double x \<ge> m2) (snd s) \<and>
     fst s \<noteq> (0, 0, 0) \<and> snd s \<noteq> (0, 0, 0)"

text \<open>The static \<open>next_seed_\<close> of the class is threaded beside the generator.\<close>

definition default_seed :: "real six" where
  "default_seed = ((12345, 12345, 12345), (12345, 12345, 12345))"

definition rng_init :: "real six \<Rightarrow> rng \<times> real six" where
  "rng_init next_seed =
     (\<lparr>Cg = next_seed, Bg = next_seed, Ig = next_seed, anti = False, inc_prec = False\<rparr>,
      (MatVecModM (mat_real A1p127) (fst next_seed) m1, MatVecModM (mat_real A2p127) (snd next_seed) m2))"

definition set_package_seed :: "int six \<Rightarrow> (rng_error, real six) result" where
  "set_package_seed seed = (if CheckSeed seed then Inr (six_map long_double seed) else Inl BadSeed)"

definition set_seed_six :: "int six \<Rightarrow> rng \<Rightarrow> (rng_error, rng) result" where
  "set_seed_six seed r =
     (if CheckSeed seed
      then (let c = six_map long_double seed in Inr (r\<lparr>Cg := c, Bg := c, Ig := c\<rparr>))
      else Inl BadSeed)"

text \<open>\<open>set_seed(long)\<close> for a seed other than 0; 0 asks for a heuristic seed.\<close>

definition set_seed_long :: "int \<Rightarrow> (rng_error, rng \<times> real six) result" where
  "set_seed_long seed =
     (let s = uint (word_of_int seed :: 64 word)
      in bind_res (set_package_seed ((s, s, s), (s, s, s))) (\<lambda>next_seed. Inr (rng_init next_seed)))"

text \<open>The constructor \<open>RNG(long)\<close>: \<open>set_seed\<close> already initialises the stream.\<close>

definition new_rng_long :: "int \<Rightarrow> (rng_error, rng \<times> real six) result" where
  "new_rng_long seed = bind_res (set_seed_long seed) (\<lambda>(r, next_seed). Inr (rng_init next_seed))"

definition reset_start_stream :: "rng \<Rightarrow> rng" where
  "reset_start_stream r = r\<lparr>Cg := Ig r, Bg := Ig r\<rparr>"

definition reset_start_substream :: "rng \<Rightarrow> rng" where
  "reset_start_substream r = r\<lparr>Cg := Bg r\<rparr>"

definition reset_next_substream :: "rng \<Rightarrow> rng" where
  "reset_next_substream r =
     (let b = (MatVecModM (mat_real A1p76) (fst (Bg r)) m1, MatVecModM (mat_real A2p76) (snd (Bg r)) m2)
      in r\<lparr>Bg := b, Cg := b\<rparr>)"

text \<open>The matrix that \<open>advance_state\<close> applies to one half of the state.\<close>

definition advance_matrix :: "int mat3 \<Rightarrow> int mat3 \<Rightarrow> real \<Rightarrow> int \<Rightarrow> int \<Rightarrow> real mat3" where
  "advance_matrix A Inv m e c =
     (let C = (if c \<ge> 0 then MatPowModM (mat_real A) m c else MatPowModM (mat_real Inv) m (- c))
      in if e > 0 then MatMatModM (MatTwoPowModM (mat_real A) m e) C m
         else if e < 0 then MatMatModM (MatTwoPowModM (mat_real Inv) m (- e)) C m
         else C)"

definition advance_state :: "int \<Rightarrow> int \<Rightarrow> rng \<Rightarrow> rng" where
  "advance_state e c r =
     r\<lparr>Cg := (MatVecModM (advance_matrix A1p0 InvA1 m1 e c) (fst (Cg r)) m1,
             MatVecModM (advance_matrix A2p0 InvA2 m2 e c) (snd (Cg r)) m2)\<rparr>"

definition set_antithetic :: "bool \<Rightarrow> rng \<Rightarrow> rng" where
  "set_antithetic a r = r\<lparr>anti := a\<rparr>"

definition increased_precis :: "bool \<Rightarrow> rng \<Rightarrow> rng" where
  "increased_precis p r = r\<lparr>inc_prec := p\<rparr>"

definition get_state :: "rng \<Rightarrow> int six" where
  "get_state r = six_map c_trunc (Cg r)"

text \<open>\<open>set_seed(RNGSources, int)\<close>. The heuristic source reads the clock once for every attempt; a
  seed of 0 makes it try again, and each attempt throws 128 numbers away.\<close>

datatype rng_source = RAW_SEED_SOURCE | PREDEF_SEED_SOURCE

definition predef_seeds :: "int list" where
  "predef_seeds =
    [1973272912, 188312339, 1072664641, 694388766, 2009044369, 934100682, 1972392646, 1936856304,
     1598189534, 1822174485, 1871883252, 558746720, 605846893, 1384311643, 2081634991, 1644999263,
     773370613, 358485174, 1996632795, 1000004583, 1769370802, 1895218768, 186872697, 1859168769,
     349544396, 1996610406, 222735214, 1334983095, 144443207, 720236707, 762772169, 437720306,
     939612284, 425414105, 1998078925, 981631283, 1024155645, 822780843, 701857417, 960703545,
     2101442385, 2125204119, 2041095833, 89865291, 898723423, 1859531344, 764283187, 1349341884,
     678622600, 778794064, 1319566104, 1277478588, 538474442, 683102175, 999157082, 985046914,
     722594620, 1695858027, 1700738670, 1995749838, 1147024708, 346983590, 565528207, 513791680]"

fun set_seed_source :: "rng_source \<Rightarrow> int \<Rightarrow> (rng_error, rng \<times> real six) result" where
  "set_seed_source RAW_SEED_SOURCE seed =
     (if seed \<le> 0 \<or> uint (word_of_int seed :: 32 word) \<ge> MAXINT then Inl SourceRange else set_seed_long seed)"
| "set_seed_source PREDEF_SEED_SOURCE seed =
     (if seed < 0 \<or> seed \<ge> 64 then Inl SourceRange else set_seed_long (predef_seeds ! nat seed))"

definition toss :: "rng \<Rightarrow> rng" where
  "toss r = ((\<lambda>r. snd (rng_next r)) ^^ 128) r"

fun set_seed_heuristic :: "(int \<times> int) list \<Rightarrow> int \<Rightarrow> (int \<times> (rng_error, rng \<times> real six) result) option" where
  "set_seed_heuristic [] n = None"
| "set_seed_heuristic ((sec, usec) # clock) n =
     (let n = n + 1;
          seed = and (xor (xor sec usec) (push_bit 8 n)) 0x7fffffff
      in map_option (\<lambda>(n, res). (n, bind_res res (\<lambda>(r, next_seed). Inr (toss r, next_seed))))
           (if seed = 0 then set_seed_heuristic clock n else Some (n, set_seed_long seed)))"

section \<open>The recurrences\<close>

abbreviation six_real :: "int six \<Rightarrow> real six" where
  "six_real \<equiv> six_map of_int"

text \<open>A state of the generator: residues, neither half zero.\<close>

definition mrg_valid :: "int six \<Rightarrow> bool" where
  "mrg_valid s \<longleftrightarrow> residues n1 (fst s) \<and> residues n2 (snd s) \<and> fst s \<noteq> (0, 0, 0) \<and> snd s \<noteq> (0, 0, 0)"

fun mrg_step :: "int six \<Rightarrow> int six" where
  "mrg_step ((x0, x1, x2), (y0, y1, y2)) =
     ((x1, x2, (1403580 * x1 - 810728 * x0) mod n1), (y1, y2, (527612 * y2 - 1370589 * y0) mod n2))"

definition mrg_value :: "int six \<Rightarrow> int" where
  "mrg_value s =
     (let p1 = snd (snd (fst s)); p2 = snd (snd (snd s)) in if p1 > p2 then p1 - p2 else p1 - p2 + n1)"

lemma moduli: "0 < n1" "0 < n2" "modulus_ok n1" "modulus_ok n2" "m1 = of_int n1" "m2 = of_int n2"
  by (simp_all add: n1_def n2_def modulus_ok_def m1_def m2_def)

lemma mrg_step_mvm:
  assumes "residues n1 v" and "residues n2 w"
  shows "mrg_step (v, w) = (mvm n1 A1p0 v, mvm n2 A2p0 w)"
proof -
  obtain x0 x1 x2 y0 y1 y2 where "v = (x0, x1, x2)" "w = (y0, y1, y2)" by (metis surj_pair)
  then show ?thesis using assms by (simp add: mvm_def A1p0_def A2p0_def algebra_simps)
qed

lemma mrg_valid_step_residues: "residues n1 (fst (mrg_step s)) \<and> residues n2 (snd (mrg_step s))"
  if "residues n1 (fst s)" "residues n2 (snd s)"
  using mrg_step_mvm [OF that] residues_mvm moduli by simp

lemma mrg_steps_mvm:
  assumes "residues n1 v" and "residues n2 w"
  shows "(mrg_step ^^ n) (v, w) = ((mvm n1 A1p0 ^^ n) v, (mvm n2 A2p0 ^^ n) w)"
proof (induction n)
  case (Suc n)
  have "residues n1 ((mvm n1 A1p0 ^^ n) v)" "residues n2 ((mvm n2 A2p0 ^^ n) w)"
    using residues_steps moduli assms by blast+
  then show ?case using Suc by (simp add: mrg_step_mvm)
qed simp

text \<open>An invertible matrix does not reach the zero vector.\<close>

lemma mvm_nonzero:
  assumes "mmm m Q P = one3 TYPE(int)" and "residues m v" and "v \<noteq> (0, 0, 0)"
  shows "mvm m P v \<noteq> (0, 0, 0)"
proof
  assume "mvm m P v = (0, 0, 0)"
  then have "mvm m (mmm m Q P) v = (0, 0, 0)" by (simp add: mvm_mmm mvm_zero)
  then show False using assms by (simp add: mvm_one3 del: one3.simps)
qed

lemma steps_nonzero:
  assumes "0 < m" and "mmm m Q P = one3 TYPE(int)" and "residues m v" and "v \<noteq> (0, 0, 0)"
  shows "(mvm m P ^^ n) v \<noteq> (0, 0, 0)"
  by (induction n) (simp_all add: assms(4) mvm_nonzero [OF assms(2)] residues_steps [OF assms(1,3)])

lemma mrg_valid_steps: "mrg_valid s \<Longrightarrow> mrg_valid ((mrg_step ^^ n) s)"
  using steps_nonzero [OF moduli(1) inverse_tables(1)] steps_nonzero [OF moduli(2) inverse_tables(3)]
    residues_steps [OF moduli(1)] residues_steps [OF moduli(2)]
  by (cases s) (simp add: mrg_valid_def mrg_steps_mvm)

lemma mrg_valid_step: "mrg_valid s \<Longrightarrow> mrg_valid (mrg_step s)"
  using mrg_valid_steps [of s 1] by simp


section \<open>One draw\<close>

lemma norm_eq: "rng_norm = to_double (1 / 4294967088)"
proof -
  have "dadd m1 1 = of_int (4294967087 + 1)" using dadd_int [of 4294967087 1] by (simp add: m1_def)
  then show ?thesis by (simp add: rng_norm_def ddiv_def)
qed

lemma two_power_double: "to_double (1 / 2 ^ 32) = 1 / 2 ^ 32" "to_double (1 / 2 ^ 33) = 1 / 2 ^ 33"
  "to_double (1 - 1 / 2 ^ 33) = 1 - 1 / 2 ^ 33"
  by (rule to_double_exact [where m = 1 and k = "-32"] to_double_exact [where m = 1 and k = "-33"]
      to_double_exact [where m = "2 ^ 33 - 1" and k = "-33"];
    simp add: power_int_minus divide_simps)+

lemma norm_bounds: "1 / 2 ^ 32 \<le> rng_norm" "4294967087 * rng_norm \<le> 1 - 1 / 2 ^ 33"
proof -
  show "1 / 2 ^ 32 \<le> rng_norm"
    using to_double_mono [of "1 / 2 ^ 32" "1 / 4294967088"] two_power_double(1) by (simp add: norm_eq)
  have "(2::real) powi (-1022) \<le> 2 powi (-33)" by (rule powi2_mono) simp
  also have "\<dots> \<le> \<bar>1 / 4294967088\<bar>" by (simp add: power_int_minus divide_simps)
  finally have "\<bar>rng_norm - 1 / 4294967088\<bar> \<le> 2 powi (-53) * \<bar>1 / 4294967088\<bar>"
    unfolding norm_eq by (rule to_double_relerror)
  then have "rng_norm \<le> 1 / 4294967088 + 2 powi (-53) * \<bar>1 / 4294967088\<bar>" unfolding abs_le_iff by argo
  moreover have "(2::real) powi (-53) = 1 / 2 ^ 53" by (simp add: power_int_minus inverse_eq_divide)
  ultimately have "rng_norm \<le> 1 / 4294967088 + 1 / 2 ^ 53 * (1 / 4294967088)" by simp
  then show "4294967087 * rng_norm \<le> 1 - 1 / 2 ^ 33" by simp
qed

lemma draw_bounds:
  assumes "1 \<le> z" and "z \<le> n1"
  shows "1 / 2 ^ 33 \<le> dmul (of_int z) rng_norm" "dmul (of_int z) rng_norm \<le> 1 - 1 / 2 ^ 33"
proof -
  have z: "1 \<le> (of_int z :: real)" "(of_int z :: real) \<le> 4294967087"
    using assms unfolding n1_def by linarith+
  have "1 * (1 / 2 ^ 32) \<le> of_int z * rng_norm" using z norm_bounds(1) by (intro mult_mono) auto
  then have "1 / 2 ^ 33 \<le> of_int z * rng_norm" by simp
  then have "to_double (1 / 2 ^ 33) \<le> to_double (of_int z * rng_norm)" by (intro to_double_mono) auto
  then show "1 / 2 ^ 33 \<le> dmul (of_int z) rng_norm" by (simp only: two_power_double dmul_def)
  have "0 \<le> rng_norm" using norm_bounds(1) by (rule order_trans [rotated]) simp
  then have "of_int z * rng_norm \<le> 4294967087 * rng_norm" using z by (intro mult_right_mono)
  then have "of_int z * rng_norm \<le> 1 - 1 / 2 ^ 33" using norm_bounds(2) by linarith
  moreover have "0 \<le> of_int z * rng_norm" using z \<open>0 \<le> rng_norm\<close> by simp
  ultimately have "to_double (of_int z * rng_norm) \<le> to_double (1 - 1 / 2 ^ 33)" by (intro to_double_mono)
  then show "dmul (of_int z) rng_norm \<le> 1 - 1 / 2 ^ 33" by (simp only: two_power_double dmul_def)
qed

lemma antithetic_bounds:
  assumes "1 / 2 ^ 33 \<le> u" and "u \<le> 1 - 1 / 2 ^ 33"
  shows "1 / 2 ^ 33 \<le> dsub 1 u" "dsub 1 u \<le> 1 - 1 / 2 ^ 33"
proof -
  have "to_double (1 / 2 ^ 33) \<le> to_double (1 - u)" "to_double (1 - u) \<le> to_double (1 - 1 / 2 ^ 33)"
    using assms by (intro to_double_mono; simp)+
  then show "1 / 2 ^ 33 \<le> dsub 1 u" "dsub 1 u \<le> 1 - 1 / 2 ^ 33"
    by (simp_all only: two_power_double dsub_def)
qed

lemma mrg_value_range:
  assumes "residues n1 (fst s)" and "residues n2 (snd s)"
  shows "1 \<le> mrg_value s" "mrg_value s \<le> n1"
  using assms by (cases s; auto simp: mrg_value_def n1_def n2_def Let_def)+

text \<open>A component of the recurrence, in \<open>double\<close>.\<close>

lemma component_exact:
  assumes "modulus_ok m" and "0 \<le> x" "x < m" and "0 \<le> y" "y < m" and "0 \<le> a" "a \<le> 1500000" and "0 \<le> b" "b \<le> 1500000"
  shows "mod_reduce (dsub (dmul (of_int a) (of_int x)) (dmul (of_int b) (of_int y))) (of_int m) =
    of_int ((a * x - b * y) mod m)"
proof -
  have "a * x \<le> 1500000 * 2 ^ 32" "b * y \<le> 1500000 * 2 ^ 32"
    by (rule mult_mono; use assms in \<open>simp add: modulus_ok_def\<close>)+
  then have le: "a * x \<le> 1500000 * 2 ^ 32" "b * y \<le> 1500000 * 2 ^ 32" "0 \<le> a * x" "0 \<le> b * y"
    using assms by simp_all
  have "dmul (of_int a) (of_int x) = of_int (a * x)" by (rule dmul_int) (use le in simp)
  moreover have "dmul (of_int b) (of_int y) = of_int (b * y)" by (rule dmul_int) (use le in simp)
  moreover have "dsub (of_int (a * x)) (of_int (b * y)) = of_int (a * x - b * y)"
    by (rule dsub_int) (use le in simp)
  ultimately show ?thesis using mod_reduce_exact [of "a * x - b * y" m] le assms(1)
    by (simp only:) (simp add: modulus_ok_def)
qed

lemma U01_exact:
  assumes "mrg_valid s" and "Cg r = six_real s"
  defines "d \<equiv> dmul (of_int (mrg_value (mrg_step s))) rng_norm"
  shows "U01 r = (if anti r then dsub 1 d else d, r\<lparr>Cg := six_real (mrg_step s)\<rparr>)"
proof -
  obtain x0 x1 x2 y0 y1 y2 where s: "s = ((x0, x1, x2), (y0, y1, y2))" by (metis surj_pair)
  define p q where "p = (1403580 * x1 - 810728 * x0) mod n1" and "q = (527612 * y2 - 1370589 * y0) mod n2"
  have p: "mod_reduce (dsub (dmul 1403580 (of_int x1)) (dmul 810728 (of_int x0))) m1 = of_int p"
    using component_exact [of n1 x1 x0 1403580 810728] assms(1) by (simp add: moduli s mrg_valid_def p_def)
  have q: "mod_reduce (dsub (dmul 527612 (of_int y2)) (dmul 1370589 (of_int y0))) m2 = of_int q"
    using component_exact [of n2 y2 y0 527612 1370589] assms(1) by (simp add: moduli s mrg_valid_def q_def)
  have pq: "0 \<le> p" "p < 2 ^ 32" "0 \<le> q" "q < 2 ^ 32"
    using pos_mod_bound [OF moduli(1)] pos_mod_bound [OF moduli(2)] moduli(1,2)
    unfolding p_def q_def by (simp_all add: n1_def n2_def)
  have a: "dsub (of_int p) (of_int q) = of_int (p - q)" by (rule dsub_int) (use pq in simp)
  have b: "dadd (of_int (p - q)) m1 = of_int (p - q + n1)"
    unfolding moduli(5) by (rule dadd_int) (use pq in \<open>simp add: n1_def\<close>)
  have "mrg_value (mrg_step s) = (if p > q then p - q else p - q + n1)"
    by (simp add: s mrg_value_def p_def q_def)
  then have "d = (if (of_int p :: real) > of_int q then dmul (dsub (of_int p) (of_int q)) rng_norm
      else dmul (dadd (dsub (of_int p) (of_int q)) m1) rng_norm)"
    unfolding d_def a b of_int_less_iff by simp
  then show ?thesis
    unfolding U01.simps assms(2) s six_map_def
    by (simp add: p q p_def [symmetric] q_def [symmetric] Let_def)
qed

section \<open>Jumps\<close>

text \<open>\<open>w\<close> is \<open>k\<close> steps of \<open>A\<close> after \<open>v\<close>, or \<open>- k\<close> steps before it.\<close>

definition moved :: "int \<Rightarrow> int mat3 \<Rightarrow> int \<Rightarrow> int vec3 \<Rightarrow> int vec3 \<Rightarrow> bool" where
  "moved m A k v w \<longleftrightarrow>
     residues m v \<and> residues m w \<and> (if k \<ge> 0 then w = (mvm m A ^^ nat k) v else (mvm m A ^^ nat (- k)) w = v)"

lemma inverse_step:
  assumes "mmm m Q A = one3 TYPE(int)" and "residues m v"
  shows "mvm m Q (mvm m A v) = v"
  using assms by (metis mvm_mmm mvm_one3)

lemma inverse_steps:
  assumes "0 < m" and "mmm m Q A = one3 TYPE(int)" and "residues m v"
  shows "(mvm m Q ^^ n) ((mvm m A ^^ n) v) = v"
proof (induction n)
  case (Suc n)
  have "(mvm m Q ^^ Suc n) ((mvm m A ^^ Suc n) v) = (mvm m Q ^^ n) (mvm m Q (mvm m A ((mvm m A ^^ n) v)))"
    by (simp add: funpow_swap1)
  then show ?case using inverse_step [OF assms(2) residues_steps [OF assms(1,3)]] Suc by simp
qed simp

lemma steps_inject:
  assumes "0 < m" and "mmm m Q A = one3 TYPE(int)" and "residues m v" "residues m w"
    and "(mvm m A ^^ n) v = (mvm m A ^^ n) w"
  shows "v = w"
  using inverse_steps [OF assms(1,2,3)] inverse_steps [OF assms(1,2,4)] assms(5) by metis

lemma moved_trans:
  assumes m: "0 < m" and Q: "mmm m Q A = one3 TYPE(int)" and k: "moved m A k u v" and j: "moved m A j v w"
  shows "moved m A (k + j) u w"
proof -
  let ?s = "\<lambda>n. mvm m A ^^ n"
  have r: "residues m u" "residues m v" "residues m w" using k j unfolding moved_def by blast+
  have inj: "?s n x = ?s n y \<Longrightarrow> x = y" if "residues m x" "residues m y" for n x y
    using steps_inject [OF m Q that] .
  have add: "?s a (?s b x) = ?s (a + b) x" for a b x by (simp add: funpow_add)
  show ?thesis
  proof (cases "k \<ge> 0"; cases "j \<ge> 0")
    assume kj: "k \<ge> 0" "j \<ge> 0"
    then have "w = ?s (nat j) (?s (nat k) u)" "nat (k + j) = nat j + nat k" using k j by (simp_all add: moved_def)
    then have "w = ?s (nat (k + j)) u" by (simp only: add)
    then show ?thesis using kj r unfolding moved_def by simp
  next
    assume kj: "k \<ge> 0" "\<not> j \<ge> 0"
    then have e: "?s (nat (- j)) w = ?s (nat k) u" using k j by (simp add: moved_def)
    show ?thesis
    proof (cases "k + j \<ge> 0")
      case True
      then have "nat k = nat (- j) + nat (k + j)" using kj by simp
      then have "?s (nat (- j)) w = ?s (nat (- j)) (?s (nat (k + j)) u)" using e add by simp
      then have "w = ?s (nat (k + j)) u" using inj r residues_steps [OF m r(1)] by blast
      then show ?thesis using True r unfolding moved_def by simp
    next
      case False
      then have "nat (- j) = nat k + nat (- (k + j))" using kj by simp
      then have "?s (nat k) (?s (nat (- (k + j))) w) = ?s (nat k) u" using e add by simp
      then have "?s (nat (- (k + j))) w = u" using inj r residues_steps [OF m r(3)] by blast
      then show ?thesis using False r unfolding moved_def by simp
    qed
  next
    assume kj: "\<not> k \<ge> 0" "j \<ge> 0"
    then have e: "?s (nat (- k)) v = u" "w = ?s (nat j) v" using k j by (simp_all add: moved_def)
    show ?thesis
    proof (cases "k + j \<ge> 0")
      case True
      then have "nat j = nat (k + j) + nat (- k)" using kj by simp
      then have "w = ?s (nat (k + j)) (?s (nat (- k)) v)" using e(2) by (simp only: add)
      then have "w = ?s (nat (k + j)) u" by (simp only: e(1))
      then show ?thesis using True r unfolding moved_def by simp
    next
      case False
      then have "nat (- k) = nat (- (k + j)) + nat j" using kj by simp
      then have "?s (nat (- (k + j))) (?s (nat j) v) = u" using e(1) by (simp only: add)
      then have "?s (nat (- (k + j))) w = u" by (simp only: e(2))
      then show ?thesis using False r unfolding moved_def by simp
    qed
  next
    assume kj: "\<not> k \<ge> 0" "\<not> j \<ge> 0"
    then have "nat (- (k + j)) = nat (- k) + nat (- j)" by simp
    then have "?s (nat (- (k + j))) w = ?s (nat (- k)) (?s (nat (- j)) w)" by (simp only: add)
    then have "?s (nat (- (k + j))) w = u" using k j kj by (simp add: moved_def)
    then show ?thesis using kj r unfolding moved_def by simp
  qed
qed

lemma moved_jump:
  assumes "0 < m" and "jumps m A n P" and "residues m v"
  shows "moved m A (int n) v (mvm m P v)"
  using assms by (simp add: moved_def jumpsD residues_steps)

lemma moved_back:
  assumes "0 < m" and "mmm m A Q = one3 TYPE(int)" and "jumps m Q n P" and "residues m v"
  shows "moved m A (- int n) v (mvm m P v)"
proof (cases "n = 0")
  case False
  then show ?thesis
    using assms jumpsD [OF assms(3,4)] inverse_steps [OF assms(1,2,4)] by (simp add: moved_def residues_steps)
qed (use assms in \<open>simp add: moved_def jumpsD\<close>)

definition advance_offset :: "int \<Rightarrow> int \<Rightarrow> int" where
  "advance_offset e c = (if e > 0 then 2 ^ nat e + c else if e < 0 then - (2 ^ nat (- e)) + c else c)"

lemma advance_matrix_exact:
  assumes m: "modulus_ok m" and A: "start_mat m A" "start_mat m Q"
    and Q: "mmm m Q A = one3 TYPE(int)" "mmm m A Q = one3 TYPE(int)" and v: "residues m v"
  obtains w where "MatVecModM (advance_matrix A Q (of_int m) e c) (vec_real v) (of_int m) = vec_real w"
    "moved m A (advance_offset e c) v w"
proof -
  note pos = modulus_pos [OF m] and result = that
  obtain C where C: "(if c \<ge> 0 then MatPowModM (mat_real A) (of_int m) c else MatPowModM (mat_real Q) (of_int m) (- c)) = mat_real C"
    "all3 (residues m) C" "moved m A c v (mvm m C v)"
  proof (cases "c \<ge> 0")
    case True
    obtain P where P: "MatPowModM (mat_real A) (of_int m) c = mat_real P" "all3 (residues m) P" "jumps m A (nat c) P"
      by (rule MatPowModM_exact [OF m A(1)])
    show ?thesis using that [OF _ P(2)] P(1) True moved_jump [OF pos P(3) v] by simp
  next
    case False
    obtain P where P: "MatPowModM (mat_real Q) (of_int m) (- c) = mat_real P" "all3 (residues m) P" "jumps m Q (nat (- c)) P"
      by (rule MatPowModM_exact [OF m A(2)])
    show ?thesis using that [OF _ P(2)] P(1) False moved_back [OF pos Q(2) P(3) v] by simp
  qed
  have vC: "MatVecModM (mat_real C) (vec_real v) (of_int m) = vec_real (mvm m C v)"
    using MatVecModM_exact [OF m mat_vec_ok_residues [OF C(2) v]] .
  have rC: "residues m (mvm m C v)" by (rule residues_mvm [OF pos])
  have comp: ?thesis if "start_mat m E" "moved m A d (mvm m C v) (mvm m E (mvm m C v))" "advance_offset e c = c + d"
    "advance_matrix A Q (of_int m) e c = MatMatModM (mat_real E) (mat_real C) (of_int m)" for E d
  proof -
    have "advance_matrix A Q (of_int m) e c = mat_real (mmm m E C)"
      using MatMatModM_exact [OF m start_mul_ok [OF m that(1) C(2)]] that(4) by (simp only:)
    moreover have "MatVecModM (mat_real (mmm m E C)) (vec_real v) (of_int m) = vec_real (mvm m (mmm m E C) v)"
      using MatVecModM_exact [OF m mat_vec_ok_residues [OF residues_mmm [OF pos] v]] .
    moreover have "moved m A (advance_offset e c) v (mvm m (mmm m E C) v)"
      unfolding mvm_mmm that(3) by (rule moved_trans [OF pos Q(1) C(3) that(2)])
    ultimately show ?thesis using result by (simp only:)
  qed
  consider "e > 0" | "e < 0" | "e = 0" by linarith
  then show ?thesis
  proof cases
    case 1
    let ?E = "two_pow m A (nat e)"
    have "moved m A (int (2 ^ nat e)) (mvm m C v) (mvm m ?E (mvm m C v))"
      by (rule moved_jump [OF pos jumps_two_pow [OF pos] rC])
    moreover have "MatTwoPowModM (mat_real A) (of_int m) e = mat_real ?E" by (rule MatTwoPowModM_exact [OF m A(1)])
    ultimately show ?thesis
      by (intro comp [of ?E "2 ^ nat e"] start_two_pow [OF pos A(1)])
        (use 1 C(1) in \<open>simp_all add: advance_offset_def advance_matrix_def Let_def\<close>)
  next
    case 2
    let ?E = "two_pow m Q (nat (- e))"
    have "moved m A (- int (2 ^ nat (- e))) (mvm m C v) (mvm m ?E (mvm m C v))"
      by (rule moved_back [OF pos Q(2) jumps_two_pow [OF pos] rC])
    moreover have "MatTwoPowModM (mat_real Q) (of_int m) (- e) = mat_real ?E" by (rule MatTwoPowModM_exact [OF m A(2)])
    ultimately show ?thesis
      by (intro comp [of ?E "- (2 ^ nat (- e))"] start_two_pow [OF pos A(2)])
        (use 2 C(1) in \<open>simp_all add: advance_offset_def advance_matrix_def Let_def\<close>)
  next
    case 3
    then show ?thesis using result [of "mvm m C v"] vC C(1,3)
      by (simp add: advance_offset_def advance_matrix_def Let_def)
  qed
qed

section \<open>The invariant of a generator\<close>

definition rng_abs :: "real six \<Rightarrow> int six" where
  "rng_abs x = six_map floor x"

definition state_ok :: "real six \<Rightarrow> bool" where
  "state_ok x \<longleftrightarrow> x = six_real (rng_abs x) \<and> mrg_valid (rng_abs x)"

definition rng_ok :: "rng \<Rightarrow> bool" where
  "rng_ok r \<longleftrightarrow> state_ok (Cg r) \<and> state_ok (Bg r) \<and> state_ok (Ig r)"

lemma rng_abs_real [simp]: "rng_abs (six_real s) = s"
  by (cases s; cases "fst s"; cases "snd s") (simp add: rng_abs_def six_map_def)

lemma state_okI: "mrg_valid s \<Longrightarrow> state_ok (six_real s)"
  by (simp add: state_ok_def)

lemma state_okE: "state_ok x \<Longrightarrow> (\<And>s. x = six_real s \<Longrightarrow> mrg_valid s \<Longrightarrow> P) \<Longrightarrow> P"
  unfolding state_ok_def by blast

text \<open>The value of a draw, from the integer state after the step.\<close>

definition draw_value :: "bool \<Rightarrow> int six \<Rightarrow> real" where
  "draw_value an s = (let d = dmul (of_int (mrg_value s)) rng_norm in if an then dsub 1 d else d)"

lemma draw_value_bounds:
  assumes "mrg_valid s"
  shows "1 / 2 ^ 33 \<le> draw_value an s" "draw_value an s \<le> 1 - 1 / 2 ^ 33"
proof -
  have "1 \<le> mrg_value s" "mrg_value s \<le> n1" using mrg_value_range assms by (simp_all add: mrg_valid_def)
  note d = draw_bounds [OF this]
  show "1 / 2 ^ 33 \<le> draw_value an s" "draw_value an s \<le> 1 - 1 / 2 ^ 33"
    unfolding draw_value_def Let_def using d antithetic_bounds [OF d] by (simp_all split: if_split)
qed

lemma U01_draw:
  assumes "state_ok (Cg r)"
  defines "s \<equiv> mrg_step (rng_abs (Cg r))"
  shows "U01 r = (draw_value (anti r) s, r\<lparr>Cg := six_real s\<rparr>)" "mrg_valid s"
proof -
  have c: "Cg r = six_real (rng_abs (Cg r))" "mrg_valid (rng_abs (Cg r))" using assms(1) unfolding state_ok_def by blast+
  show "U01 r = (draw_value (anti r) s, r\<lparr>Cg := six_real s\<rparr>)"
    using U01_exact [OF c(2,1)] by (simp add: draw_value_def Let_def s_def)
  show "mrg_valid s" unfolding s_def by (rule mrg_valid_step [OF c(2)])
qed

text \<open>
  C17: One draw of the generator computes the combined recurrence exactly, although all its
  arithmetic is rounded: the state becomes the next state of MRG32k3a over the integers, the
  result is that state's value times the rounded constant 1 / (m1 + 1), it lies strictly
  between 0 and 1, and the generator remains well-formed. With the antithetic flag the
  result is its complement.
\<close>

theorem rng_draw_exact:
  assumes "rng_ok r"
  shows "\<exists>u r'. U01 r = (u, r') \<and> rng_abs (Cg r') = mrg_step (rng_abs (Cg r)) \<and> rng_ok r' \<and>
     Bg r' = Bg r \<and> Ig r' = Ig r \<and>
     u = (let d = dmul (of_int (mrg_value (rng_abs (Cg r')))) rng_norm in if anti r then dsub 1 d else d) \<and>
     0 < u \<and> u < 1"
proof -
  have c: "state_ok (Cg r)" using assms unfolding rng_ok_def by blast
  note u = U01_draw [OF c]
  have "0 < draw_value (anti r) (mrg_step (rng_abs (Cg r)))" "draw_value (anti r) (mrg_step (rng_abs (Cg r))) < 1"
    using draw_value_bounds [OF u(2), of "anti r"] by (auto simp: field_simps)
  then show ?thesis using assms state_okI [OF u(2)] unfolding u(1) rng_ok_def
    by (simp add: draw_value_def)
qed

section \<open>Streams and substreams\<close>

lemma jump_tables:
  assumes "mrg_valid s"
  shows "(MatVecModM (mat_real A1p76) (fst (six_real s)) m1, MatVecModM (mat_real A2p76) (snd (six_real s)) m2) =
      six_real ((mrg_step ^^ 2 ^ 76) s)"
    and "(MatVecModM (mat_real A1p127) (fst (six_real s)) m1, MatVecModM (mat_real A2p127) (snd (six_real s)) m2) =
      six_real ((mrg_step ^^ 2 ^ 127) s)"
proof -
  obtain v w where s: "s = (v, w)" by (cases s)
  have r: "residues n1 v" "residues n2 w" using assms by (simp_all add: s mrg_valid_def)
  have e: "MatVecModM (mat_real (two_pow n1 A1p0 e)) (vec_real v) m1 = vec_real ((mvm n1 A1p0 ^^ 2 ^ e) v)"
    if "e > 0" for e
  proof -
    obtain k where "e = Suc k" using \<open>e > 0\<close> by (cases e) auto
    then have "all3 (residues n1) (two_pow n1 A1p0 e)" using residues_mmm [OF moduli(1)] by (simp add: two_pow_def)
    then show ?thesis
      using MatVecModM_exact [OF moduli(3) mat_vec_ok_residues [OF _ r(1)]] jumpsD [OF jumps_two_pow [OF moduli(1)] r(1)]
      by (simp only: moduli(5))
  qed
  have f: "MatVecModM (mat_real (two_pow n2 A2p0 e)) (vec_real w) m2 = vec_real ((mvm n2 A2p0 ^^ 2 ^ e) w)"
    if "e > 0" for e
  proof -
    obtain k where "e = Suc k" using \<open>e > 0\<close> by (cases e) auto
    then have "all3 (residues n2) (two_pow n2 A2p0 e)" using residues_mmm [OF moduli(2)] by (simp add: two_pow_def)
    then show ?thesis
      using MatVecModM_exact [OF moduli(4) mat_vec_ok_residues [OF _ r(2)]] jumpsD [OF jumps_two_pow [OF moduli(2)] r(2)]
      by (simp only: moduli(6))
  qed
  show "(MatVecModM (mat_real A1p76) (fst (six_real s)) m1, MatVecModM (mat_real A2p76) (snd (six_real s)) m2) =
      six_real ((mrg_step ^^ 2 ^ 76) s)"
    using e [of 76] f [of 76] by (simp only: power_tables s mrg_steps_mvm [OF r] six_map_def fst_conv snd_conv zero_less_numeral simp_thms)
  show "(MatVecModM (mat_real A1p127) (fst (six_real s)) m1, MatVecModM (mat_real A2p127) (snd (six_real s)) m2) =
      six_real ((mrg_step ^^ 2 ^ 127) s)"
    using e [of 127] f [of 127] by (simp only: power_tables s mrg_steps_mvm [OF r] six_map_def fst_conv snd_conv zero_less_numeral simp_thms)
qed

lemma next_substream:
  assumes "state_ok (Bg r)"
  obtains b where "reset_next_substream r = r\<lparr>Bg := b, Cg := b\<rparr>" "state_ok b"
    "rng_abs b = (mrg_step ^^ 2 ^ 76) (rng_abs (Bg r))"
proof -
  obtain s where s: "Bg r = six_real s" "mrg_valid s" using assms(1) by (rule state_okE)
  show ?thesis
  proof (rule that)
    show "reset_next_substream r = r\<lparr>Bg := six_real ((mrg_step ^^ 2 ^ 76) s), Cg := six_real ((mrg_step ^^ 2 ^ 76) s)\<rparr>"
      unfolding reset_next_substream_def s(1) jump_tables(1) [OF s(2)] Let_def by (rule refl)
  qed (unfold s(1) rng_abs_real, rule state_okI [OF mrg_valid_steps [OF s(2)]], rule refl)
qed

lemma init_stream:
  assumes "state_ok x"
  obtains y where "rng_init x = (\<lparr>Cg = x, Bg = x, Ig = x, anti = False, inc_prec = False\<rparr>, y)" "state_ok y"
    "rng_abs y = (mrg_step ^^ 2 ^ 127) (rng_abs x)"
proof -
  obtain s where s: "x = six_real s" "mrg_valid s" using assms(1) by (rule state_okE)
  show ?thesis
  proof (rule that)
    show "rng_init x = (\<lparr>Cg = x, Bg = x, Ig = x, anti = False, inc_prec = False\<rparr>, six_real ((mrg_step ^^ 2 ^ 127) s))"
      unfolding rng_init_def s(1) jump_tables(2) [OF s(2)] by (rule refl)
  qed (unfold s(1) rng_abs_real, rule state_okI [OF mrg_valid_steps [OF s(2)]], rule refl)
qed

lemma nonzero_before:
  assumes "(mvm m A ^^ n) v' = v" and "v \<noteq> (0, 0, 0)"
  shows "v' \<noteq> (0, 0, 0)"
proof
  assume "v' = (0, 0, 0)"
  moreover have "(mvm m A ^^ n) (0, 0, 0) = (0, 0, 0)" by (induction n) (simp_all add: mvm_zero)
  ultimately show False using assms by simp
qed

text \<open>
  C18: The substreams and streams are as far apart as documented. Resetting to the next
  substream puts the generator 2^76 steps after the start of the current one, and two
  generators initialised in succession start 2^127 steps apart; both leave every state
  well-formed.
\<close>

theorem rng_streams_spaced:
  assumes "rng_ok r" and "state_ok next_seed"
    and "rng_init next_seed = (r1, seed1)" and "rng_init seed1 = (r2, seed2)"
  shows "rng_abs (Cg (reset_next_substream r)) = (mrg_step ^^ 2 ^ 76) (rng_abs (Bg r)) \<and>
     Bg (reset_next_substream r) = Cg (reset_next_substream r) \<and> rng_ok (reset_next_substream r) \<and>
     Cg r1 = next_seed \<and> rng_abs (Cg r2) = (mrg_step ^^ 2 ^ 127) (rng_abs (Cg r1)) \<and>
     rng_ok r1 \<and> rng_ok r2 \<and> state_ok seed2"
proof -
  have r: "state_ok (Bg r)" "state_ok (Ig r)" using assms(1) unfolding rng_ok_def by blast+
  obtain b where b: "reset_next_substream r = r\<lparr>Bg := b, Cg := b\<rparr>" "state_ok b"
    "rng_abs b = (mrg_step ^^ 2 ^ 76) (rng_abs (Bg r))" by (rule next_substream [OF r(1)])
  obtain y where y: "rng_init next_seed =
      (\<lparr>Cg = next_seed, Bg = next_seed, Ig = next_seed, anti = False, inc_prec = False\<rparr>, y)" "state_ok y"
    "rng_abs y = (mrg_step ^^ 2 ^ 127) (rng_abs next_seed)" by (rule init_stream [OF assms(2)])
  obtain z where z: "rng_init y = (\<lparr>Cg = y, Bg = y, Ig = y, anti = False, inc_prec = False\<rparr>, z)" "state_ok z"
    "rng_abs z = (mrg_step ^^ 2 ^ 127) (rng_abs y)" by (rule init_stream [OF y(2)])
  have e: "r1 = \<lparr>Cg = next_seed, Bg = next_seed, Ig = next_seed, anti = False, inc_prec = False\<rparr>" "seed1 = y"
    "r2 = \<lparr>Cg = y, Bg = y, Ig = y, anti = False, inc_prec = False\<rparr>" "seed2 = z"
    using assms(3,4) y(1) z(1) by simp_all
  show ?thesis unfolding b(1) e rng_ok_def using b(2,3) y(2,3) z(2) r(2) assms(2) by simp
qed

text \<open>
  C23: \<open>advance_state(e, c)\<close> moves the generator by n = 2^e + c steps (n = c - 2^-e for a
  negative e): forward when n is positive, and backward when it is negative, so that -n
  ordinary steps lead back to the old state. The other states are untouched.
\<close>

theorem rng_advance_state:
  assumes "rng_ok r"
  shows "(if advance_offset e c \<ge> 0
      then rng_abs (Cg (advance_state e c r)) = (mrg_step ^^ nat (advance_offset e c)) (rng_abs (Cg r))
      else (mrg_step ^^ nat (- advance_offset e c)) (rng_abs (Cg (advance_state e c r))) = rng_abs (Cg r)) \<and>
     rng_ok (advance_state e c r) \<and> Bg (advance_state e c r) = Bg r \<and> Ig (advance_state e c r) = Ig r"
proof -
  obtain s where s: "Cg r = six_real s" "mrg_valid s" using assms unfolding rng_ok_def by (blast elim: state_okE)
  obtain v w where vw: "s = (v, w)" by (cases s)
  have rs: "residues n1 v" "residues n2 w" using s(2) by (simp_all add: vw mrg_valid_def)
  have start: "start_mat n1 A1p0" "start_mat n1 InvA1" "start_mat n2 A2p0" "start_mat n2 InvA2"
    by (simp_all add: start_mat_def A1p0_def InvA1_def A2p0_def InvA2_def n1_def n2_def)
  obtain v' where v: "MatVecModM (advance_matrix A1p0 InvA1 m1 e c) (vec_real v) m1 = vec_real v'"
    "moved n1 A1p0 (advance_offset e c) v v'"
    unfolding moduli(5) by (rule advance_matrix_exact [OF moduli(3) start(1,2) inverse_tables(1,2) rs(1)])
  obtain w' where w: "MatVecModM (advance_matrix A2p0 InvA2 m2 e c) (vec_real w) m2 = vec_real w'"
    "moved n2 A2p0 (advance_offset e c) w w'"
    unfolding moduli(6) by (rule advance_matrix_exact [OF moduli(4) start(3,4) inverse_tables(3,4) rs(2)])
  have eq: "advance_state e c r = r\<lparr>Cg := six_real (v', w')\<rparr>"
    unfolding advance_state_def s(1) vw six_map_def fst_conv snd_conv v(1) w(1) by (rule refl)
  have r': "residues n1 v'" "residues n2 w'" using v(2) w(2) unfolding moved_def by blast+
  have to: "(if advance_offset e c \<ge> 0 then (v', w') = (mrg_step ^^ nat (advance_offset e c)) (v, w)
      else (mrg_step ^^ nat (- advance_offset e c)) (v', w') = (v, w))"
    using v(2) w(2) unfolding moved_def mrg_steps_mvm [OF rs] mrg_steps_mvm [OF r'] by presburger
  have "mrg_valid (v', w')"
  proof (cases "advance_offset e c \<ge> 0")
    case True
    then show ?thesis using to mrg_valid_steps [OF s(2)] unfolding vw by presburger
  next
    case False
    then have "(mvm n1 A1p0 ^^ nat (- advance_offset e c)) v' = v" "(mvm n2 A2p0 ^^ nat (- advance_offset e c)) w' = w"
      using v(2) w(2) by (simp_all add: moved_def)
    moreover have "v \<noteq> (0, 0, 0)" "w \<noteq> (0, 0, 0)" using s(2) by (simp_all add: vw mrg_valid_def)
    ultimately have "v' \<noteq> (0, 0, 0)" "w' \<noteq> (0, 0, 0)"
      using nonzero_before [where m = n1 and A = A1p0] nonzero_before [where m = n2 and A = A2p0] by blast+
    then show ?thesis using r' unfolding mrg_valid_def by simp
  qed
  then have "rng_ok (advance_state e c r)" using assms state_okI unfolding eq rng_ok_def by simp
  then show ?thesis using to unfolding eq s(1) vw by simp
qed

section \<open>Integer draws and extended precision\<close>

lemma to_double_below:
  assumes "0 \<le> x" and "to_double x < 1"
  shows "to_double x \<le> 1 - 1 / 2 ^ 53"
proof (rule ccontr)
  define y where "y = to_double x"
  assume "\<not> to_double x \<le> 1 - 1 / 2 ^ 53"
  then have y: "1 - 1 / 2 ^ 53 < y" "y < 1" using assms by (simp_all add: y_def)
  have "ilog2 y = -1" by (rule ilog2_unique) (use y in \<open>simp_all add: power_int_minus\<close>)
  then have "y = of_int (rne (y * 2 ^ 53)) / 2 ^ 53"
    using fl_round_ulp [of y 53 "-1022"] y to_double_idem [of x]
    by (simp add: to_double_def [symmetric] y_def [symmetric] power_int_minus divide_simps)
  then obtain k :: int where k: "y * 2 ^ 53 = of_int k" by (metis eq_divide_eq zero_less_numeral zero_less_power less_irrefl)
  have "(2 ^ 53 - 1 :: real) < y * 2 ^ 53" "y * 2 ^ 53 < 2 ^ 53" using y by (simp_all add: field_simps)
  then have "(of_int (2 ^ 53 - 1) :: real) < of_int k" "(of_int k :: real) < of_int (2 ^ 53)"
    by (simp_all add: k [symmetric])
  then show False unfolding of_int_less_iff by linarith
qed

text \<open>A uniform value scaled by an integer and truncated stays below that integer.\<close>

lemma scaled_below:
  assumes "0 \<le> u" and "u \<le> 1 - 1 / 2 ^ 53" and "1 \<le> n"
  shows "dmul (of_int n) u < of_int n"
proof -
  define x where "x = of_int n * u"
  have n: "1 \<le> (of_int n :: real)" using assms(3) by simp
  have x0: "0 \<le> x" unfolding x_def using assms(1) n by simp
  have x: "x \<le> of_int n * (1 - 1 / 2 ^ 53)" unfolding x_def using assms(2) n by (intro mult_left_mono) auto
  have "to_double x < of_int n"
  proof (cases "x \<le> 1 / 2")
    case True
    have "to_double (1 / 2) = 1 / 2" by (rule to_double_exact [where m = 1 and k = "-1"]) (simp_all add: power_int_minus)
    then show ?thesis using to_double_mono [OF x0 True] n by linarith
  next
    case False
    have "(2::real) powi (-1022) \<le> 2 powi (-1)" by (rule powi2_mono) simp
    then have "2 powi (-1022) \<le> \<bar>x\<bar>" using False by (simp add: power_int_minus)
    then have "\<bar>to_double x - x\<bar> \<le> 2 powi (-53) * \<bar>x\<bar>" by (rule to_double_relerror)
    then have "to_double x - x \<le> 2 powi (-53) * x" using x0 by (metis abs_le_iff abs_of_nonneg)
    then have "to_double x \<le> x + 2 powi (-53) * x" by (simp only: diff_le_eq add.commute)
    also have "\<dots> = x * (1 + 1 / 2 ^ 53)" by (simp add: power_int_minus inverse_eq_divide distrib_left)
    also have "\<dots> \<le> of_int n * (1 - 1 / 2 ^ 53) * (1 + 1 / 2 ^ 53)" using x by (intro mult_right_mono) auto
    also have "\<dots> = of_int n * (1 - 1 / 2 ^ 106)" by (simp add: field_simps)
    also have "\<dots> < of_int n" using n by simp
    finally show ?thesis .
  qed
  then show ?thesis by (simp add: dmul_def x_def)
qed

lemma U01_ok:
  assumes "state_ok (Cg r)" and "U01 r = (u, r')"
  shows "1 / 2 ^ 33 \<le> u" "u \<le> 1 - 1 / 2 ^ 33" "state_ok (Cg r')" "r' = r\<lparr>Cg := Cg r'\<rparr>"
proof -
  have e: "u = draw_value (anti r) (mrg_step (rng_abs (Cg r)))" "r' = r\<lparr>Cg := six_real (mrg_step (rng_abs (Cg r)))\<rparr>"
    using U01_draw(1) [OF assms(1)] assms(2) by simp_all
  note v = U01_draw(2) [OF assms(1)]
  show "1 / 2 ^ 33 \<le> u" "u \<le> 1 - 1 / 2 ^ 33" unfolding e(1) by (rule draw_value_bounds [OF v])+
  show "state_ok (Cg r')" "r' = r\<lparr>Cg := Cg r'\<rparr>" unfolding e(2) by (simp_all add: state_okI [OF v])
qed

lemma small_double: "to_double (1 / 2 ^ 24) = 1 / 2 ^ 24" "to_double (1 / 2 ^ 57) = 1 / 2 ^ 57"
  by (rule to_double_exact [where m = 1 and k = "-24"] to_double_exact [where m = 1 and k = "-57"];
    simp add: power_int_minus divide_simps)+

lemma double_1 [simp]: "to_double 1 = 1"
  using to_double_of_int [of 1] by simp

lemma extended_plain:
  assumes u: "1 / 2 ^ 33 \<le> u" "u \<le> 1 - 1 / 2 ^ 33" and w: "1 / 2 ^ 33 \<le> w" "w \<le> 1 - 1 / 2 ^ 33"
  defines "t \<equiv> dadd u (dmul w rng_fact)"
  shows "0 \<le> (if t < 1 then t else dsub t 1) \<and> (if t < 1 then t else dsub t 1) \<le> 1 - 1 / 2 ^ 53"
proof -
  have "0 \<le> w * rng_fact" "w * rng_fact \<le> 1 / 2 ^ 24" using w by (simp_all add: rng_fact_def)
  then have d: "0 \<le> dmul w rng_fact" "dmul w rng_fact \<le> 1 / 2 ^ 24"
    unfolding dmul_def using to_double_nonneg to_double_mono small_double(1) by (blast, metis)
  have s: "0 \<le> u + dmul w rng_fact" "u + dmul w rng_fact \<le> 3 / 2" using u d by simp_all
  have t: "0 \<le> t" "t \<le> 3 / 2"
  proof -
    show "0 \<le> t" unfolding t_def dadd_def by (rule to_double_nonneg [OF s(1)])
    have "to_double (3 / 2) = 3 / 2" by (rule to_double_exact [where m = 3 and k = "-1"]) (simp_all add: power_int_minus)
    then show "t \<le> 3 / 2" unfolding t_def dadd_def using to_double_mono [OF s] by simp
  qed
  show ?thesis
  proof (cases "t < 1")
    case True
    then show ?thesis using t to_double_below [OF s(1)] by (simp add: t_def dadd_def)
  next
    case False
    have "to_double (1 / 2) = 1 / 2" by (rule to_double_exact [where m = 1 and k = "-1"]) (simp_all add: power_int_minus)
    then have "0 \<le> dsub t 1" "dsub t 1 \<le> 1 / 2"
      unfolding dsub_def using False t to_double_nonneg [of "t - 1"] to_double_mono [of "t - 1" "1 / 2"] by simp_all
    then show ?thesis using False by simp
  qed
qed

lemma rand_u01_range:
  assumes "rng_ok r" and "\<not> (inc_prec r \<and> anti r)" and "rand_u01 r = (u, r')"
  shows "0 \<le> u" "u \<le> 1 - 1 / 2 ^ 53" "rng_ok r'" "inc_prec r' = inc_prec r" "anti r' = anti r"
proof -
  have ok: "state_ok (Cg r)" "state_ok (Bg r)" "state_ok (Ig r)" using assms(1) unfolding rng_ok_def by blast+
  obtain v q where q: "U01 r = (v, q)" by (cases "U01 r") blast
  note a = U01_ok [OF ok(1) q]
  obtain w p where p: "U01 q = (w, p)" by (cases "U01 q") blast
  note b = U01_ok [OF a(3) p]
  have fq: "Bg q = Bg r" "Ig q = Ig r" "anti q = anti r" "inc_prec q = inc_prec r" by (subst a(4), simp)+
  have "Bg p = Bg q" "Ig p = Ig q" "anti p = anti q" "inc_prec p = inc_prec q" by (subst b(4), simp)+
  note fp = this [unfolded fq]
  have all: "0 \<le> u \<and> u \<le> 1 - 1 / 2 ^ 53 \<and> rng_ok r' \<and> inc_prec r' = inc_prec r \<and> anti r' = anti r"
  proof (cases "inc_prec r")
    case False
    then have "u = v" "r' = q" using assms(3) q by (simp_all add: rand_u01_def)
    moreover have "0 \<le> v \<and> v \<le> 1 - 1 / 2 ^ 53" using a(1,2) by simp
    moreover have "rng_ok q" using ok a(3) fq by (simp add: rng_ok_def)
    ultimately show ?thesis using fq by simp
  next
    case True
    then have na: "\<not> anti r" using assms(2) by simp
    then have "u = (if dadd v (dmul w rng_fact) < 1 then dadd v (dmul w rng_fact) else dsub (dadd v (dmul w rng_fact)) 1)" "r' = p"
      using assms(3) q p True fp by (auto simp: rand_u01_def U01d_def Let_def)
    moreover have "rng_ok p" using ok b(3) fp by (simp add: rng_ok_def)
    ultimately show ?thesis using extended_plain [OF a(1,2) b(1,2)] fp by simp
  qed
  then show "0 \<le> u" "u \<le> 1 - 1 / 2 ^ 53" "rng_ok r'" "inc_prec r' = inc_prec r" "anti r' = anti r" by blast+
qed

lemma rand_int_in_range:
  assumes "rng_ok r" and "\<not> (inc_prec r \<and> anti r)" and "lo \<le> hi" and "hi - lo < 2 ^ 53"
    and "- (2 ^ 63) \<le> lo" and "hi < 2 ^ 63" and "rand_int lo hi r = (x, r')"
  shows "lo \<le> x \<and> x \<le> hi \<and> rng_ok r'"
proof -
  obtain u q where q: "rand_u01 r = (u, q)" by (cases "rand_u01 r") blast
  note u = rand_u01_range [OF assms(1,2) q]
  define n where "n = hi - lo + 1"
  have n: "1 \<le> n" "n \<le> 2 ^ 53" using assms(3,4) by (simp_all add: n_def)
  have w: "uint (word_of_int n :: 64 word) = n" using n by (simp add: uint_word_of_int mod_pos_pos_trivial)
  define k where "k = c_trunc (dmul (of_int n) u)"
  have "0 \<le> dmul (of_int n) u" unfolding dmul_def using n u(1) by (intro to_double_nonneg) simp
  then have k: "0 \<le> k" "k < n"
    using scaled_below [OF u(1,2) n(1)] by (auto simp: k_def c_trunc_def floor_less_iff)
  have x: "x = sint (word_of_int (lo + k) :: 64 word)" "r' = q"
    using assms(7) q long_double_int [of n] n w by (simp_all add: rand_int_def n_def [symmetric] k_def)
  have "x = signed_take_bit 63 (lo + k)" unfolding x(1) sint_sbintrunc' by simp
  also have "\<dots> = lo + k"
    by (rule signed_take_bit_int_eq_self) (use k assms(5,6) in \<open>simp_all add: n_def\<close>)
  finally show ?thesis using k x(2) u(3) by (simp add: n_def)
qed

text \<open>
  C38: Integer draws stay in their documented range: \<open>rand_int(low, high)\<close> returns a number
  from low to high for every range of at most 2^53 numbers, and \<open>uniform_positive_int\<close>
  a number from 0 to MAXINT, in every mode except extended precision with antithetic
  variates; both keep the generator well-formed.
\<close>

theorem rng_integers_in_range:
  assumes "rng_ok r" and "\<not> (inc_prec r \<and> anti r)" and "lo \<le> hi" and "hi - lo < 2 ^ 53"
    and "- (2 ^ 63) \<le> lo" and "hi < 2 ^ 63"
  shows "lo \<le> fst (rand_int lo hi r) \<and> fst (rand_int lo hi r) \<le> hi \<and> rng_ok (snd (rand_int lo hi r)) \<and>
     0 \<le> fst (uniform_positive_int r) \<and> fst (uniform_positive_int r) \<le> MAXINT"
proof -
  obtain x p where p: "rand_int lo hi r = (x, p)" by (cases "rand_int lo hi r") blast
  obtain y q where q: "rand_int 0 MAXINT r = (y, q)" by (cases "rand_int 0 MAXINT r") blast
  have y: "0 \<le> y \<and> y \<le> MAXINT"
    using rand_int_in_range [OF assms(1,2) _ _ _ _ q] by (simp add: MAXINT_def)
  have "uniform_positive_int r = (signed_take_bit 31 y, q)"
    using q by (simp add: uniform_positive_int_def rng_next_def sint_sbintrunc')
  also have "signed_take_bit 31 y = y" by (rule signed_take_bit_int_eq_self) (use y in \<open>simp_all add: MAXINT_def\<close>)
  finally show ?thesis using rand_int_in_range [OF assms p] y p by simp
qed

section \<open>The ends of the interval\<close>

lemma to_double_near:
  assumes "2 ^ 52 / 2 ^ j \<le> x" and "x < 2 ^ 53 / 2 ^ j" and "\<bar>x - of_int n / 2 ^ j\<bar> < 1 / 2 ^ (j + 1)" and "j \<le> 1000"
  shows "to_double x = of_int n / 2 ^ j"
proof -
  have p: "(2::real) powi (- int j) = 1 / 2 ^ j" for j by (simp add: power_int_minus inverse_eq_divide)
  have "(0::real) < 2 ^ 52 / 2 ^ j" by simp
  then have pos: "0 < x" using assms(1) by linarith
  have "ilog2 x = 52 - int j"
  proof (rule ilog2_unique)
    have a: "(2::real) powi (52 - int j) = 2 ^ 52 / 2 ^ j" "(2::real) powi (53 - int j) = 2 ^ 53 / 2 ^ j"
      by (simp_all add: power_int_diff)
    show "2 powi (52 - int j) \<le> \<bar>x\<bar>" "\<bar>x\<bar> < 2 powi (52 - int j + 1)"
      using assms(1,2) pos a by simp_all
  qed
  then have u: "ulp_of 53 (-1022) x = 1 / 2 ^ j" using assms(4) p [of j] by simp
  have "x * 2 ^ j - of_int n = (x - of_int n / 2 ^ j) * 2 ^ j" by (simp add: field_simps)
  then have "\<bar>x * 2 ^ j - of_int n\<bar> = \<bar>x - of_int n / 2 ^ j\<bar> * 2 ^ j" by (simp only: abs_mult) simp
  also have "\<dots> < 1 / 2 ^ (j + 1) * 2 ^ j" using assms(3) by (intro mult_strict_right_mono) auto
  finally have d: "\<bar>x * 2 ^ j - of_int n\<bar> < 1 / 2" by simp
  have "rne (x * 2 ^ j) = n"
  proof -
    have "\<bar>of_int (rne (x * 2 ^ j)) - x * 2 ^ j\<bar> \<le> 1 / 2" by (rule rne_error)
    then have "\<bar>of_int (rne (x * 2 ^ j)) - (of_int n :: real)\<bar> < 1" using d by linarith
    then have "\<bar>rne (x * 2 ^ j) - n\<bar> < 1" by linarith
    then show ?thesis by simp
  qed
  then show ?thesis using pos u by (simp add: to_double_def fl_round_ulp)
qed

lemma rng_norm_value: "rng_norm = 4503599845474315 / 2 ^ 84"
  unfolding norm_eq using to_double_near [of 84 _ 4503599845474315] by simp

definition zero_seed :: "int six" where
  "zero_seed = ((0, 0, 353412662), (0, 1, 0))"

definition one_seed :: "int six" where
  "one_seed = ((2754421375, 0, 3021605691), (0, 1, 0))"

definition demo_rng :: "int six \<Rightarrow> bool \<Rightarrow> bool \<Rightarrow> rng" where
  "demo_rng s an inc = \<lparr>Cg = six_real s, Bg = six_real s, Ig = six_real s, anti = an, inc_prec = inc\<rparr>"

lemma demo_rng_ok: "mrg_valid s \<Longrightarrow> rng_ok (demo_rng s an inc)"
  by (simp add: demo_rng_def rng_ok_def state_okI)

lemma seeds_valid: "mrg_valid zero_seed" "mrg_valid one_seed"
  by (simp_all add: mrg_valid_def zero_seed_def one_seed_def n1_def n2_def)

lemma seed_values:
  "mrg_value (mrg_step zero_seed) = 4294967087" "mrg_value (mrg_step (mrg_step zero_seed)) = 16777215"
  "mrg_value (mrg_step one_seed) = 4294967084" "mrg_value (mrg_step (mrg_step one_seed)) = 67108863"
  by (simp_all add: zero_seed_def one_seed_def mrg_value_def n1_def n2_def Let_def)

lemma two_draws:
  assumes "mrg_valid s"
  shows "rand_u01 (demo_rng s an True) =
    (let u = draw_value an (mrg_step s); w = draw_value an (mrg_step (mrg_step s));
         t = (if an then dadd u (dmul (dsub w 1) rng_fact) else dadd u (dmul w rng_fact))
     in (if an then if t < 0 then dadd t 1 else t else if t < 1 then t else dsub t 1,
         (demo_rng s an True)\<lparr>Cg := six_real (mrg_step (mrg_step s))\<rparr>))"
proof -
  let ?r = "demo_rng s an True"
  have a: "U01 ?r = (draw_value an (mrg_step s), ?r\<lparr>Cg := six_real (mrg_step s)\<rparr>)"
    using U01_draw(1) [of ?r] state_okI [OF assms] by (simp add: demo_rng_def)
  have b: "U01 (?r\<lparr>Cg := six_real (mrg_step s)\<rparr>) =
      (draw_value an (mrg_step (mrg_step s)), ?r\<lparr>Cg := six_real (mrg_step (mrg_step s))\<rparr>)"
    using U01_draw(1) [of "?r\<lparr>Cg := six_real (mrg_step s)\<rparr>"] state_okI [OF mrg_valid_step [OF assms]]
    by (simp add: demo_rng_def)
  have "inc_prec ?r" "anti ?r = an" by (simp_all add: demo_rng_def)
  then show ?thesis unfolding rand_u01_def U01d_def a b by (simp add: a b Let_def)
qed

lemma zero_drawn: "fst (rand_u01 (demo_rng zero_seed False True)) = 0"
proof -
  have u: "draw_value False (mrg_step zero_seed) = 9007199252643841 / 2 ^ 53"
    using to_double_near [of 53 "4294967087 * rng_norm" 9007199252643841]
    by (simp add: draw_value_def seed_values dmul_def rng_norm_value)
  have w: "draw_value False (mrg_step (mrg_step zero_seed)) = 9007199154077692 / 2 ^ 61"
    using to_double_near [of 61 "16777215 * rng_norm" 9007199154077692]
    by (simp add: draw_value_def seed_values dmul_def rng_norm_value)
  have f: "dmul (9007199154077692 / 2 ^ 61) rng_fact = 9007199154077692 / 2 ^ 85"
    using to_double_near [of 85 "9007199154077692 / 2 ^ 61 * rng_fact" 9007199154077692] by (simp add: dmul_def rng_fact_def)
  have s: "dadd (9007199252643841 / 2 ^ 53) (9007199154077692 / 2 ^ 85) = 1"
    using to_double_near [of 52 "9007199252643841 / 2 ^ 53 + 9007199154077692 / 2 ^ 85" "2 ^ 52"] by (simp add: dadd_def)
  show ?thesis by (simp only: two_draws [OF seeds_valid(1)] Let_def u w f s if_False fst_conv) (simp add: dsub_def)
qed

lemma one_drawn: "fst (rand_u01 (demo_rng one_seed True True)) = 1"
proof -
  have d: "dmul (of_int 4294967084) rng_norm = 9007199246352384 / 2 ^ 53"
    using to_double_near [of 53 "4294967084 * rng_norm" 9007199246352384] by (simp add: dmul_def rng_norm_value)
  have "dsub 1 (9007199246352384 / 2 ^ 53) = 4503599627370496 / 2 ^ 82"
    using to_double_near [of 82 "1 - 9007199246352384 / 2 ^ 53" 4503599627370496] by (simp add: dsub_def)
  then have u: "draw_value True (mrg_step one_seed) = 4503599627370496 / 2 ^ 82"
    by (simp only: draw_value_def seed_values d Let_def if_True)
  have d: "dmul (of_int 67108863) rng_norm = 4503599778365448 / 2 ^ 58"
    using to_double_near [of 58 "67108863 * rng_norm" 4503599778365448] by (simp add: dmul_def rng_norm_value)
  have "dsub 1 (4503599778365448 / 2 ^ 58) = 8866461761667072 / 2 ^ 53"
    using to_double_near [of 53 "1 - 4503599778365448 / 2 ^ 58" 8866461761667072] by (simp add: dsub_def)
  then have w: "draw_value True (mrg_step (mrg_step one_seed)) = 8866461761667072 / 2 ^ 53"
    by (simp only: draw_value_def seed_values d Let_def if_True)
  have s: "dsub (8866461761667072 / 2 ^ 53) 1 = - (4503599778365440 / 2 ^ 58)"
    using to_double_near [of 58 "1 - 8866461761667072 / 2 ^ 53" 4503599778365440] to_double_minus [of "1 - 8866461761667072 / 2 ^ 53"]
    by (simp add: dsub_def)
  have m: "dmul (- (4503599778365440 / 2 ^ 58)) rng_fact = - (4503599778365440 / 2 ^ 82)"
    using to_double_near [of 82 "4503599778365440 / 2 ^ 58 * rng_fact" 4503599778365440]
      to_double_minus [of "4503599778365440 / 2 ^ 58 * rng_fact"]
    by (simp add: dmul_def rng_fact_def)
  have a: "dadd (4503599627370496 / 2 ^ 82) (- (4503599778365440 / 2 ^ 82)) = - (9 / 2 ^ 58)"
    using to_double_near [of 107 "9 / 2 ^ 58" 5066549580791808] to_double_minus [of "9 / 2 ^ 58"] by (simp add: dadd_def)
  have "dadd (- (9 / 2 ^ 58)) 1 = 1"
    using to_double_near [of 53 "1 - 9 / 2 ^ 58" "2 ^ 53"] by (simp add: dadd_def)
  then show ?thesis by (simp only: two_draws [OF seeds_valid(2)] Let_def u w s m a if_True fst_conv) simp
qed

text \<open>
  Extended precision reaches the ends of the interval that \<open>rand_u01\<close> is documented to
  stay strictly inside. There is a legitimate seed for which it returns 0, and one for which
  its antithetic variant returns 1; then \<open>rand_int(0, MAXINT)\<close> is one above its range, and
  \<open>uniform_positive_int\<close> negative.
\<close>

theorem extended_precision_ends:
  "rng_ok (demo_rng zero_seed False True) \<and> fst (rand_u01 (demo_rng zero_seed False True)) = 0 \<and>
   rng_ok (demo_rng one_seed True True) \<and> fst (rand_u01 (demo_rng one_seed True True)) = 1 \<and>
   fst (rand_int 0 MAXINT (demo_rng one_seed True True)) = MAXINT + 1 \<and>
   fst (uniform_positive_int (demo_rng one_seed True True)) = - (2 ^ 31)"
proof -
  obtain q where q: "rand_u01 (demo_rng one_seed True True) = (1, q)"
    using one_drawn by (cases "rand_u01 (demo_rng one_seed True True)") simp
  have "dmul (long_double 2147483648) 1 = 2147483648"
    using long_double_int [of 2147483648] dmul_int [of 2147483648 1] by simp
  then have i: "rand_int 0 MAXINT (demo_rng one_seed True True) = (2147483648, q)"
    using q c_trunc_of_int [of 2147483648] by (simp add: rand_int_def MAXINT_def)
  then have "uniform_positive_int (demo_rng one_seed True True) = (- (2 ^ 31), q)"
    by (simp add: uniform_positive_int_def rng_next_def sint_sbintrunc')
  then show ?thesis
    using zero_drawn one_drawn i seeds_valid by (simp add: demo_rng_ok MAXINT_def)
qed

section \<open>Seeding\<close>

lemma long_double_below:
  assumes "0 \<le> x" and "m \<le> 2 ^ 53"
  shows "long_double x \<ge> of_int m \<longleftrightarrow> x \<ge> m"
proof (cases "x \<le> 2 ^ 53")
  case True
  then show ?thesis using long_double_int [of x] assms(1) by simp
next
  case False
  then have "two53 \<le> long_double x"
    unfolding long_double_def by (intro to_double_ge_two53) (simp add: two53_def)
  moreover have "(of_int m :: real) \<le> of_int (2 ^ 53)" using assms(2) by (simp only: of_int_le_iff)
  ultimately show ?thesis using False assms(2) by (simp add: two53_def)
qed

lemma CheckSeed_valid:
  assumes "all3 (\<lambda>x. 0 \<le> x) (fst s)" and "all3 (\<lambda>x. 0 \<le> x) (snd s)"
  shows "CheckSeed s \<longleftrightarrow> mrg_valid s"
proof -
  have b: "\<not> long_double x \<ge> m1 \<longleftrightarrow> x < n1" "\<not> long_double x \<ge> m2 \<longleftrightarrow> x < n2" if "0 \<le> x" for x
    using long_double_below [OF that, of n1] long_double_below [OF that, of n2]
    unfolding moduli by (simp_all add: n1_def n2_def not_le)
  obtain x0 x1 x2 y0 y1 y2 where s: "s = ((x0, x1, x2), (y0, y1, y2))" by (metis surj_pair)
  show ?thesis using assms unfolding CheckSeed_def mrg_valid_def s by (auto simp: b)
qed

lemma seed_real:
  assumes "mrg_valid s"
  shows "six_map long_double s = six_real s"
proof -
  have "long_double x = of_int x" if "0 \<le> x \<and> x < n1 \<or> 0 \<le> x \<and> x < n2" for x
    using long_double_int [of x] that by (auto simp: n1_def n2_def)
  moreover obtain x0 x1 x2 y0 y1 y2 where "s = ((x0, x1, x2), (y0, y1, y2))" by (metis surj_pair)
  ultimately show ?thesis using assms by (simp add: six_map_def mrg_valid_def)
qed

lemma get_state_real: "Cg r = six_real s \<Longrightarrow> get_state r = s"
  by (cases s; cases "fst s"; cases "snd s") (simp add: get_state_def six_map_def)

lemma set_seed_long_ok:
  assumes "0 < seed" and "seed < n2"
  obtains r next_seed where "set_seed_long seed = Inr (r, next_seed)" "rng_ok r" "state_ok next_seed"
    "Cg r = six_real ((seed, seed, seed), (seed, seed, seed))"
    "rng_abs next_seed = (mrg_step ^^ 2 ^ 127) ((seed, seed, seed), (seed, seed, seed))"
proof -
  let ?s = "((seed, seed, seed), (seed, seed, seed)) :: int six"
  have v: "mrg_valid ?s" using assms by (simp add: mrg_valid_def n1_def n2_def)
  have "CheckSeed ?s" using CheckSeed_valid [of ?s] v assms by simp
  moreover have "uint (word_of_int seed :: 64 word) = seed"
    using assms by (simp add: uint_word_of_int n2_def mod_pos_pos_trivial)
  ultimately have e: "set_seed_long seed = Inr (rng_init (six_real ?s))"
    using seed_real [OF v] by (simp add: set_seed_long_def set_package_seed_def)
  obtain y where y: "rng_init (six_real ?s) =
      (\<lparr>Cg = six_real ?s, Bg = six_real ?s, Ig = six_real ?s, anti = False, inc_prec = False\<rparr>, y)" "state_ok y"
    "rng_abs y = (mrg_step ^^ 2 ^ 127) (rng_abs (six_real ?s))" by (rule init_stream [OF state_okI [OF v]])
  show ?thesis
  proof (rule that [OF e [unfolded y(1)]])
    show "rng_abs y = (mrg_step ^^ 2 ^ 127) ?s" using y(3) unfolding rng_abs_real .
  qed (use y(2) state_okI [OF v] in \<open>simp_all add: rng_ok_def\<close>)
qed

text \<open>
  Seeding accepts exactly the legitimate seeds: for six 64-bit numbers that are residues
  of the two moduli with neither half zero, \<open>set_seed\<close> installs them, the generator is
  well-formed and \<open>get_state\<close> returns them; any other six numbers end the program. Every raw
  seed from 1 to MAXINT - 1 and every index of the predefined seeds gives a well-formed
  generator and a well-formed seed for the next stream.
\<close>

theorem rng_seeding:
  assumes "all3 (\<lambda>x. 0 \<le> x \<and> x < 2 ^ 64) (fst s)" and "all3 (\<lambda>x. 0 \<le> x \<and> x < 2 ^ 64) (snd s)"
    and "0 < raw" and "raw < MAXINT" and "0 \<le> i" and "i < 64"
  shows "(if mrg_valid s then \<exists>r'. set_seed_six s r = Inr r' \<and> rng_ok r' \<and> get_state r' = s
      else set_seed_six s r = Inl BadSeed) \<and>
     (\<exists>r' next_seed. set_seed_source RAW_SEED_SOURCE raw = Inr (r', next_seed) \<and> rng_ok r' \<and>
        state_ok next_seed \<and> get_state r' = ((raw, raw, raw), (raw, raw, raw))) \<and>
     (\<exists>r' next_seed. set_seed_source PREDEF_SEED_SOURCE i = Inr (r', next_seed) \<and> rng_ok r' \<and> state_ok next_seed)"
proof -
  have nn: "all3 (\<lambda>x. 0 \<le> x) (fst s)" "all3 (\<lambda>x. 0 \<le> x) (snd s)"
    using assms(1,2) by (auto intro: all3_mono)
  have six: "if mrg_valid s then \<exists>r'. set_seed_six s r = Inr r' \<and> rng_ok r' \<and> get_state r' = s
      else set_seed_six s r = Inl BadSeed"
  proof (cases "mrg_valid s")
    case True
    then show ?thesis
      using CheckSeed_valid [OF nn] seed_real [OF True] state_okI [OF True] get_state_real [of _ s]
      by (simp add: set_seed_six_def rng_ok_def Let_def)
  next
    case False
    then show ?thesis using CheckSeed_valid [OF nn] by (simp add: set_seed_six_def)
  qed
  have "raw < n2" "raw < 2 ^ 32" using assms(4) by (simp_all add: MAXINT_def n2_def)
  then obtain r1 s1 where "set_seed_long raw = Inr (r1, s1)" "rng_ok r1" "state_ok s1"
    "Cg r1 = six_real ((raw, raw, raw), (raw, raw, raw))" using set_seed_long_ok [OF assms(3)] by metis
  moreover have "uint (word_of_int raw :: 32 word) = raw"
    using assms(3) \<open>raw < 2 ^ 32\<close> by (simp add: uint_word_of_int mod_pos_pos_trivial)
  ultimately have raw: "\<exists>r' next_seed. set_seed_source RAW_SEED_SOURCE raw = Inr (r', next_seed) \<and> rng_ok r' \<and>
        state_ok next_seed \<and> get_state r' = ((raw, raw, raw), (raw, raw, raw))"
    using assms(3,4) get_state_real [of r1] by (intro exI [of _ r1] exI [of _ s1]) simp
  have "list_all (\<lambda>x. 0 < x \<and> x < n2) predef_seeds" by (simp add: predef_seeds_def n2_def)
  moreover have "length predef_seeds = 64" by (simp add: predef_seeds_def)
  ultimately have p: "0 < predef_seeds ! nat i" "predef_seeds ! nat i < n2"
    using assms(5,6) by (simp_all add: list_all_length nat_less_iff)
  obtain r2 s2 where "set_seed_long (predef_seeds ! nat i) = Inr (r2, s2)" "rng_ok r2" "state_ok s2"
    by (rule set_seed_long_ok [OF p])
  then show ?thesis using six raw assms(5,6) by simp
qed

text \<open>The constructor \<open>RNG(long)\<close> initialises twice, so the stream it leaves is the second of the seed.\<close>

lemma constructor_skips_stream:
  assumes "0 < seed" and "seed < n2"
  shows "\<exists>r next_seed. new_rng_long seed = Inr (r, next_seed) \<and>
     get_state r = (mrg_step ^^ 2 ^ 127) ((seed, seed, seed), (seed, seed, seed))"
proof -
  obtain r x where x: "set_seed_long seed = Inr (r, x)" "rng_ok r" "state_ok x"
    "Cg r = six_real ((seed, seed, seed), (seed, seed, seed))"
    "rng_abs x = (mrg_step ^^ 2 ^ 127) ((seed, seed, seed), (seed, seed, seed))" by (rule set_seed_long_ok [OF assms])
  have "x = six_real (rng_abs x)" using x(3) unfolding state_ok_def by blast
  then have "get_state (fst (rng_init x)) = rng_abs x" by (intro get_state_real) (simp add: rng_init_def)
  moreover obtain q z where "rng_init x = (q, z)" by (metis surj_pair)
  ultimately show ?thesis using x(1,5) by (intro exI [of _ q] exI [of _ z]) (simp add: new_rng_long_def)
qed

section \<open>Examples\<close>

lemma demo_ok: "rng_ok (demo_rng zero_seed an inc)"
  by (rule demo_rng_ok [OF seeds_valid(1)])

theorem rng_draw_exact_witness:
  "\<exists>u r'. U01 (demo_rng zero_seed False False) = (u, r') \<and>
     rng_abs (Cg r') = ((0, 353412662, 0), (1, 0, 0)) \<and> 0 < u \<and> u < 1"
proof -
  have "mrg_step (rng_abs (Cg (demo_rng zero_seed False False))) = ((0, 353412662, 0), (1, 0, 0))"
    by (simp add: demo_rng_def zero_seed_def)
  then show ?thesis using rng_draw_exact [OF demo_ok, of False False] by auto
qed

theorem rng_streams_spaced_witness:
  "rng_abs (Cg (reset_next_substream (demo_rng zero_seed False False))) = (mrg_step ^^ 2 ^ 76) zero_seed \<and>
   rng_ok (fst (rng_init (snd (rng_init (six_real zero_seed)))))"
proof -
  have "Bg (demo_rng zero_seed False False) = six_real zero_seed" by (simp add: demo_rng_def)
  then show ?thesis
    using rng_streams_spaced [OF demo_ok state_okI [OF seeds_valid(1)], of "fst (rng_init (six_real zero_seed))"
        "snd (rng_init (six_real zero_seed))" "fst (rng_init (snd (rng_init (six_real zero_seed))))" _ False False]
    by (metis prod.collapse rng_abs_real)
qed

theorem rng_advance_state_witness:
  "(mrg_step ^^ 5) (rng_abs (Cg (advance_state 0 (-5) (demo_rng zero_seed False False)))) = zero_seed \<and>
   rng_abs (Cg (advance_state 3 2 (demo_rng zero_seed False False))) = (mrg_step ^^ 10) zero_seed"
  using rng_advance_state [OF demo_ok, of 0 "-5" False False] rng_advance_state [OF demo_ok, of 3 2 False False]
  by (simp add: advance_offset_def demo_rng_def)

theorem rng_integers_in_range_witness:
  "7 \<le> fst (rand_int 7 9 (demo_rng zero_seed False True)) \<and> fst (rand_int 7 9 (demo_rng zero_seed False True)) \<le> 9"
  using rng_integers_in_range [OF demo_ok, of False True 7 9] by (simp add: demo_rng_def)

theorem rng_seeding_witness:
  "\<exists>r'. set_seed_six ((12345, 12345, 12345), (12345, 12345, 12345)) (demo_rng zero_seed False False) = Inr r' \<and>
     get_state r' = ((12345, 12345, 12345), (12345, 12345, 12345))"
  using rng_seeding [of "((12345, 12345, 12345), (12345, 12345, 12345))" 1 63 "demo_rng zero_seed False False"]
  by (simp add: mrg_valid_def n1_def n2_def MAXINT_def) blast

end
