(* ===== verification/NodeList.thy ===== *)
theory NodeList
  imports MachineFloat
begin

text \<open>
  The list of mobile nodes that a wireless channel keeps (\<open>mac/channel.cc\<close>) and the
  movement of a node (\<open>common/mobilenode.cc\<close>). The list is doubly linked through the
  nodes, sorted by the \<open>X_\<close> coordinate, and the nodes that can hear a sender are found
  by walking from the sender in both directions.

  The pointers \<open>nextX_\<close> and \<open>prevX_\<close> are kept as one map per field from node numbers
  to optional node numbers (\<open>None\<close> is \<open>NULL\<close>); coordinates are the finite values of
  \<open>double\<close> with rounded arithmetic. A loop over the list is a partial function, so
  that \<open>None\<close> as its result means that the code does not return. \<open>Inl\<close> holds a write
  past the end of the scratch array and the use of a \<open>NULL\<close> pointer.

  The second half gives the abstraction: \<open>dlist s xs\<close> says that the pointers of \<open>s\<close>
  form the list \<open>xs\<close>, and every operation is shown to be one on \<open>xs\<close>.
\<close>

section \<open>State\<close>

record mnode =
  mn_X :: real
  mn_Y :: real
  mn_Z :: real
  mn_speed :: real
  mn_dX :: real
  mn_dY :: real
  mn_destX :: real
  mn_destY :: real
  mn_update_time :: real

record wchan =
  wc_head :: "nat option"
  wc_num :: int
  wc_sorted :: bool
  wc_next :: "nat \<Rightarrow> nat option"
  wc_prev :: "nat \<Rightarrow> nat option"
  wc_node :: "nat \<Rightarrow> mnode"

datatype nl_error = Overrun | NullDeref

abbreviation nX :: "wchan \<Rightarrow> nat \<Rightarrow> real" where "nX s n \<equiv> mn_X (wc_node s n)"
abbreviation nY :: "wchan \<Rightarrow> nat \<Rightarrow> real" where "nY s n \<equiv> mn_Y (wc_node s n)"

definition set_next :: "nat \<Rightarrow> nat option \<Rightarrow> wchan \<Rightarrow> wchan" where
  "set_next n p s = s\<lparr>wc_next := (wc_next s)(n := p)\<rparr>"

definition set_prev :: "nat \<Rightarrow> nat option \<Rightarrow> wchan \<Rightarrow> wchan" where
  "set_prev n p s = s\<lparr>wc_prev := (wc_prev s)(n := p)\<rparr>"

definition set_node :: "nat \<Rightarrow> mnode \<Rightarrow> wchan \<Rightarrow> wchan" where
  "set_node n m s = s\<lparr>wc_node := (wc_node s)(n := m)\<rparr>"

definition when_ptr :: "nat option \<Rightarrow> (nat \<Rightarrow> wchan \<Rightarrow> wchan) \<Rightarrow> wchan \<Rightarrow> wchan" where
  "when_ptr p f s = (case p of None \<Rightarrow> s | Some n \<Rightarrow> f n s)"

definition empty_wchan :: "(nat \<Rightarrow> mnode) \<Rightarrow> wchan" where
  "empty_wchan nodes = \<lparr>wc_head = None, wc_num = 0, wc_sorted = False,
     wc_next = \<lambda>_. None, wc_prev = \<lambda>_. None, wc_node = nodes\<rparr>"

section \<open>Adding and removing\<close>

partial_function (option) find_last :: "wchan \<Rightarrow> nat \<Rightarrow> nat option" where
  "find_last s n = (case wc_next s n of None \<Rightarrow> Some n | Some k \<Rightarrow> find_last s k)"

definition addNodeToList :: "nat \<Rightarrow> wchan \<Rightarrow> wchan option" where
  "addNodeToList mn s =
     (case wc_head s of
        None \<Rightarrow> Some ((set_prev mn None (set_next mn None (s\<lparr>wc_head := Some mn\<rparr>)))
                         \<lparr>wc_num := wc_num s + 1\<rparr>)
      | Some h \<Rightarrow> (case find_last s h of None \<Rightarrow> None
                   | Some t \<Rightarrow> Some ((set_next mn None (set_prev mn (Some t) (set_next t (Some mn) s)))
                         \<lparr>wc_num := wc_num s + 1\<rparr>)))"

definition unlink_node :: "nat \<Rightarrow> wchan \<Rightarrow> (nl_error, wchan) result" where
  "unlink_node t s =
     (if wc_head s = Some t
      then Inr (when_ptr (wc_next s t) (\<lambda>q. set_prev q None) (s\<lparr>wc_head := wc_next s t\<rparr>))
      else (case wc_prev s t of
              None \<Rightarrow> Inl NullDeref
            | Some p \<Rightarrow> Inr (when_ptr (wc_next s t) (\<lambda>q. set_prev q (Some p))
                               (set_next p (wc_next s t) s))))"

partial_function (option) remove_loop ::
    "nat \<Rightarrow> nat \<Rightarrow> wchan \<Rightarrow> (nl_error, wchan) result option" where
  "remove_loop mn t s =
     (case wc_next s t of
        None \<Rightarrow> Some (Inr s)
      | Some k \<Rightarrow> if t = mn
                  then Some (bind_res (unlink_node t s)
                               (\<lambda>s'. Inr (s'\<lparr>wc_num := wc_num s - 1\<rparr>)))
                  else remove_loop mn k s)"

definition removeNodeFromList :: "nat \<Rightarrow> wchan \<Rightarrow> (nl_error, wchan) result option" where
  "removeNodeFromList mn s =
     (case wc_head s of None \<Rightarrow> Some (Inl NullDeref) | Some h \<Rightarrow> remove_loop mn h s)"

section \<open>Sorting\<close>

text \<open>One step of the bubble sort at \<open>m\<close> with its successor \<open>q\<close>.\<close>

definition swap_next :: "nat \<Rightarrow> nat \<Rightarrow> wchan \<Rightarrow> wchan" where
  "swap_next m q s =
     (let s1 = set_next m (wc_next s q) s;
          s2 = when_ptr (wc_next s1 q) (\<lambda>r. set_prev r (Some m)) s1;
          s3 = set_next q (Some m) s2;
          s4 = set_prev q (wc_prev s3 m) s3;
          s5 = set_prev m (Some q) s4;
          s6 = when_ptr (wc_prev s5 q) (\<lambda>r. set_next r (Some q)) s5
      in if wc_head s6 = Some m then s6\<lparr>wc_head := wc_prev s6 m\<rparr> else s6)"

definition bubble_step :: "nat \<Rightarrow> wchan \<Rightarrow> bool \<times> wchan" where
  "bubble_step m s =
     (case wc_next s m of None \<Rightarrow> (False, s)
      | Some q \<Rightarrow> if nX s q < nX s m then (True, swap_next m q s) else (False, s))"

partial_function (option) bubble_pass :: "nat option \<Rightarrow> bool \<Rightarrow> wchan \<Rightarrow> (bool \<times> wchan) option" where
  "bubble_pass p flag s =
     (case p of None \<Rightarrow> Some (flag, s)
      | Some m \<Rightarrow> bubble_pass (wc_next (snd (bubble_step m s)) m)
                    (flag \<or> fst (bubble_step m s)) (snd (bubble_step m s)))"

partial_function (option) sort_loop :: "wchan \<Rightarrow> wchan option" where
  "sort_loop s = Option.bind (bubble_pass (wc_head s) False s)
     (\<lambda>r. if fst r then sort_loop (snd r) else Some (snd r))"

definition sortLists :: "wchan \<Rightarrow> wchan option" where
  "sortLists s = sort_loop (s\<lparr>wc_sorted := True\<rparr>)"

section \<open>Moving a node\<close>

text \<open>
  \<open>updateNodesList\<close> in its two parts: the node is unlinked unless its neighbours show
  that it keeps its place, and is linked again where the walk from its old neighbours ends.
\<close>

definition delete_moved :: "nat \<Rightarrow> wchan \<Rightarrow> bool \<times> wchan" where
  "delete_moved mn s =
     (let X = nX s mn;
          r = (case wc_next s mn of
                 Some q \<Rightarrow>
                   (case wc_prev s mn of
                      Some p \<Rightarrow> if X \<le> nX s q \<and> nX s p \<le> X then (True, s)
                                else (False, set_next p (Some q) (set_prev q (Some p) s))
                    | None \<Rightarrow> if X \<le> nX s q then (True, s)
                              else (False, (set_prev q None s)\<lparr>wc_head := Some q\<rparr>))
               | None \<Rightarrow>
                   (case wc_prev s mn of
                      Some p \<Rightarrow> if nX s p \<le> X then (True, s) else (False, set_next p None s)
                    | None \<Rightarrow> (False, s)))
      in (fst r \<or> wc_prev (snd r) mn = None \<and> wc_next (snd r) mn = None, snd r))"

partial_function (option) walk_up :: "wchan \<Rightarrow> real \<Rightarrow> nat \<Rightarrow> nat option" where
  "walk_up s x t = (case wc_next s t of None \<Rightarrow> Some t
     | Some q \<Rightarrow> if nX s q < x then walk_up s x q else Some t)"

partial_function (option) walk_down :: "wchan \<Rightarrow> real \<Rightarrow> nat \<Rightarrow> nat option" where
  "walk_down s x t = (case wc_prev s t of None \<Rightarrow> Some t
     | Some q \<Rightarrow> if x < nX s q then walk_down s x q else Some t)"

definition link_after :: "nat \<Rightarrow> nat \<Rightarrow> wchan \<Rightarrow> wchan" where
  "link_after mn t s =
     (case wc_next s t of
        None \<Rightarrow> set_next mn None (set_prev mn (Some t) (set_next t (Some mn) s))
      | Some q \<Rightarrow> (let s1 = set_prev mn (wc_prev s q) s;
                        s2 = set_next mn (wc_next s1 t) s1;
                        s3 = set_prev q (Some mn) s2
                    in set_next t (Some mn) s3))"

definition link_before :: "nat \<Rightarrow> nat \<Rightarrow> wchan \<Rightarrow> wchan" where
  "link_before mn t s =
     (case wc_prev s t of
        None \<Rightarrow> (set_prev mn None (set_next mn (Some t) (set_prev t (Some mn) s)))
                  \<lparr>wc_head := Some mn\<rparr>
      | Some q \<Rightarrow> (let s1 = set_next mn (wc_next s q) s;
                        s2 = set_prev mn (wc_prev s1 t) s1;
                        s3 = set_next q (Some mn) s2
                    in set_prev t (Some mn) s3))"

definition updateNodesList :: "nat \<Rightarrow> real \<Rightarrow> wchan \<Rightarrow> wchan option" where
  "updateNodesList mn oldX s =
     (if \<not> wc_sorted s then sortLists s
      else let (skip, s1) = delete_moved mn s; X = nX s mn
           in if skip then Some s1
              else if oldX < X then map_option (\<lambda>t. link_after mn t s1) (walk_up s1 X mn)
              else map_option (\<lambda>t. link_before mn t s1) (walk_down s1 X mn))"

definition overshoot :: "real \<Rightarrow> real \<Rightarrow> real \<Rightarrow> real" where
  "overshoot d x dest = (if 0 < d \<and> dest < x \<or> d < 0 \<and> x < dest then dest else x)"

definition moved_coord :: "real \<Rightarrow> real \<Rightarrow> real \<Rightarrow> real \<Rightarrow> real \<Rightarrow> real" where
  "moved_coord x d speed interval dest =
     overshoot d (dadd x (dmul d (dmul speed interval))) dest"

definition moved_node :: "real \<Rightarrow> mnode \<Rightarrow> mnode" where
  "moved_node now m =
     (let i = dsub now (mn_update_time m)
      in m\<lparr>mn_X := moved_coord (mn_X m) (mn_dX m) (mn_speed m) i (mn_destX m),
           mn_Y := moved_coord (mn_Y m) (mn_dY m) (mn_speed m) i (mn_destY m)\<rparr>)"

definition stamp_time :: "real \<Rightarrow> nat \<Rightarrow> wchan \<Rightarrow> wchan" where
  "stamp_time now n s = set_node n ((wc_node s n)\<lparr>mn_update_time := now\<rparr>) s"

definition update_position :: "real \<Rightarrow> nat \<Rightarrow> wchan \<Rightarrow> wchan option" where
  "update_position now n s =
     (let m = wc_node s n
      in if dsub now (mn_update_time m) = 0 \<and> mn_update_time m \<noteq> 0 then Some s
         else let m' = moved_node now m; s1 = set_node n m' s
              in map_option (stamp_time now n)
                   (if mn_X m \<noteq> mn_X m' then updateNodesList n (mn_X m) s1 else Some s1))"

section \<open>The nodes a transmission may reach\<close>

definition stale :: "real \<Rightarrow> mnode \<Rightarrow> bool" where
  "stale now m \<longleftrightarrow> mn_speed m \<noteq> 0 \<and> 1 < dsub now (mn_update_time m)"

definition push_node :: "wchan \<Rightarrow> nat \<Rightarrow> nat list \<Rightarrow> (nl_error, nat list) result" where
  "push_node s n acc = (if int (length acc) < wc_num s then Inr (acc @ [n]) else Inl Overrun)"

partial_function (option) collect_all ::
    "wchan \<Rightarrow> nat option \<Rightarrow> nat list \<Rightarrow> (nl_error, nat list) result option" where
  "collect_all s p acc =
     (case p of None \<Rightarrow> Some (Inr acc)
      | Some n \<Rightarrow> (case push_node s n acc of Inl e \<Rightarrow> Some (Inl e)
                   | Inr acc' \<Rightarrow> collect_all s (wc_next s n) acc'))"

fun refresh :: "real \<Rightarrow> nat list \<Rightarrow> wchan \<Rightarrow> wchan option" where
  "refresh now [] s = Some s"
| "refresh now (n # ns) s =
     (if stale now (wc_node s n)
      then Option.bind (update_position now n s) (refresh now ns)
      else refresh now ns s)"

definition push_if :: "bool \<Rightarrow> wchan \<Rightarrow> nat \<Rightarrow> nat list \<Rightarrow> (nl_error, nat list) result" where
  "push_if b s n acc = (if b then push_node s n acc else Inr acc)"

partial_function (option) collect_down ::
    "wchan \<Rightarrow> real \<Rightarrow> real \<Rightarrow> real \<Rightarrow> nat option \<Rightarrow> nat list
       \<Rightarrow> (nl_error, nat list) result option" where
  "collect_down s xmin ymin ymax p acc =
     (case p of None \<Rightarrow> Some (Inr acc)
      | Some n \<Rightarrow> if xmin \<le> nX s n
                   then (case push_if (ymin \<le> nY s n \<and> nY s n \<le> ymax) s n acc of
                           Inl e \<Rightarrow> Some (Inl e)
                         | Inr acc' \<Rightarrow> collect_down s xmin ymin ymax (wc_prev s n) acc')
                   else Some (Inr acc))"

partial_function (option) collect_up ::
    "wchan \<Rightarrow> real \<Rightarrow> real \<Rightarrow> real \<Rightarrow> nat option \<Rightarrow> nat list
       \<Rightarrow> (nl_error, nat list) result option" where
  "collect_up s xmax ymin ymax p acc =
     (case p of None \<Rightarrow> Some (Inr acc)
      | Some n \<Rightarrow> if nX s n \<le> xmax
                   then (case push_if (ymin \<le> nY s n \<and> nY s n \<le> ymax) s n acc of
                           Inl e \<Rightarrow> Some (Inl e)
                         | Inr acc' \<Rightarrow> collect_up s xmax ymin ymax (wc_next s n) acc')
                   else Some (Inr acc))"

definition collect_window ::
    "wchan \<Rightarrow> nat \<Rightarrow> real \<Rightarrow> real \<Rightarrow> real \<Rightarrow> real \<Rightarrow> (nl_error, nat list) result option" where
  "collect_window s mn xmin xmax ymin ymax =
     Option.bind (collect_down s xmin ymin ymax (Some mn) [])
       (\<lambda>r. case r of Inl e \<Rightarrow> Some (Inl e)
             | Inr acc \<Rightarrow> collect_up s xmax ymin ymax (wc_next s mn) acc)"

text \<open>\<open>Inr (None, s)\<close> is the early return with \<open>numAffectedNodes\<close> equal to -1.\<close>

definition getAffectedNodes ::
    "real \<Rightarrow> nat \<Rightarrow> real \<Rightarrow> wchan \<Rightarrow> (nl_error, nat list option \<times> wchan) result option" where
  "getAffectedNodes now mn radius s =
     (if wc_head s = None then Some (Inr (None, s))
      else let xmin = dsub (nX s mn) radius; xmax = dadd (nX s mn) radius;
               ymin = dsub (nY s mn) radius; ymax = dadd (nY s mn) radius
           in Option.bind (collect_all s (wc_head s) [])
                (\<lambda>r. case r of Inl e \<Rightarrow> Some (Inl e)
                      | Inr ns \<Rightarrow> Option.bind (refresh now ns s)
                          (\<lambda>s'. map_option (\<lambda>r. bind_res r (\<lambda>l. Inr (Some l, s')))
                                  (collect_window s' mn xmin xmax ymin ymax))))"

section \<open>The abstraction\<close>

text \<open>
  \<open>dseg s p xs e\<close>: the pointers of \<open>s\<close> link the nodes \<open>xs\<close> in this order, the
  predecessor of the first is \<open>p\<close> and the successor of the last is \<open>e\<close>.
\<close>

definition first_of :: "nat list \<Rightarrow> nat option \<Rightarrow> nat option" where
  "first_of xs e = (case xs of [] \<Rightarrow> e | x # _ \<Rightarrow> Some x)"

definition last_of :: "nat option \<Rightarrow> nat list \<Rightarrow> nat option" where
  "last_of p xs = (if xs = [] then p else Some (last xs))"

fun dseg :: "(nat \<Rightarrow> nat option) \<Rightarrow> (nat \<Rightarrow> nat option) \<Rightarrow>
    nat option \<Rightarrow> nat list \<Rightarrow> nat option \<Rightarrow> bool" where
  "dseg nx pv p [] e \<longleftrightarrow> True"
| "dseg nx pv p (x # xs) e \<longleftrightarrow>
     pv x = p \<and> nx x = first_of xs e \<and> dseg nx pv (Some x) xs e"

definition dlist :: "wchan \<Rightarrow> nat list \<Rightarrow> bool" where
  "dlist s xs \<longleftrightarrow> distinct xs \<and> wc_head s = first_of xs None
     \<and> dseg (wc_next s) (wc_prev s) None xs None"

lemma first_of_simps [simp]:
  "first_of [] e = e"
  "first_of (x # xs) e = Some x"
  "first_of (xs @ ys) e = first_of xs (first_of ys e)"
  by (auto simp: first_of_def split: list.split)

lemma last_of_simps [simp]:
  "last_of p [] = p"
  "last_of p (xs @ [x]) = Some x"
  "last_of p (x # xs) = last_of (Some x) xs"
  "last_of p (xs @ ys) = last_of (last_of p xs) ys"
  by (auto simp: last_of_def)

lemma first_of_other [simp]:
  "m \<notin> set xs \<Longrightarrow> first_of xs e = Some m \<longleftrightarrow> xs = [] \<and> e = Some m"
  by (cases xs) auto

lemma last_of_other [simp]:
  "m \<notin> set xs \<Longrightarrow> last_of e xs = Some m \<longleftrightarrow> xs = [] \<and> e = Some m"
  by (auto simp: last_of_def)

lemma dseg_append [simp]:
  "dseg nx pv p (xs @ ys) e \<longleftrightarrow>
     dseg nx pv p xs (first_of ys e) \<and> dseg nx pv (last_of p xs) ys e"
  by (induction xs arbitrary: p) auto

lemma dseg_upd [simp]:
  "a \<notin> set xs \<Longrightarrow> dseg (nx(a := v)) pv p xs e = dseg nx pv p xs e"
  "a \<notin> set xs \<Longrightarrow> dseg nx (pv(a := v)) p xs e = dseg nx pv p xs e"
  by (induction xs arbitrary: p) auto

lemma set_fields [simp]:
  "wc_head (set_next n p s) = wc_head s" "wc_head (set_prev n p s) = wc_head s"
  "wc_num (set_next n p s) = wc_num s" "wc_num (set_prev n p s) = wc_num s"
  "wc_sorted (set_next n p s) = wc_sorted s" "wc_sorted (set_prev n p s) = wc_sorted s"
  "wc_node (set_next n p s) = wc_node s" "wc_node (set_prev n p s) = wc_node s"
  "wc_next (set_next n p s) = (wc_next s)(n := p)" "wc_next (set_prev n p s) = wc_next s"
  "wc_prev (set_next n p s) = wc_prev s" "wc_prev (set_prev n p s) = (wc_prev s)(n := p)"
  "wc_head (set_node n m s) = wc_head s" "wc_num (set_node n m s) = wc_num s"
  "wc_sorted (set_node n m s) = wc_sorted s" "wc_next (set_node n m s) = wc_next s"
  "wc_prev (set_node n m s) = wc_prev s" "wc_node (set_node n m s) = (wc_node s)(n := m)"
  by (simp_all add: set_next_def set_prev_def set_node_def)

lemma when_ptr_simps [simp]:
  "when_ptr None f s = s" "when_ptr (Some n) f s = f n s"
  by (simp_all add: when_ptr_def)

text \<open>Every operation of the list leaves the coordinates and the count alone.\<close>

definition same_nodes :: "wchan \<Rightarrow> wchan \<Rightarrow> bool" where
  "same_nodes s s' \<longleftrightarrow> wc_node s' = wc_node s \<and> wc_num s' = wc_num s \<and> wc_sorted s' = wc_sorted s"

lemma same_nodes_refl [simp]: "same_nodes s s"
  by (simp add: same_nodes_def)

lemma same_nodes_trans: "same_nodes s t \<Longrightarrow> same_nodes t u \<Longrightarrow> same_nodes s u"
  by (simp add: same_nodes_def)

lemma swap_next_dlist:
  assumes "dlist s (as @ m # q # bs)"
  shows "dlist (swap_next m q s) (as @ q # m # bs)" and "same_nodes s (swap_next m q s)"
proof -
  have "dlist (swap_next m q s) (as @ q # m # bs) \<and> same_nodes s (swap_next m q s)"
    using assms
    by (cases as rule: rev_cases; cases bs)
       (simp_all add: dlist_def swap_next_def Let_def same_nodes_def eq_commute [of m])
  then show "dlist (swap_next m q s) (as @ q # m # bs)" and "same_nodes s (swap_next m q s)"
    by simp_all
qed

section \<open>Bubble sort on lists\<close>

text \<open>
  After an exchange the pass goes on behind both nodes, so the larger one is compared again
  only in the next pass.
\<close>

fun bub :: "(nat \<Rightarrow> real) \<Rightarrow> nat list \<Rightarrow> nat list" where
  "bub k (x # y # zs) = (if k y < k x then y # x # bub k zs else x # bub k (y # zs))"
| "bub k [x] = [x]"
| "bub k [] = []"

fun swaps :: "(nat \<Rightarrow> real) \<Rightarrow> nat list \<Rightarrow> bool" where
  "swaps k (x # y # zs) \<longleftrightarrow> k y < k x \<or> swaps k (y # zs)"
| "swaps k [x] \<longleftrightarrow> False"
| "swaps k [] \<longleftrightarrow> False"

fun bub_inversions :: "(nat \<Rightarrow> real) \<Rightarrow> nat list \<Rightarrow> nat" where
  "bub_inversions k [] = 0"
| "bub_inversions k (x # xs) = length (filter (\<lambda>y. k y < k x) xs) + bub_inversions k xs"

lemma bub_mset [simp]: "mset (bub k xs) = mset xs"
  by (induction k xs rule: bub.induct) auto

lemma bub_set [simp]: "set (bub k xs) = set xs"
  by (metis bub_mset set_mset_mset)

lemma bub_filter_length [simp]: "length (filter P (bub k xs)) = length (filter P xs)"
  by (metis bub_mset mset_filter size_mset)

lemma bub_stable: "filter (\<lambda>y. k y = c) (bub k xs) = filter (\<lambda>y. k y = c) xs"
  by (induction k xs rule: bub.induct) auto

lemma swaps_iff: "swaps k xs \<longleftrightarrow> \<not> sorted (map k xs)"
  by (induction k xs rule: swaps.induct) (simp_all add: sorted2 del: sorted_wrt.simps(2), auto)

lemma bub_unchanged: "\<not> swaps k xs \<Longrightarrow> bub k xs = xs"
  by (induction k xs rule: bub.induct) auto

lemma bub_inversions_le: "bub_inversions k (bub k xs) \<le> bub_inversions k xs"
  by (induction k xs rule: bub.induct) auto

lemma bub_inversions_less: "swaps k xs \<Longrightarrow> bub_inversions k (bub k xs) < bub_inversions k xs"
proof (induction k xs rule: bub.induct)
  case (1 k x y zs)
  show ?case
  proof (cases "k y < k x")
    case True
    then show ?thesis using bub_inversions_le [of k zs] by auto
  next
    case False
    with 1 show ?thesis by auto
  qed
qed auto

lemma sort_key_bub: "sort_key k (bub k xs) = sort_key k xs"
proof (rule properties_for_sort_key)
  show "filter (\<lambda>x. k y = k x) (sort_key k xs) = filter (\<lambda>x. k y = k x) (bub k xs)" for y
    using sort_key_stable [of k "k y" xs] bub_stable [of k "k y" xs]
    by (simp only: eq_commute [of "k y"])
qed simp_all

section \<open>Sorting the linked list\<close>

lemma dlist_nextD:
  "dlist s (as @ x # bs) \<Longrightarrow> wc_next s x = first_of bs None"
  "dlist s (as @ x # bs) \<Longrightarrow> wc_prev s x = last_of None as"
  by (simp_all add: dlist_def)

lemma bubble_pass_dlist:
  assumes "dlist s (as @ xs)"
  shows "\<exists>s'. bubble_pass (first_of xs None) flag s = Some (flag \<or> swaps (nX s) xs, s')
     \<and> dlist s' (as @ bub (nX s) xs) \<and> same_nodes s s'"
  using assms
proof (induction "nX s" xs arbitrary: as s flag rule: bub.induct)
  case (1 x y zs)
  note nx = dlist_nextD(1) [OF "1.prems"]
  show ?case
  proof (cases "nX s y < nX s x")
    case True
    let ?s = "swap_next x y s"
    have d: "dlist ?s ((as @ [y, x]) @ zs)" and n: "same_nodes s ?s"
      using swap_next_dlist [OF "1.prems"] by simp_all
    then have e: "nX ?s = nX s" and nx': "wc_next ?s x = first_of zs None"
      using dlist_nextD(1) [of ?s "as @ [y]" x zs] by (simp_all add: same_nodes_def)
    obtain s' where "bubble_pass (first_of zs None) True ?s = Some (True, s')"
      "dlist s' ((as @ [y, x]) @ bub (nX s) zs)" "same_nodes ?s s'"
      using "1.hyps"(1) [OF True e [symmetric] d, of True] unfolding e by auto
    then show ?thesis using same_nodes_trans [OF n] nx' nx True
      by (subst bubble_pass.simps) (simp add: bubble_step_def)
  next
    case False
    obtain s' where "bubble_pass (Some y) flag s = Some (flag \<or> swaps (nX s) (y # zs), s')"
      "dlist s' ((as @ [x]) @ bub (nX s) (y # zs))" "same_nodes s s'"
      using "1.hyps"(2) [OF False refl, of "as @ [x]" flag] "1.prems" by auto
    then show ?thesis using nx False
      by (subst bubble_pass.simps) (simp add: bubble_step_def)
  qed
next
  case (2 x)
  then have "wc_next s x = None" using dlist_nextD(1) by fastforce
  with 2 show ?case
    by (subst bubble_pass.simps, subst bubble_pass.simps) (simp add: bubble_step_def)
next
  case 3
  then show ?case by (simp add: bubble_pass.simps)
qed

lemma sort_loop_dlist:
  assumes "dlist s xs"
  shows "\<exists>s'. sort_loop s = Some s' \<and> dlist s' (sort_key (nX s) xs) \<and> same_nodes s s'"
  using assms
proof (induction "bub_inversions (nX s) xs" arbitrary: s xs rule: less_induct)
  case less
  obtain s1 where s1: "bubble_pass (wc_head s) False s = Some (swaps (nX s) xs, s1)"
    "dlist s1 (bub (nX s) xs)" and n: "same_nodes s s1"
    using bubble_pass_dlist [of s "[]" xs False] less.prems by (auto simp: dlist_def)
  then have e: "nX s1 = nX s" by (simp add: same_nodes_def)
  show ?case
  proof (cases "swaps (nX s) xs")
    case True
    then obtain s' where "sort_loop s1 = Some s'"
      "dlist s' (sort_key (nX s) (bub (nX s) xs))" "same_nodes s1 s'"
      using less.hyps [OF _ s1(2)] bub_inversions_less e by force
    moreover have "sort_key (nX s) (bub (nX s) xs) = sort_key (nX s) xs"
      by (rule sort_key_bub)
    ultimately show ?thesis using same_nodes_trans [OF n] s1(1) True
      by (subst sort_loop.simps) simp
  next
    case False
    then have "bub (nX s) xs = xs" "sort_key (nX s) xs = xs"
      by (simp_all add: bub_unchanged swaps_iff sort_key_id_if_sorted)
    with False s1 n show ?thesis by (subst sort_loop.simps) simp
  qed
qed

lemma sortLists_dlist:
  assumes "dlist s xs"
  shows "\<exists>s'. sortLists s = Some s' \<and> dlist s' (sort_key (nX s) xs)
    \<and> wc_node s' = wc_node s \<and> wc_num s' = wc_num s \<and> wc_sorted s'"
  using sort_loop_dlist [of "s\<lparr>wc_sorted := True\<rparr>" xs] assms
  by (auto simp: sortLists_def dlist_def same_nodes_def)

section \<open>Moving a node in the list\<close>

definition in_place :: "(nat \<Rightarrow> real) \<Rightarrow> real \<Rightarrow> nat list \<Rightarrow> nat list \<Rightarrow> bool" where
  "in_place k x as bs \<longleftrightarrow> (as \<noteq> [] \<longrightarrow> k (last as) \<le> x) \<and> (bs \<noteq> [] \<longrightarrow> x \<le> k (hd bs))"

lemma delete_moved_dlist:
  assumes "dlist s (as @ mn # bs)"
  shows "in_place (nX s) (nX s mn) as bs \<Longrightarrow> delete_moved mn s = (True, s)"
    and "\<not> in_place (nX s) (nX s mn) as bs \<Longrightarrow>
      \<exists>s'. delete_moved mn s = (False, s') \<and> dlist s' (as @ bs) \<and> same_nodes s s'
        \<and> wc_next s' mn = first_of bs None \<and> wc_prev s' mn = last_of None as"
proof -
  have "if in_place (nX s) (nX s mn) as bs then delete_moved mn s = (True, s)
    else \<exists>s'. delete_moved mn s = (False, s') \<and> dlist s' (as @ bs) \<and> same_nodes s s'
        \<and> wc_next s' mn = first_of bs None \<and> wc_prev s' mn = last_of None as"
    using assms
    by (cases as rule: rev_cases; cases bs)
       (auto simp: dlist_def delete_moved_def in_place_def same_nodes_def)
  then show "in_place (nX s) (nX s mn) as bs \<Longrightarrow> delete_moved mn s = (True, s)"
    and "\<not> in_place (nX s) (nX s mn) as bs \<Longrightarrow>
      \<exists>s'. delete_moved mn s = (False, s') \<and> dlist s' (as @ bs) \<and> same_nodes s s'
        \<and> wc_next s' mn = first_of bs None \<and> wc_prev s' mn = last_of None as"
    by simp_all
qed

lemma link_after_dlist:
  assumes "dlist s (us @ t # vs)" "mn \<notin> set (us @ t # vs)"
  shows "dlist (link_after mn t s) (us @ t # mn # vs)" and "same_nodes s (link_after mn t s)"
proof -
  have "dlist (link_after mn t s) (us @ t # mn # vs) \<and> same_nodes s (link_after mn t s)"
    using assms
    by (cases us rule: rev_cases; cases vs)
       (auto simp: dlist_def link_after_def same_nodes_def)
  then show "dlist (link_after mn t s) (us @ t # mn # vs)" and "same_nodes s (link_after mn t s)"
    by simp_all
qed

lemma link_before_dlist:
  assumes "dlist s (us @ t # vs)" "mn \<notin> set (us @ t # vs)"
  shows "dlist (link_before mn t s) (us @ mn # t # vs)" and "same_nodes s (link_before mn t s)"
proof -
  have "dlist (link_before mn t s) (us @ mn # t # vs) \<and> same_nodes s (link_before mn t s)"
    using assms
    by (cases us rule: rev_cases; cases vs)
       (auto simp: dlist_def link_before_def same_nodes_def)
  then show "dlist (link_before mn t s) (us @ mn # t # vs)" and "same_nodes s (link_before mn t s)"
    by simp_all
qed

lemma walk_up_dseg:
  assumes "wc_next s t = first_of (cs @ ds) None" "dseg (wc_next s) (wc_prev s) p (cs @ ds) None"
    and "\<forall>c\<in>set cs. nX s c < x" "ds \<noteq> [] \<Longrightarrow> x \<le> nX s (hd ds)"
  shows "walk_up s x t = Some (last (t # cs))"
  using assms
proof (induction cs arbitrary: t p)
  case Nil
  then show ?case by (cases ds) (simp_all add: walk_up.simps)
next
  case (Cons c cs)
  then have "walk_up s x c = Some (last (c # cs))" by auto
  with Cons.prems show ?case by (subst walk_up.simps) simp
qed

lemma walk_down_dseg:
  assumes "wc_prev s t = last_of None (cs @ ds)" "dseg (wc_next s) (wc_prev s) None (cs @ ds) e"
    and "\<forall>d\<in>set ds. x < nX s d" "cs \<noteq> [] \<Longrightarrow> nX s (last cs) \<le> x"
  shows "walk_down s x t = Some (hd (ds @ [t]))"
  using assms
proof (induction ds arbitrary: t e rule: rev_induct)
  case Nil
  then show ?case by (cases cs rule: rev_cases) (simp_all add: walk_down.simps)
next
  case (snoc d ds)
  then have "walk_down s x d = Some (hd (ds @ [d]))" by auto
  with snoc.prems show ?case by (subst walk_down.simps) (cases ds; simp)
qed

lemma sorted_last_le:
  assumes "sorted (map k as)" "as \<noteq> [] \<Longrightarrow> k (last as) \<le> (x::'a::linorder)"
  shows "\<forall>a\<in>set as. k a \<le> x"
  using assms by (cases as rule: rev_cases) (auto simp: sorted_append intro: order_trans)

lemma sorted_hd_ge:
  assumes "sorted (map k bs)" "bs \<noteq> [] \<Longrightarrow> x \<le> (k (hd bs) :: 'a::linorder)"
  shows "\<forall>b\<in>set bs. x \<le> k b"
  using assms by (cases bs) (auto intro: order_trans)

lemma dropWhile_ge: "sorted (map k bs) \<Longrightarrow> d \<in> set (dropWhile (\<lambda>b. k b < x) bs) \<Longrightarrow> (x::'a::linorder) \<le> k d"
  by (induction bs) (auto split: if_splits)

lemma dropWhile_gt: "sorted (map k bs) \<Longrightarrow> d \<in> set (dropWhile (\<lambda>b. k b \<le> x) bs) \<Longrightarrow> (x::'a::linorder) < k d"
  by (induction bs) (auto split: if_splits)

lemma split_up:
  assumes "sorted (map k bs)"
  obtains cs ds where "bs = cs @ ds" "\<forall>c\<in>set cs. k c < (x::'a::linorder)" "\<forall>d\<in>set ds. x \<le> k d"
  using dropWhile_ge [OF assms] set_takeWhileD [of _ "\<lambda>b. k b < x" bs]
    takeWhile_dropWhile_id [of "\<lambda>b. k b < x" bs, symmetric]
  by blast

lemma split_down:
  assumes "sorted (map k as)"
  obtains cs ds where "as = cs @ ds" "\<forall>c\<in>set cs. k c \<le> (x::'a::linorder)" "\<forall>d\<in>set ds. x < k d"
  using dropWhile_gt [OF assms] set_takeWhileD [of _ "\<lambda>b. k b \<le> x" as]
    takeWhile_dropWhile_id [of "\<lambda>b. k b \<le> x" as, symmetric]
  by blast

definition list_kept :: "wchan \<Rightarrow> nat list \<Rightarrow> wchan \<Rightarrow> nat list \<Rightarrow> bool" where
  "list_kept s xs s' ys \<longleftrightarrow> dlist s' ys \<and> mset ys = mset xs \<and> sorted (map (nX s) ys)
     \<and> wc_node s' = wc_node s \<and> wc_num s' = wc_num s \<and> wc_sorted s'"

lemma updateNodesList_up:
  assumes d: "dlist s (as @ mn # bs)" and "wc_sorted s" "sorted (map (nX s) (as @ bs))"
    and o: "\<forall>a\<in>set as. nX s a \<le> oldX" and lt: "oldX < nX s mn"
  shows "\<exists>s' ys. updateNodesList mn oldX s = Some s' \<and> list_kept s (as @ mn # bs) s' ys"
proof -
  let ?x = "nX s mn"
  have as: "\<forall>a\<in>set as. nX s a \<le> ?x" using o lt by fastforce
  have sa: "sorted (map (nX s) as)" and sb: "sorted (map (nX s) bs)"
    and ab: "\<forall>a\<in>set as. \<forall>b\<in>set bs. nX s a \<le> nX s b"
    using assms(3) by (auto simp: sorted_append)
  obtain cs ds where bs: "bs = cs @ ds" and c: "\<forall>c\<in>set cs. nX s c < ?x" and ds: "\<forall>d\<in>set ds. ?x \<le> nX s d"
    using split_up [OF sb] .
  show ?thesis
  proof (cases cs rule: rev_cases)
    case Nil
    then have "in_place (nX s) ?x as bs" using as ds bs by (auto simp: in_place_def)
    from delete_moved_dlist(1) [OF d this] have "updateNodesList mn oldX s = Some s"
      using assms(2) by (simp add: updateNodesList_def)
    moreover have "list_kept s (as @ mn # bs) s (as @ mn # bs)"
      using d assms(2) sa sb as ds ab bs Nil by (auto simp: list_kept_def sorted_append)
    ultimately show ?thesis by blast
  next
    case (snoc cs' t)
    then have "\<not> in_place (nX s) ?x as bs" using c bs by (cases cs') (auto simp: in_place_def)
    from delete_moved_dlist(2) [OF d this] obtain s1 where
      s1: "delete_moved mn s = (False, s1)" "dlist s1 (as @ bs)" "same_nodes s s1"
        "wc_next s1 mn = first_of (cs @ ds) None"
      unfolding bs by blast
    then have n: "wc_node s1 = wc_node s" by (simp add: same_nodes_def)
    have "walk_up s1 ?x mn = Some t"
      using walk_up_dseg [OF s1(4), of "last_of None as" ?x] s1(2) c ds snoc unfolding bs n
      by (simp add: dlist_def)
    then have u: "updateNodesList mn oldX s = Some (link_after mn t s1)"
      using assms(2) lt s1(1) by (simp add: updateNodesList_def)
    have "mn \<notin> set (as @ bs)" using d by (simp add: dlist_def)
    then have "dlist (link_after mn t s1) ((as @ cs') @ t # mn # ds)" "same_nodes s (link_after mn t s1)"
      using link_after_dlist [of s1 "as @ cs'" t ds mn] s1(2,3) bs snoc same_nodes_trans by auto
    then have "list_kept s (as @ mn # bs) (link_after mn t s1) ((as @ cs') @ t # mn # ds)"
      using assms(2) sa sb as ds c ab bs snoc
      by (auto simp: list_kept_def same_nodes_def sorted_append intro: less_imp_le)
    with u show ?thesis by blast
  qed
qed

lemma updateNodesList_down:
  assumes d: "dlist s (as @ mn # bs)" and "wc_sorted s" "sorted (map (nX s) (as @ bs))"
    and o: "\<forall>b\<in>set bs. oldX \<le> nX s b" and lt: "nX s mn < oldX"
  shows "\<exists>s' ys. updateNodesList mn oldX s = Some s' \<and> list_kept s (as @ mn # bs) s' ys"
proof -
  let ?x = "nX s mn"
  have b: "\<forall>b\<in>set bs. ?x \<le> nX s b" using o lt by fastforce
  have sa: "sorted (map (nX s) as)" and sb: "sorted (map (nX s) bs)"
    and ab: "\<forall>a\<in>set as. \<forall>b\<in>set bs. nX s a \<le> nX s b"
    using assms(3) by (auto simp: sorted_append)
  obtain cs ds where as: "as = cs @ ds" and c: "\<forall>c\<in>set cs. nX s c \<le> ?x" and ds: "\<forall>d\<in>set ds. ?x < nX s d"
    using split_down [OF sa] .
  show ?thesis
  proof (cases ds)
    case Nil
    then have "in_place (nX s) ?x as bs" using b c as by (auto simp: in_place_def)
    from delete_moved_dlist(1) [OF d this] have "updateNodesList mn oldX s = Some s"
      using assms(2) by (simp add: updateNodesList_def)
    moreover have "list_kept s (as @ mn # bs) s (as @ mn # bs)"
      using d assms(2) sa sb b c ab as Nil by (auto simp: list_kept_def sorted_append)
    ultimately show ?thesis by blast
  next
    case (Cons t ds')
    then have "\<not> in_place (nX s) ?x as bs" using ds as
      by (cases ds' rule: rev_cases) (auto simp: in_place_def)
    from delete_moved_dlist(2) [OF d this] obtain s1 where
      s1: "delete_moved mn s = (False, s1)" "dlist s1 (as @ bs)" "same_nodes s s1"
        "wc_prev s1 mn = last_of None (cs @ ds)"
      unfolding as by blast
    then have n: "wc_node s1 = wc_node s" by (simp add: same_nodes_def)
    have "walk_down s1 ?x mn = Some t"
      using walk_down_dseg [OF s1(4), of "first_of bs None" ?x] s1(2) c ds Cons unfolding as n
      by (simp add: dlist_def)
    then have u: "updateNodesList mn oldX s = Some (link_before mn t s1)"
      using assms(2) lt s1(1) by (simp add: updateNodesList_def)
    have "mn \<notin> set (as @ bs)" using d by (simp add: dlist_def)
    then have "dlist (link_before mn t s1) (cs @ mn # t # ds' @ bs)" "same_nodes s (link_before mn t s1)"
      using link_before_dlist [of s1 cs t "ds' @ bs" mn] s1(2,3) as Cons same_nodes_trans by auto
    then have "list_kept s (as @ mn # bs) (link_before mn t s1) (cs @ mn # t # ds' @ bs)"
      using assms(2) sa sb b ds c ab as Cons
      by (auto simp: list_kept_def same_nodes_def sorted_append intro: less_imp_le)
    with u show ?thesis by blast
  qed
qed

section \<open>The invariant\<close>

definition nl_inv :: "wchan \<Rightarrow> nat list \<Rightarrow> bool" where
  "nl_inv s xs \<longleftrightarrow> dlist s xs \<and> wc_num s = int (length xs)
     \<and> (wc_sorted s \<longrightarrow> sorted (map (nX s) xs))"

lemma updateNodesList_inv:
  assumes "dlist s xs" "mn \<in> set xs" "oldX \<noteq> nX s mn"
    and "wc_sorted s \<Longrightarrow> sorted (map ((nX s)(mn := oldX)) xs)"
  shows "\<exists>s' ys. updateNodesList mn oldX s = Some s' \<and> list_kept s xs s' ys"
proof (cases "wc_sorted s")
  case False
  then show ?thesis using sortLists_dlist [OF assms(1)]
    by (fastforce simp: updateNodesList_def list_kept_def)
next
  case True
  obtain as bs where xs: "xs = as @ mn # bs" using assms(2) by (meson split_list)
  have d: "mn \<notin> set as" "mn \<notin> set bs" using assms(1) xs by (auto simp: dlist_def)
  then have k: "map ((nX s)(mn := oldX)) as = map (nX s) as" "map ((nX s)(mn := oldX)) bs = map (nX s) bs"
    by (auto intro!: map_cong)
  have s: "sorted (map (nX s) (as @ bs))" "\<forall>a\<in>set as. nX s a \<le> oldX" "\<forall>b\<in>set bs. oldX \<le> nX s b"
    using assms(4) [OF True] unfolding xs by (auto simp: sorted_append k)
  show ?thesis
  proof (cases "oldX < nX s mn")
    case True
    then show ?thesis using updateNodesList_up [OF _ \<open>wc_sorted s\<close> s(1,2)] assms(1) xs by blast
  next
    case False
    then show ?thesis using updateNodesList_down [OF _ \<open>wc_sorted s\<close> s(1,3)] assms xs by force
  qed
qed

text \<open>The node after \<open>update_position\<close>.\<close>

definition updated_node :: "real \<Rightarrow> mnode \<Rightarrow> mnode" where
  "updated_node now m = (if dsub now (mn_update_time m) = 0 \<and> mn_update_time m \<noteq> 0 then m
     else (moved_node now m)\<lparr>mn_update_time := now\<rparr>)"

lemma update_position_inv:
  assumes "nl_inv s xs" "n \<in> set xs"
  shows "\<exists>s' ys. update_position now n s = Some s' \<and> nl_inv s' ys \<and> mset ys = mset xs
     \<and> wc_node s' = (wc_node s)(n := updated_node now (wc_node s n))
     \<and> (wc_sorted s \<longrightarrow> wc_sorted s')"
proof -
  let ?m = "wc_node s n" let ?m' = "moved_node now ?m" let ?s1 = "set_node n ?m' s"
  consider (skip) "dsub now (mn_update_time ?m) = 0 \<and> mn_update_time ?m \<noteq> 0"
    | (stay) "\<not> (dsub now (mn_update_time ?m) = 0 \<and> mn_update_time ?m \<noteq> 0)" "mn_X ?m = mn_X ?m'"
    | (move) "\<not> (dsub now (mn_update_time ?m) = 0 \<and> mn_update_time ?m \<noteq> 0)" "mn_X ?m \<noteq> mn_X ?m'"
    by blast
  then show ?thesis
  proof cases
    case skip
    then show ?thesis using assms(1) by (auto simp: update_position_def updated_node_def Let_def)
  next
    case stay
    let ?s' = "stamp_time now n ?s1"
    have "nX ?s' = nX s" using stay by (auto simp: stamp_time_def)
    then have "nl_inv ?s' xs" using assms(1) by (simp add: nl_inv_def stamp_time_def dlist_def)
    moreover have "wc_node ?s' = (wc_node s)(n := updated_node now ?m)" "wc_sorted ?s' = wc_sorted s"
      using stay(1) by (auto simp: stamp_time_def updated_node_def)
    ultimately show ?thesis using stay
      by (auto simp: update_position_def Let_def simp del: fun_upd_apply)
  next
    case move
    have "(nX ?s1)(n := mn_X ?m) = nX s" by auto
    moreover have "dlist ?s1 xs" using assms(1) by (simp add: nl_inv_def dlist_def)
    ultimately obtain s2 ys where u: "updateNodesList n (mn_X ?m) ?s1 = Some s2" "list_kept ?s1 xs s2 ys"
      using updateNodesList_inv [of ?s1 xs n "mn_X ?m"] assms move
      by (auto simp: nl_inv_def simp del: fun_upd_apply) (auto)
    let ?s' = "stamp_time now n s2"
    have X: "map (nX ?s') ys = map (nX ?s1) ys" using u(2) by (auto simp: stamp_time_def list_kept_def)
    have "sorted (map (nX ?s') ys)" unfolding X using u(2) by (simp only: list_kept_def)
    moreover have "dlist ?s' ys" "wc_num ?s' = int (length ys)" using assms(1) u(2)
      by (auto simp: nl_inv_def stamp_time_def dlist_def list_kept_def dest: mset_eq_length)
    ultimately have "nl_inv ?s' ys" by (simp add: nl_inv_def)
    moreover have "wc_node ?s' = (wc_node s)(n := updated_node now ?m)" "wc_sorted ?s'"
      using move(1) u(2) by (auto simp: stamp_time_def updated_node_def list_kept_def)
    moreover have "update_position now n s = Some ?s'"
      using move u(1) by (auto simp: update_position_def Let_def)
    ultimately show ?thesis using u(2) by (auto simp: list_kept_def simp del: fun_upd_apply)
  qed
qed

lemma refresh_inv:
  assumes "nl_inv s xs" "set ns \<subseteq> set xs" "distinct ns"
  shows "\<exists>s' ys. refresh now ns s = Some s' \<and> nl_inv s' ys \<and> mset ys = mset xs
     \<and> (\<forall>n. wc_node s' n = (if n \<in> set ns \<and> stale now (wc_node s n)
                             then updated_node now (wc_node s n) else wc_node s n))
     \<and> (wc_sorted s \<longrightarrow> wc_sorted s')"
  using assms
proof (induction ns arbitrary: s xs)
  case Nil
  then show ?case by auto
next
  case (Cons n ns)
  show ?case
  proof (cases "stale now (wc_node s n)")
    case False
    with Cons.IH [of s xs] Cons.prems show ?thesis by (simp, metis)
  next
    case True
    obtain s1 ys where u: "update_position now n s = Some s1" "nl_inv s1 ys" "mset ys = mset xs"
      "wc_node s1 = (wc_node s)(n := updated_node now (wc_node s n))" "wc_sorted s \<longrightarrow> wc_sorted s1"
      using update_position_inv [OF Cons.prems(1)] Cons.prems(2) by force
    have "set ns \<subseteq> set ys" using Cons.prems(2) u(3) by (metis list.set_intros(2) set_mset_mset subset_code(1))
    then obtain s' zs where r: "refresh now ns s1 = Some s'" "nl_inv s' zs" "mset zs = mset ys"
      "\<forall>k. wc_node s' k = (if k \<in> set ns \<and> stale now (wc_node s1 k)
         then updated_node now (wc_node s1 k) else wc_node s1 k)" "wc_sorted s1 \<longrightarrow> wc_sorted s'"
      using Cons.IH [OF u(2)] Cons.prems(3) by force
    moreover have "\<forall>k. wc_node s' k = (if k \<in> set (n # ns) \<and> stale now (wc_node s k)
         then updated_node now (wc_node s k) else wc_node s k)"
      using r(4) u(4) Cons.prems(3) True by auto
    ultimately show ?thesis using u True by auto
  qed
qed

section \<open>Adding and removing, on lists\<close>

lemma find_last_dseg:
  "dseg (wc_next s) pv p (x # xs) None \<Longrightarrow> find_last s x = Some (last (x # xs))"
proof (induction xs arbitrary: p x)
  case (Cons y ys)
  then have "find_last s y = Some (last (y # ys))" by simp
  with Cons.prems show ?case by (subst find_last.simps) simp
qed (simp add: find_last.simps)

lemma addNodeToList_dlist:
  assumes "dlist s xs" "n \<notin> set xs"
  shows "\<exists>s'. addNodeToList n s = Some s' \<and> dlist s' (xs @ [n]) \<and> wc_node s' = wc_node s
    \<and> wc_sorted s' = wc_sorted s \<and> wc_num s' = wc_num s + 1"
proof (cases xs)
  case Nil
  with assms show ?thesis by (simp add: addNodeToList_def dlist_def)
next
  case (Cons x ys)
  have h: "wc_head s = Some x" and "dseg (wc_next s) (wc_prev s) None (x # ys) None"
    using assms(1) Cons by (simp_all add: dlist_def)
  then have l: "find_last s x = Some (last xs)" using find_last_dseg Cons by blast
  obtain cs t where xs: "xs = cs @ [t]" using Cons by (metis list.distinct(1) rev_exhaust)
  let ?s = "set_next n None (set_prev n (Some t) (set_next t (Some n) s))"
  have "dlist (?s\<lparr>wc_num := wc_num s + 1\<rparr>) (xs @ [n])"
    using assms xs by (auto simp: dlist_def)
  moreover have "addNodeToList n s = Some (?s\<lparr>wc_num := wc_num s + 1\<rparr>)"
    using h l xs by (simp add: addNodeToList_def)
  ultimately show ?thesis by simp
qed

lemma addNodeToList_inv:
  assumes "nl_inv s xs" "n \<notin> set xs" "wc_sorted s \<Longrightarrow> \<forall>x\<in>set xs. nX s x \<le> nX s n"
  shows "\<exists>s'. addNodeToList n s = Some s' \<and> nl_inv s' (xs @ [n]) \<and> wc_node s' = wc_node s
    \<and> wc_sorted s' = wc_sorted s"
  using addNodeToList_dlist [of s xs n] assms by (auto simp: nl_inv_def sorted_append)

lemma remove_loop_dseg:
  assumes "dseg (wc_next s) (wc_prev s) p (t # xs) None" "distinct (t # xs)"
  shows "remove_loop n t s = Some (if n \<in> set (butlast (t # xs))
     then bind_res (unlink_node n s) (\<lambda>s'. Inr (s'\<lparr>wc_num := wc_num s - 1\<rparr>)) else Inr s)"
  using assms
proof (induction xs arbitrary: t p)
  case (Cons x xs)
  then have "remove_loop n x s = Some (if n \<in> set (butlast (x # xs))
     then bind_res (unlink_node n s) (\<lambda>s'. Inr (s'\<lparr>wc_num := wc_num s - 1\<rparr>)) else Inr s)" by auto
  with Cons.prems show ?case
    by (subst remove_loop.simps) (auto dest: in_set_butlastD)
qed (simp add: remove_loop.simps)

lemma unlink_node_dlist:
  assumes "dlist s (as @ n # b # bs)"
  shows "\<exists>s'. unlink_node n s = Inr s' \<and> dlist s' (as @ b # bs) \<and> same_nodes s s'"
  using assms
  by (cases as rule: rev_cases) (auto simp: dlist_def unlink_node_def same_nodes_def)

lemma removeNodeFromList_inv:
  assumes "nl_inv s xs" "xs \<noteq> []"
  shows "\<exists>s'. removeNodeFromList n s = Some (Inr s') \<and> wc_node s' = wc_node s
    \<and> wc_sorted s' = wc_sorted s
    \<and> (if n \<in> set (butlast xs) then nl_inv s' (remove1 n xs) else s' = s)"
proof -
  obtain x ys where xs: "xs = x # ys" using assms(2) by (cases xs) auto
  have d: "dlist s xs" using assms(1) by (simp add: nl_inv_def)
  then have r: "removeNodeFromList n s = Some (if n \<in> set (butlast xs)
     then bind_res (unlink_node n s) (\<lambda>s'. Inr (s'\<lparr>wc_num := wc_num s - 1\<rparr>)) else Inr s)"
    using remove_loop_dseg [of s None x ys n] unfolding xs
    by (simp add: dlist_def removeNodeFromList_def)
  show ?thesis
  proof (cases "n \<in> set (butlast xs)")
    case True
    then obtain as bs where b: "butlast xs = as @ n # bs" by (meson split_list)
    moreover have "xs = butlast xs @ [last xs]" using assms(2) by simp
    ultimately obtain c cs where l: "xs = as @ n # c # cs" by (cases bs) auto
    obtain s' where s': "unlink_node n s = Inr s'" "dlist s' (as @ c # cs)" "same_nodes s s'"
      using unlink_node_dlist d l by blast
    have "remove1 n xs = as @ c # cs" using d l by (auto simp: dlist_def remove1_append)
    then show ?thesis using r True s' assms(1) l
      by (auto simp: nl_inv_def same_nodes_def dlist_def sorted_append)
  qed (use r in simp)
qed

section \<open>Collecting nodes, on lists\<close>

lemma collect_all_dseg:
  assumes "dseg (wc_next s) pv p ys None" "int (length acc + length ys) \<le> wc_num s"
  shows "collect_all s (first_of ys None) acc = Some (Inr (acc @ ys))"
  using assms
proof (induction ys arbitrary: p acc)
  case (Cons y ys)
  then have "collect_all s (first_of ys None) (acc @ [y]) = Some (Inr (acc @ y # ys))"
    using Cons.IH [of "Some y" "acc @ [y]"] by simp
  with Cons.prems show ?case by (subst collect_all.simps) (simp add: push_node_def)
qed (simp add: collect_all.simps)

definition in_strip :: "wchan \<Rightarrow> real \<Rightarrow> real \<Rightarrow> nat \<Rightarrow> bool" where
  "in_strip s ymin ymax n \<longleftrightarrow> ymin \<le> nY s n \<and> nY s n \<le> ymax"

lemma collect_up_dseg:
  assumes "dseg (wc_next s) pv p ys None" "int (length acc + length ys) \<le> wc_num s"
  shows "collect_up s xmax ymin ymax (first_of ys None) acc
    = Some (Inr (acc @ filter (in_strip s ymin ymax) (takeWhile (\<lambda>n. nX s n \<le> xmax) ys)))"
  using assms
proof (induction ys arbitrary: p acc)
  case (Cons y ys)
  then have "collect_up s xmax ymin ymax (first_of ys None) (acc @ l)
    = Some (Inr ((acc @ l) @ filter (in_strip s ymin ymax) (takeWhile (\<lambda>n. nX s n \<le> xmax) ys)))"
    if "length l \<le> 1" for l using that Cons.IH [of "Some y" "acc @ l"] by simp
  from this [of "[y]"] this [of "[]"] Cons.prems show ?case
    by (subst collect_up.simps) (simp add: push_if_def push_node_def in_strip_def)
qed (simp add: collect_up.simps)

lemma collect_down_dseg:
  assumes "dseg (wc_next s) (wc_prev s) None ys e" "int (length acc + length ys) \<le> wc_num s"
  shows "collect_down s xmin ymin ymax (last_of None ys) acc
    = Some (Inr (acc @ filter (in_strip s ymin ymax) (takeWhile (\<lambda>n. xmin \<le> nX s n) (rev ys))))"
  using assms
proof (induction ys arbitrary: e acc rule: rev_induct)
  case (snoc y ys)
  then have "collect_down s xmin ymin ymax (last_of None ys) (acc @ l)
    = Some (Inr ((acc @ l) @ filter (in_strip s ymin ymax) (takeWhile (\<lambda>n. xmin \<le> nX s n) (rev ys))))"
    if "length l \<le> 1" for l using that snoc.IH [of "Some y" "acc @ l"] by simp
  from this [of "[y]"] this [of "[]"] snoc.prems show ?case
    by (subst collect_down.simps) (simp add: push_if_def push_node_def in_strip_def)
qed (simp add: collect_down.simps)

lemma takeWhile_le_filter:
  "sorted (map k ys) \<Longrightarrow> takeWhile (\<lambda>n. k n \<le> (x::'a::linorder)) ys = filter (\<lambda>n. k n \<le> x) ys"
proof (induction ys)
  case (Cons y ys)
  moreover have "filter (\<lambda>n. k n \<le> x) ys = []" if "\<not> k y \<le> x"
    using that Cons.prems by (auto simp: filter_empty_conv)
  ultimately show ?case by simp
qed simp

lemma takeWhile_ge_filter:
  "sorted (map k ys) \<Longrightarrow>
     takeWhile (\<lambda>n. (x::'a::linorder) \<le> k n) (rev ys) = filter (\<lambda>n. x \<le> k n) (rev ys)"
proof (induction ys rule: rev_induct)
  case (snoc y ys)
  moreover have "filter (\<lambda>n. x \<le> k n) ys = []" if "\<not> x \<le> k y"
    using that snoc.prems by (auto simp: filter_empty_conv sorted_append)
  ultimately show ?case by (simp add: sorted_append flip: rev_filter)
qed simp

definition in_window :: "wchan \<Rightarrow> real \<Rightarrow> real \<Rightarrow> real \<Rightarrow> real \<Rightarrow> nat \<Rightarrow> bool" where
  "in_window s xmin xmax ymin ymax n \<longleftrightarrow>
     xmin \<le> nX s n \<and> nX s n \<le> xmax \<and> ymin \<le> nY s n \<and> nY s n \<le> ymax"

text \<open>The walk itself needs no order: it visits the nodes before and behind the sender.\<close>

lemma collect_window_dlist:
  assumes "dlist s (as @ mn # bs)" "wc_num s = int (length (as @ mn # bs))"
  shows "collect_window s mn xmin xmax ymin ymax = Some (Inr
    (filter (in_strip s ymin ymax) (takeWhile (\<lambda>n. xmin \<le> nX s n) (rev (as @ [mn]))) @
     filter (in_strip s ymin ymax) (takeWhile (\<lambda>n. nX s n \<le> xmax) bs)))"
proof -
  have d: "dseg (wc_next s) (wc_prev s) None (as @ [mn]) (first_of bs None)"
    "dseg (wc_next s) (wc_prev s) (Some mn) bs None" "wc_next s mn = first_of bs None"
    using assms(1) by (simp_all add: dlist_def)
  let ?a = "filter (in_strip s ymin ymax) (takeWhile (\<lambda>n. xmin \<le> nX s n) (rev (as @ [mn])))"
  have la: "length ?a \<le> length (as @ [mn])"
    by (metis length_filter_le length_rev length_takeWhile_le order_trans)
  have "collect_down s xmin ymin ymax (Some mn) [] = Some (Inr ?a)"
    using collect_down_dseg [OF d(1), of "[]" xmin ymin ymax] assms(2) by simp
  moreover have "collect_up s xmax ymin ymax (wc_next s mn) ?a = Some (Inr (?a @
      filter (in_strip s ymin ymax) (takeWhile (\<lambda>n. nX s n \<le> xmax) bs)))"
    using collect_up_dseg [OF d(2), of ?a xmax ymin ymax] d(3) assms(2) la by simp
  ultimately show ?thesis by (simp add: collect_window_def)
qed

lemma collect_window_exact:
  assumes "nl_inv s xs" "wc_sorted s" "mn \<in> set xs" "xmin \<le> nX s mn" "nX s mn \<le> xmax"
  shows "\<exists>l. collect_window s mn xmin xmax ymin ymax = Some (Inr l) \<and> distinct l
    \<and> set l = {n \<in> set xs. in_window s xmin xmax ymin ymax n}"
proof -
  obtain as bs where xs: "xs = as @ mn # bs" using assms(3) by (meson split_list)
  have d: "dlist s (as @ mn # bs)" "wc_num s = int (length (as @ mn # bs))" "distinct (as @ mn # bs)"
    using assms(1) xs by (simp_all add: nl_inv_def dlist_def)
  let ?f = "in_strip s ymin ymax"
  let ?a = "filter ?f (takeWhile (\<lambda>n. xmin \<le> nX s n) (rev (as @ [mn])))"
  let ?b = "filter ?f (takeWhile (\<lambda>n. nX s n \<le> xmax) bs)"
  have so: "sorted (map (nX s) (as @ mn # bs))" using assms(1,2) xs by (simp add: nl_inv_def)
  then have sa: "sorted (map (nX s) (as @ [mn]))" and sb: "sorted (map (nX s) bs)"
    and lo: "\<forall>a\<in>set as. nX s a \<le> nX s mn" and hi: "\<forall>b\<in>set bs. nX s mn \<le> nX s b"
    by (auto simp: sorted_append)
  have "distinct (?a @ ?b)" using d(3)
    unfolding takeWhile_le_filter [OF sb] takeWhile_ge_filter [OF sa] by auto
  moreover have "set (?a @ ?b) = {n \<in> set xs. in_window s xmin xmax ymin ymax n}"
    using lo hi assms(4,5) xs unfolding takeWhile_le_filter [OF sb] takeWhile_ge_filter [OF sa]
    by (auto simp: in_strip_def in_window_def)
  ultimately show ?thesis using collect_window_dlist [OF d(1,2)] by blast
qed

definition sent_from :: "wchan \<Rightarrow> nat \<Rightarrow> real \<Rightarrow> wchan \<Rightarrow> nat \<Rightarrow> bool" where
  "sent_from s mn radius = (\<lambda>s'. in_window s' (dsub (nX s mn) radius) (dadd (nX s mn) radius)
     (dsub (nY s mn) radius) (dadd (nY s mn) radius))"

definition refreshed :: "real \<Rightarrow> mnode \<Rightarrow> mnode" where
  "refreshed now m = (if stale now m then updated_node now m else m)"

lemma getAffectedNodes_eq:
  assumes "nl_inv s xs" "xs \<noteq> []"
  shows "\<exists>s' ys. nl_inv s' ys \<and> mset ys = mset xs \<and> (wc_sorted s \<longrightarrow> wc_sorted s')
    \<and> (\<forall>n\<in>set xs. wc_node s' n = refreshed now (wc_node s n))
    \<and> getAffectedNodes now mn radius s = map_option (\<lambda>r. bind_res r (\<lambda>l. Inr (Some l, s')))
         (collect_window s' mn (dsub (nX s mn) radius) (dadd (nX s mn) radius)
            (dsub (nY s mn) radius) (dadd (nY s mn) radius))"
proof -
  have d: "dlist s xs" "wc_num s = int (length xs)" "distinct xs"
    using assms(1) by (simp_all add: nl_inv_def dlist_def)
  have h: "wc_head s = first_of xs None" "wc_head s \<noteq> None"
    using d(1) assms(2) by (cases xs; simp add: dlist_def)+
  have c: "collect_all s (wc_head s) [] = Some (Inr xs)"
    using collect_all_dseg [of s "wc_prev s" None xs "[]"] d by (simp add: dlist_def)
  obtain s' ys where r: "refresh now xs s = Some s'" "nl_inv s' ys" "mset ys = mset xs"
    "\<forall>n. wc_node s' n = (if n \<in> set xs \<and> stale now (wc_node s n)
                          then updated_node now (wc_node s n) else wc_node s n)"
    "wc_sorted s \<longrightarrow> wc_sorted s'"
    using refresh_inv [OF assms(1) subset_refl d(3), of now] by auto
  have "\<forall>n\<in>set xs. wc_node s' n = refreshed now (wc_node s n)"
    using r(4) by (simp add: refreshed_def)
  moreover have "getAffectedNodes now mn radius s
     = map_option (\<lambda>r. bind_res r (\<lambda>l. Inr (Some l, s')))
         (collect_window s' mn (dsub (nX s mn) radius) (dadd (nX s mn) radius)
            (dsub (nY s mn) radius) (dadd (nY s mn) radius))"
    using h(2) c r(1) by (simp add: getAffectedNodes_def Let_def del: not_None_eq)
  ultimately show ?thesis using r by blast
qed

lemma getAffectedNodes_total:
  assumes "nl_inv s xs" "mn \<in> set xs"
  shows "\<exists>l s' ys. getAffectedNodes now mn radius s = Some (Inr (l, s')) \<and> nl_inv s' ys
    \<and> mset ys = mset xs \<and> (wc_sorted s \<longrightarrow> wc_sorted s')"
proof -
  obtain s' ys where s': "nl_inv s' ys" "mset ys = mset xs" "wc_sorted s \<longrightarrow> wc_sorted s'"
    "getAffectedNodes now mn radius s = map_option (\<lambda>r. bind_res r (\<lambda>l. Inr (Some l, s')))
         (collect_window s' mn (dsub (nX s mn) radius) (dadd (nX s mn) radius)
            (dsub (nY s mn) radius) (dadd (nY s mn) radius))"
    using getAffectedNodes_eq [OF assms(1), of now mn radius] assms(2) by force
  obtain as bs where "ys = as @ mn # bs" using assms(2) s'(2) by (metis mset_eq_setD split_list)
  then have "\<exists>l. collect_window s' mn xmin xmax ymin ymax = Some (Inr l)" for xmin xmax ymin ymax
    using s'(1) collect_window_dlist [of s' as mn bs] by (simp only: nl_inv_def) blast
  with s'(4) have "\<exists>l. getAffectedNodes now mn radius s = Some (Inr (l, s'))"
    by (metis bind_res_simps(2) option.map(2))
  with s'(1-3) show ?thesis by blast
qed

section \<open>Setting a destination\<close>

text \<open>
  \<open>topo\<close> holds \<open>upperX()\<close> and \<open>upperY()\<close> of the topography (the lower bounds are 0), which
  the node and its trace target are assumed to have. \<open>Inl\<close> is the failed assertion
  \<open>initialized()\<close>; the result \<open>False\<close> is the return value -1.
\<close>

record topo =
  upperX :: real
  upperY :: real

definition initialized :: "topo \<Rightarrow> mnode \<Rightarrow> bool" where
  "initialized T m \<longleftrightarrow> 0 \<le> mn_X m \<and> mn_X m \<le> upperX T \<and> 0 \<le> mn_Y m \<and> mn_Y m \<le> upperY T"

definition aim :: "real \<Rightarrow> real \<Rightarrow> real \<Rightarrow> real \<Rightarrow> mnode \<Rightarrow> mnode" where
  "aim now x y v m =
     (let dx = dsub x (mn_X m); dy = dsub y (mn_Y m);
          len = to_double (sqrt (dadd (dmul dx dx) (dmul dy dy)));
          away = (x \<noteq> mn_X m \<or> y \<noteq> mn_Y m)
      in m\<lparr>mn_destX := x, mn_destY := y, mn_speed := v,
           mn_dX := (if away then to_double (dx / len) else dx),
           mn_dY := (if away then to_double (dy / len) else dy),
           mn_update_time := now\<rparr>)"

definition set_destination ::
    "topo \<Rightarrow> real \<Rightarrow> nat \<Rightarrow> real \<Rightarrow> real \<Rightarrow> real \<Rightarrow> wchan \<Rightarrow> (unit, bool \<times> wchan) result option" where
  "set_destination T now n x y v s =
     (if \<not> initialized T (wc_node s n) then Some (Inl ())
      else if upperX T \<le> x \<or> x \<le> 0 \<or> upperY T \<le> y \<or> y \<le> 0 then Some (Inr (False, s))
      else map_option (\<lambda>s1. Inr (True, set_node n (aim now x y v (wc_node s1 n)) s1))
             (update_position now n s))"

lemma aim_X [simp]: "mn_X (aim now x y v m) = mn_X m"
  by (simp add: aim_def Let_def)

lemma nl_inv_set_node:
  assumes "nl_inv s xs" "mn_X m = nX s n"
  shows "nl_inv (set_node n m s) xs"
proof -
  have "map (nX (set_node n m s)) xs = map (nX s) xs" using assms(2) by auto
  then have "sorted (map (nX (set_node n m s)) xs)" if "wc_sorted s"
    using assms(1) that by (simp only: nl_inv_def)
  then show ?thesis using assms(1)
    by (simp add: nl_inv_def dlist_def del: fun_upd_apply)
qed

lemma set_destination_inv:
  assumes "nl_inv s xs" "n \<in> set xs" "initialized T (wc_node s n)"
  shows "\<exists>b s' ys. set_destination T now n x y v s = Some (Inr (b, s')) \<and> nl_inv s' ys
    \<and> mset ys = mset xs \<and> (wc_sorted s \<longrightarrow> wc_sorted s')"
proof -
  obtain s1 ys where u: "update_position now n s = Some s1" "nl_inv s1 ys" "mset ys = mset xs"
    "wc_sorted s \<longrightarrow> wc_sorted s1"
    using update_position_inv [OF assms(1,2)] by blast
  then have "nl_inv (set_node n (aim now x y v (wc_node s1 n)) s1) ys"
    by (intro nl_inv_set_node) simp_all
  with u assms show ?thesis by (auto simp: set_destination_def)
qed

section \<open>Reachable node lists\<close>

text \<open>
  The set \<open>M\<close> holds the nodes of the list. A node is added before the first transmission
  sorts the list, or later at its right end (\<open>late_node_overruns\<close> shows what becomes of the
  others); its coordinates are set freely until then, and afterwards it moves. A removal
  takes the node out unless it is not in the list or is its last, where
  \<open>removeNodeFromList\<close> changes nothing.
\<close>

inductive nl_reach :: "topo \<Rightarrow> wchan \<Rightarrow> nat set \<Rightarrow> bool" for T where
  start: "nl_reach T (empty_wchan nodes) {}"
| place: "nl_reach T s M \<Longrightarrow> \<not> wc_sorted s \<or> n \<notin> M \<Longrightarrow> nl_reach T (set_node n m s) M"
| add: "nl_reach T s M \<Longrightarrow> n \<notin> M \<Longrightarrow> \<not> wc_sorted s \<or> (\<forall>k\<in>M. nX s k \<le> nX s n) \<Longrightarrow> addNodeToList n s = Some s'
    \<Longrightarrow> nl_reach T s' (insert n M)"
| remove: "nl_reach T s M \<Longrightarrow> removeNodeFromList n s = Some (Inr s')
    \<Longrightarrow> nl_reach T s' (if wc_next s n = None then M else M - {n})"
| sort: "nl_reach T s M \<Longrightarrow> sortLists s = Some s' \<Longrightarrow> nl_reach T s' M"
| move: "nl_reach T s M \<Longrightarrow> n \<in> M \<Longrightarrow> update_position now n s = Some s' \<Longrightarrow> nl_reach T s' M"
| dest: "nl_reach T s M \<Longrightarrow> n \<in> M \<Longrightarrow> set_destination T now n x y v s = Some (Inr (b, s'))
    \<Longrightarrow> nl_reach T s' M"
| send: "nl_reach T s M \<Longrightarrow> n \<in> M \<Longrightarrow> getAffectedNodes now n r s = Some (Inr (l, s'))
    \<Longrightarrow> nl_reach T s' M"

definition nl_ok :: "wchan \<Rightarrow> nat set \<Rightarrow> bool" where
  "nl_ok s M \<longleftrightarrow> (\<exists>xs. nl_inv s xs \<and> set xs = M)"

lemma nl_okI: "nl_inv s ys \<Longrightarrow> mset ys = mset xs \<Longrightarrow> set xs = M \<Longrightarrow> nl_ok s M"
  unfolding nl_ok_def using mset_eq_setD by blast

lemma nl_inv_place:
  assumes "nl_inv s xs" "\<not> wc_sorted s \<or> n \<notin> set xs"
  shows "nl_inv (set_node n m s) xs"
proof -
  have "sorted (map (nX (set_node n m s)) xs)" if "wc_sorted s"
  proof -
    have "map (nX (set_node n m s)) xs = map (nX s) xs" using assms(2) that by auto
    then show ?thesis using assms(1) that by (simp only: nl_inv_def)
  qed
  then show ?thesis using assms(1) by (simp add: nl_inv_def dlist_def del: fun_upd_apply)
qed

text \<open>The last node is the one that has no successor.\<close>

lemma nl_inv_last:
  assumes "nl_inv s xs" "n \<in> set xs"
  shows "wc_next s n = None \<longleftrightarrow> n \<notin> set (butlast xs)"
proof -
  obtain as bs where xs: "xs = as @ n # bs" using assms(2) by (meson split_list)
  then have "wc_next s n = first_of bs None" "distinct (as @ n # bs)"
    using dlist_nextD(1) [of s as n bs] assms(1) by (simp_all add: nl_inv_def dlist_def)
  then show ?thesis using xs by (cases bs) (auto simp: butlast_append dest: in_set_butlastD)
qed

lemma nl_reach_ok: "nl_reach T s M \<Longrightarrow> nl_ok s M"
proof (induction rule: nl_reach.induct)
  case (start nodes)
  have "nl_inv (empty_wchan nodes) []" by (simp add: nl_inv_def dlist_def empty_wchan_def)
  then show ?case by (auto simp: nl_ok_def)
next
  case (place s M n m)
  then show ?case using nl_inv_place unfolding nl_ok_def by blast
next
  case (add s M n s')
  then obtain xs where xs: "nl_inv s xs" "set xs = M" unfolding nl_ok_def by blast
  then have "nl_inv s' (xs @ [n])" using addNodeToList_inv [OF xs(1)] add by force
  moreover have "set (xs @ [n]) = insert n M" using xs(2) by simp
  ultimately show ?case unfolding nl_ok_def by blast
next
  case (remove s M n s')
  then obtain xs where xs: "nl_inv s xs" "set xs = M" unfolding nl_ok_def by blast
  have "xs \<noteq> []" using remove.hyps(2) xs(1)
    by (auto simp: removeNodeFromList_def nl_inv_def dlist_def)
  then have r: "if n \<in> set (butlast xs) then nl_inv s' (remove1 n xs) else s' = s"
    using removeNodeFromList_inv [OF xs(1), of n] remove.hyps(2) by auto
  show ?case
  proof (cases "n \<in> set (butlast xs)")
    case True
    then have "wc_next s n \<noteq> None" using nl_inv_last [OF xs(1), of n] by (auto dest: in_set_butlastD)
    moreover have "set (remove1 n xs) = M - {n}" using xs by (simp add: nl_inv_def dlist_def)
    ultimately show ?thesis using r True unfolding nl_ok_def by auto
  next
    case False
    then have "M = (if wc_next s n = None then M else M - {n})"
      using nl_inv_last [OF xs(1), of n] xs(2) by auto
    then show ?thesis using r False xs unfolding nl_ok_def by auto
  qed
next
  case (sort s M s')
  then obtain xs where xs: "nl_inv s xs" "set xs = M" unfolding nl_ok_def by blast
  then have "dlist s' (sort_key (nX s) xs)" "wc_node s' = wc_node s" "wc_num s' = wc_num s"
    using sortLists_dlist [of s xs] sort.hyps(2) by (auto simp: nl_inv_def)
  then have "nl_inv s' (sort_key (nX s) xs)" using xs(1) by (simp add: nl_inv_def)
  then show ?case using xs(2) unfolding nl_ok_def by (metis set_sort)
next
  case (move s M n now s')
  then obtain xs where xs: "nl_inv s xs" "set xs = M" unfolding nl_ok_def by blast
  then obtain ys where "nl_inv s' ys" "mset ys = mset xs"
    using update_position_inv [OF xs(1), of n now] move.hyps by auto
  then show ?case using xs(2) by (rule nl_okI)
next
  case (dest s M n now x y v b s')
  then obtain xs where xs: "nl_inv s xs" "set xs = M" unfolding nl_ok_def by blast
  moreover have "initialized T (wc_node s n)"
    using dest.hyps(3) by (simp add: set_destination_def split: if_splits)
  ultimately obtain ys where "nl_inv s' ys" "mset ys = mset xs"
    using set_destination_inv [OF xs(1), of n T now x y v] dest.hyps by auto
  then show ?case using xs(2) by (rule nl_okI)
next
  case (send s M n now r l s')
  then obtain xs where xs: "nl_inv s xs" "set xs = M" unfolding nl_ok_def by blast
  then obtain ys where "nl_inv s' ys" "mset ys = mset xs"
    using getAffectedNodes_total [OF xs(1), of n now r] send.hyps by auto
  then show ?case using xs(2) by (rule nl_okI)
qed

section \<open>Properties\<close>

text \<open>What the list is meant to be: the nodes \<open>M\<close>, counted, and in order once it is sorted.\<close>

definition holds_nodes :: "wchan \<Rightarrow> nat set \<Rightarrow> bool" where
  "holds_nodes s M \<longleftrightarrow> (\<exists>xs. dlist s xs \<and> set xs = M \<and> wc_num s = int (card M)
     \<and> (wc_sorted s \<longrightarrow> sorted (map (nX s) xs)))"

lemma holds_nodes_iff: "holds_nodes s M \<longleftrightarrow> nl_ok s M"
  unfolding holds_nodes_def nl_ok_def nl_inv_def using distinct_card by (fastforce simp: dlist_def)

lemma nl_inv_holds: "nl_inv s ys \<Longrightarrow> mset ys = mset xs \<Longrightarrow> set xs = M \<Longrightarrow> holds_nodes s M"
  by (simp add: holds_nodes_iff nl_okI)

lemma holds_add:
  assumes "nl_inv s xs" "set xs = M" "n \<notin> M"
  shows "\<exists>s'. addNodeToList n s = Some s' \<and>
    (\<not> wc_sorted s \<or> (\<forall>k\<in>M. nX s k \<le> nX s n) \<longrightarrow> holds_nodes s' (insert n M))"
proof -
  obtain s' where a: "addNodeToList n s = Some s'"
    using addNodeToList_dlist [of s xs n] assms by (auto simp: nl_inv_def)
  have "nl_inv s' (xs @ [n])" if "\<not> wc_sorted s \<or> (\<forall>k\<in>M. nX s k \<le> nX s n)"
    using addNodeToList_inv [OF assms(1), of n] assms(2,3) a that by auto
  then show ?thesis using a assms(2) nl_inv_holds [of s' "xs @ [n]" "xs @ [n]"] by auto
qed

lemma holds_remove:
  assumes "nl_inv s xs" "set xs = M"
  shows "if M = {} then removeNodeFromList n s = Some (Inl NullDeref)
    else if n \<in> M \<and> wc_next s n \<noteq> None
    then \<exists>s'. removeNodeFromList n s = Some (Inr s') \<and> holds_nodes s' (M - {n})
    else removeNodeFromList n s = Some (Inr s)"
proof (cases "xs = []")
  case True
  then show ?thesis using assms by (simp add: nl_inv_def dlist_def removeNodeFromList_def)
next
  case False
  obtain s' where s': "removeNodeFromList n s = Some (Inr s')"
      "if n \<in> set (butlast xs) then nl_inv s' (remove1 n xs) else s' = s"
    using removeNodeFromList_inv [OF assms(1) False, of n] by blast
  have "n \<in> M \<and> wc_next s n \<noteq> None \<longleftrightarrow> n \<in> set (butlast xs)"
    using nl_inv_last [OF assms(1), of n] assms(2) by (auto dest: in_set_butlastD)
  moreover have "set (remove1 n xs) = M - {n}" using assms by (simp add: nl_inv_def dlist_def)
  ultimately show ?thesis
    using s' False assms(2) nl_inv_holds [of s' "remove1 n xs" "remove1 n xs" "M - {n}"] by auto
qed

text \<open>
  C12: Take any list of nodes built by the channel's operations, where a node that is added
  after the list was sorted comes in at its right end. It is a list of exactly its nodes,
  counted by \<open>numNodes_\<close> and in order of \<open>X_\<close> once \<open>sorted_\<close> is set, and every further
  operation returns with such a list again: adding a node that is not in it (in order only
  where the list is not sorted yet or the node is at the right end), sorting, moving a node,
  aiming one that is inside the topography, and collecting the nodes a transmission may
  reach, which does not write past the scratch array. Removing takes out a node that is not
  the last of the list; it leaves the list as it is when the node is the last one, which
  the code means to remove, and it follows a \<open>NULL\<close> pointer when the list is empty.
\<close>

theorem node_list_sorted:
  assumes "nl_reach T s M"
  shows "holds_nodes s M
    \<and> (\<forall>n. n \<notin> M \<longrightarrow> (\<exists>s'. addNodeToList n s = Some s' \<and>
          (\<not> wc_sorted s \<or> (\<forall>k\<in>M. nX s k \<le> nX s n) \<longrightarrow> holds_nodes s' (insert n M))))
    \<and> (\<forall>n. if M = {} then removeNodeFromList n s = Some (Inl NullDeref)
          else if n \<in> M \<and> wc_next s n \<noteq> None
          then \<exists>s'. removeNodeFromList n s = Some (Inr s') \<and> holds_nodes s' (M - {n})
          else removeNodeFromList n s = Some (Inr s))
    \<and> (\<exists>s'. sortLists s = Some s' \<and> wc_sorted s' \<and> holds_nodes s' M)
    \<and> (\<forall>n\<in>M. \<forall>now. \<exists>s'. update_position now n s = Some s' \<and> holds_nodes s' M)
    \<and> (\<forall>n\<in>M. \<forall>now x y v. initialized T (wc_node s n) \<longrightarrow>
          (\<exists>b s'. set_destination T now n x y v s = Some (Inr (b, s')) \<and> holds_nodes s' M))
    \<and> (\<forall>n\<in>M. \<forall>now r. \<exists>l s'. getAffectedNodes now n r s = Some (Inr (l, s')) \<and> holds_nodes s' M)"
proof -
  obtain xs where xs: "nl_inv s xs" "set xs = M" using nl_reach_ok [OF assms] by (auto simp: nl_ok_def)
  note h = nl_inv_holds [OF _ _ xs(2)]
  have d: "dlist s xs" using xs(1) by (simp add: nl_inv_def)
  have "\<exists>s'. sortLists s = Some s' \<and> wc_sorted s' \<and> holds_nodes s' M"
    using sortLists_dlist [OF d] h [of _ "sort_key (nX s) xs"] xs(1) by (fastforce simp: nl_inv_def)
  moreover have "\<exists>s'. update_position now n s = Some s' \<and> holds_nodes s' M" if "n \<in> M" for n now
    using update_position_inv [OF xs(1), of n now] xs(2) that h by blast
  moreover have "\<exists>b s'. set_destination T now n x y v s = Some (Inr (b, s')) \<and> holds_nodes s' M"
    if "n \<in> M" "initialized T (wc_node s n)" for n now x y v
    using set_destination_inv [OF xs(1), of n T now x y v] xs(2) that h by blast
  moreover have "\<exists>l s'. getAffectedNodes now n r s = Some (Inr (l, s')) \<and> holds_nodes s' M" if "n \<in> M" for n now r
    using getAffectedNodes_total [OF xs(1), of n now r] xs(2) that h by blast
  ultimately show ?thesis
    using h [OF xs(1)] holds_add [OF xs] holds_remove [OF xs] by (intro conjI allI impI ballI) simp_all
qed

definition node_at :: "real \<Rightarrow> mnode" where
  "node_at x = \<lparr>mn_X = x, mn_Y = 1, mn_Z = 0, mn_speed = 0, mn_dX = 0, mn_dY = 0,
     mn_destX = 0, mn_destY = 0, mn_update_time = 0\<rparr>"

definition walker :: mnode where
  "walker = (node_at 3)\<lparr>mn_speed := 1, mn_dX := 1, mn_destX := 100, mn_destY := 1\<rparr>"

lemma node_coordinates [simp]:
  "mn_X (node_at x) = x" "mn_Y (node_at x) = 1" "mn_X walker = 3" "mn_Y walker = 1"
  by (simp_all add: node_at_def walker_def)

definition two_nodes :: wchan where
  "two_nodes = \<lparr>wc_head = Some 2, wc_num = 2, wc_sorted = False,
     wc_next = (\<lambda>_. None)(2 := Some 3), wc_prev = (\<lambda>_. None)(3 := Some 2),
     wc_node = (\<lambda>n. if n = 2 then node_at 7 else walker)\<rparr>"

lemma two_nodes_reach: "nl_reach \<lparr>upperX = 10, upperY = 10\<rparr> two_nodes {2, 3}"
proof -
  let ?T = "\<lparr>upperX = 10, upperY = 10\<rparr>" and ?n = "\<lambda>n::nat. if n = 2 then node_at 7 else walker"
  let ?e = "empty_wchan ?n"
  let ?a = "?e\<lparr>wc_head := Some 2, wc_num := 1\<rparr>"
  have "addNodeToList 2 ?e = Some ?a"
    by (simp add: addNodeToList_def empty_wchan_def set_next_def set_prev_def fun_eq_iff)
  then have "nl_reach ?T ?a {2}"
    by (intro nl_reach.add [OF nl_reach.start]) (simp_all add: empty_wchan_def)
  moreover have "find_last ?a 2 = Some 2" by (subst find_last.simps) (simp add: empty_wchan_def)
  then have "addNodeToList 3 ?a = Some two_nodes"
    by (simp add: addNodeToList_def empty_wchan_def set_next_def set_prev_def two_nodes_def fun_eq_iff)
  ultimately have "nl_reach ?T two_nodes (insert 3 {2})"
    by (rule_tac nl_reach.add) (simp_all add: empty_wchan_def)
  then show ?thesis by (simp add: insert_commute)
qed

theorem node_list_sorted_witness:
  "(\<exists>s'. sortLists two_nodes = Some s' \<and> wc_sorted s' \<and> holds_nodes s' {2, 3})
    \<and> (\<exists>s'. removeNodeFromList 2 two_nodes = Some (Inr s') \<and> holds_nodes s' {3})
    \<and> removeNodeFromList 3 two_nodes = Some (Inr two_nodes)"
proof -
  note t = node_list_sorted [OF two_nodes_reach]
  have "wc_next two_nodes 2 = Some 3" "wc_next two_nodes 3 = None" by (simp_all add: two_nodes_def)
  moreover have "{2, 3} - {2 :: nat} = {3}" by auto
  ultimately show ?thesis
    using t [THEN conjunct2, THEN conjunct2, THEN conjunct1, THEN spec, of 2]
      t [THEN conjunct2, THEN conjunct2, THEN conjunct1, THEN spec, of 3]
      t [THEN conjunct2, THEN conjunct2, THEN conjunct2, THEN conjunct1] by simp
qed

text \<open>
  The nodes a transmission is sent to are exactly those of the list whose coordinates,
  after the stale ones were updated, lie in the square around the position the sender had
  before, each once, provided the sender itself has not left the square.
\<close>

theorem affected_nodes_exact:
  assumes "nl_reach T s M" "wc_sorted s" "mn \<in> M"
    and "dsub (nX s mn) radius \<le> mn_X (refreshed now (wc_node s mn))"
    and "mn_X (refreshed now (wc_node s mn)) \<le> dadd (nX s mn) radius"
  shows "\<exists>l s'. getAffectedNodes now mn radius s = Some (Inr (Some l, s')) \<and> distinct l
    \<and> (\<forall>n\<in>M. wc_node s' n = refreshed now (wc_node s n))
    \<and> set l = {n \<in> M. sent_from s mn radius s' n}"
proof -
  obtain xs where xs: "nl_inv s xs" "set xs = M"
    using nl_reach_ok [OF assms(1)] by (auto simp: nl_ok_def)
  then have ne: "xs \<noteq> []" using assms(3) by auto
  obtain s' ys where r: "nl_inv s' ys" "mset ys = mset xs" "wc_sorted s'"
    "\<forall>n\<in>set xs. wc_node s' n = refreshed now (wc_node s n)"
    "getAffectedNodes now mn radius s = map_option (\<lambda>r. bind_res r (\<lambda>l. Inr (Some l, s')))
         (collect_window s' mn (dsub (nX s mn) radius) (dadd (nX s mn) radius)
            (dsub (nY s mn) radius) (dadd (nY s mn) radius))"
    using getAffectedNodes_eq [OF xs(1) ne, of now mn radius] assms(2) by blast
  have y: "set ys = M" using r(2) xs(2) mset_eq_setD by metis
  obtain l where "collect_window s' mn (dsub (nX s mn) radius) (dadd (nX s mn) radius)
      (dsub (nY s mn) radius) (dadd (nY s mn) radius) = Some (Inr l)" "distinct l"
    "set l = {n \<in> M. sent_from s mn radius s' n}"
    using collect_window_exact [OF r(1,3), of mn "dsub (nX s mn) radius" "dadd (nX s mn) radius"
        "dsub (nY s mn) radius" "dadd (nY s mn) radius"] assms(3-5) r(4) y xs(2)
    by (auto simp: sent_from_def)
  with r xs(2) show ?thesis by auto
qed

lemma two_nodes_sorted:
  obtains s where "nl_reach \<lparr>upperX = 10, upperY = 10\<rparr> s {2, 3}" "wc_sorted s"
    "wc_node s = wc_node two_nodes"
proof -
  obtain xs where "nl_inv two_nodes xs"
    using nl_reach_ok [OF two_nodes_reach] by (auto simp: nl_ok_def)
  then obtain s where "sortLists two_nodes = Some s" "wc_node s = wc_node two_nodes" "wc_sorted s"
    using sortLists_dlist [of two_nodes xs] by (auto simp: nl_inv_def)
  then show thesis using that nl_reach.sort [OF two_nodes_reach] by blast
qed

lemma double_int:
  "dadd (of_int a) (of_int b) = of_int (a + b)" if "\<bar>a + b\<bar> \<le> 2 ^ 53"
  using to_double_of_int [OF that] by (simp add: dadd_def)

lemma double_numerals:
  "dsub 3 2 = 1" "dadd 3 2 = 5" "dsub 1 2 = -1" "dadd 1 2 = 3" "dsub 0 0 = 0" "dsub 50 0 = 50"
  "dmul 1 50 = 50" "dadd 3 50 = 53"
  using to_double_of_int [of 1] to_double_of_int [of 5] to_double_of_int [of "-1"]
    to_double_of_int [of 3] to_double_of_int [of 50] to_double_of_int [of 53]
  by (simp_all add: dadd_def dsub_def dmul_def)

theorem affected_nodes_exact_witness:
  "\<exists>s l s'. wc_sorted s \<and> getAffectedNodes 0 3 2 s = Some (Inr (Some l, s')) \<and> set l = {3}"
proof -
  obtain s where s: "nl_reach \<lparr>upperX = 10, upperY = 10\<rparr> s {2, 3}" "wc_sorted s"
    "wc_node s = wc_node two_nodes" using two_nodes_sorted .
  have r: "refreshed 0 walker = walker" "refreshed 0 (node_at 7) = node_at 7"
    by (simp_all add: node_at_def walker_def refreshed_def stale_def double_numerals)
  have x: "wc_node s 3 = walker" "wc_node s 2 = node_at 7" by (simp_all add: s(3) two_nodes_def)
  obtain l s' where l: "getAffectedNodes 0 3 2 s = Some (Inr (Some l, s'))"
    "\<forall>n\<in>{2,3}. wc_node s' n = refreshed 0 (wc_node s n)"
    "set l = {n \<in> {2, 3}. sent_from s 3 2 s' n}"
    using affected_nodes_exact [OF s(1,2), of 3 2 0]
    by (auto simp: r x double_numerals)
  have n: "wc_node s' 3 = walker" "wc_node s' 2 = node_at 7" using l(2) r x by simp_all
  have "set l = {3}" unfolding l(3)
    by (auto simp: sent_from_def in_window_def n x double_numerals)
  with l(1) s(2) show ?thesis by blast
qed

text \<open>
  The square is placed before the positions are updated. A sender that has meanwhile
  moved past its right edge reaches no node ahead of it, however near.
\<close>

theorem stale_sender_window:
  assumes "nl_reach T s M" "wc_sorted s" "mn \<in> M"
    and "dadd (nX s mn) radius < mn_X (refreshed now (wc_node s mn))"
  shows "\<exists>l s'. getAffectedNodes now mn radius s = Some (Inr (Some l, s'))
    \<and> wc_node s' mn = refreshed now (wc_node s mn) \<and> (\<forall>n\<in>set l. nX s' n \<le> nX s' mn)"
proof -
  obtain xs where xs: "nl_inv s xs" "set xs = M"
    using nl_reach_ok [OF assms(1)] by (auto simp: nl_ok_def)
  then have ne: "xs \<noteq> []" using assms(3) by auto
  obtain s' ys where r: "nl_inv s' ys" "mset ys = mset xs" "wc_sorted s'"
    "\<forall>n\<in>set xs. wc_node s' n = refreshed now (wc_node s n)"
    "getAffectedNodes now mn radius s = map_option (\<lambda>r. bind_res r (\<lambda>l. Inr (Some l, s')))
         (collect_window s' mn (dsub (nX s mn) radius) (dadd (nX s mn) radius)
            (dsub (nY s mn) radius) (dadd (nY s mn) radius))"
    using getAffectedNodes_eq [OF xs(1) ne, of now mn radius] assms(2) by blast
  obtain as bs where ys: "ys = as @ mn # bs"
    using r(2) xs(2) assms(3) by (metis mset_eq_setD split_list)
  have "sorted (map (nX s') (as @ mn # bs))" using r(1,3) ys by (simp add: nl_inv_def)
  then have lo: "\<forall>a\<in>set as. nX s' a \<le> nX s' mn" and hi: "\<forall>b\<in>set bs. nX s' mn \<le> nX s' b"
    by (auto simp: sorted_append)
  have mn: "wc_node s' mn = refreshed now (wc_node s mn)" using r(4) assms(3) xs(2) by blast
  then have "takeWhile (\<lambda>n. nX s' n \<le> dadd (nX s mn) radius) bs = []"
    using hi assms(4) by (cases bs) auto
  then have u: "\<forall>n\<in>set (filter P (takeWhile Q (rev (as @ [mn]))) @
      filter P (takeWhile (\<lambda>n. nX s' n \<le> dadd (nX s mn) radius) bs)). nX s' n \<le> nX s' mn" for P Q
    using lo set_takeWhileD [of _ Q "rev (as @ [mn])"] by auto
  have "dlist s' (as @ mn # bs)" "wc_num s' = int (length (as @ mn # bs))"
    using r(1) ys by (simp_all only: nl_inv_def)
  note c = collect_window_dlist [OF this]
  have "\<exists>l. collect_window s' mn xmin (dadd (nX s mn) radius) ymin ymax = Some (Inr l)
      \<and> (\<forall>n\<in>set l. nX s' n \<le> nX s' mn)" for xmin ymin ymax
    by (intro exI conjI, rule c) (rule u)
  then obtain l where "collect_window s' mn (dsub (nX s mn) radius) (dadd (nX s mn) radius)
      (dsub (nY s mn) radius) (dadd (nY s mn) radius) = Some (Inr l)"
    "\<forall>n\<in>set l. nX s' n \<le> nX s' mn" by blast
  then show ?thesis using mn unfolding r(5) by simp
qed

lemma refreshed_walker: "mn_X (refreshed 50 walker) = 53"
  by (simp add: refreshed_def stale_def updated_node_def moved_node_def moved_coord_def
    overshoot_def double_numerals node_at_def walker_def Let_def)

theorem stale_sender_window_witness:
  "\<exists>s l s'. nX s 3 = 3 \<and> nX s 2 = 7 \<and> nX s' 3 = 53 \<and> (\<forall>n\<in>set l. nX s' n \<le> 53)
     \<and> getAffectedNodes 50 3 2 s = Some (Inr (Some l, s'))"
proof -
  obtain s where s: "nl_reach \<lparr>upperX = 10, upperY = 10\<rparr> s {2, 3}" "wc_sorted s"
    "wc_node s = wc_node two_nodes" using two_nodes_sorted .
  have x: "wc_node s 3 = walker" "wc_node s 2 = node_at 7" by (simp_all add: s(3) two_nodes_def)
  have "dadd (nX s 3) 2 < mn_X (refreshed 50 (wc_node s 3))"
    by (simp add: x refreshed_walker double_numerals)
  from stale_sender_window [OF s(1,2) _ this] obtain l s' where
    "getAffectedNodes 50 3 2 s = Some (Inr (Some l, s'))" "nX s' 3 = 53"
    "\<forall>n\<in>set l. nX s' n \<le> 53"
    by (auto simp: x refreshed_walker)
  moreover have "nX s 3 = 3" "nX s 2 = 7" by (simp_all add: x)
  ultimately show ?thesis by blast
qed

text \<open>
  \<open>remove-node\<close> unlinks every node of the list but the last one, which stays in the list
  and is counted on; on an empty list it follows a \<open>NULL\<close> pointer.
\<close>

theorem node_removal:
  assumes "nl_inv s xs"
  shows "if xs = [] then removeNodeFromList n s = Some (Inl NullDeref)
    else if n \<in> set (butlast xs)
    then \<exists>s'. removeNodeFromList n s = Some (Inr s') \<and> nl_inv s' (remove1 n xs)
           \<and> wc_node s' = wc_node s \<and> wc_sorted s' = wc_sorted s
    else removeNodeFromList n s = Some (Inr s)"
proof (cases "xs = []")
  case True
  with assms show ?thesis by (simp add: nl_inv_def dlist_def removeNodeFromList_def)
next
  case False
  then show ?thesis using removeNodeFromList_inv [OF assms False, of n] by (auto split: if_splits)
qed

theorem node_removal_witness:
  "\<exists>s xs. nl_inv s xs \<and> xs \<noteq> [] \<and> removeNodeFromList (last xs) s = Some (Inr s)"
proof -
  obtain xs where xs: "nl_inv two_nodes xs" "set xs = {2, 3}"
    using nl_reach_ok [OF two_nodes_reach] by (auto simp: nl_ok_def)
  then have d: "xs \<noteq> []" "distinct xs" by (auto simp: nl_inv_def dlist_def)
  then have "last xs \<notin> set (butlast xs)"
    by (metis append_butlast_last_id distinct_append disjoint_iff list.set_intros(1))
  with node_removal [OF xs(1), of "last xs"] d xs(1) show ?thesis by auto
qed

lemma collect_down_self:
  assumes "wc_prev s n = Some n" "xmin \<le> nX s n" "in_strip s ymin ymax n"
  shows "collect_down s xmin ymin ymax (Some n) acc = Some (Inl Overrun)"
proof (induction "nat (wc_num s - int (length acc))" arbitrary: acc rule: less_induct)
  case less
  show ?case
  proof (cases "int (length acc) < wc_num s")
    case False
    then show ?thesis using assms
      by (subst collect_down.simps) (simp add: push_if_def push_node_def in_strip_def)
  next
    case True
    then have "collect_down s xmin ymin ymax (Some n) (acc @ [n]) = Some (Inl Overrun)"
      by (intro less.hyps) simp
    then show ?thesis using assms True
      by (subst collect_down.simps) (simp add: push_if_def push_node_def in_strip_def)
  qed
qed

lemma refresh_still: "\<forall>n\<in>set ns. \<not> stale now (wc_node s n) \<Longrightarrow> refresh now ns s = Some s"
  by (induction ns) auto

text \<open>What \<open>updateNodesList\<close> makes of the last node when it is out of order.\<close>

lemma update_last_self:
  assumes "dlist s (cs @ [p, n])" "wc_sorted s" "oldX < nX s n" "nX s n < nX s p"
  shows "\<exists>s'. updateNodesList n oldX s = Some s' \<and> dlist s' (cs @ [p]) \<and> same_nodes s s'
    \<and> wc_prev s' n = Some n"
proof -
  have d: "dlist s ((cs @ [p]) @ n # [])" using assms(1) by simp
  have "\<not> in_place (nX s) (nX s n) (cs @ [p]) []" using assms(4) by (simp add: in_place_def)
  from delete_moved_dlist(2) [OF d this] obtain s1 where s1:
    "delete_moved n s = (False, s1)" "dlist s1 (cs @ [p])" "same_nodes s s1"
    "wc_next s1 n = None" "wc_prev s1 n = Some p"
    by auto
  have n: "n \<notin> set (cs @ [p])" using assms(1) by (auto simp: dlist_def)
  have "walk_up s1 (nX s n) n = Some n" using s1(4) by (simp add: walk_up.simps)
  then have "updateNodesList n oldX s = Some (link_after n n s1)"
    using assms(2,3) s1(1) by (simp add: updateNodesList_def)
  moreover have "dlist (link_after n n s1) (cs @ [p])" "same_nodes s (link_after n n s1)"
      "wc_prev (link_after n n s1) n = Some n"
    using s1(2-4) n by (auto simp: link_after_def dlist_def same_nodes_def)
  ultimately show ?thesis by blast
qed

text \<open>
  C30: \<open>addNodeToList\<close> appends without clearing \<open>sorted_\<close>. A node added after the sorting
  that moves to the right and stays to the left of the node before it ends up out of the list with
  a \<open>prevX_\<close> that points to itself, and its next transmission runs past the scratch array.
\<close>

theorem late_node_overruns:
  assumes "nl_reach T s M" "wc_sorted s" "n \<notin> M" "p \<in> M"
    and "addNodeToList n s = Some s1"
    and "let m = wc_node s n in dsub now (mn_update_time m) \<noteq> 0
      \<and> mn_X m < mn_X (moved_node now m) \<and> mn_X (moved_node now m) < nX s p"
    and "\<forall>k\<in>M. \<not> stale later (wc_node s k)"
  shows "\<exists>s2. update_position now n s1 = Some s2
    \<and> wc_node s2 n = (moved_node now (wc_node s n))\<lparr>mn_update_time := now\<rparr>
    \<and> (sent_from s2 n radius s2 n \<longrightarrow> getAffectedNodes later n radius s2 = Some (Inl Overrun))"
proof -
  let ?m = "wc_node s n" let ?m' = "moved_node now ?m"
  obtain xs where xs: "nl_inv s xs" "set xs = M"
    using nl_reach_ok [OF assms(1)] by (auto simp: nl_ok_def)
  obtain cs q where cs: "xs = cs @ [q]" using xs(2) assms(4) by (cases xs rule: rev_cases) auto
  have so: "sorted (map (nX s) xs)" using xs(1) assms(2) by (simp add: nl_inv_def)
  then have q: "nX s p \<le> nX s q" using assms(4) xs(2) cs by (auto simp: sorted_append)
  have n: "n \<notin> set xs" using assms(3) xs(2) by simp
  have d: "dlist s1 (cs @ [q, n])" "wc_node s1 = wc_node s" "wc_sorted s1"
    "wc_num s1 = int (length xs) + 1"
    using addNodeToList_dlist [of s xs n] xs(1) n assms(2,5) cs by (auto simp: nl_inv_def)
  let ?s = "set_node n ?m' s1"
  have "dlist ?s (cs @ [q, n])" "wc_sorted ?s" "mn_X ?m < nX ?s n" "nX ?s n < nX ?s q"
    using d assms(6) q n cs by (auto simp: dlist_def Let_def)
  from update_last_self [OF this] obtain s2 where s2: "updateNodesList n (mn_X ?m) ?s = Some s2"
    "dlist s2 (cs @ [q])" "same_nodes ?s s2" "wc_prev s2 n = Some n" by blast
  let ?s2 = "stamp_time now n s2"
  have u: "update_position now n s1 = Some ?s2"
    using s2(1) assms(6) d(2) by (auto simp: update_position_def Let_def)
  have f: "dlist ?s2 xs" "wc_num ?s2 = int (length xs) + 1" "wc_prev ?s2 n = Some n"
    "wc_head ?s2 \<noteq> None" "\<forall>k\<in>set xs. wc_node ?s2 k = wc_node s k"
    using s2 d(2,4) n cs by (cases cs; auto simp: stamp_time_def dlist_def same_nodes_def)+
  have "collect_all ?s2 (wc_head ?s2) [] = Some (Inr xs)"
    using collect_all_dseg [of ?s2 "wc_prev ?s2" None xs "[]"] f(1,2) by (simp add: dlist_def)
  moreover have "refresh later xs ?s2 = Some ?s2"
    using refresh_still [of xs later ?s2] f(5) assms(7) xs(2) by simp
  moreover have "collect_window ?s2 n xmin xmax ymin ymax = Some (Inl Overrun)"
    if "in_window ?s2 xmin xmax ymin ymax n" for xmin xmax ymin ymax
    using that collect_down_self [OF f(3), of xmin ymin ymax "[]"]
    by (simp add: collect_window_def in_window_def in_strip_def)
  ultimately have "sent_from ?s2 n radius ?s2 n \<longrightarrow>
      getAffectedNodes later n radius ?s2 = Some (Inl Overrun)"
    using f(4) by (simp add: getAffectedNodes_def Let_def sent_from_def del: not_None_eq)
  moreover have "wc_node ?s2 n = ?m'\<lparr>mn_update_time := now\<rparr>"
    using s2(3) by (simp add: stamp_time_def same_nodes_def)
  ultimately show ?thesis using u by blast
qed

theorem late_node_overruns_witness:
  "\<exists>s1 s2. update_position 1 8 s1 = Some s2 \<and> getAffectedNodes 1 8 1 s2 = Some (Inl Overrun)"
proof -
  let ?T = "\<lparr>upperX = 10, upperY = 10\<rparr>"
  obtain s0 where s0: "nl_reach ?T s0 {2, 3}" "wc_sorted s0" "wc_node s0 = wc_node two_nodes"
    using two_nodes_sorted .
  let ?s = "set_node 8 walker s0"
  have r: "nl_reach ?T ?s {2, 3}" by (rule nl_reach.place [OF s0(1)]) simp
  obtain xs where "nl_inv ?s xs" "set xs = {2, 3}" using nl_reach_ok [OF r] by (auto simp: nl_ok_def)
  then obtain s1 where a: "addNodeToList 8 ?s = Some s1" "wc_node s1 = wc_node ?s" "wc_sorted s1"
      "dlist s1 (xs @ [8])"
    using addNodeToList_dlist [of ?s xs 8] s0(2) by (auto simp: nl_inv_def)
  have d: "dsub 1 0 = 1" "dmul 1 1 = 1" "dadd 3 1 = 4" "dsub 4 1 = 3" "dadd 4 1 = 5"
    "dsub 1 1 = 0" "dadd 1 1 = 2" "dmul 0 1 = 0" "dadd 1 0 = 1"
    using to_double_of_int [of 1] to_double_of_int [of 2] to_double_of_int [of 3]
      to_double_of_int [of 4] to_double_of_int [of 5]
    by (simp_all add: dadd_def dsub_def dmul_def)
  have m: "mn_X (moved_node 1 walker) = 4" "mn_Y (moved_node 1 walker) = 1" "mn_update_time walker = 0"
    by (simp_all add: moved_node_def moved_coord_def overshoot_def d node_at_def walker_def Let_def)
  have x: "wc_node ?s 8 = walker" "wc_node ?s 2 = node_at 7" "wc_node ?s 3 = walker"
    by (simp_all add: s0(3) two_nodes_def)
  have i: "\<forall>k\<in>{2, 3}. \<not> stale 1 (wc_node ?s k)"
    by (simp only: ball_simps x) (simp add: stale_def node_at_def walker_def d)
  have "\<exists>s2. update_position 1 8 s1 = Some s2
    \<and> wc_node s2 8 = (moved_node 1 (wc_node ?s 8))\<lparr>mn_update_time := 1\<rparr>
    \<and> (sent_from s2 8 1 s2 8 \<longrightarrow> getAffectedNodes 1 8 1 s2 = Some (Inl Overrun))"
    by (rule late_node_overruns [OF r _ _ _ a(1) _ i, of 2])
       (simp_all add: s0(2) x m d Let_def del: set_fields(18))
  then obtain s2 where s2: "update_position 1 8 s1 = Some s2"
    "sent_from s2 8 1 s2 8 \<longrightarrow> getAffectedNodes 1 8 1 s2 = Some (Inl Overrun)"
    "wc_node s2 8 = (moved_node 1 walker)\<lparr>mn_update_time := 1\<rparr>"
    unfolding x by blast
  from s2(3) have "sent_from s2 8 1 s2 8" by (simp add: sent_from_def in_window_def m d)
  with s2 show ?thesis by blast
qed

end
