(* ===== verification/Propagation.thy ===== *)
theory Propagation
  imports Complex_Main
begin

text \<open>
  Received power: the free space and the two-ray ground model
  (\<open>mobile/propagation.cc\<close>, \<open>mobile/tworayground.cc\<close>) with the antennas
  (\<open>mobile/antenna.cc\<close>, \<open>mobile/omni-antenna.h\<close>). The formulas are taken over the real
  numbers: the rounding of their products, quotients and roots is not modelled. What the
  channel needs from them is that power falls with distance and that \<open>getDist\<close> is a
  distance beyond which it stays below a threshold.
\<close>

section \<open>Antennas\<close>

text \<open>Positions are relative to the node; the base class \<open>Antenna\<close> has both gains 1.\<close>

record antenna =
  ant_X :: real
  ant_Y :: real
  ant_Z :: real
  ant_Gt :: real
  ant_Gr :: real

record location =
  loc_X :: real
  loc_Y :: real
  loc_Z :: real

definition Antenna_new :: antenna where
  "Antenna_new = \<lparr>ant_X = 0, ant_Y = 0, ant_Z = 0, ant_Gt = 1, ant_Gr = 1\<rparr>"

section \<open>Propagation models\<close>

definition c_PI :: real where "c_PI = 31415926535897 / 10000000000000"

definition Friis :: "real \<Rightarrow> real \<Rightarrow> real \<Rightarrow> real \<Rightarrow> real \<Rightarrow> real \<Rightarrow> real" where
  "Friis Pt Gt Gr lambda L d =
     (if d = 0 then Pt else let M = lambda / (4 * c_PI * d) in Pt * Gt * Gr * (M * M) / L)"

definition TwoRay :: "real \<Rightarrow> real \<Rightarrow> real \<Rightarrow> real \<Rightarrow> real \<Rightarrow> real \<Rightarrow> real \<Rightarrow> real" where
  "TwoRay Pt Gt Gr ht hr L d = Pt * Gt * Gr * (hr * hr * ht * ht) / (d * d * d * d * L)"

definition FreeSpace_Pr ::
    "real \<Rightarrow> location \<Rightarrow> antenna \<Rightarrow> location \<Rightarrow> antenna \<Rightarrow> real \<Rightarrow> real \<Rightarrow> real" where
  "FreeSpace_Pr Pt t ta r ra L lambda =
     (let dX = (loc_X r + ant_X ra) - (loc_X t + ant_X ta);
          dY = (loc_Y r + ant_Y ra) - (loc_Y t + ant_Y ta);
          dZ = (loc_Z r + ant_Z ra) - (loc_Z t + ant_Z ta);
          d = sqrt (dX * dX + dY * dY + dZ * dZ)
      in Friis Pt (ant_Gt ta) (ant_Gr ra) lambda L d)"

definition FreeSpace_getDist :: "real \<Rightarrow> real \<Rightarrow> real \<Rightarrow> real \<Rightarrow> real \<Rightarrow> real \<Rightarrow> real" where
  "FreeSpace_getDist Pr Pt Gt Gr L lambda =
     sqrt ((Pt * Gt * Gr * lambda * lambda) / (L * Pr)) / (4 * c_PI)"

text \<open>The two-ray model remembers the crossover distance of the last pair of heights.\<close>

record trg =
  last_hr :: real
  last_ht :: real
  crossover_dist :: real

definition TwoRayGround_new :: trg where
  "TwoRayGround_new = \<lparr>last_hr = 0, last_ht = 0, crossover_dist = 0\<rparr>"

definition recalc :: "real \<Rightarrow> real \<Rightarrow> real \<Rightarrow> trg \<Rightarrow> trg" where
  "recalc ht hr lambda st =
     (if hr \<noteq> last_hr st \<or> ht \<noteq> last_ht st
      then \<lparr>last_hr = hr, last_ht = ht, crossover_dist = (4 * c_PI * ht * hr) / lambda\<rparr> else st)"

definition antenna_dist :: "location \<Rightarrow> antenna \<Rightarrow> location \<Rightarrow> antenna \<Rightarrow> real" where
  "antenna_dist t ta r ra =
     (let rX = loc_X r + ant_X ra; rY = loc_Y r + ant_Y ra;
          tX = loc_X t + ant_X ta; tY = loc_Y t + ant_Y ta
      in sqrt ((rX - tX) * (rX - tX) + (rY - tY) * (rY - tY)
               + (loc_Z r - loc_Z t) * (loc_Z r - loc_Z t)))"

definition TwoRayGround_Pr ::
    "real \<Rightarrow> location \<Rightarrow> antenna \<Rightarrow> location \<Rightarrow> antenna \<Rightarrow> real \<Rightarrow> real \<Rightarrow> trg \<Rightarrow> real \<times> trg" where
  "TwoRayGround_Pr Pt t ta r ra L lambda st =
     (let d = antenna_dist t ta r ra;
          hr = loc_Z r + ant_Z ra; ht = loc_Z t + ant_Z ta;
          st' = recalc ht hr lambda st
      in (if d \<le> crossover_dist st' then Friis Pt (ant_Gt ta) (ant_Gr ra) lambda L d
          else TwoRay Pt (ant_Gt ta) (ant_Gr ra) ht hr L d, st'))"

definition TwoRayGround_getDist :: "real \<Rightarrow> real \<Rightarrow> real \<Rightarrow> real \<Rightarrow> real \<Rightarrow> real \<Rightarrow> real" where
  "TwoRayGround_getDist Pr Pt Gt Gr hr ht = sqrt (sqrt (Pt * Gt * Gr * (hr * hr * ht * ht) / Pr))"

text \<open>The virtual calls \<open>Pr\<close> and \<open>getDist\<close> on the model an interface points to.\<close>

datatype propagation = FreeSpace | TwoRayGround trg

fun prop_Pr :: "propagation \<Rightarrow> real \<Rightarrow> location \<Rightarrow> antenna \<Rightarrow> location \<Rightarrow> antenna \<Rightarrow> real \<Rightarrow> real
    \<Rightarrow> real \<times> propagation" where
  "prop_Pr FreeSpace Pt t ta r ra L lambda = (FreeSpace_Pr Pt t ta r ra L lambda, FreeSpace)"
| "prop_Pr (TwoRayGround st) Pt t ta r ra L lambda =
     (let (p, st') = TwoRayGround_Pr Pt t ta r ra L lambda st in (p, TwoRayGround st'))"

fun prop_getDist :: "propagation \<Rightarrow> real \<Rightarrow> real \<Rightarrow> real \<Rightarrow> real \<Rightarrow> real \<Rightarrow> real \<Rightarrow> real \<Rightarrow> real \<Rightarrow> real" where
  "prop_getDist FreeSpace Pr Pt Gt Gr hr ht L lambda = FreeSpace_getDist Pr Pt Gt Gr L lambda"
| "prop_getDist (TwoRayGround st) Pr Pt Gt Gr hr ht L lambda = TwoRayGround_getDist Pr Pt Gt Gr hr ht"

section \<open>Power and distance\<close>

lemma c_PI_pos [simp]: "0 < c_PI" "c_PI \<noteq> 0"
  by (simp_all add: c_PI_def)

lemma friis_below:
  assumes "FreeSpace_getDist Th Pt 1 1 L lambda < d"
    and "0 < Th" "0 \<le> Pt" "0 < L" "0 < lambda" "Gt * Gr \<le> 1"
  shows "Friis Pt Gt Gr lambda L d < Th"
proof -
  let ?a = "sqrt ((Pt * lambda * lambda) / (L * Th))"
  have a: "0 \<le> ?a" using assms by simp
  have d: "?a < d * (4 * c_PI)" using assms(1) by (simp add: FreeSpace_getDist_def divide_less_eq)
  then have dp: "0 < d" using a c_PI_pos(1) by (smt (verit) zero_less_mult_pos2)
  have "?a\<^sup>2 < (d * (4 * c_PI))\<^sup>2" using d a by (intro power_strict_mono) auto
  then have "Pt * lambda\<^sup>2 / (L * Th) < (d * (4 * c_PI))\<^sup>2"
    using assms by (simp add: power2_eq_square mult.assoc)
  then have "Pt * lambda\<^sup>2 < (d * (4 * c_PI))\<^sup>2 * (L * Th)"
    using assms by (simp add: divide_less_eq)
  then have k: "Pt * lambda\<^sup>2 / (d * (4 * c_PI))\<^sup>2 / L < Th"
    using assms dp by (simp add: divide_less_eq mult_ac)
  have "Pt * (Gt * Gr) * lambda\<^sup>2 \<le> Pt * 1 * lambda\<^sup>2"
    using assms by (intro mult_right_mono mult_left_mono) auto
  then have "Pt * (Gt * Gr) * lambda\<^sup>2 / (d * (4 * c_PI))\<^sup>2 / L \<le> Pt * lambda\<^sup>2 / (d * (4 * c_PI))\<^sup>2 / L"
    using assms dp by (intro divide_right_mono) auto
  moreover have "Friis Pt Gt Gr lambda L d = Pt * (Gt * Gr) * lambda\<^sup>2 / (d * (4 * c_PI))\<^sup>2 / L"
    using dp by (simp add: Friis_def power2_eq_square mult_ac)
  ultimately show ?thesis using k by linarith
qed

lemma tworay_below:
  assumes "TwoRayGround_getDist Th Pt 1 1 H H < d"
    and "0 < Th" "0 \<le> Pt" "1 \<le> L" "0 \<le> Gt * Gr" "Gt * Gr \<le> 1"
    and "0 \<le> hr" "hr \<le> H" "0 \<le> ht" "ht \<le> H"
  shows "TwoRay Pt Gt Gr ht hr L d < Th"
proof -
  have H: "0 \<le> H" using assms by linarith
  let ?q = "Pt * H ^ 4 / Th"
  have q: "0 \<le> ?q" using assms H by simp
  have g: "TwoRayGround_getDist Th Pt 1 1 H H = sqrt (sqrt ?q)"
    by (simp add: TwoRayGround_getDist_def power4_eq_xxxx mult.assoc)
  then have d: "sqrt (sqrt ?q) < d" using assms(1) by simp
  then have dp: "0 < d" using q by (meson le_less_trans real_sqrt_ge_zero)
  have "(sqrt (sqrt ?q)) ^ 4 < d ^ 4" using d q by (intro power_strict_mono) auto
  moreover have "(sqrt (sqrt ?q)) ^ 4 = ?q"
  proof -
    have "(sqrt (sqrt ?q)) ^ 4 = ((sqrt (sqrt ?q))\<^sup>2)\<^sup>2" by (simp flip: power_mult)
    also have "\<dots> = ?q" using q by simp
    finally show ?thesis .
  qed
  ultimately have k: "Pt * H ^ 4 < Th * d ^ 4" using assms by (simp add: divide_less_eq mult.commute)
  have "hr * hr * ht * ht \<le> H * H * H * H" using assms H by (intro mult_mono) auto
  then have "(Gt * Gr) * (hr * hr * ht * ht) \<le> 1 * (H * H * H * H)" using assms by (intro mult_mono) auto
  then have "Pt * ((Gt * Gr) * (hr * hr * ht * ht)) \<le> Pt * H ^ 4"
    using assms by (intro mult_left_mono) (auto simp: power4_eq_xxxx mult.assoc)
  also have "\<dots> < Th * d ^ 4" by (rule k)
  also have "\<dots> \<le> Th * (d ^ 4 * L)" using assms dp by (intro mult_left_mono) auto
  finally show ?thesis using assms dp
    by (simp add: TwoRay_def divide_less_eq power4_eq_xxxx mult_ac)
qed

lemma friis_le_tworay:
  assumes "0 < d" "d \<le> (4 * c_PI * ht * hr) / lambda" "0 < lambda" "0 \<le> Pt * (Gt * Gr)" "0 < L"
  shows "Friis Pt Gt Gr lambda L d \<le> TwoRay Pt Gt Gr ht hr L d"
proof -
  have c: "d * lambda \<le> 4 * c_PI * (ht * hr)" using assms by (simp add: le_divide_eq mult.assoc)
  have "(d * lambda)\<^sup>2 \<le> (4 * c_PI * (ht * hr))\<^sup>2" using c assms by (intro power_mono) auto
  then have "lambda\<^sup>2 / (4 * c_PI * d)\<^sup>2 \<le> (ht * hr)\<^sup>2 / d ^ 4"
    using assms(1) by (simp add: divide_simps power_mult_distrib) (simp add: power4_eq_xxxx power2_eq_square mult_ac)
  then have "Pt * (Gt * Gr) * (lambda\<^sup>2 / (4 * c_PI * d)\<^sup>2) / L
     \<le> Pt * (Gt * Gr) * ((ht * hr)\<^sup>2 / d ^ 4) / L"
    using assms by (intro divide_right_mono mult_left_mono) auto
  moreover have "Friis Pt Gt Gr lambda L d = Pt * (Gt * Gr) * (lambda\<^sup>2 / (4 * c_PI * d)\<^sup>2) / L"
    using assms(1) by (simp add: Friis_def power2_eq_square mult_ac)
  moreover have "TwoRay Pt Gt Gr ht hr L d = Pt * (Gt * Gr) * ((ht * hr)\<^sup>2 / d ^ 4) / L"
    by (simp add: TwoRay_def power4_eq_xxxx power2_eq_square mult_ac)
  ultimately show ?thesis by simp
qed

text \<open>At the crossover distance both models give the same power.\<close>

lemma crossover_continuous:
  assumes "0 < lambda" "0 < ht" "0 < hr"
  shows "Friis Pt Gt Gr lambda L ((4 * c_PI * ht * hr) / lambda)
    = TwoRay Pt Gt Gr ht hr L ((4 * c_PI * ht * hr) / lambda)"
  using assms by (simp add: Friis_def TwoRay_def field_simps)

text \<open>The remembered crossover distance is the right one as long as all interfaces share a wavelength.\<close>

definition trg_ok :: "real \<Rightarrow> trg \<Rightarrow> bool" where
  "trg_ok lambda st \<longleftrightarrow> crossover_dist st = (4 * c_PI * last_ht st * last_hr st) / lambda"

lemma trg_new_ok [simp]: "trg_ok lambda TwoRayGround_new"
  by (simp add: trg_ok_def TwoRayGround_new_def)

lemma recalc_ok:
  "trg_ok lambda st \<Longrightarrow> trg_ok lambda (recalc ht hr lambda st)
    \<and> crossover_dist (recalc ht hr lambda st) = (4 * c_PI * ht * hr) / lambda"
  by (auto simp: trg_ok_def recalc_def)

fun prop_ok :: "real \<Rightarrow> propagation \<Rightarrow> bool" where
  "prop_ok lambda FreeSpace \<longleftrightarrow> True"
| "prop_ok lambda (TwoRayGround st) \<longleftrightarrow> trg_ok lambda st"

lemma prop_Pr_ok: "prop_ok lambda m \<Longrightarrow> prop_ok lambda (snd (prop_Pr m Pt t ta r ra L lambda))"
  by (cases m) (auto simp: TwoRayGround_Pr_def Let_def recalc_ok)

lemma sqrt_sum3_ge:
  "\<bar>x\<bar> \<le> sqrt (x * x + y * y + z * z) \<and> \<bar>y\<bar> \<le> sqrt (x * x + y * y + z * z)"
  for x y z :: real
  by (intro conjI real_le_rsqrt) (simp_all add: power2_eq_square)

text \<open>
  A receiver whose antenna is further away along one axis than \<open>getDist\<close> of a threshold, with
  unit gains and the largest height, gets less power than the threshold.
\<close>

lemma prop_below:
  assumes "prop_ok lambda m" "prop_getDist m Th Pt 1 1 H H L lambda < D"
    and far: "D < \<bar>(loc_X r + ant_X ra) - (loc_X t + ant_X ta)\<bar>
      \<or> D < \<bar>(loc_Y r + ant_Y ra) - (loc_Y t + ant_Y ta)\<bar>"
    and "0 < Th" "0 \<le> Pt" "1 \<le> L" "0 < lambda" "0 \<le> ant_Gt ta * ant_Gr ra" "ant_Gt ta * ant_Gr ra \<le> 1"
    and "0 \<le> loc_Z r + ant_Z ra" "loc_Z r + ant_Z ra \<le> H"
    and "0 \<le> loc_Z t + ant_Z ta" "loc_Z t + ant_Z ta \<le> H"
  shows "fst (prop_Pr m Pt t ta r ra L lambda) < Th"
proof (cases m)
  case FreeSpace
  then show ?thesis using assms(2-9)
      sqrt_sum3_ge [of "(loc_X r + ant_X ra) - (loc_X t + ant_X ta)"
        "(loc_Y r + ant_Y ra) - (loc_Y t + ant_Y ta)" "(loc_Z r + ant_Z ra) - (loc_Z t + ant_Z ta)"]
    by (auto simp: FreeSpace_Pr_def Let_def intro!: friis_below)
next
  case (TwoRayGround st)
  let ?d = "antenna_dist t ta r ra" and ?hr = "loc_Z r + ant_Z ra" and ?ht = "loc_Z t + ant_Z ta"
  have g: "TwoRayGround_getDist Th Pt 1 1 H H < ?d"
    using assms(2) far TwoRayGround
      sqrt_sum3_ge [of "(loc_X r + ant_X ra) - (loc_X t + ant_X ta)"
        "(loc_Y r + ant_Y ra) - (loc_Y t + ant_Y ta)" "loc_Z r - loc_Z t"]
    by (auto simp: antenna_dist_def Let_def)
  have tw: "TwoRay Pt (ant_Gt ta) (ant_Gr ra) ?ht ?hr L ?d < Th"
    using g assms(4-6,8-13) by (rule tworay_below)
  have "0 \<le> TwoRayGround_getDist Th Pt 1 1 H H"
  proof -
    have "H * H * H * H = (H * H)\<^sup>2" by (simp add: power2_eq_square)
    then show ?thesis using assms(4,5) by (simp add: TwoRayGround_getDist_def)
  qed
  then have d: "0 < ?d" using g by linarith
  have c: "crossover_dist (recalc ?ht ?hr lambda st) = (4 * c_PI * ?ht * ?hr) / lambda"
    using assms(1) TwoRayGround recalc_ok by simp
  have "Friis Pt (ant_Gt ta) (ant_Gr ra) lambda L ?d \<le> TwoRay Pt (ant_Gt ta) (ant_Gr ra) ?ht ?hr L ?d"
    if "?d \<le> (4 * c_PI * ?ht * ?hr) / lambda"
    using d that assms(5-8) by (intro friis_le_tworay) auto
  with tw c show ?thesis unfolding TwoRayGround by (auto simp: TwoRayGround_Pr_def Let_def)
qed

end
