(* ===== verification/WirelessChannel.thy ===== *)
theory WirelessChannel
  imports NodeList Propagation Packet Scheduler
begin

text \<open>
  Sending on a wireless channel (\<open>mac/channel.cc\<close>): the interference distance, the
  propagation delay and \<open>WirelessChannel::sendUp\<close>, which gives every node around the
  sender its own copy of the packet and schedules its arrival at the interfaces of the node.

  The node list comes from NodeList, packets from the free list of Packet, and the events
  are requests to the Scheduler. All interfaces are of class \<open>WirelessPhy\<close> and no grid
  keeper is installed. The two distances are static members of the class in the source and
  so shared by all channels; here they belong to the one channel modelled.
\<close>

section \<open>State\<close>

text \<open>The members of an interface that the channel reads.\<close>

record interface =
  if_node :: nat
  if_ant :: antenna
  if_prop :: propagation
  if_Pt :: real
  if_L :: real
  if_lambda :: real
  if_CSThresh :: real
  if_RXThresh :: real

record wl =
  wl_list :: wchan
  wl_ifhead :: "nat list"
  highestAntennaZ :: real
  distCST :: real

datatype wl_error = ListError nl_error | PoolError pool_error | NegativeDelay

type_synonym 'a wl_result = "(wl_error, 'a) result option"

section \<open>Operations\<close>

definition phy_getDist :: "interface \<Rightarrow> real \<Rightarrow> real \<Rightarrow> real \<Rightarrow> real \<Rightarrow> real \<Rightarrow> real \<Rightarrow> real \<Rightarrow> real \<Rightarrow> real" where
  "phy_getDist i = prop_getDist (if_prop i)"

definition calcHighestAntennaZ :: "(nat \<Rightarrow> interface) \<Rightarrow> nat \<Rightarrow> wl \<Rightarrow> wl" where
  "calcHighestAntennaZ phys tifp w =
     (let hz = fold (\<lambda>n h. if h < ant_Z (if_ant (phys n)) then ant_Z (if_ant (phys n)) else h)
                 (wl_ifhead w) 0;
          t = phys tifp
      in w\<lparr>highestAntennaZ := hz,
           distCST := phy_getDist t (if_CSThresh t) (if_Pt t) 1 1 hz hz (if_L t) (if_lambda t)\<rparr>)"

definition mn_distance :: "real \<Rightarrow> nat \<Rightarrow> nat \<Rightarrow> wchan \<Rightarrow> (real \<times> wchan) option" where
  "mn_distance now a b s =
     Option.bind (update_position now a s) (\<lambda>s1.
       map_option (\<lambda>s2.
         let ma = wc_node s2 a; mb = wc_node s2 b;
             X = dmul (dsub (mn_X ma) (mn_X mb)) (dsub (mn_X ma) (mn_X mb));
             Y = dmul (dsub (mn_Y ma) (mn_Y mb)) (dsub (mn_Y ma) (mn_Y mb));
             Z = dmul (dsub (mn_Z ma) (mn_Z mb)) (dsub (mn_Z ma) (mn_Z mb))
         in (to_double (sqrt (dadd (dadd X Y) Z)), s2))
         (update_position now b s1))"

definition mn_propdelay :: "real \<Rightarrow> nat \<Rightarrow> nat \<Rightarrow> wchan \<Rightarrow> (real \<times> wchan) option" where
  "mn_propdelay now a b s = map_option (\<lambda>(d, s'). (to_double (d / 300000000), s')) (mn_distance now a b s)"

definition DBL_EPSILON :: real where "DBL_EPSILON = 2 powi (-52)"

definition get_pdelay :: "real \<Rightarrow> nat \<Rightarrow> nat \<Rightarrow> wchan \<Rightarrow> (real \<times> wchan) wl_result" where
  "get_pdelay now tn rn s =
     map_option (\<lambda>(d, s'). if d < 0 then Inl NegativeDelay
                            else Inr (if d = 0 then 2 * DBL_EPSILON else d, s'))
       (mn_propdelay now tn rn s)"

fun send_copies ::
    "(nat \<Rightarrow> nat list) \<Rightarrow> real \<Rightarrow> nat \<Rightarrow> nat \<Rightarrow> nat list \<Rightarrow> wchan \<Rightarrow> pool \<Rightarrow> request list
       \<Rightarrow> (wchan \<times> pool \<times> request list) wl_result" where
  "send_copies ifs now p tn [] s q out = Some (Inr (s, q, out))"
| "send_copies ifs now p tn (rn # rns) s q out =
     (if rn = tn then send_copies ifs now p tn rns s q out
      else (case pool_copy p q of
              Inl e \<Rightarrow> Some (Inl (PoolError e))
            | Inr (c, q') \<Rightarrow>
                Option.bind (get_pdelay now tn rn s)
                  (\<lambda>r. case r of Inl e \<Rightarrow> Some (Inl e)
                        | Inr (d, s') \<Rightarrow> send_copies ifs now p tn rns s' q'
                             (out @ map (\<lambda>i. RSchedule (Some i) c d) (ifs rn)))))"

definition set_direction :: "int \<Rightarrow> packet \<Rightarrow> packet" where
  "set_direction d k = k\<lparr>cmn := (cmn k)\<lparr>ch_direction := d\<rparr>\<rparr>"

definition lift_list :: "(nl_error, 'a) result option \<Rightarrow> 'a wl_result" where
  "lift_list r = map_option (\<lambda>x. case x of Inl e \<Rightarrow> Inl (ListError e) | Inr a \<Rightarrow> Inr a) r"

definition bind_wl :: "'a wl_result \<Rightarrow> ('a \<Rightarrow> 'b wl_result) \<Rightarrow> 'b wl_result" where
  "bind_wl r f = Option.bind r (\<lambda>x. case x of Inl e \<Rightarrow> Some (Inl e) | Inr a \<Rightarrow> f a)"

definition ensure_sorted :: "wchan \<Rightarrow> wchan option" where
  "ensure_sorted s = (if wc_sorted s then Some s else sortLists s)"

definition chan_sendUp ::
    "(nat \<Rightarrow> interface) \<Rightarrow> (nat \<Rightarrow> nat list) \<Rightarrow> real \<Rightarrow> nat \<Rightarrow> nat \<Rightarrow> wl \<Rightarrow> pool
       \<Rightarrow> (wl \<times> pool \<times> request list) wl_result" where
  "chan_sendUp phys ifs now p tifp w q =
     (let tn = if_node (phys tifp);
          w1 = (if highestAntennaZ w = -1 then calcHighestAntennaZ phys tifp w else w);
          q1 = q\<lparr>p_bits := (p_bits q)(p := set_direction DIR_UP (p_bits q p))\<rparr>
      in bind_wl (map_option Inr (ensure_sorted (wl_list w1)))
        (\<lambda>s1. bind_wl (lift_list (getAffectedNodes now tn (dadd (distCST w1) 5) s1))
        (\<lambda>(affected, s2). bind_wl
           (case affected of None \<Rightarrow> Some (Inr (s2, q1, []))
            | Some l \<Rightarrow> send_copies ifs now p tn l s2 q1 [])
        (\<lambda>(s3, q2, out). Some (case pool_free p q2 of
             Inl e \<Rightarrow> Inl (PoolError e)
           | Inr q3 \<Rightarrow> Inr (w1\<lparr>wl_list := s3\<rparr>, q3, out))))))"

lemma bind_wl_simps [simp]:
  "bind_wl None f = None" "bind_wl (Some (Inl e)) f = Some (Inl e)" "bind_wl (Some (Inr a)) f = f a"
  by (simp_all add: bind_wl_def)

section \<open>Delays\<close>

lemma to_double_pos_or_0: "0 \<le> x \<Longrightarrow> 0 < to_double x \<or> to_double x = 0"
  using to_double_nonneg [of x] by linarith

lemma get_pdelay_inv:
  assumes "nl_inv s xs" "a \<in> set xs" "b \<in> set xs"
  shows "\<exists>d s' ys. get_pdelay now a b s = Some (Inr (d, s')) \<and> 0 < d
    \<and> nl_inv s' ys \<and> mset ys = mset xs \<and> (wc_sorted s \<longrightarrow> wc_sorted s')"
proof -
  obtain s1 ys where s1: "update_position now a s = Some s1" "nl_inv s1 ys" "mset ys = mset xs"
    "wc_sorted s \<longrightarrow> wc_sorted s1"
    using update_position_inv [OF assms(1,2)] by blast
  then have "b \<in> set ys" using assms(3) by (metis mset_eq_setD)
  then obtain s2 zs where s2: "update_position now b s1 = Some s2" "nl_inv s2 zs" "mset zs = mset ys"
    "wc_sorted s1 \<longrightarrow> wc_sorted s2"
    using update_position_inv [OF s1(2)] by blast
  obtain d where d: "mn_propdelay now a b s = Some (to_double (to_double (sqrt d) / 300000000), s2)" "0 \<le> d"
  proof -
    have "0 \<le> dadd (dadd (dmul x x) (dmul y y)) (dmul z z)" for x y z
      by (simp add: dadd_def dmul_def to_double_nonneg)
    then show thesis using s1(1) s2(1)
      by (intro that) (auto simp: mn_propdelay_def mn_distance_def Let_def)
  qed
  have "0 \<le> to_double (to_double (sqrt d) / 300000000)" using d(2) by (simp add: to_double_nonneg)
  then have "\<exists>e. get_pdelay now a b s = Some (Inr (e, s2)) \<and> 0 < e"
    using d(1) by (auto simp: get_pdelay_def DBL_EPSILON_def)
  then show ?thesis using s1 s2 by metis
qed

section \<open>Copies\<close>

lemma pool_copy_spec:
  assumes "pool_ok q" "p_fflag q p"
  shows "\<exists>c q'. pool_copy p q = Inr (c, q') \<and> pool_ok q' \<and> \<not> p_fflag q c
    \<and> p_fflag q' = (p_fflag q)(c := True) \<and> p_bits q' = (p_bits q)(c := p_bits q p)
    \<and> p_refcount q' p = p_refcount q p \<and> p_uid q' p = p_uid q p"
proof (cases "p_free q")
  case Nil
  have "p < p_next q" using assms by (simp add: pool_ok_def)
  moreover have "\<not> p_fflag q (p_next q)" using assms(1) by (auto simp: pool_ok_def)
  ultimately show ?thesis using Nil assms
    by (auto simp: pool_copy_def pool_alloc_def Let_def pool_ok_def less_Suc_eq)
next
  case (Cons a rest)
  then have "\<not> p_fflag q a" "\<not> p_data q a" "a \<noteq> p" using assms by (auto simp: pool_ok_def)
  then show ?thesis using Cons assms
    by (auto simp: pool_copy_def pool_alloc_def Let_def pool_ok_def)
qed

text \<open>
  The deliveries of one transmission: for each receiving node its number, its copy of the
  packet and the delay.
\<close>

type_synonym delivery = "nat \<times> nat \<times> real"

definition delivery_requests :: "(nat \<Rightarrow> nat list) \<Rightarrow> delivery list \<Rightarrow> request list" where
  "delivery_requests ifs ts = concat (map (\<lambda>(n, c, d). map (\<lambda>i. RSchedule (Some i) c d) (ifs n)) ts)"

definition delivered :: "packet \<Rightarrow> pool \<Rightarrow> pool \<Rightarrow> delivery list \<Rightarrow> bool" where
  "delivered k q q' ts \<longleftrightarrow> distinct (map (\<lambda>(n, c, d). c) ts) \<and>
     (\<forall>(n, c, d)\<in>set ts. \<not> p_fflag q c \<and> p_fflag q' c \<and> p_bits q' c = k \<and> 0 < d)"

lemma send_copies_spec:
  assumes "nl_inv s xs" "set rns \<subseteq> set xs" "tn \<in> set xs" "pool_ok q" "p_fflag q p"
  shows "\<exists>s' ys q' ts. send_copies ifs now p tn rns s q out
      = Some (Inr (s', q', out @ delivery_requests ifs ts))
    \<and> nl_inv s' ys \<and> mset ys = mset xs \<and> (wc_sorted s \<longrightarrow> wc_sorted s') \<and> pool_ok q'
    \<and> (\<forall>c. p_fflag q c \<longrightarrow> p_fflag q' c \<and> p_bits q' c = p_bits q c)
    \<and> p_refcount q' p = p_refcount q p \<and> p_uid q' p = p_uid q p
    \<and> map fst ts = filter (\<lambda>n. n \<noteq> tn) rns \<and> delivered (p_bits q p) q q' ts"
  using assms
proof (induction rns arbitrary: s xs q out)
  case Nil
  then show ?case by (auto simp: delivery_requests_def delivered_def)
next
  case (Cons rn rns)
  show ?case
  proof (cases "rn = tn")
    case True
    with Cons.IH [of s xs q out] Cons.prems show ?thesis by auto
  next
    case False
    obtain c q1 where q1: "pool_copy p q = Inr (c, q1)" "pool_ok q1" "\<not> p_fflag q c"
      "p_fflag q1 = (p_fflag q)(c := True)" "p_bits q1 = (p_bits q)(c := p_bits q p)"
      "p_refcount q1 p = p_refcount q p" "p_uid q1 p = p_uid q p"
      using pool_copy_spec [OF Cons.prems(4,5)] by blast
    obtain d s1 ys where s1: "get_pdelay now tn rn s = Some (Inr (d, s1))" "0 < d" "nl_inv s1 ys"
      "mset ys = mset xs" "wc_sorted s \<longrightarrow> wc_sorted s1"
      using get_pdelay_inv [OF Cons.prems(1), of tn rn now] Cons.prems(2,3) by auto
    have ys: "set ys = set xs" using s1(4) by (rule mset_eq_setD)
    have cp: "c \<noteq> p" using q1(3) Cons.prems(5) by blast
    have sub: "set rns \<subseteq> set ys" "tn \<in> set ys" "p_fflag q1 p"
      using Cons.prems ys q1(4) by auto
    obtain s' zs q' ts where r: "send_copies ifs now p tn rns s1 q1 (out @ map (\<lambda>i. RSchedule (Some i) c d) (ifs rn))
        = Some (Inr (s', q', (out @ map (\<lambda>i. RSchedule (Some i) c d) (ifs rn)) @ delivery_requests ifs ts))"
      "nl_inv s' zs" "mset zs = mset ys" "wc_sorted s1 \<longrightarrow> wc_sorted s'" "pool_ok q'"
      "\<forall>c. p_fflag q1 c \<longrightarrow> p_fflag q' c \<and> p_bits q' c = p_bits q1 c"
      "p_refcount q' p = p_refcount q1 p" "p_uid q' p = p_uid q1 p"
      "map fst ts = filter (\<lambda>n. n \<noteq> tn) rns" "delivered (p_bits q1 p) q1 q' ts"
      using Cons.IH [OF s1(3) sub(1,2) q1(2) sub(3)] by blast
    have "delivered (p_bits q p) q q' ((rn, c, d) # ts)"
    proof -
      have b: "p_bits q1 p = p_bits q p" using q1(5) cp by simp
      have c: "p_fflag q' c" "p_bits q' c = p_bits q p" using r(6) q1(4,5) by auto
      have ts: "\<not> p_fflag q1 e \<and> p_fflag q' e \<and> p_bits q' e = p_bits q p \<and> 0 < x"
        if "(n, e, x) \<in> set ts" for n e x
        using r(10) that unfolding delivered_def b by blast
      have "\<not> p_fflag q e \<and> e \<noteq> c \<and> p_fflag q' e \<and> p_bits q' e = p_bits q p \<and> 0 < x"
        if "(n, e, x) \<in> set ts" for n e x
        using ts [OF that] q1(4) by (auto split: if_splits)
      moreover have "distinct (map (\<lambda>(n, c, d). c) ts)" using r(10) by (simp add: delivered_def)
      ultimately show ?thesis using c q1(3) s1(2) by (auto simp: delivered_def)
    qed
    moreover have "\<forall>c. p_fflag q c \<longrightarrow> p_fflag q' c \<and> p_bits q' c = p_bits q c"
      using r(6) q1(3-5) by auto
    moreover have "send_copies ifs now p tn (rn # rns) s q out
        = Some (Inr (s', q', out @ delivery_requests ifs ((rn, c, d) # ts)))"
      using r(1) q1(1) s1(1) False by (simp add: delivery_requests_def)
    moreover have "map fst ((rn, c, d) # ts) = filter (\<lambda>n. n \<noteq> tn) (rn # rns)" using r(9) False by simp
    moreover have "mset zs = mset xs" "wc_sorted s \<longrightarrow> wc_sorted s'" using r(3,4) s1(4,5) by simp_all
    moreover have "p_refcount q' p = p_refcount q p" "p_uid q' p = p_uid q p" using r(7,8) q1(6,7) by simp_all
    ultimately show ?thesis using r(2,5) by blast
  qed
qed


section \<open>One transmission\<close>

text \<open>
  \<open>near s now mn r n\<close>: after the update of stale positions, \<open>n\<close> lies in the square with half
  side \<open>r\<close> around the position the sender had before.
\<close>

definition near :: "wchan \<Rightarrow> real \<Rightarrow> nat \<Rightarrow> real \<Rightarrow> nat \<Rightarrow> bool" where
  "near s now mn r n \<longleftrightarrow> (let m = refreshed now (wc_node s n)
     in dsub (nX s mn) r \<le> mn_X m \<and> mn_X m \<le> dadd (nX s mn) r
      \<and> dsub (nY s mn) r \<le> mn_Y m \<and> mn_Y m \<le> dadd (nY s mn) r)"

lemma sent_from_near:
  "wc_node s' n = refreshed now (wc_node s n) \<Longrightarrow> sent_from s mn r s' n \<longleftrightarrow> near s now mn r n"
  by (simp add: sent_from_def in_window_def near_def Let_def)

definition with_range :: "(nat \<Rightarrow> interface) \<Rightarrow> nat \<Rightarrow> wl \<Rightarrow> wl" where
  "with_range phys tifp w = (if highestAntennaZ w = -1 then calcHighestAntennaZ phys tifp w else w)"

lemma with_range_list [simp]: "wl_list (with_range phys tifp w) = wl_list w"
  by (simp add: with_range_def calcHighestAntennaZ_def Let_def)

definition live :: "pool \<Rightarrow> nat \<Rightarrow> bool" where
  "live q p \<longleftrightarrow> p_fflag q p \<and> p_refcount q p = 0 \<and> p_uid q p \<le> 0"

lemma sorted_first:
  assumes "nl_inv s xs"
  shows "\<exists>s1 ys. ensure_sorted s = Some s1 \<and> nl_inv s1 ys
    \<and> mset ys = mset xs \<and> wc_node s1 = wc_node s \<and> wc_sorted s1"
proof (cases "wc_sorted s")
  case True
  with assms show ?thesis by (auto simp: ensure_sorted_def)
next
  case False
  obtain s1 where s1: "sortLists s = Some s1" "dlist s1 (sort_key (nX s) xs)"
    "wc_node s1 = wc_node s" "wc_num s1 = wc_num s" "wc_sorted s1"
    using sortLists_dlist [of s xs] assms by (auto simp: nl_inv_def)
  then have "nl_inv s1 (sort_key (nX s) xs)" using assms by (simp add: nl_inv_def)
  moreover have "mset (sort_key (nX s) xs) = mset xs" by simp
  ultimately show ?thesis using s1 False by (auto simp: ensure_sorted_def)
qed

lemma chan_sendUp_delivery:
  assumes "nl_reach T (wl_list w) M" "tn = if_node (phys tifp)" "tn \<in> M"
    and "near (wl_list w) now tn (dadd (distCST (with_range phys tifp w)) 5) tn"
    and "pool_ok q" "live q p"
  shows "\<exists>w' q' ts. chan_sendUp phys ifs now p tifp w q = Some (Inr (w', q', delivery_requests ifs ts))
    \<and> nl_ok (wl_list w') M \<and> pool_ok q' \<and> \<not> p_fflag q' p
    \<and> distinct (map fst ts)
    \<and> set (map fst ts) = {n \<in> M - {tn}. near (wl_list w) now tn (dadd (distCST (with_range phys tifp w)) 5) n}
    \<and> delivered (set_direction DIR_UP (p_bits q p)) q q' ts"
proof -
  let ?s = "wl_list w" and ?w = "with_range phys tifp w"
  let ?r = "dadd (distCST (with_range phys tifp w)) 5"
  let ?q = "q\<lparr>p_bits := (p_bits q)(p := set_direction DIR_UP (p_bits q p))\<rparr>"
  obtain xs where xs: "nl_inv ?s xs" "set xs = M" using nl_reach_ok [OF assms(1)] by (auto simp: nl_ok_def)
  obtain s1 ys where s1: "ensure_sorted ?s = Some s1" "nl_inv s1 ys"
    "mset ys = mset xs" "wc_node s1 = wc_node ?s" "wc_sorted s1"
    using sorted_first [OF xs(1)] by blast
  have ys: "set ys = M" using s1(3) xs(2) mset_eq_setD by metis
  then have ne: "ys \<noteq> []" using assms(3) by auto
  obtain s2 zs where s2: "nl_inv s2 zs" "mset zs = mset ys" "wc_sorted s2"
    "\<forall>n\<in>set ys. wc_node s2 n = refreshed now (wc_node s1 n)"
    "getAffectedNodes now tn ?r s1 = map_option (\<lambda>r. bind_res r (\<lambda>l. Inr (Some l, s2)))
         (collect_window s2 tn (dsub (nX s1 tn) ?r) (dadd (nX s1 tn) ?r)
            (dsub (nY s1 tn) ?r) (dadd (nY s1 tn) ?r))"
    using getAffectedNodes_eq [OF s1(2) ne, of now tn ?r] s1(5) by blast
  have zs: "set zs = M" using s2(2) ys mset_eq_setD by metis
  have nr: "near ?s now tn ?r n \<longleftrightarrow> sent_from s1 tn ?r s2 n" if "n \<in> M" for n
    using sent_from_near [of s2 n now s1 tn ?r] s2(4) ys that s1(4) by (simp add: near_def)
  obtain l where l: "collect_window s2 tn (dsub (nX s1 tn) ?r) (dadd (nX s1 tn) ?r)
      (dsub (nY s1 tn) ?r) (dadd (nY s1 tn) ?r) = Some (Inr l)" "distinct l"
    "set l = {n \<in> M. sent_from s1 tn ?r s2 n}"
    using collect_window_exact [OF s2(1,3), of tn "dsub (nX s1 tn) ?r" "dadd (nX s1 tn) ?r"
        "dsub (nY s1 tn) ?r" "dadd (nY s1 tn) ?r"] nr [OF assms(3)] assms(3,4) zs
    by (auto simp: sent_from_def in_window_def)
  have pq: "pool_ok ?q" "p_fflag ?q p" using assms(5,6) by (simp_all add: pool_ok_def live_def)
  have ltn: "set l \<subseteq> set zs" "tn \<in> set zs" using l(3) zs assms(3) by auto
  obtain s3 us q2 ts where r: "send_copies ifs now p tn l s2 ?q [] = Some (Inr (s3, q2, delivery_requests ifs ts))"
    "nl_inv s3 us" "mset us = mset zs" "pool_ok q2"
    "\<forall>c. p_fflag ?q c \<longrightarrow> p_fflag q2 c \<and> p_bits q2 c = p_bits ?q c"
    "p_refcount q2 p = p_refcount ?q p" "p_uid q2 p = p_uid ?q p"
    "map fst ts = filter (\<lambda>n. n \<noteq> tn) l" "delivered (p_bits ?q p) ?q q2 ts"
    using send_copies_spec [OF s2(1) ltn pq, of ifs now "[]"] by auto
  have f: "p_fflag q2 p" "p_refcount q2 p = 0" "\<not> 0 < p_uid q2 p"
    using r(5-7) pq(2) assms(6) by (auto simp: live_def)
  then obtain q3 where q3: "pool_free p q2 = Inr q3" "\<not> p_fflag q3 p"
    "\<And>c. c \<noteq> p \<Longrightarrow> p_fflag q3 c = p_fflag q2 c \<and> p_bits q3 c = p_bits q2 c"
    by (simp add: pool_free_def)
  have "chan_sendUp phys ifs now p tifp w q = Some (Inr (?w\<lparr>wl_list := s3\<rparr>, q3, delivery_requests ifs ts))"
    using s1(1) s2(5) l(1) r(1) q3(1) assms(2)
    by (simp add: chan_sendUp_def Let_def with_range_def [symmetric] lift_list_def)
  moreover have "delivered (set_direction DIR_UP (p_bits q p)) q q3 ts"
    using r(9) q3(3) assms(6) by (fastforce simp: delivered_def live_def)
  moreover have "distinct (map fst ts)" "set (map fst ts) = {n \<in> M - {tn}. near ?s now tn ?r n}"
    using r(8) l(2,3) nr by auto
  moreover have "nl_ok (wl_list (?w\<lparr>wl_list := s3\<rparr>)) M"
    using r(2,3) zs nl_okI by simp
  moreover have "pool_ok q3" using pool_free_ok [OF r(4) q3(1)] .
  ultimately show ?thesis using q3(2) by blast
qed

text \<open>
  C13: A transmission gives every other node of the list that lies near the sender exactly one
  fresh copy of the packet, scheduled with a positive delay at each of its interfaces, and
  releases the packet itself; the node list stays well formed and nothing else is scheduled.
\<close>

theorem channel_delivery:
  assumes "nl_reach T (wl_list w) M" "tn = if_node (phys tifp)" "tn \<in> M"
    and "near (wl_list w) now tn (dadd (distCST (with_range phys tifp w)) 5) tn"
    and "pool_ok q" "live q p"
  shows "\<exists>w' q' ts. chan_sendUp phys ifs now p tifp w q = Some (Inr (w', q', delivery_requests ifs ts))
    \<and> nl_ok (wl_list w') M \<and> pool_ok q' \<and> \<not> p_fflag q' p
    \<and> distinct (map fst ts)
    \<and> set (map fst ts) = {n \<in> M - {tn}. near (wl_list w) now tn (dadd (distCST (with_range phys tifp w)) 5) n}
    \<and> delivered (set_direction DIR_UP (p_bits q p)) q q' ts"
  using assms by (rule chan_sendUp_delivery)

text \<open>A coordinate that is a double and within \<open>r\<close> of another is inside the rounded bounds.\<close>

lemma rounded_window:
  assumes "to_double x = x" "\<bar>x - c\<bar> \<le> r"
  shows "dsub c r \<le> x" and "x \<le> dadd c r"
proof -
  have "to_double (c - r) \<le> to_double x" "to_double x \<le> to_double (c + r)"
    using assms(2) by (intro to_double_mono_all; linarith)+
  then show "dsub c r \<le> x" "x \<le> dadd c r" using assms(1) by (simp_all add: dsub_def dadd_def)
qed

lemma safety_margin:
  assumes "0 \<le> d" "d \<le> 2 ^ 52"
  shows "d + 4 \<le> dadd d 5"
proof -
  have "2 powi (-1022) \<le> (1::real)" using powi2_mono [of "-1022" 0] by simp
  then have "2 powi (-1022) \<le> \<bar>d + 5\<bar>" using assms by linarith
  then have e: "\<bar>to_double (d + 5) - (d + 5)\<bar> \<le> 2 powi (-53) * \<bar>d + 5\<bar>" by (rule to_double_relerror)
  have "2 powi (-53) * \<bar>d + 5\<bar> \<le> 2 powi (-53) * 2 ^ 53"
    using assms by (intro mult_left_mono) auto
  also have "\<dots> = (1::real)" by (simp add: power_int_minus)
  finally have "\<bar>to_double (d + 5) - (d + 5)\<bar> \<le> 1" using e by (rule order_trans [rotated])
  then have "d + 4 \<le> to_double (d + 5)" by linarith
  then show ?thesis by (simp add: dadd_def)
qed

lemma highest_start:
  "h0 \<le> fold (\<lambda>n h. if h < f n then f n else h) ns (h0 :: real)"
proof (induction ns arbitrary: h0)
  case (Cons n ns)
  show ?case using Cons [of "f n"] Cons [of h0] by auto
qed simp

lemma highest_ge:
  "i \<in> set ns \<Longrightarrow> ant_Z (if_ant (phys i))
     \<le> fold (\<lambda>n h. if h < ant_Z (if_ant (phys n)) then ant_Z (if_ant (phys n)) else h) ns h0"
proof (induction ns arbitrary: h0)
  case (Cons n ns)
  show ?case
  proof (cases "i = n")
    case True
    let ?z = "ant_Z (if_ant (phys n))"
    have "?z \<le> (if h0 < ?z then ?z else h0)" by simp
    also have "\<dots> \<le> fold (\<lambda>n h. if h < ant_Z (if_ant (phys n)) then ant_Z (if_ant (phys n)) else h) ns
        (if h0 < ?z then ?z else h0)"
      by (rule highest_start)
    finally show ?thesis using True by simp
  next
    case False
    with Cons show ?thesis by simp
  qed
qed simp

lemma prop_getDist_nonneg:
  assumes "0 < Th" "0 \<le> Pt" "0 < L"
  shows "0 \<le> prop_getDist m Th Pt 1 1 H H L lambda"
proof (cases m)
  case FreeSpace
  have "0 \<le> Pt * lambda * lambda" using assms by (simp add: mult.assoc)
  with FreeSpace assms show ?thesis
    by (simp add: FreeSpace_getDist_def order_less_imp_le [OF c_PI_pos(1)])
next
  case (TwoRayGround st)
  have "H * H * H * H = (H * H)\<^sup>2" by (simp add: power2_eq_square)
  with TwoRayGround assms show ?thesis by (simp add: TwoRayGround_getDist_def)
qed

text \<open>
  The range is computed once, when the first packet is sent, from the parameters of its
  sender; every later transmission uses it. In between the node list changes and interfaces
  are attached.
\<close>

inductive range_set :: "(nat \<Rightarrow> interface) \<Rightarrow> nat \<Rightarrow> wl \<Rightarrow> wl \<Rightarrow> bool" for phys0 tifp0 w0 where
  first: "highestAntennaZ w0 = -1 \<Longrightarrow> range_set phys0 tifp0 w0 (with_range phys0 tifp0 w0)"
| send: "range_set phys0 tifp0 w0 w \<Longrightarrow> chan_sendUp phys ifs now p tifp w q = Some (Inr (w', q', out))
    \<Longrightarrow> range_set phys0 tifp0 w0 w'"
| nodes: "range_set phys0 tifp0 w0 w \<Longrightarrow> range_set phys0 tifp0 w0 (w\<lparr>wl_list := s\<rparr>)"
| attach: "range_set phys0 tifp0 w0 w \<Longrightarrow> range_set phys0 tifp0 w0 (w\<lparr>wl_ifhead := is\<rparr>)"

lemma bind_wl_Inr: "bind_wl r f = Some (Inr b) \<longleftrightarrow> (\<exists>a. r = Some (Inr a) \<and> f a = Some (Inr b))"
proof (cases r)
  case (Some x)
  then show ?thesis by (cases x) simp_all
qed simp

lemma case_Inr_eq: "(case x of Inl e \<Rightarrow> Inl (f e) | Inr a \<Rightarrow> Inr (g a)) = Inr b \<longleftrightarrow> (\<exists>a. x = Inr a \<and> g a = b)"
  by (cases x) simp_all

lemma sendUp_range:
  assumes "chan_sendUp phys ifs now p tifp w q = Some (Inr (w', q', out))"
  shows "distCST w' = distCST (with_range phys tifp w) \<and> highestAntennaZ w' = highestAntennaZ (with_range phys tifp w)"
  using assms
  by (auto simp: chan_sendUp_def Let_def bind_wl_Inr case_Inr_eq with_range_def [symmetric])

lemma range_set_kept:
  "range_set phys0 tifp0 w0 w \<Longrightarrow> 0 \<le> highestAntennaZ w \<and> distCST w = distCST (with_range phys0 tifp0 w0)"
proof (induction rule: range_set.induct)
  case first
  then show ?case by (simp add: with_range_def calcHighestAntennaZ_def Let_def highest_start)
next
  case (send w phys ifs now p tifp q w' q' out)
  then have "with_range phys tifp w = w" by (simp add: with_range_def)
  then show ?case using sendUp_range [OF send.hyps(2)] send.IH by simp
qed simp_all

text \<open>The parameters of a sender that the range depends on.\<close>

definition same_radio :: "interface \<Rightarrow> interface \<Rightarrow> bool" where
  "same_radio i j \<longleftrightarrow> if_prop i = if_prop j \<and> if_Pt i = if_Pt j \<and> if_L i = if_L j
     \<and> if_lambda i = if_lambda j \<and> if_CSThresh i = if_CSThresh j"

text \<open>
  C14: When cutting the receivers down to the square loses no detection. In the first
  transmission and in every later one, suppose that the sender has the radio parameters of
  the first sender (system loss at least 1, a positive threshold, a range of at most
  \<open>2 ^ 52\<close> metres), that the two interfaces were attached before the first transmission and
  keep their antennas, that the product of their gains is at most 1, that both nodes are at
  height 0, and that between the update of the list and the reception they moved by at
  most 4 metres together along each axis (the update interval times the speeds; the margin
  is 5). Then a node that receives the packet at or above the carrier sense threshold of the
  sender lies in the square. With larger gains this fails (\<open>gain_defeats_culling\<close>).
\<close>

theorem culling_sound:
  assumes set: "range_set phys0 tifp0 w0 (with_range phys tifp w)" "highestAntennaZ w0 = -1" "same_radio (phys0 tifp0) t"
    and phys: "t = phys tifp" "if_node t = tn" "prop_ok (if_lambda t) (if_prop t)" "0 < if_CSThresh t"
      "0 \<le> if_Pt t" "1 \<le> if_L t" "0 < if_lambda t"
    and range: "distCST (with_range phys tifp w) \<le> 2 ^ 52"
    and ants: "ri \<in> set (wl_ifhead w0)" "ti \<in> set (wl_ifhead w0)" "if_ant (phys0 ri) = ra" "if_ant (phys0 ti) = ta"
      "0 \<le> ant_Z ra" "0 \<le> ant_Z ta" "0 \<le> ant_Gt ta * ant_Gr ra" "ant_Gt ta * ant_Gr ra \<le> 1"
    and m: "m = refreshed now (wc_node (wl_list w) n)" "to_double (mn_X m) = mn_X m" "to_double (mn_Y m) = mn_Y m"
    and move: "\<bar>(loc_X r + ant_X ra) - mn_X m\<bar> + \<bar>(loc_X tloc + ant_X ta) - nX (wl_list w) tn\<bar> \<le> 4"
      "\<bar>(loc_Y r + ant_Y ra) - mn_Y m\<bar> + \<bar>(loc_Y tloc + ant_Y ta) - nY (wl_list w) tn\<bar> \<le> 4"
      "loc_Z r = 0" "loc_Z tloc = 0"
    and heard: "if_CSThresh t \<le> fst (prop_Pr (if_prop t) (if_Pt t) tloc ta r ra (if_L t) (if_lambda t))"
  shows "near (wl_list w) now tn (dadd (distCST (with_range phys tifp w)) 5) n"
proof -
  let ?h = "fold (\<lambda>n h. if h < ant_Z (if_ant (phys0 n)) then ant_Z (if_ant (phys0 n)) else h) (wl_ifhead w0) 0"
  let ?D = "distCST (with_range phys tifp w)" let ?s = "wl_list w"
  have h: "ant_Z ra \<le> ?h" "ant_Z ta \<le> ?h"
    using highest_ge [OF ants(1), of phys0 0] highest_ge [OF ants(2), of phys0 0] ants(3,4) by simp_all
  have "?D = distCST (with_range phys0 tifp0 w0)" using range_set_kept [OF set(1)] by simp
  then have D: "?D = prop_getDist (if_prop t) (if_CSThresh t) (if_Pt t) 1 1 ?h ?h (if_L t) (if_lambda t)"
    using set(2,3) by (simp add: with_range_def calcHighestAntennaZ_def Let_def phy_getDist_def same_radio_def)
  have D0: "0 \<le> ?D" unfolding D using phys by (intro prop_getDist_nonneg) auto
  have *: "\<bar>(loc_X r + ant_X ra) - (loc_X tloc + ant_X ta)\<bar> \<le> e \<and>
    \<bar>(loc_Y r + ant_Y ra) - (loc_Y tloc + ant_Y ta)\<bar> \<le> e" if "?D < e" for e
  proof (rule ccontr)
    assume "\<not> ?thesis"
    then have "fst (prop_Pr (if_prop t) (if_Pt t) tloc ta r ra (if_L t) (if_lambda t)) < if_CSThresh t"
      using phys ants h move(3,4) D that by (intro prop_below [where D = e and H = ?h]) auto
    with heard show False by simp
  qed
  have d: "\<bar>(loc_X r + ant_X ra) - (loc_X tloc + ant_X ta)\<bar> \<le> ?D"
    "\<bar>(loc_Y r + ant_Y ra) - (loc_Y tloc + ant_Y ta)\<bar> \<le> ?D"
    using * by (meson dense not_le)+
  have "\<bar>mn_X m - nX ?s tn\<bar> \<le> ?D + 4" "\<bar>mn_Y m - nY ?s tn\<bar> \<le> ?D + 4"
    using d move(1,2) by linarith+
  moreover have "?D + 4 \<le> dadd ?D 5" using D0 range by (rule safety_margin)
  ultimately have "\<bar>mn_X m - nX ?s tn\<bar> \<le> dadd ?D 5" "\<bar>mn_Y m - nY ?s tn\<bar> \<le> dadd ?D 5"
    by linarith+
  then show ?thesis using rounded_window m by (simp add: near_def Let_def)
qed

lemma sched_requests_append:
  "sched_requests ops (rs @ rs') s = bind_res (sched_requests ops rs s) (sched_requests ops rs')"
  by (induction rs arbitrary: s) (auto simp: bind_res_def split: sum.splits)

lemma uid_positive_or_spent:
  assumes "sched_request ops r s = Inr s'" "\<exists>h i d. r = RSchedule h i d"
  shows "0 < sc_uid s \<and> sc_uid s' \<noteq> 0 \<or> sc_uid s = 0"
  using assms by (auto simp: sched_schedule_def uid_next_def Let_def split: option.splits if_splits)

lemma schedule_twice:
  assumes "sc_uid s \<noteq> 0"
  shows "\<exists>e. sched_requests ops (RSchedule (Some i) c d # RSchedule (Some j) c d' # rs) s = Inl e"
proof -
  consider "0 < ev_uid (sc_events s c)" | "\<not> 0 < ev_uid (sc_events s c)" "sc_uid s < 0"
    | "\<not> 0 < ev_uid (sc_events s c)" "0 < sc_uid s" using assms by linarith
  then show ?thesis by cases (simp_all add: sched_schedule_def Let_def)
qed

lemma requests_uid:
  assumes "sched_requests ops rs s = Inr s'" "\<forall>r\<in>set rs. \<exists>h i d. r = RSchedule h i d" "sc_uid s \<noteq> 0"
  shows "sc_uid s' \<noteq> 0"
  using assms
proof (induction rs arbitrary: s)
  case (Cons r rs)
  then obtain s1 where s1: "sched_request ops r s = Inr s1" "sched_requests ops rs s1 = Inr s'"
    by (auto simp: bind_res_Inr)
  have "sc_uid s1 \<noteq> 0" using uid_positive_or_spent [OF s1(1)] Cons.prems(2,3) by auto
  with Cons.IH [OF s1(2)] Cons.prems(2) show ?case by simp
qed simp

lemma delivery_twice:
  assumes "(n, c, d) \<in> set ts" "ifs n = i # j # js" "sc_uid s \<noteq> 0"
  shows "\<exists>e. sched_requests ops (delivery_requests ifs ts) s = Inl e"
proof -
  obtain us vs where ts: "ts = us @ (n, c, d) # vs" using assms(1) by (meson split_list)
  let ?r = "delivery_requests ifs us"
  have r: "delivery_requests ifs ts = ?r @ RSchedule (Some i) c d # RSchedule (Some j) c d
      # (map (\<lambda>i. RSchedule (Some i) c d) js @ delivery_requests ifs vs)"
    by (simp add: ts delivery_requests_def assms(2))
  show ?thesis
  proof (cases "sched_requests ops ?r s")
    case (Inl e)
    then show ?thesis unfolding r sched_requests_append by simp
  next
    case (Inr s')
    have "\<forall>x\<in>set ?r. \<exists>h i d. x = RSchedule h i d" by (auto simp: delivery_requests_def)
    then have "sc_uid s' \<noteq> 0" using requests_uid [OF Inr _ assms(3)] by blast
    from schedule_twice [OF this] show ?thesis unfolding r sched_requests_append Inr by simp
  qed
qed

text \<open>
  C31: All interfaces of a node get the same copy of the packet. If a node near the sender has two
  interfaces, the second \<open>schedule\<close> finds the event already scheduled and the simulation aborts,
  whatever scheduler runs it.
\<close>

theorem two_interfaces_abort:
  assumes "nl_reach T (wl_list w) M" "tn = if_node (phys tifp)" "tn \<in> M"
    and "near (wl_list w) now tn (dadd (distCST (with_range phys tifp w)) 5) tn"
    and "pool_ok q" "live q p"
    and "n \<in> M" "n \<noteq> tn" "near (wl_list w) now tn (dadd (distCST (with_range phys tifp w)) 5) n"
    and "ifs n = i # j # js"
  shows "\<exists>w' q' out. chan_sendUp phys ifs now p tifp w q = Some (Inr (w', q', out))
    \<and> (\<forall>ops s. sc_uid s \<noteq> 0 \<longrightarrow> (\<exists>e. sched_requests ops out s = Inl e))"
proof -
  obtain w' q' ts where r: "chan_sendUp phys ifs now p tifp w q = Some (Inr (w', q', delivery_requests ifs ts))"
    "set (map fst ts) = {n \<in> M - {tn}. near (wl_list w) now tn (dadd (distCST (with_range phys tifp w)) 5) n}"
    using chan_sendUp_delivery [OF assms(1-6), of ifs] by blast
  have "n \<in> set (map fst ts)" unfolding r(2) using assms(7-9) by blast
  then obtain c d where "(n, c, d) \<in> set ts" by auto
  then show ?thesis using r(1) delivery_twice assms(10) by blast
qed

text \<open>
  The distance is computed for unit gains. With larger gains a node outside the square can still
  hear the packet: here 8 metres away, with a range of 1 metre and the safety margin of 5.
\<close>

lemma gain_defeats_culling:
  defines "a \<equiv> \<lparr>ant_X = 0, ant_Y = 0, ant_Z = 1, ant_Gt = 100, ant_Gr = 100\<rparr>"
  shows "prop_getDist (TwoRayGround TwoRayGround_new) 1 1 1 1 1 1 1 100 + 5 < 8
    \<and> 1 \<le> fst (prop_Pr (TwoRayGround TwoRayGround_new) 1 \<lparr>loc_X = 0, loc_Y = 0, loc_Z = 0\<rparr> a
                 \<lparr>loc_X = 8, loc_Y = 0, loc_Z = 0\<rparr> a 1 100)"
  by (simp add: a_def TwoRayGround_getDist_def TwoRayGround_Pr_def TwoRayGround_new_def recalc_def
    antenna_dist_def TwoRay_def c_PI_def Let_def)

section \<open>Example\<close>

definition demo_phys :: "nat \<Rightarrow> interface" where
  "demo_phys i = \<lparr>if_node = (if i = 0 then 2 else 3), if_ant = Antenna_new, if_prop = FreeSpace,
     if_Pt = 1, if_L = 1, if_lambda = 4 * c_PI, if_CSThresh = 1, if_RXThresh = 1\<rparr>"

definition demo_wl :: wl where
  "demo_wl = \<lparr>wl_list = two_nodes, wl_ifhead = [0, 1], highestAntennaZ = -1, distCST = -1\<rparr>"

definition demo_ifs :: "nat \<Rightarrow> nat list" where
  "demo_ifs n = (if n = 2 then [0] else [1, 2])"

lemma demo_range [simp]: "distCST (with_range demo_phys 0 demo_wl) = 1"
proof -
  have "sqrt ((4 * c_PI) * (4 * c_PI)) = 4 * c_PI"
    using c_PI_pos(1) by (simp only: real_sqrt_abs2 abs_of_pos mult_pos_pos zero_less_numeral)
  then show ?thesis
    by (simp add: with_range_def demo_wl_def calcHighestAntennaZ_def demo_phys_def phy_getDist_def
      FreeSpace_getDist_def Antenna_new_def Let_def mult.assoc)
qed

definition chan_pool :: pool where
  "chan_pool = snd (projr (pool_alloc pool_init))"

lemma chan_pool_live: "pool_ok chan_pool" "live chan_pool 0"
  by (auto simp: chan_pool_def pool_alloc_def pool_init_def pool_ok_def live_def Let_def)

lemma demo_near: "near two_nodes 0 2 (dadd 1 5) 2" "near two_nodes 0 2 (dadd 1 5) 3"
proof -
  have d: "dadd 1 5 = 6" "dsub 7 6 = 1" "dadd 7 6 = 13" "dsub 1 6 = -5" "dadd 1 6 = 7"
    using to_double_of_int [of 6] to_double_of_int [of 1] to_double_of_int [of 13]
      to_double_of_int [of "-5"] to_double_of_int [of 7]
    by (simp_all add: dadd_def dsub_def)
  have r: "refreshed 0 walker = walker" "refreshed 0 (node_at 7) = node_at 7"
    by (simp_all add: refreshed_def stale_def node_at_def walker_def double_numerals)
  show "near two_nodes 0 2 (dadd 1 5) 2" "near two_nodes 0 2 (dadd 1 5) 3"
    by (simp_all add: near_def two_nodes_def r d Let_def)
qed

lemma demo_wl_list [simp]: "wl_list demo_wl = two_nodes"
  by (simp add: demo_wl_def)

lemma distinct_singleton: "distinct xs \<Longrightarrow> set xs = {x} \<Longrightarrow> xs = [x]"
  by (cases xs; cases "tl xs") auto

theorem channel_delivery_witness:
  "\<exists>w' q' ts. chan_sendUp demo_phys demo_ifs 0 0 0 demo_wl chan_pool
      = Some (Inr (w', q', delivery_requests demo_ifs ts)) \<and> map fst ts = [3] \<and> \<not> p_fflag q' 0"
proof -
  have n: "2 = if_node (demo_phys 0)" by (simp add: demo_phys_def)
  have m: "2 \<in> {2::nat, 3}" by simp
  obtain w' q' ts where r: "chan_sendUp demo_phys demo_ifs 0 0 0 demo_wl chan_pool
      = Some (Inr (w', q', delivery_requests demo_ifs ts))" "\<not> p_fflag q' 0" "distinct (map fst ts)"
    "set (map fst ts) = {n \<in> {2, 3} - {2}. near two_nodes 0 2 (dadd 1 5) n}"
    using channel_delivery [of _ demo_wl "{2, 3}" 2 demo_phys 0 0 chan_pool 0 demo_ifs,
        unfolded demo_wl_list demo_range, OF two_nodes_reach n m demo_near(1) chan_pool_live]
    by blast
  have "{n \<in> {2, 3} - {2}. near two_nodes 0 2 (dadd 1 5) n} = {3}" using demo_near(2) by auto
  with r(3,4) have "map fst ts = [3]" by (simp only: distinct_singleton)
  with r(1,2) show ?thesis by (intro exI conjI)
qed

theorem two_interfaces_abort_witness:
  "\<exists>w' q' out e. chan_sendUp demo_phys demo_ifs 0 0 0 demo_wl chan_pool = Some (Inr (w', q', out))
    \<and> sched_requests list_ops out (sched_new [] ()) = Inl e"
proof -
  have n: "2 = if_node (demo_phys 0)" by (simp add: demo_phys_def)
  have "\<exists>w' q' out. chan_sendUp demo_phys demo_ifs 0 0 0 demo_wl chan_pool = Some (Inr (w', q', out))
    \<and> (\<forall>ops s. sc_uid (s :: (event list, unit) sim) \<noteq> 0 \<longrightarrow> (\<exists>e. sched_requests ops out s = Inl e))"
    by (rule two_interfaces_abort [where tn = 2 and T = "\<lparr>upperX = 10, upperY = 10\<rparr>" and M = "{2, 3}" and n = 3 and i = 1 and j = 2 and js = "[]"])
       (simp_all add: two_nodes_reach demo_near chan_pool_live demo_ifs_def n [symmetric])
  then show ?thesis by (fastforce simp: sched_new_def)
qed

theorem culling_sound_witness:
  "near (wl_list demo_wl) 0 2 (dadd (distCST (with_range demo_phys 0 demo_wl)) 5) 3"
proof -
  have w: "refreshed 0 walker = walker" by (simp add: refreshed_def stale_def node_at_def walker_def double_numerals)
  have m: "walker = refreshed 0 (wc_node (wl_list demo_wl) 3)" by (simp add: two_nodes_def w)
  have p: "0 < c_PI" by simp
  have f: "range_set demo_phys 0 demo_wl (with_range demo_phys 0 demo_wl)"
    by (rule range_set.first) (simp add: demo_wl_def)
  have "to_double 3 = 3" "to_double 1 = 1"
    using to_double_of_int [of 3] to_double_of_int [of 1] by simp_all
  then show ?thesis
    by (intro culling_sound [OF f, where m = walker and r = "\<lparr>loc_X = 5, loc_Y = 1, loc_Z = 0\<rparr>" and ri = 1
          and tloc = "\<lparr>loc_X = 6, loc_Y = 1, loc_Z = 0\<rparr>" and ti = 0 and t = "demo_phys 0"
          and ra = Antenna_new and ta = Antenna_new])
       (use m p in \<open>simp_all add: demo_phys_def Antenna_new_def two_nodes_def w same_radio_def
          FreeSpace_Pr_def Friis_def Let_def\<close>, simp_all add: demo_wl_def)
qed

end
