(* ===== verification/MacBase.thy ===== *)
theory MacBase
  imports InterfaceQueue LinkLayer MachineFloat
begin

text \<open>
  The base class \<open>Mac\<close> (\<open>mac/mac.cc\<close>, \<open>mac/mac.h\<close>), the MAC of the RFID scenarios: frames
  from above are stamped and transmitted one after the other, frames from below are filtered by
  their destination. What it does to its neighbours and to the scheduler is a list of
  outputs. The second part connects it with the interface queue above it: it is the
  link that the contract \<open>link_server\<close> of the queues assumes.
\<close>

section \<open>State and operations\<close>

datatype mac_state = MAC_IDLE | MAC_POLLING | MAC_RECV | MAC_SEND | MAC_RTS | MAC_BCN | MAC_CTS
  | MAC_ACK | MAC_COLL | MAC_MGMT

abbreviation (input) MF_DATA :: int where "MF_DATA \<equiv> 0x20"
abbreviation (input) MAC_HDR_LEN :: int where "MAC_HDR_LEN \<equiv> 64"

text \<open>
  \<open>ToPhy\<close> is \<open>downtarget_->recv\<close>, \<open>SchedResume\<close> schedules the event \<open>intr_\<close> for the resume
  handler, \<open>ToLL\<close> schedules a packet for \<open>uptarget_\<close>.
\<close>

datatype mac_act = ToPhy nat | SchedResume real | ToLL nat real | MacDrop nat | MacFree nat

record mac =
  mac_index :: int
  mac_bandwidth :: real
  mac_delay :: real
  mac_abstract :: bool
  mac_status :: mac_state
  mac_callback :: "nat option"
  mac_acts :: "mac_act list"

type_synonym frames = "nat \<Rightarrow> frame"

definition mac_new :: "int \<Rightarrow> real \<Rightarrow> real \<Rightarrow> bool \<Rightarrow> mac" where
  "mac_new index bandwidth delay abstract = \<lparr>mac_index = index, mac_bandwidth = bandwidth,
     mac_delay = delay, mac_abstract = abstract, mac_status = MAC_IDLE, mac_callback = None,
     mac_acts = []\<rparr>"

definition mac_out :: "mac_act list \<Rightarrow> mac \<Rightarrow> mac" where
  "mac_out as m = m\<lparr>mac_acts := mac_acts m @ as\<rparr>"

definition mac_txtime :: "frame \<Rightarrow> mac \<Rightarrow> real" where
  "mac_txtime f m = to_double (dmul 8 (of_int (MAC_HDR_LEN + ch_size (cmn f))) / mac_bandwidth m)"

text \<open>\<open>hdr_mac::set\<close>; the destination -1 keeps the old one.\<close>

definition hdr_mac_set :: "int \<Rightarrow> int \<Rightarrow> int \<Rightarrow> hdr_mac \<Rightarrow> hdr_mac" where
  "hdr_mac_set ft sa da h =
     (let h1 = h\<lparr>mac_ftype := ft, mac_macSA := sa\<rparr>
      in if da \<noteq> -1 then h1\<lparr>mac_macDA := da\<rparr> else h1)"

definition mac_sendDown :: "nat \<Rightarrow> frames \<Rightarrow> mac \<Rightarrow> mac" where
  "mac_sendDown p M m =
     (let txt = mac_txtime (M p) m
      in mac_out (ToPhy p # (if mac_abstract m then [] else [SchedResume txt])) m)"

definition mac_sendUp :: "nat \<Rightarrow> frames \<Rightarrow> mac \<Rightarrow> mac" where
  "mac_sendUp p M m =
     (let dst = mac_macDA (f_mac (M p)); m1 = m\<lparr>mac_status := MAC_IDLE\<rparr>
      in if dst \<noteq> MAC_BROADCAST \<and> dst \<noteq> mac_index m1
         then mac_out [if mac_abstract m1 then MacFree p else MacDrop p] m1
         else mac_out [ToLL p (mac_delay m1)] m1)"

text \<open>\<open>h\<close> is the handler of the caller, \<open>None\<close> for a null pointer.\<close>

definition mac_recv :: "nat \<Rightarrow> nat option \<Rightarrow> frames \<times> mac \<Rightarrow> frames \<times> mac" where
  "mac_recv p h s =
     (case s of (M, m) \<Rightarrow>
        if ch_direction (cmn (M p)) = DIR_UP then (M, mac_sendUp p M m)
        else let m1 = m\<lparr>mac_callback := h\<rparr>;
                 M1 = M(p := (M p)\<lparr>f_mac := hdr_mac_set MF_DATA (mac_index m) (-1) (f_mac (M p))\<rparr>);
                 m2 = m1\<lparr>mac_status := MAC_SEND\<rparr>
             in (M1, mac_sendDown p M1 m2))"

text \<open>\<open>resume\<close> gives the handler that is called back, or the call through a null pointer.\<close>

datatype mac_error = NullCallback | ResumePending

definition mac_resume :: "nat option \<Rightarrow> mac \<Rightarrow> (mac_error, nat \<times> mac) result" where
  "mac_resume p m =
     (let m1 = (case p of None \<Rightarrow> m | Some x \<Rightarrow> mac_out [MacDrop x] m);
          m2 = m1\<lparr>mac_status := MAC_IDLE\<rparr>
      in case mac_callback m2 of None \<Rightarrow> Inl NullCallback | Some h \<Rightarrow> Inr (h, m2))"

section \<open>A queue on top of the MAC\<close>

text \<open>
  \<open>ns_pending\<close> is the delay with which the resume event was scheduled, while it is in the
  scheduler: scheduling it again then aborts. \<open>ns_air\<close> are the frames handed to the
  radio interface, \<open>ns_up\<close> those scheduled for the link layer, \<open>ns_lost\<close> those filtered out.
\<close>

record 'q stack =
  ns_queue :: 'q
  ns_mac :: mac
  ns_mem :: frames
  ns_pending :: "real option"
  ns_air :: "nat list"
  ns_up :: "nat list"
  ns_lost :: "nat list"

fun mac_effect :: "mac_act \<Rightarrow> 'q stack \<Rightarrow> (mac_error, 'q stack) result" where
  "mac_effect (ToPhy p) s = Inr (s\<lparr>ns_air := ns_air s @ [p]\<rparr>)"
| "mac_effect (SchedResume d) s =
     (if ns_pending s \<noteq> None then Inl ResumePending else Inr (s\<lparr>ns_pending := Some d\<rparr>))"
| "mac_effect (ToLL p d) s = Inr (s\<lparr>ns_up := ns_up s @ [p]\<rparr>)"
| "mac_effect (MacDrop p) s = Inr (s\<lparr>ns_lost := ns_lost s @ [p]\<rparr>)"
| "mac_effect (MacFree p) s = Inr (s\<lparr>ns_lost := ns_lost s @ [p]\<rparr>)"

fun mac_effects :: "mac_act list \<Rightarrow> 'q stack \<Rightarrow> (mac_error, 'q stack) result" where
  "mac_effects [] s = Inr s"
| "mac_effects (a # as) s = bind_res (mac_effect a s) (mac_effects as)"

definition stack_mac_recv :: "nat option \<Rightarrow> nat \<Rightarrow> 'q stack \<Rightarrow> (mac_error, 'q stack) result" where
  "stack_mac_recv h p s =
     (let (M, m) = mac_recv p h (ns_mem s, ns_mac s)
      in mac_effects (drop (length (mac_acts (ns_mac s))) (mac_acts m)) (s\<lparr>ns_mem := M, ns_mac := m\<rparr>))"

text \<open>The packets that the queue hands to its target, in order; \<open>qh\<close> is the queue's handler.\<close>

fun hand_down :: "nat \<Rightarrow> nat list \<Rightarrow> 'q stack \<Rightarrow> (mac_error, 'q stack) result" where
  "hand_down qh [] s = Inr s"
| "hand_down qh (p # ps) s = bind_res (stack_mac_recv (Some qh) p s) (hand_down qh ps)"

definition run_queue ::
  "nat \<Rightarrow> ('a queue_scheme \<Rightarrow> 'a queue_scheme) \<Rightarrow> 'a queue_scheme stack \<Rightarrow>
     (mac_error, 'a queue_scheme stack) result" where
  "run_queue qh g s =
     (let q = ns_queue s; q' = g q
      in hand_down qh (forwarded (drop (length (q_acts q)) (q_acts q'))) (s\<lparr>ns_queue := q'\<rparr>))"

text \<open>A packet from above, a frame from the radio interface, the resume event.\<close>

datatype stack_event = FromAbove real nat frame | FromBelow nat frame | ResumeEvent real

fun stack_step ::
  "(real \<Rightarrow> nat \<Rightarrow> 'a queue_scheme \<Rightarrow> 'a queue_scheme) \<Rightarrow> (real \<Rightarrow> 'a queue_scheme \<Rightarrow> 'a queue_scheme) \<Rightarrow>
   nat \<Rightarrow> stack_event \<Rightarrow> 'a queue_scheme stack \<Rightarrow> (mac_error, 'a queue_scheme stack) result" where
  "stack_step rcv res qh (FromAbove t p f) s = run_queue qh (rcv t p) (s\<lparr>ns_mem := (ns_mem s)(p := f)\<rparr>)"
| "stack_step rcv res qh (FromBelow p f) s = stack_mac_recv None p (s\<lparr>ns_mem := (ns_mem s)(p := f)\<rparr>)"
| "stack_step rcv res qh (ResumeEvent t) s =
     (if ns_pending s = None then Inr s
      else bind_res (mac_resume None (ns_mac s)) (\<lambda>(h, m).
             let s1 = s\<lparr>ns_pending := None, ns_mac := m\<rparr>
             in if h = qh then run_queue qh (res t) s1 else Inr s1))"

fun stack_run ::
  "(real \<Rightarrow> nat \<Rightarrow> 'a queue_scheme \<Rightarrow> 'a queue_scheme) \<Rightarrow> (real \<Rightarrow> 'a queue_scheme \<Rightarrow> 'a queue_scheme) \<Rightarrow>
   nat \<Rightarrow> stack_event list \<Rightarrow> 'a queue_scheme stack \<Rightarrow> (mac_error, 'a queue_scheme stack) result" where
  "stack_run rcv res qh [] s = Inr s"
| "stack_run rcv res qh (e # es) s = bind_res (stack_step rcv res qh e s) (stack_run rcv res qh es)"

definition stack_new :: "'q \<Rightarrow> mac \<Rightarrow> frames \<Rightarrow> 'q stack" where
  "stack_new q m M = \<lparr>ns_queue = q, ns_mac = m, ns_mem = M, ns_pending = None, ns_air = [],
     ns_up = [], ns_lost = []\<rparr>"

section \<open>The MAC is the link the queue expects\<close>

fun link_view :: "stack_event \<Rightarrow> link_event list" where
  "link_view (FromAbove t p f) = [Arrive t p]"
| "link_view (FromBelow p f) = []"
| "link_view (ResumeEvent t) = [LinkDone t]"

definition link_views :: "stack_event list \<Rightarrow> link_event list" where
  "link_views es = concat (List.map link_view es)"

fun event_addr :: "stack_event \<Rightarrow> nat list" where
  "event_addr (FromAbove t p f) = [p]"
| "event_addr (FromBelow p f) = [p]"
| "event_addr (ResumeEvent t) = []"

definition event_addrs :: "stack_event list \<Rightarrow> nat list" where
  "event_addrs es = concat (List.map event_addr es)"

text \<open>Packets come with the direction their sender gives them: up from the radio, else down.\<close>

fun directed :: "stack_event \<Rightarrow> bool" where
  "directed (FromAbove t p f) \<longleftrightarrow> ch_direction (cmn f) \<noteq> DIR_UP"
| "directed (FromBelow p f) \<longleftrightarrow> ch_direction (cmn f) = DIR_UP"
| "directed (ResumeEvent t) \<longleftrightarrow> True"

definition mac_accepts :: "mac \<Rightarrow> frame \<Rightarrow> bool" where
  "mac_accepts m f \<longleftrightarrow> mac_macDA (f_mac f) \<in> {MAC_BROADCAST, mac_index m}"

fun received :: "(frame \<Rightarrow> bool) \<Rightarrow> stack_event list \<Rightarrow> nat list" where
  "received P [] = []"
| "received P (FromBelow p f # es) = (if P f then p # received P es else received P es)"
| "received P (e # es) = received P es"

definition stamp :: "mac \<Rightarrow> frame \<Rightarrow> frame" where
  "stamp m f = f\<lparr>f_mac := hdr_mac_set MF_DATA (mac_index m) (-1) (f_mac f)\<rparr>"

lemma snoc_simps [simp]:
  "link_views [] = []" "link_views (es @ [e]) = link_views es @ link_view e"
  "event_addrs [] = []" "event_addrs (es @ [e]) = event_addrs es @ event_addr e"
  by (simp_all add: link_views_def event_addrs_def)

lemma received_append [simp]: "received P (es @ es') = received P es @ received P es'"
  by (induction P es rule: received.induct) auto

lemma bind_res_assoc: "bind_res (bind_res x f) g = bind_res x (\<lambda>y. bind_res (f y) g)"
  by (cases x) simp_all

lemma bind_res_Inr_right: "bind_res x Inr = x"
  by (cases x) simp_all

lemma stack_run_append:
  "stack_run rcv res qh (es @ es') s = bind_res (stack_run rcv res qh es s) (stack_run rcv res qh es')"
proof (induction es arbitrary: s)
  case (Cons e es)
  then have "stack_run rcv res qh (es @ es') = (\<lambda>y. bind_res (stack_run rcv res qh es y) (stack_run rcv res qh es'))"
    by (simp add: fun_eq_iff)
  then show ?case by (simp add: bind_res_assoc)
qed simp

lemma stack_run_snoc:
  "stack_run rcv res qh (es @ [e]) s = bind_res (stack_run rcv res qh es s) (stack_step rcv res qh e)"
proof -
  have n: "stack_run rcv res qh [] = Inr" by (simp add: fun_eq_iff)
  have "stack_run rcv res qh [e] = stack_step rcv res qh e"
    by (rule ext) (simp add: n bind_res_Inr_right)
  then show ?thesis by (simp add: stack_run_append)
qed

lemma arrivals_view: "set (arrivals (link_views es)) \<subseteq> set (event_addrs es)"
proof (induction es rule: rev_induct)
  case (snoc e es)
  then show ?case by (cases e) auto
qed simp

lemma distinct_views: "distinct (event_addrs es) \<Longrightarrow> distinct (arrivals (link_views es))"
proof (induction es rule: rev_induct)
  case (snoc e es)
  then show ?case using arrivals_view [of es] by (cases e) auto
qed simp

lemma above_addr: "FromAbove t p f \<in> set es \<Longrightarrow> p \<in> set (arrivals (link_views es)) \<and> p \<in> set (event_addrs es)"
proof (induction es rule: rev_induct)
  case (snoc e es)
  then show ?case by (cases e) auto
qed simp

lemma arrival_above: "p \<in> set (arrivals (link_views es)) \<Longrightarrow> \<exists>t f. FromAbove t p f \<in> set es"
proof (induction es rule: rev_induct)
  case (snoc e es)
  then show ?case by (cases e) auto
qed simp

section \<open>What the MAC guarantees in a run\<close>

definition same_mac :: "mac \<Rightarrow> mac \<Rightarrow> bool" where
  "same_mac m m' \<longleftrightarrow> mac_index m' = mac_index m \<and> mac_bandwidth m' = mac_bandwidth m
     \<and> mac_delay m' = mac_delay m \<and> \<not> mac_abstract m'"

definition mac_serves :: "nat \<Rightarrow> mac \<Rightarrow> stack_event list \<Rightarrow> 'q stack \<Rightarrow> bool" where
  "mac_serves qh m es s \<longleftrightarrow> same_mac m (ns_mac s)
     \<and> (\<forall>d. ns_pending s = Some d \<longrightarrow> mac_callback (ns_mac s) = Some qh \<and> ns_air s \<noteq> []
          \<and> d = mac_txtime (ns_mem s (last (ns_air s))) m)
     \<and> (\<forall>t p f. FromAbove t p f \<in> set es \<longrightarrow> ns_mem s p = (if p \<in> set (ns_air s) then stamp m f else f))
     \<and> set (ns_air s) \<subseteq> set (arrivals (link_views es))
     \<and> ns_up s = received (mac_accepts m) es \<and> ns_lost s = received (\<lambda>f. \<not> mac_accepts m f) es"

definition stack_held :: "'q stack \<Rightarrow> nat list" where
  "stack_held s = (if ns_pending s = None then [] else [last (ns_air s)])"

lemma same_mac_out [simp]: "same_mac m (mac_out as m') = same_mac m m'"
  by (simp add: same_mac_def mac_out_def)

lemma mac_out_simps [simp]:
  "mac_callback (mac_out as m) = mac_callback m" "mac_status (mac_out as m) = mac_status m"
  "mac_abstract (mac_out as m) = mac_abstract m" "mac_index (mac_out as m) = mac_index m"
  "mac_acts (mac_out as m) = mac_acts m @ as" "mac_bandwidth (mac_out as m) = mac_bandwidth m"
  by (simp_all add: mac_out_def)

lemma mac_txtime_same: "same_mac m m' \<Longrightarrow> mac_txtime f m' = mac_txtime f m"
  by (simp add: mac_txtime_def same_mac_def)

lemma mac_txtime_stamp [simp]: "mac_txtime (stamp m' f) m = mac_txtime f m"
  by (simp add: mac_txtime_def stamp_def)

text \<open>A frame sent down while no resume event is pending.\<close>

lemma stack_send:
  assumes "same_mac m (ns_mac s)" "ch_direction (cmn (ns_mem s p)) \<noteq> DIR_UP" "ns_pending s = None"
  shows "\<exists>s'. stack_mac_recv h p s = Inr s' \<and> same_mac m (ns_mac s') \<and> mac_callback (ns_mac s') = h
    \<and> ns_queue s' = ns_queue s \<and> ns_mem s' = (ns_mem s)(p := stamp m (ns_mem s p))
    \<and> ns_pending s' = Some (mac_txtime (ns_mem s p) m) \<and> ns_air s' = ns_air s @ [p]
    \<and> ns_up s' = ns_up s \<and> ns_lost s' = ns_lost s"
  using assms
  by (auto simp: stack_mac_recv_def mac_recv_def mac_sendDown_def Let_def mac_out_def same_mac_def
      stamp_def mac_txtime_def)

text \<open>A frame from below, filtered by its destination.\<close>

lemma stack_filter:
  assumes "same_mac m (ns_mac s)" "ch_direction (cmn (ns_mem s p)) = DIR_UP"
  shows "\<exists>s'. stack_mac_recv h p s = Inr s' \<and> same_mac m (ns_mac s')
    \<and> mac_callback (ns_mac s') = mac_callback (ns_mac s)
    \<and> ns_queue s' = ns_queue s \<and> ns_mem s' = ns_mem s \<and> ns_pending s' = ns_pending s \<and> ns_air s' = ns_air s
    \<and> ns_up s' = ns_up s @ (if mac_accepts m (ns_mem s p) then [p] else [])
    \<and> ns_lost s' = ns_lost s @ (if mac_accepts m (ns_mem s p) then [] else [p])"
  using assms
  by (auto simp: stack_mac_recv_def mac_recv_def mac_sendUp_def Let_def mac_out_def same_mac_def
      mac_accepts_def)

lemma run_queue_none:
  assumes "forwarded (drop (length (q_acts (ns_queue s))) (q_acts (g (ns_queue s)))) = []"
  shows "run_queue qh g s = Inr (s\<lparr>ns_queue := g (ns_queue s)\<rparr>)"
  using assms by (simp add: run_queue_def Let_def)

lemma run_queue_one:
  assumes "forwarded (drop (length (q_acts (ns_queue s))) (q_acts (g (ns_queue s)))) = [p]"
    and "same_mac m (ns_mac s)" "ch_direction (cmn (ns_mem s p)) \<noteq> DIR_UP" "ns_pending s = None"
  shows "\<exists>s'. run_queue qh g s = Inr s' \<and> same_mac m (ns_mac s') \<and> mac_callback (ns_mac s') = Some qh
    \<and> ns_queue s' = g (ns_queue s) \<and> ns_mem s' = (ns_mem s)(p := stamp m (ns_mem s p))
    \<and> ns_pending s' = Some (mac_txtime (ns_mem s p) m) \<and> ns_air s' = ns_air s @ [p]
    \<and> ns_up s' = ns_up s \<and> ns_lost s' = ns_lost s"
  using stack_send [of m "s\<lparr>ns_queue := g (ns_queue s)\<rparr>" p "Some qh"] assms
  by (auto simp: run_queue_def Let_def)

lemma stamp_stamp [simp]: "stamp m (stamp m f) = stamp m f" "cmn (stamp m f) = cmn f"
  by (simp_all add: stamp_def hdr_mac_set_def)

text \<open>The guarantee is kept by a new packet, by a transmission and by the end of one.\<close>

lemma serves_arrival:
  assumes "mac_serves qh m es s" "p \<notin> set (event_addrs es)"
  shows "mac_serves qh m (es @ [FromAbove t p f]) (s\<lparr>ns_mem := (ns_mem s)(p := f), ns_queue := q\<rparr>)"
proof -
  have "p \<notin> set (ns_air s)" using assms arrivals_view [of es] by (auto simp: mac_serves_def)
  moreover from this have "last (ns_air s) \<noteq> p" if "ns_air s \<noteq> []"
    using last_in_set [OF that] by auto
  moreover have "FromAbove u p g \<notin> set es" for u g using assms(2) above_addr by blast
  ultimately show ?thesis using assms(1) by (auto simp: mac_serves_def)
qed

lemma serves_send:
  assumes "mac_serves qh m es s" "p \<in> set (arrivals (link_views es))"
    and "same_mac m (ns_mac s')" "mac_callback (ns_mac s') = Some qh"
    and "ns_mem s' = (ns_mem s)(p := stamp m (ns_mem s p))"
    and "ns_pending s' = Some (mac_txtime (ns_mem s p) m)" "ns_air s' = ns_air s @ [p]"
    and "ns_up s' = ns_up s" "ns_lost s' = ns_lost s"
  shows "mac_serves qh m es s'"
  using assms unfolding mac_serves_def by auto

lemma serves_done:
  "mac_serves qh m es s \<Longrightarrow> same_mac m m' \<Longrightarrow>
   mac_serves qh m (es @ [ResumeEvent t]) (s\<lparr>ns_pending := None, ns_mac := m', ns_queue := q\<rparr>)"
  by (auto simp: mac_serves_def)

lemma serves_idle_resume:
  "mac_serves qh m es s \<Longrightarrow> mac_serves qh m (es @ [ResumeEvent t]) s"
  by (auto simp: mac_serves_def)

lemma serves_below:
  assumes "mac_serves qh m es s" "p \<notin> set (event_addrs es)"
    and "same_mac m (ns_mac s')" "mac_callback (ns_mac s') = mac_callback (ns_mac s)"
    and "ns_mem s' = (ns_mem s)(p := f)" "ns_pending s' = ns_pending s" "ns_air s' = ns_air s"
    and "ns_up s' = ns_up s @ (if mac_accepts m f then [p] else [])"
    and "ns_lost s' = ns_lost s @ (if mac_accepts m f then [] else [p])"
  shows "mac_serves qh m (es @ [FromBelow p f]) s'"
proof -
  have "p \<notin> set (ns_air s)" using assms(1,2) arrivals_view [of es] by (auto simp: mac_serves_def)
  moreover from this have "last (ns_air s) \<noteq> p" if "ns_air s \<noteq> []"
    using last_in_set [OF that] by auto
  moreover have "FromAbove u p g \<notin> set es" for u g using assms(2) above_addr by blast
  ultimately show ?thesis using assms unfolding mac_serves_def by (auto simp: simp del: same_mac_out)
qed

lemma serves_direction:
  assumes "mac_serves qh m es s" "p \<in> set (arrivals (link_views es))" "\<forall>e\<in>set es. directed e"
  shows "ch_direction (cmn (ns_mem s p)) \<noteq> DIR_UP"
proof -
  obtain t f where a: "FromAbove t p f \<in> set es" using arrival_above [OF assms(2)] by blast
  then have "ch_direction (cmn f) \<noteq> DIR_UP" using assms(3) by fastforce
  moreover have "ns_mem s p = f \<or> ns_mem s p = stamp m f" using assms(1) a by (auto simp: mac_serves_def)
  ultimately show ?thesis by auto
qed

definition stack_sim ::
  "headers \<Rightarrow> nat \<Rightarrow> mac \<Rightarrow> stack_event list \<Rightarrow> 'a queue_scheme stack \<Rightarrow> bool" where
  "stack_sim H qh m es s \<longleftrightarrow> mac_serves qh m es s \<and> ns_air s = forwarded (q_acts (ns_queue s))
     \<and> (\<exists>xs. link_inv H (arrivals (link_views es)) (ns_queue s, stack_held s) xs)"

lemma new_forwards:
  assumes "q_acts q' = q_acts q @ as"
  shows "forwarded (drop (length (q_acts q)) (q_acts q')) = forwarded as"
    "forwarded (q_acts q') = forwarded (q_acts q) @ forwarded as"
  using assms by simp_all

context link_server
begin

lemma stack_arrive:
  assumes sim: "stack_sim H qh m es s" and p: "p \<notin> set (event_addrs es)"
    and d: "\<forall>e\<in>set es. directed e" "directed (FromAbove t p f)"
  shows "\<exists>s'. stack_step rcv res qh (FromAbove t p f) s = Inr s' \<and> stack_sim H qh m (es @ [FromAbove t p f]) s'
    \<and> (ns_queue s', stack_held s') = link_step rcv res (ns_queue s, stack_held s) (Arrive t p)"
proof -
  let ?q = "ns_queue s" let ?es = "es @ [FromAbove t p f]"
  define s1 where "s1 = s\<lparr>ns_mem := (ns_mem s)(p := f)\<rparr>"
  obtain xs where inv: "link_inv H (arrivals (link_views es)) (?q, stack_held s) xs"
    and srv: "mac_serves qh m es s" and air: "ns_air s = forwarded (q_acts ?q)"
    using sim by (auto simp: stack_sim_def)
  have pa: "p \<notin> set (arrivals (link_views es))" using p arrivals_view [of es] by auto
  obtain ys where inv': "link_inv H (arrivals (link_views ?es)) (link_step rcv res (?q, stack_held s) (Arrive t p)) ys"
    using arrive_inv [OF inv pa] by auto
  have srv1: "mac_serves qh m ?es (s1\<lparr>ns_queue := q\<rparr>)" for q
    unfolding s1_def using serves_arrival [OF srv p] by simp
  have step: "stack_step rcv res qh (FromAbove t p f) s = run_queue qh (rcv t p) s1" by (simp add: s1_def)
  have q1: "ns_queue s1 = ?q" "ns_pending s1 = ns_pending s" "ns_air s1 = ns_air s"
    by (simp_all add: s1_def)
  consider (fwd) "ns_pending s = None" "q_acts (rcv t p ?q) = q_acts ?q @ [Forward p]"
    | (keep) ds where "q_acts (rcv t p ?q) = q_acts ?q @ List.map DropPkt ds"
  proof (cases "stack_held s = []")
    case True
    then have n: "ns_pending s = None" by (auto simp: stack_held_def split: if_splits)
    have "pq_repr H (pq ?q) []" "blocked ?q = 0" using inv True by (auto simp: link_inv_def)
    from rcv_idle [OF this, of t p] n that(1) that(2) [of "[p]"] show thesis by auto
  next
    case False
    then have "pq_repr H (pq ?q) xs" "blocked ?q = 1" using inv by (auto simp: link_inv_def)
    moreover have "p \<notin> set xs" using inv pa
      by (auto simp: link_inv_def) (metis UnI2 set_mset_mset set_mset_union)+
    ultimately show thesis using rcv_blocked that(2) by blast
  qed
  then show ?thesis
  proof cases
    case fwd
    let ?s = "s1\<lparr>ns_queue := rcv t p ?q\<rparr>"
    have f: "forwarded (drop (length (q_acts ?q)) (q_acts (rcv t p ?q))) = [p]"
      using new_forwards [OF fwd(2)] by simp
    have m: "same_mac m (ns_mac s1)" using srv by (simp add: mac_serves_def s1_def)
    have dir: "ch_direction (cmn (ns_mem s1 p)) \<noteq> DIR_UP" using d(2) by (simp add: s1_def)
    have pn: "ns_pending s1 = None" using fwd(1) by (simp add: s1_def)
    obtain s' where s': "run_queue qh (rcv t p) s1 = Inr s'" "same_mac m (ns_mac s')"
      "mac_callback (ns_mac s') = Some qh" "ns_queue s' = rcv t p ?q"
      "ns_mem s' = (ns_mem s1)(p := stamp m (ns_mem s1 p))"
      "ns_pending s' = Some (mac_txtime (ns_mem s1 p) m)" "ns_air s' = ns_air s1 @ [p]"
      "ns_up s' = ns_up s1" "ns_lost s' = ns_lost s1"
      using run_queue_one [of s1 "rcv t p" p m qh, unfolded q1(1), OF f m dir pn] by blast
    have "mac_serves qh m ?es s'"
      using serves_send [OF srv1 [of ?q], of p s'] s' by (simp add: s1_def)
    moreover have "ns_air s' = forwarded (q_acts (rcv t p ?q))" using s'(7) air q1 new_forwards [OF fwd(2)] by simp
    moreover have l: "(rcv t p ?q, stack_held s') = link_step rcv res (?q, stack_held s) (Arrive t p)"
      using s' fwd(1) f by (simp add: stack_held_def link_step_def)
    ultimately show ?thesis using s'(1,4) inv' step unfolding l [symmetric]
      by (auto simp: stack_sim_def)
  next
    case keep
    have f: "forwarded (drop (length (q_acts ?q)) (q_acts (rcv t p ?q))) = []"
      using new_forwards [OF keep] by simp
    let ?s = "s1\<lparr>ns_queue := rcv t p ?q\<rparr>"
    have r: "run_queue qh (rcv t p) s1 = Inr ?s"
      using run_queue_none [of s1 "rcv t p" qh] f q1 by simp
    have "ns_air ?s = forwarded (q_acts (rcv t p ?q))" using air q1 new_forwards [OF keep] by simp
    moreover have l: "(rcv t p ?q, stack_held ?s) = link_step rcv res (?q, stack_held s) (Arrive t p)"
      using f q1 by (simp add: stack_held_def link_step_def)
    ultimately show ?thesis using r inv' step srv1 unfolding l [symmetric]
      by (auto simp: stack_sim_def)
  qed
qed

lemma stack_resume:
  assumes sim: "stack_sim H qh m es s" and d: "\<forall>e\<in>set es. directed e"
  shows "\<exists>s'. stack_step rcv res qh (ResumeEvent t) s = Inr s' \<and> stack_sim H qh m (es @ [ResumeEvent t]) s'
    \<and> (ns_queue s', stack_held s') = link_step rcv res (ns_queue s, stack_held s) (LinkDone t)"
proof -
  let ?q = "ns_queue s" let ?es = "es @ [ResumeEvent t]"
  obtain xs where inv: "link_inv H (arrivals (link_views es)) (?q, stack_held s) xs"
    and srv: "mac_serves qh m es s" and air: "ns_air s = forwarded (q_acts ?q)"
    using sim by (auto simp: stack_sim_def)
  obtain ys where inv': "link_inv H (arrivals (link_views ?es)) (link_step rcv res (?q, stack_held s) (LinkDone t)) ys"
    using done_inv [OF inv, of t] by auto
  show ?thesis
  proof (cases "ns_pending s")
    case None
    then have "link_step rcv res (?q, stack_held s) (LinkDone t) = (?q, stack_held s)"
      by (simp add: link_step_def stack_held_def)
    then show ?thesis using None inv' serves_idle_resume [OF srv] air by (auto simp: stack_sim_def)
  next
    case (Some w)
    have cb: "mac_callback (ns_mac s) = Some qh" using srv Some by (simp add: mac_serves_def)
    define mm where "mm = (ns_mac s)\<lparr>mac_status := MAC_IDLE\<rparr>"
    define s1 where "s1 = s\<lparr>ns_pending := None, ns_mac := mm\<rparr>"
    have m: "same_mac m mm" using srv by (simp add: mac_serves_def mm_def same_mac_def)
    have step: "stack_step rcv res qh (ResumeEvent t) s = run_queue qh (res t) s1"
      using Some cb by (simp add: mac_resume_def mm_def s1_def)
    have held: "stack_held s \<noteq> []" using Some by (simp add: stack_held_def)
    have h1: "length (stack_held s) = 1" using Some by (simp add: stack_held_def)
    have srv1: "mac_serves qh m ?es (s1\<lparr>ns_queue := q\<rparr>)" for q
      unfolding s1_def using serves_done [OF srv m] by simp
    have q1: "ns_queue s1 = ?q" "ns_air s1 = ns_air s" "ns_pending s1 = None" by (simp_all add: s1_def)
    have r: "pq_repr H (pq ?q) xs" "unblock_on_resume ?q" using inv by (auto simp: link_inv_def)
    show ?thesis
    proof (cases xs)
      case Nil
      have a: "q_acts (res t ?q) = q_acts ?q @ []" using res_empty [of ?q t] r Nil by simp
      have f: "forwarded (drop (length (q_acts ?q)) (q_acts (res t ?q))) = []" using new_forwards [OF a] by simp
      let ?s = "s1\<lparr>ns_queue := res t ?q\<rparr>"
      have rq: "run_queue qh (res t) s1 = Inr ?s"
        using run_queue_none [of s1 "res t" qh] f q1 by simp
      have "ns_air ?s = forwarded (q_acts (res t ?q))" using air q1 new_forwards [OF a] by simp
      moreover have l: "(res t ?q, stack_held ?s) = link_step rcv res (?q, stack_held s) (LinkDone t)"
        using f q1 held h1 by (simp add: stack_held_def link_step_def)
      ultimately show ?thesis using rq inv' step srv1 unfolding l [symmetric]
        by (auto simp: stack_sim_def)
    next
      case (Cons x zs)
      have a: "q_acts (res t ?q) = q_acts ?q @ [Forward x]" using res_cons [of ?q x zs t] r Cons by simp
      have f: "forwarded (drop (length (q_acts ?q)) (q_acts (res t ?q))) = [x]" using new_forwards [OF a] by simp
      have "mset (arrivals (link_views es)) = mset (forwarded (q_acts ?q)) + mset (dropped (q_acts ?q)) + mset xs"
        using inv by (simp add: link_inv_def)
      from arg_cong [OF this, of set_mset] have x: "x \<in> set (arrivals (link_views es))" using Cons by simp
      have dir: "ch_direction (cmn (ns_mem s1 x)) \<noteq> DIR_UP"
        using serves_direction [OF srv x d] by (simp add: s1_def)
      have m1: "same_mac m (ns_mac s1)" using m by (simp add: s1_def)
      obtain s' where s': "run_queue qh (res t) s1 = Inr s'" "same_mac m (ns_mac s')"
        "mac_callback (ns_mac s') = Some qh" "ns_queue s' = res t ?q"
        "ns_mem s' = (ns_mem s1)(x := stamp m (ns_mem s1 x))"
        "ns_pending s' = Some (mac_txtime (ns_mem s1 x) m)" "ns_air s' = ns_air s1 @ [x]"
        "ns_up s' = ns_up s1" "ns_lost s' = ns_lost s1"
        using run_queue_one [of s1 "res t" x m qh, unfolded q1(1), OF f m1 dir q1(3)] by blast
      have "mac_serves qh m ?es s'"
        using serves_send [OF srv1 [of ?q], of x s'] s' x by (simp add: s1_def)
      moreover have "ns_air s' = forwarded (q_acts (res t ?q))" using s'(7) air q1 new_forwards [OF a] by simp
      moreover have l: "(res t ?q, stack_held s') = link_step rcv res (?q, stack_held s) (LinkDone t)"
        using s' f held h1 by (cases "stack_held s") (simp_all add: stack_held_def link_step_def)
      ultimately show ?thesis using s'(1,4) inv' step unfolding l [symmetric]
        by (auto simp: stack_sim_def)
    qed
  qed
qed

lemma stack_below:
  assumes sim: "stack_sim H qh m es s" and p: "p \<notin> set (event_addrs es)" and d: "directed (FromBelow p f)"
  shows "\<exists>s'. stack_step rcv res qh (FromBelow p f) s = Inr s' \<and> stack_sim H qh m (es @ [FromBelow p f]) s'
    \<and> (ns_queue s', stack_held s') = (ns_queue s, stack_held s)"
proof -
  have srv: "mac_serves qh m es s" using sim by (simp add: stack_sim_def)
  let ?s = "s\<lparr>ns_mem := (ns_mem s)(p := f)\<rparr>"
  have m: "same_mac m (ns_mac ?s)" "ch_direction (cmn (ns_mem ?s p)) = DIR_UP"
    using srv d by (simp_all add: mac_serves_def)
  obtain s' where s': "stack_mac_recv None p ?s = Inr s'" "same_mac m (ns_mac s')"
    "mac_callback (ns_mac s') = mac_callback (ns_mac s)" "ns_queue s' = ns_queue s"
    "ns_mem s' = (ns_mem s)(p := f)" "ns_pending s' = ns_pending s" "ns_air s' = ns_air s"
    "ns_up s' = ns_up s @ (if mac_accepts m f then [p] else [])"
    "ns_lost s' = ns_lost s @ (if mac_accepts m f then [] else [p])"
    using stack_filter [OF m, of None] by auto
  have "mac_serves qh m (es @ [FromBelow p f]) s'"
    using serves_below [OF srv p s'(2,3,5-9)] .
  moreover have "stack_held s' = stack_held s" using s' by (simp add: stack_held_def)
  ultimately show ?thesis using s' sim by (auto simp: stack_sim_def)
qed

lemma stack_refines:
  assumes "idle_queue H q" "\<not> mac_abstract m" "distinct (event_addrs es)" "\<forall>e\<in>set es. directed e"
  shows "\<exists>s. stack_run rcv res qh es (stack_new q m M) = Inr s \<and> stack_sim H qh m es s
    \<and> link_run rcv res (link_views es) q = (ns_queue s, stack_held s)"
  using assms(3,4)
proof (induction es rule: rev_induct)
  case Nil
  have "link_inv H [] (q, []) []"
    using assms(1) idle_repr [OF assms(1)] by (auto simp: link_inv_def idle_queue_def)
  then show ?case using assms(1,2)
    by (auto simp: stack_sim_def mac_serves_def stack_new_def stack_held_def same_mac_def idle_queue_def)
next
  case (snoc e es)
  then obtain s where s: "stack_run rcv res qh es (stack_new q m M) = Inr s" "stack_sim H qh m es s"
      "link_run rcv res (link_views es) q = (ns_queue s, stack_held s)" by auto
  have d: "\<forall>e\<in>set es. directed e" "directed e" using snoc.prems(2) by simp_all
  have n: "p \<notin> set (event_addrs es)" if "p \<in> set (event_addr e)" for p
    using snoc.prems(1) that by auto
  have "\<exists>s'. stack_step rcv res qh e s = Inr s' \<and> stack_sim H qh m (es @ [e]) s'
      \<and> (ns_queue s', stack_held s') = foldl (link_step rcv res) (ns_queue s, stack_held s) (link_view e)"
  proof (cases e)
    case (FromAbove t p f)
    then show ?thesis using stack_arrive [OF s(2) n d(1), of p t f] d(2) by simp
  next
    case (FromBelow p f)
    then show ?thesis using stack_below [OF s(2) n, of p f] d(2) by simp
  next
    case (ResumeEvent t)
    then show ?thesis using stack_resume [OF s(2) d(1), of t] by simp
  qed
  then show ?case using s by (auto simp: stack_run_snoc link_run_def)
qed

end

section \<open>Properties\<close>

text \<open>
  C6: With a PriQueue above it, the base MAC is the link that the contract of the queue
  assumes: any interleaving of packets from above, frames from below and resume events takes
  the queue through the run of that abstract link, which holds a packet exactly while the resume
  event is pending, for the transmission time of that packet. The event is never scheduled
  twice and the callback never null; every frame reaches the radio once, in the order of the
  queue, changed only in frame type and source address; of the frames from below exactly those
  for this address or for all go up.
\<close>

theorem mac_link_refinement:
  assumes "idle_queue H q" "\<not> mac_abstract m" "distinct (event_addrs es)" "\<forall>e\<in>set es. directed e"
  shows "\<exists>s. stack_run (pri_recv_step H) (droptail_resume H) qh es (stack_new q m M) = Inr s
    \<and> link_run (pri_recv_step H) (droptail_resume H) (link_views es) q
        = (ns_queue s, if ns_pending s = None then [] else [last (ns_air s)])
    \<and> ns_air s = forwarded (q_acts (ns_queue s))
    \<and> (\<forall>d. ns_pending s = Some d \<longrightarrow> d = mac_txtime (ns_mem s (last (ns_air s))) m)
    \<and> (\<forall>t p f. FromAbove t p f \<in> set es \<longrightarrow> ns_mem s p = (if p \<in> set (ns_air s)
          then f\<lparr>f_mac := (f_mac f)\<lparr>mac_ftype := MF_DATA, mac_macSA := mac_index m\<rparr>\<rparr> else f))
    \<and> ns_up s = received (mac_accepts m) es \<and> ns_lost s = received (\<lambda>f. \<not> mac_accepts m f) es"
proof -
  obtain s where "stack_run (pri_recv_step H) (droptail_resume H) qh es (stack_new q m M) = Inr s"
    "stack_sim H qh m es s"
    "link_run (pri_recv_step H) (droptail_resume H) (link_views es) q = (ns_queue s, stack_held s)"
    using pri.stack_refines [OF assms] by blast
  then show ?thesis
    by (auto simp: stack_sim_def mac_serves_def stack_held_def stamp_def hdr_mac_set_def)
qed

definition down_frame :: frame where
  "down_frame = set_cmn (\<lambda>h. h\<lparr>ch_direction := DIR_DOWN\<rparr>) frame_alloc"

definition up_frame :: "int \<Rightarrow> frame" where
  "up_frame d = mac_set_dst d (set_cmn (\<lambda>h. h\<lparr>ch_direction := DIR_UP\<rparr>) frame_alloc)"

definition demo_stack_events :: "stack_event list" where
  "demo_stack_events = [FromAbove 1 4 down_frame, FromBelow 6 (up_frame 3), FromAbove 2 5 down_frame,
     FromBelow 7 (up_frame 2), ResumeEvent 3]"

theorem mac_link_refinement_witness:
  "\<exists>s. stack_run (pri_recv_step demo_headers) (droptail_resume demo_headers) 9 demo_stack_events
        (stack_new demo_queue (mac_new 3 1000000 0 False) (\<lambda>_. down_frame)) = Inr s
     \<and> ns_up s = [6] \<and> ns_lost s = [7] \<and> ns_air s = forwarded (q_acts (ns_queue s))"
proof -
  have "\<not> mac_abstract (mac_new 3 1000000 0 False)" "distinct (event_addrs demo_stack_events)"
    "\<forall>e\<in>set demo_stack_events. directed e"
    by (simp_all add: mac_new_def demo_stack_events_def event_addrs_def down_frame_def up_frame_def
        set_cmn_def mac_set_dst_def)
  from mac_link_refinement [OF demo_queue_idle(1) this, of 9 "\<lambda>_. down_frame"]
  show ?thesis
    by (auto simp: demo_stack_events_def mac_accepts_def up_frame_def mac_set_dst_def set_cmn_def mac_new_def)
qed

text \<open>
  Without a queue that waits for the handler, the second packet during a transmission makes the
  simulation abort; a MAC of an abstract LAN never calls back.
\<close>

lemma overlapping_send_aborts:
  assumes "\<not> mac_abstract (ns_mac s)" "ch_direction (cmn (ns_mem s p)) \<noteq> DIR_UP" "ns_pending s \<noteq> None"
  shows "stack_mac_recv h p s = Inl ResumePending"
  using assms by (auto simp: stack_mac_recv_def mac_recv_def mac_sendDown_def Let_def mac_out_def)

lemma abstract_mac_silent:
  assumes "mac_abstract m" "mac_recv p h (M, m) = (M', m')"
  shows "\<exists>as. mac_acts m' = mac_acts m @ as \<and> (\<forall>d. SchedResume d \<notin> set as)"
  using assms by (auto simp: mac_recv_def mac_sendDown_def mac_sendUp_def Let_def mac_out_def split: if_splits)

text \<open>A frame from below ends the state of sending, whatever is being transmitted.\<close>

lemma reception_resets_state:
  "ch_direction (cmn (M p)) = DIR_UP \<Longrightarrow> mac_status (snd (mac_recv p h (M, m))) = MAC_IDLE"
  by (simp add: mac_recv_def mac_sendUp_def Let_def mac_out_def)

end
