(* ===== verification/Energy.thy ===== *)
theory Energy
  imports MachineFloat
begin

text \<open>
  The energy model of a node (\<open>mobile/energy-model.cc\<close>, \<open>mobile/energy-model.h\<close>): the
  energy counters, the list of neighbours heard recently, and the adaptive fidelity entity
  that puts the node to sleep and wakes it up. Energies are doubles; the times the source
  keeps as \<open>float\<close> are rounded to single precision when they are stored. The route
  computation that the source starts when the energy runs out is not modelled.
\<close>

section \<open>Energy counters\<close>

datatype node_state = WAITING | POWERSAVING | INROUTE | BadState int

text \<open>A neighbour is its identifier and its time to live.\<close>

record energy =
  en_energy :: real
  en_et :: real
  en_er :: real
  en_ei :: real
  en_es :: real
  en_initial :: real
  en_sleep :: int
  en_last_gosleep :: real
  en_total_sleeptime :: real
  en_neighbors :: "(nat \<times> int) list"
  en_neighbor_cnt :: int
  en_maxttl :: int
  en_state :: node_state
  en_state_start :: real
  en_max_inroute :: real
  en_adaptive :: bool

definition EnergyModel_new :: "real \<Rightarrow> node_state \<Rightarrow> energy" where
  "EnergyModel_new e st = \<lparr>en_energy = e, en_et = 0, en_er = 0, en_ei = 0, en_es = 0,
     en_initial = e, en_sleep = 0, en_last_gosleep = 0, en_total_sleeptime = 0,
     en_neighbors = [], en_neighbor_cnt = 0, en_maxttl = 5, en_state = st, en_state_start = 0,
     en_max_inroute = 300, en_adaptive = True\<rparr>"

definition spend :: "real \<Rightarrow> real \<Rightarrow> real" where
  "spend e d = (if e \<le> d then 0 else dsub e d)"

definition DecrTxEnergy :: "real \<Rightarrow> real \<Rightarrow> energy \<Rightarrow> energy" where
  "DecrTxEnergy t P e = (let d = dmul P t
     in e\<lparr>en_energy := spend (en_energy e) d, en_et := dadd (en_et e) d\<rparr>)"

definition DecrRcvEnergy :: "real \<Rightarrow> real \<Rightarrow> energy \<Rightarrow> energy" where
  "DecrRcvEnergy t P e = (let d = dmul P t
     in e\<lparr>en_energy := spend (en_energy e) d, en_er := dadd (en_er e) d\<rparr>)"

definition DecrIdleEnergy :: "real \<Rightarrow> real \<Rightarrow> energy \<Rightarrow> energy" where
  "DecrIdleEnergy t P e = (let d = dmul P t
     in e\<lparr>en_energy := spend (en_energy e) d, en_ei := dadd (en_ei e) d\<rparr>)"

definition DecrSleepEnergy :: "real \<Rightarrow> real \<Rightarrow> energy \<Rightarrow> energy" where
  "DecrSleepEnergy t P e = (let d = dmul P t
     in e\<lparr>en_energy := spend (en_energy e) d, en_es := dadd (en_es e) d\<rparr>)"

definition DecrTransitionEnergy :: "real \<Rightarrow> real \<Rightarrow> energy \<Rightarrow> energy" where
  "DecrTransitionEnergy t P e = e\<lparr>en_energy := spend (en_energy e) (dmul P t)\<rparr>"

section \<open>Neighbours\<close>

fun renew :: "nat \<Rightarrow> int \<Rightarrow> (nat \<times> int) list \<Rightarrow> (nat \<times> int) list option" where
  "renew i ttl [] = None"
| "renew i ttl ((j, t) # ns) =
     (if j = i then Some ((j, ttl) # ns) else map_option (\<lambda>ns'. (j, t) # ns') (renew i ttl ns))"

definition add_neighbor :: "nat \<Rightarrow> energy \<Rightarrow> energy" where
  "add_neighbor i e =
     (case renew i (en_maxttl e) (en_neighbors e) of
        Some ns \<Rightarrow> e\<lparr>en_neighbors := ns\<rparr>
      | None \<Rightarrow> e\<lparr>en_neighbors := (i, en_maxttl e) # en_neighbors e,
                  en_neighbor_cnt := en_neighbor_cnt e + 1\<rparr>)"

text \<open>The elements behind the first, with the count after them.\<close>

fun scan_rest :: "(nat \<times> int) list \<Rightarrow> int \<Rightarrow> (nat \<times> int) list \<times> int" where
  "scan_rest [] c = ([], c)"
| "scan_rest ((i, t) # ns) c =
     (if t - 1 \<le> 0 then scan_rest ns (c - 1)
      else (let (ns', c') = scan_rest ns c in ((i, t - 1) # ns', c')))"

text \<open>\<open>None\<close> is the use of the null head pointer of an empty list that is counted as non-empty.\<close>

definition scan_neighbor :: "energy \<Rightarrow> energy option" where
  "scan_neighbor e =
     (if en_neighbor_cnt e > 0 then
        (case en_neighbors e of
           [] \<Rightarrow> None
         | (i, t) # ns \<Rightarrow>
             (let (ns', c) = scan_rest ns (en_neighbor_cnt e)
              in Some (if t - 1 \<le> 0 then e\<lparr>en_neighbors := ns', en_neighbor_cnt := c - 1\<rparr>
                       else e\<lparr>en_neighbors := (i, t - 1) # ns', en_neighbor_cnt := c\<rparr>)))
      else Some e)"

section \<open>Sleeping\<close>

definition set_node_sleep :: "real \<Rightarrow> int \<Rightarrow> energy \<Rightarrow> energy" where
  "set_node_sleep clock status e =
     (if status \<noteq> 0 then e\<lparr>en_last_gosleep := to_float clock, en_sleep := status\<rparr>
      else if en_last_gosleep e \<noteq> 0
      then e\<lparr>en_sleep := status, en_last_gosleep := 0,
             en_total_sleeptime := to_float (dadd (en_total_sleeptime e) (dsub clock (en_last_gosleep e)))\<rparr>
      else e\<lparr>en_sleep := status\<rparr>)"

text \<open>\<open>None\<close> is the call of \<open>abort\<close> in a state that is none of the three.\<close>

definition set_node_state :: "real \<Rightarrow> node_state \<Rightarrow> energy \<Rightarrow> energy option" where
  "set_node_state clock st e =
     (case en_state e of
        POWERSAVING \<Rightarrow> Some (e\<lparr>en_state := st, en_state_start := to_float clock\<rparr>)
      | WAITING \<Rightarrow> Some (e\<lparr>en_state := st, en_state_start := to_float clock\<rparr>)
      | INROUTE \<Rightarrow> Some (if st = POWERSAVING then e\<lparr>en_state := st\<rparr>
                         else if st = INROUTE then e\<lparr>en_state_start := to_float clock\<rparr> else e)
      | BadState n \<Rightarrow> None)"

text \<open>The neighbour handler scans every \<open>CHECKFREQ\<close> seconds.\<close>

definition CHECKFREQ :: real where "CHECKFREQ = 1"

definition snh_handle :: "energy \<Rightarrow> (real \<times> energy) option" where
  "snh_handle e = map_option (\<lambda>e'. (CHECKFREQ, e')) (scan_neighbor e)"

record afe =
  af_sleep_time :: real
  af_sleep_seed :: real
  af_idle_time :: real

text \<open>The operations of the entity return the delay of the event they schedule.\<close>

definition afe_start :: "real \<Rightarrow> real \<Rightarrow> energy \<Rightarrow> real \<times> afe \<times> energy" where
  "afe_start clock draw e =
     (draw, \<lparr>af_sleep_time = 2, af_sleep_seed = 2, af_idle_time = 10\<rparr>, set_node_sleep clock 0 e)"

text \<open>Both handlers are started: the result has the two delays.\<close>

definition start_powersaving :: "real \<Rightarrow> real \<Rightarrow> energy \<Rightarrow> real \<times> real \<times> afe \<times> energy" where
  "start_powersaving clock draw e =
     (let (d, a, e') = afe_start clock draw e
      in (CHECKFREQ, d, a, e'\<lparr>en_state := POWERSAVING, en_state_start := to_float clock\<rparr>))"

text \<open>\<open>unif n\<close> is the draw \<open>Random::uniform(1, n)\<close>.\<close>

definition adapt_it :: "(int \<Rightarrow> real) \<Rightarrow> energy \<Rightarrow> afe \<Rightarrow> afe" where
  "adapt_it unif e a =
     (if en_adaptive e
      then let n = (if en_neighbor_cnt e = 0 then 1 else en_neighbor_cnt e)
           in a\<lparr>af_sleep_time := to_float (dmul (af_sleep_seed a) (unif n))\<rparr>
      else a)"

definition MAX_WAITING_TIME :: real where "MAX_WAITING_TIME = 11"

definition afe_expire :: "real \<Rightarrow> (int \<Rightarrow> real) \<Rightarrow> real \<Rightarrow> energy \<Rightarrow> afe \<Rightarrow> (real \<times> afe \<times> energy) option" where
  "afe_expire clock unif limit e a =
     (if dsub clock (en_state_start e) < limit then Some (af_idle_time a, a, e)
      else map_option (\<lambda>e1. let a' = adapt_it unif e1 a
                              in (af_sleep_time a', a', set_node_sleep clock 1 e1))
             (set_node_state clock POWERSAVING e))"

definition afe_handle :: "real \<Rightarrow> (int \<Rightarrow> real) \<Rightarrow> energy \<Rightarrow> afe \<Rightarrow> (real \<times> afe \<times> energy) option" where
  "afe_handle clock unif e a =
     (case en_state e of
        POWERSAVING \<Rightarrow>
          if en_sleep e \<noteq> 0
          then (let e' = set_node_sleep clock 0 e; a' = adapt_it unif e' a
                in Some (af_idle_time a', a', e'))
          else (let e' = set_node_sleep clock 1 e; a' = adapt_it unif e' a
                in Some (af_sleep_time a', a', e'))
      | INROUTE \<Rightarrow> afe_expire clock unif (en_max_inroute e) e a
      | WAITING \<Rightarrow> afe_expire clock unif MAX_WAITING_TIME e a
      | BadState n \<Rightarrow> None)"

section \<open>Spending energy\<close>

text \<open>A stored energy is a double; spending a non-negative amount keeps it one, below the old value.\<close>

definition charge_ok :: "energy \<Rightarrow> bool" where
  "charge_ok e \<longleftrightarrow> 0 \<le> en_energy e \<and> en_energy e \<le> en_initial e \<and> to_double (en_energy e) = en_energy e"

lemma dmul_nonneg: "0 \<le> x \<Longrightarrow> 0 \<le> y \<Longrightarrow> 0 \<le> dmul x y"
  by (simp add: dmul_def to_double_nonneg)

lemma spend_ok:
  assumes "0 \<le> e" "to_double e = e" "0 \<le> d"
  shows "0 \<le> spend e d" "spend e d \<le> e" "to_double (spend e d) = spend e d"
  using assms to_double_mono [of "e - d" e] by (auto simp: spend_def dsub_def to_double_nonneg)

lemma spend_0 [simp]: "0 \<le> d \<Longrightarrow> spend 0 d = 0"
  by (simp add: spend_def)

text \<open>What every charge does: the charge stays well formed, never grows, and an empty one stays empty.\<close>

definition charged :: "energy \<Rightarrow> energy \<Rightarrow> bool" where
  "charged e e' \<longleftrightarrow> charge_ok e' \<and> en_energy e' \<le> en_energy e \<and> en_initial e' = en_initial e"

lemma charged_refl: "charge_ok e \<Longrightarrow> charged e e"
  by (simp add: charged_def)

lemma charged_trans: "charged a b \<Longrightarrow> charged b c \<Longrightarrow> charged a c"
  by (auto simp: charged_def)

lemma charged_empty: "charged e e' \<Longrightarrow> en_energy e = 0 \<Longrightarrow> en_energy e' = 0"
  by (auto simp: charged_def charge_ok_def)

lemma charged_spend:
  assumes "charge_ok e" "0 \<le> d" "en_energy e' = spend (en_energy e) d" "en_initial e' = en_initial e"
  shows "charged e e'"
  using spend_ok [of "en_energy e" d] assms by (auto simp: charged_def charge_ok_def)

lemma Decr_charged:
  assumes "charge_ok e" "0 \<le> t" "0 \<le> P"
  shows "charged e (DecrTxEnergy t P e)" "charged e (DecrRcvEnergy t P e)"
    "charged e (DecrIdleEnergy t P e)" "charged e (DecrSleepEnergy t P e)"
    "charged e (DecrTransitionEnergy t P e)"
  by (rule charged_spend [OF assms(1) dmul_nonneg [OF assms(3,2)]],
      simp_all add: DecrTxEnergy_def DecrRcvEnergy_def DecrIdleEnergy_def DecrSleepEnergy_def
        DecrTransitionEnergy_def Let_def)+

lemma charged_setenergy: "charge_ok e \<Longrightarrow> charged e (e\<lparr>en_energy := 0\<rparr>)"
  by (simp add: charged_def charge_ok_def)

section \<open>Neighbours as a table\<close>

definition neighbors_ok :: "energy \<Rightarrow> bool" where
  "neighbors_ok e \<longleftrightarrow> en_neighbor_cnt e = int (length (en_neighbors e))
     \<and> distinct (map fst (en_neighbors e)) \<and> (\<forall>(i, t)\<in>set (en_neighbors e). 0 < t)"

definition aged :: "int \<Rightarrow> (nat \<times> int) list \<Rightarrow> (nat \<times> int) list" where
  "aged k ns = map (\<lambda>(i, t). (i, t - k)) (filter (\<lambda>(i, t). k < t) ns)"

lemma aged_simps [simp]:
  "aged k [] = []"
  "aged k ((i, t) # ns) = (if k < t then (i, t - k) # aged k ns else aged k ns)"
  by (simp_all add: aged_def)

lemma aged_aged: "0 \<le> k \<Longrightarrow> 0 \<le> l \<Longrightarrow> aged l (aged k ns) = aged (k + l) ns"
  by (induction ns) auto

lemma aged_0: "\<forall>(i, t)\<in>set ns. 0 < t \<Longrightarrow> aged 0 ns = ns"
  by (induction ns) auto

lemma length_aged_le: "length (aged k ns) \<le> length ns"
  by (induction ns) auto

lemma scan_rest_eq:
  "scan_rest ns c = (aged 1 ns, c - int (length ns) + int (length (aged 1 ns)))"
  by (induction ns arbitrary: c) auto

lemma neighbors_ok_aged:
  "neighbors_ok e \<Longrightarrow> neighbors_ok (e\<lparr>en_neighbors := aged k (en_neighbors e),
     en_neighbor_cnt := int (length (aged k (en_neighbors e)))\<rparr>)"
proof -
  assume "neighbors_ok e"
  then have "distinct (map fst (aged k (en_neighbors e)))"
    by (auto simp: neighbors_ok_def aged_def comp_def case_prod_beta distinct_map_filter)
  moreover have "\<forall>(i, t)\<in>set (aged k (en_neighbors e)). 0 < t" by (auto simp: aged_def)
  ultimately show ?thesis by (simp add: neighbors_ok_def)
qed

lemma scan_neighbor_eq:
  assumes "neighbors_ok e"
  shows "scan_neighbor e = Some (e\<lparr>en_neighbors := aged 1 (en_neighbors e),
     en_neighbor_cnt := int (length (aged 1 (en_neighbors e)))\<rparr>)"
proof (cases "en_neighbors e")
  case Nil
  then show ?thesis using assms by (simp add: scan_neighbor_def neighbors_ok_def)
next
  case (Cons p ns)
  then show ?thesis using assms
    by (cases p) (auto simp: scan_neighbor_def neighbors_ok_def scan_rest_eq)
qed

lemma renew_eq:
  "renew i T ns = (if i \<in> fst ` set ns
     then Some (map (\<lambda>(j, t). if j = i then (j, T) else (j, t)) ns) else None)"
  if "distinct (map fst ns)"
  using that
proof (induction ns)
  case (Cons p ns)
  obtain j t where p: "p = (j, t)" by force
  have "map (\<lambda>(j, t). if j = i then (j, T) else (j, t)) ns = ns" if "i \<notin> fst ` set ns"
    using that by (intro map_idI) (force simp: image_iff)
  with Cons p show ?case by auto
qed simp

lemma add_neighbor_ok:
  assumes "neighbors_ok e" "0 < en_maxttl e"
  shows "neighbors_ok (add_neighbor i e)" "map_of (en_neighbors (add_neighbor i e))
    = (map_of (en_neighbors e))(i \<mapsto> en_maxttl e)"
    "en_maxttl (add_neighbor i e) = en_maxttl e"
proof -
  let ?T = "en_maxttl e" let ?f = "\<lambda>(j, t). if j = i then (j, ?T) else (j, t)"
  have d: "distinct (map fst (en_neighbors e))" using assms(1) by (simp add: neighbors_ok_def)
  have f: "map fst (map ?f ns) = map fst ns" for ns by (induction ns) auto
  have m: "map_of (map ?f ns) = (if i \<in> fst ` set ns then (map_of ns)(i \<mapsto> ?T) else map_of ns)" for ns
    by (induction ns) (auto simp: fun_eq_iff)
  have p: "\<forall>(j, t)\<in>set (map ?f (en_neighbors e)). 0 < t"
    using assms by (auto simp: neighbors_ok_def split: if_splits)
  note r = renew_eq [OF d, of i ?T]
  show "neighbors_ok (add_neighbor i e)"
    using assms d p r f by (auto simp: add_neighbor_def neighbors_ok_def simp del: map_map)
  show "map_of (en_neighbors (add_neighbor i e)) = (map_of (en_neighbors e))(i \<mapsto> ?T)"
    using r m by (auto simp: add_neighbor_def)
  show "en_maxttl (add_neighbor i e) = en_maxttl e"
    by (simp add: add_neighbor_def split: option.splits)
qed

lemma map_of_aged:
  "distinct (map fst ns) \<Longrightarrow> map_of (aged k ns) i
     = (case map_of ns i of None \<Rightarrow> None | Some t \<Rightarrow> if k < t then Some (t - k) else None)"
proof (induction ns)
  case (Cons p ns)
  obtain j t where p: "p = (j, t)" by force
  have "map_of ns j = None" using Cons.prems p by (simp add: map_of_eq_None_iff)
  with Cons p show ?case by auto
qed simp

text \<open>The handler's calls, one after the other.\<close>

fun scans :: "nat \<Rightarrow> energy \<Rightarrow> energy option" where
  "scans 0 e = Some e"
| "scans (Suc k) e = Option.bind (snh_handle e) (\<lambda>(d, e'). scans k e')"

lemma scans_eq:
  "neighbors_ok e \<Longrightarrow> scans k e = Some (e\<lparr>en_neighbors := aged (int k) (en_neighbors e),
     en_neighbor_cnt := int (length (aged (int k) (en_neighbors e)))\<rparr>)"
proof (induction k arbitrary: e)
  case 0
  then have "aged 0 (en_neighbors e) = en_neighbors e" by (intro aged_0) (simp add: neighbors_ok_def)
  with 0 show ?case by (simp add: neighbors_ok_def)
next
  case (Suc k)
  show ?case
    using Suc.IH [OF neighbors_ok_aged [OF Suc.prems, of 1]] scan_neighbor_eq [OF Suc.prems]
    by (simp add: snh_handle_def aged_aged)
qed


text \<open>
  A neighbour is known for exactly \<open>maxttl_\<close> scans after it was last heard, and hearing
  it changes the time to live of no other; no scan touches a null pointer.
\<close>

theorem neighbour_expiry:
  assumes "neighbors_ok e" "0 < en_maxttl e"
  shows "\<exists>e'. scans k (add_neighbor i e) = Some e' \<and> neighbors_ok e'
    \<and> (i \<in> fst ` set (en_neighbors e') \<longleftrightarrow> int k < en_maxttl e)
    \<and> (\<forall>j. j \<noteq> i \<longrightarrow> map_of (en_neighbors e') j =
          (case map_of (en_neighbors e) j of None \<Rightarrow> None
           | Some t \<Rightarrow> if int k < t then Some (t - int k) else None))"
proof -
  note a = add_neighbor_ok [OF assms, of i]
  let ?n = "en_neighbors (add_neighbor i e)"
  have d: "distinct (map fst ?n)" using a(1) by (simp add: neighbors_ok_def)
  have m: "map_of (aged (int k) ?n) i \<noteq> None \<longleftrightarrow> int k < en_maxttl e"
    using map_of_aged [OF d, of "int k" i] a(2) by simp
  moreover have "map_of (aged (int k) ?n) j = (case map_of (en_neighbors e) j of None \<Rightarrow> None
           | Some t \<Rightarrow> if int k < t then Some (t - int k) else None)" if "j \<noteq> i" for j
    using map_of_aged [OF d, of "int k" j] a(2) that by simp
  ultimately show ?thesis
    using scans_eq [OF a(1), of k] neighbors_ok_aged [OF a(1), of "int k"]
    by (auto simp: map_of_eq_None_iff)
qed

theorem neighbour_expiry_witness:
  "\<exists>e' e''. scans 4 (add_neighbor 7 (EnergyModel_new 1 WAITING)) = Some e'
    \<and> 7 \<in> fst ` set (en_neighbors e')
    \<and> scans 5 (add_neighbor 7 (EnergyModel_new 1 WAITING)) = Some e''
    \<and> 7 \<notin> fst ` set (en_neighbors e'')"
  using neighbour_expiry [of "EnergyModel_new 1 WAITING" 4 7]
    neighbour_expiry [of "EnergyModel_new 1 WAITING" 5 7]
  by (auto simp: neighbors_ok_def EnergyModel_new_def)

section \<open>The adaptive fidelity entity\<close>

definition afe_ok :: "energy \<Rightarrow> afe \<Rightarrow> bool" where
  "afe_ok e a \<longleftrightarrow> en_state e \<in> {WAITING, POWERSAVING, INROUTE} \<and> en_sleep e \<in> {0, 1}
     \<and> neighbors_ok e \<and> 0 \<le> af_sleep_time a \<and> af_sleep_seed a = 2 \<and> af_idle_time a = 10"

lemma to_float_nonneg: "0 \<le> x \<Longrightarrow> 0 \<le> to_float x"
  by (simp add: to_float_def fl_round_nonneg)

text \<open>
  In the power saving state the entity alternates between a sleep of the current sleep time
  and 10 seconds awake; in the other two it waits in steps of 10 seconds until the state has
  lasted its limit and then enters the power saving state asleep. It never aborts and never
  schedules into the past.
\<close>

theorem afe_alternates:
  assumes "afe_ok e a" "\<forall>n. 0 \<le> unif n"
  shows "\<exists>d a' e'. afe_handle clock unif e a = Some (d, a', e') \<and> afe_ok e' a' \<and> 0 \<le> d
    \<and> (if en_state e = POWERSAVING
       then en_state e' = POWERSAVING \<and> en_sleep e' = 1 - en_sleep e
         \<and> d = (if en_sleep e' = 0 then 10 else af_sleep_time a')
       else if dsub clock (en_state_start e)
               < (if en_state e = WAITING then MAX_WAITING_TIME else en_max_inroute e)
       then e' = e \<and> a' = a \<and> d = 10
       else en_state e' = POWERSAVING \<and> en_sleep e' = 1 \<and> d = af_sleep_time a')"
proof -
  have ad: "af_sleep_seed (adapt_it unif x a) = 2" "af_idle_time (adapt_it unif x a) = 10"
    "0 \<le> af_sleep_time (adapt_it unif x a)" for x
    using assms by (auto simp: adapt_it_def afe_ok_def Let_def intro!: to_float_nonneg dmul_nonneg)
  have sl: "en_state (set_node_sleep clock b x) = en_state x" "en_sleep (set_node_sleep clock b x) = b"
    "neighbors_ok (set_node_sleep clock b x) = neighbors_ok x" for b x
    by (auto simp: set_node_sleep_def neighbors_ok_def)
  have st: "set_node_state clock POWERSAVING e = Some x \<Longrightarrow>
      en_state x = POWERSAVING \<and> en_sleep x = en_sleep e \<and> neighbors_ok x = neighbors_ok e" for x
    by (auto simp: set_node_state_def neighbors_ok_def split: node_state.splits)
  have ex: "\<exists>x. set_node_state clock POWERSAVING e = Some x" if "en_state e \<in> {WAITING, INROUTE}"
    using that by (auto simp: set_node_state_def)
  consider "en_state e = POWERSAVING" | "en_state e \<in> {WAITING, INROUTE}"
    using assms(1) by (auto simp: afe_ok_def)
  then show ?thesis
  proof cases
    case 1
    then show ?thesis using assms(1) ad sl by (auto simp: afe_handle_def afe_ok_def Let_def)
  next
    case 2
    then obtain x where x: "set_node_state clock POWERSAVING e = Some x" using ex by blast
    let ?l = "if en_state e = WAITING then MAX_WAITING_TIME else en_max_inroute e"
    have h: "afe_handle clock unif e a = afe_expire clock unif ?l e a" "en_state e \<noteq> POWERSAVING"
      using 2 by (auto simp: afe_handle_def)
    show ?thesis
    proof (cases "dsub clock (en_state_start e) < ?l")
      case True
      then have "afe_handle clock unif e a = Some (10, a, e)"
        unfolding h(1) using assms(1) by (simp add: afe_expire_def afe_ok_def)
      then show ?thesis using True h(2) assms(1) by simp
    next
      case False
      let ?a = "adapt_it unif x a" let ?e = "set_node_sleep clock 1 x"
      have "afe_handle clock unif e a = Some (af_sleep_time ?a, ?a, ?e)"
        unfolding h(1) using False x by (simp add: afe_expire_def Let_def)
      moreover have "afe_ok ?e ?a" using assms(1) ad sl st [OF x] by (simp add: afe_ok_def)
      ultimately show ?thesis using False h(2) ad(3) sl st [OF x] by simp
    qed
  qed
qed

theorem afe_alternates_witness:
  "\<exists>d a' e'. afe_handle 1 (\<lambda>_. 1) (EnergyModel_new 1 POWERSAVING)
      \<lparr>af_sleep_time = 2, af_sleep_seed = 2, af_idle_time = 10\<rparr> = Some (d, a', e') \<and> en_sleep e' = 1"
proof -
  have "afe_ok (EnergyModel_new 1 POWERSAVING) \<lparr>af_sleep_time = 2, af_sleep_seed = 2, af_idle_time = 10\<rparr>"
    by (simp add: afe_ok_def EnergyModel_new_def neighbors_ok_def)
  from afe_alternates [OF this, of "\<lambda>_. 1" 1] show ?thesis
    by (auto simp: EnergyModel_new_def)
qed

end
