(* ===== verification/WirelessPhy.thy ===== *)
theory WirelessPhy
  imports Energy
begin

text \<open>
  The wireless interface (\<open>mac/wireless-phy.cc\<close>): whether a packet is transmitted or
  received, and the energy that is charged for it. The received power is an argument: the
  value of the propagation model. The node may have no energy model (\<open>None\<close>). \<open>initialized()\<close>
  is assumed, so there is a propagation model; a modulation scheme is optional.
\<close>

section \<open>State\<close>

datatype channel_status = SLEEP | IDLE | RECV | SEND

record wphy =
  wp_status :: channel_status
  wp_node_on :: bool
  channel_idle_time :: real
  update_energy_time :: real
  last_send_time :: real
  Pt_consume :: real
  Pr_consume :: real
  P_idle :: real
  P_sleep :: real
  P_transition :: real
  T_transition :: real
  CSThresh :: real
  RXThresh :: real
  wp_em :: "energy option"

definition WirelessPhy_new :: "real \<Rightarrow> real \<Rightarrow> real \<Rightarrow> energy option \<Rightarrow> wphy" where
  "WirelessPhy_new now cs rx em = \<lparr>wp_status = IDLE, wp_node_on = True, channel_idle_time = now,
     update_energy_time = now, last_send_time = now, Pt_consume = to_double (660/1000),
     Pr_consume = to_double (395/1000),
     P_idle = 0, P_sleep = 0, P_transition = 0, T_transition = 0, CSThresh = cs, RXThresh = rx,
     wp_em = em\<rparr>"

section \<open>Operations\<close>

text \<open>The start of a charge: idle energy up to \<open>start\<close>, if the account is behind.\<close>

definition charge_idle_until :: "real \<Rightarrow> energy \<Rightarrow> wphy \<Rightarrow> energy \<times> wphy" where
  "charge_idle_until start e s =
     (if update_energy_time s < start
      then (DecrIdleEnergy (dsub start (update_energy_time s)) (P_idle s) e,
            s\<lparr>update_energy_time := start\<rparr>)
      else (e, s))"

definition gap_adjust :: "real \<Rightarrow> real \<Rightarrow> wphy \<Rightarrow> energy \<Rightarrow> energy" where
  "gap_adjust now txtime s e =
     (let temp = max now (last_send_time s);
          begin_adjust = min (channel_idle_time s) temp;
          finish_adjust = min (channel_idle_time s) (dadd now txtime);
          gap = dsub finish_adjust begin_adjust
      in if 0 < gap \<and> wp_status s = RECV
         then DecrTxEnergy gap (dsub (Pt_consume s) (Pr_consume s)) e else e)"

definition empty_if_spent :: "energy \<Rightarrow> energy" where
  "empty_if_spent e = (if en_energy e \<le> 0 then e\<lparr>en_energy := 0\<rparr> else e)"

definition phy_transmit :: "real \<Rightarrow> real \<Rightarrow> energy \<Rightarrow> wphy \<Rightarrow> wphy" where
  "phy_transmit now txtime e s =
     (let start_time = max (channel_idle_time s) now;
          end_time = max (channel_idle_time s) (dadd now txtime);
          actual = dsub end_time start_time;
          (e1, s1) = charge_idle_until start_time e s;
          e2 = DecrTxEnergy actual (Pt_consume s) (gap_adjust now txtime s e1)
      in s1\<lparr>wp_status := IDLE, last_send_time := dadd now txtime,
           channel_idle_time := end_time, update_energy_time := end_time,
           wp_em := Some (empty_if_spent e2)\<rparr>)"

text \<open>The result tells whether the packet goes to the channel or is freed.\<close>

definition phy_sendDown :: "real \<Rightarrow> real \<Rightarrow> wphy \<Rightarrow> bool \<times> wphy" where
  "phy_sendDown now txtime s =
     (case wp_em s of
        None \<Rightarrow> (True, s)
      | Some e \<Rightarrow>
          if \<not> wp_node_on s then (False, s)
          else let s1 = (if wp_status s = SLEEP
                         then s\<lparr>wp_em := Some (DecrSleepEnergy (dsub now (update_energy_time s)) (P_sleep s) e),
                                update_energy_time := now\<rparr>
                         else s);
                   e1 = the (wp_em s1)
               in if 0 < en_energy e1 then (True, phy_transmit now txtime e1 s1) else (False, s1))"

text \<open>\<open>pkt_recvd\<close> and the error flag of the packet after the checks.\<close>

definition phy_detect :: "real \<Rightarrow> (real \<Rightarrow> int) option \<Rightarrow> int \<Rightarrow> wphy \<Rightarrow> bool \<times> int" where
  "phy_detect Pr modulation err s =
     (if (case wp_em s of None \<Rightarrow> False
          | Some e \<Rightarrow> \<not> wp_node_on s \<or> wp_status s = SLEEP \<or> en_energy e \<le> 0)
      then (False, err)
      else if Pr < CSThresh s then (False, err)
      else let err1 = (if Pr < RXThresh s then 1 else err)
           in (True, case modulation of None \<Rightarrow> err1 | Some bit_error \<Rightarrow> bit_error Pr))"

definition phy_receive :: "real \<Rightarrow> real \<Rightarrow> energy \<Rightarrow> wphy \<Rightarrow> wphy" where
  "phy_receive now rcvtime e s =
     (let start_time = max (channel_idle_time s) now;
          end_time = max (channel_idle_time s) (dadd now rcvtime);
          actual = dsub end_time start_time;
          (e1, s1) = charge_idle_until start_time e s
      in s1\<lparr>wp_status := IDLE, channel_idle_time := end_time, update_energy_time := end_time,
           wp_em := Some (empty_if_spent (DecrRcvEnergy actual (Pr_consume s) e1))\<rparr>)"

definition phy_sendUp ::
    "real \<Rightarrow> real \<Rightarrow> real \<Rightarrow> (real \<Rightarrow> int) option \<Rightarrow> int \<Rightarrow> wphy \<Rightarrow> bool \<times> int \<times> wphy" where
  "phy_sendUp now rcvtime Pr modulation err s =
     (let (recvd, err') = phy_detect Pr modulation err s
      in (recvd, err', if recvd then (case wp_em s of None \<Rightarrow> s | Some e \<Rightarrow> phy_receive now rcvtime e s)
                       else s))"

definition phy_node_on :: "real \<Rightarrow> wphy \<Rightarrow> wphy" where
  "phy_node_on now s =
     (let s1 = s\<lparr>wp_node_on := True, wp_status := IDLE\<rparr>
      in if wp_em s \<noteq> None \<and> update_energy_time s < now then s1\<lparr>update_energy_time := now\<rparr> else s1)"

definition phy_node_off :: "real \<Rightarrow> wphy \<Rightarrow> wphy" where
  "phy_node_off now s =
     (let s1 = s\<lparr>wp_node_on := False, wp_status := SLEEP\<rparr>
      in case wp_em s of None \<Rightarrow> s1
         | Some e \<Rightarrow> (let (e', s2) = charge_idle_until now e s1 in s2\<lparr>wp_em := Some e'\<rparr>))"

definition phy_node_wakeup :: "real \<Rightarrow> wphy \<Rightarrow> wphy" where
  "phy_node_wakeup now s =
     (if wp_status s = IDLE then s
      else case wp_em s of None \<Rightarrow> s
      | Some e \<Rightarrow>
          if update_energy_time s < now \<and> wp_status s = SLEEP
          then s\<lparr>wp_em := Some (DecrSleepEnergy (dsub now (update_energy_time s)) (P_sleep s)
                                (DecrTransitionEnergy (T_transition s) (P_transition s) e)),
                 wp_status := IDLE, update_energy_time := now\<rparr>
          else s)"

definition phy_node_sleep :: "real \<Rightarrow> wphy \<Rightarrow> wphy" where
  "phy_node_sleep now s =
     (if wp_status s = SLEEP then s
      else case wp_em s of None \<Rightarrow> s
      | Some e \<Rightarrow>
          if update_energy_time s < now \<and> wp_status s = IDLE
          then s\<lparr>wp_em := Some (DecrIdleEnergy (dsub now (update_energy_time s)) (P_idle s)
                                (DecrTransitionEnergy (T_transition s) (P_transition s) e)),
                 wp_status := SLEEP, update_energy_time := now\<rparr>
          else s)"

definition UpdateIdleEnergy :: "real \<Rightarrow> wphy \<Rightarrow> wphy" where
  "UpdateIdleEnergy now s =
     (case wp_em s of None \<Rightarrow> s
      | Some e \<Rightarrow> if update_energy_time s < now \<and> wp_node_on s \<and> wp_status s = IDLE
                  then s\<lparr>wp_em := Some (DecrIdleEnergy (dsub now (update_energy_time s)) (P_idle s) e),
                         update_energy_time := now\<rparr>
                  else s)"

text \<open>
  \<open>UpdateSleepEnergy\<close> keeps the last sleep mode it saw in a static variable of the function:
  one for all interfaces, set when the function first gets there. The result also tells
  whether the sleep timer is set again.
\<close>

definition UpdateSleepEnergy :: "real \<Rightarrow> int option \<Rightarrow> wphy \<Rightarrow> bool \<times> int option \<times> wphy" where
  "UpdateSleepEnergy now st s =
     (case wp_em s of None \<Rightarrow> (False, st, s)
      | Some e \<Rightarrow>
          let s1 = (if update_energy_time s < now \<and> wp_node_on s \<and> wp_status s = SLEEP
                    then s\<lparr>wp_em := Some (DecrSleepEnergy (dsub now (update_energy_time s)) (P_sleep s) e),
                           update_energy_time := now\<rparr>
                    else s);
              v = (case st of None \<Rightarrow> en_sleep e | Some x \<Rightarrow> x)
          in if en_sleep e \<noteq> v
             then (True, Some (en_sleep e),
                   if en_sleep e = 1 then phy_node_sleep now s1 else phy_node_wakeup now s1)
             else (True, Some v, s1))"

section \<open>Runs of an interface\<close>

datatype phy_op =
    PhySendDown real
  | PhySendUp real real "(real \<Rightarrow> int) option" int
  | PhyOn
  | PhyOff
  | PhyWakeup
  | PhySleep
  | PhyUpdateIdle
  | PhyUpdateSleep "int option"

text \<open>The flag tells whether a packet went through, to the channel or up to the MAC.\<close>

fun phy_step :: "real \<Rightarrow> phy_op \<Rightarrow> wphy \<Rightarrow> bool \<times> wphy" where
  "phy_step now (PhySendDown txtime) s = phy_sendDown now txtime s"
| "phy_step now (PhySendUp rcvtime Pr m err) s =
     (let (b, err', s') = phy_sendUp now rcvtime Pr m err s in (b, s'))"
| "phy_step now PhyOn s = (False, phy_node_on now s)"
| "phy_step now PhyOff s = (False, phy_node_off now s)"
| "phy_step now PhyWakeup s = (False, phy_node_wakeup now s)"
| "phy_step now PhySleep s = (False, phy_node_sleep now s)"
| "phy_step now PhyUpdateIdle s = (False, UpdateIdleEnergy now s)"
| "phy_step now (PhyUpdateSleep st) s = (False, snd (snd (UpdateSleepEnergy now st s)))"

fun phy_run :: "(real \<times> phy_op) list \<Rightarrow> wphy \<Rightarrow> bool list \<times> wphy" where
  "phy_run [] s = ([], s)"
| "phy_run ((now, op) # ops) s =
     (let (b, s1) = phy_step now op s; (bs, s2) = phy_run ops s1 in (b # bs, s2))"

fun op_ok :: "phy_op \<Rightarrow> bool" where
  "op_ok (PhySendDown t) \<longleftrightarrow> 0 \<le> t"
| "op_ok (PhySendUp t Pr m err) \<longleftrightarrow> 0 \<le> t"
| "op_ok _ \<longleftrightarrow> True"

text \<open>Times are doubles and never run backwards; durations are not negative.\<close>

fun timed :: "real \<Rightarrow> (real \<times> phy_op) list \<Rightarrow> bool" where
  "timed c [] \<longleftrightarrow> True"
| "timed c ((now, op) # ops) \<longleftrightarrow> c \<le> now \<and> to_double now = now \<and> op_ok op \<and> timed now ops"

definition powers_ok :: "wphy \<Rightarrow> bool" where
  "powers_ok s \<longleftrightarrow> 0 \<le> Pt_consume s \<and> 0 \<le> Pr_consume s \<and> 0 \<le> P_idle s \<and> 0 \<le> P_sleep s
     \<and> 0 \<le> P_transition s \<and> 0 \<le> T_transition s"

definition phy_ok :: "real \<Rightarrow> energy \<Rightarrow> wphy \<Rightarrow> bool" where
  "phy_ok clock e s \<longleftrightarrow> powers_ok s \<and> wp_em s = Some e \<and> charge_ok e \<and> wp_status s \<in> {SLEEP, IDLE}
     \<and> (wp_status s = SLEEP \<and> wp_node_on s \<longrightarrow> update_energy_time s \<le> clock)"

lemma dsub_nonneg: "a \<le> b \<Longrightarrow> 0 \<le> dsub b a"
  by (simp add: dsub_def to_double_nonneg)

lemma later_end:
  assumes "to_double now = now" "0 \<le> t"
  shows "0 \<le> dsub (max c (dadd now t)) (max c now)"
proof -
  have "now \<le> dadd now t" using to_double_mono_all [of now "now + t"] assms by (simp add: dadd_def)
  then show ?thesis by (intro dsub_nonneg) (simp add: max_def)
qed

lemma charge_idle_charged:
  assumes "charge_ok e" "0 \<le> P_idle s"
  shows "charged e (fst (charge_idle_until start e s))"
    "powers_ok (snd (charge_idle_until start e s)) = powers_ok s"
    "wp_status (snd (charge_idle_until start e s)) = wp_status s"
    "wp_node_on (snd (charge_idle_until start e s)) = wp_node_on s"
    "wp_em (snd (charge_idle_until start e s)) = wp_em s"
  using assms Decr_charged(3) dsub_nonneg
  by (auto simp: charge_idle_until_def powers_ok_def charged_refl)

lemma empty_charged: "charge_ok e \<Longrightarrow> charged e (empty_if_spent e)"
  by (auto simp: empty_if_spent_def charged_refl charged_setenergy)

lemma chargedD: "charged e e' \<Longrightarrow> charge_ok e'"
  by (simp add: charged_def)

lemma phy_transmit_ok:
  assumes "phy_ok c e s" "to_double now = now" "0 \<le> t"
  shows "\<exists>e'. phy_ok now e' (phy_transmit now t e s) \<and> charged e e'"
proof -
  obtain e1 s1 where i: "charge_idle_until (max (channel_idle_time s) now) e s = (e1, s1)" by force
  have e: "charge_ok e" "0 \<le> P_idle s" "0 \<le> Pt_consume s" "wp_status s \<noteq> RECV"
    using assms(1) by (auto simp: phy_ok_def powers_ok_def)
  have c1: "charged e e1" "powers_ok s1" "wp_em s1 = wp_em s"
    using charge_idle_charged [OF e(1,2), of "max (channel_idle_time s) now"] i assms(1)
    by (simp_all add: phy_ok_def)
  have g: "gap_adjust now t s e1 = e1" using e(4) by (simp add: gap_adjust_def Let_def)
  let ?d = "dsub (max (channel_idle_time s) (dadd now t)) (max (channel_idle_time s) now)"
  have c2: "charged e1 (DecrTxEnergy ?d (Pt_consume s) e1)"
    by (rule Decr_charged(1) [OF chargedD [OF c1(1)] later_end [OF assms(2,3)] e(3)])
  have c3: "charged e (empty_if_spent (DecrTxEnergy ?d (Pt_consume s) e1))"
    using c1(1) c2 empty_charged charged_trans chargedD by blast
  have "phy_transmit now t e s = s1\<lparr>wp_status := IDLE, last_send_time := dadd now t,
      channel_idle_time := max (channel_idle_time s) (dadd now t),
      update_energy_time := max (channel_idle_time s) (dadd now t),
      wp_em := Some (empty_if_spent (DecrTxEnergy ?d (Pt_consume s) e1))\<rparr>"
    using i g by (simp add: phy_transmit_def Let_def)
  then show ?thesis using c1(2) c3 chargedD [OF c3] by (auto simp: phy_ok_def powers_ok_def)
qed

lemma phy_receive_ok:
  assumes "phy_ok c e s" "to_double now = now" "0 \<le> t"
  shows "\<exists>e'. phy_ok now e' (phy_receive now t e s) \<and> charged e e'"
proof -
  obtain e1 s1 where i: "charge_idle_until (max (channel_idle_time s) now) e s = (e1, s1)" by force
  have e: "charge_ok e" "0 \<le> P_idle s" "0 \<le> Pr_consume s"
    using assms(1) by (auto simp: phy_ok_def powers_ok_def)
  have c1: "charged e e1" "powers_ok s1"
    using charge_idle_charged [OF e(1,2), of "max (channel_idle_time s) now"] i assms(1)
    by (simp_all add: phy_ok_def)
  let ?d = "dsub (max (channel_idle_time s) (dadd now t)) (max (channel_idle_time s) now)"
  have c2: "charged e1 (DecrRcvEnergy ?d (Pr_consume s) e1)"
    by (rule Decr_charged(2) [OF chargedD [OF c1(1)] later_end [OF assms(2,3)] e(3)])
  have c3: "charged e (empty_if_spent (DecrRcvEnergy ?d (Pr_consume s) e1))"
    using c1(1) c2 empty_charged charged_trans chargedD by blast
  then show ?thesis using c1(2) i chargedD [OF c3]
    by (auto simp: phy_receive_def Let_def phy_ok_def powers_ok_def)
qed

text \<open>A sleeping interface is charged for the time since the last update.\<close>

lemma sleep_charged:
  assumes "phy_ok c e s" "update_energy_time s \<le> now"
  shows "charged e (DecrSleepEnergy (dsub now (update_energy_time s)) (P_sleep s) e)"
    "charged e (DecrIdleEnergy (dsub now (update_energy_time s)) (P_idle s) e)"
    "charged e (DecrSleepEnergy (dsub now (update_energy_time s)) (P_sleep s)
       (DecrTransitionEnergy (T_transition s) (P_transition s) e))"
    "charged e (DecrIdleEnergy (dsub now (update_energy_time s)) (P_idle s)
       (DecrTransitionEnergy (T_transition s) (P_transition s) e))"
proof -
  have p: "charge_ok e" "0 \<le> P_sleep s" "0 \<le> P_idle s" "0 \<le> P_transition s" "0 \<le> T_transition s"
    using assms(1) by (auto simp: phy_ok_def powers_ok_def)
  note d = dsub_nonneg [OF assms(2)]
  note t = Decr_charged(5) [OF p(1,5,4)]
  show "charged e (DecrSleepEnergy (dsub now (update_energy_time s)) (P_sleep s) e)"
    "charged e (DecrIdleEnergy (dsub now (update_energy_time s)) (P_idle s) e)"
    using Decr_charged(3,4) p d by simp_all
  show "charged e (DecrSleepEnergy (dsub now (update_energy_time s)) (P_sleep s)
       (DecrTransitionEnergy (T_transition s) (P_transition s) e))"
    "charged e (DecrIdleEnergy (dsub now (update_energy_time s)) (P_idle s)
       (DecrTransitionEnergy (T_transition s) (P_transition s) e))"
    using charged_trans [OF t] Decr_charged(3,4) [OF chargedD [OF t] d] p by blast+
qed


lemma phy_ok_later: "phy_ok c e s \<Longrightarrow> c \<le> now \<Longrightarrow> phy_ok now e s"
  by (auto simp: phy_ok_def)

lemma phy_ok_upd:
  assumes "phy_ok c e s" "charged e e'"
  shows "phy_ok now e' (s\<lparr>wp_em := Some e', update_energy_time := now\<rparr>)"
    "phy_ok now e' (s\<lparr>wp_em := Some e', wp_status := IDLE, update_energy_time := now\<rparr>)"
    "phy_ok now e' (s\<lparr>wp_em := Some e', wp_status := SLEEP, update_energy_time := now\<rparr>)"
  using assms by (auto simp: phy_ok_def powers_ok_def charged_def)

definition step_ok :: "real \<Rightarrow> energy \<Rightarrow> bool \<times> wphy \<Rightarrow> bool" where
  "step_ok now e r \<longleftrightarrow> (\<exists>e'. phy_ok now e' (snd r) \<and> charged e e' \<and> (fst r \<longrightarrow> 0 < en_energy e))"

lemma step_okI: "phy_ok now e' s' \<Longrightarrow> charged e e' \<Longrightarrow> (b \<Longrightarrow> 0 < en_energy e) \<Longrightarrow> step_ok now e (b, s')"
  by (auto simp: step_ok_def)

lemma charged_pos: "charged e e' \<Longrightarrow> 0 < en_energy e' \<Longrightarrow> 0 < en_energy e"
  by (auto simp: charged_def)

lemma sendDown_ok:
  assumes "phy_ok now e s" "to_double now = now" "0 \<le> t"
  shows "step_ok now e (phy_sendDown now t s)"
proof -
  have em: "wp_em s = Some e" and ok: "charge_ok e" using assms(1) by (simp_all add: phy_ok_def)
  show ?thesis
  proof (cases "wp_node_on s")
    case False
    then show ?thesis using em assms(1) charged_refl [OF ok]
      by (auto simp: phy_sendDown_def intro: step_okI)
  next
    case on: True
    define e1 where "e1 = (if wp_status s = SLEEP
      then DecrSleepEnergy (dsub now (update_energy_time s)) (P_sleep s) e else e)"
    define s1 where "s1 = (if wp_status s = SLEEP
      then s\<lparr>wp_em := Some e1, update_energy_time := now\<rparr> else s)"
    have c: "charged e e1" and o: "phy_ok now e1 s1"
      using sleep_charged(1) [OF assms(1)] phy_ok_upd(1) [OF assms(1)] charged_refl [OF ok] assms(1) on
      by (auto simp: e1_def s1_def phy_ok_def)
    have r: "phy_sendDown now t s = (if 0 < en_energy e1 then (True, phy_transmit now t e1 s1) else (False, s1))"
      using em on by (simp add: phy_sendDown_def s1_def e1_def Let_def)
    show ?thesis
    proof (cases "0 < en_energy e1")
      case True
      obtain e2 where "phy_ok now e2 (phy_transmit now t e1 s1)" "charged e1 e2"
        using phy_transmit_ok [OF o assms(2,3)] by blast
      then show ?thesis unfolding r using True c charged_trans charged_pos
        by (auto intro!: step_okI)
    next
      case False
      then show ?thesis unfolding r using c o by (auto intro: step_okI)
    qed
  qed
qed

lemma sendUp_ok:
  assumes "phy_ok now e s" "to_double now = now" "0 \<le> t"
  shows "step_ok now e (phy_step now (PhySendUp t Pr m err) s)"
proof -
  have em: "wp_em s = Some e" and ok: "charge_ok e" using assms(1) by (simp_all add: phy_ok_def)
  obtain b err' where d: "phy_detect Pr m err s = (b, err')" by force
  show ?thesis
  proof (cases b)
    case True
    then have "0 < en_energy e" using d em by (auto simp: phy_detect_def split: if_splits)
    moreover obtain e' where "phy_ok now e' (phy_receive now t e s)" "charged e e'"
      using phy_receive_ok [OF assms] by blast
    ultimately show ?thesis using d em True by (auto simp: phy_sendUp_def intro: step_okI)
  next
    case False
    then show ?thesis using d em assms(1) charged_refl [OF ok]
      by (auto simp: phy_sendUp_def intro: step_okI)
  qed
qed

lemma quiet_step: "phy_ok now e' s' \<Longrightarrow> charged e e' \<Longrightarrow> step_ok now e (False, s')"
  by (auto intro: step_okI)

lemma maybe_ok:
  assumes "phy_ok now e s" "b \<Longrightarrow> charged e e'" "b \<Longrightarrow> phy_ok now e' s'"
  shows "\<exists>x. phy_ok now x (if b then s' else s) \<and> charged e x"
  using assms charged_refl [of e] by (auto simp: phy_ok_def)

lemma node_sleep_ok:
  assumes "phy_ok now e s"
  shows "\<exists>e'. phy_ok now e' (phy_node_sleep now s) \<and> charged e e'"
    "\<exists>e'. phy_ok now e' (phy_node_wakeup now s) \<and> charged e e'"
proof -
  have em: "wp_em s = Some e" and r: "charged e e" using assms by (simp_all add: phy_ok_def charged_refl)
  let ?b = "update_energy_time s < now"
  have u: "?b \<and> x \<Longrightarrow> update_energy_time s \<le> now" for x by simp
  note c = sleep_charged(3,4) [OF assms u]
  have "phy_node_sleep now s = (if ?b \<and> wp_status s = IDLE
     then s\<lparr>wp_em := Some (DecrIdleEnergy (dsub now (update_energy_time s)) (P_idle s)
       (DecrTransitionEnergy (T_transition s) (P_transition s) e)), wp_status := SLEEP, update_energy_time := now\<rparr> else s)"
    using em by (simp add: phy_node_sleep_def)
  then show "\<exists>e'. phy_ok now e' (phy_node_sleep now s) \<and> charged e e'"
    using maybe_ok [OF assms c(2) phy_ok_upd(3) [OF assms c(2)]] by simp
  have "phy_node_wakeup now s = (if ?b \<and> wp_status s = SLEEP
     then s\<lparr>wp_em := Some (DecrSleepEnergy (dsub now (update_energy_time s)) (P_sleep s)
       (DecrTransitionEnergy (T_transition s) (P_transition s) e)), wp_status := IDLE, update_energy_time := now\<rparr> else s)"
    using em by (simp add: phy_node_wakeup_def)
  then show "\<exists>e'. phy_ok now e' (phy_node_wakeup now s) \<and> charged e e'"
    using maybe_ok [OF assms c(1) phy_ok_upd(2) [OF assms c(1)]] by simp
qed

lemma UpdateSleep_ok:
  assumes "phy_ok now e s"
  shows "\<exists>e'. phy_ok now e' (snd (snd (UpdateSleepEnergy now st s))) \<and> charged e e'"
proof -
  have em: "wp_em s = Some e" and r: "charged e e" using assms by (simp_all add: phy_ok_def charged_refl)
  define s1 where "s1 = (if update_energy_time s < now \<and> wp_node_on s \<and> wp_status s = SLEEP
     then s\<lparr>wp_em := Some (DecrSleepEnergy (dsub now (update_energy_time s)) (P_sleep s) e),
            update_energy_time := now\<rparr> else s)"
  have u: "update_energy_time s < now \<and> x \<Longrightarrow> update_energy_time s \<le> now" for x by simp
  note c = sleep_charged(1) [OF assms u]
  obtain e1 where o: "phy_ok now e1 s1" "charged e e1"
    using maybe_ok [OF assms c phy_ok_upd(1) [OF assms c]] unfolding s1_def by blast
  have "snd (snd (UpdateSleepEnergy now st s)) \<in> {s1, phy_node_sleep now s1, phy_node_wakeup now s1}"
    using em by (simp add: UpdateSleepEnergy_def s1_def Let_def)
  then show ?thesis using o node_sleep_ok [OF o(1)] charged_trans [OF o(2)] by auto
qed

lemma phy_step_ok:
  assumes "phy_ok c e s" "c \<le> now" "to_double now = now" "op_ok op"
  shows "step_ok now e (phy_step now op s)"
proof -
  have o: "phy_ok now e s" using phy_ok_later assms(1,2) .
  then have em: "wp_em s = Some e" and r: "charged e e" by (simp_all add: phy_ok_def charged_refl)
  show ?thesis
  proof (cases op)
    case (PhySendDown t)
    then show ?thesis using sendDown_ok [OF o assms(3)] assms(4) by simp
  next
    case (PhySendUp t Pr m err)
    then show ?thesis using sendUp_ok [OF o assms(3)] assms(4) by (simp del: phy_step.simps)
  next
    case PhyOn
    have "phy_ok now e (phy_node_on now s)" using o by (auto simp: phy_node_on_def phy_ok_def powers_ok_def Let_def)
    then show ?thesis using PhyOn r quiet_step by simp
  next
    case PhyOff
    let ?s = "s\<lparr>wp_node_on := False, wp_status := SLEEP\<rparr>"
    obtain e' s2 where i: "charge_idle_until now e ?s = (e', s2)" by force
    have "charge_ok e" "0 \<le> P_idle ?s" using o by (simp_all add: phy_ok_def powers_ok_def)
    from charge_idle_charged [OF this, of now] i o
    have "charged e e'" "powers_ok s2" "wp_status s2 = SLEEP" "\<not> wp_node_on s2"
      by (simp_all add: phy_ok_def powers_ok_def)
    then have "charged e e'" "phy_ok now e' (phy_node_off now s)"
      using i em chargedD by (auto simp: phy_node_off_def phy_ok_def powers_ok_def)
    then show ?thesis using PhyOff quiet_step by simp
  next
    case PhyWakeup
    then show ?thesis using node_sleep_ok(2) [OF o] quiet_step by auto
  next
    case PhySleep
    then show ?thesis using node_sleep_ok(1) [OF o] quiet_step by auto
  next
    case PhyUpdateIdle
    have u: "update_energy_time s < now \<and> x \<Longrightarrow> update_energy_time s \<le> now" for x by simp
    note c = sleep_charged(2) [OF o u]
    have "\<exists>e'. phy_ok now e' (UpdateIdleEnergy now s) \<and> charged e e'"
      using maybe_ok [OF o c phy_ok_upd(1) [OF o c]] em by (simp add: UpdateIdleEnergy_def)
    then show ?thesis using PhyUpdateIdle quiet_step by auto
  next
    case (PhyUpdateSleep st)
    then show ?thesis using UpdateSleep_ok [OF o, of st] quiet_step by auto
  qed
qed

lemma phy_run_charged:
  assumes "phy_ok c e s" "timed c ops" "phy_run ops s = (bs, s')"
  shows "\<exists>c' e'. phy_ok c' e' s' \<and> charged e e' \<and> (True \<in> set bs \<longrightarrow> 0 < en_energy e)"
  using assms
proof (induction ops arbitrary: c e s bs)
  case Nil
  then show ?case using charged_refl [of e] by (auto simp: phy_ok_def)
next
  case (Cons p ops)
  obtain now op where p: "p = (now, op)" by force
  obtain b s1 where s1: "phy_step now op s = (b, s1)" by force
  obtain bs' where r: "phy_run ops s1 = (bs', s')" "bs = b # bs'"
    using Cons.prems(3) p s1 by (auto split: prod.splits)
  have t: "c \<le> now" "to_double now = now" "op_ok op" "timed now ops" using Cons.prems(2) p by simp_all
  obtain e1 where e1: "phy_ok now e1 s1" "charged e e1" "b \<longrightarrow> 0 < en_energy e"
    using phy_step_ok [OF Cons.prems(1) t(1-3)] s1 by (auto simp: step_ok_def)
  obtain c' e' where "phy_ok c' e' s'" "charged e1 e'" "True \<in> set bs' \<longrightarrow> 0 < en_energy e1"
    using Cons.IH [OF e1(1) t(4) r(1)] by blast
  moreover from this have "charged e e'" using e1(2) charged_trans by blast
  moreover have "True \<in> set bs \<longrightarrow> 0 < en_energy e"
    using e1(2,3) r(2) calculation(3) charged_pos by auto
  ultimately show ?case by blast
qed

text \<open>
  C15: Whatever an interface does, the energy of its node never rises, stays between 0 and the
  initial energy, and is a double; a node without energy never again passes a packet to the channel
  or up to the MAC. The branch for overlapping transmissions is never taken: the status is
  only ever asleep or idle.
\<close>

theorem phy_energy:
  assumes "phy_ok c e s" "timed c ops" "phy_run ops s = (bs, s')"
  shows "\<exists>e'. wp_em s' = Some e' \<and> 0 \<le> en_energy e' \<and> en_energy e' \<le> en_energy e
    \<and> en_energy e' \<le> en_initial e \<and> to_double (en_energy e') = en_energy e'
    \<and> wp_status s' \<in> {SLEEP, IDLE} \<and> (en_energy e = 0 \<longrightarrow> True \<notin> set bs)"
proof -
  obtain c' e' where r: "phy_ok c' e' s'" "charged e e'" "True \<in> set bs \<longrightarrow> 0 < en_energy e"
    using phy_run_charged [OF assms] by blast
  then have "wp_em s' = Some e'" "wp_status s' \<in> {SLEEP, IDLE}" by (simp_all add: phy_ok_def)
  then show ?thesis using r(2,3) by (auto simp: charged_def charge_ok_def)
qed

lemma small_doubles: "to_double 0 = 0" "to_double 1 = 1" "to_double 2 = 2"
  using to_double_of_int [of 1] to_double_of_int [of 2] by simp_all

definition demo_wphy :: "real \<Rightarrow> wphy" where
  "demo_wphy x = WirelessPhy_new 0 1 2 (Some (EnergyModel_new x WAITING))"

lemma demo_wphy_ok:
  assumes "0 \<le> x" "to_double x = x"
  shows "phy_ok 0 (EnergyModel_new x WAITING) (demo_wphy x)"
  using assms by (simp add: phy_ok_def demo_wphy_def WirelessPhy_new_def powers_ok_def charge_ok_def
      EnergyModel_new_def to_double_nonneg)

theorem phy_energy_witness:
  "True \<notin> set (fst (phy_run [(1, PhySendDown 1), (2, PhySendUp 1 5 None 0)] (demo_wphy 0)))"
proof -
  obtain bs s' where r: "phy_run [(1, PhySendDown 1), (2, PhySendUp 1 5 None 0)] (demo_wphy 0) = (bs, s')"
    by force
  have "timed 0 [(1, PhySendDown 1), (2, PhySendUp 1 5 None 0)]" by (simp add: small_doubles)
  from phy_energy [OF demo_wphy_ok this r] have "True \<notin> set bs"
    by (auto simp: small_doubles EnergyModel_new_def)
  then show ?thesis unfolding r by simp
qed

text \<open>
  C34: The static variable of \<open>UpdateSleepEnergy\<close> is shared by all nodes. When the sleep modes of
  two nodes both turn to 1, the node whose timer comes first falls asleep, and the second one
  stays idle for good, its radio running against its energy model.
\<close>

theorem sleep_flag_shared:
  assumes "wp_em a = Some ea" "en_sleep ea = 1" "wp_status a = IDLE" "update_energy_time a < t"
    and "wp_em b = Some eb" "en_sleep eb = 1" "wp_status b = IDLE"
  shows "\<exists>a'. UpdateSleepEnergy t (Some 0) a = (True, Some 1, a') \<and> wp_status a' = SLEEP
    \<and> UpdateSleepEnergy u (Some 1) b = (True, Some 1, b)"
  using assms by (simp add: UpdateSleepEnergy_def phy_node_sleep_def Let_def)

definition dozing :: energy where "dozing = (EnergyModel_new 1 WAITING)\<lparr>en_sleep := 1\<rparr>"

theorem sleep_flag_shared_witness:
  "\<exists>a'. UpdateSleepEnergy 5 (Some 0) (WirelessPhy_new 0 1 2 (Some dozing)) = (True, Some 1, a')
     \<and> wp_status a' = SLEEP
     \<and> UpdateSleepEnergy 6 (Some 1) (WirelessPhy_new 0 1 2 (Some dozing))
         = (True, Some 1, WirelessPhy_new 0 1 2 (Some dozing))"
  by (rule sleep_flag_shared [of _ dozing _ _ dozing]) (simp_all add: WirelessPhy_new_def dozing_def)

text \<open>A sleeping interface transmits all the same, and is idle afterwards.\<close>

lemma sleeping_node_transmits:
  assumes "wp_em s = Some e" "wp_node_on s" "wp_status s = SLEEP" "P_sleep s = 0" "0 < en_energy e"
    "to_double (en_energy e) = en_energy e"
  shows "fst (phy_sendDown now t s)" and "wp_status (snd (phy_sendDown now t s)) = IDLE"
  using assms
  by (simp_all add: phy_sendDown_def DecrSleepEnergy_def spend_def dmul_def dsub_def
    phy_transmit_def Let_def split: prod.splits)

end
