(* ===== verification/Classifier.thy ===== *)
theory Classifier
  imports Prelude "HOL-Library.Word"
begin

unbundle bit_operations_syntax

text \<open>
  Classifiers (\<open>classifier/classifier.cc\<close>, \<open>classifier-port.cc\<close>, \<open>classifier-addr.cc\<close>,
  \<open>classifier-hash.cc\<close> and their headers): the slot table that maps a field of a packet to the
  object that gets it. Objects are numbers. The Tcl hash table of the hash classifiers is a
  finite map; the Tcl procedures \<open>no-slot\<close> and \<open>unknown-flow\<close>, which may patch the
  table, are arguments.
\<close>

section \<open>The slot table\<close>

record classifier =
  cl_slot :: "nat option list"
  cl_maxslot :: int
  cl_shift :: nat
  cl_mask :: int
  cl_default :: "nat option"
  cl_nsize :: int

definition nslot :: "'a classifier_scheme \<Rightarrow> int" where
  "nslot c = int (length (cl_slot c))"

definition classifier_new :: "nat \<Rightarrow> int \<Rightarrow> classifier" where
  "classifier_new sh msk = \<lparr>cl_slot = [], cl_maxslot = -1, cl_shift = sh, cl_mask = msk,
     cl_default = None, cl_nsize = 0\<rparr>"

definition mshift :: "'a classifier_scheme \<Rightarrow> int \<Rightarrow> int" where
  "mshift c v = (drop_bit (cl_shift c) v) AND cl_mask c"

text \<open>\<open>nslot_ <<= 1\<close> on 32 bits, as long as the table is too small.\<close>

partial_function (option) grow :: "int \<Rightarrow> int \<Rightarrow> int option" where
  "grow n slot = (if n \<le> slot then grow (signed_take_bit 31 (2 * n)) slot else Some n)"

definition cls_alloc :: "int \<Rightarrow> 'a classifier_scheme \<Rightarrow> 'a classifier_scheme option" where
  "cls_alloc slot c =
     (let n0 = (if cl_slot c = [] then (if cl_nsize c \<noteq> 0 then cl_nsize c else 32) else nslot c)
      in map_option (\<lambda>n. c\<lparr>cl_slot := cl_slot c @ replicate (nat (n - nslot c)) None\<rparr>) (grow n0 slot))"

datatype cls_error = BadSlot

text \<open>Outer \<open>None\<close>: the loop of \<open>alloc\<close> does not end. \<open>BadSlot\<close>: an access outside the table.\<close>

type_synonym 'c cls_result = "(cls_error, 'c) result option"

definition cls_write :: "int \<Rightarrow> nat option \<Rightarrow> 'a classifier_scheme \<Rightarrow> (cls_error, 'a classifier_scheme) result" where
  "cls_write slot v c =
     (if 0 \<le> slot \<and> slot < nslot c then Inr (c\<lparr>cl_slot := (cl_slot c)[nat slot := v]\<rparr>) else Inl BadSlot)"

definition cls_install :: "int \<Rightarrow> nat option \<Rightarrow> 'a classifier_scheme \<Rightarrow> 'a classifier_scheme cls_result" where
  "cls_install slot p c =
     map_option (\<lambda>c1. bind_res (cls_write slot p c1)
         (\<lambda>c2. Inr (if slot \<ge> cl_maxslot c2 then c2\<lparr>cl_maxslot := slot\<rparr> else c2)))
       (if slot \<ge> nslot c then cls_alloc slot c else Some c)"

text \<open>The scan for the next lower occupied slot, down to \<open>lo\<close>.\<close>

function lower_max :: "int \<Rightarrow> nat option list \<Rightarrow> int \<Rightarrow> int" where
  "lower_max lo xs m = (let m' = m - 1 in if m' \<ge> lo \<and> xs ! nat m' = None then lower_max lo xs m' else m')"
  by auto
termination by (relation "measure (\<lambda>(lo, xs, m). nat (m - lo))") auto

declare lower_max.simps [simp del]

text \<open>\<open>clear\<close>; the subclasses with reserved slots stop at the first one that is not reserved.\<close>

definition cls_clear :: "int \<Rightarrow> int \<Rightarrow> 'a classifier_scheme \<Rightarrow> (cls_error, 'a classifier_scheme) result" where
  "cls_clear reserved slot c =
     bind_res (cls_write slot None c)
       (\<lambda>c1. Inr (if slot = cl_maxslot c1 then c1\<lparr>cl_maxslot := lower_max reserved (cl_slot c1) (cl_maxslot c1)\<rparr>
                   else c1))"

fun free_slot :: "nat option \<Rightarrow> nat option list \<Rightarrow> nat option" where
  "free_slot null [] = None"
| "free_slot null (s # ss) = (if s = None \<or> s = null then Some 0 else map_option Suc (free_slot null ss))"

definition cls_getnxt :: "nat \<Rightarrow> nat option \<Rightarrow> 'a classifier_scheme \<Rightarrow> (int \<times> 'a classifier_scheme) option" where
  "cls_getnxt reserved null c =
     (case free_slot null (drop reserved (cl_slot c)) of
        Some i \<Rightarrow> Some (int (reserved + i), c)
      | None \<Rightarrow> map_option (\<lambda>c'. (nslot c, c')) (cls_alloc (nslot c) c))"

definition cls_reserve :: "int \<Rightarrow> 'a classifier_scheme \<Rightarrow> 'a classifier_scheme option" where
  "cls_reserve r c = cls_alloc (r - 1) (c\<lparr>cl_maxslot := r - 1\<rparr>)"

definition install_next :: "nat option \<Rightarrow> 'a classifier_scheme \<Rightarrow> (cls_error, int \<times> 'a classifier_scheme) result option" where
  "install_next p c =
     (let slot = cl_maxslot c + 1
      in map_option (\<lambda>r. bind_res r (\<lambda>c'. Inr (slot, c'))) (cls_install slot p c))"

text \<open>\<open>slot_[cl]\<close> behind the range check; a negative index and an empty slot give a null pointer.\<close>

definition at_slot :: "int \<Rightarrow> 'a classifier_scheme \<Rightarrow> nat option" where
  "at_slot cl c = (if cl < 0 \<or> cl \<ge> nslot c then None else cl_slot c ! nat cl)"

text \<open>
  \<open>find\<close>, with the virtual \<open>classify\<close> of the packet and the Tcl procedure \<open>no-slot\<close>. The
  second look at the table happens only for the class -1 (\<open>TWICE\<close>).
\<close>

definition cls_find ::
    "('a classifier_scheme \<Rightarrow> int \<times> 'a classifier_scheme) \<Rightarrow> (int \<Rightarrow> 'a classifier_scheme \<Rightarrow> 'a classifier_scheme) \<Rightarrow>
     'a classifier_scheme \<Rightarrow> nat option \<times> 'a classifier_scheme" where
  "cls_find classify no_slot c =
     (let (cl, c1) = classify c
      in case at_slot cl c1 of
           Some n \<Rightarrow> (Some n, c1)
         | None \<Rightarrow>
             (case cl_default c1 of
                Some d \<Rightarrow> (Some d, c1)
              | None \<Rightarrow> let c2 = no_slot cl c1
                        in if cl = -1 then (let (cl', c3) = classify c2 in (at_slot cl' c3, c3)) else (None, c2)))"

text \<open>What \<open>recv\<close> does with the packet: pass it on, or free it.\<close>

datatype cls_out = PassTo nat | FreePacket

definition cls_recv ::
    "('a classifier_scheme \<Rightarrow> int \<times> 'a classifier_scheme) \<Rightarrow> (int \<Rightarrow> 'a classifier_scheme \<Rightarrow> 'a classifier_scheme) \<Rightarrow>
     'a classifier_scheme \<Rightarrow> cls_out \<times> 'a classifier_scheme" where
  "cls_recv classify no_slot c =
     (let (r, c') = cls_find classify no_slot c
      in (case r of None \<Rightarrow> FreePacket | Some n \<Rightarrow> PassTo n, c'))"

text \<open>The fields of a packet that classifiers look at.\<close>

record flow =
  fl_src :: int
  fl_dst :: int
  fl_port :: int
  fl_fid :: int

definition port_classify :: "flow \<Rightarrow> 'a classifier_scheme \<Rightarrow> int \<times> 'a classifier_scheme" where
  "port_classify f c = (fl_port f, c)"

definition addr_classify :: "flow \<Rightarrow> 'a classifier_scheme \<Rightarrow> int \<times> 'a classifier_scheme" where
  "addr_classify f c = (mshift c (fl_dst f), c)"

text \<open>The command \<open>findslot\<close>: -1 if the object is in no slot.\<close>

fun find_object :: "nat \<Rightarrow> nat option list \<Rightarrow> int \<Rightarrow> int" where
  "find_object p [] i = -1"
| "find_object p (s # ss) i = (if s = Some p then i else find_object p ss (i + 1))"

definition cls_findslot :: "nat \<Rightarrow> 'a classifier_scheme \<Rightarrow> int" where
  "cls_findslot p c = find_object p (cl_slot c) 0"

section \<open>Hash classifiers\<close>

datatype hash_kind = SrcDestFid | SrcDest | Fid | Dest

record hash_classifier = classifier +
  hc_kind :: hash_kind
  hc_ht :: "int list \<rightharpoonup> int"
  hc_default :: int

definition hash_new :: "hash_kind \<Rightarrow> nat \<Rightarrow> int \<Rightarrow> hash_classifier" where
  "hash_new k sh msk = classifier.extend (classifier_new sh msk)
     \<lparr>hc_kind = k, hc_ht = Map.empty, hc_default = -1\<rparr>"

definition hashkey :: "'a hash_classifier_scheme \<Rightarrow> int \<Rightarrow> int \<Rightarrow> int \<Rightarrow> int list" where
  "hashkey c src dst fid =
     (case hc_kind c of
        SrcDestFid \<Rightarrow> [mshift c src, mshift c dst, fid]
      | SrcDest \<Rightarrow> [mshift c src, mshift c dst]
      | Fid \<Rightarrow> [fid]
      | Dest \<Rightarrow> [mshift c dst])"

definition set_hash :: "int \<Rightarrow> int \<Rightarrow> int \<Rightarrow> int \<Rightarrow> 'a hash_classifier_scheme \<Rightarrow> 'a hash_classifier_scheme" where
  "set_hash src dst fid slot c = c\<lparr>hc_ht := (hc_ht c)(hashkey c src dst fid \<mapsto> slot)\<rparr>"

definition get_hash :: "int \<Rightarrow> int \<Rightarrow> int \<Rightarrow> 'a hash_classifier_scheme \<Rightarrow> int" where
  "get_hash src dst fid c = (case hc_ht c (hashkey c src dst fid) of Some s \<Rightarrow> s | None \<Rightarrow> -1)"

text \<open>\<open>del-hash\<close>; \<open>None\<close> is the Tcl error.\<close>

definition del_hash ::
    "int \<Rightarrow> int \<Rightarrow> int \<Rightarrow> 'a hash_classifier_scheme \<Rightarrow> (int \<times> 'a hash_classifier_scheme) option" where
  "del_hash src dst fid c =
     (case hc_ht c (hashkey c src dst fid) of
        None \<Rightarrow> None
      | Some s \<Rightarrow> Some (s, c\<lparr>hc_ht := (hc_ht c)(hashkey c src dst fid := None)\<rparr>))"

text \<open>\<open>lookup\<close> shifts and masks the addresses, and the key does it again.\<close>

definition hash_lookup :: "flow \<Rightarrow> 'a hash_classifier_scheme \<Rightarrow> int" where
  "hash_lookup f c = get_hash (mshift c (fl_src f)) (mshift c (fl_dst f)) (fl_fid f) c"

text \<open>The slot, the default slot, or the Tcl procedure \<open>unknown-flow\<close> and another lookup.\<close>

definition hash_classify ::
    "(flow \<Rightarrow> 'a hash_classifier_scheme \<Rightarrow> 'a hash_classifier_scheme) \<Rightarrow> flow \<Rightarrow>
     'a hash_classifier_scheme \<Rightarrow> int \<times> 'a hash_classifier_scheme" where
  "hash_classify unknown f c =
     (let slot = hash_lookup f c
      in if slot \<ge> 0 \<and> slot \<le> cl_maxslot c then (slot, c)
         else if hc_default c \<ge> 0 then (hc_default c, c)
         else let c' = unknown f c in (hash_lookup f c', c'))"

definition dest_classify :: "flow \<Rightarrow> 'a hash_classifier_scheme \<Rightarrow> int \<times> 'a hash_classifier_scheme" where
  "dest_classify f c =
     (let slot = hash_lookup f c
      in if slot \<ge> 0 \<and> slot \<le> cl_maxslot c then (slot, c)
         else if hc_default c \<ge> 0 then (hc_default c, c)
         else (-1, c))"

definition dest_install :: "int \<Rightarrow> nat option \<Rightarrow> 'a hash_classifier_scheme \<Rightarrow> 'a hash_classifier_scheme cls_result" where
  "dest_install d target c =
     Option.bind (cls_getnxt 0 target c) (\<lambda>(slot, c1).
       map_option (\<lambda>r. bind_res r (\<lambda>c2. Inr (set_hash 0 d 0 slot c2))) (cls_install slot target c1))"

section \<open>The table grows by doubling\<close>

text \<open>The least power of two times \<open>n\<close> above the slot, which exists for slots below \<open>2 ^ 30\<close>.\<close>

lemma grow_simps:
  "slot < n \<Longrightarrow> grow n slot = Some n"
  "n \<le> slot \<Longrightarrow> grow n slot = grow (signed_take_bit 31 (2 * n)) slot"
  by (subst grow.simps, simp)+

lemma double_word:
  assumes "k < 30"
  shows "signed_take_bit 31 (2 * 2 ^ k) = (2::int) ^ Suc k"
proof -
  have "(2::int) ^ Suc k < 2 ^ 31" using assms by (intro power_strict_increasing) simp_all
  moreover have "- (2 ^ 31) \<le> (2::int) ^ Suc k"
    by (rule order_trans [of _ 0]) simp_all
  ultimately have "signed_take_bit 31 ((2::int) ^ Suc k) = 2 ^ Suc k"
    by (intro signed_take_bit_int_eq_self)
  then show ?thesis by simp
qed

lemma grow_power:
  assumes "5 \<le> k" "k \<le> 30" "slot < 2 ^ 30" "0 \<le> slot"
  shows "\<exists>j. grow (2 ^ k) slot = Some (2 ^ j) \<and> k \<le> j \<and> j \<le> 30 \<and> slot < 2 ^ j"
  using assms(1,2)
proof (induction "30 - k" arbitrary: k)
  case 0
  then have "k = 30" by simp
  then show ?case using grow_simps(1) [OF assms(3)] assms(3) by blast
next
  case (Suc d)
  show ?case
  proof (cases "slot < 2 ^ k")
    case True
    then show ?thesis using grow_simps(1) [OF True] Suc by auto
  next
    case False
    have k: "k < 30" using Suc by simp
    have "grow (2 ^ k) slot = grow (2 ^ Suc k) slot"
      using grow_simps(2) [of "2 ^ k" slot] False double_word [OF k] by simp
    moreover have "\<exists>j. grow (2 ^ Suc k) slot = Some (2 ^ j) \<and> Suc k \<le> j \<and> j \<le> 30 \<and> slot < 2 ^ j"
      using Suc.hyps(1) [of "Suc k"] Suc.hyps(2) Suc.prems k by simp
    ultimately show ?thesis by (metis Suc_leD)
  qed
qed

text \<open>Beyond that the doubling overflows to 0 and goes on for ever.\<close>

definition doubled :: "int \<Rightarrow> bool" where
  "doubled n \<longleftrightarrow> (\<exists>k\<le>30. n = 2 ^ k) \<or> n = - (2 ^ 31) \<or> n = 0"

lemma doubled_double: "doubled n \<Longrightarrow> doubled (signed_take_bit 31 (2 * n))"
proof -
  assume "doubled n"
  then consider k where "n = 2 ^ k" "k < 30" | "n = 2 ^ 30" | "n = - (2 ^ 31)" | "n = 0"
    by (auto simp: doubled_def le_less)
  then show ?thesis
  proof cases
    case (1 k)
    then have "signed_take_bit 31 (2 * n) = 2 ^ Suc k" using double_word by simp
    then show ?thesis using 1(2) unfolding doubled_def by (metis Suc_leI)
  qed (simp_all add: doubled_def signed_take_bit_eq_take_bit_shift take_bit_eq_mod)
qed

lemma doubled_small: "doubled n \<Longrightarrow> 2 ^ 30 \<le> slot \<Longrightarrow> n \<le> slot"
proof -
  assume d: "doubled n" and s: "2 ^ 30 \<le> slot"
  have "n \<le> 2 ^ 30"
    using d power_increasing [of _ 30 "2::int"] unfolding doubled_def by (elim disjE exE conjE) auto
  then show ?thesis using s by linarith
qed

lemma grow_diverges:
  assumes "grow n slot = Some m"
  shows "doubled n \<longrightarrow> slot < 2 ^ 30"
proof (rule grow.raw_induct [where P = "\<lambda>n slot m. doubled n \<longrightarrow> slot < 2 ^ 30", OF _ assms])
  fix g n slot m
  assume IH: "\<And>n slot m. g n slot = Some m \<Longrightarrow> doubled n \<longrightarrow> slot < 2 ^ 30"
    and step: "(if n \<le> slot then g (signed_take_bit 31 (2 * n)) slot else Some n) = Some m"
  show "doubled n \<longrightarrow> slot < 2 ^ 30"
  proof (intro impI, rule ccontr)
    assume d: "doubled n" and "\<not> slot < 2 ^ 30"
    then have s: "2 ^ 30 \<le> slot" by simp
    then have "g (signed_take_bit 31 (2 * n)) slot = Some m" using step doubled_small [OF d s] by simp
    from IH [OF this] doubled_double [OF d] s show False by simp
  qed
qed

text \<open>The size of a table: nothing, or 32 doubled a few times.\<close>

definition table_ok :: "'a classifier_scheme \<Rightarrow> bool" where
  "table_ok c \<longleftrightarrow> cl_nsize c = 0 \<and> (cl_slot c = [] \<or> (\<exists>k. 5 \<le> k \<and> k \<le> 30 \<and> nslot c = 2 ^ k))
     \<and> (\<forall>i. cl_maxslot c < i \<and> i < nslot c \<longrightarrow> cl_slot c ! nat i = None)
     \<and> (cl_maxslot c = -1 \<or> 0 \<le> cl_maxslot c \<and> cl_maxslot c < nslot c \<and> cl_slot c ! nat (cl_maxslot c) \<noteq> None)"

lemma alloc_ok:
  assumes "table_ok c" "0 \<le> slot" "slot < 2 ^ 30" "nslot c \<le> slot"
  shows "\<exists>j. cls_alloc slot c = Some (c\<lparr>cl_slot := cl_slot c @ replicate (nat (2 ^ j - nslot c)) None\<rparr>)
    \<and> 5 \<le> j \<and> j \<le> 30 \<and> slot < 2 ^ j \<and> nslot c < 2 ^ j"
proof -
  obtain k where k: "5 \<le> k" "k \<le> 30"
    "(if cl_slot c = [] then (if cl_nsize c \<noteq> 0 then cl_nsize c else 32) else nslot c) = 2 ^ k"
  proof (cases "cl_slot c = []")
    case True
    then show thesis using that [of 5] assms(1) by (simp add: table_ok_def)
  next
    case False
    then show thesis using that assms(1) by (auto simp: table_ok_def)
  qed
  from grow_power [OF k(1,2) assms(3,2)] obtain j where j: "grow (2 ^ k) slot = Some (2 ^ j)" "k \<le> j" "j \<le> 30" "slot < 2 ^ j"
    by blast
  then show ?thesis using k(1) assms(4)
    by (intro exI [of _ j]) (simp add: cls_alloc_def Let_def k(3))
qed

lemma alloc_diverges:
  assumes "table_ok c" "2 ^ 30 \<le> slot" "slot < 2 ^ 31"
  shows "cls_alloc slot c = None"
proof -
  let ?n = "if cl_slot c = [] then (if cl_nsize c \<noteq> 0 then cl_nsize c else 32) else nslot c"
  have d: "doubled ?n"
  proof (cases "cl_slot c = []")
    case True
    have "(32::int) = 2 ^ 5" by simp
    then show ?thesis using True assms(1) unfolding doubled_def table_ok_def by (auto intro!: exI [of _ 5])
  next
    case False
    then show ?thesis using assms(1) by (auto simp: table_ok_def doubled_def)
  qed
  have "grow ?n slot = None"
  proof (cases "grow ?n slot")
    case (Some m)
    then show ?thesis using grow_diverges [OF Some] d assms(2) by simp
  qed
  then show ?thesis by (simp add: cls_alloc_def Let_def)
qed

section \<open>The table as a map\<close>

lemma at_slot_update:
  "0 \<le> s \<Longrightarrow> s < nslot c \<Longrightarrow> at_slot i (c\<lparr>cl_slot := (cl_slot c)[nat s := v]\<rparr>) = (if i = s then v else at_slot i c)"
  by (auto simp: at_slot_def nslot_def nth_list_update eq_nat_nat_iff)

lemma at_slot_grow: "at_slot i (c\<lparr>cl_slot := cl_slot c @ replicate k None\<rparr>) = at_slot i c"
  by (auto simp: at_slot_def nslot_def nth_append nat_less_iff)

lemma at_slot_max [simp]: "at_slot i (c\<lparr>cl_maxslot := m\<rparr>) = at_slot i c"
  by (simp add: at_slot_def nslot_def)

definition max_ok :: "'a classifier_scheme \<Rightarrow> bool" where
  "max_ok c \<longleftrightarrow> (\<forall>i > cl_maxslot c. at_slot i c = None)
     \<and> (cl_maxslot c = -1 \<or> at_slot (cl_maxslot c) c \<noteq> None)"

definition size_ok :: "'a classifier_scheme \<Rightarrow> bool" where
  "size_ok c \<longleftrightarrow> cl_nsize c = 0 \<and> (cl_slot c = [] \<or> (\<exists>k. 5 \<le> k \<and> k \<le> 30 \<and> nslot c = 2 ^ k))"

lemma at_slot_range: "at_slot i c = Some p \<Longrightarrow> 0 \<le> i \<and> i < nslot c"
  by (auto simp: at_slot_def split: if_splits)

lemma table_ok_iff: "table_ok c \<longleftrightarrow> size_ok c \<and> max_ok c"
proof -
  have "cl_maxslot c = -1 \<or> at_slot (cl_maxslot c) c \<noteq> None \<Longrightarrow> -1 \<le> cl_maxslot c"
    using at_slot_range [of "cl_maxslot c" c] by fastforce
  then show ?thesis
    unfolding table_ok_def size_ok_def max_ok_def
    by (auto simp: at_slot_def)
qed

text \<open>The table represents a partial map from slots to objects.\<close>

definition represents :: "'a classifier_scheme \<Rightarrow> (int \<Rightarrow> nat option) \<Rightarrow> bool" where
  "represents c m \<longleftrightarrow> table_ok c \<and> (\<forall>i. at_slot i c = m i)"

lemma write_at:
  "0 \<le> s \<Longrightarrow> s < nslot c \<Longrightarrow> cls_write s v c = Inr (c\<lparr>cl_slot := (cl_slot c)[nat s := v]\<rparr>)"
  by (simp add: cls_write_def)

lemma size_ok_write [simp]:
  "size_ok (c\<lparr>cl_slot := (cl_slot c)[k := v]\<rparr>) = size_ok c" "size_ok (c\<lparr>cl_maxslot := m\<rparr>) = size_ok c"
  by (simp_all add: size_ok_def nslot_def)

lemma nslot_simps [simp]:
  "nslot (c\<lparr>cl_slot := (cl_slot c)[k := v]\<rparr>) = nslot c" "nslot (c\<lparr>cl_maxslot := m\<rparr>) = nslot c"
  by (simp_all add: nslot_def)

text \<open>Making room: the map stays, the slot exists afterwards.\<close>

lemma room_ok:
  assumes "represents c m" "0 \<le> s" "s < 2 ^ 30"
  shows "\<exists>c1. (if s \<ge> nslot c then cls_alloc s c else Some c) = Some c1 \<and> represents c1 m \<and> s < nslot c1
    \<and> cl_maxslot c1 = cl_maxslot c \<and> nslot c \<le> nslot c1 \<and> (\<exists>k. c1 = c\<lparr>cl_slot := cl_slot c @ replicate k None\<rparr>)"
proof (cases "s \<ge> nslot c")
  case True
  have t: "table_ok c" using assms(1) by (simp add: represents_def)
  obtain j where j: "cls_alloc s c = Some (c\<lparr>cl_slot := cl_slot c @ replicate (nat (2 ^ j - nslot c)) None\<rparr>)"
    "5 \<le> j" "j \<le> 30" "s < 2 ^ j" "nslot c < 2 ^ j"
    using alloc_ok [OF t assms(2,3) True] by blast
  let ?c = "c\<lparr>cl_slot := cl_slot c @ replicate (nat (2 ^ j - nslot c)) None\<rparr>"
  have n: "nslot ?c = 2 ^ j" using j(5) by (simp add: nslot_def)
  have "size_ok ?c" using j(2,3) n t by (auto simp: size_ok_def table_ok_def)
  moreover have "max_ok ?c" using t by (simp add: table_ok_iff max_ok_def at_slot_grow)
  ultimately show ?thesis using True j n assms(1)
    by (auto simp: represents_def table_ok_iff at_slot_grow)
next
  case False
  have "c = c\<lparr>cl_slot := cl_slot c @ replicate 0 None\<rparr>" by simp
  then show ?thesis using False assms(1) by fastforce
qed

lemma install_ok:
  assumes "represents c m" "0 \<le> s" "s < 2 ^ 30"
  shows "\<exists>c'. cls_install s (Some p) c = Some (Inr c') \<and> represents c' (m(s := Some p))
    \<and> cl_maxslot c' = max s (cl_maxslot c)
    \<and> (\<exists>xs n. c' = c\<lparr>cl_slot := xs, cl_maxslot := n\<rparr>)"
proof -
  obtain c1 k where c1: "(if s \<ge> nslot c then cls_alloc s c else Some c) = Some c1" "represents c1 m" "s < nslot c1"
    "cl_maxslot c1 = cl_maxslot c" "c1 = c\<lparr>cl_slot := cl_slot c @ replicate k None\<rparr>"
    using room_ok [OF assms] by blast
  define c2 where "c2 = c1\<lparr>cl_slot := (cl_slot c1)[nat s := Some p]\<rparr>"
  define c' where "c' = (if s \<ge> cl_maxslot c2 then c2\<lparr>cl_maxslot := s\<rparr> else c2)"
  have i: "cls_install s (Some p) c = Some (Inr c')"
    unfolding cls_install_def c1(1) using write_at [OF assms(2) c1(3)] by (simp add: c2_def c'_def)
  have at: "at_slot i c' = (m(s := Some p)) i" for i
    using c1(2) at_slot_update [OF assms(2) c1(3)] by (auto simp: c'_def c2_def represents_def)
  have "size_ok c'" using c1(2) by (simp add: c'_def c2_def represents_def table_ok_iff)
  moreover have "max_ok c'"
  proof -
    have mk: "\<forall>i > cl_maxslot c. m i = None" "cl_maxslot c = -1 \<or> m (cl_maxslot c) \<noteq> None"
      using c1(2,4) unfolding represents_def table_ok_iff max_ok_def by auto
    have "cl_maxslot c' = (if s \<ge> cl_maxslot c then s else cl_maxslot c)"
      using c1(4) by (simp add: c'_def c2_def)
    then show ?thesis using mk assms(2) unfolding max_ok_def at by auto
  qed
  ultimately have "represents c' (m(s := Some p))" using at by (simp add: represents_def table_ok_iff)
  moreover have "cl_maxslot c' = max s (cl_maxslot c)" using c1(4) by (simp add: c'_def c2_def)
  moreover have "\<exists>xs n. c' = c\<lparr>cl_slot := xs, cl_maxslot := n\<rparr>"
  proof (cases "s \<ge> cl_maxslot c2")
    case True
    then show ?thesis by (auto simp: c'_def c2_def c1(5))
  next
    case False
    then have "c' = c\<lparr>cl_slot := cl_slot c', cl_maxslot := cl_maxslot c\<rparr>" by (simp add: c'_def c2_def c1(5))
    then show ?thesis by blast
  qed
  ultimately show ?thesis using i by blast
qed

lemma lower_max_spec:
  "0 \<le> lo \<Longrightarrow> lo \<le> m \<Longrightarrow> (\<forall>i. lower_max lo xs m < i \<and> i < m \<longrightarrow> xs ! nat i = None)
     \<and> lo - 1 \<le> lower_max lo xs m \<and> lower_max lo xs m < m
     \<and> (lower_max lo xs m = lo - 1 \<or> xs ! nat (lower_max lo xs m) \<noteq> None)"
proof (induction lo xs m rule: lower_max.induct)
  case (1 lo xs m)
  show ?case
  proof (cases "m - 1 \<ge> lo \<and> xs ! nat (m - 1) = None")
    case True
    then have e: "lower_max lo xs m = lower_max lo xs (m - 1)" by (subst lower_max.simps) (simp add: Let_def)
    note IH = 1(1) [OF refl True]
    have "xs ! nat i = None" if "lower_max lo xs (m - 1) < i" "i < m" for i
      using IH "1.prems"(1) True that by (cases "i = m - 1") auto
    then show ?thesis unfolding e using IH "1.prems"(1) True by auto
  next
    case False
    then have "lower_max lo xs m = m - 1" by (subst lower_max.simps) (auto simp: Let_def)
    then show ?thesis using False "1.prems" by auto
  qed
qed

lemma clear_ok:
  assumes "represents c m" "m s \<noteq> None"
  shows "\<exists>c'. cls_clear 0 s c = Inr c' \<and> represents c' (m(s := None))"
proof -
  obtain p where "at_slot s c = Some p" using assms by (auto simp: represents_def)
  then have s: "0 \<le> s" "s < nslot c" using at_slot_range by blast+
  define c1 where "c1 = c\<lparr>cl_slot := (cl_slot c)[nat s := None]\<rparr>"
  define c' where "c' = (if s = cl_maxslot c1 then c1\<lparr>cl_maxslot := lower_max 0 (cl_slot c1) (cl_maxslot c1)\<rparr> else c1)"
  have r: "cls_clear 0 s c = Inr c'" using write_at [OF s] by (simp add: cls_clear_def c1_def c'_def)
  have at: "at_slot i c' = (m(s := None)) i" "at_slot i c1 = (m(s := None)) i" for i
    using assms(1) at_slot_update [OF s, of i None] by (auto simp: c'_def c1_def represents_def)
  have mk: "\<forall>i > cl_maxslot c. m i = None" "cl_maxslot c = -1 \<or> m (cl_maxslot c) \<noteq> None"
    using assms(1) unfolding represents_def table_ok_iff max_ok_def by auto
  have "size_ok c'" using assms(1) by (simp add: c'_def c1_def represents_def table_ok_iff)
  moreover have "max_ok c'"
  proof (cases "s = cl_maxslot c")
    case False
    then have "cl_maxslot c' = cl_maxslot c" by (simp add: c'_def c1_def)
    then show ?thesis using mk False unfolding max_ok_def at by auto
  next
    case True
    let ?l = "lower_max 0 (cl_slot c1) s"
    have c': "cl_maxslot c' = ?l" using True by (simp add: c'_def c1_def)
    have n1: "nslot c1 = nslot c" by (simp add: c1_def)
    note l = lower_max_spec [of 0 s "cl_slot c1"]
    have "at_slot i c1 = None" if "?l < i" for i
    proof (cases "i < s")
      case True
      then show ?thesis using l that s n1 by (auto simp: at_slot_def)
    next
      case False
      then show ?thesis using mk(1) \<open>s = cl_maxslot c\<close> at(2) by auto
    qed
    moreover have "?l = -1 \<or> at_slot ?l c1 \<noteq> None" using l s n1 by (auto simp: at_slot_def)
    ultimately show ?thesis unfolding max_ok_def c' using at by auto
  qed
  ultimately show ?thesis using r at by (auto simp: represents_def table_ok_iff)
qed

lemma free_slot_spec:
  "free_slot null xs = Some i \<Longrightarrow> i < length xs \<and> (xs ! i = None \<or> xs ! i = null)"
  "free_slot null xs = None \<Longrightarrow> x \<in> set xs \<Longrightarrow> x \<noteq> None \<and> x \<noteq> null"
  "free_slot null xs = Some i \<Longrightarrow> k < i \<Longrightarrow> xs ! k \<noteq> None \<and> xs ! k \<noteq> null"
proof (induction xs arbitrary: i k)
  case (Cons a xs)
  { case 1
    then show ?case using Cons.IH(1) by (auto split: if_splits) }
  { case 2
    then show ?case using Cons.IH(2) by (auto split: if_splits) }
  { case 3
    then show ?case using Cons.IH(3) by (cases k) (auto split: if_splits) }
qed simp_all

text \<open>The lowest slot that is free or has the given object.\<close>

lemma occupied_finite:
  assumes "represents c m"
  shows "finite {i. m i \<noteq> None}"
proof (rule finite_subset [of _ "{0 ..< nslot c}"])
  show "{i. m i \<noteq> None} \<subseteq> {0 ..< nslot c}"
    using assms at_slot_range [of _ c] unfolding represents_def by fastforce
qed simp

lemma full_table:
  assumes "represents c m" "\<forall>j. 0 \<le> j \<and> j < nslot c \<longrightarrow> m j \<noteq> None"
  shows "nslot c \<le> int (card {i. m i \<noteq> None})"
proof -
  have "card {0 ..< nslot c} \<le> card {i. m i \<noteq> None}"
    using assms(2) by (intro card_mono occupied_finite [OF assms(1)]) auto
  then show ?thesis by simp
qed

lemma getnxt_ok:
  assumes "represents c m" "int (card {i. m i \<noteq> None}) < 2 ^ 30"
  shows "\<exists>s c'. cls_getnxt 0 null c = Some (s, c') \<and> represents c' m \<and> 0 \<le> s \<and> s < nslot c' \<and> s \<le> nslot c
    \<and> (m s = None \<or> m s = null) \<and> (\<forall>i. 0 \<le> i \<and> i < s \<longrightarrow> m i \<noteq> None \<and> m i \<noteq> null)
    \<and> cl_maxslot c' = cl_maxslot c \<and> (\<exists>k. c' = c\<lparr>cl_slot := cl_slot c @ replicate k None\<rparr>)"
proof (cases "free_slot null (cl_slot c)")
  case (Some i)
  have at: "at_slot i c = m i" for i using assms(1) by (simp add: represents_def)
  have i: "i < length (cl_slot c)" "cl_slot c ! i = None \<or> cl_slot c ! i = null"
    using free_slot_spec(1) [OF Some] by auto
  have "m j \<noteq> None \<and> m j \<noteq> null" if "0 \<le> j" "j < int i" for j
    using free_slot_spec(3) [OF Some, of "nat j"] that i(1) by (simp add: at [symmetric] at_slot_def nslot_def nat_less_iff)
  moreover have "m (int i) = None \<or> m (int i) = null"
    using i by (simp add: at [symmetric] at_slot_def nslot_def)
  moreover have "c = c\<lparr>cl_slot := cl_slot c @ replicate 0 None\<rparr>" by simp
  ultimately show ?thesis using assms(1) Some i(1)
    by (intro exI [of _ "int i"] exI [of _ c]) (auto simp: cls_getnxt_def nslot_def intro: exI [of _ 0])
next
  case None
  have at: "at_slot i c = m i" for i using assms(1) by (simp add: represents_def)
  have n: "0 \<le> nslot c" by (simp add: nslot_def)
  have full: "m j \<noteq> None \<and> m j \<noteq> null" if "0 \<le> j" "j < nslot c" for j
    using free_slot_spec(2) [OF None, of "cl_slot c ! nat j"] that
    by (simp add: at [symmetric] at_slot_def nslot_def nat_less_iff)
  then have b: "nslot c < 2 ^ 30" using full_table [OF assms(1)] assms(2) by force
  obtain c1 k where c1: "cls_alloc (nslot c) c = Some c1" "represents c1 m" "nslot c < nslot c1"
    "cl_maxslot c1 = cl_maxslot c" "c1 = c\<lparr>cl_slot := cl_slot c @ replicate k None\<rparr>"
    using room_ok [OF assms(1) n b] by auto
  have "m (nslot c) = None" by (simp add: at [symmetric] at_slot_def)
  then show ?thesis using c1 n None full
    by (intro exI [of _ "nslot c"] exI [of _ c1]) (auto simp: cls_getnxt_def)
qed

lemma slot_le_occupied:
  assumes "represents c m" "0 \<le> s" "\<forall>i. 0 \<le> i \<and> i < s \<longrightarrow> m i \<noteq> None"
  shows "s \<le> int (card {i. m i \<noteq> None})"
proof -
  have "card {0 ..< s} \<le> card {i. m i \<noteq> None}"
    using assms(3) by (intro card_mono occupied_finite [OF assms(1)]) auto
  then show ?thesis using assms(2) by simp
qed

lemma represents_new: "represents (classifier_new sh msk) (\<lambda>_. None)"
  by (auto simp: represents_def table_ok_def classifier_new_def at_slot_def nslot_def)

lemma install_next_ok:
  assumes "represents c m" "cl_maxslot c + 1 < 2 ^ 30"
  shows "\<exists>s c'. install_next (Some p) c = Some (Inr (s, c')) \<and> represents c' (m(s := Some p))
    \<and> (\<forall>i \<ge> s. m i = None) \<and> (s = 0 \<or> m (s - 1) \<noteq> None)"
proof -
  let ?s = "cl_maxslot c + 1"
  have mk: "\<forall>i > cl_maxslot c. m i = None" "cl_maxslot c = -1 \<or> m (cl_maxslot c) \<noteq> None"
    using assms(1) unfolding represents_def table_ok_iff max_ok_def by auto
  have "0 \<le> ?s" using assms(1) by (auto simp: represents_def table_ok_def)
  from install_ok [OF assms(1) this assms(2), of p] mk show ?thesis
    by (auto simp: install_next_def Let_def)
qed

lemma install_diverges:
  "represents c m \<Longrightarrow> 2 ^ 30 \<le> s \<Longrightarrow> s < 2 ^ 31 \<Longrightarrow> nslot c \<le> s \<Longrightarrow> cls_install s p c = None"
  using alloc_diverges [of c s] by (simp add: cls_install_def represents_def)

text \<open>
  C27: A slot table behaves as a map from slot numbers to objects. install binds a slot and keeps all
  others, clear unbinds one, installNext takes the slot behind the last occupied one, and
  alloc-port gives the lowest slot that is free or has the null agent. Every one of them
  returns for slots below \<open>2 ^ 30\<close>; for a higher slot number install never does, because the
  table size overflows to 0.
\<close>

theorem classifier_table:
  assumes "represents c m"
  shows "(0 \<le> s \<and> s < 2 ^ 30 \<longrightarrow>
      (\<exists>c'. cls_install s (Some p) c = Some (Inr c') \<and> represents c' (m(s := Some p))))
    \<and> (m s \<noteq> None \<longrightarrow> (\<exists>c'. cls_clear 0 s c = Inr c' \<and> represents c' (m(s := None))))
    \<and> (cl_maxslot c + 1 < 2 ^ 30 \<longrightarrow>
      (\<exists>t c'. install_next (Some p) c = Some (Inr (t, c')) \<and> represents c' (m(t := Some p))
         \<and> (\<forall>i \<ge> t. m i = None) \<and> (t = 0 \<or> m (t - 1) \<noteq> None)))
    \<and> (int (card {i. m i \<noteq> None}) < 2 ^ 30 \<longrightarrow>
      (\<exists>t c'. cls_getnxt 0 null c = Some (t, c') \<and> represents c' m \<and> 0 \<le> t \<and> (m t = None \<or> m t = null)
         \<and> (\<forall>i. 0 \<le> i \<and> i < t \<longrightarrow> m i \<noteq> None \<and> m i \<noteq> null)))
    \<and> (2 ^ 30 \<le> s \<and> s < 2 ^ 31 \<and> nslot c \<le> s \<longrightarrow> cls_install s (Some p) c = None)"
  (is "?A \<and> ?B \<and> ?C \<and> ?D \<and> ?E")
proof (intro conjI)
  show ?A using install_ok [OF assms] by blast
  show ?B using clear_ok [OF assms] by blast
  show ?C using install_next_ok [OF assms] by blast
  show ?D using getnxt_ok [OF assms, of null] by blast
  show ?E using install_diverges [OF assms] by blast
qed

theorem classifier_table_witness:
  "(\<exists>c'. cls_install 40 (Some 7) (classifier_new 0 (-1)) = Some (Inr c')
      \<and> represents c' ((\<lambda>_. None)(40 := Some 7)))
   \<and> cls_install (2 ^ 30) (Some 7) (classifier_new 0 (-1)) = None"
  using classifier_table [OF represents_new, of 40 7 0 "-1" None]
    classifier_table [OF represents_new, of "2 ^ 30" 7 0 "-1" None]
  by (auto simp: nslot_def classifier_new_def)

section \<open>Agents on a port classifier\<close>

text \<open>\<open>alloc-port\<close> and \<open>install\<close>, as the script does to attach an agent; \<open>null\<close> is the null agent.\<close>

definition attach_port :: "nat \<Rightarrow> nat \<Rightarrow> 'a classifier_scheme \<Rightarrow> (cls_error, int \<times> 'a classifier_scheme) result option" where
  "attach_port null a c =
     Option.bind (cls_getnxt 0 (Some null) c) (\<lambda>(s, c1).
       map_option (\<lambda>r. bind_res r (\<lambda>c2. Inr (s, c2))) (cls_install s (Some a) c1))"

fun attach_ports ::
    "nat \<Rightarrow> nat list \<Rightarrow> 'a classifier_scheme \<Rightarrow> (cls_error, int list \<times> 'a classifier_scheme) result option" where
  "attach_ports null [] c = Some (Inr ([], c))"
| "attach_ports null (a # as) c =
     Option.bind (attach_port null a c) (\<lambda>r. case r of Inl e \<Rightarrow> Some (Inl e)
       | Inr (s, c1) \<Rightarrow> map_option (\<lambda>r. bind_res r (\<lambda>(ss, c2). Inr (s # ss, c2))) (attach_ports null as c1))"

lemma attach_port_ok:
  assumes "represents c m" "int (card {i. m i \<noteq> None}) < 2 ^ 30"
  shows "\<exists>s c'. attach_port null a c = Some (Inr (s, c')) \<and> represents c' (m(s := Some a))
    \<and> (m s = None \<or> m s = Some null)"
proof -
  obtain s c1 where s: "cls_getnxt 0 (Some null) c = Some (s, c1)" "represents c1 m" "0 \<le> s"
    "m s = None \<or> m s = Some null" "\<forall>i. 0 \<le> i \<and> i < s \<longrightarrow> m i \<noteq> None \<and> m i \<noteq> Some null"
    using getnxt_ok [OF assms, of "Some null"] by blast
  have "s < 2 ^ 30" using slot_le_occupied [OF assms(1) s(3)] s(5) assms(2) by force
  from install_ok [OF s(2,3) this, of a] s show ?thesis by (auto simp: attach_port_def)
qed

lemma attach_ports_ok:
  assumes "represents c m" "int (card {i. m i \<noteq> None} + length as) < 2 ^ 30" "null \<notin> set as"
  shows "\<exists>ss c' m'. attach_ports null as c = Some (Inr (ss, c')) \<and> represents c' m' \<and> length ss = length as
    \<and> distinct ss \<and> (\<forall>k < length as. m' (ss ! k) = Some (as ! k))
    \<and> (\<forall>i. i \<notin> set ss \<longrightarrow> m' i = m i) \<and> (\<forall>s \<in> set ss. m s = None \<or> m s = Some null)"
  using assms
proof (induction as arbitrary: c m)
  case Nil
  then show ?case by auto
next
  case (Cons a as)
  obtain s c1 where s: "attach_port null a c = Some (Inr (s, c1))" "represents c1 (m(s := Some a))"
    "m s = None \<or> m s = Some null"
    using attach_port_ok [OF Cons.prems(1), of null a] Cons.prems(2) by auto
  have "{i. (m(s := Some a)) i \<noteq> None} = insert s {i. m i \<noteq> None}" by auto
  then have card: "card {i. (m(s := Some a)) i \<noteq> None} \<le> Suc (card {i. m i \<noteq> None})"
    using card_insert_le_m1 occupied_finite [OF Cons.prems(1)] by (simp add: card_insert_if)
  have lt: "int (card {i. (m(s := Some a)) i \<noteq> None} + length as) < 2 ^ 30" "null \<notin> set as" "a \<noteq> null"
    using card Cons.prems by auto
  obtain ss c' m' where IH: "attach_ports null as c1 = Some (Inr (ss, c'))" "represents c' m'" "length ss = length as"
    "distinct ss" "\<forall>k < length as. m' (ss ! k) = Some (as ! k)" "\<forall>i. i \<notin> set ss \<longrightarrow> m' i = (m(s := Some a)) i"
    "\<forall>t \<in> set ss. (m(s := Some a)) t = None \<or> (m(s := Some a)) t = Some null"
    using Cons.IH [OF s(2) lt(1,2)] by blast
  have ns: "s \<notin> set ss" using IH(7) lt(3) by fastforce
  have "\<forall>k < length (a # as). m' ((s # ss) ! k) = Some ((a # as) ! k)"
    using IH(5,6) ns by (auto simp: nth_Cons split: nat.splits)
  moreover have "\<forall>t \<in> set (s # ss). m t = None \<or> m t = Some null"
    using IH(7) s(3) ns by (auto split: if_splits)
  moreover have "\<forall>i. i \<notin> set (s # ss) \<longrightarrow> m' i = m i" using IH(6) by auto
  ultimately show ?case using s(1) IH(1-4) ns
    by (intro exI [of _ "s # ss"] exI [of _ c'] exI [of _ m']) auto
qed

lemma find_at:
  assumes "represents c m" "m (fl_port f) = Some a"
  shows "cls_recv (port_classify f) ns c = (PassTo a, c)"
  using assms by (simp add: cls_recv_def cls_find_def port_classify_def represents_def)

text \<open>
  C28: Agents attached to a node get pairwise different ports, and afterwards a packet for one of
  these ports is passed to exactly the agent that got it; agents attached before, on ports
  of their own, keep their packets.
\<close>

theorem port_demux:
  assumes "represents c m" "int (card {i. m i \<noteq> None} + length as) < 2 ^ 30" "null \<notin> set as"
  shows "\<exists>ps c'. attach_ports null as c = Some (Inr (ps, c')) \<and> length ps = length as \<and> distinct ps
    \<and> (\<forall>k < length as. \<forall>f. fl_port f = ps ! k \<longrightarrow> cls_recv (port_classify f) ns c' = (PassTo (as ! k), c'))
    \<and> (\<forall>f a. m (fl_port f) = Some a \<and> a \<noteq> null \<longrightarrow> cls_recv (port_classify f) ns c' = (PassTo a, c'))"
proof -
  obtain ps c' m' where r: "attach_ports null as c = Some (Inr (ps, c'))" "represents c' m'" "length ps = length as"
    "distinct ps" "\<forall>k < length as. m' (ps ! k) = Some (as ! k)" "\<forall>i. i \<notin> set ps \<longrightarrow> m' i = m i"
    "\<forall>s \<in> set ps. m s = None \<or> m s = Some null"
    using attach_ports_ok [OF assms] by blast
  have "m' s = Some a" if "m s = Some a" "a \<noteq> null" for s a
    using r(6,7) that by (cases "s \<in> set ps") auto
  then show ?thesis using r find_at [OF r(2)] by (intro exI [of _ ps] exI [of _ c']) auto
qed

theorem port_demux_witness:
  "\<exists>p q c'. attach_ports 2 [3, 4] (classifier_new 0 (-1)) = Some (Inr ([p, q], c')) \<and> p \<noteq> q
     \<and> cls_recv (port_classify \<lparr>fl_src = 0, fl_dst = 0, fl_port = q, fl_fid = 0\<rparr>) (\<lambda>_ c. c) c' = (PassTo 4, c')"
proof -
  obtain ps c' where r: "attach_ports 2 [3, 4] (classifier_new 0 (-1)) = Some (Inr (ps, c'))" "length ps = 2"
    "distinct ps" "\<forall>k < 2. \<forall>f. fl_port f = ps ! k \<longrightarrow>
       cls_recv (port_classify f) (\<lambda>_ c. c) c' = (PassTo ([3, 4] ! k), c')"
    using port_demux [OF represents_new, of "[3, 4]" 2 0 "-1" "\<lambda>_ c. c"] by auto
  obtain p q where ps: "ps = [p, q]" using r(2) by (auto simp: length_Suc_conv numeral_2_eq_2)
  have "(1::nat) < 2" by simp
  from r(4) [rule_format, OF this] have "\<forall>f. fl_port f = q \<longrightarrow> cls_recv (port_classify f) (\<lambda>_ c. c) c' = (PassTo 4, c')"
    unfolding ps by simp
  then show ?thesis using r(1,3) ps
    by (intro exI [of _ p] exI [of _ q] exI [of _ c']) simp
qed

section \<open>Destination hash classifiers\<close>

text \<open>The route table that a destination hash classifier stands for.\<close>

definition routes :: "'a hash_classifier_scheme \<Rightarrow> int \<Rightarrow> nat option" where
  "routes c k = Option.bind (hc_ht c [k]) (\<lambda>s. at_slot s c)"

definition hash_ok :: "'a hash_classifier_scheme \<Rightarrow> bool" where
  "hash_ok c \<longleftrightarrow> hc_kind c = Dest \<and> table_ok c
     \<and> (\<forall>k s. hc_ht c [k] = Some s \<longrightarrow> at_slot s c \<noteq> None \<and> s \<le> cl_maxslot c)"

lemma represents_self: "table_ok c \<Longrightarrow> represents c (\<lambda>i. at_slot i c)"
  by (simp add: represents_def)

lemma hash_fields [simp]:
  "hc_kind (c\<lparr>cl_slot := xs\<rparr>) = hc_kind c" "hc_kind (c\<lparr>cl_maxslot := n\<rparr>) = hc_kind c"
  "hc_ht (c\<lparr>cl_slot := xs\<rparr>) = hc_ht c" "hc_ht (c\<lparr>cl_maxslot := n\<rparr>) = hc_ht c"
  "hc_default (c\<lparr>cl_slot := xs\<rparr>) = hc_default c" "hc_default (c\<lparr>cl_maxslot := n\<rparr>) = hc_default c"
  "mshift (c\<lparr>cl_slot := xs\<rparr>) = mshift c" "mshift (c\<lparr>cl_maxslot := n\<rparr>) = mshift c"
  by (simp_all add: mshift_def fun_eq_iff)

lemma table_hash [simp]:
  "table_ok (c\<lparr>hc_ht := h\<rparr>) = table_ok c" "at_slot i (c\<lparr>hc_ht := h\<rparr>) = at_slot i c"
  "mshift (c\<lparr>hc_ht := h\<rparr>) = mshift c"
  by (simp_all add: table_ok_def at_slot_def nslot_def mshift_def fun_eq_iff)

lemma dest_install_ok:
  fixes c :: "'a hash_classifier_scheme"
  assumes ok: "hash_ok c" and b: "int (card {i. at_slot i c \<noteq> None}) < 2 ^ 30"
  shows "\<exists>c'. dest_install d (Some t) c = Some (Inr c') \<and> hash_ok c' \<and> routes c' = (routes c)(mshift c d := Some t)
    \<and> mshift c' = mshift c \<and> hc_default c' = hc_default c \<and> cl_default c' = cl_default c
    \<and> cl_shift c' = cl_shift c \<and> card {i. at_slot i c' \<noteq> None} \<le> Suc (card {i. at_slot i c \<noteq> None})"
proof -
  let ?m = "\<lambda>i. at_slot i c"
  have r: "represents c ?m" using ok represents_self by (auto simp: hash_ok_def)
  obtain s c1 k where s: "cls_getnxt 0 (Some t) c = Some (s, c1)" "represents c1 ?m" "0 \<le> s"
    "?m s = None \<or> ?m s = Some t" "\<forall>i. 0 \<le> i \<and> i < s \<longrightarrow> ?m i \<noteq> None"
    "cl_maxslot c1 = cl_maxslot c" "c1 = c\<lparr>cl_slot := cl_slot c @ replicate k None\<rparr>"
    using getnxt_ok [OF r b, of "Some t"] by blast
  have "s < 2 ^ 30" using slot_le_occupied [OF r s(3)] s(5) b by force
  from install_ok [OF s(2,3) this, of t] obtain c2 xs n where c2: "cls_install s (Some t) c1 = Some (Inr c2)"
    "represents c2 (?m(s := Some t))" "cl_maxslot c2 = max s (cl_maxslot c)"
    "c2 = c1\<lparr>cl_slot := xs, cl_maxslot := n\<rparr>"
    using s(6) by auto
  define c' where "c' = set_hash 0 d 0 s c2"
  have f: "hc_kind c2 = Dest" "hc_ht c2 = hc_ht c" "mshift c2 = mshift c" "hc_default c2 = hc_default c"
    "cl_default c2 = cl_default c" "cl_shift c2 = cl_shift c"
    using ok by (simp_all add: c2(4) s(7) hash_ok_def)
  have at: "at_slot i c' = (?m(s := Some t)) i" for i
    using c2(2) by (simp add: c'_def set_hash_def represents_def)
  have ht: "hc_ht c' = (hc_ht c)([mshift c d] \<mapsto> s)"
    by (simp add: c'_def set_hash_def hashkey_def f)
  have i: "dest_install d (Some t) c = Some (Inr c')" using s(1) c2(1) by (simp add: dest_install_def c'_def)
  have "hash_ok c'"
    unfolding hash_ok_def
  proof (intro conjI allI impI)
    show "hc_kind c' = Dest" using f by (simp add: c'_def set_hash_def)
    show "table_ok c'" using c2(2) by (simp add: c'_def set_hash_def represents_def)
    fix k u
    assume "hc_ht c' [k] = Some u"
    then have u: "u = s \<or> ?m u \<noteq> None \<and> u \<le> cl_maxslot c"
      using ok by (auto simp: ht hash_ok_def split: if_splits)
    show "at_slot u c' \<noteq> None" using u at by auto
    show "u \<le> cl_maxslot c'" using u c2(3) by (auto simp: c'_def set_hash_def)
  qed
  moreover have "routes c' = (routes c)(mshift c d := Some t)"
  proof
    fix k
    have "at_slot u c \<noteq> None" if "hc_ht c [k] = Some u" for u using ok that by (simp add: hash_ok_def)
    then show "routes c' k = ((routes c)(mshift c d := Some t)) k"
      using s(4) at by (cases "hc_ht c [k]") (auto simp: routes_def ht split: if_splits)
  qed
  moreover have "card {i. at_slot i c' \<noteq> None} \<le> Suc (card {i. ?m i \<noteq> None})"
  proof -
    have "{i. at_slot i c' \<noteq> None} = insert s {i. ?m i \<noteq> None}" using at by auto
    then show ?thesis by (simp add: card_insert_le_m1 card_insert_if occupied_finite [OF r])
  qed
  moreover have "mshift c' = mshift c" "hc_default c' = hc_default c" "cl_default c' = cl_default c" "cl_shift c' = cl_shift c"
    using f by (simp_all add: c'_def set_hash_def)
  ultimately show ?thesis using i by blast
qed

fun dest_installs :: "(int \<times> nat) list \<Rightarrow> 'a hash_classifier_scheme \<Rightarrow> 'a hash_classifier_scheme cls_result" where
  "dest_installs [] c = Some (Inr c)"
| "dest_installs ((d, t) # ds) c =
     Option.bind (dest_install d (Some t) c) (\<lambda>r. case r of Inl e \<Rightarrow> Some (Inl e) | Inr c' \<Rightarrow> dest_installs ds c')"

fun routed :: "('a hash_classifier_scheme) \<Rightarrow> (int \<times> nat) list \<Rightarrow> (int \<Rightarrow> nat option) \<Rightarrow> int \<Rightarrow> nat option" where
  "routed c [] m = m"
| "routed c ((d, t) # ds) m = routed c ds (m(mshift c d := Some t))"

lemma routed_cong: "mshift c = mshift c' \<Longrightarrow> routed c ds m = routed c' ds m"
  by (induction c ds m rule: routed.induct) auto

lemma dest_installs_ok:
  assumes "hash_ok c" "int (card {i. at_slot i c \<noteq> None} + length ds) < 2 ^ 30"
  shows "\<exists>c'. dest_installs ds c = Some (Inr c') \<and> hash_ok c' \<and> routes c' = routed c ds (routes c)
    \<and> mshift c' = mshift c \<and> hc_default c' = hc_default c \<and> cl_default c' = cl_default c \<and> cl_shift c' = cl_shift c"
  using assms
proof (induction ds arbitrary: c)
  case Nil
  then show ?case by simp
next
  case (Cons a ds)
  obtain d t where a: "a = (d, t)" by force
  obtain c1 where c1: "dest_install d (Some t) c = Some (Inr c1)" "hash_ok c1"
    "routes c1 = (routes c)(mshift c d := Some t)" "mshift c1 = mshift c" "hc_default c1 = hc_default c"
    "cl_default c1 = cl_default c" "cl_shift c1 = cl_shift c"
    "card {i. at_slot i c1 \<noteq> None} \<le> Suc (card {i. at_slot i c \<noteq> None})"
    using dest_install_ok [OF Cons.prems(1), of d t] Cons.prems(2) by auto
  have "int (card {i. at_slot i c1 \<noteq> None} + length ds) < 2 ^ 30" using c1(8) Cons.prems(2) by simp
  from Cons.IH [OF c1(2) this] obtain c' where c': "dest_installs ds c1 = Some (Inr c')" "hash_ok c'"
    "routes c' = routed c1 ds (routes c1)" "mshift c' = mshift c1" "hc_default c' = hc_default c1"
    "cl_default c' = cl_default c1" "cl_shift c' = cl_shift c1" by blast
  show ?case using c1 c' routed_cong [OF c1(4)] by (intro exI [of _ c']) (simp add: a)
qed

text \<open>A lookup shifts the address twice, which is harmless only without a shift.\<close>

lemma find_route:
  assumes "hash_ok c" "hc_default c = -1" "cl_default c = Some g"
  shows "cls_recv (dest_classify f) ns c
    = (PassTo (case routes c (mshift c (mshift c (fl_dst f))) of Some t \<Rightarrow> t | None \<Rightarrow> g), c)"
proof (cases "hc_ht c [mshift c (mshift c (fl_dst f))]")
  case None
  then have "hash_lookup f c = -1" using assms(1) by (simp add: hash_lookup_def get_hash_def hashkey_def hash_ok_def)
  then have "dest_classify f c = (-1, c)" using assms(2) by (simp add: dest_classify_def)
  moreover have "at_slot (-1) c = None" by (simp add: at_slot_def)
  ultimately show ?thesis using None assms(3) by (simp add: cls_recv_def cls_find_def routes_def)
next
  case (Some s)
  then have s: "at_slot s c \<noteq> None" "s \<le> cl_maxslot c" using assms(1) by (auto simp: hash_ok_def)
  then obtain t where t: "at_slot s c = Some t" by auto
  have "hash_lookup f c = s" using assms(1) Some by (simp add: hash_lookup_def get_hash_def hashkey_def hash_ok_def)
  moreover have "0 \<le> s" using at_slot_range [OF t] by simp
  ultimately have "dest_classify f c = (s, c)" using s(2) by (simp add: dest_classify_def)
  then show ?thesis using Some t by (simp add: cls_recv_def cls_find_def routes_def)
qed

lemma mshift_twice: "cl_shift c = 0 \<Longrightarrow> mshift c (mshift c v) = mshift c v"
  by (simp add: mshift_def and.assoc)

definition entry_new :: "nat \<Rightarrow> int \<Rightarrow> nat \<Rightarrow> hash_classifier" where
  "entry_new sh msk g = (hash_new Dest sh msk)\<lparr>cl_default := Some g\<rparr>"

lemma entry_new_ok:
  "hash_ok (entry_new sh msk g)" "hc_default (entry_new sh msk g) = -1" "cl_default (entry_new sh msk g) = Some g"
  "cl_shift (entry_new sh msk g) = sh" "routes (entry_new sh msk g) = (\<lambda>_. None)"
  "{i. at_slot i (entry_new sh msk g) \<noteq> None} = {}"
  by (auto simp: entry_new_def hash_new_def hash_ok_def classifier.defs classifier_new_def table_ok_def
      at_slot_def nslot_def routes_def)

text \<open>
  C26: The entry classifier of a node, with its routes installed in any order and without a
  shift, passes a packet to the object installed last for its (masked) destination, and any
  other packet, a broadcast for instance, to the default target.
\<close>

theorem entry_routes:
  assumes "length ds < 2 ^ 30"
  shows "\<exists>c. dest_installs ds (entry_new 0 msk g) = Some (Inr c)
    \<and> (\<forall>f. cls_recv (dest_classify f) ns c = (PassTo
          (case map_of (rev (map (\<lambda>(d, t). (d AND msk, t)) ds)) (fl_dst f AND msk) of Some t \<Rightarrow> t | None \<Rightarrow> g), c))"
proof -
  note e = entry_new_ok [of 0 msk g]
  have "int (card {i. at_slot i (entry_new 0 msk g) \<noteq> None} + length ds) < 2 ^ 30"
    unfolding e(6) using assms by simp
  from dest_installs_ok [OF e(1) this] obtain c where c: "dest_installs ds (entry_new 0 msk g) = Some (Inr c)" "hash_ok c"
    "routes c = routed (entry_new 0 msk g) ds (\<lambda>_. None)" "mshift c = mshift (entry_new 0 msk g)" "hc_default c = -1"
    "cl_default c = Some g" "cl_shift c = 0"
    unfolding e(2-5) by blast
  have m: "mshift (entry_new 0 msk g) v = v AND msk" for v
    by (simp add: mshift_def entry_new_def hash_new_def classifier.defs classifier_new_def)
  have r: "routed (entry_new 0 msk g) ds h k =
      (case map_of (rev (map (\<lambda>(d, t). (d AND msk, t)) ds)) k of Some t \<Rightarrow> Some t | None \<Rightarrow> h k)" for h k
    by (induction ds arbitrary: h) (auto simp: m map_add_def split: option.splits)
  have "cls_recv (dest_classify f) ns c = (PassTo
          (case map_of (rev (map (\<lambda>(d, t). (d AND msk, t)) ds)) (fl_dst f AND msk) of Some t \<Rightarrow> t | None \<Rightarrow> g), c)" for f
    using find_route [OF c(2,5,6), of f ns] mshift_twice [OF c(7)] c(3) r [of "\<lambda>_. None"]
    by (simp add: c(4) m split: option.splits)
  then show ?thesis using c(1) by blast
qed

theorem entry_routes_witness:
  "\<exists>c. dest_installs [(3, 7), (5, 8)] (entry_new 0 (-1) 9) = Some (Inr c)
     \<and> cls_recv (dest_classify \<lparr>fl_src = 0, fl_dst = 5, fl_port = 0, fl_fid = 0\<rparr>) (\<lambda>_ c. c) c = (PassTo 8, c)
     \<and> cls_recv (dest_classify \<lparr>fl_src = 0, fl_dst = -1, fl_port = 0, fl_fid = 0\<rparr>) (\<lambda>_ c. c) c = (PassTo 9, c)"
proof -
  have "length [(3::int, 7::nat), (5, 8)] < 2 ^ 30" by simp
  from entry_routes [OF this, of "-1" 9 "\<lambda>_ c. c"] show ?thesis by auto
qed

text \<open>With a shift the one installed route is found only if shifting it again does not change it.\<close>

lemma shifted_route_lost:
  assumes "dest_install d (Some t) (entry_new sh msk g) = Some (Inr c)" "t \<noteq> g" "fl_dst f = d"
  shows "cls_recv (dest_classify f) ns c = (PassTo t, c) \<longleftrightarrow> mshift c (mshift c d) = mshift c d"
proof -
  note e = entry_new_ok [of sh msk g]
  have "int (card {i. at_slot i (entry_new sh msk g) \<noteq> None}) < 2 ^ 30" unfolding e(6) by simp
  from dest_install_ok [OF e(1) this, of d t] assms(1)
  have c: "hash_ok c" "routes c = (\<lambda>_. None)(mshift c d := Some t)" "hc_default c = -1" "cl_default c = Some g"
    by (auto simp: e)
  show ?thesis using find_route [OF c(1,3,4), of f ns] c(2) assms(2,3) by auto
qed

text \<open>Ports below the reserved number are not given out.\<close>

lemma reserved_slots_kept:
  "cls_getnxt r null c = Some (s, c') \<Longrightarrow> int r \<le> nslot c \<Longrightarrow> int r \<le> s"
  by (auto simp: cls_getnxt_def split: option.splits)

end
