(* ===== verification/NodeStack.thy ===== *)
theory NodeStack
  imports MacBase WirelessPhy Classifier
begin

text \<open>
  The protocol stack of a mobile node, from the agent to the air and back: \<open>DumbAgent\<close>
  (\<open>mobile/dumb-agent.cc\<close>), \<open>LL\<close>, \<open>Mac\<close>, \<open>Phy::recv\<close> (\<open>mac/phy.cc\<close>), \<open>WirelessPhy\<close> and the two
  classifiers: the entry of the node, which is the target of its agents and of the link layer,
  and the port classifier, wired as \<open>tcl/lib/ns-mobilenode.tcl\<close> does.
  The path of one packet is the composition of these operations; the events between them (the
  delays of the link layer, of the queue and of the MAC) only postpone it.
\<close>

section \<open>Operations\<close>

text \<open>\<open>None\<close> is the failing assertion on a packet for another node.\<close>

datatype dumb_out = ToDmux | ToTarget

definition dumb_recv :: "int \<Rightarrow> frame \<Rightarrow> dumb_out option" where
  "dumb_recv here f =
     (if ch_direction (cmn f) = DIR_UP then
        if ip_daddr (ip f) = IP_BROADCAST then Some ToDmux
        else if ip_daddr (ip f) = here then Some ToDmux else None
      else Some ToTarget)"

datatype phy_out = ToChannel | ToMac | PhyFree

text \<open>The received power and the modulation scheme are used for incoming packets only.\<close>

definition phy_recv ::
    "real \<Rightarrow> real \<Rightarrow> (real \<Rightarrow> int) option \<Rightarrow> frame \<Rightarrow> wphy \<Rightarrow> phy_out \<times> frame \<times> wphy" where
  "phy_recv now Pr modulation f s =
     (if ch_direction (cmn f) = DIR_DOWN
      then (let (b, s') = phy_sendDown now (ch_txtime (cmn f)) s
            in (if b then ToChannel else PhyFree, f, s'))
      else (let (b, err, s') = phy_sendUp now (ch_txtime (cmn f)) Pr modulation (ch_error (cmn f)) s
            in (if b then ToMac else PhyFree, set_cmn (\<lambda>h. h\<lparr>ch_error := err\<rparr>) f, s')))"

text \<open>The copy of a frame that the channel delivers (\<open>WirelessChannel::sendUp\<close>).\<close>

definition air_copy :: "frame \<Rightarrow> frame" where
  "air_copy f = set_cmn (\<lambda>h. h\<lparr>ch_direction := DIR_UP\<rparr>) f"

record node =
  nd_phy :: wphy
  nd_mac :: mac
  nd_link :: link
  nd_cfg :: link_cfg
  nd_here :: int
  nd_entry :: hash_classifier
  nd_dmux :: classifier
  nd_rtagent :: nat
  nd_demux :: nat

datatype node_error = DumbAssert | LinkFailed link_error

definition new_link_acts :: "link \<Rightarrow> link \<Rightarrow> link_act list" where
  "new_link_acts l l' = drop (length (l_acts l)) (l_acts l')"

definition new_mac_acts :: "mac \<Rightarrow> mac \<Rightarrow> mac_act list" where
  "new_mac_acts m m' = drop (length (mac_acts m)) (mac_acts m')"

definition flow_of :: "frame \<Rightarrow> flow" where
  "flow_of f = \<lparr>fl_src = ip_saddr (ip f), fl_dst = ip_daddr (ip f), fl_port = ip_dport (ip f), fl_fid = ip_fid (ip f)\<rparr>"

text \<open>The entry classifier; a table without a target for the packet ends the simulation in Tcl.\<close>

definition node_entry :: "frame \<Rightarrow> node \<Rightarrow> cls_out" where
  "node_entry f n = fst (cls_recv (dest_classify (flow_of f)) (\<lambda>_ c. c) (nd_entry n))"

text \<open>
  A packet of an agent on its way down; the result is the frame that goes to the channel, if
  it gets there at once (it may also be for the node itself, wait for an address resolution, or
  be dropped).
\<close>

definition node_transmit ::
    "real \<Rightarrow> nat \<Rightarrow> nat \<Rightarrow> node \<Rightarrow> (node_error, frame option \<times> node) result" where
  "node_transmit now qh p n =
     (if node_entry (l_mem (nd_link n) p) n \<noteq> PassTo (nd_rtagent n) then Inr (None, n)
      else case dumb_recv (nd_here n) (l_mem (nd_link n) p) of
        None \<Rightarrow> Inl DumbAssert
      | Some ToDmux \<Rightarrow> Inr (None, n)
      | Some ToTarget \<Rightarrow>
          (case ll_recv (nd_cfg n) p (nd_link n) of
             Inl e \<Rightarrow> Inl (LinkFailed e)
           | Inr l \<Rightarrow>
               if SchedDown p \<in> set (new_link_acts (nd_link n) l)
               then let (M, m) = mac_recv p (Some qh) (l_mem l, nd_mac n);
                        (out, f, y) = phy_recv now 0 None (M p) (nd_phy n)
                    in Inr (if out = ToChannel then Some f else None,
                            n\<lparr>nd_link := l\<lparr>l_mem := M\<rparr>, nd_mac := m, nd_phy := y\<rparr>)
               else Inr (None, n\<lparr>nd_link := l\<rparr>)))"

datatype verdict = Undetected | Filtered | NotForAgent | Delivered nat frame

text \<open>The port classifier, and the way to it from the entry.\<close>

definition to_agent :: "frame \<Rightarrow> node \<Rightarrow> verdict" where
  "to_agent f n =
     (case fst (cls_recv (port_classify (flow_of f)) (\<lambda>_ c. c) (nd_dmux n)) of
        PassTo a \<Rightarrow> Delivered a f
      | FreePacket \<Rightarrow> NotForAgent)"

definition from_entry :: "frame \<Rightarrow> node \<Rightarrow> (node_error, verdict) result" where
  "from_entry f n =
     (if node_entry f n = PassTo (nd_demux n) then Inr (to_agent f n)
      else if node_entry f n = PassTo (nd_rtagent n)
      then (case dumb_recv (nd_here n) f of
              None \<Rightarrow> Inl DumbAssert
            | Some ToDmux \<Rightarrow> Inr (to_agent f n)
            | Some ToTarget \<Rightarrow> Inr NotForAgent)
      else Inr NotForAgent)"

text \<open>A frame \<open>f\<close> arriving from the channel, in the packet \<open>p\<close>.\<close>

definition node_receive ::
    "real \<Rightarrow> real \<Rightarrow> (real \<Rightarrow> int) option \<Rightarrow> nat \<Rightarrow> frame \<Rightarrow> node \<Rightarrow> (node_error, verdict \<times> node) result" where
  "node_receive now Pr modulation p f n =
     (let (out, g, y) = phy_recv now Pr modulation f (nd_phy n); n1 = (n\<lparr>nd_phy := y\<rparr>)
      in if out \<noteq> ToMac then Inr (Undetected, n1)
         else let (M, m) = mac_recv p None ((l_mem (nd_link n))(p := g), nd_mac n);
                  n2 = n1\<lparr>nd_mac := m, nd_link := (nd_link n)\<lparr>l_mem := M\<rparr>\<rparr>
              in if ToLL p (mac_delay (nd_mac n)) \<notin> set (new_mac_acts (nd_mac n) m) then Inr (Filtered, n2)
                 else (case ll_recv (nd_cfg n) p (nd_link n2) of
                        Inl e \<Rightarrow> Inl (LinkFailed e)
                      | Inr l \<Rightarrow>
                          let n3 = (n2\<lparr>nd_link := l\<rparr>)
                          in if SchedUp p \<in> set (new_link_acts (nd_link n2) l)
                             then map_sum id (\<lambda>v. (v, n3)) (from_entry (l_mem l p) n3)
                             else Inr (NotForAgent, n3)))"

text \<open>The wiring of the script: the node's own address leads to the ports, all else to the agent.\<close>

definition wired :: "node \<Rightarrow> bool" where
  "wired n \<longleftrightarrow> hash_ok (nd_entry n) \<and> hc_default (nd_entry n) = -1 \<and> mshift (nd_entry n) = id
     \<and> cl_default (nd_entry n) = Some (nd_rtagent n) \<and> nd_demux n \<noteq> nd_rtagent n
     \<and> routes (nd_entry n) = [nd_here n \<mapsto> nd_demux n]"

lemma wired_entry:
  "wired n \<Longrightarrow> node_entry f n = PassTo (if ip_daddr (ip f) = nd_here n then nd_demux n else nd_rtagent n)"
  by (simp add: wired_def node_entry_def find_route flow_of_def)

section \<open>The way down\<close>

text \<open>The MAC address that the link layer finds at once for the IP address \<open>d\<close>.\<close>

definition resolved :: "int \<Rightarrow> link \<Rightarrow> int option" where
  "resolved d l = (if d = IP_BROADCAST then Some MAC_BROADCAST
     else case arplookup d (l_arp l) of None \<Rightarrow> None
          | Some e \<Rightarrow> if ae_up e then Some (ae_macaddr e) else None)"

text \<open>A packet as the RFID agents send it.\<close>

definition agent_frame :: "frame \<Rightarrow> bool" where
  "agent_frame f \<longleftrightarrow> ch_direction (cmn f) \<noteq> DIR_UP \<and> ch_addr_type (cmn f) = NS_AF_NONE
     \<and> ch_error (cmn f) = 0 \<and> ch_ptype (cmn f) \<noteq> PT_ARP"

text \<open>What the stack writes into it on the way.\<close>

definition on_air :: "node \<Rightarrow> int \<Rightarrow> frame \<Rightarrow> frame" where
  "on_air n a f =
     (let f1 = set_cmn (\<lambda>h. h\<lparr>ch_direction := DIR_DOWN\<rparr>) f
      in f1\<lparr>f_ll := \<lparr>ll_lltype = LL_DATA, ll_seqno = l_seqno (nd_link n) + 1\<rparr>,
            f_mac := \<lparr>mac_macSA = mac_index (nd_mac n), mac_macDA = a, mac_hdr_type = ETHERTYPE_IP,
                      mac_ftype = MF_DATA\<rparr>\<rparr>)"

lemma frame_eqI:
  fixes f g :: frame
  assumes "cmn f = cmn g" "ip f = ip g" "rfid f = rfid g" "f_mac f = f_mac g" "f_ll f = f_ll g" "f_arp f = f_arp g"
    "f_xmit_failure f = f_xmit_failure g"
  shows "f = g"
  using assms by simp

lemma ll_recv_agent_frame:
  assumes "agent_frame (l_mem l p)" "c_initialized c" "c_arptable c"
    and "resolved (c_nodeaddr c (ip_daddr (ip (l_mem l p)))) l = Some a" "-2 < a" "-2 < c_mac c"
  shows "\<exists>l'. ll_recv c p l = Inr l' \<and> l_acts l' = l_acts l @ [SchedDown p]
    \<and> l_mem l' p = (set_cmn (\<lambda>h. h\<lparr>ch_direction := DIR_DOWN\<rparr>) (l_mem l p))
        \<lparr>f_ll := \<lparr>ll_lltype = LL_DATA, ll_seqno = l_seqno l + 1\<rparr>,
         f_mac := (f_mac (l_mem l p))\<lparr>mac_macSA := c_mac c, mac_macDA := a, mac_hdr_type := ETHERTYPE_IP\<rparr>\<rparr>"
  using assms
  by (auto simp: ll_recv_def agent_frame_def ll_sendDown_def ll_address_def resolved_def arpresolve_def
      l_write_def l_act_def set_cmn_def mac_set_dst_def mac_set_src_def mac_set_type_def Let_def
      split: if_splits option.splits)

lemma transmit_frame:
  assumes "agent_frame (l_mem (nd_link n) p)" "c_initialized (nd_cfg n)" "c_arptable (nd_cfg n)"
    and "resolved (c_nodeaddr (nd_cfg n) (ip_daddr (ip (l_mem (nd_link n) p)))) (nd_link n) = Some a"
    and "-2 < a" "c_mac (nd_cfg n) = mac_index (nd_mac n)" "-2 < mac_index (nd_mac n)"
    and "wired n" "ip_daddr (ip (l_mem (nd_link n) p)) \<noteq> nd_here n"
  shows "\<exists>n'. node_transmit now qh p n
      = Inr (if fst (phy_sendDown now (ch_txtime (cmn (l_mem (nd_link n) p))) (nd_phy n))
             then Some (on_air n a (l_mem (nd_link n) p)) else None, n')
    \<and> nd_phy n' = snd (phy_sendDown now (ch_txtime (cmn (l_mem (nd_link n) p))) (nd_phy n))"
proof -
  let ?f = "l_mem (nd_link n) p"
  obtain l where l: "ll_recv (nd_cfg n) p (nd_link n) = Inr l" "l_acts l = l_acts (nd_link n) @ [SchedDown p]"
    "l_mem l p = (set_cmn (\<lambda>h. h\<lparr>ch_direction := DIR_DOWN\<rparr>) ?f)
        \<lparr>f_ll := \<lparr>ll_lltype = LL_DATA, ll_seqno = l_seqno (nd_link n) + 1\<rparr>,
         f_mac := (f_mac ?f)\<lparr>mac_macSA := c_mac (nd_cfg n), mac_macDA := a, mac_hdr_type := ETHERTYPE_IP\<rparr>\<rparr>"
    using ll_recv_agent_frame [OF assms(1-5)] assms(6,7) by auto
  obtain M m where m: "mac_recv p (Some qh) (l_mem l, nd_mac n) = (M, m)" by force
  have g: "M p = on_air n a ?f"
    using m l(3) by (auto simp: mac_recv_def set_cmn_def on_air_def Let_def hdr_mac_set_def)
  have d: "dumb_recv (nd_here n) ?f = Some ToTarget" using assms(1) by (simp add: dumb_recv_def agent_frame_def)
  obtain b y where s: "phy_sendDown now (ch_txtime (cmn ?f)) (nd_phy n) = (b, y)" by force
  have "phy_recv now 0 None (M p) (nd_phy n) = (if b then ToChannel else PhyFree, on_air n a ?f, y)"
    using s by (simp add: g phy_recv_def on_air_def set_cmn_def Let_def)
  moreover have "node_entry ?f n = PassTo (nd_rtagent n)" using wired_entry [OF assms(8)] assms(9) by simp
  ultimately show ?thesis using d l(1,2) m s by (simp add: node_transmit_def new_link_acts_def)
qed

section \<open>The way up\<close>

text \<open>The interface takes the frame.\<close>

definition hears :: "real \<Rightarrow> node \<Rightarrow> bool" where
  "hears Pr n \<longleftrightarrow> CSThresh (nd_phy n) \<le> Pr
     \<and> (\<forall>e. wp_em (nd_phy n) = Some e \<longrightarrow> wp_node_on (nd_phy n) \<and> wp_status (nd_phy n) \<noteq> SLEEP \<and> 0 < en_energy e)"

lemma detect_hears:
  "fst (phy_detect Pr None err (nd_phy n)) = hears Pr n"
  "hears Pr n \<Longrightarrow> snd (phy_detect Pr None err (nd_phy n)) = (if Pr < RXThresh (nd_phy n) then 1 else err)"
  by (auto simp: phy_detect_def hears_def split: option.splits)

lemma up_phy:
  assumes "ch_direction (cmn f) = DIR_UP"
  shows "\<exists>y. phy_recv now Pr None f (nd_phy n) = (if hears Pr n then ToMac else PhyFree,
     if hears Pr n \<and> Pr < RXThresh (nd_phy n) then set_cmn (\<lambda>h. h\<lparr>ch_error := 1\<rparr>) f else f, y)"
proof -
  let ?e = "ch_error (cmn f)"
  obtain b err where d: "phy_detect Pr None ?e (nd_phy n) = (b, err)" by force
  have b: "b = hears Pr n" using detect_hears(1) [of Pr ?e n] d by simp
  have err: "err = (if hears Pr n \<and> Pr < RXThresh (nd_phy n) then 1 else ?e)"
  proof (cases "hears Pr n")
    case True
    then show ?thesis using detect_hears(2) [OF True, of ?e] d by simp
  next
    case False
    then show ?thesis using d b by (auto simp: phy_detect_def split: if_splits)
  qed
  have s: "set_cmn (\<lambda>h. h\<lparr>ch_error := ?e\<rparr>) f = f" by (simp add: set_cmn_def)
  have "phy_recv now Pr None f (nd_phy n) = (if b then ToMac else PhyFree, set_cmn (\<lambda>h. h\<lparr>ch_error := err\<rparr>) f,
      snd (snd (phy_sendUp now (ch_txtime (cmn f)) Pr None ?e (nd_phy n))))"
    using assms d by (simp add: phy_recv_def phy_sendUp_def split: prod.splits)
  then show ?thesis using b err s by auto
qed

text \<open>The frame as the upper layers see it.\<close>

definition marked :: "real \<Rightarrow> node \<Rightarrow> frame \<Rightarrow> frame" where
  "marked Pr n f = (if Pr < RXThresh (nd_phy n) then set_cmn (\<lambda>h. h\<lparr>ch_error := 1\<rparr>) f else f)"

lemma marked_simps [simp]:
  "ip (marked Pr n f) = ip f" "rfid (marked Pr n f) = rfid f" "f_mac (marked Pr n f) = f_mac f"
  "f_arp (marked Pr n f) = f_arp f" "ch_direction (cmn (marked Pr n f)) = ch_direction (cmn f)"
  "ch_ptype (cmn (marked Pr n f)) = ch_ptype (cmn f)"
  "ch_error (cmn (marked Pr n f)) = (if Pr < RXThresh (nd_phy n) then 1 else ch_error (cmn f))"
  by (simp_all add: marked_def set_cmn_def)

lemma mac_up:
  assumes "ch_direction (cmn g) = DIR_UP"
  shows "\<exists>m'. mac_recv p None (M(p := g), m) = (M(p := g), m')
    \<and> (ToLL p (mac_delay m) \<in> set (new_mac_acts m m') \<longleftrightarrow> mac_accepts m g)"
  using assms by (auto simp: mac_recv_def mac_sendUp_def Let_def mac_out_def mac_accepts_def new_mac_acts_def)

text \<open>The stages of \<open>node_receive\<close>, one after the other; the classifiers stay as they are.\<close>

definition same_wiring :: "node \<Rightarrow> node \<Rightarrow> bool" where
  "same_wiring n n' \<longleftrightarrow> nd_entry n' = nd_entry n \<and> nd_dmux n' = nd_dmux n \<and> nd_here n' = nd_here n
     \<and> nd_rtagent n' = nd_rtagent n \<and> nd_demux n' = nd_demux n"

lemma from_entry_same:
  assumes "same_wiring n n'"
  shows "from_entry f n' = from_entry f n"
proof -
  have "to_agent f n' = to_agent f n" "node_entry f n' = node_entry f n" "nd_here n' = nd_here n"
    "nd_demux n' = nd_demux n" "nd_rtagent n' = nd_rtagent n"
    using assms by (simp_all add: same_wiring_def to_agent_def node_entry_def)
  then show ?thesis by (simp only: from_entry_def)
qed

lemma receive_stages:
  assumes "ch_direction (cmn f) = DIR_UP"
  shows "\<not> hears Pr n \<Longrightarrow> \<exists>n'. node_receive now Pr None p f n = Inr (Undetected, n') \<and> nd_link n' = nd_link n"
    and "hears Pr n \<Longrightarrow> \<not> mac_accepts (nd_mac n) f \<Longrightarrow>
      \<exists>n'. node_receive now Pr None p f n = Inr (Filtered, n') \<and> l_acts (nd_link n') = l_acts (nd_link n)"
    and "hears Pr n \<Longrightarrow> mac_accepts (nd_mac n) f \<Longrightarrow>
      ll_recv (nd_cfg n) p ((nd_link n)\<lparr>l_mem := (l_mem (nd_link n))(p := marked Pr n f)\<rparr>) = Inr l \<Longrightarrow>
      \<exists>n'. nd_link n' = l \<and> node_receive now Pr None p f n =
        (if SchedUp p \<in> set (new_link_acts (nd_link n) l)
         then map_sum id (\<lambda>v. (v, n')) (from_entry (l_mem l p) n) else Inr (NotForAgent, n'))"
proof -
  obtain y where y: "phy_recv now Pr None f (nd_phy n) = (if hears Pr n then ToMac else PhyFree,
     if hears Pr n \<and> Pr < RXThresh (nd_phy n) then set_cmn (\<lambda>h. h\<lparr>ch_error := 1\<rparr>) f else f, y)"
    using up_phy [OF assms] by blast
  show "\<exists>n'. node_receive now Pr None p f n = Inr (Undetected, n') \<and> nd_link n' = nd_link n" if "\<not> hears Pr n"
    using y that by (simp add: node_receive_def Let_def)
  have g: "phy_recv now Pr None f (nd_phy n) = (ToMac, marked Pr n f, y)" if "hears Pr n"
    using y that by (simp add: marked_def)
  have d: "ch_direction (cmn (marked Pr n f)) = DIR_UP" using assms by simp
  have acc: "mac_accepts (nd_mac n) (marked Pr n f) = mac_accepts (nd_mac n) f" by (simp add: mac_accepts_def)
  obtain m where m: "mac_recv p None ((l_mem (nd_link n))(p := marked Pr n f), nd_mac n)
      = ((l_mem (nd_link n))(p := marked Pr n f), m)"
    "ToLL p (mac_delay (nd_mac n)) \<in> set (new_mac_acts (nd_mac n) m) \<longleftrightarrow> mac_accepts (nd_mac n) f"
    using mac_up [OF d, of p "l_mem (nd_link n)" "nd_mac n"] acc by auto
  show "\<exists>n'. node_receive now Pr None p f n = Inr (Filtered, n') \<and> l_acts (nd_link n') = l_acts (nd_link n)"
    if "hears Pr n" "\<not> mac_accepts (nd_mac n) f"
    using g [OF that(1)] m that by (simp add: node_receive_def Let_def)
  assume h: "hears Pr n" "mac_accepts (nd_mac n) f"
    "ll_recv (nd_cfg n) p ((nd_link n)\<lparr>l_mem := (l_mem (nd_link n))(p := marked Pr n f)\<rparr>) = Inr l"
  let ?n = "n\<lparr>nd_phy := y, nd_mac := m, nd_link := l\<rparr>"
  have w: "from_entry k ?n = from_entry k n" for k by (rule from_entry_same) (simp add: same_wiring_def)
  show "\<exists>n'. nd_link n' = l \<and> node_receive now Pr None p f n =
        (if SchedUp p \<in> set (new_link_acts (nd_link n) l)
         then map_sum id (\<lambda>v. (v, n')) (from_entry (l_mem l p) n) else Inr (NotForAgent, n'))"
    by (rule exI [of _ ?n])
      (use g [OF h(1)] m h(2,3) w in \<open>simp add: node_receive_def Let_def new_link_acts_def\<close>)
qed

text \<open>What the link layer does with a data frame from below.\<close>

lemma ll_recv_up:
  assumes "c_initialized c" "ch_direction (cmn (l_mem l p)) = DIR_UP" "ch_ptype (cmn (l_mem l p)) \<noteq> PT_ARP"
  shows "ll_recv c p l = Inr (l_act (if ch_error (cmn (l_mem l p)) > 0 then LDrop p else SchedUp p) l)"
  using assms by (simp add: ll_recv_def ll_sendUp_def)

text \<open>From the entry of a wired node every packet for it reaches the port classifier.\<close>

lemma wired_from_entry:
  assumes "wired n" "ch_direction (cmn f) = DIR_UP" "ip_daddr (ip f) \<in> {IP_BROADCAST, nd_here n}"
  shows "from_entry f n = Inr (to_agent f n)"
  using assms wired_entry [OF assms(1), of f]
  by (auto simp: from_entry_def dumb_recv_def wired_def)

lemma to_agent_port:
  "represents (nd_dmux n) m \<Longrightarrow> m (ip_dport (ip f)) = Some a \<Longrightarrow> to_agent f n = Delivered a f"
  using find_at [of "nd_dmux n" m "flow_of f" a] by (simp add: to_agent_def flow_of_def)

lemma receive_data:
  assumes "ch_direction (cmn f) = DIR_UP" "ch_ptype (cmn f) \<noteq> PT_ARP" "ch_error (cmn f) = 0" "c_initialized (nd_cfg n)"
    and "mac_accepts (nd_mac n) f \<Longrightarrow> ip_daddr (ip f) \<in> {IP_BROADCAST, nd_here n}" "wired n"
  shows "\<exists>v n'. node_receive now Pr None p f n = Inr (v, n')
    \<and> v = (if \<not> hears Pr n then Undetected else if \<not> mac_accepts (nd_mac n) f then Filtered
           else if Pr < RXThresh (nd_phy n) then NotForAgent else to_agent f n)"
proof -
  note st = receive_stages [OF assms(1), where Pr = Pr and n = n and now = now and p = p]
  consider "\<not> hears Pr n" | "hears Pr n" "\<not> mac_accepts (nd_mac n) f" | "hears Pr n" "mac_accepts (nd_mac n) f" by blast
  then show ?thesis
  proof cases
    case 1
    then show ?thesis using st(1) by fastforce
  next
    case 2
    then show ?thesis using st(2) by fastforce
  next
    case 3
    let ?L = "(nd_link n)\<lparr>l_mem := (l_mem (nd_link n))(p := marked Pr n f)\<rparr>"
    let ?l = "l_act (if Pr < RXThresh (nd_phy n) then LDrop p else SchedUp p) ?L"
    have l: "ll_recv (nd_cfg n) p ?L = Inr ?l"
      using ll_recv_up [OF assms(4), of ?L p] assms(1-3) by simp
    have a: "new_link_acts (nd_link n) ?l = [if Pr < RXThresh (nd_phy n) then LDrop p else SchedUp p]"
      by (simp add: new_link_acts_def l_act_def)
    have mem: "l_mem ?l p = marked Pr n f" by (simp add: l_act_def)
    have e: "from_entry (marked Pr n f) n = Inr (to_agent (marked Pr n f) n)"
      using wired_from_entry [OF assms(6)] assms(1) assms(5) [OF 3(2)] by simp
    obtain n' where "node_receive now Pr None p f n =
        (if SchedUp p \<in> set (new_link_acts (nd_link n) ?l)
         then map_sum id (\<lambda>v. (v, n')) (from_entry (l_mem ?l p) n) else Inr (NotForAgent, n'))"
      using st(3) [OF 3 l] by blast
    then show ?thesis using 3 unfolding a mem e by (auto simp: marked_def)
  qed
qed

section \<open>Properties of the stack\<close>

lemma air_copy_simps [simp]:
  "ch_direction (cmn (air_copy f)) = DIR_UP" "ch_ptype (cmn (air_copy f)) = ch_ptype (cmn f)"
  "ch_error (cmn (air_copy f)) = ch_error (cmn f)" "ip (air_copy f) = ip f" "rfid (air_copy f) = rfid f"
  "f_mac (air_copy f) = f_mac f" "f_arp (air_copy f) = f_arp f" "ch_size (cmn (air_copy f)) = ch_size (cmn f)"
  by (simp_all add: air_copy_def set_cmn_def)

lemma on_air_simps [simp]:
  "ch_ptype (cmn (on_air n a f)) = ch_ptype (cmn f)" "ch_error (cmn (on_air n a f)) = ch_error (cmn f)"
  "ip (on_air n a f) = ip f" "rfid (on_air n a f) = rfid f" "mac_macDA (f_mac (on_air n a f)) = a"
  "ch_size (cmn (on_air n a f)) = ch_size (cmn f)"
  by (simp_all add: on_air_def set_cmn_def Let_def)

text \<open>
  C5: From agent to agent. A packet of an RFID agent to another node's address that the link
  layer resolves (or to all) goes to the channel whenever the interface transmits; a node that
  gets a copy of it hands it to the agent on its port exactly if it hears it, it is addressed by
  the MAC address or to all, and the power reaches the reception threshold; the RFID header, the
  IP header and the size are those that were sent. No assertion fails on the way.
\<close>

theorem rfid_frame_delivery:
  assumes "agent_frame (l_mem (nd_link n) p)" "c_initialized (nd_cfg n)" "c_arptable (nd_cfg n)"
    and "resolved (c_nodeaddr (nd_cfg n) (ip_daddr (ip (l_mem (nd_link n) p)))) (nd_link n) = Some a"
    and "-2 < a" "c_mac (nd_cfg n) = mac_index (nd_mac n)" "-2 < mac_index (nd_mac n)"
    and "wired n" "ip_daddr (ip (l_mem (nd_link n) p)) \<noteq> nd_here n"
    and "fst (phy_sendDown now (ch_txtime (cmn (l_mem (nd_link n) p))) (nd_phy n))"
    and "c_initialized (nd_cfg r)" "wired r"
    and "represents (nd_dmux r) ports" "ports (ip_dport (ip (l_mem (nd_link n) p))) = Some agent"
    and "a \<in> {MAC_BROADCAST, mac_index (nd_mac r)} \<Longrightarrow>
      ip_daddr (ip (l_mem (nd_link n) p)) \<in> {IP_BROADCAST, nd_here r}"
  shows "\<exists>g n' v r'. node_transmit now qh p n = Inr (Some g, n')
    \<and> node_receive t Pr None k (air_copy g) r = Inr (v, r')
    \<and> (if \<not> hears Pr r then v = Undetected
       else if a \<notin> {MAC_BROADCAST, mac_index (nd_mac r)} then v = Filtered
       else if Pr < RXThresh (nd_phy r) then v = NotForAgent
       else \<exists>h. v = Delivered agent h \<and> rfid h = rfid (l_mem (nd_link n) p) \<and> ip h = ip (l_mem (nd_link n) p)
              \<and> ch_size (cmn h) = ch_size (cmn (l_mem (nd_link n) p)))"
proof -
  let ?f = "l_mem (nd_link n) p" let ?g = "on_air n a ?f"
  obtain n' where n': "node_transmit now qh p n = Inr (Some ?g, n')"
    using transmit_frame [OF assms(1-9), of now qh] assms(10) by auto
  have acc: "mac_accepts (nd_mac r) (air_copy ?g) \<longleftrightarrow> a \<in> {MAC_BROADCAST, mac_index (nd_mac r)}"
    by (simp add: mac_accepts_def)
  have g: "ch_direction (cmn (air_copy ?g)) = DIR_UP" "ch_ptype (cmn (air_copy ?g)) \<noteq> PT_ARP"
    "ch_error (cmn (air_copy ?g)) = 0" using assms(1) by (simp_all add: agent_frame_def)
  have d: "ip_daddr (ip (air_copy ?g)) \<in> {IP_BROADCAST, nd_here r}" if "mac_accepts (nd_mac r) (air_copy ?g)"
    using assms(15) acc that by simp
  have ag: "to_agent (air_copy ?g) r = Delivered agent (air_copy ?g)"
    using to_agent_port [OF assms(13)] assms(14) by simp
  obtain v r' where v: "node_receive t Pr None k (air_copy ?g) r = Inr (v, r')"
    "v = (if \<not> hears Pr r then Undetected else if \<not> mac_accepts (nd_mac r) (air_copy ?g) then Filtered
          else if Pr < RXThresh (nd_phy r) then NotForAgent else to_agent (air_copy ?g) r)"
    using receive_data [OF g assms(11) d assms(12), of t Pr k] by blast
  show ?thesis
    by (rule exI [of _ ?g], rule exI [of _ n'], rule exI [of _ v], rule exI [of _ r'])
      (use n' v acc ag in auto)
qed

definition demo_entry :: "int \<Rightarrow> hash_classifier" where
  "demo_entry i = (entry_new 0 (-1) 255)\<lparr>cl_slot := Some 7 # replicate 31 None, cl_maxslot := 0,
     hc_ht := [[i] \<mapsto> 0]\<rparr>"

definition demo_dmux :: classifier where
  "demo_dmux = (classifier_new 0 (-1))\<lparr>cl_slot := Some 8 # replicate 31 None, cl_maxslot := 0\<rparr>"

definition demo_node :: "int \<Rightarrow> node" where
  "demo_node i = \<lparr>nd_phy = WirelessPhy_new 0 1 2 None, nd_mac = mac_new i 1000000 0 False,
     nd_link = \<lparr>l_mem = (\<lambda>_. (frame_alloc\<lparr>ip := (ip frame_alloc)\<lparr>ip_daddr := IP_BROADCAST\<rparr>\<rparr>)),
       l_arp = [], l_seqno = 0, l_next = 5, l_acts = []\<rparr>,
     nd_cfg = demo_cfg i i, nd_here = i, nd_entry = demo_entry i, nd_dmux = demo_dmux,
     nd_rtagent = 255, nd_demux = 7\<rparr>"

lemma demo_slot: "0 < i \<Longrightarrow> i < 32 \<Longrightarrow> (Some x # replicate 31 None) ! nat i = None"
  by (cases "nat i") simp_all

lemma demo_tables:
  "represents demo_dmux (\<lambda>i. if i = 0 then Some 8 else None)" "hash_ok (demo_entry i)"
  "routes (demo_entry i) = [i \<mapsto> 7]" "mshift (demo_entry i) = id" "hc_default (demo_entry i) = -1"
  "cl_default (demo_entry i) = Some 255"
proof -
  have k: "5 \<le> (5::nat) \<and> 5 \<le> (30::nat) \<and> (32::int) = 2 ^ 5" by simp
  show "represents demo_dmux (\<lambda>i. if i = 0 then Some 8 else None)"
    using k demo_slot by (auto simp: represents_def table_ok_def demo_dmux_def classifier_new_def nslot_def at_slot_def
        intro!: exI [of _ 5])
  show "hash_ok (demo_entry i)"
    using k demo_slot by (auto simp: hash_ok_def table_ok_def demo_entry_def entry_new_def hash_new_def classifier.defs
        classifier_new_def nslot_def at_slot_def intro!: exI [of _ 5] split: if_splits)
  show "routes (demo_entry i) = [i \<mapsto> 7]"
    by (auto simp: routes_def demo_entry_def entry_new_def hash_new_def classifier.defs classifier_new_def
        at_slot_def nslot_def fun_eq_iff)
  show "mshift (demo_entry i) = id" "hc_default (demo_entry i) = -1" "cl_default (demo_entry i) = Some 255"
    by (simp_all add: mshift_def fun_eq_iff demo_entry_def entry_new_def hash_new_def classifier.defs classifier_new_def)
qed

lemma demo_wired: "wired (demo_node i)"
  using demo_tables by (simp add: wired_def demo_node_def)

lemma demo_fields [simp]:
  "nd_cfg (demo_node i) = demo_cfg i i" "nd_here (demo_node i) = i" "nd_dmux (demo_node i) = demo_dmux"
  "mac_index (nd_mac (demo_node i)) = i" "RXThresh (nd_phy (demo_node i)) = 2" "l_arp (nd_link (demo_node i)) = []"
  "ip_daddr (ip (l_mem (nd_link (demo_node i)) p)) = -1" "ip_dport (ip (l_mem (nd_link (demo_node i)) p)) = 0"
  "cmn (l_mem (nd_link (demo_node i)) p) = cmn packet_alloc_bits"
  by (simp_all add: demo_node_def mac_new_def WirelessPhy_new_def frame_alloc_def packet_alloc_bits_def packet_init_def
      packet.defs)

lemma demo_alloc:
  "ch_direction (cmn packet_alloc_bits) = DIR_DOWN" "ch_addr_type (cmn packet_alloc_bits) = 0"
  "ch_error (cmn packet_alloc_bits) = 0" "ch_ptype (cmn packet_alloc_bits) = 0" "ch_txtime (cmn packet_alloc_bits) = 0"
  by (simp_all add: packet_alloc_bits_def packet_init_def)

lemma demo_hears: "1 \<le> Pr \<Longrightarrow> hears Pr (demo_node i)"
  by (simp add: hears_def demo_node_def WirelessPhy_new_def)

lemma demo_sends: "fst (phy_sendDown now t (nd_phy (demo_node i)))"
  by (simp add: phy_sendDown_def demo_node_def WirelessPhy_new_def)

theorem rfid_frame_delivery_witness:
  "\<exists>g n' h r'. node_transmit 1 9 3 (demo_node 2) = Inr (Some g, n')
     \<and> node_receive 2 5 None 4 (air_copy g) (demo_node 3) = Inr (Delivered 8 h, r')"
proof -
  have "agent_frame (l_mem (nd_link (demo_node 2)) 3)" "c_initialized (nd_cfg (demo_node 2))"
    "c_arptable (nd_cfg (demo_node 2))"
    "resolved (c_nodeaddr (nd_cfg (demo_node 2)) (ip_daddr (ip (l_mem (nd_link (demo_node 2)) 3))))
       (nd_link (demo_node 2)) = Some (-1)"
    "-2 < (-1::int)" "c_mac (nd_cfg (demo_node 2)) = mac_index (nd_mac (demo_node 2))"
    "-2 < mac_index (nd_mac (demo_node 2))" "wired (demo_node 2)"
    "ip_daddr (ip (l_mem (nd_link (demo_node 2)) 3)) \<noteq> nd_here (demo_node 2)"
    "fst (phy_sendDown 1 (ch_txtime (cmn (l_mem (nd_link (demo_node 2)) 3))) (nd_phy (demo_node 2)))"
    "c_initialized (nd_cfg (demo_node 3))" "wired (demo_node 3)"
    "represents (nd_dmux (demo_node 3)) (\<lambda>i. if i = 0 then Some 8 else None)"
    "(if ip_dport (ip (l_mem (nd_link (demo_node 2)) 3)) = 0 then Some (8::nat) else None) = Some 8"
    using demo_wired demo_tables(1)
    by (simp_all add: agent_frame_def demo_alloc resolved_def demo_sends)
  from rfid_frame_delivery [OF this, of 9 2 5 4] demo_hears [of 5 3] show ?thesis by auto
qed

text \<open>What the ARP table knows after a frame has been processed.\<close>

lemma arp_release_keeps:
  assumes "arp_release c spa sha s = Inr s'" "arplookup d (l_arp s) = Some e"
  shows "\<exists>e'. arplookup d (l_arp s') = Some e' \<and> ae_up e' = ae_up e \<and> ae_macaddr e' = ae_macaddr e"
    and "SchedUp p \<notin> set (new_link_acts s s')" "\<exists>as. l_acts s' = l_acts s @ as"
  using assms
  by (auto simp: arp_release_def l_act_def l_write_def new_link_acts_def arplookup_update
      split: option.splits if_splits)

lemma arpinput_learns:
  assumes "arpinput c p s = Inr s'"
  shows "\<exists>e. arplookup (arp_spa (f_arp (l_mem s p))) (l_arp s') = Some e \<and> ae_up e
      \<and> ae_macaddr e = arp_sha (f_arp (l_mem s p))"
    and "SchedUp q \<notin> set (new_link_acts s s')"
proof -
  let ?ah = "f_arp (l_mem s p)"
  let ?tab = "arp_update (arp_spa ?ah) (\<lambda>a. a\<lparr>ae_macaddr := arp_sha ?ah, ae_up := True\<rparr>)
      (arp_ensure (arp_spa ?ah) (l_arp s))"
  obtain s1 where s1: "arp_release c (arp_spa ?ah) (arp_sha ?ah) (s\<lparr>l_arp := ?tab\<rparr>) = Inr s1"
    and s': "s' = l_act (SchedDown p) (l_write p (arp_reply_frame c) s1) \<or> s' = l_act (LFree p) s1"
    using assms by (auto simp: arpinput_def Let_def bind_res_Inr split: if_splits)
  obtain e1 where "arplookup (arp_spa ?ah) (arp_ensure (arp_spa ?ah) (l_arp s)) = Some e1"
    by (cases "arplookup (arp_spa ?ah) (l_arp s)") (simp_all add: arplookup_ensure)
  then have "arplookup (arp_spa ?ah) (l_arp (s\<lparr>l_arp := ?tab\<rparr>))
      = Some (e1\<lparr>ae_macaddr := arp_sha ?ah, ae_up := True\<rparr>)" by (simp add: arplookup_update)
  note k = arp_release_keeps [OF s1 this]
  show "\<exists>e. arplookup (arp_spa ?ah) (l_arp s') = Some e \<and> ae_up e \<and> ae_macaddr e = arp_sha ?ah"
    using k s' by (auto simp: l_act_def l_write_def)
  show "SchedUp q \<notin> set (new_link_acts s s')"
    using k(2) [of q] k(3) s' by (auto simp: l_act_def l_write_def new_link_acts_def)
qed

text \<open>
  C32: A frame too weak to be received is dropped by the link layer if it carries data, but
  its error mark is not looked at if it is an ARP frame: the sender's address is learnt from it, and
  a packet waiting for it goes out.
\<close>

theorem weak_arp_accepted:
  assumes "ch_direction (cmn f) = DIR_UP" "hears Pr n" "Pr < RXThresh (nd_phy n)" "mac_accepts (nd_mac n) f"
    and "c_initialized (nd_cfg n)" "c_arptable (nd_cfg n)" "ch_ptype (cmn f) = PT_ARP"
    and "arpinput (nd_cfg n) p ((nd_link n)\<lparr>l_mem := (l_mem (nd_link n))(p := marked Pr n f)\<rparr>) = Inr l"
  shows "(\<exists>n' e. node_receive now Pr None p f n = Inr (NotForAgent, n')
      \<and> arplookup (arp_spa (f_arp f)) (l_arp (nd_link n')) = Some e \<and> ae_up e \<and> ae_macaddr e = arp_sha (f_arp f))
    \<and> (\<forall>g. ch_ptype (cmn g) \<noteq> PT_ARP \<and> ch_direction (cmn g) = DIR_UP \<and> mac_accepts (nd_mac n) g
        \<and> ch_error (cmn g) = 0 \<and> ip_daddr (ip g) \<in> {IP_BROADCAST, nd_here n} \<and> wired n \<longrightarrow>
        (\<exists>n'. node_receive now Pr None p g n = Inr (NotForAgent, n')))"
proof (intro conjI allI impI)
  let ?L = "(nd_link n)\<lparr>l_mem := (l_mem (nd_link n))(p := marked Pr n f)\<rparr>"
  have l: "ll_recv (nd_cfg n) p ?L = Inr l"
    using assms by (simp add: ll_recv_def)
  have u: "SchedUp p \<notin> set (new_link_acts (nd_link n) l)"
    using arpinput_learns(2) [OF assms(8), of p] by (simp add: new_link_acts_def)
  obtain n' where n': "nd_link n' = l" "node_receive now Pr None p f n = Inr (NotForAgent, n')"
    using receive_stages(3) [OF assms(1,2,4) l, of now] u by auto
  show "\<exists>n' e. node_receive now Pr None p f n = Inr (NotForAgent, n')
    \<and> arplookup (arp_spa (f_arp f)) (l_arp (nd_link n')) = Some e \<and> ae_up e \<and> ae_macaddr e = arp_sha (f_arp f)"
    using n' arpinput_learns(1) [OF assms(8)] by auto
next
  fix g
  assume g: "ch_ptype (cmn g) \<noteq> PT_ARP \<and> ch_direction (cmn g) = DIR_UP \<and> mac_accepts (nd_mac n) g
      \<and> ch_error (cmn g) = 0 \<and> ip_daddr (ip g) \<in> {IP_BROADCAST, nd_here n} \<and> wired n"
  then show "\<exists>n'. node_receive now Pr None p g n = Inr (NotForAgent, n')"
    using receive_data [of g n now Pr p] assms(2,3,5) by auto
qed

definition weak_arp_frame :: frame where
  "weak_arp_frame = mac_set_dst (-1) (set_cmn (\<lambda>h. h\<lparr>ch_direction := DIR_UP, ch_ptype := PT_ARP\<rparr>) frame_alloc)
     \<lparr>f_arp := (f_arp frame_alloc)\<lparr>arp_spa := 7, arp_sha := 8\<rparr>\<rparr>"

theorem weak_arp_accepted_witness:
  "\<exists>n' e. node_receive 1 (3/2) None 4 weak_arp_frame (demo_node 2) = Inr (NotForAgent, n')
     \<and> arplookup 7 (l_arp (nd_link n')) = Some e \<and> ae_macaddr e = 8"
proof -
  have a: "ch_direction (cmn weak_arp_frame) = DIR_UP" "ch_ptype (cmn weak_arp_frame) = PT_ARP"
    "arp_spa (f_arp weak_arp_frame) = 7" "arp_sha (f_arp weak_arp_frame) = 8" "arp_op (f_arp weak_arp_frame) = 0"
    "mac_accepts (nd_mac (demo_node 2)) weak_arp_frame"
    by (simp_all add: weak_arp_frame_def set_cmn_def mac_set_dst_def mac_accepts_def frame_alloc_def packet.defs)
  have n: "hears (3/2) (demo_node 2)" "3/2 < RXThresh (nd_phy (demo_node 2))"
    "c_initialized (nd_cfg (demo_node 2))" "c_arptable (nd_cfg (demo_node 2))"
    "l_arp (nd_link (demo_node 2)) = []" "c_node (nd_cfg (demo_node 2)) = 2"
    by (simp_all add: demo_hears)
  let ?L = "(nd_link (demo_node 2))\<lparr>l_mem := (l_mem (nd_link (demo_node 2)))
      (4 := marked (3/2) (demo_node 2) weak_arp_frame)\<rparr>"
  have "\<exists>l. arpinput (nd_cfg (demo_node 2)) 4 ?L = Inr l"
    using a n(5,6) by (simp add: arpinput_def arp_release_def arp_ensure_def arp_entry_new_def Let_def)
  then obtain l where "arpinput (nd_cfg (demo_node 2)) 4 ?L = Inr l" by blast
  from weak_arp_accepted [OF a(1) n(1,2) a(6) n(3,4) a(2) this, of 1] a(3,4) show ?thesis by auto
qed

text \<open>
  Neither the agents nor the base MAC ever set the transmission time in the common header,
  which is 0 in a new packet; the interface charges by it.
\<close>

lemma send_free_of_charge:
  assumes "wp_em s = Some e" "wp_node_on s" "wp_status s = IDLE" "P_idle s = 0" "0 < en_energy e"
    and "to_double (en_energy e) = en_energy e" "to_double now = now"
  shows "\<exists>e'. phy_sendDown now 0 s = (True, phy_transmit now 0 e s) \<and> wp_em (phy_transmit now 0 e s) = Some e'
    \<and> en_energy e' = en_energy e"
  using assms
  by (auto simp: phy_sendDown_def phy_transmit_def charge_idle_until_def gap_adjust_def DecrTxEnergy_def
      DecrIdleEnergy_def spend_def dmul_def dsub_def dadd_def empty_if_spent_def Let_def)

text \<open>
  C33: A transmission under the base MAC costs no energy: the transmission time that the interface
  charges is a field of the common header that stays 0 from the allocation of the packet to
  the air.
\<close>

theorem base_mac_transmits_free:
  assumes "agent_frame (l_mem (nd_link n) p)" "c_initialized (nd_cfg n)" "c_arptable (nd_cfg n)"
    and "resolved (c_nodeaddr (nd_cfg n) (ip_daddr (ip (l_mem (nd_link n) p)))) (nd_link n) = Some a"
    and "-2 < a" "c_mac (nd_cfg n) = mac_index (nd_mac n)" "-2 < mac_index (nd_mac n)"
    and "wired n" "ip_daddr (ip (l_mem (nd_link n) p)) \<noteq> nd_here n"
    and "cmn (l_mem (nd_link n) p) = cmn (allocpkt ty agent)" "to_double now = now"
    and "wp_em (nd_phy n) = Some e" "wp_node_on (nd_phy n)" "wp_status (nd_phy n) = IDLE" "P_idle (nd_phy n) = 0"
    and "0 < en_energy e" "to_double (en_energy e) = en_energy e"
  shows "\<exists>g n' e'. node_transmit now qh p n = Inr (Some g, n') \<and> wp_em (nd_phy n') = Some e'
    \<and> en_energy e' = en_energy e"
proof -
  have "ch_txtime (cmn (l_mem (nd_link n) p)) = 0"
    unfolding assms(10) by (simp add: allocpkt_def initpkt_def packet_alloc_bits_def packet_init_def)
  then show ?thesis
    using transmit_frame [OF assms(1-9), of now qh] send_free_of_charge [OF assms(12-17,11)] by auto
qed

definition charged_node :: node where
  "charged_node = (demo_node 2)\<lparr>nd_phy := WirelessPhy_new 0 1 2 (Some (EnergyModel_new 1 WAITING)),
     nd_link := (nd_link (demo_node 2))\<lparr>l_mem := (\<lambda>_. frame_alloc\<lparr>
       cmn := cmn (allocpkt PT_RFIDPACKET \<lparr>here_addr = 2, here_port = 0, dst_addr = -1, dst_port = 0,
         agent_size = 100, agent_fid = 0, agent_prio = 0, agent_defttl = 32, acts = []\<rparr>),
       ip := (ip frame_alloc)\<lparr>ip_daddr := IP_BROADCAST\<rparr>\<rparr>)\<rparr>\<rparr>"

theorem base_mac_transmits_free_witness:
  "\<exists>g n' e'. node_transmit 1 9 3 charged_node = Inr (Some g, n') \<and> wp_em (nd_phy n') = Some e'
     \<and> en_energy e' = 1"
proof -
  let ?a = "\<lparr>here_addr = 2, here_port = 0, dst_addr = -1, dst_port = 0, agent_size = 100, agent_fid = 0,
     agent_prio = 0, agent_defttl = 32, acts = []\<rparr>"
  have "agent_frame (l_mem (nd_link charged_node) 3)" "c_initialized (nd_cfg charged_node)"
    "c_arptable (nd_cfg charged_node)"
    "resolved (c_nodeaddr (nd_cfg charged_node) (ip_daddr (ip (l_mem (nd_link charged_node) 3))))
       (nd_link charged_node) = Some (-1)"
    "-2 < (-1::int)" "c_mac (nd_cfg charged_node) = mac_index (nd_mac charged_node)"
    "-2 < mac_index (nd_mac charged_node)" "wired charged_node"
    "ip_daddr (ip (l_mem (nd_link charged_node) 3)) \<noteq> nd_here charged_node"
    "cmn (l_mem (nd_link charged_node) 3) = cmn (allocpkt PT_RFIDPACKET ?a)" "to_double 1 = 1"
    "wp_em (nd_phy charged_node) = Some (EnergyModel_new 1 WAITING)"
    "wp_node_on (nd_phy charged_node)" "wp_status (nd_phy charged_node) = IDLE"
    "P_idle (nd_phy charged_node) = 0" "0 < en_energy (EnergyModel_new 1 WAITING)"
    "to_double (en_energy (EnergyModel_new 1 WAITING)) = en_energy (EnergyModel_new 1 WAITING)"
    using demo_wired [of 2]
    by (simp_all add: charged_node_def demo_node_def agent_frame_def resolved_def mac_new_def wired_def
        WirelessPhy_new_def EnergyModel_new_def small_doubles allocpkt_def initpkt_def packet_alloc_bits_def
        packet_init_def)
  from base_mac_transmits_free [OF this, of 9] show ?thesis by (simp add: EnergyModel_new_def)
qed

end
