(* ===== verification/MacTimers.thy ===== *)
theory MacTimers
  imports Mrg "HOL-Library.Signed_Division"
begin

text \<open>
  The timers of the IEEE 802.11 MAC (\<open>mac/mac-timers.h\<close>, \<open>mac/mac-timers.cc\<close>): a timer
  that may be started and stopped, and the backoff timer that is paused while the medium is
  busy. An operation gives the requests it makes of the scheduler, for the timer's own event,
  and the new timer, or the assertion it fails. The arithmetic is that of \<open>double\<close>.
\<close>

section \<open>Timers\<close>

record mac_timer =
  mt_busy :: bool
  mt_paused :: bool
  mt_stime :: real
  mt_rtime :: real

datatype mt_request = MSched real | MCancel

datatype mt_error = TimerBusy | TimerNotBusy | NegativeDelay | NotCounting | NotPaused | NegativeRest | ZeroWindow

definition MacTimer_new :: mac_timer where
  "MacTimer_new = \<lparr>mt_busy = False, mt_paused = False, mt_stime = 0, mt_rtime = 0\<rparr>"

definition MacTimer_start :: "real \<Rightarrow> real \<Rightarrow> 'a mac_timer_scheme \<Rightarrow>
    (mt_error, mt_request list \<times> 'a mac_timer_scheme) result" where
  "MacTimer_start clock time t =
     (if mt_busy t then Inl TimerBusy
      else let t1 = t\<lparr>mt_busy := True, mt_paused := False, mt_stime := clock, mt_rtime := time\<rparr>
           in if mt_rtime t1 < 0 then Inl NegativeDelay else Inr ([MSched (mt_rtime t1)], t1))"

definition MacTimer_stop :: "'a mac_timer_scheme \<Rightarrow>
    (mt_error, mt_request list \<times> 'a mac_timer_scheme) result" where
  "MacTimer_stop t =
     (if \<not> mt_busy t then Inl TimerNotBusy
      else Inr (if mt_paused t then [] else [MCancel],
        t\<lparr>mt_busy := False, mt_paused := False, mt_stime := 0, mt_rtime := 0\<rparr>))"

definition MacTimer_expire :: "real \<Rightarrow> 'a mac_timer_scheme \<Rightarrow> real" where
  "MacTimer_expire clock t = dsub (dadd (mt_stime t) (mt_rtime t)) clock"

text \<open>What every \<open>handle\<close> does before it calls its handler of the MAC.\<close>

definition MacTimer_handle :: "'a mac_timer_scheme \<Rightarrow> 'a mac_timer_scheme" where
  "MacTimer_handle t = t\<lparr>mt_busy := False, mt_paused := False, mt_stime := 0, mt_rtime := 0\<rparr>"

section \<open>The backoff timer\<close>

record backoff_timer = mac_timer +
  bt_difs_wait :: real

definition BackoffTimer_new :: backoff_timer where
  "BackoffTimer_new = mac_timer.extend MacTimer_new \<lparr>bt_difs_wait = 0\<rparr>"

definition BackoffTimer_handle :: "backoff_timer \<Rightarrow> backoff_timer" where
  "BackoffTimer_handle t = (MacTimer_handle t)\<lparr>bt_difs_wait := 0\<rparr>"

text \<open>
  \<open>rnd\<close> is the value of \<open>Random::random()\<close>, \<open>cw\<close> and \<open>difs\<close> are the arguments, \<open>idle\<close> the
  argument of that name as a truth value. The remainder by zero is undefined.
\<close>

definition BackoffTimer_start :: "real \<Rightarrow> real \<Rightarrow> int \<Rightarrow> int \<Rightarrow> bool \<Rightarrow> real \<Rightarrow> backoff_timer \<Rightarrow>
    (mt_error, mt_request list \<times> backoff_timer) result" where
  "BackoffTimer_start clock slot rnd cw idle difs t =
     (if mt_busy t then Inl TimerBusy
      else if cw = 0 then Inl ZeroWindow
      else let t1 = t\<lparr>mt_busy := True, mt_paused := False, mt_stime := clock,
                     mt_rtime := dmul (of_int (rnd smod cw)) slot, bt_difs_wait := difs\<rparr>;
               d = dadd (mt_rtime t1) (bt_difs_wait t1)
           in if \<not> idle then Inr ([], t1\<lparr>mt_paused := True\<rparr>)
              else if d < 0 then Inl NegativeDelay else Inr ([MSched d], t1))"

text \<open>The slots that have passed since the wait for DIFS was over.\<close>

definition BackoffTimer_slots :: "real \<Rightarrow> real \<Rightarrow> backoff_timer \<Rightarrow> int" where
  "BackoffTimer_slots clock slot t =
     (let sr = dsub clock (dadd (mt_stime t) (bt_difs_wait t)); slots = c_trunc (ddiv sr slot)
      in if slots < 0 then 0 else slots)"

definition BackoffTimer_pause :: "real \<Rightarrow> real \<Rightarrow> backoff_timer \<Rightarrow>
    (mt_error, mt_request list \<times> backoff_timer) result" where
  "BackoffTimer_pause clock slot t =
     (let slots = BackoffTimer_slots clock slot t
      in if \<not> (mt_busy t \<and> \<not> mt_paused t) then Inl NotCounting
         else let t1 = t\<lparr>mt_paused := True, mt_rtime := dsub (mt_rtime t) (dmul (of_int slots) slot)\<rparr>
              in if mt_rtime t1 < 0 then Inl NegativeRest
                 else Inr ([MCancel], t1\<lparr>bt_difs_wait := 0\<rparr>))"

definition BackoffTimer_resume :: "real \<Rightarrow> real \<Rightarrow> backoff_timer \<Rightarrow>
    (mt_error, mt_request list \<times> backoff_timer) result" where
  "BackoffTimer_resume clock difs t =
     (if \<not> (mt_busy t \<and> mt_paused t) then Inl NotPaused
      else let t1 = t\<lparr>mt_paused := False, mt_stime := clock, bt_difs_wait := difs\<rparr>;
               d = dadd (mt_rtime t1) (bt_difs_wait t1)
           in if d < 0 then Inl NegativeDelay else Inr ([MSched d], t1))"

lemmas mac_timer_defs = MacTimer_new_def MacTimer_start_def MacTimer_stop_def MacTimer_handle_def
  BackoffTimer_new_def BackoffTimer_handle_def BackoffTimer_start_def BackoffTimer_pause_def
  BackoffTimer_resume_def

section \<open>Counting down across pauses\<close>

text \<open>
  A paused timer is resumed and paused again, once for each period in which the medium is idle.
  The abstract counter is a number of slots: a period takes away the whole slots that
  follow its wait for DIFS.
\<close>

fun idle_periods :: "real \<Rightarrow> real \<Rightarrow> (real \<times> real) list \<Rightarrow> backoff_timer \<Rightarrow> (mt_error, backoff_timer) result" where
  "idle_periods slot difs [] t = Inr t"
| "idle_periods slot difs ((from, until) # ps) t =
     bind_res (BackoffTimer_resume from difs t) (\<lambda>(rs, t1).
       bind_res (BackoffTimer_pause until slot t1) (\<lambda>(rs, t2). idle_periods slot difs ps t2))"











section \<open>The assertion that rounding can break\<close>

lemma rne_eval: "\<bar>x - of_int m\<bar> < 1/2 \<or> \<bar>x - of_int m\<bar> = 1/2 \<and> even m \<Longrightarrow> rne x = m"
proof (elim disjE conjE)
  assume "\<bar>x - of_int m\<bar> < 1/2"
  then have "\<bar>of_int (rne x) - of_int m\<bar> < (1::real)" using rne_error [of x] by linarith
  then show ?thesis by linarith
next
  assume d: "\<bar>x - of_int m\<bar> = 1/2" and e: "even m"
  then have "x = of_int m + 1/2 \<or> x = of_int (m - 1) + 1/2" by linarith
  then show ?thesis
  proof
    assume x: "x = of_int m + 1/2"
    then have "\<lfloor>x\<rfloor> = m" by linarith
    then show ?thesis using x e by (simp add: rne_def Let_def)
  next
    assume x: "x = of_int (m - 1) + 1/2"
    then have "\<lfloor>x\<rfloor> = m - 1" by linarith
    then show ?thesis using x e by (simp add: rne_def Let_def)
  qed
qed

lemma to_double_eval:
  assumes "2 ^ 52 \<le> x * 2 ^ k" "x * 2 ^ k < 2 ^ 53" "k \<le> 1074"
    "\<bar>x * 2 ^ k - of_int m\<bar> < 1/2 \<or> \<bar>x * 2 ^ k - of_int m\<bar> = 1/2 \<and> even m"
  shows "to_double x = of_int m / 2 ^ k"
proof -
  have p: "(2::real) powi (i - int k) = 2 powi i / 2 ^ k" for i
    by (simp add: power_int_diff)
  have x: "0 < x" using assms(1) by (metis zero_less_mult_pos2 zero_less_numeral zero_less_power less_le_trans)
  have "ilog2 x = 52 - int k"
  proof (rule ilog2_unique)
    have "(2::real) powi (52 - int k) = 2 ^ 52 / 2 ^ k" unfolding p by simp
    then show "2 powi (52 - int k) \<le> \<bar>x\<bar>" using assms(1) x by (simp add: divide_le_eq)
    have "52 - int k + 1 = 53 - int k" by simp
    moreover have "(2::real) powi (53 - int k) = 2 ^ 53 / 2 ^ k" unfolding p by simp
    ultimately show "\<bar>x\<bar> < 2 powi (52 - int k + 1)" using assms(2) x by (simp add: less_divide_eq)
  qed
  moreover have "max (52 - int k) (-1022) - (int 53 - 1) = - int k" using assms(3) by simp
  moreover have "rne (x * 2 ^ k) = m" by (rule rne_eval) (rule assms(4))
  moreover have "(2::real) powi (- int k) = 1 / 2 ^ k" unfolding p [of 0, simplified] by simp
  ultimately show ?thesis using x fl_round_ulp [of x 53 "-1022"] by (simp add: to_double_def)
qed

text \<open>The roundings of the run below, in its order.\<close>

lemma pause_arith:
  "to_double (1 / 50000) = (5902958103587057 / 295147905179352825856)"
  "to_double (1 / 100000) = (5902958103587057 / 590295810358705651712)"
  "dmul 2 (5902958103587057 / 295147905179352825856) = (5902958103587057 / 147573952589676412928)"
  "dadd (5902958103587057 / 590295810358705651712) (5902958103587057 / 147573952589676412928) = (7378697629483821 / 147573952589676412928)"
  "dmul 4 (5902958103587057 / 295147905179352825856) = (5902958103587057 / 73786976294838206464)"
  "dadd (5902958103587057 / 73786976294838206464) (7378697629483821 / 147573952589676412928) = (1199038364791121 / 9223372036854775808)"
  "dadd 0 (7378697629483821 / 147573952589676412928) = (7378697629483821 / 147573952589676412928)"
  "dsub (29 / 262144) (7378697629483821 / 147573952589676412928) = (8946851019734227 / 147573952589676412928)"
  "ddiv (8946851019734227 / 147573952589676412928) (5902958103587057 / 295147905179352825856) = (6825905624186879 / 2251799813685248)"
  "dmul 3 (5902958103587057 / 295147905179352825856) = (4427218577690293 / 73786976294838206464)"
  "dsub (5902958103587057 / 73786976294838206464) (4427218577690293 / 73786976294838206464) = (368934881474191 / 18446744073709551616)"
  "dadd (368934881474191 / 18446744073709551616) (7378697629483821 / 147573952589676412928) = (2582544170319337 / 36893488147419103232)"
  "dadd (1 / 1024) (2582544170319337 / 36893488147419103232) = (4826417648660413 / 4611686018427387904)"
  "dadd (1 / 1024) (7378697629483821 / 147573952589676412928) = (4734183928291865 / 4611686018427387904)"
  "dsub (4826417648660413 / 4611686018427387904) (4734183928291865 / 4611686018427387904) = (23058430092137 / 1152921504606846976)"
  "ddiv (23058430092137 / 1152921504606846976) (5902958103587057 / 295147905179352825856) = (4503599627370507 / 4503599627370496)"
  "dmul 1 (5902958103587057 / 295147905179352825856) = (5902958103587057 / 295147905179352825856)"
  "dsub (368934881474191 / 18446744073709551616) (5902958103587057 / 295147905179352825856) = - (1 / 295147905179352825856)"
  unfolding dadd_def dsub_def dmul_def ddiv_def
  subgoal by (rule to_double_eval [of _ 68 5902958103587057, THEN trans]) simp_all
  subgoal by (rule to_double_eval [of _ 69 5902958103587057, THEN trans]) simp_all
  subgoal by (rule to_double_eval [of _ 67 5902958103587057, THEN trans]) simp_all
  subgoal by (rule to_double_eval [of _ 67 7378697629483821, THEN trans]) simp_all
  subgoal by (rule to_double_eval [of _ 66 5902958103587057, THEN trans]) simp_all
  subgoal by (rule to_double_eval [of _ 65 4796153459164484, THEN trans]) simp_all
  subgoal by (rule to_double_eval [of _ 67 7378697629483821, THEN trans]) simp_all
  subgoal by (rule to_double_eval [of _ 67 8946851019734227, THEN trans]) simp_all
  subgoal by (rule to_double_eval [of _ 51 6825905624186879, THEN trans]) simp_all
  subgoal by (rule to_double_eval [of _ 67 8854437155380586, THEN trans]) simp_all
  subgoal by (rule to_double_eval [of _ 68 5902958103587056, THEN trans]) simp_all
  subgoal by (rule to_double_eval [of _ 66 5165088340638674, THEN trans]) simp_all
  subgoal by (rule to_double_eval [of _ 62 4826417648660413, THEN trans]) simp_all
  subgoal by (rule to_double_eval [of _ 62 4734183928291865, THEN trans]) simp_all
  subgoal by (rule to_double_eval [of _ 68 5902958103587072, THEN trans]) simp_all
  subgoal by (rule to_double_eval [of _ 52 4503599627370507, THEN trans]) simp_all
  subgoal by (rule to_double_eval [of _ 68 5902958103587057, THEN trans]) simp_all
  subgoal using to_double_eval [of "(1 / 295147905179352825856)" 120 4503599627370496] to_double_minus [of "(1 / 295147905179352825856)"] by simp
  done

text \<open>With the default slot time of 20 microseconds the assertion in \<open>pause\<close> can fail although
  the timer is not late: a backoff of 4 slots that is paused after 3 of them and resumed, and
  then paused at the very time its event is due, has a negative rest, since subtracting 3 slots from
  4 and 1 from that rounds below zero.\<close>

theorem pause_at_expiry_aborts:
  "let slot = to_double (1 / 50000); difs = dadd (to_double (1 / 100000)) (dmul 2 slot)
   in \<exists>delay t1 t2 t3.
     BackoffTimer_start 0 slot 4 31 False 0 BackoffTimer_new = Inr ([], t1)
     \<and> idle_periods slot difs [(0, 29 / 262144)] t1 = Inr t2
     \<and> BackoffTimer_resume (1 / 1024) difs t2 = Inr ([MSched delay], t3)
     \<and> BackoffTimer_pause (dadd (1 / 1024) delay) slot t3 = Inl NegativeRest"
  unfolding Let_def pause_arith
  by (rule exI [of _ "2582544170319337 / 36893488147419103232"])
    (simp add: Let_def mac_timer_defs BackoffTimer_slots_def pause_arith c_trunc_def mac_timer.defs)

lemma slots_bound:
  assumes "sr \<le> dmul (of_int n) slot" "2 powi (-1022) \<le> slot" "0 \<le> n" "n < 2 ^ 31"
  shows "(if c_trunc (ddiv sr slot) < 0 then 0 else c_trunc (ddiv sr slot)) \<le> n"
proof -
  have s: "0 < slot" using assms(2) powi2_pos [of "-1022"] by linarith
  have e: "to_double (of_int n + 1/2) = of_int n + 1/2"
    by (rule to_double_exact [of _ "2 * n + 1" "-1"]) (use assms in \<open>simp_all add: power_int_minus\<close>)
  have "dmul (of_int n) slot \<le> (of_int n + 1/2) * slot"
  proof (cases "n = 0")
    case False
    then have "1 * slot \<le> of_int n * slot" using assms(3) s by (intro mult_right_mono) simp_all
    moreover from this have a: "\<bar>of_int n * slot\<bar> = of_int n * slot" using s by (intro abs_of_nonneg) linarith
    ultimately have "2 powi (-1022) \<le> \<bar>of_int n * slot\<bar>" using assms(2) by (metis mult_1 order_trans)
    from to_double_relerror [OF this]
    have "\<bar>dmul (of_int n) slot - of_int n * slot\<bar> \<le> 2 powi (-53) * (of_int n * slot)"
      unfolding dmul_def a .
    moreover have "2 powi (-53) * (of_int n * slot) \<le> 1/2 * slot"
    proof -
      have "2 powi (-53) * of_int n \<le> (1/2::real)" using assms(4) by (simp add: power_int_minus)
      then have "(2 powi (-53) * of_int n) * slot \<le> 1/2 * slot" using s by (intro mult_right_mono) simp_all
      then show ?thesis by (simp add: mult.assoc)
    qed
    ultimately have "dmul (of_int n) slot - of_int n * slot \<le> 1/2 * slot" by linarith
    then show ?thesis by (simp add: algebra_simps)
  qed (use s in \<open>simp add: dmul_def\<close>)
  then have "sr / slot \<le> of_int n + 1/2" using assms(1) s by (simp add: divide_le_eq)
  then have "ddiv sr slot \<le> of_int n + 1/2" using to_double_mono_all [of "sr / slot" "of_int n + 1/2"] e by (simp add: ddiv_def)
  then have "0 \<le> ddiv sr slot \<Longrightarrow> \<lfloor>ddiv sr slot\<rfloor> \<le> n" by linarith
  moreover have "\<not> 0 \<le> ddiv sr slot \<Longrightarrow> \<lceil>ddiv sr slot\<rceil> \<le> n" using assms(3) by linarith
  ultimately show ?thesis using assms(3) by (simp add: c_trunc_def)
qed

text \<open>Before its first pause a timer is safe at every slot time: as long as no more time has passed
  since DIFS than it has to wait, the assertion in \<open>pause\<close> holds and the rest does not grow.\<close>

theorem first_pause_safe:
  assumes "BackoffTimer_start clock slot rnd cw True difs t0 = Inr (rs, t)" "2 powi (-1022) \<le> slot"
    and "0 \<le> rnd smod cw" "rnd smod cw < 2 ^ 31"
    and le: "dsub until (dadd clock difs) \<le> mt_rtime t"
  shows "\<exists>t'. BackoffTimer_pause until slot t = Inr ([MCancel], t') \<and> 0 \<le> mt_rtime t' \<and> mt_rtime t' \<le> mt_rtime t"
proof -
  define n where "n = rnd smod cw"
  have n: "0 \<le> n" "n < 2 ^ 31" using assms(3,4) by (simp_all add: n_def)
  have t: "mt_busy t" "\<not> mt_paused t" "mt_rtime t = dmul (of_int n) slot" "mt_stime t = clock" "bt_difs_wait t = difs"
    using assms(1) by (auto simp: BackoffTimer_start_def Let_def n_def split: if_splits)
  define k where "k = BackoffTimer_slots until slot t"
  have k0: "0 \<le> k" by (simp add: k_def BackoffTimer_slots_def Let_def)
  have s: "0 < slot" using assms(2) powi2_pos [of "-1022"] by linarith
  have kn: "k \<le> n"
    unfolding k_def BackoffTimer_slots_def Let_def t by (rule slots_bound [OF _ assms(2) n]) (use le in \<open>simp add: t\<close>)
  have "of_int k * slot \<le> of_int n * slot" "0 \<le> of_int k * slot"
    using kn k0 s by (simp_all add: mult_right_mono)
  then have "0 \<le> dmul (of_int k) slot" "dmul (of_int k) slot \<le> mt_rtime t"
    by (simp_all add: t dmul_def to_double_nonneg to_double_mono)
  moreover from this have "0 \<le> dsub (mt_rtime t) (dmul (of_int k) slot)"
      "dsub (mt_rtime t) (dmul (of_int k) slot) \<le> to_double (mt_rtime t)"
    by (simp_all add: dsub_def to_double_nonneg to_double_mono)
  moreover have "to_double (mt_rtime t) = mt_rtime t" by (simp add: t dmul_def)
  ultimately show ?thesis using t by (simp add: BackoffTimer_pause_def Let_def flip: k_def)
qed

section \<open>Witnesses\<close>


lemma binary_arith:
  "to_double (1 / 16384) = 1 / 16384" "to_double (3 / 16384) = 3 / 16384" "to_double 12 = 12"
  "to_double (1 / 8192) = 1 / 8192" "to_double 4 = 4"
  subgoal using to_double_eval [of "1 / 16384" 66 "2 ^ 52"] by simp
  subgoal using to_double_eval [of "3 / 16384" 65 "3 * 2 ^ 51"] by simp
  subgoal using to_double_of_int [of 12] by simp
  subgoal using to_double_eval [of "1 / 8192" 65 "2 ^ 52"] by simp
  subgoal using to_double_of_int [of 4] by simp
  done



theorem first_pause_safe_witness:
  "\<exists>t'. BackoffTimer_pause (1 / 8192) (1 / 65536) (BackoffTimer_new\<lparr>mt_busy := True,
      mt_rtime := 1 / 16384, bt_difs_wait := 1 / 16384\<rparr>) = Inr ([MCancel], t') \<and> 0 \<le> mt_rtime t'"
proof -
  define t where "t = BackoffTimer_new\<lparr>mt_busy := True, mt_rtime := 1 / 16384, bt_difs_wait := 1 / 16384\<rparr>"
  have s: "BackoffTimer_start 0 (1 / 65536) 35 31 True (1 / 16384) BackoffTimer_new = Inr ([MSched (1 / 8192)], t)"
    by (simp add: mac_timer_defs mac_timer.defs t_def dadd_def dmul_def binary_arith)
  have p: "(2::real) powi (-1022) \<le> 1 / 65536"
    using powi2_mono [of "-1022" "-16"] by (simp only: power_int_minus) simp
  have "dsub (1 / 8192) (dadd 0 (1 / 16384)) \<le> mt_rtime t"
    by (simp add: dsub_def dadd_def binary_arith t_def)
  then show ?thesis using first_pause_safe [OF s p] by (fastforce simp: t_def)
qed

end
