(* ===== verification/Spec2Isabelle.thy ===== *)
theory Spec2Isabelle
  imports Resolution QInventory Silence Timer InterfaceQueue LinkLayer AddrAlloc Rng WirelessChannel NodeStack MacTimers
begin

text \<open>
  A verification library for the RFID extension of the ns-2 network simulator
  (src/ns-2.35) and for the parts of the simulator that its inventories run on.

  The program. An RFID reader (\<open>RfidReaderAgent\<close>) and a population of tags
  (\<open>RfidTagAgent\<close>) exchange packets with an RFID header. The reader runs an inventory: slots
  driven by its timers, in each of which no tag, one tag or several tags answer. Below the
  agents a packet passes the link layer (\<open>LL\<close> with its ARP table), the interface queue
  (\<open>PriQueue\<close> over \<open>DropTail\<close> over \<open>Queue\<close>), the MAC and the radio interface; everything that
  takes time is an event of the \<open>Scheduler\<close>, whose event queue is one of five
  implementations, and timers are \<open>TimerHandler\<close> objects on top of it. Random draws come from
  \<open>RNG\<close>, node addresses from \<open>AllocAddr\<close> and \<open>Address\<close>.

  The theories, in dependency order, and the sources they model.

  \<^item> Prelude: the result type of operations that may abort, C truncation and rounding, list
    lemmas, and the rule collections of the component proofs.
  \<^item> MachineFloat: IEEE single and double precision as real numbers rounded to nearest even.
  \<^item> Packet (common/packet.h, common/ip.h, apps/rfidPacket.h, common/agent.cc): the headers
    the components read, \<open>Packet::alloc\<close>, \<open>free\<close>, \<open>copy\<close> and \<open>refcopy\<close> on the free list, and
    the outputs (\<open>act\<close>) of an agent.
  \<^item> RfidTag (apps/rfidTag.cc), RfidReader (apps/rfidReader.cc), QAlgorithm: both agents, every
    branch of \<open>recv\<close>, of both timers and of the Tcl commands; one definition per member function.
  \<^item> Frames, Inventory, CellSlots, Dfsa, Resolution, QInventory, Silence: a reader and its tags
    together. The record \<open>cell\<close> holds both agents' states and which timers are pending, and
    \<open>cell_run\<close> is the step relation of the composed system.
  \<^item> EventQueue, ListSched, MapSched, SplaySched, HeapSched, CalendarSched, CalendarQueue
    (common/scheduler.cc, common/scheduler-map.cc, common/splay-scheduler.cc, common/heap.h):
    the locale \<open>event_queue\<close> is the contract of an event queue, interpreted on each
    implementation but the one of MapSched, whose \<open>deque\<close> is undefined. Scheduler: \<open>schedule\<close>, \<open>cancel\<close>, \<open>dispatch\<close>, \<open>run\<close>, \<open>dumpq\<close> over the contract.
  \<^item> Timer (common/timer-handler.cc): the timer state machine, run by the scheduler.
  \<^item> PacketQueue, LinkQueue, DropTailQueue, InterfaceQueue (queue/queue.h, queue/queue.cc,
    queue/drop-tail.cc, queue/priqueue.cc): the linked packet list on an explicit store of
    next pointers, the blocking queue and its utilization, and both disciplines.
  \<^item> LinkLayer (mac/ll.cc, mac/arp.cc, mac/arp.h, mac/varp.cc, mac/mac.h): the link layer with
    address resolution.
  \<^item> AddrAlloc, Address (routing/alloc-address.cc, routing/address.cc, routing/route.cc): bit
    fields of the address word, printing and parsing of addresses.
  \<^item> Mrg, MrgTables, Rng (tools/rng.cc, tools/rng.h): the combined multiple recursive generator
    MRG32k3a in rounded double arithmetic, its streams and seeding.
  \<^item> NodeList (mac/channel.cc, common/mobilenode.cc, mobile/topography.h): movement of nodes and
    the pointer list of the channel, sorted by position. Propagation (mobile/propagation.cc,
    mobile/tworayground.cc, mobile/antenna.cc): received power and reach. WirelessChannel
    (mac/channel.cc): delivery of a transmission to the nodes around the sender.
  \<^item> Energy (mobile/energy-model.cc), WirelessPhy (mac/wireless-phy.cc): the energy account of
    a node and what the radio interface transmits, receives and charges.
  \<^item> MacBase (mac/mac.cc, mac/mac.h): the base MAC, and its composition with the interface queue
    and the resume event. Classifier (classifier/classifier.cc, classifier-hash.cc,
    classifier-port.cc, classifier-addr.cc): slot tables, ports and routes of a node. NodeStack
    (mobile/dumb-agent.cc, mac/phy.cc): the path of a packet from an agent through the entry
    classifier, DumbAgent, LL, Mac and the interface to the air, and up again to an agent.
  \<^item> MacTimers (mac/mac-timers.cc): the timers of the IEEE 802.11 MAC, with the pausing backoff.
  Correspondence. A C++ object is a record with a field per member; a member function is a
  definition of the same name taking and returning the record (a constructor is \<open>new_...\<close>).
  What an object does to others (send, free or drop a packet, set a timer, schedule an event)
  is appended to a list of outputs in the record, in program order, so a property can state
  which packets were sent and in which order. An early return is a branch. \<open>abort\<close>, \<open>assert\<close>
  and fatal errors are \<open>Inl\<close>; a loop that need not end, or an undefined access, is \<open>None\<close>.
  Pointers into shared structures (packets in a queue, timers' events) are numbers into an
  explicit store, so aliasing (a packet freed twice or queued twice) is visible.

  Numbers. The agents' float and double fields carry IEEE rounding after every operation.
  Times of the schedulers and the statistics of the queues are exact reals; the order of
  events needs no arithmetic on them, and the properties of utilizations would hold only
  up to rounding. The calendar queue's bucket widths are arbitrary, so its theorems hold for
  whatever the floating-point estimate gives. C++ int counters are unbounded integers, which
  agrees with the source while they stay below 2^31; where the width matters (event uids, the
  heap's insertion counter, addresses and masks) it is written out.

  Randomness. Each use of a random number is an argument of the operation, ranging over the
  documented interval of \<open>RNG::uniform\<close> and otherwise arbitrary: the theorems hold for every
  sequence of draws, and so for every seed.
  The generator itself is modelled in Rng; \<open>rng_draw_exact\<close> and \<open>rng_integers_in_range\<close> show
  that its draws lie in the intervals the other theories assume.
  The composed inventory. The medium of a cell is reliable: a broadcast reaches all tags, a
  unicast the addressed one, and answers arrive before the reader's next timer. The inventory
  theorems concern the protocol above it; the theorem on late confirmations shows what changes
  when the order of two receptions does. Populations are bounded by 10^6 tags, far below the
  point where a frame size or a counter could leave the range of int.

  Fuel. Simulations run for a given number of dispatches and the theorems hold for every
  number. Loops over linked lists are partial functions, and the theorems about them state
  that they return.

  The lemma groups. Per component: an invariant and its preservation by every operation; a
  functional description of each operation on every branch; an abstraction (\<open>pq_repr\<close>,
  \<open>cal_elems\<close>, \<open>cores\<close>) under which it refines a simpler one. Contracts between components are
  locales: \<open>event_queue\<close> (client Scheduler), \<open>link_server\<close> (the queue disciplines, client the
  link service properties) and the others declared where they are used; each is
  interpreted on the definitions that model the code.

  Not modelled, and why. The IEEE 802.11 MAC and its renamed copy for RFID
  (mac/mac-rfid.cc, which no build rule compiles), the other MACs: the RFID scenarios run on
  the base class Mac. Of the channel: the optional grid keeper, the extended interfaces and the
  wired Channel and NoDupChannel classes. Of propagation: shadowing, Nakagami fading and the
  modulation schemes, which are probability distributions over the received power, and the
  rounding of the Friis and two-ray formulas, which are stated over the real numbers. Of the
  mobile node: random motion, logging and the omniscient hop counts. Of packets: payload data,
  which no modelled component reads.
  The remaining directories of ns-2 (transport, routing, satellite, sensor networks, wired
  queues) are independent of the RFID extension; Tcl glue and generated code carry no logic of
  their own. Debug output and log files are left out everywhere.
\<close>

end
